(* ===== verification/Dnbd3_Prelude.thy ===== *)
theory Dnbd3_Prelude
  imports Main "HOL-Library.Word"
begin

unbundle bit_operations_syntax

text \<open>
  Shared material of the development: names for the machine integers of the C code, the
  theorem collections the component proofs draw on, byte strings of unsigned integers,
  the 4 KiB alignment arithmetic that the server and the uplink code repeat, and a few
  facts on lists that the array-of-slots tables of the server share.
\<close>

section \<open>Machine integers\<close>

type_synonym u8 = "8 word"
type_synonym u16 = "16 word"
type_synonym u32 = "32 word"
type_synonym u64 = "64 word"

text \<open>\<open>slot_simps\<close> collects rewriting rules on tables of slots, \<open>align_simps\<close> those on block
  alignment, \<open>wire_simps\<close> those on byte strings.\<close>

named_theorems slot_simps
named_theorems align_simps
named_theorems wire_simps

lemma unat_u8_less: "unat (b :: u8) < 256"
  using unsigned_less [of b] by simp

lemma unat_u16_less: "unat (b :: u16) < 65536"
  using unsigned_less [of b] by simp

lemma unat_u32_less: "unat (b :: u32) < 4294967296"
  using unsigned_less [of b] by simp

lemma unat_u64_less: "unat (b :: u64) < 18446744073709551616"
  using unsigned_less [of b] by simp

lemma unat_drop_bit_div: "unat (drop_bit k (a :: 'a::len word)) = unat a div 2 ^ k"
  by (subst unat_drop_bit_eq) (simp add: drop_bit_eq_div)

lemma unat_take_bit_mod: "unat (take_bit k (a :: 'a::len word)) = unat a mod 2 ^ k"
proof -
  have "unat (take_bit k a) = take_bit k (unat a)"
    by (rule unsigned_take_bit_eq)
  then show ?thesis by (simp only: take_bit_eq_mod)
qed

text \<open>Unsigned addition that does not wrap around is addition of the values.\<close>

lemma unat_add_no_wrap: "unat (a :: 'a::len word) + unat b < 2 ^ LENGTH('a) \<Longrightarrow> unat (a + b) = unat a + unat b"
  by (simp add: unat_word_ariths)

section \<open>Byte strings of unsigned integers\<close>

text \<open>\<open>le_bytes k n\<close> is the little endian representation of \<open>n\<close> in \<open>k\<close> bytes, and
  \<open>le_value\<close> reads such a string back.\<close>

fun le_bytes :: "nat \<Rightarrow> nat \<Rightarrow> u8 list" where
  "le_bytes 0 n = []"
| "le_bytes (Suc k) n = word_of_nat n # le_bytes k (n div 256)"

fun le_value :: "u8 list \<Rightarrow> nat" where
  "le_value [] = 0"
| "le_value (b # bs) = unat b + 256 * le_value bs"

lemma length_le_bytes [simp, wire_simps]: "length (le_bytes k n) = k"
  by (induction k arbitrary: n) auto

lemma le_bytes_numeral:
  "le_bytes (numeral k) n = word_of_nat n # le_bytes (pred_numeral k) (n div 256)"
  by (simp only: numeral_eq_Suc [of k] le_bytes.simps)

lemma le_value_bytes: "le_value (le_bytes k n) = n mod 256 ^ k"
proof (induction k arbitrary: n)
  case 0
  then show ?case by simp
next
  case (Suc k)
  have "le_value (le_bytes (Suc k) n) = n mod 256 + 256 * (n div 256 mod 256 ^ k)"
    by (simp add: Suc.IH unat_of_nat)
  also have "\<dots> = n mod (256 * 256 ^ k)"
    by (simp add: mod_mult2_eq)
  finally show ?case by simp
qed

lemma le_bytes_value: "length bs = k \<Longrightarrow> le_bytes k (le_value bs) = bs"
proof (induction bs arbitrary: k)
  case Nil
  then show ?case by simp
next
  case (Cons b bs)
  have "(unat b + 256 * le_value bs) div 256 = le_value bs"
    using unat_u8_less [of b] by simp
  moreover have "(word_of_nat (unat b + 256 * le_value bs) :: u8) = b"
    using unat_u8_less [of b] by (simp only: word_unat_eq_iff unat_of_nat) simp
  ultimately show ?case using Cons by (cases k) auto
qed

lemma le_value_bound: "le_value bs < 256 ^ length bs"
proof (induction bs)
  case Nil
  then show ?case by simp
next
  case (Cons b bs)
  with unat_u8_less [of b] show ?case by simp
qed

lemma nth_le_bytes: "i < k \<Longrightarrow> le_bytes k n ! i = word_of_nat (n div 256 ^ i)"
proof (induction k arbitrary: n i)
  case 0
  then show ?case by simp
next
  case (Suc k)
  then show ?case by (cases i) (auto simp: div_mult2_eq)
qed

text \<open>The bytes of a word are its groups of eight bits.\<close>

lemma le_bytes_word_nth:
  assumes "i < k"
  shows "le_bytes k (unat (a :: 'a::len word)) ! i = (ucast (drop_bit (8 * i) a) :: u8)"
proof -
  have e: "(2::nat) ^ (8 * i) = 256 ^ i"
    by (subst power_mult) simp
  have "unat (drop_bit (8 * i) a) = unat a div 256 ^ i"
    by (simp only: unat_drop_bit_div e)
  moreover have "(ucast (drop_bit (8 * i) a) :: u8) = word_of_nat (unat (drop_bit (8 * i) a))"
    by simp
  ultimately show ?thesis
    by (simp only: nth_le_bytes [OF assms])
qed

section \<open>Alignment to 4 KiB blocks\<close>

text \<open>The expressions \<open>x & ~(uint64_t)(DNBD3_BLOCK_SIZE - 1)\<close> and
  \<open>(x + DNBD3_BLOCK_SIZE - 1) & ~(uint64_t)(DNBD3_BLOCK_SIZE - 1)\<close> of the C code.\<close>

definition align_down :: "u64 \<Rightarrow> u64" where
  "align_down x = x AND NOT (4096 - 1)"

definition align_up :: "u64 \<Rightarrow> u64" where
  "align_up x = (x + 4096 - 1) AND NOT (4096 - 1)"

lemma and_not_4095: "(x :: u64) AND NOT (4096 - 1) = x - take_bit 12 x"
proof -
  have m: "(4096 - 1 :: u64) = mask 12"
    by (simp add: mask_eq_exp_minus_1)
  have "push_bit 12 (drop_bit 12 x) = x AND NOT (4096 - 1)"
    unfolding m by (rule bit_word_eqI) (auto simp: bit_simps)
  then show ?thesis
    using bits_ident [of 12 x] by (metis add_diff_cancel_right')
qed

lemma unat_align_down [align_simps]: "unat (align_down x) = unat x div 4096 * 4096"
proof -
  have t: "unat (take_bit 12 x) = unat x mod 4096"
    using unat_take_bit_mod [of 12 x] by simp
  then have "take_bit 12 x \<le> x"
    by (simp add: word_le_nat_alt)
  then have "unat (x - take_bit 12 x) = unat x - unat x mod 4096"
    by (simp add: unat_sub t)
  then show ?thesis
    unfolding align_down_def and_not_4095 by (simp add: minus_mod_eq_div_mult)
qed

lemma unat_align_up [align_simps]:
  assumes "unat x + 4095 < 2 ^ 64"
  shows "unat (align_up x) = (unat x + 4095) div 4096 * 4096"
proof -
  have "x + 4096 - 1 = x + 4095" by simp
  moreover have "unat (x + 4095) = unat x + 4095"
    using assms by (subst unat_add_no_wrap) auto
  ultimately show ?thesis
    using unat_align_down [of "x + 4095"] by (simp only: align_up_def align_down_def)
qed

lemma align_down_le: "align_down x \<le> x"
  by (simp add: word_le_nat_alt unat_align_down)

section \<open>Tables of slots\<close>

text \<open>Trailing empty slots of a table are cut off by the loops that run from the highest
  index down and decrease the length while the last slot is empty.\<close>

fun drop_free :: "('a \<Rightarrow> bool) \<Rightarrow> 'a list \<Rightarrow> 'a list" where
  "drop_free free xs = rev (dropWhile free (rev xs))"

declare drop_free.simps [simp del]

lemma drop_free_Nil [simp, slot_simps]: "drop_free free [] = []"
  by (simp add: drop_free.simps)

lemma drop_free_snoc [simp, slot_simps]:
  "drop_free free (xs @ [x]) = (if free x then drop_free free xs else xs @ [x])"
  by (simp add: drop_free.simps)

lemma set_drop_free [slot_simps]: "x \<in> set xs \<Longrightarrow> \<not> free x \<Longrightarrow> x \<in> set (drop_free free xs)"
  by (induction xs rule: rev_induct) auto

lemma set_drop_free_subset: "set (drop_free free xs) \<subseteq> set xs"
  by (induction xs rule: rev_induct) auto

lemma length_drop_free_le: "length (drop_free free xs) \<le> length xs"
  by (induction xs rule: rev_induct) auto

lemma last_drop_free: "drop_free free xs \<noteq> [] \<Longrightarrow> \<not> free (last (drop_free free xs))"
  by (induction xs rule: rev_induct) (auto split: if_splits)

lemma filter_drop_free [slot_simps]:
  "filter (\<lambda>x. \<not> free x) (drop_free free xs) = filter (\<lambda>x. \<not> free x) xs"
  by (induction xs rule: rev_induct) auto

lemma drop_free_append: "\<exists>ys. xs = drop_free free xs @ ys \<and> list_all free ys"
proof (induction xs rule: rev_induct)
  case Nil
  then show ?case by simp
next
  case (snoc x xs)
  then obtain ys where "xs = drop_free free xs @ ys" "list_all free ys" by blast
  then show ?case
    by (cases "free x") (auto intro!: exI [of _ "ys @ [x]"])
qed

lemma nth_drop_free: "i < length (drop_free free xs) \<Longrightarrow> drop_free free xs ! i = xs ! i"
proof -
  assume "i < length (drop_free free xs)"
  moreover obtain ys where "xs = drop_free free xs @ ys"
    using drop_free_append by blast
  ultimately show ?thesis by (metis nth_append)
qed

text \<open>The first index that satisfies a test, as the search loops of the C code compute it.\<close>

fun first_index :: "('a \<Rightarrow> bool) \<Rightarrow> 'a list \<Rightarrow> nat option" where
  "first_index P [] = None"
| "first_index P (x # xs) = (if P x then Some 0 else map_option Suc (first_index P xs))"

lemma first_index_Some:
  "first_index P xs = Some i \<Longrightarrow> i < length xs \<and> P (xs ! i) \<and> (\<forall>j<i. \<not> P (xs ! j))"
proof (induction xs arbitrary: i)
  case Nil
  then show ?case by simp
next
  case (Cons x xs)
  then show ?case
    by (cases i) (auto split: if_splits simp: less_Suc_eq_0_disj)
qed

lemma first_index_None: "first_index P xs = None \<longleftrightarrow> (\<forall>x\<in>set xs. \<not> P x)"
  by (induction xs) auto

lemma list_all_update: "list_all P xs \<Longrightarrow> P y \<Longrightarrow> list_all P (xs[i := y])"
  by (induction xs arbitrary: i) (auto split: nat.splits)

end
