(* ===== verification/Protocol_Types.thy ===== *)
theory Protocol_Types
  imports Dnbd3_Prelude
begin

text \<open>
  The wire types of \<open>src/types.h\<close>: byte order of the host, the packet magic, host addresses,
  and the request and reply headers with their layout in memory. The layout and the byte
  order macros are modelled for both kinds of host, so that the bytes that go over the
  network can be compared.
\<close>

section \<open>Byte order\<close>

datatype endian = LE | BE

text \<open>A native store of an unsigned integer of \<open>k\<close> bytes into memory, and the load.\<close>

definition store_native :: "endian \<Rightarrow> nat \<Rightarrow> nat \<Rightarrow> u8 list" where
  "store_native e k n = (case e of LE \<Rightarrow> le_bytes k n | BE \<Rightarrow> rev (le_bytes k n))"

definition load_native :: "endian \<Rightarrow> u8 list \<Rightarrow> nat" where
  "load_native e bs = (case e of LE \<Rightarrow> le_value bs | BE \<Rightarrow> le_value (rev bs))"

definition net_order_64 :: "endian \<Rightarrow> u64 \<Rightarrow> u64" where
  "net_order_64 e a = (case e of LE \<Rightarrow> a
    | BE \<Rightarrow> push_bit 56 (a AND 0xFF) OR push_bit 40 (a AND 0xFF00)
         OR push_bit 24 (a AND 0xFF0000) OR push_bit 8 (a AND 0xFF000000)
         OR drop_bit 8 (a AND 0xFF00000000) OR drop_bit 24 (a AND 0xFF0000000000)
         OR drop_bit 40 (a AND 0xFF000000000000) OR drop_bit 56 (a AND 0xFF00000000000000))"

definition net_order_32 :: "endian \<Rightarrow> u32 \<Rightarrow> u32" where
  "net_order_32 e a = (case e of LE \<Rightarrow> a
    | BE \<Rightarrow> push_bit 24 (a AND 0xFF) OR push_bit 8 (a AND 0xFF00)
         OR drop_bit 8 (a AND 0xFF0000) OR drop_bit 24 (a AND 0xFF000000))"

definition net_order_16 :: "endian \<Rightarrow> u16 \<Rightarrow> u16" where
  "net_order_16 e a = (case e of LE \<Rightarrow> a
    | BE \<Rightarrow> push_bit 8 (a AND 0xFF) OR drop_bit 8 (a AND 0xFF00))"

definition dnbd3_packet_magic :: "endian \<Rightarrow> u16" where
  "dnbd3_packet_magic e = (case e of LE \<Rightarrow> 0x73 OR push_bit 8 0x72 | BE \<Rightarrow> push_bit 8 0x73 OR 0x72)"

section \<open>Constants\<close>

definition MAX_PAYLOAD :: nat where "MAX_PAYLOAD = 1000"
definition PROTOCOL_VERSION :: u16 where "PROTOCOL_VERSION = 3"
definition NUMBER_SERVERS :: nat where "NUMBER_SERVERS = 8"
definition DNBD3_BLOCK_SIZE :: u64 where "DNBD3_BLOCK_SIZE = 4096"

definition CMD_GET_BLOCK :: u16 where "CMD_GET_BLOCK = 1"
definition CMD_SELECT_IMAGE :: u16 where "CMD_SELECT_IMAGE = 2"
definition CMD_GET_SERVERS :: u16 where "CMD_GET_SERVERS = 3"
definition CMD_ERROR :: u16 where "CMD_ERROR = 4"
definition CMD_KEEPALIVE :: u16 where "CMD_KEEPALIVE = 5"
definition CMD_LATEST_RID :: u16 where "CMD_LATEST_RID = 6"
definition CMD_SET_CLIENT_MODE :: u16 where "CMD_SET_CLIENT_MODE = 7"
definition CMD_GET_CRC32 :: u16 where "CMD_GET_CRC32 = 8"

lemmas cmd_defs = CMD_GET_BLOCK_def CMD_SELECT_IMAGE_def CMD_GET_SERVERS_def CMD_ERROR_def
  CMD_KEEPALIVE_def CMD_LATEST_RID_def CMD_SET_CLIENT_MODE_def CMD_GET_CRC32_def

definition HOST_NONE :: u8 where "HOST_NONE = 0"
definition HOST_IP4 :: u8 where "HOST_IP4 = 2"
definition HOST_IP6 :: u8 where "HOST_IP6 = 10"

section \<open>Structures\<close>

record dnbd3_host =
  addr :: "u8 list"
  port :: u16
  host_type :: u8

record dnbd3_request =
  rq_magic :: u16
  rq_cmd :: u16
  rq_size :: u32
  rq_offset :: u64
  rq_handle :: u64

record dnbd3_reply =
  rp_magic :: u16
  rp_cmd :: u16
  rp_size :: u32
  rp_handle :: u64

record dnbd3_server_entry =
  se_host :: dnbd3_host
  se_failures :: u8

text \<open>The union of \<open>offset\<close> with the bit field of 56 bits and the hop count: on both kinds of
  host the hop count is the most significant byte of \<open>offset\<close>.\<close>

definition offset_small :: "dnbd3_request \<Rightarrow> u64" where
  "offset_small r = take_bit 56 (rq_offset r)"

definition hops :: "dnbd3_request \<Rightarrow> u8" where
  "hops r = ucast (drop_bit 56 (rq_offset r))"

definition set_hops :: "u8 \<Rightarrow> dnbd3_request \<Rightarrow> dnbd3_request" where
  "set_hops h r = r\<lparr>rq_offset := take_bit 56 (rq_offset r) OR push_bit 56 (ucast h)\<rparr>"

definition fixup_request :: "endian \<Rightarrow> dnbd3_request \<Rightarrow> dnbd3_request" where
  "fixup_request e a = a\<lparr>rq_cmd := net_order_16 e (rq_cmd a), rq_size := net_order_32 e (rq_size a),
     rq_offset := net_order_64 e (rq_offset a)\<rparr>"

definition fixup_reply :: "endian \<Rightarrow> dnbd3_reply \<Rightarrow> dnbd3_reply" where
  "fixup_reply e a = a\<lparr>rp_cmd := net_order_16 e (rp_cmd a), rp_size := net_order_32 e (rp_size a)\<rparr>"

text \<open>The packed structures as bytes in memory, 24 and 16 bytes.\<close>

definition request_mem :: "endian \<Rightarrow> dnbd3_request \<Rightarrow> u8 list" where
  "request_mem e r = store_native e 2 (unat (rq_magic r)) @ store_native e 2 (unat (rq_cmd r))
     @ store_native e 4 (unat (rq_size r)) @ store_native e 8 (unat (rq_offset r))
     @ store_native e 8 (unat (rq_handle r))"

definition request_of_mem :: "endian \<Rightarrow> u8 list \<Rightarrow> dnbd3_request" where
  "request_of_mem e bs = \<lparr>rq_magic = word_of_nat (load_native e (take 2 bs)),
     rq_cmd = word_of_nat (load_native e (take 2 (drop 2 bs))),
     rq_size = word_of_nat (load_native e (take 4 (drop 4 bs))),
     rq_offset = word_of_nat (load_native e (take 8 (drop 8 bs))),
     rq_handle = word_of_nat (load_native e (take 8 (drop 16 bs)))\<rparr>"

definition reply_mem :: "endian \<Rightarrow> dnbd3_reply \<Rightarrow> u8 list" where
  "reply_mem e r = store_native e 2 (unat (rp_magic r)) @ store_native e 2 (unat (rp_cmd r))
     @ store_native e 4 (unat (rp_size r)) @ store_native e 8 (unat (rp_handle r))"

definition reply_of_mem :: "endian \<Rightarrow> u8 list \<Rightarrow> dnbd3_reply" where
  "reply_of_mem e bs = \<lparr>rp_magic = word_of_nat (load_native e (take 2 bs)),
     rp_cmd = word_of_nat (load_native e (take 2 (drop 2 bs))),
     rp_size = word_of_nat (load_native e (take 4 (drop 4 bs))),
     rp_handle = word_of_nat (load_native e (take 8 (drop 8 bs)))\<rparr>"

section \<open>Comparing hosts\<close>

definition addr_len :: "dnbd3_host \<Rightarrow> nat" where
  "addr_len a = (if host_type a = HOST_IP4 then 4 else 16)"

definition isSameAddress :: "dnbd3_host \<Rightarrow> dnbd3_host \<Rightarrow> bool" where
  "isSameAddress a b \<longleftrightarrow> host_type a = host_type b \<and> take (addr_len a) (addr a) = take (addr_len a) (addr b)"

definition isSameAddressPort :: "dnbd3_host \<Rightarrow> dnbd3_host \<Rightarrow> bool" where
  "isSameAddressPort a b \<longleftrightarrow> host_type a = host_type b \<and> port a = port b
     \<and> take (addr_len a) (addr a) = take (addr_len a) (addr b)"

lemma isSameAddressPort_refl [simp]: "isSameAddressPort a a"
  by (simp add: isSameAddressPort_def)

lemma isSameAddressPort_sym: "isSameAddressPort a b \<longleftrightarrow> isSameAddressPort b a"
  by (auto simp: isSameAddressPort_def addr_len_def)

lemma isSameAddressPort_trans: "isSameAddressPort a b \<Longrightarrow> isSameAddressPort b c \<Longrightarrow> isSameAddressPort a c"
  by (auto simp: isSameAddressPort_def addr_len_def)

section \<open>Native memory\<close>

lemma length_store_native [simp, wire_simps]: "length (store_native e k n) = k"
  by (cases e) (auto simp: store_native_def)

lemma load_store_native: "load_native e (store_native e k n) = n mod 256 ^ k"
  by (cases e) (auto simp: load_native_def store_native_def le_value_bytes)

lemma load_store_word:
  assumes "LENGTH('a::len) = 8 * k"
  shows "word_of_nat (load_native e (store_native e k (unat (w :: 'a word)))) = w"
proof -
  have e: "(256::nat) ^ k = 2 ^ LENGTH('a)"
    unfolding assms power_mult by simp
  then have "unat w < 256 ^ k"
    by (metis unsigned_less)
  then have "unat w mod 256 ^ k = unat w" by simp
  then show ?thesis
    by (simp only: load_store_native) simp
qed

lemma load_store_words [wire_simps]:
  "word_of_nat (load_native e (store_native e 2 (unat (a :: u16)))) = a"
  "word_of_nat (load_native e (store_native e 4 (unat (b :: u32)))) = b"
  "word_of_nat (load_native e (store_native e 8 (unat (c :: u64)))) = c"
  by (rule load_store_word, simp)+

section \<open>The byte order macros reverse the bytes\<close>

lemma byte_masks_64:
  "(0xFF :: u64) = mask 8" "(0xFF00 :: u64) = push_bit 8 (mask 8)"
  "(0xFF0000 :: u64) = push_bit 16 (mask 8)" "(0xFF000000 :: u64) = push_bit 24 (mask 8)"
  "(0xFF00000000 :: u64) = push_bit 32 (mask 8)" "(0xFF0000000000 :: u64) = push_bit 40 (mask 8)"
  "(0xFF000000000000 :: u64) = push_bit 48 (mask 8)" "(0xFF00000000000000 :: u64) = push_bit 56 (mask 8)"
  by (simp_all add: mask_eq_exp_minus_1 push_bit_eq_mult)

lemma byte_masks_32:
  "(0xFF :: u32) = mask 8" "(0xFF00 :: u32) = push_bit 8 (mask 8)"
  "(0xFF0000 :: u32) = push_bit 16 (mask 8)" "(0xFF000000 :: u32) = push_bit 24 (mask 8)"
  by (simp_all add: mask_eq_exp_minus_1 push_bit_eq_mult)

lemma byte_masks_16:
  "(0xFF :: u16) = mask 8" "(0xFF00 :: u16) = push_bit 8 (mask 8)"
  by (simp_all add: mask_eq_exp_minus_1 push_bit_eq_mult)

lemma nat_less_8_cases:
  assumes "(i :: nat) < 8"
  obtains "i = 0" | "i = 1" | "i = 2" | "i = 3" | "i = 4" | "i = 5" | "i = 6" | "i = 7"
  using assms by linarith

lemma bit_net_order_64:
  assumes "i < 8" "n < 8"
  shows "bit (net_order_64 BE a) (8 * i + n) = bit a (8 * (8 - 1 - i) + n)"
  unfolding net_order_64_def endian.case byte_masks_64 using assms(2)
  by (rule_tac nat_less_8_cases [OF assms(1)]) (simp_all add: bit_simps)

lemma bit_net_order_32:
  assumes "i < 4" "n < 8"
  shows "bit (net_order_32 BE a) (8 * i + n) = bit a (8 * (4 - 1 - i) + n)"
  unfolding net_order_32_def endian.case byte_masks_32 using assms
  by (rule_tac nat_less_8_cases [of i]) (simp_all add: bit_simps)

lemma bit_net_order_16:
  assumes "i < 2" "n < 8"
  shows "bit (net_order_16 BE a) (8 * i + n) = bit a (8 * (2 - 1 - i) + n)"
  unfolding net_order_16_def endian.case byte_masks_16 using assms
  by (rule_tac nat_less_8_cases [of i]) (simp_all add: bit_simps)

text \<open>A function that moves byte \<open>i\<close> to place \<open>k - 1 - i\<close> reverses the byte string.\<close>

lemma rev_le_bytes_swap:
  assumes swap: "\<And>i n. i < k \<Longrightarrow> n < 8 \<Longrightarrow> bit (f a) (8 * i + n) = bit (a :: 'a::len word) (8 * (k - 1 - i) + n)"
    and len: "LENGTH('a) = 8 * k"
  shows "rev (le_bytes k (unat (f a :: 'a word))) = le_bytes k (unat a)"
proof (rule nth_equalityI)
  fix i assume "i < length (rev (le_bytes k (unat (f a))))"
  then have i: "i < k" by simp
  then have j: "k - 1 - i < k" by simp
  have "(ucast (drop_bit (8 * (k - 1 - i)) (f a)) :: u8) = ucast (drop_bit (8 * i) a)"
  proof (rule bit_word_eqI)
    fix n assume "n < LENGTH(8)"
    then have n: "n < 8" by simp
    have "k - 1 - (k - 1 - i) = i" using i by simp
    with swap [OF j n] show "bit (ucast (drop_bit (8 * (k - 1 - i)) (f a)) :: u8) n
        = bit (ucast (drop_bit (8 * i) a) :: u8) n"
      using n by (simp add: bit_simps)
  qed
  then show "rev (le_bytes k (unat (f a))) ! i = le_bytes k (unat a) ! i"
    using i j by (simp add: rev_nth le_bytes_word_nth del: unsigned_of_nat)
qed simp

lemma store_net_order [wire_simps]:
  "store_native e 2 (unat (net_order_16 e a)) = le_bytes 2 (unat a)"
  "store_native e 4 (unat (net_order_32 e b)) = le_bytes 4 (unat b)"
  "store_native e 8 (unat (net_order_64 e c)) = le_bytes 8 (unat c)"
  using rev_le_bytes_swap [of 2 "net_order_16 BE" a] rev_le_bytes_swap [of 4 "net_order_32 BE" b]
    rev_le_bytes_swap [of 8 "net_order_64 BE" c]
  by (cases e; simp add: store_native_def bit_net_order_16 bit_net_order_32 bit_net_order_64
        net_order_16_def [of LE] net_order_32_def [of LE] net_order_64_def [of LE])+

text \<open>Loading and converting back gives the little endian value, on either kind of host.\<close>

lemma load_net_order_generic:
  assumes st: "\<And>w :: 'a::len word. store_native e k (unat (f w)) = le_bytes k (unat w)"
    and inv: "\<And>w. f (f w) = w" and len: "LENGTH('a) = 8 * k" and l: "length bs = k"
  shows "f (word_of_nat (load_native e bs)) = word_of_nat (le_value bs)"
proof -
  let ?w = "word_of_nat (le_value bs) :: 'a word"
  have p: "(256::nat) ^ k = 2 ^ LENGTH('a)"
    unfolding len power_mult by simp
  have "unat ?w = le_value bs"
    using le_value_bound [of bs] l p by (simp only: unat_of_nat) simp
  then have "store_native e k (unat (f ?w)) = bs"
    using l by (simp only: st le_bytes_value)
  then have "word_of_nat (load_native e bs) = f ?w"
    using load_store_word [OF len, of e "f ?w"] by simp
  then show ?thesis by (simp only: inv)
qed

lemma byte_swap_involutive:
  assumes swap: "\<And>a i n. i < k \<Longrightarrow> n < 8 \<Longrightarrow> bit (f a) (8 * i + n) = bit (a :: 'a::len word) (8 * (k - 1 - i) + n)"
    and len: "LENGTH('a) = 8 * k"
  shows "f (f a :: 'a word) = a"
proof (rule bit_word_eqI)
  fix m assume "m < LENGTH('a)"
  with len have i: "m div 8 < k" by (simp add: less_mult_imp_div_less mult.commute)
  then have j: "k - 1 - m div 8 < k" by simp
  have n: "m mod 8 < 8" by simp
  have "k - 1 - (k - 1 - m div 8) = m div 8" using i by simp
  with swap [OF i n, of "f a"] swap [OF j n, of a] show "bit (f (f a)) m = bit a m" by simp
qed

lemma net_order_involutive:
  "net_order_16 e (net_order_16 e a) = a"
  "net_order_32 e (net_order_32 e b) = b"
  "net_order_64 e (net_order_64 e c) = c"
  using byte_swap_involutive [of 2 "net_order_16 BE" a] byte_swap_involutive [of 4 "net_order_32 BE" b]
    byte_swap_involutive [of 8 "net_order_64 BE" c]
  by (cases e; simp add: bit_net_order_16 bit_net_order_32 bit_net_order_64
        net_order_16_def [of LE] net_order_32_def [of LE] net_order_64_def [of LE])+

lemma load_net_order [wire_simps]:
  "length bs = 2 \<Longrightarrow> net_order_16 e (word_of_nat (load_native e bs)) = word_of_nat (le_value bs)"
  "length bs = 4 \<Longrightarrow> net_order_32 e (word_of_nat (load_native e bs)) = word_of_nat (le_value bs)"
  "length bs = 8 \<Longrightarrow> net_order_64 e (word_of_nat (load_native e bs)) = word_of_nat (le_value bs)"
  by (rule load_net_order_generic; simp add: store_net_order net_order_involutive)+

section \<open>The packed headers\<close>

lemma length_request_mem [simp]: "length (request_mem e r) = 24"
  by (simp add: request_mem_def)

lemma length_reply_mem [simp]: "length (reply_mem e r) = 16"
  by (simp add: reply_mem_def)

lemma request_of_mem_request_mem [simp]: "request_of_mem e (request_mem e r) = r"
  by (simp add: request_of_mem_def request_mem_def load_store_words)

lemma reply_of_mem_reply_mem [simp]: "reply_of_mem e (reply_mem e r) = r"
  by (simp add: reply_of_mem_def reply_mem_def load_store_words)

lemma fixup_request_involutive [simp]: "fixup_request e (fixup_request e r) = r"
  by (simp add: fixup_request_def net_order_involutive)

lemma fixup_reply_involutive [simp]: "fixup_reply e (fixup_reply e r) = r"
  by (simp add: fixup_reply_def net_order_involutive)

lemma magic_mem: "store_native e 2 (unat (dnbd3_packet_magic e)) = [0x73, 0x72]"
  by (cases e) (simp_all add: store_native_def dnbd3_packet_magic_def le_bytes_numeral)

text \<open>Setting the hop count after the offset leaves the low 56 bits of the offset alone.\<close>

lemma set_hops_fields [simp]:
  "hops (set_hops h r) = h" "offset_small (set_hops h r) = offset_small r"
proof -
  show "hops (set_hops h r) = h"
    by (rule bit_word_eqI) (auto simp: hops_def set_hops_def bit_simps)
  show "offset_small (set_hops h r) = offset_small r"
    by (rule bit_word_eqI) (auto simp: offset_small_def set_hops_def bit_simps)
qed

end
