(* ===== verification/Timing.thy ===== *)
theory Timing
  imports Dnbd3_Prelude
begin

text \<open>
  The clock helpers of \<open>src/shared/timing.h\<close>. A \<open>ticks\<close> value is a \<open>struct timespec\<close>; its
  members are signed 64 bit integers, kept as \<open>int\<close>, and the results keep their unsigned
  width. The current time is an argument, where the code calls \<open>clock_gettime\<close>.
\<close>

record ticks =
  tv_sec :: int
  tv_nsec :: int

text \<open>What \<open>clock_gettime\<close> returns: a nanosecond part below one second.\<close>

definition ticks_wf :: "ticks \<Rightarrow> bool" where
  "ticks_wf t \<longleftrightarrow> 0 \<le> tv_sec t \<and> tv_sec t < 2 ^ 40 \<and> 0 \<le> tv_nsec t \<and> tv_nsec t < 1000000000"

section \<open>Operations\<close>

text \<open>The clock reading relative to \<open>basetime\<close>.\<close>

definition timing_get :: "ticks \<Rightarrow> ticks \<Rightarrow> ticks" where
  "timing_get basetime clock = clock\<lparr>tv_sec := tv_sec clock - tv_sec basetime\<rparr>"

definition timing_set :: "ticks \<Rightarrow> int \<Rightarrow> ticks" where
  "timing_set src secs = \<lparr>tv_sec = tv_sec src + secs, tv_nsec = tv_nsec src\<rparr>"

definition timing_gets :: "ticks \<Rightarrow> ticks \<Rightarrow> int \<Rightarrow> ticks" where
  "timing_gets basetime clock addSeconds =
    (let retval = timing_get basetime clock in retval\<lparr>tv_sec := tv_sec retval + addSeconds\<rparr>)"

definition timing_addSeconds :: "ticks \<Rightarrow> int \<Rightarrow> ticks" where
  "timing_addSeconds base addSeconds = \<lparr>tv_sec = tv_sec base + addSeconds, tv_nsec = tv_nsec base\<rparr>"

definition timing_reached :: "ticks \<Rightarrow> ticks \<Rightarrow> bool" where
  "timing_reached timeout now \<longleftrightarrow> tv_sec now \<ge> tv_sec timeout"

definition timing_reachedPrecise :: "ticks \<Rightarrow> ticks \<Rightarrow> bool" where
  "timing_reachedPrecise timeout now \<longleftrightarrow> tv_sec now > tv_sec timeout
     \<or> tv_sec now = tv_sec timeout \<and> tv_nsec now > tv_nsec timeout"

definition timing_diff :: "ticks \<Rightarrow> ticks \<Rightarrow> u32" where
  "timing_diff start end =
    (if tv_sec end \<le> tv_sec start then 0
     else word_of_int ((tv_sec end - tv_sec start) + (if tv_nsec start > tv_nsec end then -1 else 0)))"

text \<open>Both divisions are of non-negative numbers, where C's truncation is \<open>div\<close>.\<close>

definition timing_diffMs :: "ticks \<Rightarrow> ticks \<Rightarrow> u64" where
  "timing_diffMs start end =
    (if tv_sec end < tv_sec start then 0
     else let diff = word_of_int (tv_sec end - tv_sec start) * 1000 :: u64
          in if tv_nsec start \<ge> tv_nsec end
             then if diff = 0 then 0
                  else diff - word_of_int ((tv_nsec start - tv_nsec end) div 1000000)
             else diff + word_of_int ((tv_nsec end - tv_nsec start) div 1000000))"

definition timing_diffUs :: "ticks \<Rightarrow> ticks \<Rightarrow> u64" where
  "timing_diffUs start end =
    (if tv_sec end < tv_sec start then 0
     else let diff = word_of_int (tv_sec end - tv_sec start) * 1000000 :: u64
          in if tv_nsec start \<ge> tv_nsec end
             then if diff = 0 then 0
                  else diff - word_of_int ((tv_nsec start - tv_nsec end) div 1000)
             else diff + word_of_int ((tv_nsec end - tv_nsec start) div 1000))"

section \<open>Specification: nanoseconds\<close>

definition nanos :: "ticks \<Rightarrow> int" where
  "nanos t = tv_sec t * 1000000000 + tv_nsec t"

lemma word_of_int_inverse_u64: "0 \<le> x \<Longrightarrow> x < 2 ^ 64 \<Longrightarrow> uint (word_of_int x :: u64) = x"
  by (simp add: uint_word_of_int)

text \<open>Both difference functions have the same shape: \<open>K\<close> units per second of \<open>D\<close> nanoseconds.\<close>

definition diff_units :: "int \<Rightarrow> int \<Rightarrow> ticks \<Rightarrow> ticks \<Rightarrow> int" where
  "diff_units K D start end =
    (if tv_sec end < tv_sec start then 0
     else if tv_nsec start \<ge> tv_nsec end
     then if tv_sec end = tv_sec start then 0
          else (tv_sec end - tv_sec start) * K - (tv_nsec start - tv_nsec end) div D
     else (tv_sec end - tv_sec start) * K + (tv_nsec end - tv_nsec start) div D)"

text \<open>\<open>diff_units\<close> is exact up to rounding: down without a borrow, up with one.\<close>

lemma diff_units_rounding:
  assumes "0 < D" "K * D = 1000000000" "nanos start \<le> nanos end" "ticks_wf start" "ticks_wf end"
  shows "diff_units K D start end =
    (if tv_nsec start > tv_nsec end then - (- (nanos end - nanos start) div D)
     else (nanos end - nanos start) div D)"
proof -
  let ?S = "tv_sec end - tv_sec start" and ?x = "tv_nsec end - tv_nsec start"
  have E: "nanos end - nanos start = ?x + ?S * K * D"
    unfolding mult.assoc assms(2) by (simp add: nanos_def algebra_simps)
  have S: "tv_sec start \<le> tv_sec end"
    using assms(3,4,5) by (auto simp: nanos_def ticks_wf_def)
  have d: "(y + z * D) div D = y div D + z" for y z
    using assms(1) by simp
  have up: "- (nanos end - nanos start) div D = (- ?x) div D - ?S * K"
    using d [of "- ?x" "- (?S * K)"] by (simp add: E)
  have down: "(nanos end - nanos start) div D = ?x div D + ?S * K"
    using d [of ?x "?S * K"] by (simp add: E)
  have eq: "tv_sec end = tv_sec start \<Longrightarrow> tv_nsec start \<le> tv_nsec end"
    using assms(3) by (simp add: nanos_def)
  show ?thesis
    unfolding up down diff_units_def using S eq by auto
qed

text \<open>The unsigned 64 bit computations do not wrap around on clock readings.\<close>

lemma scaled_bound:
  assumes "0 \<le> S" "S < 2 ^ 40" "0 < K" "K \<le> (1000000 :: int)"
  shows "0 \<le> S * K" "S * K \<le> 2 ^ 40 * 1000000"
  using assms mult_mono [of S "2 ^ 40" K 1000000] by auto

lemma scaled_add:
  assumes "0 \<le> S" "S < 2 ^ 40" "0 < K" "K \<le> 1000000" "0 \<le> q" "q < K"
  shows "uint (word_of_int (S * K) + word_of_int q :: u64) = S * K + q"
  using scaled_bound [OF assms(1-4)] assms(4-6) word_of_int_inverse_u64 [of "S * K + q"]
  by (simp del: of_int_mult)

lemma scaled_sub:
  assumes "0 < S" "S < 2 ^ 40" "0 < K" "K \<le> 1000000" "0 \<le> r" "r < K"
  shows "uint (word_of_int (S * K) - word_of_int r :: u64) = S * K - r \<and> word_of_int (S * K) \<noteq> (0 :: u64)"
proof -
  have "K \<le> S * K" using assms(1,3) by simp
  with assms(6) have "r \<le> S * K" by linarith
  then show ?thesis
    using scaled_bound [of S K] assms word_of_int_inverse_u64 [of "S * K - r"]
      word_of_int_inverse_u64 [of "S * K"] by (auto simp del: of_int_mult)
qed

lemma uint_timing_diffMs:
  assumes "ticks_wf start" "ticks_wf end"
  shows "uint (timing_diffMs start end) = diff_units 1000 1000000 start end"
proof -
  have b: "tv_sec end - tv_sec start < 2 ^ 40" "(tv_nsec start - tv_nsec end) div 1000000 < 1000"
      "(tv_nsec end - tv_nsec start) div 1000000 < 1000"
    using assms by (auto simp: ticks_wf_def)
  have m: "word_of_int (tv_sec end - tv_sec start) * 1000 = (word_of_int ((tv_sec end - tv_sec start) * 1000) :: u64)"
    by simp
  show ?thesis
    unfolding timing_diffMs_def diff_units_def m Let_def
    using b scaled_add [of "tv_sec end - tv_sec start" 1000 "(tv_nsec end - tv_nsec start) div 1000000"]
      scaled_sub [of "tv_sec end - tv_sec start" 1000 "(tv_nsec start - tv_nsec end) div 1000000"]
    by (auto simp del: of_int_mult of_int_diff)
qed

lemma uint_timing_diffUs:
  assumes "ticks_wf start" "ticks_wf end"
  shows "uint (timing_diffUs start end) = diff_units 1000000 1000 start end"
proof -
  have b: "tv_sec end - tv_sec start < 2 ^ 40" "(tv_nsec start - tv_nsec end) div 1000 < 1000000"
      "(tv_nsec end - tv_nsec start) div 1000 < 1000000"
    using assms by (auto simp: ticks_wf_def)
  have m: "word_of_int (tv_sec end - tv_sec start) * 1000000 = (word_of_int ((tv_sec end - tv_sec start) * 1000000) :: u64)"
    by simp
  show ?thesis
    unfolding timing_diffUs_def diff_units_def m Let_def
    using b scaled_add [of "tv_sec end - tv_sec start" 1000000 "(tv_nsec end - tv_nsec start) div 1000"]
      scaled_sub [of "tv_sec end - tv_sec start" 1000000 "(tv_nsec start - tv_nsec end) div 1000"]
    by (auto simp del: of_int_mult of_int_diff)
qed

section \<open>Properties\<close>

text \<open>The millisecond difference of two clock readings is the elapsed time rounded
  down, except that it is rounded up when the nanosecond part has to borrow from the seconds.\<close>

theorem timing_diffMs_rounding:
  assumes "ticks_wf start" "ticks_wf end" "nanos start \<le> nanos end"
  shows "uint (timing_diffMs start end) =
    (if tv_nsec start > tv_nsec end then - (- (nanos end - nanos start) div 1000000)
     else (nanos end - nanos start) div 1000000)"
  unfolding uint_timing_diffMs [OF assms(1,2)]
  by (rule diff_units_rounding) (simp_all add: assms)

theorem timing_diffMs_rounding_witness:
  "uint (timing_diffMs \<lparr>tv_sec = 0, tv_nsec = 999999999\<rparr> \<lparr>tv_sec = 1, tv_nsec = 0\<rparr>) = 1
   \<and> (nanos \<lparr>tv_sec = 1, tv_nsec = 0\<rparr> - nanos \<lparr>tv_sec = 0, tv_nsec = 999999999\<rparr>) div 1000000 = 0"
  using timing_diffMs_rounding [of "\<lparr>tv_sec = 0, tv_nsec = 999999999\<rparr>" "\<lparr>tv_sec = 1, tv_nsec = 0\<rparr>"]
  by (simp add: ticks_wf_def nanos_def)

end
