(* ===== verification/Cache_Map.thy ===== *)
theory Cache_Map
  imports Timing Crc32
begin

text \<open>
  The cache map of an image: one bit per 4 KiB block that says whether the block is present
  locally. The operations come from \<open>src/server/image.c\<close> (\<open>image_updateCachemap\<close>,
  \<open>image_isComplete\<close>, \<open>image_isHashBlockComplete\<close>, \<open>image_getCompletenessEstimate\<close>,
  \<open>image_loadCacheMap\<close>), \<open>src/server/net.c\<close> (the test whether a request can be answered from
  the local file) and \<open>src/server/uplink.c\<close> (\<open>uplink_saveCacheMap\<close>).

  A null \<open>cache_map\<close> is \<open>None\<close>. Operations that index the map return an option: \<open>None\<close> stands
  for a failed assertion or an access outside of the map, which the C program has no
  behaviour for. The abstract view of an image is the set of its cached blocks.
\<close>

section \<open>The image\<close>

record dnbd3_image =
  im_path :: string
  im_name :: string
  im_uplink :: "nat option"
  cache_map :: "u8 list option"
  virtualFilesize :: u64
  realFilesize :: u64
  im_atime :: ticks
  lastWorkCheck :: ticks
  nextCompletenessEstimate :: ticks
  im_crc32 :: "u32 list option"
  masterCrc32 :: u32
  readFd :: int
  completenessEstimate :: int
  im_users :: int
  im_id :: int
  im_working :: bool
  im_rid :: u16

text \<open>Conversion of an unsigned 64 bit value to \<open>int\<close>, and of an \<open>int\<close> to \<open>size_t\<close>.\<close>

definition to_int :: "u64 \<Rightarrow> int" where
  "to_int x = sint (ucast x :: u32)"

definition HASH_BLOCK_SIZE :: u64 where "HASH_BLOCK_SIZE = 16777216"

definition IMGSIZE_TO_MAPBYTES :: "u64 \<Rightarrow> int" where
  "IMGSIZE_TO_MAPBYTES bytes = to_int (drop_bit 15 (bytes + push_bit 15 1 - 1))"

definition IMGSIZE_TO_HASHBLOCKS :: "u64 \<Rightarrow> int" where
  "IMGSIZE_TO_HASHBLOCKS bytes = to_int ((bytes + HASH_BLOCK_SIZE - 1) div HASH_BLOCK_SIZE)"

text \<open>Byte index and bit mask of a position: \<open>(size_t)(int)(pos >> 15)\<close> and \<open>1 << ((pos >> 12) & 7)\<close>.
  Loop positions are kept as natural numbers: the bounds they run to are at most the image
  size rounded to a block, so they stay below \<open>2 ^ 64\<close>.\<close>

definition map_y :: "nat \<Rightarrow> nat" where
  "map_y pos = unat (word_of_int (to_int (drop_bit 15 (word_of_nat pos))) :: u64)"

definition map_mask :: "nat \<Rightarrow> u8" where
  "map_mask pos = push_bit (pos div 4096 mod 8) 1"

section \<open>Updating the map\<close>

function mark_loop :: "bool \<Rightarrow> nat \<Rightarrow> nat \<Rightarrow> u8 list \<Rightarrow> bool \<Rightarrow> (u8 list \<times> bool) option" where
  "mark_loop st pos end m new =
    (if pos < end then
       (let y = map_y pos; bit_mask = map_mask pos in
        if y < length m then
          (if st
           then mark_loop st (pos + 4096) end (m[y := m ! y OR bit_mask]) (new \<or> m ! y AND bit_mask = 0)
           else mark_loop st (pos + 4096) end (m[y := m ! y AND NOT bit_mask]) new)
        else None)
     else Some (m, new))"
  by pat_completeness auto
termination
  by (relation "measure (\<lambda>(st, pos, end, m, new). end - pos)") auto

declare mark_loop.simps [simp del]

text \<open>\<open>image_isHashBlockComplete\<close>: whole bytes for a full hash block, single bits for the last one.\<close>

fun all_ff :: "u8 list \<Rightarrow> nat \<Rightarrow> nat \<Rightarrow> bool option" where
  "all_ff m i 0 = Some True"
| "all_ff m i (Suc n) =
    (if i < length m then (if m ! i \<noteq> 0xff then Some False else all_ff m (Suc i) n) else None)"

function all_marked :: "u8 list \<Rightarrow> nat \<Rightarrow> nat \<Rightarrow> bool option" where
  "all_marked m pos end =
    (if pos < end then
       (if map_y pos < length m
        then (if m ! map_y pos AND map_mask pos = 0 then Some False else all_marked m (pos + 4096) end)
        else None)
     else Some True)"
  by pat_completeness auto
termination
  by (relation "measure (\<lambda>(m, pos, end). end - pos)") auto

declare all_marked.simps [simp del]

definition image_isHashBlockComplete :: "u8 list option \<Rightarrow> u64 \<Rightarrow> u64 \<Rightarrow> bool option" where
  "image_isHashBlockComplete cacheMap block fileSize = (case cacheMap of
      None \<Rightarrow> Some True
    | Some m \<Rightarrow>
       if (block + 1) * HASH_BLOCK_SIZE \<le> fileSize
       then all_ff m (nat (to_int (block * HASH_BLOCK_SIZE div (DNBD3_BLOCK_SIZE * 8))))
              (unat (HASH_BLOCK_SIZE div (DNBD3_BLOCK_SIZE * 8)))
       else all_marked m (unat (block * HASH_BLOCK_SIZE)) (unat fileSize))"

text \<open>The second loop of \<open>image_updateCachemap\<close>: the hash blocks handed to \<open>integrity_check\<close>.\<close>

function queue_loop :: "u8 list option \<Rightarrow> u64 \<Rightarrow> nat \<Rightarrow> nat \<Rightarrow> int list option" where
  "queue_loop m fileSize pos end =
    (if pos < end \<and> m \<noteq> None then
       (case image_isHashBlockComplete m (word_of_nat (pos div 16777216)) fileSize of
          None \<Rightarrow> None
        | Some c \<Rightarrow> (case queue_loop m fileSize (pos + 16777216) end of
             None \<Rightarrow> None
           | Some rest \<Rightarrow> Some (if c then to_int (word_of_nat (pos div 16777216)) # rest else rest)))
     else Some [])"
  by pat_completeness auto
termination
  by (relation "measure (\<lambda>(m, f, pos, end). end - pos)") auto

declare queue_loop.simps [simp del]

definition hash_align_down :: "u64 \<Rightarrow> u64" where
  "hash_align_down x = x AND NOT (HASH_BLOCK_SIZE - 1)"

definition hash_align_up :: "u64 \<Rightarrow> u64" where
  "hash_align_up x = (x + HASH_BLOCK_SIZE - 1) AND NOT (HASH_BLOCK_SIZE - 1)"

text \<open>The result is the new image and the hash blocks queued for an integrity check.\<close>

definition image_updateCachemap :: "dnbd3_image \<Rightarrow> u64 \<Rightarrow> u64 \<Rightarrow> bool \<Rightarrow> (dnbd3_image \<times> int list) option" where
  "image_updateCachemap img start0 end0 st =
    (if \<not> (end0 \<le> virtualFilesize img \<and> start0 \<le> end0) then None
     else
       let start = (if st then align_up start0 else align_down start0);
           end = (if st then align_down end0 else align_up end0)
       in if start \<ge> end then Some (img, [])
          else if cache_map img = None \<and> st then Some (img, [])
          else
            let m0 = (case cache_map img of Some m \<Rightarrow> m
                      | None \<Rightarrow> replicate (nat (IMGSIZE_TO_MAPBYTES (virtualFilesize img))) 0xff)
            in case mark_loop st (unat start) (unat end) m0 False of
                 None \<Rightarrow> None
               | Some (m, setNewBlocks) \<Rightarrow>
                   (let img' = img\<lparr>cache_map := Some m\<rparr> in
                    if setNewBlocks \<and> im_crc32 img \<noteq> None
                    then (case queue_loop (Some m) (realFilesize img)
                                 (unat (hash_align_down start)) (unat (hash_align_up end)) of
                            None \<Rightarrow> None | Some blocks \<Rightarrow> Some (img', blocks))
                    else Some (img', [])))"

section \<open>Completeness\<close>

text \<open>\<open>for (j = 0; j < blocks_in_last_byte; ++j) last_byte |= (uint8_t)(1 << j)\<close>\<close>

fun low_bits :: "nat \<Rightarrow> u8" where
  "low_bits 0 = 0"
| "low_bits (Suc j) = low_bits j OR push_bit j 1"

text \<open>The result, the image with the map freed when it is complete, and whether the map file is
  deleted.\<close>

definition image_isComplete :: "dnbd3_image \<Rightarrow> (bool \<times> dnbd3_image \<times> bool) option" where
  "image_isComplete img =
    (if virtualFilesize img = 0 then Some (False, img, False)
     else case cache_map img of
       None \<Rightarrow> Some (True, img, False)
     | Some m \<Rightarrow>
        let map_len_bytes = nat (IMGSIZE_TO_MAPBYTES (virtualFilesize img))
        in case all_ff m 0 (map_len_bytes - 1) of
             None \<Rightarrow> None
           | Some False \<Rightarrow> Some (False, img, False)
           | Some True \<Rightarrow>
              (let blocks_in_last_byte = unat (drop_bit 12 (virtualFilesize img) AND 7);
                   last_byte = (if blocks_in_last_byte = 0 then 0xff else low_bits blocks_in_last_byte)
               in if \<not> map_len_bytes - 1 < length m then None
                  else if m ! (map_len_bytes - 1) AND last_byte = last_byte
                  then Some (True, img\<lparr>cache_map := None\<rparr>, True)
                  else Some (False, img, False)))"

fun percent_loop :: "u8 list \<Rightarrow> nat \<Rightarrow> nat \<Rightarrow> int \<Rightarrow> int option" where
  "percent_loop m i 0 percent = Some percent"
| "percent_loop m i (Suc n) percent =
    (if i < length m
     then percent_loop m (Suc i) n
            (percent + (if m ! i = 0xff then 100 else if m ! i \<noteq> 0 then 50 else 0))
     else None)"

definition image_getCompletenessEstimate :: "ticks \<Rightarrow> nat \<Rightarrow> dnbd3_image \<Rightarrow> (int \<times> dnbd3_image) option" where
  "image_getCompletenessEstimate now rand img = (case cache_map img of
      None \<Rightarrow> Some (if im_working img then 100 else 0, img)
    | Some m \<Rightarrow>
       if \<not> timing_reached (nextCompletenessEstimate img) now
       then Some (completenessEstimate img, img)
       else let len = nat (IMGSIZE_TO_MAPBYTES (virtualFilesize img)) in
            if len = 0 then Some (0, img)
            else case percent_loop m 0 len 0 of
                   None \<Rightarrow> None
                 | Some percent \<Rightarrow>
                     Some (percent div int len,
                           img\<lparr>completenessEstimate := percent div int len,
                                 nextCompletenessEstimate := timing_set now (8 + int (rand mod 32))\<rparr>))"

section \<open>Can a request be answered from the local file\<close>

text \<open>The bytes strictly between the first and the last, then the bits of the first byte, then
  those of the last one.\<close>

function first_byte_loop :: "u8 list \<Rightarrow> nat \<Rightarrow> nat \<Rightarrow> nat \<Rightarrow> bool option" where
  "first_byte_loop m firstByteInMap pos end =
    (if firstByteInMap < length m then
       (if m ! firstByteInMap AND map_mask pos = 0 then Some False
        else if firstByteInMap = (pos + 4096) div 32768 \<and> pos + 4096 < end
        then first_byte_loop m firstByteInMap (pos + 4096) end
        else Some True)
     else None)"
  by pat_completeness auto
termination
  by (relation "measure (\<lambda>(m, f, pos, end). end - pos)") auto

declare first_byte_loop.simps [simp del]

function last_byte_loop :: "u8 list \<Rightarrow> nat \<Rightarrow> nat \<Rightarrow> nat \<Rightarrow> bool option" where
  "last_byte_loop m lastByteInMap pos end =
    (if pos < end then
       (if lastByteInMap \<noteq> pos div 32768 \<or> \<not> lastByteInMap < length m then None
        else if m ! lastByteInMap AND map_mask pos = 0 then Some False
        else last_byte_loop m lastByteInMap (pos + 4096) end)
     else Some True)"
  by pat_completeness auto
termination
  by (relation "measure (\<lambda>(m, l, pos, end). end - pos)") auto

declare last_byte_loop.simps [simp del]

definition net_isCached :: "dnbd3_image \<Rightarrow> u64 \<Rightarrow> u32 \<Rightarrow> bool option" where
  "net_isCached img offset sz = (case cache_map img of
      None \<Rightarrow> Some True
    | Some m \<Rightarrow>
       if sz = 0 then Some True
       else let start = unat (align_down offset);
                end = unat (align_up (offset + ucast sz));
                firstByteInMap = start div 32768;
                lastByteInMap = (end - 1) div 32768
            in (case all_ff m (firstByteInMap + 1) (lastByteInMap - (firstByteInMap + 1)) of
                 None \<Rightarrow> None
               | Some False \<Rightarrow> Some False
               | Some True \<Rightarrow>
                  (case first_byte_loop m firstByteInMap start end of
                     None \<Rightarrow> None
                   | Some False \<Rightarrow> Some False
                   | Some True \<Rightarrow>
                      if firstByteInMap \<noteq> lastByteInMap
                      then last_byte_loop m lastByteInMap (lastByteInMap * 32768) end
                      else Some True)))"

section \<open>Saving and loading the map\<close>

text \<open>\<open>image_loadCacheMap\<close>: the file of the map as far as one \<open>read\<close> returned it (\<open>None\<close> when it
  cannot be opened), over a zeroed buffer.\<close>

definition image_loadCacheMap :: "u8 list option \<Rightarrow> u64 \<Rightarrow> u8 list option" where
  "image_loadCacheMap map_file fileSize = (case map_file of
      None \<Rightarrow> None
    | Some bs \<Rightarrow>
       (let map_size = nat (IMGSIZE_TO_MAPBYTES fileSize);
            rd = take map_size bs
        in Some (rd @ replicate (map_size - length rd) 0)))"

text \<open>One result of \<open>write\<close>: interrupted, another error, or the number of bytes written.\<close>

datatype write_result = Write_EINTR | Write_error | Written nat

text \<open>The writing loop of \<open>uplink_saveCacheMap\<close>. Every call passes the start of the buffer. The file
  position advances by the bytes written, so the file holds what was appended so far.\<close>

fun save_loop :: "u8 list \<Rightarrow> nat \<Rightarrow> nat \<Rightarrow> write_result list \<Rightarrow> u8 list \<Rightarrow> u8 list" where
  "save_loop m sz dn [] file = file"
| "save_loop m sz dn (r # rs) file =
    (if dn < sz then
       (case r of
          Write_EINTR \<Rightarrow> save_loop m sz dn rs file
        | Write_error \<Rightarrow> file
        | Written n \<Rightarrow>
            (let n = min n (sz - dn) in
             if n = 0 then file
             else save_loop m sz (dn + n) rs (file @ take n m)))
     else file)"

text \<open>\<open>open_ok\<close> tells whether the map file could be opened, \<open>old\<close> is its previous content (it is not
  truncated). The result is the return value and the content of the file.\<close>

definition uplink_saveCacheMap :: "dnbd3_image \<Rightarrow> bool \<Rightarrow> write_result list \<Rightarrow> u8 list \<Rightarrow> bool \<times> u8 list" where
  "uplink_saveCacheMap img open_ok writes old = (case cache_map img of
      None \<Rightarrow> (True, old)
    | Some m \<Rightarrow>
       if virtualFilesize img < DNBD3_BLOCK_SIZE then (True, old)
       else if \<not> open_ok then (False, old)
       else let sz = nat (IMGSIZE_TO_MAPBYTES (virtualFilesize img));
                new = save_loop m sz 0 writes []
            in (True, new @ drop (length new) old))"

section \<open>The abstract view\<close>

definition cached_bit :: "u8 list \<Rightarrow> nat \<Rightarrow> bool" where
  "cached_bit m k = bit (m ! (k div 8)) (k mod 8)"

definition image_blocks :: "dnbd3_image \<Rightarrow> nat" where
  "image_blocks img = unat (virtualFilesize img) div 4096"

definition cached_blocks :: "dnbd3_image \<Rightarrow> nat set" where
  "cached_blocks img = {k. k < image_blocks img \<and>
     (case cache_map img of None \<Rightarrow> True | Some m \<Rightarrow> cached_bit m k)}"

text \<open>The size bound keeps the index of a map byte within \<open>int\<close>: 32 TiB.\<close>

definition image_wf :: "dnbd3_image \<Rightarrow> bool" where
  "image_wf img \<longleftrightarrow> 4096 dvd unat (virtualFilesize img) \<and> unat (virtualFilesize img) < 2 ^ 45
     \<and> realFilesize img \<le> virtualFilesize img \<and> unat (virtualFilesize img) < unat (realFilesize img) + 4096
     \<and> (case cache_map img of None \<Rightarrow> True
        | Some m \<Rightarrow> length m = (unat (virtualFilesize img) + 32767) div 32768)"

lemma to_int_small: "unat x < 2 ^ 31 \<Longrightarrow> to_int x = int (unat x)"
proof -
  assume a: "unat x < 2 ^ 31"
  have "unat (ucast x :: u32) = unat x"
    using a by (simp add: unsigned_ucast_eq take_bit_nat_eq_self)
  moreover have "sint (y :: u32) = int (unat y)" if "unat y < 2 ^ 31" for y
  proof -
    have "uint y < 2 ^ 31" using that by (simp only: uint_nat of_nat_less_iff [symmetric, where 'a = int]) simp
    then show ?thesis by (simp add: sint_uint signed_take_bit_int_eq_self order_trans [OF _ uint_ge_0])
  qed
  ultimately show ?thesis using a by (simp only: to_int_def)
qed

lemma map_y_eq: "pos < 2 ^ 46 \<Longrightarrow> map_y pos = pos div 32768"
proof -
  assume a: "pos < 2 ^ 46"
  then have u: "unat (word_of_nat pos :: u64) = pos" by (simp add: unat_of_nat)
  then have "unat (drop_bit 15 (word_of_nat pos :: u64)) = pos div 32768"
    by (simp add: unat_drop_bit_div)
  moreover have "pos div 32768 < 2 ^ 31" using a by simp
  ultimately show ?thesis
    by (simp add: map_y_def to_int_small unat_of_nat)
qed

lemma and_mask_0: "(x :: u8) AND map_mask pos = 0 \<longleftrightarrow> \<not> bit x (pos div 4096 mod 8)"
  by (simp add: map_mask_def bit_iff_and_push_bit_not_eq_0)

lemma eq_ff: "(x :: u8) = 0xff \<longleftrightarrow> (\<forall>j<8. bit x j)"
proof -
  have f: "(0xff :: u8) = mask 8" by (simp add: mask_eq_exp_minus_1)
  show ?thesis unfolding f
    by (auto simp: bit_eq_iff bit_simps dest: bit_imp_le_length)
qed

text \<open>Positions at block borders.\<close>

lemma block_pos:
  assumes "4096 * k < 2 ^ 46"
  shows "map_y (4096 * k) = k div 8" "map_mask (4096 * k) = push_bit (k mod 8) 1"
  using assms by (simp_all add: map_y_eq map_mask_def div_mult2_eq [symmetric])

lemma cached_bit_or:
  assumes "k div 8 < length m"
  shows "cached_bit (m[k div 8 := m ! (k div 8) OR push_bit (k mod 8) 1]) l \<longleftrightarrow> l = k \<or> cached_bit m l"
proof (cases "l div 8 = k div 8")
  case True
  then have "l = k \<longleftrightarrow> l mod 8 = k mod 8" by (metis div_mult_mod_eq)
  moreover have "l mod 8 < 8" by simp
  ultimately show ?thesis using True assms
    by (auto simp: cached_bit_def bit_simps bit_1_iff)
next
  case False
  then show ?thesis by (auto simp: cached_bit_def)
qed

lemma cached_bit_and_not:
  assumes "k div 8 < length m"
  shows "cached_bit (m[k div 8 := m ! (k div 8) AND NOT (push_bit (k mod 8) 1)]) l \<longleftrightarrow> l \<noteq> k \<and> cached_bit m l"
proof (cases "l div 8 = k div 8")
  case True
  then have "l = k \<longleftrightarrow> l mod 8 = k mod 8" by (metis div_mult_mod_eq)
  moreover have "l mod 8 < 8" by simp
  ultimately show ?thesis using True assms
    by (auto simp: cached_bit_def bit_simps bit_1_iff dest: bit_imp_le_length)
next
  case False
  then show ?thesis by (auto simp: cached_bit_def)
qed

text \<open>An image of ten blocks with the first four and the ninth cached, for concrete instances.\<close>

definition sample_image :: dnbd3_image where
  "sample_image = \<lparr>im_path = ''/srv/a.r1'', im_name = ''a'', im_uplink = None, cache_map = Some [0x0f, 0x01],
     virtualFilesize = 40960, realFilesize = 40000, im_atime = \<lparr>tv_sec = 0, tv_nsec = 0\<rparr>,
     lastWorkCheck = \<lparr>tv_sec = 0, tv_nsec = 0\<rparr>, nextCompletenessEstimate = \<lparr>tv_sec = 0, tv_nsec = 0\<rparr>,
     im_crc32 = Some [0], masterCrc32 = 0, readFd = 3, completenessEstimate = 0, im_users = 1, im_id = 1,
     im_working = True, im_rid = 1\<rparr>"

lemma sample_image_wf: "image_wf sample_image"
  by (simp add: image_wf_def sample_image_def word_le_nat_alt dvd_def)

section \<open>The marking loop\<close>

lemma mark_loop_bits:
  assumes "j \<le> 8 * length m" "length m < 2 ^ 31"
  shows "\<exists>m' new'. mark_loop st (4096 * i) (4096 * j) m new = Some (m', new') \<and> length m' = length m
     \<and> (\<forall>k. cached_bit m' k \<longleftrightarrow> (if i \<le> k \<and> k < j then st else cached_bit m k))
     \<and> (new' \<longleftrightarrow> new \<or> (st \<and> (\<exists>k. i \<le> k \<and> k < j \<and> \<not> cached_bit m k)))"
  using assms
proof (induction "j - i" arbitrary: i m new)
  case 0
  then show ?case by (auto simp: mark_loop.simps [of _ "4096 * i"])
next
  case (Suc n)
  then have ij: "i < j" by simp
  have b: "4096 * i < 2 ^ 46" "i div 8 < length m" using ij Suc.prems by auto
  let ?m = "if st then m[i div 8 := m ! (i div 8) OR push_bit (i mod 8) 1]
            else m[i div 8 := m ! (i div 8) AND NOT (push_bit (i mod 8) 1)]"
  let ?new = "new \<or> (st \<and> \<not> cached_bit m i)"
  have step: "mark_loop st (4096 * i) (4096 * j) m new = mark_loop st (4096 * Suc i) (4096 * j) ?m ?new"
    using ij b(2) by (subst mark_loop.simps)
      (simp add: Let_def block_pos [OF b(1)] cached_bit_def bit_iff_and_push_bit_not_eq_0 add.commute)
  have n: "n = j - Suc i" using Suc.hyps(2) by simp
  have l: "j \<le> 8 * length ?m" "length ?m < 2 ^ 31" using Suc.prems by simp_all
  from Suc.hyps(1) [OF n l, of ?new] obtain m' new' where
    r: "mark_loop st (4096 * Suc i) (4096 * j) ?m ?new = Some (m', new')" "length m' = length ?m"
      "\<forall>k. cached_bit m' k \<longleftrightarrow> (if Suc i \<le> k \<and> k < j then st else cached_bit ?m k)"
      "new' \<longleftrightarrow> ?new \<or> (st \<and> (\<exists>k. Suc i \<le> k \<and> k < j \<and> \<not> cached_bit ?m k))"
    by blast
  have c: "cached_bit ?m k \<longleftrightarrow> (if k = i then st else cached_bit m k)" for k
    using cached_bit_or [OF b(2), of k] cached_bit_and_not [OF b(2), of k] by (auto simp del: push_bit_of_1)
  have "\<forall>k. cached_bit m' k \<longleftrightarrow> (if i \<le> k \<and> k < j then st else cached_bit m k)"
    using r(3) ij unfolding c by (auto simp: Suc_le_eq order_le_less)
  moreover have "(\<exists>k. i \<le> k \<and> k < j \<and> \<not> cached_bit m k) \<longleftrightarrow>
      \<not> cached_bit m i \<or> (\<exists>k. Suc i \<le> k \<and> k < j \<and> \<not> cached_bit m k)"
    using ij by (metis Suc_leD Suc_leI order_refl order_le_less)
  then have "new' \<longleftrightarrow> new \<or> (st \<and> (\<exists>k. i \<le> k \<and> k < j \<and> \<not> cached_bit m k))"
    using r(4) unfolding c by auto
  moreover have "length m' = length m" using r(2) by simp
  ultimately show ?case using r(1) step by auto
qed

lemma all_ff_iff:
  "i + n \<le> length m \<Longrightarrow> all_ff m i n = Some (\<forall>k. i * 8 \<le> k \<and> k < (i + n) * 8 \<longrightarrow> cached_bit m k)"
proof (induction n arbitrary: i)
  case 0
  then show ?case by auto
next
  case (Suc n)
  have split: "(\<forall>k. i * 8 \<le> k \<and> k < (i + Suc n) * 8 \<longrightarrow> cached_bit m k) \<longleftrightarrow>
     (\<forall>j<8. bit (m ! i) j) \<and> (\<forall>k. Suc i * 8 \<le> k \<and> k < (Suc i + n) * 8 \<longrightarrow> cached_bit m k)" (is "?L \<longleftrightarrow> ?R1 \<and> ?R2")
  proof
    assume l: ?L
    have "bit (m ! i) j" if "j < 8" for j
      using l [rule_format, of "i * 8 + j"] that by (simp add: cached_bit_def)
    then show "?R1 \<and> ?R2" using l by auto
  next
    assume r: "?R1 \<and> ?R2"
    show ?L
    proof (intro allI impI)
      fix k assume k: "i * 8 \<le> k \<and> k < (i + Suc n) * 8"
      show "cached_bit m k"
      proof (cases "Suc i * 8 \<le> k")
        case True
        with r k show ?thesis by auto
      next
        case False
        then have "k div 8 = i" using k by auto
        then show ?thesis using r by (simp add: cached_bit_def)
      qed
    qed
  qed
  show ?case
    unfolding split using Suc.prems Suc.IH [of "Suc i"] by (simp only: all_ff.simps eq_ff) (simp add: not_less_eq_eq)
qed

lemma all_marked_iff:
  assumes "e \<le> 4096 * (8 * length m)" "length m < 2 ^ 31"
  shows "all_marked m (4096 * i) e = Some (\<forall>k. i \<le> k \<and> 4096 * k < e \<longrightarrow> cached_bit m k)"
proof (induction "e - 4096 * i" arbitrary: i rule: less_induct)
  case less
  show ?case
  proof (cases "4096 * i < e")
    case True
    have b: "4096 * i < 2 ^ 46" "i div 8 < length m" using True assms by auto
    have "all_marked m (4096 * Suc i) e = Some (\<forall>k. Suc i \<le> k \<and> 4096 * k < e \<longrightarrow> cached_bit m k)"
      using less [of "Suc i"] True by simp
    moreover have "(\<forall>k. i \<le> k \<and> 4096 * k < e \<longrightarrow> cached_bit m k) \<longleftrightarrow>
        cached_bit m i \<and> (\<forall>k. Suc i \<le> k \<and> 4096 * k < e \<longrightarrow> cached_bit m k)"
      using True by (metis Suc_leD Suc_leI order_refl not_less_eq_eq order_antisym_conv)
    ultimately show ?thesis
      using True b(2) by (subst all_marked.simps)
        (simp add: block_pos [OF b(1)] cached_bit_def bit_iff_and_push_bit_not_eq_0 add.commute)
  next
    case False
    then show ?thesis by (subst all_marked.simps) auto
  qed
qed

section \<open>Sizes\<close>

lemma unat_and_not_mask: "unat ((x :: u64) AND NOT (mask n)) = unat x div 2 ^ n * 2 ^ n"
proof -
  have "x AND NOT (mask n) = push_bit n (drop_bit n x)"
    by (rule bit_word_eqI) (auto simp: bit_simps)
  then have "x AND NOT (mask n) = x - take_bit n x"
    using bits_ident [of n x] by (metis add_diff_cancel_right')
  moreover have t: "unat (take_bit n x) = unat x mod 2 ^ n"
    by (rule unat_take_bit_mod)
  then have "take_bit n x \<le> x" by (simp add: word_le_nat_alt)
  ultimately show ?thesis by (simp add: unat_sub t minus_mod_eq_div_mult)
qed

lemma hash_mask: "HASH_BLOCK_SIZE - 1 = mask 24"
  by (simp add: HASH_BLOCK_SIZE_def mask_eq_exp_minus_1)

lemma unat_hash_align [align_simps]:
  "unat (hash_align_down x) = unat x div 16777216 * 16777216"
  "unat x + 16777215 < 2 ^ 64 \<Longrightarrow> unat (hash_align_up x) = (unat x + 16777215) div 16777216 * 16777216"
proof -
  show "unat (hash_align_down x) = unat x div 16777216 * 16777216"
    using unat_and_not_mask [of x 24] by (simp add: hash_align_down_def hash_mask)
  assume a: "unat x + 16777215 < 2 ^ 64"
  have e: "x + HASH_BLOCK_SIZE - 1 = x + 16777215" by (simp add: HASH_BLOCK_SIZE_def)
  have u: "unat (x + 16777215) = unat x + 16777215"
    using a by (subst unat_add_no_wrap) auto
  show "unat (hash_align_up x) = (unat x + 16777215) div 16777216 * 16777216"
    by (simp only: hash_align_up_def e hash_mask unat_and_not_mask u) simp
qed

lemma mapbytes_eq:
  assumes "unat x < 2 ^ 45"
  shows "nat (IMGSIZE_TO_MAPBYTES x) = (unat x + 32767) div 32768"
proof -
  have e: "x + push_bit 15 1 - 1 = x + 32767" by simp
  have u: "unat (x + 32767) = unat x + 32767"
    using assms by (subst unat_add_no_wrap) auto
  have "unat (drop_bit 15 (x + push_bit 15 1 - 1)) = (unat x + 32767) div 32768"
    by (simp only: e unat_drop_bit_div u) simp
  moreover have "(unat x + 32767) div 32768 < 2 ^ 31" using assms by simp
  ultimately show ?thesis by (simp add: IMGSIZE_TO_MAPBYTES_def to_int_small)
qed

lemma image_wf_map:
  assumes "image_wf img" "cache_map img = Some m"
  shows "length m = (unat (virtualFilesize img) + 32767) div 32768" "length m < 2 ^ 31"
    "image_blocks img \<le> 8 * length m" "unat (virtualFilesize img) = 4096 * image_blocks img"
    "unat (virtualFilesize img) < 2 ^ 45"
  using assms by (auto simp: image_wf_def image_blocks_def)

lemma image_wf_sizes:
  assumes "image_wf img"
  shows "unat (virtualFilesize img) = 4096 * image_blocks img" "unat (virtualFilesize img) < 2 ^ 45"
    "unat (realFilesize img) \<le> unat (virtualFilesize img)"
    "4096 * k < unat (realFilesize img) \<longleftrightarrow> k < image_blocks img"
  using assms by (auto simp: image_wf_def image_blocks_def word_le_nat_alt)

lemma hash_block_pos:
  assumes "b < 2 ^ 39"
  shows "unat (word_of_nat b * HASH_BLOCK_SIZE) = b * 16777216"
    "unat ((word_of_nat b + 1) * HASH_BLOCK_SIZE) = (b + 1) * 16777216"
proof -
  have *: "unat (word_of_nat n * HASH_BLOCK_SIZE) = n * 16777216" if "n < 2 ^ 40" for n
    using that by (simp add: HASH_BLOCK_SIZE_def unat_word_ariths unat_of_nat)
  show "unat (word_of_nat b * HASH_BLOCK_SIZE) = b * 16777216" using assms * [of b] by simp
  show "unat ((word_of_nat b + 1) * HASH_BLOCK_SIZE) = (b + 1) * 16777216"
    using assms * [of "b + 1"] by (simp add: add.commute)
qed

text \<open>A hash block is complete when all of its blocks that lie in the image are cached.\<close>

definition hash_block_cached :: "dnbd3_image \<Rightarrow> nat \<Rightarrow> bool" where
  "hash_block_cached img b \<longleftrightarrow> {b * 4096..<(b + 1) * 4096} \<inter> {..<image_blocks img} \<subseteq> cached_blocks img"

lemma isHashBlockComplete_iff:
  assumes wf: "image_wf img" and b: "b < 2 ^ 39"
  shows "image_isHashBlockComplete (cache_map img) (word_of_nat b) (realFilesize img) = Some (hash_block_cached img b)"
proof (cases "cache_map img")
  case None
  then show ?thesis by (auto simp: image_isHashBlockComplete_def hash_block_cached_def cached_blocks_def)
next
  case (Some m)
  note sz = image_wf_sizes [OF wf] and mp = image_wf_map [OF wf Some] and hp = hash_block_pos [OF b]
  have hb: "hash_block_cached img b \<longleftrightarrow>
      (\<forall>k. b * 4096 \<le> k \<and> k < (b + 1) * 4096 \<and> k < image_blocks img \<longrightarrow> cached_bit m k)"
    by (auto simp: hash_block_cached_def cached_blocks_def Some)
  show ?thesis
  proof (cases "(word_of_nat b + 1) * HASH_BLOCK_SIZE \<le> realFilesize img")
    case True
    then have le: "(b + 1) * 16777216 \<le> unat (realFilesize img)" by (simp add: word_le_nat_alt hp)
    have "unat (word_of_nat b * HASH_BLOCK_SIZE div (DNBD3_BLOCK_SIZE * 8)) = b * 512"
      by (simp add: unat_div hp DNBD3_BLOCK_SIZE_def)
    then have i: "nat (to_int (word_of_nat b * HASH_BLOCK_SIZE div (DNBD3_BLOCK_SIZE * 8))) = b * 512"
      using le sz by (subst to_int_small) auto
    have n: "unat (HASH_BLOCK_SIZE div (DNBD3_BLOCK_SIZE * 8)) = 512"
      by (simp add: HASH_BLOCK_SIZE_def DNBD3_BLOCK_SIZE_def)
    have "(b + 1) * 4096 \<le> image_blocks img" using le sz by auto
    then have "b * 512 + 512 \<le> length m" "k < (b + 1) * 4096 \<Longrightarrow> k < image_blocks img" for k using mp(3) by auto
    then show ?thesis
      using True by (simp only: image_isHashBlockComplete_def Some option.case if_True i n hb)
        (subst all_ff_iff, auto)
  next
    case False
    then have "unat (realFilesize img) < (b + 1) * 16777216" by (simp add: word_le_nat_alt hp)
    then have "4096 * k < unat (realFilesize img) \<longleftrightarrow> k < (b + 1) * 4096 \<and> k < image_blocks img" for k
      using sz(4) [of k] by auto
    moreover have "all_marked m (b * 16777216) (unat (realFilesize img)) =
       Some (\<forall>k. b * 4096 \<le> k \<and> 4096 * k < unat (realFilesize img) \<longrightarrow> cached_bit m k)"
      using mp sz all_marked_iff [of "unat (realFilesize img)" m "b * 4096"] by (simp add: mult.commute)
    ultimately show ?thesis
      using False by (simp only: image_isHashBlockComplete_def Some hp hb option.case if_False)
  qed
qed

section \<open>Updating the set of cached blocks\<close>

lemma cached_blocks_Some: "cache_map img = Some m \<Longrightarrow> cached_blocks img = {k. k < image_blocks img \<and> cached_bit m k}"
  by (simp add: cached_blocks_def)

lemma recreated_map:
  assumes "image_wf img" "cache_map img = None"
  shows "image_wf (img\<lparr>cache_map := Some (replicate (nat (IMGSIZE_TO_MAPBYTES (virtualFilesize img))) 0xff)\<rparr>)"
    "cached_blocks (img\<lparr>cache_map := Some (replicate (nat (IMGSIZE_TO_MAPBYTES (virtualFilesize img))) 0xff)\<rparr>)
      = cached_blocks img"
proof -
  note sz = image_wf_sizes [OF assms(1)]
  show "image_wf (img\<lparr>cache_map := Some (replicate (nat (IMGSIZE_TO_MAPBYTES (virtualFilesize img))) 0xff)\<rparr>)"
    using assms sz(2) by (simp add: image_wf_def mapbytes_eq)
  have "cached_bit (replicate (nat (IMGSIZE_TO_MAPBYTES (virtualFilesize img))) 0xff) k" if "k < image_blocks img" for k
  proof -
    have "k div 8 < (unat (virtualFilesize img) + 32767) div 32768" using that sz(1) by auto
    then show ?thesis using eq_ff [of "0xff"] by (simp add: cached_bit_def mapbytes_eq [OF sz(2)])
  qed
  then show "cached_blocks (img\<lparr>cache_map := Some (replicate (nat (IMGSIZE_TO_MAPBYTES (virtualFilesize img))) 0xff)\<rparr>)
      = cached_blocks img"
    using assms(2) by (auto simp: cached_blocks_def image_blocks_def)
qed

text \<open>The blocks a call is about: those inside the range when it sets them, those that the range
  touches when it clears them.\<close>

definition affected_blocks :: "u64 \<Rightarrow> u64 \<Rightarrow> bool \<Rightarrow> nat set" where
  "affected_blocks start end st =
    (if st then {k. unat start \<le> 4096 * k \<and> 4096 * k + 4096 \<le> unat end}
     else {k. 4096 * k < unat end \<and> unat start < 4096 * k + 4096})"

lemma affected_range:
  assumes "unat e < 2 ^ 45" "start \<le> e"
  obtains i j where "unat (if st then align_up start else align_down start) = 4096 * i"
    "unat (if st then align_down e else align_up e) = 4096 * j" "affected_blocks start e st = {i..<j}"
    "j \<le> (unat e + 4095) div 4096"
proof -
  have u: "unat (align_up x) = (unat x + 4095) div 4096 * 4096" if "x \<le> e" for x
    using that assms by (intro unat_align_up) (auto simp: word_le_nat_alt)
  show thesis
  proof (cases st)
    case True
    then show thesis using assms u [of start]
      by (intro that [of "(unat start + 4095) div 4096" "unat e div 4096"])
        (auto simp: unat_align_down affected_blocks_def)
  next
    case False
    then show thesis using assms u [of e]
      by (intro that [of "unat start div 4096" "(unat e + 4095) div 4096"])
        (auto simp: unat_align_down affected_blocks_def)
  qed
qed

lemma queue_loop_eq:
  assumes "image_wf img" "cache_map img = Some m" "e < 2 ^ 31"
  shows "queue_loop (Some m) (realFilesize img) (b * 16777216) (e * 16777216)
    = Some (map int (filter (hash_block_cached img) [b..<e]))"
proof (induction "e - b" arbitrary: b)
  case 0
  then show ?case by (subst queue_loop.simps) simp
next
  case (Suc n)
  then have be: "b < e" "n = e - Suc b" by simp_all
  have c: "image_isHashBlockComplete (Some m) (word_of_nat b) (realFilesize img) = Some (hash_block_cached img b)"
    using isHashBlockComplete_iff [OF assms(1), of b] be assms(2,3) by simp
  have t: "to_int (word_of_nat b) = int b"
    using be assms(3) by (subst to_int_small) (simp_all add: unat_of_nat)
  have p: "b * 16777216 + 16777216 = Suc b * 16777216" by simp
  show ?case
    using be(1) by (subst queue_loop.simps)
      (simp only: p Suc.hyps(1) [OF be(2)], simp add: c t upt_conv_Cons)
qed

text \<open>The hash blocks that a call hands to the integrity check.\<close>

definition queued_checks :: "dnbd3_image \<Rightarrow> dnbd3_image \<Rightarrow> nat set \<Rightarrow> bool \<Rightarrow> nat set" where
  "queued_checks img img' blocks st =
    (if st \<and> im_crc32 img \<noteq> None \<and> \<not> blocks \<subseteq> cached_blocks img
     then {b. (\<exists>k\<in>blocks. k div 4096 = b) \<and> hash_block_cached img' b} else {})"

lemma hash_range:
  assumes "i < j" "4096 * j < 2 ^ 46" "unat start = 4096 * i" "unat e = 4096 * j"
  shows "unat (hash_align_down start) = (i div 4096) * 16777216"
    "unat (hash_align_up e) = ((j + 4095) div 4096) * 16777216"
    "{i div 4096..<(j + 4095) div 4096} = (\<lambda>k. k div 4096) ` {i..<j}"
proof -
  show "unat (hash_align_down start) = (i div 4096) * 16777216"
    using assms by (simp add: unat_hash_align)
  have "(4096 * j + 16777215) div 16777216 = (j + 4095) div 4096" by linarith
  then show "unat (hash_align_up e) = ((j + 4095) div 4096) * 16777216"
    using assms by (simp add: unat_hash_align)
  show "{i div 4096..<(j + 4095) div 4096} = (\<lambda>k. k div 4096) ` {i..<j}"
  proof (intro subset_antisym subsetI)
    fix b assume "b \<in> {i div 4096..<(j + 4095) div 4096}"
    then have "max i (b * 4096) \<in> {i..<j}" "b = max i (b * 4096) div 4096" using assms(1) by auto
    then show "b \<in> (\<lambda>k. k div 4096) ` {i..<j}" by blast
  qed (auto intro: div_le_mono)
qed

lemma updateCachemap_mapped:
  assumes wf: "image_wf img" and m: "cache_map img = Some m"
    and se: "start \<le> e" "e \<le> virtualFilesize img"
  shows "\<exists>img' checks. image_updateCachemap img start e st = Some (img', checks) \<and> image_wf img'
    \<and> img' = img\<lparr>cache_map := cache_map img'\<rparr>
    \<and> cached_blocks img' = (if st then cached_blocks img \<union> affected_blocks start e st
        else cached_blocks img - affected_blocks start e st)
    \<and> set checks = int ` queued_checks img img' (affected_blocks start e st) st"
proof -
  note sz = image_wf_sizes [OF wf] and mp = image_wf_map [OF wf m]
  have e45: "unat e < 2 ^ 45" "unat e \<le> 4096 * image_blocks img"
    using se sz(1,2) by (simp_all add: word_le_nat_alt)
  obtain i j where r: "unat (if st then align_up start else align_down start) = 4096 * i"
    "unat (if st then align_down e else align_up e) = 4096 * j" "affected_blocks start e st = {i..<j}"
    "j \<le> (unat e + 4095) div 4096"
    by (rule affected_range [OF e45(1) se(1)])
  have j: "j \<le> image_blocks img" using r(4) e45(2) by auto
  let ?s = "if st then align_up start else align_down start"
  let ?e = "if st then align_down e else align_up e"
  show ?thesis
  proof (cases "i < j")
    case False
    then have "?s \<ge> ?e" using r(1,2) by (simp add: word_le_nat_alt)
    then show ?thesis using False se wf r(3)
      by (auto simp: image_updateCachemap_def Let_def queued_checks_def)
  next
    case True
    have lt: "\<not> ?s \<ge> ?e" using True r(1,2) by (simp add: word_le_nat_alt)
    have jm: "j \<le> 8 * length m" using j mp(3) by simp
    obtain m' new' where ml: "mark_loop st (4096 * i) (4096 * j) m False = Some (m', new')" "length m' = length m"
      "\<forall>k. cached_bit m' k \<longleftrightarrow> (if i \<le> k \<and> k < j then st else cached_bit m k)"
      "new' \<longleftrightarrow> st \<and> (\<exists>k. i \<le> k \<and> k < j \<and> \<not> cached_bit m k)"
      using mark_loop_bits [OF jm mp(2), of st i False] by auto
    let ?img = "img\<lparr>cache_map := Some m'\<rparr>"
    have wf': "image_wf ?img" using wf m ml(2) by (simp add: image_wf_def)
    have b': "image_blocks ?img = image_blocks img" by (simp add: image_blocks_def)
    have cb: "cached_blocks ?img = (if st then cached_blocks img \<union> {i..<j} else cached_blocks img - {i..<j})"
      using ml(3) j b' by (auto simp: cached_blocks_Some [OF m] cached_blocks_Some [of ?img m'])
    have new: "new' \<longleftrightarrow> st \<and> \<not> {i..<j} \<subseteq> cached_blocks img"
      using ml(4) j by (auto simp: cached_blocks_Some [OF m])
    have j46: "4096 * j < 2 ^ 46" using j sz(1,2) by simp
    note hr = hash_range [OF True j46 r(1,2)]
    have q: "queue_loop (Some m') (realFilesize img) (unat (hash_align_down ?s)) (unat (hash_align_up ?e))
        = Some (map int (filter (hash_block_cached ?img) [i div 4096..<(j + 4095) div 4096]))"
      unfolding hr using queue_loop_eq [OF wf', of m'] j46 by simp
    let ?c = "if new' \<and> im_crc32 img \<noteq> None
       then map int (filter (hash_block_cached ?img) [i div 4096..<(j + 4095) div 4096]) else []"
    have "image_updateCachemap img start e st = Some (?img, ?c)"
      using se lt ml(1) q by (simp only: image_updateCachemap_def Let_def r(1,2) m option.case) auto
    moreover have "set ?c = int ` queued_checks img ?img {i..<j} st"
      using hr(3) new by (auto simp: queued_checks_def image_iff)
    ultimately show ?thesis using wf' cb r(3) by auto
  qed
qed

lemma updateCachemap_unmapped:
  assumes wf: "image_wf img" and m: "cache_map img = None"
    and se: "start \<le> e" "e \<le> virtualFilesize img"
  shows "\<exists>img' checks. image_updateCachemap img start e st = Some (img', checks) \<and> image_wf img'
    \<and> img' = img\<lparr>cache_map := cache_map img'\<rparr>
    \<and> cached_blocks img' = (if st then cached_blocks img \<union> affected_blocks start e st
        else cached_blocks img - affected_blocks start e st)
    \<and> set checks = int ` queued_checks img img' (affected_blocks start e st) st"
proof (cases st)
  case True
  have "k < image_blocks img" if "k \<in> affected_blocks start e st" for k
  proof -
    have "4096 * k + 4096 \<le> 4096 * image_blocks img"
      using that True se(2) image_wf_sizes(1) [OF wf] by (auto simp: affected_blocks_def word_le_nat_alt)
    then show ?thesis by simp
  qed
  then have "affected_blocks start e st \<subseteq> cached_blocks img"
    using m by (auto simp: cached_blocks_def)
  then show ?thesis using True m se wf by (auto simp: image_updateCachemap_def Let_def queued_checks_def)
next
  case False
  let ?ff = "replicate (nat (IMGSIZE_TO_MAPBYTES (virtualFilesize img))) 0xff"
  let ?img = "img\<lparr>cache_map := Some ?ff\<rparr>"
  note rc = recreated_map [OF wf m]
  show ?thesis
  proof (cases "align_down start \<ge> align_up e")
    case True
    have "unat e < 2 ^ 45" using se image_wf_sizes(2) [OF wf] by (simp add: word_le_nat_alt)
    from this se(1) obtain i j where "unat (align_down start) = 4096 * i" "unat (align_up e) = 4096 * j"
      "affected_blocks start e False = {i..<j}"
      using affected_range [of e start False] by (metis (full_types))
    then have "affected_blocks start e st = {}" using True \<open>\<not> st\<close> by (simp add: word_le_nat_alt)
    then show ?thesis using True \<open>\<not> st\<close> m se wf
      by (auto simp: image_updateCachemap_def queued_checks_def)
  next
    case False
    have "image_updateCachemap img start e st = image_updateCachemap ?img start e st"
      using False \<open>\<not> st\<close> m by (auto simp: image_updateCachemap_def Let_def split: option.split prod.split)
    moreover have "queued_checks img img' B st = {}" "queued_checks ?img img' B st = {}" for img' B
      using \<open>\<not> st\<close> by (simp_all add: queued_checks_def)
    ultimately show ?thesis
      using updateCachemap_mapped [of ?img ?ff start e st] rc se by auto
  qed
qed

lemma updateCachemap_refines:
  assumes "image_wf img" "start \<le> e" "e \<le> virtualFilesize img"
  shows "\<exists>img' checks. image_updateCachemap img start e st = Some (img', checks) \<and> image_wf img'
    \<and> img' = img\<lparr>cache_map := cache_map img'\<rparr>
    \<and> cached_blocks img' = (if st then cached_blocks img \<union> affected_blocks start e st
        else cached_blocks img - affected_blocks start e st)
    \<and> set checks = int ` queued_checks img img' (affected_blocks start e st) st"
  using assms updateCachemap_mapped updateCachemap_unmapped by (cases "cache_map img") auto

text \<open>C6. On a well-formed image and for a range inside of it, \<open>image_updateCachemap\<close> runs without a
  failed assertion and without leaving the map, keeps the image well-formed and changes only
  its map. Setting adds exactly the blocks that lie inside the range, clearing removes exactly those that the
  range touches. The hash blocks handed to the integrity check are those with a block in the range
  that are complete afterwards, when the call set at least one new block.\<close>

theorem image_updateCachemap_refines:
  assumes "image_wf img" "start \<le> e" "e \<le> virtualFilesize img"
  shows "\<exists>img' checks. image_updateCachemap img start e st = Some (img', checks) \<and> image_wf img'
    \<and> img' = img\<lparr>cache_map := cache_map img'\<rparr>
    \<and> cached_blocks img' = (if st then cached_blocks img \<union> affected_blocks start e st
        else cached_blocks img - affected_blocks start e st)
    \<and> set checks = int ` queued_checks img img' (affected_blocks start e st) st"
  using assms by (rule updateCachemap_refines)

theorem image_updateCachemap_refines_witness:
  "\<exists>img' checks. image_updateCachemap sample_image 4000 24000 True = Some (img', checks) \<and> image_wf img'
    \<and> img' = sample_image\<lparr>cache_map := cache_map img'\<rparr>
    \<and> cached_blocks img' = cached_blocks sample_image \<union> affected_blocks 4000 24000 True
    \<and> set checks = int ` queued_checks sample_image img' (affected_blocks 4000 24000 True) True"
  using image_updateCachemap_refines [of sample_image 4000 24000 True] sample_image_wf
  by (simp add: sample_image_def)

text \<open>A hash block is reported complete exactly when all of its blocks that lie inside the image
  are cached, for full hash blocks (tested by bytes of the map) and for the last one (by bits).\<close>

theorem image_isHashBlockComplete_correct:
  assumes "image_wf img" "b < 2 ^ 39"
  shows "image_isHashBlockComplete (cache_map img) (word_of_nat b) (realFilesize img) = Some (hash_block_cached img b)"
  using assms by (rule isHashBlockComplete_iff)

theorem image_isHashBlockComplete_correct_witness:
  "image_isHashBlockComplete (Some [0x0f, 0x01]) (word_of_nat 0) 40000 = Some (hash_block_cached sample_image 0)"
  using image_isHashBlockComplete_correct [of sample_image 0] sample_image_wf
  by (simp add: sample_image_def)

section \<open>Complete images\<close>

lemma low_bits_bit: "n \<le> 8 \<Longrightarrow> bit (low_bits n) j \<longleftrightarrow> j < n"
proof (induction n)
  case (Suc n)
  then show ?case by (auto simp: bit_simps bit_1_iff)
qed simp

lemma and_low_bits: "n \<le> 8 \<Longrightarrow> (x :: u8) AND low_bits n = low_bits n \<longleftrightarrow> (\<forall>j<n. bit x j)"
  by (auto simp: bit_eq_iff bit_simps low_bits_bit) (metis order_less_le_trans)

lemma all_less_split: "(\<forall>k < a + b. P k) \<longleftrightarrow> (\<forall>k < a. P k) \<and> (\<forall>k. a \<le> k \<and> k < a + b \<longrightarrow> P (k :: nat))"
  by (metis le_add1 not_less order_less_le_trans)

lemma last_byte_blocks:
  assumes "(n :: nat) \<noteq> 0"
  shows "n = ((n + 7) div 8 - 1) * 8 + (if n mod 8 = 0 then 8 else n mod 8)"
proof (cases "n mod 8 = 0")
  case True
  then obtain q where "n = 8 * q" by (auto elim: dvdE simp: mod_eq_0_iff_dvd)
  with assms show ?thesis by (cases q) auto
next
  case False
  then have "(n + 7) div 8 = n div 8 + 1" by presburger
  with False show ?thesis using div_mult_mod_eq [of n 8] by simp
qed

lemma byte_range:
  assumes "n \<le> 8"
  shows "(\<forall>k. q * 8 \<le> k \<and> k < q * 8 + n \<longrightarrow> cached_bit m k) \<longleftrightarrow> (\<forall>j<n. bit (m ! q) j)" (is "?L \<longleftrightarrow> ?R")
proof
  assume l: ?L
  show ?R
  proof (intro allI impI)
    fix j assume "j < n"
    then show "bit (m ! q) j" using l [rule_format, of "q * 8 + j"] assms by (simp add: cached_bit_def)
  qed
next
  assume r: ?R
  show ?L
  proof (intro allI impI)
    fix k assume k: "q * 8 \<le> k \<and> k < q * 8 + n"
    then have "k div 8 = q" using assms by auto
    then have "k mod 8 < n" using k by (metis add_less_cancel_left div_mult_mod_eq)
    then show "cached_bit m k" using r \<open>k div 8 = q\<close> by (simp add: cached_bit_def)
  qed
qed

lemma isComplete_mapped:
  assumes wf: "image_wf img" and m: "cache_map img = Some m" and nz: "virtualFilesize img \<noteq> 0"
  shows "image_isComplete img =
    Some (if cached_blocks img = {..<image_blocks img} then (True, img\<lparr>cache_map := None\<rparr>, True) else (False, img, False))"
proof -
  note sz = image_wf_sizes [OF wf] and mp = image_wf_map [OF wf m]
  let ?n = "image_blocks img" and ?l = "length m"
  have ml: "nat (IMGSIZE_TO_MAPBYTES (virtualFilesize img)) = ?l"
    using mapbytes_eq [OF sz(2)] mp(1) by simp
  have n0: "?n \<noteq> 0" using nz sz(1) by (metis mult_0_right unat_eq_zero)
  then have l: "?l = (?n + 7) div 8" "?l \<noteq> 0" using mp(1,4) by auto
  have t: "drop_bit 12 (virtualFilesize img) AND 7 = take_bit 3 (drop_bit 12 (virtualFilesize img))"
    by (simp add: take_bit_eq_mask mask_eq_exp_minus_1)
  have lb: "unat (drop_bit 12 (virtualFilesize img) AND 7) = ?n mod 8"
    unfolding t by (simp add: unat_take_bit_mod unat_drop_bit_div sz(1))
  have full: "(0xff :: u8) = low_bits 8" by (simp add: eval_nat_numeral)
  let ?k = "if ?n mod 8 = 0 then 8 else ?n mod 8"
  have nq: "?n = (?l - 1) * 8 + ?k" "?k \<le> 8" using last_byte_blocks [of ?n] n0 l(1) by auto
  define Q1 where "Q1 \<longleftrightarrow> (\<forall>k. 0 * 8 \<le> k \<and> k < (0 + (?l - 1)) * 8 \<longrightarrow> cached_bit m k)"
  define Q2 where "Q2 \<longleftrightarrow> (\<forall>k. (?l - 1) * 8 \<le> k \<and> k < (?l - 1) * 8 + ?k \<longrightarrow> cached_bit m k)"
  have A: "(m ! (?l - 1) AND (if ?n mod 8 = 0 then 0xff else low_bits (?n mod 8)) = (if ?n mod 8 = 0 then 0xff else low_bits (?n mod 8))) = Q2"
    unfolding Q2_def byte_range [OF nq(2)]
    using and_low_bits [of "?n mod 8" "m ! (?l - 1)"] and_low_bits [of 8 "m ! (?l - 1)"] full by simp
  have B: "all_ff m 0 (?l - 1) = Some Q1"
    unfolding Q1_def by (rule all_ff_iff) simp
  have "cached_blocks img = {..<?n} \<longleftrightarrow> (\<forall>k<(?l - 1) * 8 + ?k. cached_bit m k)"
    unfolding nq(1) [symmetric] by (auto simp: cached_blocks_Some [OF m])
  also have "\<dots> \<longleftrightarrow> Q1 \<and> Q2"
    unfolding Q1_def Q2_def all_less_split [of "(?l - 1) * 8" ?k] by simp
  finally have C: "(cached_blocks img = {..<?n}) = (Q1 \<and> Q2)" .
  show ?thesis
    unfolding image_isComplete_def m option.case ml lb Let_def B A C
    using nz l(2) by (cases Q1; cases Q2) simp_all
qed

lemma isComplete_result:
  assumes "image_wf img"
  shows "case image_isComplete img of None \<Rightarrow> False
    | Some (c, img', del) \<Rightarrow>
       (c \<longleftrightarrow> virtualFilesize img \<noteq> 0 \<and> cached_blocks img = {..<image_blocks img})
       \<and> cached_blocks img' = cached_blocks img \<and> image_wf img'
       \<and> (del \<longleftrightarrow> c \<and> cache_map img \<noteq> None) \<and> img' = (if del then img\<lparr>cache_map := None\<rparr> else img)"
proof (cases "cache_map img = None \<or> virtualFilesize img = 0")
  case True
  then have "image_isComplete img = Some (virtualFilesize img \<noteq> 0, img, False)"
    by (auto simp: image_isComplete_def)
  moreover have "cache_map img = None \<Longrightarrow> cached_blocks img = {..<image_blocks img}"
    by (auto simp: cached_blocks_def)
  ultimately show ?thesis using assms True by auto
next
  case False
  then obtain m where m: "cache_map img = Some m" "virtualFilesize img \<noteq> 0" by (cases "cache_map img") auto
  have n: "cached_blocks (img\<lparr>cache_map := None\<rparr>) = {..<image_blocks img}"
    by (auto simp: cached_blocks_def image_blocks_def)
  have "image_wf (img\<lparr>cache_map := None\<rparr>)" using assms m by (simp add: image_wf_def)
  then show ?thesis
    using m n assms by (cases "cached_blocks img = {..<image_blocks img}") (simp_all add: isComplete_mapped [OF assms m])
qed

text \<open>\<open>image_isComplete\<close> answers whether every block of a non-empty image is cached, and frees the
  map and deletes its file exactly when it finds the image complete. The set of cached blocks stays the same.\<close>

theorem image_isComplete_correct:
  assumes "image_wf img"
  shows "case image_isComplete img of None \<Rightarrow> False
    | Some (c, img', del) \<Rightarrow>
       (c \<longleftrightarrow> virtualFilesize img \<noteq> 0 \<and> cached_blocks img = {..<image_blocks img})
       \<and> cached_blocks img' = cached_blocks img \<and> image_wf img'
       \<and> (del \<longleftrightarrow> c \<and> cache_map img \<noteq> None) \<and> img' = (if del then img\<lparr>cache_map := None\<rparr> else img)"
  by (rule isComplete_result [OF assms])

theorem image_isComplete_correct_witness:
  "case image_isComplete sample_image of None \<Rightarrow> False
    | Some (c, img', del) \<Rightarrow> (c \<longleftrightarrow> cached_blocks sample_image = {..<10}) \<and> cached_blocks img' = cached_blocks sample_image"
  using image_isComplete_correct [of sample_image] sample_image_wf
  by (auto simp: sample_image_def image_blocks_def split: option.splits prod.splits)

section \<open>Requests that are cached\<close>

lemma first_byte_loop_iff:
  assumes "f < length m" "i div 8 = f" "4096 * i < 4096 * j"
  shows "first_byte_loop m f (4096 * i) (4096 * j) = Some (\<forall>k. i \<le> k \<and> k < j \<and> k div 8 = f \<longrightarrow> cached_bit m k)"
  using assms
proof (induction "j - i" arbitrary: i)
  case (Suc n)
  have p: "4096 * i + 4096 = 4096 * Suc i" "4096 * Suc i div 32768 = Suc i div 8" by (simp_all add: div_mult2_eq [symmetric])
  have q: "map_mask (4096 * i) = push_bit (i mod 8) 1" by (simp add: map_mask_def div_mult2_eq [symmetric])
  have c: "m ! f AND map_mask (4096 * i) = 0 \<longleftrightarrow> \<not> cached_bit m i"
    using Suc.prems by (simp add: q cached_bit_def bit_iff_and_push_bit_not_eq_0)
  let ?P = "\<lambda>i. \<forall>k. i \<le> k \<and> k < j \<and> k div 8 = f \<longrightarrow> cached_bit m k"
  have split: "?P i \<longleftrightarrow> cached_bit m i \<and> ?P (Suc i)"
    using Suc.prems by (metis Suc_leD Suc_leI le_neq_implies_less mult_less_cancel1 order_refl)
  have step: "first_byte_loop m f (4096 * i) (4096 * j) =
      (if \<not> cached_bit m i then Some False
       else if f = Suc i div 8 \<and> Suc i < j then first_byte_loop m f (4096 * Suc i) (4096 * j) else Some True)"
    using Suc.prems(1) by (subst first_byte_loop.simps) (simp only: p c, simp)
  show ?case
  proof (cases "f = Suc i div 8 \<and> Suc i < j")
    case True
    then have "first_byte_loop m f (4096 * Suc i) (4096 * j) = Some (?P (Suc i))"
      using Suc by (intro Suc.hyps(1)) auto
    then show ?thesis unfolding step split using True by simp
  next
    case False
    have "?P (Suc i)"
    proof (intro allI impI)
      fix k assume k: "Suc i \<le> k \<and> k < j \<and> k div 8 = f"
      then have "Suc i div 8 \<le> f" "f \<le> Suc i div 8" using div_le_mono [of "Suc i" k 8] div_le_mono [of i "Suc i" 8] Suc.prems by auto
      with False k show "cached_bit m k" by auto
    qed
    then show ?thesis unfolding step split using False by auto
  qed
qed simp

lemma last_byte_loop_iff:
  assumes "l < length m" "j \<le> l * 8 + 8" "l * 8 \<le> i"
  shows "last_byte_loop m l (4096 * i) (4096 * j) = Some (\<forall>k. i \<le> k \<and> k < j \<longrightarrow> cached_bit m k)"
  using assms
proof (induction "j - i" arbitrary: i)
  case 0
  then show ?case by (subst last_byte_loop.simps) auto
next
  case (Suc n)
  then have ij: "i < j" and d: "i div 8 = l" by auto
  have p: "4096 * i + 4096 = 4096 * Suc i" "4096 * i div 32768 = i div 8" by (simp_all add: div_mult2_eq [symmetric])
  have q: "map_mask (4096 * i) = push_bit (i mod 8) 1" by (simp add: map_mask_def div_mult2_eq [symmetric])
  have c: "m ! l AND map_mask (4096 * i) = 0 \<longleftrightarrow> \<not> cached_bit m i"
    using d by (simp add: q cached_bit_def bit_iff_and_push_bit_not_eq_0)
  let ?P = "\<lambda>i. \<forall>k. i \<le> k \<and> k < j \<longrightarrow> cached_bit m k"
  have split: "?P i \<longleftrightarrow> cached_bit m i \<and> ?P (Suc i)"
    using ij by (metis Suc_leD Suc_leI le_neq_implies_less order_refl)
  have "last_byte_loop m l (4096 * Suc i) (4096 * j) = Some (?P (Suc i))"
    using Suc by (intro Suc.hyps(1)) auto
  moreover have "last_byte_loop m l (4096 * i) (4096 * j) =
      (if \<not> cached_bit m i then Some False else last_byte_loop m l (4096 * Suc i) (4096 * j))"
    using ij d Suc.prems(1) by (subst last_byte_loop.simps) (simp only: p c, simp)
  ultimately show ?case unfolding split by simp
qed

text \<open>The blocks that the bytes of a request touch.\<close>

definition request_blocks :: "u64 \<Rightarrow> u32 \<Rightarrow> nat set" where
  "request_blocks offset sz = {k. 4096 * k < unat offset + unat sz \<and> unat offset < 4096 * k + 4096}"

lemma split_by_bytes:
  assumes "(i :: nat) < j" "F = i div 8" "L = (j - 1) div 8"
  shows "(\<forall>k. i \<le> k \<and> k < j \<longrightarrow> P k) \<longleftrightarrow>
    (\<forall>k. (F + 1) * 8 \<le> k \<and> k < (F + 1 + (L - (F + 1))) * 8 \<longrightarrow> P k)
    \<and> (\<forall>k. i \<le> k \<and> k < j \<and> k div 8 = F \<longrightarrow> P k)
    \<and> (F \<noteq> L \<longrightarrow> (\<forall>k. L * 8 \<le> k \<and> k < j \<longrightarrow> P k))" (is "?all \<longleftrightarrow> ?mid \<and> ?first \<and> (F \<noteq> L \<longrightarrow> ?last)")
proof
  assume a: ?all
  have ?mid
  proof (intro allI impI)
    fix k assume k: "(F + 1) * 8 \<le> k \<and> k < (F + 1 + (L - (F + 1))) * 8"
    then have "F + 1 < L" by (cases "F + 1 < L") auto
    then have "i \<le> k" "k < j" using k assms by auto
    then show "P k" using a by simp
  qed
  moreover have "F \<noteq> L \<longrightarrow> ?last"
  proof (intro impI allI)
    fix k assume "F \<noteq> L" "L * 8 \<le> k \<and> k < j"
    moreover have "F \<le> L" using assms by (auto intro: div_le_mono)
    ultimately have "F + 1 \<le> L" by simp
    moreover have "i < 8 + F * 8" using dividend_less_div_times [of 8 i] assms(2) by simp
    ultimately have "i \<le> k" using \<open>L * 8 \<le> k \<and> k < j\<close> by linarith
    then show "P k" using a \<open>L * 8 \<le> k \<and> k < j\<close> by simp
  qed
  ultimately show "?mid \<and> ?first \<and> (F \<noteq> L \<longrightarrow> ?last)" using a by blast
next
  assume r: "?mid \<and> ?first \<and> (F \<noteq> L \<longrightarrow> ?last)"
  show ?all
  proof (intro allI impI)
    fix k assume k: "i \<le> k \<and> k < j"
    then have "F \<le> k div 8" "k div 8 \<le> L" using assms by (auto intro: div_le_mono)
    then consider "k div 8 = F" | "F \<noteq> L" "L * 8 \<le> k" | "F < k div 8" "k div 8 < L"
      by (cases "k div 8 = F"; cases "k div 8 = L") auto
    then show "P k"
    proof cases
      case 3
      then have "(F + 1) * 8 \<le> k \<and> k < (F + 1 + (L - (F + 1))) * 8" by auto
      with r show ?thesis by blast
    qed (use r k in auto)
  qed
qed

lemma net_isCached_iff:
  assumes wf: "image_wf img" and r: "unat offset + unat sz \<le> unat (virtualFilesize img)" and sz: "sz \<noteq> 0"
    and m: "cache_map img = Some m"
  shows "net_isCached img offset sz = Some (request_blocks offset sz \<subseteq> cached_blocks img)"
proof -
  note si = image_wf_sizes [OF wf] and mp = image_wf_map [OF wf m]
  let ?i = "unat offset div 4096" and ?j = "(unat offset + unat sz + 4095) div 4096"
  have u: "unat (offset + ucast sz :: u64) = unat offset + unat sz"
    using r si(2) by (subst unat_add_no_wrap) (simp_all add: unsigned_ucast_eq take_bit_nat_eq_self unat_u32_less)
  have s: "unat (align_down offset) = 4096 * ?i" by (simp add: unat_align_down)
  have e: "unat (align_up (offset + ucast sz)) = 4096 * ?j"
    using u r si(2) by (subst unat_align_up) simp_all
  have s0: "0 < unat sz" using sz by (simp add: unat_gt_0)
  then have ij: "?i < ?j" by (simp add: div_less_mono less_mult_imp_div_less)
  have jb: "?j \<le> image_blocks img" using r si(1) by auto
  have f: "4096 * ?i div 32768 = ?i div 8" by (simp add: div_mult2_eq [symmetric])
  have l: "(4096 * ?j - 1) div 32768 = (?j - 1) div 8" using ij by (cases ?j) (simp_all add: div_mult2_eq [symmetric])
  have rb: "request_blocks offset sz = {?i..<?j}" using s0 by (auto simp: request_blocks_def)
  have sub: "request_blocks offset sz \<subseteq> cached_blocks img \<longleftrightarrow> (\<forall>k. ?i \<le> k \<and> k < ?j \<longrightarrow> cached_bit m k)"
    using jb by (auto simp: rb cached_blocks_Some [OF m])
  let ?F = "?i div 8" and ?L = "(?j - 1) div 8"
  have lm: "?F < length m" "?L < length m" "?j \<le> ?L * 8 + 8" using ij jb mp(3) by auto
  have b0: "F + 1 + (L - (F + 1)) \<le> n" if "F < n" "L < n" for F L n :: nat
    using that by arith
  define A B D where "A \<longleftrightarrow> (\<forall>k. (?F + 1) * 8 \<le> k \<and> k < (?F + 1 + (?L - (?F + 1))) * 8 \<longrightarrow> cached_bit m k)"
    and "B \<longleftrightarrow> (\<forall>k. ?i \<le> k \<and> k < ?j \<and> k div 8 = ?F \<longrightarrow> cached_bit m k)"
    and "D \<longleftrightarrow> (\<forall>k. ?L * 8 \<le> k \<and> k < ?j \<longrightarrow> cached_bit m k)"
  have b1: "all_ff m (?F + 1) (?L - (?F + 1)) = Some A"
    unfolding A_def by (rule all_ff_iff, rule b0 [OF lm(1,2)])
  have b2: "first_byte_loop m ?F (4096 * ?i) (4096 * ?j) = Some B"
    unfolding B_def using lm(1) ij by (intro first_byte_loop_iff) auto
  have b3: "last_byte_loop m ?L (?L * 32768) (4096 * ?j) = Some D"
    unfolding D_def using last_byte_loop_iff [OF lm(2,3), of "?L * 8"] by (simp add: mult.commute)
  have "net_isCached img offset sz = Some (A \<and> B \<and> (?F \<noteq> ?L \<longrightarrow> D))"
    unfolding net_isCached_def m option.case Let_def s e f l b1 b2 b3 using sz
    by (cases A; cases B; cases "?F = ?L") (simp_all only: option.case bool.case if_True if_False simp_thms)
  then show ?thesis unfolding A_def B_def D_def sub split_by_bytes [OF ij refl refl] .
qed

lemma isCached_iff:
  assumes "image_wf img" "unat offset + unat sz \<le> unat (virtualFilesize img)" "sz \<noteq> 0"
  shows "net_isCached img offset sz = Some (request_blocks offset sz \<subseteq> cached_blocks img)"
proof (cases "cache_map img")
  case None
  have "request_blocks offset sz \<subseteq> cached_blocks img"
    using None assms(2) image_wf_sizes(1) [OF assms(1)] by (auto simp: request_blocks_def cached_blocks_def)
  then show ?thesis using None by (simp add: net_isCached_def)
next
  case (Some m)
  then show ?thesis using net_isCached_iff assms by blast
qed

text \<open>C7. The test in front of every block request, which looks at whole bytes of the map in the middle
  and at single bits at both ends, accepts a request exactly when every block it touches is
  cached. It never reads outside of the map and its assertion holds.\<close>

theorem net_isCached_correct:
  assumes "image_wf img" "unat offset + unat sz \<le> unat (virtualFilesize img)" "sz \<noteq> 0"
  shows "net_isCached img offset sz = Some (request_blocks offset sz \<subseteq> cached_blocks img)"
  using assms by (rule isCached_iff)

theorem net_isCached_correct_witness:
  "net_isCached sample_image 4096 8192 = Some (request_blocks 4096 8192 \<subseteq> cached_blocks sample_image)"
  using net_isCached_correct [of sample_image 4096 8192] sample_image_wf
  by (simp add: sample_image_def)

section \<open>The map on disk\<close>

lemma save_loop_one: "n \<ge> sz \<Longrightarrow> length m = sz \<Longrightarrow> 0 < sz \<Longrightarrow> save_loop m sz 0 (Written n # rs) [] = m"
  by (cases rs) (auto simp: min_def Let_def)

text \<open>A map that is saved by one complete \<open>write\<close> and loaded again is the same map, so the
  restarted server knows of the same cached blocks, whatever the file held before.\<close>

theorem cache_map_save_load:
  assumes "image_wf img" "cache_map img = Some m" "virtualFilesize img \<noteq> 0" "length m \<le> n"
  shows "image_loadCacheMap (Some (snd (uplink_saveCacheMap img True (Written n # rs) old))) (virtualFilesize img) = Some m"
proof -
  note mp = image_wf_map [OF assms(1,2)]
  have sz: "nat (IMGSIZE_TO_MAPBYTES (virtualFilesize img)) = length m"
    using mapbytes_eq [OF mp(5)] mp(1) by simp
  have "image_blocks img \<noteq> 0" using assms(3) mp(4) by (metis mult_0_right unat_eq_zero)
  then have "\<not> virtualFilesize img < DNBD3_BLOCK_SIZE" "0 < length m"
    using mp(3,4) by (auto simp: word_less_nat_alt DNBD3_BLOCK_SIZE_def)
  then show ?thesis
    using assms(2,4) save_loop_one [of "length m" n m rs]
    by (simp add: uplink_saveCacheMap_def image_loadCacheMap_def sz Let_def)
qed

theorem cache_map_save_load_witness:
  "image_loadCacheMap (Some (snd (uplink_saveCacheMap sample_image True [Written 2] [0xff, 0xff, 0xff]))) 40960 = Some [0x0f, 0x01]"
  using cache_map_save_load [of sample_image "[0x0f, 0x01]" 2 "[]" "[0xff, 0xff, 0xff]"] sample_image_wf
  by (simp add: sample_image_def)

text \<open>When \<open>write\<close> stores only a part of the map, the next call starts at the beginning of the
  buffer again: the file then holds the first bytes of the map twice, and the call still reports success.\<close>

theorem cache_map_short_write:
  assumes "cache_map img = Some m" "\<not> virtualFilesize img < DNBD3_BLOCK_SIZE"
    "nat (IMGSIZE_TO_MAPBYTES (virtualFilesize img)) = length m" "0 < n" "n < length m"
  shows "uplink_saveCacheMap img True [Written n, Written (length m - n)] []
    = (True, take n m @ take (length m - n) m)"
  using assms by (simp add: uplink_saveCacheMap_def Let_def min_def)

theorem cache_map_short_write_witness:
  "uplink_saveCacheMap sample_image True [Written 1, Written 1] [] = (True, [0x0f, 0x0f])"
  using cache_map_short_write [of sample_image "[0x0f, 0x01]" 1] mapbytes_eq [of 40960]
  by (simp add: sample_image_def DNBD3_BLOCK_SIZE_def)

section \<open>The estimate\<close>

lemma percent_loop_bounds:
  assumes "i + n \<le> length m" "percent_loop m i n p = Some q"
  shows "p \<le> q \<and> q \<le> p + 100 * int n"
  using assms
proof (induction n arbitrary: i p)
  case (Suc n)
  then show ?case by (auto split: if_splits dest!: Suc.IH [rotated])
qed simp

lemma percent_loop_Some: "i + n \<le> length m \<Longrightarrow> \<exists>q. percent_loop m i n p = Some q"
  by (induction n arbitrary: i p) auto

text \<open>The estimate of an image's completeness is a percentage, and a freshly computed one is
  stored with a time to recompute it that lies between 8 and 39 seconds ahead.\<close>

theorem completeness_bounds:
  assumes "image_wf img" "0 \<le> completenessEstimate img \<and> completenessEstimate img \<le> 100"
  shows "case image_getCompletenessEstimate now rand img of None \<Rightarrow> False
    | Some (r, img') \<Rightarrow> 0 \<le> r \<and> r \<le> 100 \<and> cached_blocks img' = cached_blocks img \<and> image_wf img'
       \<and> (img' = img \<or> completenessEstimate img' = r \<and>
            nextCompletenessEstimate img' \<in> {timing_set now s | s. 8 \<le> s \<and> s \<le> 39})"
proof (cases "cache_map img")
  case None
  then show ?thesis using assms by (simp add: image_getCompletenessEstimate_def)
next
  case (Some m)
  note mp = image_wf_map [OF assms(1) Some]
  have len: "nat (IMGSIZE_TO_MAPBYTES (virtualFilesize img)) = length m"
    using mapbytes_eq [OF mp(5)] mp(1) by simp
  obtain q where q: "percent_loop m 0 (length m) 0 = Some q"
    using percent_loop_Some [of 0 "length m" m 0] by auto
  have b: "0 \<le> q" "q \<le> 100 * int (length m)"
    using percent_loop_bounds [OF _ q] by auto
  have d: "0 \<le> q div int (length m)" "q div int (length m) \<le> 100" if "length m \<noteq> 0"
  proof -
    show "0 \<le> q div int (length m)" using b that by (simp add: pos_imp_zdiv_nonneg_iff)
    have "q div int (length m) \<le> (100 * int (length m)) div int (length m)"
      using b that by (intro zdiv_mono1) auto
    then show "q div int (length m) \<le> 100" using that by simp
  qed
  show ?thesis
    using assms Some q d
    by (auto simp: image_getCompletenessEstimate_def len Let_def cached_blocks_def image_blocks_def image_wf_def
        intro!: exI [of _ "8 + int (rand mod 32)"])
qed

section \<open>The map as seen by its clients\<close>

text \<open>What the network and uplink code rely on: updates add and remove blocks, and the test in front
  of a request looks at the blocks it touches.\<close>

locale block_cache =
  fixes inv :: "'i \<Rightarrow> bool" and blocks :: "'i \<Rightarrow> nat" and cached :: "'i \<Rightarrow> nat set"
    and update :: "'i \<Rightarrow> u64 \<Rightarrow> u64 \<Rightarrow> bool \<Rightarrow> ('i \<times> int list) option"
    and holds :: "'i \<Rightarrow> u64 \<Rightarrow> u32 \<Rightarrow> bool option"
  assumes update_law: "inv i \<Longrightarrow> start \<le> e \<Longrightarrow> unat e \<le> 4096 * blocks i \<Longrightarrow>
      \<exists>i' checks. update i start e st = Some (i', checks) \<and> inv i' \<and> blocks i' = blocks i
        \<and> cached i' = (if st then cached i \<union> affected_blocks start e st else cached i - affected_blocks start e st)"
    and holds_law: "inv i \<Longrightarrow> unat offset + unat sz \<le> 4096 * blocks i \<Longrightarrow> sz \<noteq> 0 \<Longrightarrow>
      holds i offset sz = Some (request_blocks offset sz \<subseteq> cached i)"
begin

text \<open>A sequence of updates, each with its range and whether it sets or clears.\<close>

fun run_updates :: "'i \<Rightarrow> (u64 \<times> u64 \<times> bool) list \<Rightarrow> 'i option" where
  "run_updates i [] = Some i"
| "run_updates i ((start, e, st) # us) =
    (case update i start e st of None \<Rightarrow> None | Some (i', checks) \<Rightarrow> run_updates i' us)"

lemma run_updates_cached:
  assumes "inv i" "\<forall>(start, e, st)\<in>set us. start \<le> e \<and> unat e \<le> 4096 * blocks i"
  shows "\<exists>i'. run_updates i us = Some i' \<and> inv i' \<and> blocks i' = blocks i \<and>
    (\<forall>k. k \<in> cached i' \<longleftrightarrow> fold (\<lambda>(start, e, st) b. if k \<in> affected_blocks start e st then st else b) us (k \<in> cached i))"
  using assms
proof (induction us arbitrary: i)
  case (Cons u us)
  obtain start e st where u: "u = (start, e, st)" by (cases u)
  have "start \<le> e" "unat e \<le> 4096 * blocks i" using Cons.prems(2) u by auto
  from update_law [OF Cons.prems(1) this, of st] obtain i' checks where
    i': "update i start e st = Some (i', checks)" "inv i'" "blocks i' = blocks i"
      "cached i' = (if st then cached i \<union> affected_blocks start e st else cached i - affected_blocks start e st)"
    by blast
  have "(k \<in> cached i') = (if k \<in> affected_blocks start e st then st else k \<in> cached i)" for k
    by (auto simp: i'(4))
  then show ?case using Cons.IH [OF i'(2)] Cons.prems(2) i'(1,3) u by auto
qed simp

lemma answer_after_updates:
  assumes "inv i" "\<forall>(start, e, st)\<in>set us. start \<le> e \<and> unat e \<le> 4096 * blocks i"
    and "unat offset + unat sz \<le> 4096 * blocks i" "sz \<noteq> 0"
  shows "\<exists>i'. run_updates i us = Some i' \<and> holds i' offset sz = Some (\<forall>k\<in>request_blocks offset sz.
    fold (\<lambda>(start, e, st) b. if k \<in> affected_blocks start e st then st else b) us (k \<in> cached i))"
proof -
  obtain i' where "run_updates i us = Some i'" "inv i'" "blocks i' = blocks i"
    "\<forall>k. k \<in> cached i' \<longleftrightarrow> fold (\<lambda>(start, e, st) b. if k \<in> affected_blocks start e st then st else b) us (k \<in> cached i)"
    using run_updates_cached [OF assms(1,2)] by blast
  then show ?thesis using holds_law [of i' offset sz] assms(3,4) by (auto simp: subset_iff)
qed

end

interpretation map_cache: block_cache image_wf image_blocks cached_blocks image_updateCachemap net_isCached
proof unfold_locales
  fix i :: dnbd3_image and start e :: u64 and st :: bool
  assume a: "image_wf i" "start \<le> e" "unat e \<le> 4096 * image_blocks i"
  then have "e \<le> virtualFilesize i" using image_wf_sizes(1) [OF a(1)] by (simp add: word_le_nat_alt)
  from updateCachemap_refines [OF a(1,2) this, of st] obtain img' checks where
    r: "image_updateCachemap i start e st = Some (img', checks)" "image_wf img'" "img' = i\<lparr>cache_map := cache_map img'\<rparr>"
      "cached_blocks img' = (if st then cached_blocks i \<union> affected_blocks start e st else cached_blocks i - affected_blocks start e st)"
    by blast
  moreover have "image_blocks img' = image_blocks i" by (subst r(3)) (simp add: image_blocks_def)
  ultimately show "\<exists>i' checks. image_updateCachemap i start e st = Some (i', checks) \<and> image_wf i'
      \<and> image_blocks i' = image_blocks i
      \<and> cached_blocks i' = (if st then cached_blocks i \<union> affected_blocks start e st else cached_blocks i - affected_blocks start e st)"
    by blast
next
  fix i :: dnbd3_image and offset :: u64 and sz :: u32
  assume "image_wf i" "unat offset + unat sz \<le> 4096 * image_blocks i" "sz \<noteq> 0"
  then show "net_isCached i offset sz = Some (request_blocks offset sz \<subseteq> cached_blocks i)"
    using image_wf_sizes(1) by (intro isCached_iff) auto
qed

text \<open>After any sequence of updates inside the image, a request is answered from the local file
  exactly when, for every block it touches, the last update that affected the block was one that
  set it, or the block was cached from the start and no update affected it.\<close>

theorem cache_history:
  assumes "image_wf img" "\<forall>(start, e, st)\<in>set us. start \<le> e \<and> unat e \<le> 4096 * image_blocks img"
    and "unat offset + unat sz \<le> 4096 * image_blocks img" "sz \<noteq> 0"
  shows "\<exists>img'. map_cache.run_updates img us = Some img' \<and> net_isCached img' offset sz =
    Some (\<forall>k\<in>request_blocks offset sz.
      fold (\<lambda>(start, e, st) b. if k \<in> affected_blocks start e st then st else b) us (k \<in> cached_blocks img))"
  using assms by (rule map_cache.answer_after_updates)

theorem cache_history_witness:
  "\<exists>img'. map_cache.run_updates sample_image [(0, 40960, True)] = Some img' \<and>
    net_isCached img' 8192 4096 = Some (\<forall>k\<in>request_blocks 8192 4096.
      if k \<in> affected_blocks 0 40960 True then True else k \<in> cached_blocks sample_image)"
proof -
  have b: "image_blocks sample_image = 10" by (simp add: image_blocks_def sample_image_def)
  show ?thesis
    using cache_history [of sample_image "[(0, 40960, True)]" 8192 4096] sample_image_wf b by simp
qed

end
