(* ===== verification/Slot_Table.thy ===== *)
theory Slot_Table
  imports Dnbd3_Prelude "HOL-Library.Multiset"
begin

text \<open>
  Arrays of pointers with a fill level, in which a null pointer marks a free slot. The server
  keeps its clients (\<open>_clients\<close>, \<open>_num_clients\<close> in \<open>src/server/net.c\<close>) and its images (\<open>_images\<close>,
  \<open>_num_images\<close> in \<open>src/server/image.c\<close>) this way. A table is the list of the slots below
  the fill level. The locale states what both lists promise; each of them is an instance.
\<close>

section \<open>Contents of a table\<close>

definition occupied :: "'a option list \<Rightarrow> 'a multiset" where
  "occupied xs = image_mset the (filter_mset (\<lambda>x. x \<noteq> None) (mset xs))"

lemma occupied_simps [simp]:
  "occupied [] = {#}"
  "occupied (None # xs) = occupied xs"
  "occupied (Some a # xs) = add_mset a (occupied xs)"
  "occupied (xs @ ys) = occupied xs + occupied ys"
  by (simp_all add: occupied_def)

lemma in_occupied [simp]: "a \<in># occupied xs \<longleftrightarrow> Some a \<in> set xs"
proof (induction xs)
  case (Cons x xs)
  then show ?case by (cases x) auto
qed simp

lemma occupied_update_None: "i < length xs \<Longrightarrow> xs ! i = None \<Longrightarrow> occupied (xs[i := Some a]) = add_mset a (occupied xs)"
proof (induction xs arbitrary: i)
  case (Cons x xs)
  then show ?case by (cases i; cases x) auto
qed simp

lemma occupied_drop_free: "occupied (drop_free (\<lambda>x. x = None) xs) = occupied xs"
  by (induction xs rule: rev_induct) auto

lemma occupied_remove: "occupied (map (\<lambda>x. if x = Some a then None else x) xs) = filter_mset (\<lambda>b. b \<noteq> a) (occupied xs)"
proof (induction xs)
  case (Cons x xs)
  then show ?case by (cases x) auto
qed simp

text \<open>No free slot below the fill level: the table is packed up to it.\<close>

definition packed :: "'a option list \<Rightarrow> bool" where
  "packed xs \<longleftrightarrow> None \<notin> set xs"

lemma packed_size: "packed xs \<Longrightarrow> size (occupied xs) = length xs"
proof (induction xs)
  case (Cons x xs)
  then show ?case by (cases x) (auto simp: packed_def)
qed simp

section \<open>The loops\<close>

text \<open>The search loop of both insertions, as far as the first free slot.\<close>

definition fill_slot :: "nat \<Rightarrow> 'a \<Rightarrow> 'a option list \<Rightarrow> 'a option list option" where
  "fill_slot max_slots a xs = (case first_index (\<lambda>x. x = None) xs of
      Some i \<Rightarrow> Some (xs[i := Some a])
    | None \<Rightarrow> if length xs \<ge> max_slots then None else Some (xs @ [Some a]))"

text \<open>The loop of both removals: \<open>for (i = num - 1; i >= 0; --i)\<close>, with the fill level as the length.\<close>

fun clear_loop :: "'a \<Rightarrow> nat \<Rightarrow> 'a option list \<Rightarrow> 'a option list" where
  "clear_loop a 0 xs = xs"
| "clear_loop a (Suc i) xs =
    (let xs = (if xs ! i = Some a then xs[i := None] else xs);
         xs = (if xs ! i = None \<and> i + 1 = length xs then butlast xs else xs)
     in clear_loop a i xs)"

lemma clear_loop_append:
  "clear_loop a (length xs) (xs @ ys) =
    (if ys = [] then drop_free (\<lambda>x. x = None) (map (\<lambda>x. if x = Some a then None else x) xs)
     else map (\<lambda>x. if x = Some a then None else x) xs @ ys)"
proof (induction xs arbitrary: ys rule: rev_induct)
  case (snoc x xs)
  let ?x = "if x = Some a then None else x"
  have step: "clear_loop a (length (xs @ [x])) ((xs @ [x]) @ ys) =
      clear_loop a (length xs) (if ?x = None \<and> ys = [] then xs else xs @ ?x # ys)"
    by (cases x) (auto simp: Let_def nth_append list_update_append butlast_append)
  show ?case unfolding step using snoc.IH [of "[]"] snoc.IH [of "?x # ys"] by (cases x) auto
qed simp

lemma clear_loop_eq:
  "clear_loop a (length xs) xs = drop_free (\<lambda>x. x = None) (map (\<lambda>x. if x = Some a then None else x) xs)"
  using clear_loop_append [of a xs "[]"] by simp

lemma fill_slot_Some:
  assumes "fill_slot n a xs = Some ys"
  shows "occupied ys = add_mset a (occupied xs)"
    "length xs \<le> n \<Longrightarrow> length ys \<le> n"
    "\<forall>i<length xs. xs ! i \<noteq> None \<longrightarrow> i < length ys \<and> ys ! i = xs ! i"
  using assms first_index_Some [of "\<lambda>x. x = None" xs]
  by (auto simp: fill_slot_def nth_append nth_list_update occupied_update_None split: option.splits if_splits)

lemma fill_slot_None: "fill_slot n a xs = None \<longleftrightarrow> packed xs \<and> length xs \<ge> n"
  by (auto simp: fill_slot_def packed_def first_index_None split: option.splits
      dest!: first_index_Some intro: nth_mem dest: nth_mem)

section \<open>The interface\<close>

locale slot_table =
  fixes insert :: "nat \<Rightarrow> 'a \<Rightarrow> 'a option list \<Rightarrow> 'a option list option"
    and remove :: "'a \<Rightarrow> 'a option list \<Rightarrow> 'a option list"
  assumes insert_Some: "insert n a xs = Some ys \<Longrightarrow> occupied ys = add_mset a (occupied xs)
      \<and> (length xs \<le> n \<longrightarrow> length ys \<le> n)"
    and insert_None: "insert n a xs = None \<longleftrightarrow> packed xs \<and> n \<le> length xs"
    and remove_occupied: "occupied (remove a xs) = filter_mset (\<lambda>b. b \<noteq> a) (occupied xs)"
    and remove_tight: "remove a xs = [] \<or> last (remove a xs) \<noteq> None"
    and remove_length: "length (remove a xs) \<le> length xs"
begin

lemma insert_fits: "size (occupied xs) < n \<Longrightarrow> \<exists>ys. insert n a xs = Some ys"
  using insert_None [of n a xs] packed_size [of xs] by (cases "insert n a xs") auto

lemma remove_inserted:
  assumes "insert n a xs = Some ys" "Some a \<notin> set xs"
  shows "occupied (remove a ys) = occupied xs"
proof -
  have "filter_mset (\<lambda>b. b \<noteq> a) (occupied xs) = occupied xs"
    using assms(2) by (intro multiset_eqI) (auto simp: not_in_iff [symmetric])
  then show ?thesis using insert_Some [OF assms(1)] by (simp add: remove_occupied)
qed

lemma remove_all: "set_mset (occupied xs) \<subseteq> {a} \<Longrightarrow> remove a xs = []"
proof -
  assume "set_mset (occupied xs) \<subseteq> {a}"
  then have "b \<notin># occupied (remove a xs)" for b unfolding remove_occupied by auto
  then have none: "Some b \<notin> set (remove a xs)" for b by simp
  show ?thesis
  proof (rule ccontr)
    assume ne: "remove a xs \<noteq> []"
    then obtain b where "last (remove a xs) = Some b" using remove_tight [of a xs] by auto
    then show False using none [of b] ne last_in_set [of "remove a xs"] by simp
  qed
qed

lemma insert_keeps: "insert n a xs = Some ys \<Longrightarrow> Some b \<in> set xs \<Longrightarrow> Some b \<in> set ys"
  using insert_Some [of n a xs ys] in_occupied [of b ys] in_occupied [of b xs] by (simp del: in_occupied)

end

text \<open>The loops above satisfy the interface.\<close>

interpretation slot_loops: slot_table fill_slot "\<lambda>a xs. clear_loop a (length xs) xs"
proof unfold_locales
  fix n and a :: 'a and xs ys :: "'a option list"
  show "fill_slot n a xs = Some ys \<Longrightarrow> occupied ys = add_mset a (occupied xs) \<and> (length xs \<le> n \<longrightarrow> length ys \<le> n)"
    by (simp add: fill_slot_Some)
  show "fill_slot n a xs = None \<longleftrightarrow> packed xs \<and> n \<le> length xs"
    by (rule fill_slot_None)
  show "occupied (clear_loop a (length xs) xs) = filter_mset (\<lambda>b. b \<noteq> a) (occupied xs)"
    by (simp add: clear_loop_eq occupied_drop_free occupied_remove)
  show "clear_loop a (length xs) xs = [] \<or> last (clear_loop a (length xs) xs) \<noteq> None"
    using last_drop_free [of "\<lambda>x. x = None"] by (auto simp: clear_loop_eq)
  show "length (clear_loop a (length xs) xs) \<le> length xs"
    using length_drop_free_le [of "\<lambda>x. x = None" "map (\<lambda>x. if x = Some a then None else x) xs"]
    by (simp add: clear_loop_eq)
qed

end
