(* ===== verification/Image_List.thy ===== *)
theory Image_List
  imports Cache_Map Slot_Table
begin

text \<open>
  The list of images of the server and their reference counts, from \<open>src/server/image.c\<close>.
  Images live in a store (address to structure), the array \<open>_images\<close> holds addresses. Each
  operation runs as a whole, as it does under \<open>imageListLock\<close>; what the file system answers is an
  argument. Fallible operations return an option, \<open>None\<close> being a failed assertion.

  The proofs carry a multiset of the references that callers hold. The invariant says that the
  counter of an image equals the number of references, that neither the list nor a caller refers to a
  freed image, and that an image that is neither listed nor referenced has been freed.
\<close>

section \<open>State\<close>

definition NONWORKING_RECHECK_INTERVAL_SECONDS :: u32 where "NONWORKING_RECHECK_INTERVAL_SECONDS = 60"
definition UNUSED_FD_TIMEOUT :: int where "UNUSED_FD_TIMEOUT = 3600"

record image_store =
  heap :: "nat \<Rightarrow> dnbd3_image option"
  images :: "nat option list"
  imgIdCounter :: int

text \<open>What the file system, the clock, the configuration and \<open>malloc\<close> answer during one call.\<close>

record get_env =
  ge_open_fd :: int
  ge_open_len :: int
  ge_lseek :: int
  ge_pread_ok :: bool
  ge_now :: ticks
  ge_removeMissing :: bool
  ge_maxImages :: nat
  ge_fresh :: nat
  ge_uplink :: "nat option"

definition modify :: "nat \<Rightarrow> (dnbd3_image \<Rightarrow> dnbd3_image) \<Rightarrow> image_store \<Rightarrow> image_store" where
  "modify a f s = s\<lparr>heap := (heap s)(a := map_option f (heap s a))\<rparr>"

definition img_at :: "image_store \<Rightarrow> nat \<Rightarrow> dnbd3_image" where
  "img_at s a = the (heap s a)"

section \<open>Operations\<close>

definition image_free :: "nat \<Rightarrow> image_store \<Rightarrow> image_store" where
  "image_free a s = s\<lparr>heap := (heap s)(a := None)\<rparr>"

definition image_lock :: "nat \<Rightarrow> image_store \<Rightarrow> nat option \<times> image_store" where
  "image_lock a s = (if Some a \<in> set (images s)
     then (Some a, modify a (\<lambda>img. img\<lparr>im_users := im_users img + 1\<rparr>) s) else (None, s))"

definition image_release :: "nat \<Rightarrow> image_store \<Rightarrow> image_store option" where
  "image_release a s =
    (if \<not> im_users (img_at s a) > 0 then None
     else let s' = modify a (\<lambda>img. img\<lparr>im_users := im_users img - 1\<rparr>) s in
          if im_users (img_at s' a) \<noteq> 0 then Some s'
          else if Some a \<in> set (images s') then Some s'
          else Some (image_free a s'))"

definition image_remove :: "nat \<Rightarrow> image_store \<Rightarrow> nat option \<times> image_store" where
  "image_remove a s =
    (let mustFree = (Some a \<in> set (images s) \<and> im_users (img_at s a) = 0);
         s' = s\<lparr>images := clear_loop a (length (images s)) (images s)\<rparr>
     in if mustFree then (None, image_free a s') else (Some a, s'))"

definition image_addToList :: "nat \<Rightarrow> nat \<Rightarrow> image_store \<Rightarrow> bool \<times> image_store" where
  "image_addToList maxImages a s =
    (let s = s\<lparr>imgIdCounter := imgIdCounter s + 1\<rparr>;
         s = modify a (\<lambda>img. img\<lparr>im_id := imgIdCounter s\<rparr>) s
     in case fill_slot maxImages a (images s) of
          None \<Rightarrow> (False, s)
        | Some xs \<Rightarrow> (True, s\<lparr>images := xs\<rparr>))"

fun tryfree_loop :: "nat \<Rightarrow> image_store \<Rightarrow> image_store" where
  "tryfree_loop 0 s = s"
| "tryfree_loop (Suc i) s =
    (let s = (case images s ! i of
                None \<Rightarrow> s
              | Some a \<Rightarrow> if im_users (img_at s a) = 0
                  then image_free a (s\<lparr>images := (images s)[i := None]\<rparr>) else s);
         s = (if i + 1 = length (images s) \<and> images s ! i = None
              then s\<lparr>images := butlast (images s)\<rparr> else s)
     in tryfree_loop i s)"

definition image_tryFreeAll :: "image_store \<Rightarrow> bool \<times> image_store" where
  "image_tryFreeAll s = (let s' = tryfree_loop (length (images s)) s in (images s' = [], s'))"

text \<open>The check for vanished images at the start of \<open>image_loadAll\<close>; \<open>readable\<close> is
  \<open>file_isReadable\<close>.\<close>

fun vanished_loop :: "(string \<Rightarrow> bool) \<Rightarrow> nat \<Rightarrow> image_store \<Rightarrow> image_store" where
  "vanished_loop readable 0 s = s"
| "vanished_loop readable (Suc i) s =
    (case images s ! i of
       None \<Rightarrow> vanished_loop readable i
                 (if i + 1 = length (images s) then s\<lparr>images := butlast (images s)\<rparr> else s)
     | Some a \<Rightarrow>
         if readable (im_path (img_at s a)) then vanished_loop readable i s
         else (let s = s\<lparr>images := (images s)[i := None]\<rparr>;
                   s = (if i + 1 = length (images s) then s\<lparr>images := butlast (images s)\<rparr> else s)
               in vanished_loop readable i
                    (if im_users (img_at s a) = 0 then image_free a s else s)))"

definition image_removeVanished :: "(string \<Rightarrow> bool) \<Rightarrow> image_store \<Rightarrow> image_store" where
  "image_removeVanished readable s = vanished_loop readable (length (images s)) s"

section \<open>Looking up an image\<close>

text \<open>The search loop of \<open>image_get\<close>; the last argument is the candidate so far.\<close>

fun find_candidate :: "image_store \<Rightarrow> string \<Rightarrow> u16 \<Rightarrow> nat option list \<Rightarrow> nat option \<Rightarrow> nat option" where
  "find_candidate s nm revision [] cand = cand"
| "find_candidate s nm revision (None # xs) cand = find_candidate s nm revision xs cand"
| "find_candidate s nm revision (Some a # xs) cand =
    (if im_name (img_at s a) \<noteq> nm then find_candidate s nm revision xs cand
     else if revision = im_rid (img_at s a) then Some a
     else if revision = 0 \<and> (case cand of None \<Rightarrow> True
               | Some c \<Rightarrow> im_rid (img_at s c) < im_rid (img_at s a))
     then find_candidate s nm revision xs (Some a)
     else find_candidate s nm revision xs cand)"

text \<open>\<open>image_ensureOpen\<close>: \<open>fd\<close> and \<open>flen\<close> are what \<open>open\<close> and \<open>lseek\<close> return.\<close>

definition image_ensureOpen :: "int \<Rightarrow> int \<Rightarrow> dnbd3_image \<Rightarrow> bool \<times> dnbd3_image" where
  "image_ensureOpen fd flen img =
    (if readFd img \<noteq> - 1 then (True, img)
     else let newFd = (if fd \<noteq> - 1 then
                         (if flen = - 1 then - 1
                          else if word_of_int flen \<noteq> realFilesize img then - 1 else fd)
                       else fd)
          in if newFd = - 1 then (False, img\<lparr>im_working := False\<rparr>) else (True, img\<lparr>readFd := newFd\<rparr>))"

text \<open>The copy of an image whose file cannot be accessed any more.\<close>

definition reload_copy :: "ticks \<Rightarrow> dnbd3_image \<Rightarrow> dnbd3_image" where
  "reload_copy now cand = \<lparr>im_path = im_path cand, im_name = im_name cand, im_uplink = None,
     cache_map = cache_map cand, virtualFilesize = virtualFilesize cand, realFilesize = realFilesize cand,
     im_atime = now, lastWorkCheck = \<lparr>tv_sec = 0, tv_nsec = 0\<rparr>,
     nextCompletenessEstimate = \<lparr>tv_sec = 0, tv_nsec = 0\<rparr>, im_crc32 = im_crc32 cand,
     masterCrc32 = masterCrc32 cand, readFd = - 1, completenessEstimate = 0, im_users = 1, im_id = 0,
     im_working = False, im_rid = im_rid cand\<rparr>"

text \<open>The re-check of an image in \<open>image_get\<close>: whether it has to be reloaded, and the image.\<close>

definition recheck :: "get_env \<Rightarrow> dnbd3_image \<Rightarrow> bool \<times> dnbd3_image" where
  "recheck env cand =
    (if ge_lseek env = - 1 then (True, cand)
     else if word_of_int (ge_lseek env) \<noteq> realFilesize cand then (False, cand)
     else if \<not> ge_pread_ok env then (True, cand)
     else (False, cand\<lparr>im_working := True\<rparr>))"

definition reload :: "get_env \<Rightarrow> nat \<Rightarrow> image_store \<Rightarrow> (nat \<times> image_store) option" where
  "reload env a s =
    (let n = ge_fresh env;
         s = s\<lparr>heap := (heap s)(n \<mapsto> reload_copy (ge_now env) (img_at s a))\<rparr>;
         (ok, s) = image_addToList (ge_maxImages env) n s
     in if ok then map_option (\<lambda>s. (n, s)) (image_release a s)
        else Some (a, image_free n s))"

text \<open>\<open>uplink_init\<close> as far as the image is concerned: it sets the pointer, or leaves it null.\<close>

definition start_uplink :: "get_env \<Rightarrow> nat \<Rightarrow> image_store \<Rightarrow> image_store" where
  "start_uplink env a s =
    (if cache_map (img_at s a) \<noteq> None \<and> im_uplink (img_at s a) = None
     then modify a (\<lambda>img. img\<lparr>im_uplink := ge_uplink env\<rparr>) s else s)"

definition image_get :: "get_env \<Rightarrow> string \<Rightarrow> u16 \<Rightarrow> bool \<Rightarrow> image_store \<Rightarrow> (nat option \<times> image_store) option" where
  "image_get env nm revision checkIfWorking s =
    (if nm = [] \<or> last nm = CHR ''/'' \<or> hd nm = CHR ''/'' then Some (None, s)
     else case find_candidate s nm revision (images s) None of
       None \<Rightarrow> Some (None, s)
     | Some a \<Rightarrow>
        let s = modify a (\<lambda>img. img\<lparr>im_users := im_users img + 1\<rparr>) s;
            (opened, img) = (if im_working (img_at s a) \<or> checkIfWorking
               then image_ensureOpen (ge_open_fd env) (ge_open_len env) (img_at s a) else (True, img_at s a));
            s = modify a (\<lambda>_. img) s
        in if \<not> opened then
             (let s = modify a (\<lambda>img. img\<lparr>lastWorkCheck := ge_now env\<rparr>) s
              in if ge_removeMissing env then Some (image_remove a s) else Some (Some a, s))
           else if \<not> checkIfWorking then Some (Some a, s)
           else if \<not> timing_diff (lastWorkCheck img) (ge_now env) > NONWORKING_RECHECK_INTERVAL_SECONDS
           then Some (Some a, s)
           else
             (let s = modify a (\<lambda>img. img\<lparr>lastWorkCheck := ge_now env\<rparr>) s;
                  (again, img) = recheck env (img_at s a);
                  s = modify a (\<lambda>_. img) s
              in case (if again then reload env a s else Some (a, s)) of
                   None \<Rightarrow> None
                 | Some (c, s) \<Rightarrow> Some (Some c, start_uplink env c s)))"

section \<open>Maintenance\<close>

text \<open>\<open>image_closeUnusedFd\<close> for one image, and for the list.\<close>

definition close_unused :: "ticks \<Rightarrow> dnbd3_image \<Rightarrow> dnbd3_image" where
  "close_unused deadline img =
    (if im_users img = 0 \<and> im_uplink img = None \<and> timing_reached (im_atime img) deadline
     then img\<lparr>readFd := - 1\<rparr> else img)"

fun close_loop :: "ticks \<Rightarrow> nat option list \<Rightarrow> image_store \<Rightarrow> image_store" where
  "close_loop deadline [] s = s"
| "close_loop deadline (None # xs) s = close_loop deadline xs s"
| "close_loop deadline (Some a # xs) s = close_loop deadline xs (modify a (close_unused deadline) s)"

definition image_closeUnusedFd :: "ticks \<Rightarrow> ticks \<Rightarrow> image_store \<Rightarrow> image_store" where
  "image_closeUnusedFd basetime clock s =
    close_loop (timing_gets basetime clock (- UNUSED_FD_TIMEOUT)) (images s) s"

text \<open>The search of \<open>image_ensureDiskSpace\<close> for the least recently used image: every image is locked,
  looked at and released again.\<close>

fun oldest_loop :: "nat option list \<Rightarrow> nat option \<Rightarrow> image_store \<Rightarrow> (nat option \<times> image_store) option" where
  "oldest_loop [] oldest s = Some (oldest, s)"
| "oldest_loop (None # xs) oldest s = oldest_loop xs oldest s"
| "oldest_loop (Some a # xs) oldest s =
    (case image_lock a s of
       (None, s) \<Rightarrow> oldest_loop xs oldest s
     | (Some c, s) \<Rightarrow>
        (let oldest = (if im_users (img_at s c) = 1
               \<and> (case oldest of None \<Rightarrow> True
                  | Some b \<Rightarrow> timing_reached (im_atime (img_at s c)) (im_atime (img_at s b)))
             then Some c else oldest)
         in case image_release c s of None \<Rightarrow> None | Some s \<Rightarrow> oldest_loop xs oldest s))"

text \<open>Deleting the image: locked, taken off the list, released; then its files are unlinked.\<close>

definition evict :: "nat \<Rightarrow> image_store \<Rightarrow> (string list \<times> image_store) option" where
  "evict a s =
    (case image_lock a s of
       (None, s) \<Rightarrow> Some ([], s)
     | (Some a, s) \<Rightarrow>
        (let filename = im_path (img_at s a) in
         case image_remove a s of
           (None, s) \<Rightarrow> Some ([filename, filename @ ''.map'', filename @ ''.crc'', filename @ ''.meta''], s)
         | (Some a, s) \<Rightarrow>
            map_option (\<lambda>s. ([filename, filename @ ''.map'', filename @ ''.crc'', filename @ ''.meta''], s))
              (image_release a s)))"

text \<open>\<open>available\<close> lists what \<open>file_freeDiskSpace\<close> reports in each of the (at most twenty) rounds,
  \<open>None\<close> being an error, and the time of the round; a list that ends stands for errors from
  there on. The result is the return value, the unlinked files and the store.\<close>

fun disk_loop :: "nat \<Rightarrow> (u64 option \<times> ticks) list \<Rightarrow> u64 \<Rightarrow> bool \<Rightarrow> bool \<Rightarrow> u32 \<Rightarrow> image_store \<Rightarrow>
    (bool \<times> string list \<times> image_store) option" where
  "disk_loop 0 available sz force sparse uptime s = Some (False, [], s)"
| "disk_loop (Suc n) [] sz force sparse uptime s = Some (True, [], s)"
| "disk_loop (Suc n) ((r, now) # rs) sz force sparse uptime s =
    (case r of
       None \<Rightarrow> Some (True, [], s)
     | Some free_space \<Rightarrow>
        if free_space > sz then Some (True, [], s)
        else if \<not> force \<and> uptime < 10 * 3600 then Some (False, [], s)
        else case oldest_loop (images s) None s of
          None \<Rightarrow> None
        | Some (None, s) \<Rightarrow> Some (False, [], s)
        | Some (Some a, s) \<Rightarrow>
            if \<not> sparse \<and> timing_diff (im_atime (img_at s a)) now < 86400 then Some (False, [], s)
            else case evict a s of
              None \<Rightarrow> None
            | Some (fs, s) \<Rightarrow>
               (case disk_loop n rs sz force sparse uptime s of
                  None \<Rightarrow> None
                | Some (r, gs, s) \<Rightarrow> Some (r, fs @ gs, s)))"

definition image_ensureDiskSpace :: "(u64 option \<times> ticks) list \<Rightarrow> u64 \<Rightarrow> bool \<Rightarrow> bool \<Rightarrow> u32 \<Rightarrow> image_store \<Rightarrow>
    (bool \<times> string list \<times> image_store) option" where
  "image_ensureDiskSpace available sz force sparse uptime s =
    disk_loop 20 available sz force sparse uptime s"

text \<open>\<open>isForbiddenExtension\<close>\<close>

definition isForbiddenExtension :: "string \<Rightarrow> bool" where
  "isForbiddenExtension nm =
    (if length nm < 4 then False
     else let ptr = drop (length nm - 4) nm in
          if ptr = ''.crc'' then True
          else if ptr = ''.map'' then True
          else if length nm < 5 then False
          else drop (length nm - 5) nm = ''.meta'')"

section \<open>The invariant\<close>

text \<open>\<open>u\<close> gives the counters of the allocated images, \<open>M\<close> the images of the list. An image is allocated
  exactly while it is listed or referenced, and its counter is the number of references.\<close>

definition refs_ok :: "nat multiset \<Rightarrow> (nat \<Rightarrow> int option) \<Rightarrow> nat multiset \<Rightarrow> bool" where
  "refs_ok refs u M \<longleftrightarrow>
    (\<forall>a. u a = (if a \<in># M \<or> a \<in># refs then Some (int (count refs a)) else None)) \<and> (\<forall>a. count M a \<le> 1)"

definition users_of :: "image_store \<Rightarrow> nat \<Rightarrow> int option" where
  "users_of s a = map_option im_users (heap s a)"

definition store_inv :: "nat multiset \<Rightarrow> image_store \<Rightarrow> bool" where
  "store_inv refs s \<longleftrightarrow> refs_ok refs (users_of s) (occupied (images s))"

lemma users_of_modify: "users_of (modify a f s) = (users_of s)(a := map_option (\<lambda>i. im_users (f i)) (heap s a))"
  by (auto simp: users_of_def modify_def option.map_comp comp_def)

lemma users_of_modify_same: "(\<And>i. im_users (f i) = im_users i) \<Longrightarrow> users_of (modify a f s) = users_of s"
  by (auto simp: users_of_def modify_def option.map_comp comp_def fun_eq_iff)

lemma users_of_free: "users_of (image_free a s) = (users_of s)(a := None)"
  by (auto simp: users_of_def image_free_def)

lemma users_of_images [simp]: "users_of (s\<lparr>images := xs\<rparr>) = users_of s" "users_of (s\<lparr>imgIdCounter := c\<rparr>) = users_of s"
  by (auto simp: users_of_def)

lemma images_simps [simp]:
  "images (modify a f s) = images s" "images (image_free a s) = images s"
  "imgIdCounter (modify a f s) = imgIdCounter s" "imgIdCounter (image_free a s) = imgIdCounter s"
  by (simp_all add: modify_def image_free_def)

lemma img_users: "users_of s a = Some n \<Longrightarrow> im_users (img_at s a) = n"
  by (auto simp: users_of_def img_at_def)

lemma refs_okD:
  assumes "refs_ok refs u M"
  shows "a \<in># M \<Longrightarrow> u a = Some (int (count refs a))" "a \<in># refs \<Longrightarrow> u a = Some (int (count refs a))"
    "a \<in># M \<Longrightarrow> a \<notin># M - {#a#}" "count M a \<le> 1"
  using assms by (auto simp: refs_ok_def not_in_iff)

text \<open>The changes the operations make, on this view.\<close>

lemma refs_ok_ref:
  assumes "refs_ok refs u M" "a \<in># M"
  shows "refs_ok (add_mset a refs) (u(a := Some (int (count refs a) + 1))) M"
  using assms by (auto simp: refs_ok_def)

lemma refs_ok_unref:
  assumes "refs_ok refs u M" "a \<in># refs"
  shows "refs_ok (refs - {#a#})
    (u(a := if count refs a = 1 \<and> a \<notin># M then None else Some (int (count refs a) - 1))) M"
proof -
  obtain r where r: "refs = add_mset a r" using assms(2) by (metis multi_member_split)
  show ?thesis
    using assms(1) unfolding r by (auto simp: refs_ok_def count_eq_zero_iff)
qed

lemma refs_ok_unlist:
  assumes "refs_ok refs u M" "a \<in># M"
  shows "refs_ok refs (if count refs a = 0 then u(a := None) else u) (M - {#a#})"
  using assms refs_okD(3) [OF assms] by (auto simp: refs_ok_def in_diff_count count_eq_zero_iff)

lemma refs_ok_new:
  assumes "refs_ok refs u M" "u n = None"
  shows "refs_ok (add_mset n refs) (u(n := Some 1)) M" "n \<notin># M" "n \<notin># refs"
  using assms by (auto simp: refs_ok_def count_eq_zero_iff split: if_splits)

lemma refs_ok_list:
  assumes "refs_ok refs u M" "n \<in># refs" "n \<notin># M"
  shows "refs_ok refs u (add_mset n M)"
  using assms by (auto simp: refs_ok_def not_in_iff)

lemma occupied_clear: "i < length xs \<Longrightarrow> xs ! i = Some a \<Longrightarrow> occupied (xs[i := None]) = occupied xs - {#a#}"
proof (induction xs arbitrary: i)
  case (Cons x xs)
  show ?case
  proof (cases i)
    case (Suc j)
    then have j: "j < length xs" "xs ! j = Some a" using Cons.prems by simp_all
    then have "a \<in># occupied xs" using nth_mem [of j xs] by simp
    then show ?thesis using Cons.IH [OF j] Suc by (cases x) (auto simp: add_mset_diff_bothsides diff_union_swap2)
  qed (use Cons.prems in auto)
qed simp

lemma occupied_butlast: "xs \<noteq> [] \<Longrightarrow> last xs = None \<Longrightarrow> occupied (butlast xs) = occupied xs"
  by (induction xs rule: rev_induct) auto

section \<open>Every operation keeps the invariant\<close>

lemma store_inv_users: "store_inv refs s \<Longrightarrow> Some a \<in> set (images s) \<or> a \<in># refs \<Longrightarrow> im_users (img_at s a) = int (count refs a)"
  unfolding store_inv_def by (rule img_users) (auto dest: refs_okD(1,2))

lemma store_inv_heap:
  assumes "store_inv refs s"
  shows "heap s a \<noteq> None \<longleftrightarrow> Some a \<in> set (images s) \<or> a \<in># refs"
proof -
  have "users_of s a = (if a \<in># occupied (images s) \<or> a \<in># refs then Some (int (count refs a)) else None)"
    using assms by (auto simp: store_inv_def refs_ok_def)
  then show ?thesis by (auto simp: users_of_def split: if_splits)
qed

lemma store_inv_modify: "(\<And>i. im_users (f i) = im_users i) \<Longrightarrow> store_inv refs (modify a f s) = store_inv refs s"
  by (simp add: store_inv_def users_of_modify_same)

lemma store_inv_modify_img: "im_users img = im_users (img_at s a) \<Longrightarrow> store_inv refs (modify a (\<lambda>_. img) s) = store_inv refs s"
  by (cases "heap s a") (auto simp: store_inv_def users_of_def modify_def img_at_def fun_upd_idem_iff fun_eq_iff
      intro!: arg_cong [where f = "\<lambda>u. refs_ok refs u _"])

lemma store_inv_lock:
  assumes "store_inv refs s" "Some a \<in> set (images s)"
  shows "store_inv (add_mset a refs) (modify a (\<lambda>img. img\<lparr>im_users := im_users img + 1\<rparr>) s)"
proof -
  have "a \<in># occupied (images s)" using assms(2) by simp
  note r = refs_ok_ref [OF assms(1) [unfolded store_inv_def] this] 
    and u = refs_okD(1) [OF assms(1) [unfolded store_inv_def] this]
  obtain img where "heap s a = Some img" "im_users img = int (count refs a)"
    using u by (auto simp: users_of_def)
  then show ?thesis using r by (simp add: store_inv_def users_of_modify)
qed

lemma image_lock_inv:
  assumes "store_inv refs s"
  shows "case image_lock a s of (None, s') \<Rightarrow> s' = s \<and> Some a \<notin> set (images s)
    | (Some b, s') \<Rightarrow> b = a \<and> images s' = images s \<and> Some a \<in> set (images s) \<and> store_inv (add_mset a refs) s'"
  using store_inv_lock [OF assms, of a] by (simp add: image_lock_def)

lemma image_release_inv:
  assumes "store_inv refs s" "a \<in># refs"
  shows "\<exists>s'. image_release a s = Some s' \<and> store_inv (refs - {#a#}) s' \<and> images s' = images s
    \<and> imgIdCounter s' = imgIdCounter s
    \<and> heap s' = (heap s)(a := if count refs a = 1 \<and> Some a \<notin> set (images s) then None
        else map_option (\<lambda>img. img\<lparr>im_users := im_users img - 1\<rparr>) (heap s a))"
proof -
  note inv = assms(1) [unfolded store_inv_def]
  have u: "users_of s a = Some (int (count refs a))" by (rule refs_okD(2) [OF inv assms(2)])
  then obtain img where img: "heap s a = Some img" "im_users img = int (count refs a)"
    by (auto simp: users_of_def)
  have pos: "count refs a > 0" using assms(2) by simp
  let ?s = "modify a (\<lambda>img. img\<lparr>im_users := im_users img - 1\<rparr>) s"
  have us: "users_of ?s = (users_of s)(a := Some (int (count refs a) - 1))"
    using img by (simp add: users_of_modify)
  have at: "im_users (img_at ?s a) = int (count refs a) - 1" using img by (simp add: img_at_def modify_def)
  note r = refs_ok_unref [OF inv assms(2)]
  show ?thesis
  proof (cases "count refs a = 1 \<and> Some a \<notin> set (images s)")
    case True
    then have "image_release a s = Some (image_free a ?s)"
      using img at pos by (simp add: image_release_def img_at_def [of s] Let_def)
    moreover have "store_inv (refs - {#a#}) (image_free a ?s)"
      using r True by (simp add: store_inv_def users_of_free us)
    ultimately show ?thesis using True by (auto simp: image_free_def modify_def)
  next
    case False
    then have "image_release a s = Some ?s"
      using img at pos by (auto simp: image_release_def img_at_def [of s] Let_def)
    moreover have "store_inv (refs - {#a#}) ?s"
      using r False by (auto simp: store_inv_def us)
    ultimately show ?thesis using False by (auto simp: modify_def)
  qed
qed

lemma clear_loop_occupied:
  "occupied (clear_loop a (length xs) xs) = filter_mset (\<lambda>b. b \<noteq> a) (occupied xs)"
  by (rule slot_loops.remove_occupied)

lemma filter_one: "count M a \<le> 1 \<Longrightarrow> filter_mset (\<lambda>b. b \<noteq> a) M = M - {#a#}"
  by (rule multiset_eqI) auto

lemma image_remove_inv:
  assumes "store_inv refs s"
  shows "store_inv refs (snd (image_remove a s))"
    "fst (image_remove a s) = (if Some a \<in> set (images s) \<and> a \<notin># refs then None else Some a)"
    "Some a \<notin> set (images (snd (image_remove a s)))"
proof -
  note inv = assms [unfolded store_inv_def]
  let ?xs = "clear_loop a (length (images s)) (images s)"
  have oc: "occupied ?xs = occupied (images s) - {#a#}"
    using refs_okD(4) [OF inv, of a] by (simp add: clear_loop_occupied filter_one)
  have "a \<notin># occupied ?xs" unfolding clear_loop_occupied by simp
  then show "Some a \<notin> set (images (snd (image_remove a s)))" by (simp add: image_remove_def Let_def)
  have us: "im_users (img_at s a) = int (count refs a)" if "Some a \<in> set (images s)"
    using store_inv_users [OF assms] that by simp
  show "fst (image_remove a s) = (if Some a \<in> set (images s) \<and> a \<notin># refs then None else Some a)"
    using us by (auto simp: image_remove_def Let_def count_eq_zero_iff)
  show "store_inv refs (snd (image_remove a s))"
  proof (cases "Some a \<in> set (images s)")
    case True
    then have "refs_ok refs (if count refs a = 0 then (users_of s)(a := None) else users_of s) (occupied ?xs)"
      using refs_ok_unlist [OF inv, of a] by (simp add: oc)
    then show ?thesis using us [OF True] True
      by (cases "count refs a = 0") (auto simp: image_remove_def Let_def store_inv_def users_of_free count_eq_zero_iff)
  next
    case False
    then have "occupied ?xs = occupied (images s)" unfolding oc by simp
    then show ?thesis using False inv by (simp add: image_remove_def Let_def store_inv_def)
  qed
qed

lemma image_addToList_inv:
  assumes "store_inv refs s" "n \<in># refs" "Some n \<notin> set (images s)"
  shows "store_inv refs (snd (image_addToList mx n s))"
    "fst (image_addToList mx n s) \<longleftrightarrow> \<not> (packed (images s) \<and> mx \<le> length (images s))"
    "Some n \<in> set (images (snd (image_addToList mx n s))) \<longleftrightarrow> fst (image_addToList mx n s)"
proof -
  let ?s = "modify n (\<lambda>img. img\<lparr>im_id := imgIdCounter s + 1\<rparr>) (s\<lparr>imgIdCounter := imgIdCounter s + 1\<rparr>)"
  have inv: "store_inv refs ?s" using assms(1) by (simp add: store_inv_modify) (simp add: store_inv_def)
  have ad: "image_addToList mx n s = (case fill_slot mx n (images s) of None \<Rightarrow> (False, ?s) | Some xs \<Rightarrow> (True, ?s\<lparr>images := xs\<rparr>))"
    by (simp add: image_addToList_def Let_def split: option.split)
  show "fst (image_addToList mx n s) \<longleftrightarrow> \<not> (packed (images s) \<and> mx \<le> length (images s))"
    using fill_slot_None [of mx n "images s"] by (auto simp: ad split: option.split)
  have oc: "occupied xs = add_mset n (occupied (images s))" if "fill_slot mx n (images s) = Some xs" for xs
    by (rule fill_slot_Some(1) [OF that])
  show "store_inv refs (snd (image_addToList mx n s))"
    using inv refs_ok_list [of refs "users_of ?s" "occupied (images s)" n] assms(2,3) oc
    by (auto simp: ad store_inv_def split: option.split)
  show "Some n \<in> set (images (snd (image_addToList mx n s))) \<longleftrightarrow> fst (image_addToList mx n s)"
  proof (cases "fill_slot mx n (images s)")
    case (Some xs)
    have "n \<in># occupied xs" by (simp add: oc [OF Some] del: in_occupied)
    then show ?thesis using Some by (simp add: ad)
  qed (use assms(3) in \<open>simp add: ad\<close>)
qed

text \<open>A new image that nobody refers to yet: listed, or freed when the list is full.\<close>

lemma new_image_inv:
  assumes inv: "store_inv refs s" and n: "heap s n = None" "im_users img = 0"
    and ad: "image_addToList mx n (s\<lparr>heap := (heap s)(n \<mapsto> img)\<rparr>) = (ok, s')"
  shows "store_inv refs (if ok then s' else image_free n s')"
proof -
  let ?s = "s\<lparr>heap := (heap s)(n \<mapsto> img)\<rparr>"
  have u: "users_of s n = None" using n(1) by (simp add: users_of_def)
  have r: "n \<notin># refs" "n \<notin># occupied (images s)"
    using inv u unfolding store_inv_def refs_ok_def by (metis option.distinct(1))+
  have us: "users_of s' = (users_of s)(n := Some 0)"
    using ad n(2) by (auto simp: image_addToList_def Let_def users_of_modify users_of_def modify_def split: option.splits)
  show ?thesis
  proof (cases "fill_slot mx n (images s)")
    case None
    then have "\<not> ok" "images s' = images s" using ad by (auto simp: image_addToList_def Let_def)
    moreover have "(users_of s)(n := None) = users_of s" using u by (simp add: fun_upd_idem)
    ultimately show ?thesis using inv us by (simp add: store_inv_def users_of_free)
  next
    case (Some xs)
    then have "ok" "images s' = xs" using ad by (auto simp: image_addToList_def Let_def)
    moreover have "refs_ok refs ((users_of s)(n := Some 0)) (add_mset n (occupied (images s)))"
      using inv r unfolding store_inv_def refs_ok_def by (auto simp: not_in_iff simp del: in_occupied)
    ultimately show ?thesis using us fill_slot_Some(1) [OF Some] by (simp add: store_inv_def)
  qed
qed

lemma store_inv_free_new:
  assumes "store_inv (add_mset n refs) s" "n \<notin># refs" "Some n \<notin> set (images s)"
  shows "store_inv refs (image_free n s)"
proof -
  have "n \<notin># occupied (images s)" using assms(3) by simp
  then show ?thesis
    using refs_ok_unref [of "add_mset n refs" "users_of s" "occupied (images s)" n] assms(1,2)
    by (simp add: store_inv_def users_of_free count_eq_zero_iff [symmetric])
qed

lemma reload_inv:
  assumes "store_inv refs s" "a \<in># refs" "heap s (ge_fresh env) = None"
  shows "\<exists>c s'. reload env a s = Some (c, s') \<and> store_inv (add_mset c (refs - {#a#})) s'"
proof -
  let ?n = "ge_fresh env"
  let ?s = "s\<lparr>heap := (heap s)(?n \<mapsto> reload_copy (ge_now env) (img_at s a))\<rparr>"
  have n: "users_of s ?n = None" using assms(3) by (simp add: users_of_def)
  note new = refs_ok_new [OF assms(1) [unfolded store_inv_def] n]
  have inv: "store_inv (add_mset ?n refs) ?s"
  proof -
    have "users_of ?s = (users_of s)(?n := Some 1)" by (auto simp: users_of_def reload_copy_def)
    then show ?thesis using new(1) by (simp add: store_inv_def)
  qed
  have nl: "Some ?n \<notin> set (images ?s)" using new(2) by simp
  obtain ok s1 where add: "image_addToList (ge_maxImages env) ?n ?s = (ok, s1)" by fastforce
  note ad = image_addToList_inv [OF inv _ nl, of "ge_maxImages env", unfolded add, simplified]
  show ?thesis
  proof (cases ok)
    case True
    have "a \<in># add_mset ?n refs" using assms(2) by simp
    from image_release_inv [OF ad(1) this] obtain s2 where
      "image_release a s1 = Some s2" "store_inv (add_mset ?n refs - {#a#}) s2" by blast
    moreover have "add_mset ?n refs - {#a#} = add_mset ?n (refs - {#a#})" using assms(2) by simp
    ultimately show ?thesis using True by (simp add: reload_def add Let_def)
  next
    case False
    have "store_inv refs (image_free ?n s1)"
      using ad False new(3) by (intro store_inv_free_new) auto
    then show ?thesis using False assms(2) by (simp add: reload_def add Let_def)
  qed
qed

lemma find_candidate_listed: "find_candidate s nm rvn xs c = Some a \<Longrightarrow> c = Some a \<or> Some a \<in> set xs"
  by (induction s nm rvn xs c rule: find_candidate.induct) (auto split: if_splits)

lemma ensureOpen_users [simp]: "im_users (snd (image_ensureOpen fd len img)) = im_users img"
  by (simp add: image_ensureOpen_def Let_def)

lemma recheck_users [simp]: "im_users (snd (recheck env img)) = im_users img"
  by (simp add: recheck_def)

lemma store_inv_start_uplink [simp]: "store_inv refs (start_uplink env a s) = store_inv refs s"
  by (simp add: start_uplink_def store_inv_modify)

lemma heap_modify_None [simp]: "heap (modify a f s) b = None \<longleftrightarrow> heap s b = None"
  by (simp add: modify_def)

lemma image_get_inv:
  assumes "store_inv refs s" "heap s (ge_fresh env) = None"
  shows "\<exists>r s'. image_get env nm rvn chk s = Some (r, s')
    \<and> store_inv (case r of None \<Rightarrow> refs | Some c \<Rightarrow> add_mset c refs) s'"
proof (cases "nm = [] \<or> last nm = CHR ''/'' \<or> hd nm = CHR ''/'' \<or> find_candidate s nm rvn (images s) None = None")
  case True
  then show ?thesis using assms by (auto simp: image_get_def)
next
  case False
  then obtain a where c: "find_candidate s nm rvn (images s) None = Some a" by auto
  then have l: "Some a \<in> set (images s)" using find_candidate_listed by blast
  define s1 where "s1 = modify a (\<lambda>img. img\<lparr>im_users := im_users img + 1\<rparr>) s"
  define oi where "oi = (if im_working (img_at s1 a) \<or> chk
      then image_ensureOpen (ge_open_fd env) (ge_open_len env) (img_at s1 a) else (True, img_at s1 a))"
  define s2 where "s2 = modify a (\<lambda>_. snd oi) s1"
  define s3 where "s3 = modify a (\<lambda>img. img\<lparr>lastWorkCheck := ge_now env\<rparr>) s2"
  define s4 where "s4 = modify a (\<lambda>_. snd (recheck env (img_at s3 a))) s3"
  have i1: "store_inv (add_mset a refs) s1" unfolding s1_def by (rule store_inv_lock [OF assms(1) l])
  have "im_users (snd oi) = im_users (img_at s1 a)" by (simp add: oi_def)
  then have i2: "store_inv (add_mset a refs) s2" using i1 by (simp add: s2_def store_inv_modify_img)
  then have i3: "store_inv (add_mset a refs) s3" by (simp add: s3_def store_inv_modify)
  then have i4: "store_inv (add_mset a refs) s4" by (simp add: s4_def store_inv_modify_img)
  have f4: "heap s4 (ge_fresh env) = None" using assms(2) by (simp add: s1_def s2_def s3_def s4_def)
  obtain s6 where rm: "image_remove a s3 = (Some a, s6)" "store_inv (add_mset a refs) s6"
    using image_remove_inv [OF i3, of a] by (cases "image_remove a s3") auto
  obtain c s5 where rl: "reload env a s4 = Some (c, s5)" "store_inv (add_mset c refs) s5"
    using reload_inv [OF i4 _ f4, of a] by auto
  have eq: "image_get env nm rvn chk s =
    (if \<not> fst oi then (if ge_removeMissing env then Some (image_remove a s3) else Some (Some a, s3))
     else if \<not> chk then Some (Some a, s2)
     else if \<not> timing_diff (lastWorkCheck (snd oi)) (ge_now env) > NONWORKING_RECHECK_INTERVAL_SECONDS then Some (Some a, s2)
     else case (if fst (recheck env (img_at s3 a)) then reload env a s4 else Some (a, s4)) of
            None \<Rightarrow> None | Some (c, s) \<Rightarrow> Some (Some c, start_uplink env c s))"
    using False c by (simp add: image_get_def Let_def case_prod_beta s1_def oi_def s2_def s3_def s4_def)
  show ?thesis unfolding eq using rm i2 i3 i4 rl by (auto simp: case_prod_beta)
qed

text \<open>One round of the loops that walk the table from its end: the slot is emptied, the image freed
  when nobody refers to it, and the fill level lowered over an empty last slot.\<close>

definition unlist_slot :: "nat \<Rightarrow> image_store \<Rightarrow> image_store" where
  "unlist_slot i s = (case images s ! i of
      None \<Rightarrow> s
    | Some a \<Rightarrow> (let s' = s\<lparr>images := (images s)[i := None]\<rparr>
                 in if im_users (img_at s a) = 0 then image_free a s' else s'))"

definition lower_level :: "nat \<Rightarrow> image_store \<Rightarrow> image_store" where
  "lower_level i s = (if i + 1 = length (images s) \<and> images s ! i = None
      then s\<lparr>images := butlast (images s)\<rparr> else s)"

lemma unlist_slot_inv:
  assumes "store_inv refs s" "i < length (images s)"
  shows "store_inv refs (unlist_slot i s)" "images (unlist_slot i s) = (images s)[i := None]"
proof -
  note inv = assms(1) [unfolded store_inv_def]
  show "images (unlist_slot i s) = (images s)[i := None]"
    by (auto simp: unlist_slot_def Let_def list_update_same_conv [THEN iffD2] assms(2) split: option.split)
  show "store_inv refs (unlist_slot i s)"
  proof (cases "images s ! i")
    case (Some a)
    then have l: "Some a \<in> set (images s)" using assms(2) nth_mem by metis
    note r = refs_ok_unlist [OF inv, of a, unfolded in_occupied, OF l]
    have "im_users (img_at s a) = int (count refs a)" using store_inv_users [OF assms(1)] l by simp
    then show ?thesis using r occupied_clear [OF assms(2) Some] Some
      by (cases "count refs a = 0") (auto simp: unlist_slot_def Let_def store_inv_def users_of_free count_eq_zero_iff)
  qed (use assms in \<open>simp add: unlist_slot_def\<close>)
qed

lemma lower_level_inv:
  "store_inv refs s \<Longrightarrow> store_inv refs (lower_level i s)"
  "i \<le> length (images s) \<Longrightarrow> i \<le> length (images (lower_level i s))"
  "take i (images (lower_level i s)) = take i (images s)"
  "occupied (drop i (images (lower_level i s))) = occupied (drop i (images s))"
proof -
  have *: "images (lower_level i s) = (if i + 1 = length (images s) \<and> images s ! i = None then take i (images s) else images s)"
  proof (cases "i + 1 = length (images s)")
    case True
    then have "length (images s) - 1 = i" by simp
    then show ?thesis using True by (simp add: lower_level_def butlast_conv_take)
  qed (simp add: lower_level_def)
  show "i \<le> length (images s) \<Longrightarrow> i \<le> length (images (lower_level i s))"
    "take i (images (lower_level i s)) = take i (images s)"
    by (simp_all add: *)
  show oc: "occupied (drop i (images (lower_level i s))) = occupied (drop i (images s))"
    by (auto simp: * Cons_nth_drop_Suc [symmetric])
  have "occupied (images (lower_level i s)) = occupied (images s)"
    using oc by (metis \<open>take i (images (lower_level i s)) = take i (images s)\<close> append_take_drop_id occupied_simps(4))
  then show "store_inv refs s \<Longrightarrow> store_inv refs (lower_level i s)"
    by (simp add: store_inv_def) (simp add: lower_level_def)
qed

lemma unlist_slot_heap:
  assumes "store_inv refs s" "i < length (images s)" "Some b \<in> set ((images s)[i := None])"
  shows "heap (unlist_slot i s) b = heap s b" "Some b \<in> set (images s)"
proof -
  have sub: "Some b \<in> set (images s)" using assms(3) set_update_subset_insert [of "images s" i None] by auto
  then show "Some b \<in> set (images s)" .
  show "heap (unlist_slot i s) b = heap s b"
  proof (cases "images s ! i")
    case (Some a)
    then have "a \<in># occupied (images s)" using assms(2) nth_mem [of i "images s"] by simp
    then have "a \<notin># occupied (images s) - {#a#}"
      using assms(1) refs_okD(3) unfolding store_inv_def by blast
    then have "b \<noteq> a" using assms(3) occupied_clear [OF assms(2) Some] in_occupied by metis
    then show ?thesis using Some by (simp add: unlist_slot_def Let_def image_free_def)
  qed (simp add: unlist_slot_def)
qed

text \<open>Both loops are of this form, with a test for the images to take off the list.\<close>

fun sweep :: "(image_store \<Rightarrow> nat \<Rightarrow> bool) \<Rightarrow> nat \<Rightarrow> image_store \<Rightarrow> image_store" where
  "sweep c 0 s = s"
| "sweep c (Suc i) s = sweep c i (lower_level i
    (case images s ! i of None \<Rightarrow> s | Some a \<Rightarrow> if c s a then unlist_slot i s else s))"

lemma tryfree_sweep: "tryfree_loop i s = sweep (\<lambda>s a. im_users (img_at s a) = 0) i s"
  by (induction i arbitrary: s) (auto simp: lower_level_def unlist_slot_def Let_def split: option.split)

lemma vanished_sweep: "i \<le> length (images s) \<Longrightarrow>
   vanished_loop readable i s = sweep (\<lambda>s a. \<not> readable (im_path (img_at s a))) i s"
proof (induction i arbitrary: s)
  case (Suc i)
  have fr: "image_free a (t\<lparr>images := xs\<rparr>) = (image_free a t)\<lparr>images := xs\<rparr>" for a t xs
    by (simp add: image_free_def)
  have at: "img_at (t\<lparr>images := xs\<rparr>) a = img_at t a" for a t xs by (simp add: img_at_def)
  show ?case using Suc.prems
    by (cases "images s ! i") (auto simp: Suc.IH lower_level_def unlist_slot_def Let_def fr at)
qed simp

lemma sweep_inv:
  assumes "\<And>t a. store_inv refs t \<Longrightarrow> Some a \<in> set (images t) \<Longrightarrow> heap t a = heap s0 a \<Longrightarrow> c t a \<longleftrightarrow> P a"
    and "store_inv refs s" "i \<le> length (images s)" "length (images s) = i \<or> last (images s) \<noteq> None"
    and "\<forall>a. Some a \<in> set (images s) \<longrightarrow> heap s a = heap s0 a"
  shows "store_inv refs (sweep c i s)
    \<and> occupied (images (sweep c i s)) = filter_mset (\<lambda>b. \<not> P b) (occupied (take i (images s))) + occupied (drop i (images s))
    \<and> (images (sweep c i s) = [] \<or> last (images (sweep c i s)) \<noteq> None)"
  using assms(2-)
proof (induction i arbitrary: s)
  case 0
  then show ?case by auto
next
  case (Suc i)
  then have i: "i < length (images s)" by simp
  define t where "t = (case images s ! i of None \<Rightarrow> s | Some a \<Rightarrow> if c s a then unlist_slot i s else s)"
  note ul = unlist_slot_inv [OF Suc.prems(1) i]
  have inv: "store_inv refs t" using ul Suc.prems(1) by (auto simp: t_def split: option.split)
  have im: "images t = (images s)[i := if (\<exists>a. images s ! i = Some a \<and> P a) then None else images s ! i]"
  proof (cases "images s ! i")
    case (Some a)
    then have "Some a \<in> set (images s)" using i nth_mem by metis
    then have "c s a \<longleftrightarrow> P a" using assms(1) Suc.prems(1,4) by blast
    then show ?thesis using Some ul(2) by (auto simp: t_def) (metis list_update_id)
  next
    case None
    then show ?thesis by (simp add: t_def) (metis list_update_id)
  qed
  have hp: "\<forall>a. Some a \<in> set (images t) \<longrightarrow> heap t a = heap s0 a"
    using unlist_slot_heap [OF Suc.prems(1) i] ul(2) Suc.prems(4) by (auto simp: t_def split: option.splits if_splits)
  have sub: "set (images (lower_level i t)) \<subseteq> set (images t)" "heap (lower_level i t) = heap t"
    by (auto simp: lower_level_def dest: in_set_butlastD)
  have l: "length (images t) = length (images s)" by (simp add: im)
  have last: "length (images (lower_level i t)) = i \<or> last (images (lower_level i t)) \<noteq> None"
  proof (cases "Suc i = length (images s)")
    case True
    then have "images t \<noteq> []" "length (images t) - 1 = i" using l by auto
    then have "last (images t) = images t ! i" using last_conv_nth [of "images t"] by simp
    then show ?thesis using l True by (cases "images t ! i") (auto simp: lower_level_def)
  next
    case False
    then have "images s \<noteq> []" "i \<noteq> length (images s) - 1" using i by auto
    then have "last (images t) = last (images s)" by (simp add: im last_list_update)
    then show ?thesis using False Suc.prems(3) l by (auto simp: lower_level_def)
  qed
  have ti: "take i (images t) = take i (images s)" by (simp add: im)
  have di: "occupied (drop i (images t)) =
      filter_mset (\<lambda>b. \<not> P b) (occupied [images s ! i]) + occupied (drop (Suc i) (images s))"
  proof -
    have "drop i (images t) = images t ! i # drop (Suc i) (images s)"
      using i l by (simp add: Cons_nth_drop_Suc [symmetric] im)
    then show ?thesis using i by (cases "images s ! i") (auto simp: im)
  qed
  have tk: "occupied (take (Suc i) (images s)) = occupied (take i (images s)) + occupied [images s ! i]"
    using i by (simp only: take_Suc_conv_app_nth occupied_simps(4))
  have "\<forall>a. Some a \<in> set (images (lower_level i t)) \<longrightarrow> heap (lower_level i t) a = heap s0 a"
    using hp sub by auto
  note ih = Suc.IH [OF lower_level_inv(1) [OF inv] lower_level_inv(2) last this]
  show ?case unfolding sweep.simps t_def [symmetric]
    using ih i l by (simp only: lower_level_inv ti di tk filter_union_mset add.assoc)
qed

lemma tryFreeAll_inv:
  assumes "store_inv refs s"
  shows "store_inv refs (snd (image_tryFreeAll s))"
    "occupied (images (snd (image_tryFreeAll s))) = filter_mset (\<lambda>a. a \<in># refs) (occupied (images s))"
    "fst (image_tryFreeAll s) \<longleftrightarrow> (\<forall>a. Some a \<in> set (images s) \<longrightarrow> a \<notin># refs)"
proof -
  let ?s = "tryfree_loop (length (images s)) s"
  have "store_inv refs ?s \<and> occupied (images ?s) = filter_mset (\<lambda>b. \<not> b \<notin># refs) (occupied (take (length (images s)) (images s)))
      + occupied (drop (length (images s)) (images s)) \<and> (images ?s = [] \<or> last (images ?s) \<noteq> None)"
    unfolding tryfree_sweep
    by (rule sweep_inv [where s0 = s]) (use assms store_inv_users in \<open>auto simp: count_eq_zero_iff\<close>)
  then have r: "store_inv refs ?s" "occupied (images ?s) = filter_mset (\<lambda>b. b \<in># refs) (occupied (images s))"
    "images ?s = [] \<or> last (images ?s) \<noteq> None" by simp_all
  then show "store_inv refs (snd (image_tryFreeAll s))"
    "occupied (images (snd (image_tryFreeAll s))) = filter_mset (\<lambda>a. a \<in># refs) (occupied (images s))"
    by (simp_all add: image_tryFreeAll_def Let_def)
  have "images ?s = [] \<longleftrightarrow> occupied (images ?s) = {#}"
  proof
    assume e: "occupied (images ?s) = {#}"
    then have none: "Some b \<notin> set (images ?s)" for b using in_occupied [of b "images ?s"] by simp
    show "images ?s = []"
      using r(3) none last_in_set [of "images ?s"] by (cases "last (images ?s)") auto
  qed simp
  also have "\<dots> \<longleftrightarrow> (\<forall>a. Some a \<in> set (images s) \<longrightarrow> a \<notin># refs)"
    unfolding r(2) set_mset_eq_empty_iff [symmetric] by auto
  finally show "fst (image_tryFreeAll s) \<longleftrightarrow> (\<forall>a. Some a \<in> set (images s) \<longrightarrow> a \<notin># refs)"
    by (simp add: image_tryFreeAll_def Let_def)
qed

lemma removeVanished_inv:
  assumes "store_inv refs s"
  shows "store_inv refs (image_removeVanished readable s)"
    "occupied (images (image_removeVanished readable s)) = filter_mset (\<lambda>a. readable (im_path (img_at s a))) (occupied (images s))"
proof -
  let ?s = "image_removeVanished readable s" and ?P = "\<lambda>a. \<not> readable (im_path (img_at s a))"
  have "store_inv refs ?s \<and> occupied (images ?s) = filter_mset (\<lambda>b. \<not> ?P b) (occupied (take (length (images s)) (images s)))
      + occupied (drop (length (images s)) (images s)) \<and> (images ?s = [] \<or> last (images ?s) \<noteq> None)"
    unfolding image_removeVanished_def vanished_sweep [OF order_refl]
    by (rule sweep_inv [where s0 = s]) (use assms in \<open>auto simp: img_at_def\<close>)
  then show "store_inv refs ?s" "occupied (images ?s) = filter_mset (\<lambda>a. readable (im_path (img_at s a))) (occupied (images s))"
    by simp_all
qed

lemma close_loop_inv: "store_inv refs (close_loop d xs s) = store_inv refs s"
proof (induction d xs s rule: close_loop.induct)
  case (3 d a xs s)
  have "im_users (close_unused d i) = im_users i" for i by (simp add: close_unused_def)
  with 3 show ?case by (simp add: store_inv_modify)
qed simp_all

lemma oldest_loop_inv:
  assumes "store_inv refs s"
  shows "\<exists>r s'. oldest_loop xs oldest s = Some (r, s') \<and> store_inv refs s' \<and> images s' = images s"
  using assms
proof (induction xs arbitrary: oldest s)
  case (Cons x xs)
  show ?case
  proof (cases "\<exists>a. x = Some a \<and> Some a \<in> set (images s)")
    case True
    then obtain a where a: "x = Some a" "Some a \<in> set (images s)" by auto
    let ?s = "modify a (\<lambda>img. img\<lparr>im_users := im_users img + 1\<rparr>) s"
    have "store_inv (add_mset a refs) ?s" by (rule store_inv_lock [OF Cons.prems a(2)])
    then obtain s' where s': "image_release a ?s = Some s'" "store_inv refs s'" "images s' = images s"
      using image_release_inv [of "add_mset a refs" ?s a] by auto
    show ?thesis using Cons.IH [OF s'(2)] s' a by (simp add: image_lock_def Let_def)
  next
    case False
    then show ?thesis using Cons by (cases x) (auto simp: image_lock_def)
  qed
qed simp

lemma evict_inv:
  assumes "store_inv refs s"
  shows "\<exists>fs s'. evict a s = Some (fs, s') \<and> store_inv refs s'"
proof (cases "Some a \<in> set (images s)")
  case True
  let ?s = "modify a (\<lambda>img. img\<lparr>im_users := im_users img + 1\<rparr>) s"
  have i: "store_inv (add_mset a refs) ?s" by (rule store_inv_lock [OF assms True])
  obtain s1 where rm: "image_remove a ?s = (Some a, s1)" "store_inv (add_mset a refs) s1"
    using image_remove_inv [OF i, of a] by (cases "image_remove a ?s") auto
  then obtain s2 where "image_release a s1 = Some s2" "store_inv refs s2"
    using image_release_inv [OF rm(2), of a] by auto
  then show ?thesis using True rm by (simp add: evict_def image_lock_def Let_def)
qed (use assms in \<open>simp add: evict_def image_lock_def\<close>)

lemma disk_loop_inv:
  "store_inv refs s \<Longrightarrow> \<exists>r fs s'. disk_loop n av sz force sparse up s = Some (r, fs, s') \<and> store_inv refs s'"
proof (induction n arbitrary: av s)
  case (Suc n)
  obtain o1 s1 where ol: "oldest_loop (images s) None s = Some (o1, s1)" "store_inv refs s1"
    using oldest_loop_inv [OF Suc.prems] by blast
  have step: "\<exists>r fs s'. (case evict a s1 of None \<Rightarrow> None
      | Some (fs, s) \<Rightarrow> (case disk_loop n rs sz force sparse up s of None \<Rightarrow> None
          | Some (r, gs, s) \<Rightarrow> Some (r, fs @ gs, s))) = Some (r, fs, s') \<and> store_inv refs s'" for a rs
  proof -
    obtain fs s2 where ev: "evict a s1 = Some (fs, s2)" "store_inv refs s2" using evict_inv [OF ol(2)] by blast
    obtain r gs s3 where "disk_loop n rs sz force sparse up s2 = Some (r, gs, s3)" "store_inv refs s3"
      using Suc.IH [OF ev(2)] by blast
    then show ?thesis using ev by simp
  qed
  show ?case
  proof (cases av)
    case (Cons x rs)
    obtain r now where x: "x = (r, now)" by (cases x)
    show ?thesis
    proof (cases "r = None \<or> (\<exists>f. r = Some f \<and> (f > sz \<or> \<not> force \<and> up < 10 * 3600))")
      case True
      then show ?thesis using Cons x Suc.prems by auto
    next
      case False
      then obtain f where "r = Some f" "\<not> f > sz" "\<not> (\<not> force \<and> up < 10 * 3600)" by auto
      then have eq: "disk_loop (Suc n) av sz force sparse up s = (case o1 of None \<Rightarrow> Some (False, [], s1)
        | Some a \<Rightarrow> if \<not> sparse \<and> timing_diff (im_atime (img_at s1 a)) now < 86400 then Some (False, [], s1)
            else case evict a s1 of None \<Rightarrow> None
              | Some (fs, s) \<Rightarrow> (case disk_loop n rs sz force sparse up s of None \<Rightarrow> None
                  | Some (r, gs, s) \<Rightarrow> Some (r, fs @ gs, s)))"
      proof -
        have c: "(\<not> force \<and> up < 36000) = False" "(sz < f) = False" using \<open>\<not> f > sz\<close> \<open>\<not> (\<not> force \<and> up < 10 * 3600)\<close> by auto
        show ?thesis using \<open>r = Some f\<close> by (cases o1) (simp_all add: Cons x ol(1) c)
      qed
      show ?thesis unfolding eq using step ol(2) by (cases o1) auto
    qed
  qed (use Suc.prems in auto)
qed auto

section \<open>Sequences of operations\<close>

text \<open>One call by some thread. References enter the multiset when a caller obtains an image and leave it
  when it is released.\<close>

inductive image_step :: "nat multiset \<times> image_store \<Rightarrow> nat multiset \<times> image_store \<Rightarrow> bool" where
  step_get: "heap s (ge_fresh env) = None \<Longrightarrow> image_get env nm rvn chk s = Some (r, s') \<Longrightarrow>
    image_step (refs, s) (case r of None \<Rightarrow> refs | Some c \<Rightarrow> add_mset c refs, s')"
| step_lock: "image_lock a s = (r, s') \<Longrightarrow>
    image_step (refs, s) (case r of None \<Rightarrow> refs | Some c \<Rightarrow> add_mset c refs, s')"
| step_release: "a \<in># refs \<Longrightarrow> image_release a s = Some s' \<Longrightarrow> image_step (refs, s) (refs - {#a#}, s')"
| step_remove: "image_step (refs, s) (refs, snd (image_remove a s))"
| step_load: "heap s n = None \<Longrightarrow> im_users img = 0 \<Longrightarrow>
    image_addToList mx n (s\<lparr>heap := (heap s)(n \<mapsto> img)\<rparr>) = (ok, s') \<Longrightarrow>
    image_step (refs, s) (refs, if ok then s' else image_free n s')"
| step_tryFreeAll: "image_step (refs, s) (refs, snd (image_tryFreeAll s))"
| step_vanished: "image_step (refs, s) (refs, image_removeVanished readable s)"
| step_closeFd: "image_step (refs, s) (refs, image_closeUnusedFd basetime clock s)"
| step_diskSpace: "image_ensureDiskSpace av sz force sparse up s = Some (r, fs, s') \<Longrightarrow> image_step (refs, s) (refs, s')"

inductive_cases image_stepE: "image_step (refs, s) (refs', s')"

definition empty_store :: image_store where
  "empty_store = \<lparr>heap = \<lambda>_. None, images = [], imgIdCounter = 0\<rparr>"

lemma store_inv_empty: "store_inv {#} empty_store"
  by (simp add: store_inv_def refs_ok_def users_of_def empty_store_def)

lemma image_step_inv: "image_step (refs, s) (refs', s') \<Longrightarrow> store_inv refs s \<Longrightarrow> store_inv refs' s'"
proof (erule image_stepE)
  fix env nm rvn chk r
  assume "store_inv refs s" "heap s (ge_fresh env) = None" "image_get env nm rvn chk s = Some (r, s')"
    "refs' = (case r of None \<Rightarrow> refs | Some c \<Rightarrow> add_mset c refs)"
  then show "store_inv refs' s'" using image_get_inv [of refs s env nm rvn chk] by auto
next
  fix a r
  assume "store_inv refs s" "image_lock a s = (r, s')" "refs' = (case r of None \<Rightarrow> refs | Some c \<Rightarrow> add_mset c refs)"
  then show "store_inv refs' s'" using image_lock_inv [of refs s a] by (auto split: option.splits)
next
  fix a
  assume "store_inv refs s" "a \<in># refs" "image_release a s = Some s'" "refs' = refs - {#a#}"
  then show "store_inv refs' s'" using image_release_inv [of refs s a] by auto
next
  fix n img mx ok s1
  assume "store_inv refs s" "heap s n = None" "im_users img = 0"
    "image_addToList mx n (s\<lparr>heap := (heap s)(n \<mapsto> img)\<rparr>) = (ok, s1)" "refs' = refs" "s' = (if ok then s1 else image_free n s1)"
  then show "store_inv refs' s'" using new_image_inv [of refs s n img mx ok s1] by simp
next
  fix av sz force sparse up r fs
  assume "store_inv refs s" "image_ensureDiskSpace av sz force sparse up s = Some (r, fs, s')" "refs' = refs"
  then show "store_inv refs' s'"
    using disk_loop_inv [of refs s 20 av sz force sparse up] by (auto simp: image_ensureDiskSpace_def)
qed (auto simp: image_remove_inv tryFreeAll_inv removeVanished_inv image_closeUnusedFd_def close_loop_inv)

lemma image_reachable_inv:
  "image_step\<^sup>*\<^sup>* ({#}, empty_store) (refs, s) \<Longrightarrow> store_inv refs s"
proof (induction "(refs, s)" arbitrary: refs s rule: rtranclp_induct)
  case base
  then show ?case by (simp add: store_inv_empty)
next
  case (step y)
  then show ?case by (cases y) (auto intro: image_step_inv)
qed

text \<open>A server that has loaded one image, which one caller holds.\<close>

definition sample_store :: image_store where
  "sample_store = snd (image_addToList 5 1 (empty_store\<lparr>heap := (heap empty_store)(1 \<mapsto> sample_image)\<rparr>))"

lemma sample_store_reachable: "image_step\<^sup>*\<^sup>* ({#}, empty_store) ({#1#}, sample_store)"
proof -
  define s0 where "s0 = snd (image_addToList 5 1 (empty_store\<lparr>heap := (heap empty_store)(1 \<mapsto> sample_image\<lparr>im_users := 0\<rparr>)\<rparr>))"
  have "image_step ({#}, empty_store) ({#}, if True then s0 else image_free 1 s0)"
    by (rule step_load [where n = 1 and img = "sample_image\<lparr>im_users := 0\<rparr>" and mx = 5])
      (simp_all add: s0_def empty_store_def image_addToList_def fill_slot_def Let_def)
  moreover have "image_lock 1 s0 = (Some 1, sample_store)"
    by (simp add: s0_def sample_store_def sample_image_def empty_store_def image_addToList_def fill_slot_def image_lock_def modify_def Let_def)
  from step_lock [OF this, of "{#}"] have "image_step ({#}, s0) ({#1#}, sample_store)" by simp
  ultimately show ?thesis by (auto intro: rtranclp_trans)
qed

text \<open>C8. After any sequence of calls on the image list, no caller and no slot of the list refers to a
  freed image, every image that is still allocated is listed or referenced (none leaks), the
  counter of every allocated image is the number of references that callers hold, and no image is
  listed twice.\<close>

theorem image_references_sound:
  assumes "image_step\<^sup>*\<^sup>* ({#}, empty_store) (refs, s)"
  shows "(\<forall>a. heap s a \<noteq> None \<longleftrightarrow> Some a \<in> set (images s) \<or> a \<in># refs)
    \<and> (\<forall>a img. heap s a = Some img \<longrightarrow> im_users img = int (count refs a))
    \<and> (\<forall>a. count (occupied (images s)) a \<le> 1)"
proof -
  note inv = image_reachable_inv [OF assms]
  have "im_users img = int (count refs a)" if "heap s a = Some img" for a img
    using store_inv_users [OF inv, of a] store_inv_heap [OF inv, of a] that by (simp add: img_at_def)
  then show ?thesis using store_inv_heap [OF inv] inv by (auto simp: store_inv_def refs_ok_def)
qed

theorem image_references_sound_witness:
  "(\<forall>a. heap sample_store a \<noteq> None \<longleftrightarrow> Some a \<in> set (images sample_store) \<or> a \<in># {#1#})
    \<and> (\<forall>a. count (occupied (images sample_store)) a \<le> 1)"
  using image_references_sound [OF sample_store_reachable] by blast

text \<open>C11. In every reachable state a caller can release an image that it holds: the assertion on the
  counter does not fail. The image is freed exactly when this was its last reference and it has been taken
  off the list.\<close>

theorem image_release_safe:
  assumes "image_step\<^sup>*\<^sup>* ({#}, empty_store) (refs, s)" "a \<in># refs"
  shows "\<exists>s'. image_release a s = Some s' \<and> (heap s' a = None \<longleftrightarrow> count refs a = 1 \<and> Some a \<notin> set (images s))"
proof -
  note inv = image_reachable_inv [OF assms(1)]
  then show ?thesis using image_release_inv [OF inv assms(2)] store_inv_heap [OF inv, of a] assms(2) by auto
qed

theorem image_release_safe_witness:
  "\<exists>s'. image_release 1 sample_store = Some s' \<and>
     (heap s' 1 = None \<longleftrightarrow> count {#1 :: nat#} 1 = 1 \<and> Some 1 \<notin> set (images sample_store))"
  by (rule image_release_safe [OF sample_store_reachable]) simp

text \<open>\<open>image_tryFreeAll\<close> keeps exactly the images that are in use and reports success exactly
  when none was.\<close>

theorem image_tryFreeAll_correct:
  assumes "image_step\<^sup>*\<^sup>* ({#}, empty_store) (refs, s)"
  shows "occupied (images (snd (image_tryFreeAll s))) = filter_mset (\<lambda>a. a \<in># refs) (occupied (images s))
    \<and> (fst (image_tryFreeAll s) \<longleftrightarrow> (\<forall>a. Some a \<in> set (images s) \<longrightarrow> a \<notin># refs))"
  using tryFreeAll_inv [OF image_reachable_inv [OF assms]] by blast

section \<open>Looking up revisions\<close>

definition matches :: "image_store \<Rightarrow> string \<Rightarrow> u16 \<Rightarrow> nat \<Rightarrow> bool" where
  "matches s nm rvn a \<longleftrightarrow> im_name (img_at s a) = nm \<and> (rvn = 0 \<or> im_rid (img_at s a) = rvn)"

lemma find_candidate_revision:
  "rvn \<noteq> 0 \<Longrightarrow> (case find_candidate s nm rvn xs None of
     None \<Rightarrow> (\<forall>b. Some b \<in> set xs \<longrightarrow> \<not> matches s nm rvn b)
   | Some a \<Rightarrow> Some a \<in> set xs \<and> matches s nm rvn a)"
  by (induction s nm rvn xs "None :: nat option" rule: find_candidate.induct)
    (auto simp: matches_def split: option.splits)

lemma find_candidate_latest:
  "\<forall>b. Some b \<in> set xs \<and> im_name (img_at s b) = nm \<longrightarrow> im_rid (img_at s b) \<noteq> 0 \<Longrightarrow>
   (case find_candidate s nm 0 xs c of
     None \<Rightarrow> c = None \<and> (\<forall>b. Some b \<in> set xs \<longrightarrow> \<not> matches s nm 0 b)
   | Some a \<Rightarrow> (c = Some a \<or> Some a \<in> set xs \<and> matches s nm 0 a)
       \<and> (\<forall>b. c = Some b \<longrightarrow> im_rid (img_at s b) \<le> im_rid (img_at s a))
       \<and> (\<forall>b. Some b \<in> set xs \<and> matches s nm 0 b \<longrightarrow> im_rid (img_at s b) \<le> im_rid (img_at s a)))"
proof (induction xs arbitrary: c)
  case (Cons x xs)
  have p: "\<forall>b. Some b \<in> set xs \<and> im_name (img_at s b) = nm \<longrightarrow> im_rid (img_at s b) \<noteq> 0"
    using Cons.prems by simp
  note ih = Cons.IH [OF p]
  show ?case
  proof (cases x)
    case (Some a)
    then show ?thesis using Cons.prems ih [of c] ih [of "Some a"]
      by (cases "im_name (img_at s a) = nm"; cases c) (auto simp: matches_def split: option.splits if_splits)
  next
    case None
    then show ?thesis using ih [of c] by (auto split: option.splits)
  qed
qed (auto split: option.split)

text \<open>The search of \<open>image_get\<close> finds an image exactly when one of the requested name and
  revision is listed, and asked for revision 0 it finds the one with the highest revision (listed
  images have a revision other than 0).\<close>

theorem image_lookup_correct:
  assumes "\<forall>b. Some b \<in> set (images s) \<longrightarrow> im_rid (img_at s b) \<noteq> 0"
  shows "case find_candidate s nm rvn (images s) None of
     None \<Rightarrow> (\<forall>b. Some b \<in> set (images s) \<longrightarrow> \<not> matches s nm rvn b)
   | Some a \<Rightarrow> Some a \<in> set (images s) \<and> matches s nm rvn a
       \<and> (\<forall>b. Some b \<in> set (images s) \<and> matches s nm rvn b \<longrightarrow> im_rid (img_at s b) \<le> im_rid (img_at s a))"
proof (cases "rvn = 0")
  case True
  then show ?thesis using find_candidate_latest [where xs = "images s" and s = s and nm = nm and c = None] assms by (auto split: option.splits)
next
  case False
  then show ?thesis using find_candidate_revision [where rvn = rvn and s = s and nm = nm and xs = "images s"] by (auto simp: matches_def split: option.splits)
qed

theorem image_lookup_correct_witness:
  "case find_candidate sample_store ''a'' 0 (images sample_store) None of
     None \<Rightarrow> (\<forall>b. Some b \<in> set (images sample_store) \<longrightarrow> \<not> matches sample_store ''a'' 0 b)
   | Some a \<Rightarrow> Some a \<in> set (images sample_store) \<and> matches sample_store ''a'' 0 a
       \<and> (\<forall>b. Some b \<in> set (images sample_store) \<and> matches sample_store ''a'' 0 b
            \<longrightarrow> im_rid (img_at sample_store b) \<le> im_rid (img_at sample_store a))"
  by (rule image_lookup_correct)
    (simp add: sample_store_def empty_store_def image_addToList_def fill_slot_def Let_def modify_def img_at_def sample_image_def)

lemma find_candidate_append:
  assumes "find_candidate s nm rvn xs None = Some a" "rvn \<noteq> 0"
    and "\<And>b. Some b \<in> set xs \<Longrightarrow> im_name (img_at s' b) = im_name (img_at s b) \<and> im_rid (img_at s' b) = im_rid (img_at s b)"
  shows "find_candidate s' nm rvn (xs @ ys) None = Some a"
  using assms
proof (induction xs)
  case (Cons x xs)
  then show ?case by (cases x) (auto split: if_splits)
qed simp

lemma reload_packed:
  assumes "store_inv refs s" "a \<in># refs" "Some a \<in> set (images s)" "heap s (ge_fresh env) = None"
    and "packed (images s)" "length (images s) < ge_maxImages env"
  shows "\<exists>s'. reload env a s = Some (ge_fresh env, s') \<and> images s' = images s @ [Some (ge_fresh env)]
    \<and> (\<forall>b. Some b \<in> set (images s) \<longrightarrow> im_name (img_at s' b) = im_name (img_at s b) \<and> im_rid (img_at s' b) = im_rid (img_at s b))"
proof -
  let ?n = "ge_fresh env"
  define s1 where "s1 = s\<lparr>heap := (heap s)(?n \<mapsto> reload_copy (ge_now env) (img_at s a))\<rparr>"
  define s2 where "s2 = (modify ?n (\<lambda>img. img\<lparr>im_id := imgIdCounter s + 1\<rparr>) (s1\<lparr>imgIdCounter := imgIdCounter s + 1\<rparr>))
      \<lparr>images := images s @ [Some ?n]\<rparr>"
  have "first_index (\<lambda>x. x = None) (images s) = None" using assms(5) by (auto simp: first_index_None packed_def) (metis option.exhaust)
  then have add: "image_addToList (ge_maxImages env) ?n s1 = (True, s2)"
    using assms(6) by (simp add: image_addToList_def fill_slot_def Let_def s1_def s2_def)
  have nl: "b \<noteq> ?n" if "Some b \<in> set (images s)" for b
    using store_inv_heap [OF assms(1), of b] assms(4) that by auto
  have h: "heap s2 b = heap s b" if "Some b \<in> set (images s)" for b
    using nl [OF that] by (simp add: s2_def s1_def modify_def)
  have us: "im_users (img_at s2 a) > 0"
    using h [OF assms(3)] store_inv_users [OF assms(1), of a] assms(2,3) by (simp add: img_at_def)
  have "Some a \<in> set (images s2)" using assms(3) by (simp add: s2_def)
  then have rl: "image_release a s2 = Some (modify a (\<lambda>img. img\<lparr>im_users := im_users img - 1\<rparr>) s2)"
    using us by (simp add: image_release_def Let_def)
  have "img_at (modify a (\<lambda>img. img\<lparr>im_users := im_users img - 1\<rparr>) s2) b =
      (if b = a then (img_at s b)\<lparr>im_users := im_users (img_at s b) - 1\<rparr> else img_at s b)" if "Some b \<in> set (images s)" for b
    using h [OF that] store_inv_heap [OF assms(1), of b] that by (auto simp: img_at_def modify_def)
  then show ?thesis
    using add rl by (auto simp: reload_def Let_def s1_def [symmetric]) (simp add: s2_def)
qed

text \<open>When an image cannot be read through its descriptor any more, \<open>image_get\<close> inserts a copy for
  reopening but leaves the old image listed: if the list has no free slot below its fill level, the next lookup of the
  same name and revision finds the old image again, not the copy.\<close>

theorem reload_finds_old_image:
  assumes "image_step\<^sup>*\<^sup>* ({#}, empty_store) (refs, s)" "find_candidate s nm rvn (images s) None = Some a" "rvn \<noteq> 0"
    and "a \<in># refs" "heap s (ge_fresh env) = None" "packed (images s)" "length (images s) < ge_maxImages env"
  shows "\<exists>s'. reload env a s = Some (ge_fresh env, s') \<and> find_candidate s' nm rvn (images s') None = Some a"
proof -
  have "Some a \<in> set (images s)" using find_candidate_listed [OF assms(2)] by simp
  from reload_packed [OF image_reachable_inv [OF assms(1)] assms(4) this assms(5-7)] obtain s' where
    "reload env a s = Some (ge_fresh env, s')" "images s' = images s @ [Some (ge_fresh env)]"
    "\<forall>b. Some b \<in> set (images s) \<longrightarrow> im_name (img_at s' b) = im_name (img_at s b) \<and> im_rid (img_at s' b) = im_rid (img_at s b)"
    by blast
  then show ?thesis using find_candidate_append [OF assms(2,3), of s'] by auto
qed

definition sample_env :: get_env where
  "sample_env = \<lparr>ge_open_fd = 4, ge_open_len = 40000, ge_lseek = - 1, ge_pread_ok = False,
     ge_now = \<lparr>tv_sec = 100, tv_nsec = 0\<rparr>, ge_removeMissing = False, ge_maxImages = 5, ge_fresh = 2, ge_uplink = None\<rparr>"

lemma sample_store_eval:
  "images sample_store = [Some 1]" "heap sample_store = (\<lambda>_. None)(1 \<mapsto> sample_image\<lparr>im_id := 1\<rparr>)"
  by (simp_all add: sample_store_def empty_store_def image_addToList_def fill_slot_def Let_def modify_def)

theorem reload_finds_old_image_witness:
  "\<exists>s'. reload sample_env 1 sample_store = Some (2, s') \<and> find_candidate s' ''a'' 1 (images s') None = Some 1"
  using reload_finds_old_image [OF sample_store_reachable, of "''a''" 1 1 sample_env]
  by (simp add: sample_store_eval img_at_def sample_image_def sample_env_def packed_def)

section \<open>Making room\<close>

text \<open>The search for a victim returns an image that nobody refers to.\<close>

lemma oldest_loop_unused:
  assumes "store_inv refs s" "\<forall>a. oldest = Some a \<longrightarrow> a \<notin># refs \<and> Some a \<in> set (images s)"
    and "oldest_loop xs oldest s = Some (Some a, s')"
  shows "a \<notin># refs \<and> Some a \<in> set (images s)"
  using assms
proof (induction xs arbitrary: oldest s)
  case (Cons x xs)
  show ?case
  proof (cases "\<exists>a. x = Some a \<and> Some a \<in> set (images s)")
    case True
    then obtain b where b: "x = Some b" "Some b \<in> set (images s)" by auto
    let ?s = "modify b (\<lambda>img. img\<lparr>im_users := im_users img + 1\<rparr>) s"
    have i: "store_inv (add_mset b refs) ?s" by (rule store_inv_lock [OF Cons.prems(1) b(2)])
    then obtain s2 where s2: "image_release b ?s = Some s2" "store_inv refs s2" "images s2 = images s"
      using image_release_inv [of "add_mset b refs" ?s b] by auto
    have us: "im_users (img_at ?s b) = 1 \<Longrightarrow> b \<notin># refs"
      using store_inv_users [OF i, of b] by (simp add: count_eq_zero_iff)
    define old where "old = (if im_users (img_at ?s b) = 1 \<and> (case oldest of None \<Rightarrow> True
        | Some c \<Rightarrow> timing_reached (im_atime (img_at ?s b)) (im_atime (img_at ?s c))) then Some b else oldest)"
    have "oldest_loop xs old s2 = Some (Some a, s')"
      using Cons.prems(3) b s2(1) by (simp add: image_lock_def Let_def old_def)
    moreover have "\<forall>a. old = Some a \<longrightarrow> a \<notin># refs \<and> Some a \<in> set (images s2)"
      using Cons.prems(2) us b(2) s2(3) by (auto simp: old_def split: if_splits)
    ultimately show ?thesis using Cons.IH [OF s2(2)] s2(3) by simp
  next
    case False
    then show ?thesis using Cons by (cases x) (auto simp: image_lock_def)
  qed
qed simp

text \<open>Making room for a new image never takes an image away that somebody uses: the image chosen for
  deletion is listed and has no reference, and the search leaves the store consistent.\<close>

theorem disk_space_victim_unused:
  assumes "image_step\<^sup>*\<^sup>* ({#}, empty_store) (refs, s)" "oldest_loop (images s) None s = Some (Some a, s')"
  shows "a \<notin># refs \<and> Some a \<in> set (images s) \<and> store_inv refs s'"
  using oldest_loop_unused [OF image_reachable_inv [OF assms(1)] _ assms(2)]
    oldest_loop_inv [OF image_reachable_inv [OF assms(1)], of "images s" None] assms(2) by auto

theorem disk_space_victim_unused_witness:
  "\<exists>s s'. oldest_loop (images s) None s = Some (Some 1, s') \<and> 1 \<notin># ({#} :: nat multiset) \<and> Some 1 \<in> set (images s) \<and> store_inv {#} s'"
proof -
  let ?s = "modify 1 (\<lambda>img. img\<lparr>im_users := im_users img - 1\<rparr>) sample_store"
  have rl: "image_release 1 sample_store = Some ?s"
    by (simp add: image_release_def Let_def img_at_def sample_store_eval sample_image_def)
  have "image_step ({#1#}, sample_store) ({#1#} - {#1#}, ?s)"
    by (rule step_release [OF _ rl]) simp
  then have reach: "image_step\<^sup>*\<^sup>* ({#}, empty_store) ({#}, ?s)"
    using sample_store_reachable by (simp add: rtranclp.rtrancl_into_rtrancl)
  obtain s' where ol: "oldest_loop (images ?s) None ?s = Some (Some 1, s')"
    by (simp add: sample_store_eval image_lock_def image_release_def Let_def img_at_def modify_def sample_image_def)
  show ?thesis
    using ol disk_space_victim_unused [OF reach ol] by (intro exI [of _ ?s] exI [of _ s'] conjI) simp_all
qed

end
