(* ===== verification/Sock_Helper.thy ===== *)
theory Sock_Helper
  imports Protocol_Types
begin

text \<open>
  The socket routines of \<open>src/shared/sockhelper.c\<close> that move data: \<open>sock_recv\<close> and
  \<open>sock_sendAll\<close>. The other end and the kernel are a list of events, one for each call of \<open>recv\<close>
  or \<open>send\<close>. A call that asks for fewer bytes than a received chunk holds leaves the rest of the chunk in
  front of the list. A list that is used up stands for a closed connection.
\<close>

section \<open>Receiving\<close>

datatype recv_event = Recv_data "u8 list" | Recv_EINTR | Recv_EAGAIN | Recv_error

text \<open>The loop of \<open>sock_recv\<close>: bytes still wanted, interruptions so far, bytes received, last return
  value.\<close>

fun recv_loop :: "nat \<Rightarrow> nat \<Rightarrow> u8 list \<Rightarrow> int \<Rightarrow> recv_event list \<Rightarrow> u8 list \<times> int \<times> recv_event list" where
  "recv_loop 0 intrs dn ret es = (dn, ret, es)"
| "recv_loop (Suc n) intrs dn ret [] = (dn, 0, [])"
| "recv_loop (Suc n) intrs dn ret (Recv_data d # es) =
    (if d = [] then (dn, 0, es)
     else if length d \<le> Suc n then recv_loop (Suc n - length d) intrs (dn @ d) (int (length d)) es
     else (dn @ take (Suc n) d, int (Suc n), Recv_data (drop (Suc n) d) # es))"
| "recv_loop (Suc n) intrs dn ret (Recv_EINTR # es) =
    (if intrs + 1 < 10 then recv_loop (Suc n) (intrs + 1) dn (- 1) es else (dn, - 1, es))"
| "recv_loop (Suc n) intrs dn ret (Recv_EAGAIN # es) = (dn, - 1, es)"
| "recv_loop (Suc n) intrs dn ret (Recv_error # es) = (dn, - 1, es)"

text \<open>The return value, the bytes in the buffer, and what is left of the input.\<close>

definition sock_recv :: "nat \<Rightarrow> recv_event list \<Rightarrow> int \<times> u8 list \<times> recv_event list" where
  "sock_recv len es = (case recv_loop len 0 [] 0 es of
     (dn, ret, es') \<Rightarrow> (if dn = [] then ret else int (length dn), dn, es'))"

text \<open>The bytes of the events, and how often they are interrupted.\<close>

fun stream :: "recv_event list \<Rightarrow> u8 list" where
  "stream [] = []"
| "stream (Recv_data d # es) = d @ stream es"
| "stream (_ # es) = stream es"

definition chunks_ok :: "recv_event list \<Rightarrow> bool" where
  "chunks_ok es \<longleftrightarrow> (\<forall>e\<in>set es. e = Recv_EINTR \<or> (\<exists>d. e = Recv_data d \<and> d \<noteq> []))"

lemma chunks_ok_Cons [simp]:
  "chunks_ok (Recv_data d # es) \<longleftrightarrow> d \<noteq> [] \<and> chunks_ok es" "chunks_ok (Recv_EINTR # es) \<longleftrightarrow> chunks_ok es"
  "\<not> chunks_ok (Recv_EAGAIN # es)" "\<not> chunks_ok (Recv_error # es)" "chunks_ok []"
  by (auto simp: chunks_ok_def)

lemma recv_loop_length:
  "recv_loop n intrs dn ret es = (dn', ret', es') \<Longrightarrow> length dn' \<le> length dn + n"
proof (induction n intrs dn ret es rule: recv_loop.induct)
  case (3 n intrs dn ret d es)
  then show ?case by (auto split: if_splits)
next
  case (4 n intrs dn ret es)
  then show ?case by (auto split: if_splits)
qed auto

lemma recv_loop_stream:
  "chunks_ok es \<Longrightarrow> intrs + length (filter (\<lambda>e. e = Recv_EINTR) es) < 10 \<Longrightarrow> n \<le> length (stream es) \<Longrightarrow>
   \<exists>ret' es'. recv_loop n intrs dn ret es = (dn @ take n (stream es), ret', es')
     \<and> stream es' = drop n (stream es) \<and> chunks_ok es'
     \<and> length (filter (\<lambda>e. e = Recv_EINTR) es') \<le> length (filter (\<lambda>e. e = Recv_EINTR) es)"
proof (induction n intrs dn ret es rule: recv_loop.induct)
  case (3 n intrs dn ret d es)
  then show ?case
    by (cases "length d \<le> Suc n") auto
next
  case (4 n intrs dn ret es)
  then show ?case by fastforce
qed auto

lemma sock_recv_complete:
  assumes "chunks_ok es" "length (filter (\<lambda>e. e = Recv_EINTR) es) < 10" "len \<le> length (stream es)"
  shows "\<exists>es'. sock_recv len es = (int len, take len (stream es), es') \<and> stream es' = drop len (stream es) \<and> chunks_ok es'"
proof -
  obtain ret' es' where r: "recv_loop len 0 [] 0 es = (take len (stream es), ret', es')"
    "stream es' = drop len (stream es)" "chunks_ok es'"
    using recv_loop_stream [OF assms(1), of 0 len "[]" 0] assms(2,3) by auto
  have "ret' = 0" if "len = 0"
    using r(1) that by simp
  then show ?thesis using r assms(3) by (cases "len = 0") (auto simp: sock_recv_def)
qed

text \<open>However the bytes of a message arrive (in any split into chunks, with fewer than ten
  interruptions), \<open>sock_recv\<close> delivers exactly the next \<open>len\<close> bytes and leaves the rest of the stream
  for the next call.\<close>

theorem sock_recv_stream:
  assumes "chunks_ok es" "length (filter (\<lambda>e. e = Recv_EINTR) es) < 10" "len \<le> length (stream es)"
  shows "\<exists>es'. sock_recv len es = (int len, take len (stream es), es') \<and> stream es' = drop len (stream es) \<and> chunks_ok es'"
  using assms by (rule sock_recv_complete)

theorem sock_recv_stream_witness:
  "\<exists>es'. sock_recv 3 [Recv_data [1], Recv_EINTR, Recv_data [2, 3, 4]] = (3, [1, 2, 3], es') \<and> stream es' = [4] \<and> chunks_ok es'"
  using sock_recv_stream [of "[Recv_data [1], Recv_EINTR, Recv_data [2, 3, 4]]" 3] by simp

section \<open>Sending\<close>

datatype send_event = Sent nat | Send_EINTR | Send_EAGAIN | Send_error

text \<open>The loop of \<open>sock_sendAll\<close>: \<open>maxtries\<close> counts down when it is not negative. The result is the
  bytes that went out and the last return value.\<close>

fun send_loop :: "u8 list \<Rightarrow> u8 list \<Rightarrow> int \<Rightarrow> int \<Rightarrow> send_event list \<Rightarrow> u8 list \<times> int" where
  "send_loop rest dn maxtries ret [] = (dn, if rest = [] \<or> maxtries = 0 then ret else - 1)"
| "send_loop rest dn maxtries ret (e # es) =
    (if rest = [] then (dn, ret)
     else if maxtries = 0 then (dn, ret)
     else let maxtries = (if maxtries \<ge> 0 then maxtries - 1 else maxtries) in
       (case e of
          Sent k \<Rightarrow> (let k = min k (length rest) in
            if k = 0 then (dn, 0) else send_loop (drop k rest) (dn @ take k rest) maxtries (int k) es)
        | Send_EINTR \<Rightarrow> send_loop rest dn maxtries (- 1) es
        | Send_EAGAIN \<Rightarrow> send_loop rest dn maxtries (- 1) es
        | Send_error \<Rightarrow> (dn, - 1)))"

definition sock_sendAll :: "u8 list \<Rightarrow> int \<Rightarrow> send_event list \<Rightarrow> int \<times> u8 list" where
  "sock_sendAll buffer maxtries es = (case send_loop buffer [] maxtries 0 es of
     (dn, ret) \<Rightarrow> (if dn = [] then ret else int (length dn), dn))"

lemma send_loop_Sent:
  assumes "k \<noteq> 0" "rest \<noteq> []" "maxtries \<noteq> 0"
  shows "send_loop rest dn maxtries ret (Sent k # es) = send_loop (drop k rest) (dn @ take k rest)
    (if maxtries \<ge> 0 then maxtries - 1 else maxtries) (int (min k (length rest))) es"
proof -
  obtain n where n: "min k (length rest) = Suc n"
    using assms by (cases "min k (length rest)") (auto simp: min_def split: if_splits)
  moreover have "drop (Suc n) rest = drop k rest" "take (Suc n) rest = take k rest"
    unfolding n [symmetric] by (simp_all add: min_def)
  ultimately show ?thesis using assms by (simp add: Let_def)
qed

lemma send_loop_prefix:
  "send_loop rest dn maxtries ret es = (dn', ret') \<Longrightarrow> \<exists>k \<le> length rest. dn' = dn @ take k rest"
proof (induction es arbitrary: rest dn maxtries ret)
  case Nil
  then show ?case by (auto intro: exI [of _ 0])
next
  case (Cons e es)
  show ?case
  proof (cases "\<exists>k. e = Sent k \<and> k \<noteq> 0 \<and> rest \<noteq> [] \<and> maxtries \<noteq> 0")
    case True
    then obtain k where k: "e = Sent k" "k \<noteq> 0" "rest \<noteq> []" "maxtries \<noteq> 0" by auto
    obtain j where j: "j \<le> length (drop k rest)" "dn' = (dn @ take k rest) @ take j (drop k rest)"
      using Cons.IH Cons.prems k by (fastforce simp only: send_loop_Sent [OF k(2-4)])
    then have "dn' = dn @ take (k + j) rest" by (simp add: take_add)
    then show ?thesis using j(1) k(2) by (cases "k + j \<le> length rest") (auto intro: exI [of _ "k + j"] exI [of _ "length rest"])
  next
    case False
    then show ?thesis using Cons.prems Cons.IH
      by (cases e) (auto simp: Let_def intro: exI [of _ 0] split: if_splits)
  qed
qed

lemma send_loop_ret:
  "send_loop rest dn maxtries ret es = (dn', ret') \<Longrightarrow> dn' = [] \<Longrightarrow> ret \<le> 0 \<Longrightarrow> ret' \<le> 0"
proof (induction es arbitrary: rest dn maxtries ret)
  case Nil
  then show ?case by (auto split: if_splits)
next
  case (Cons e es)
  show ?case
  proof (cases "\<exists>k. e = Sent k \<and> k \<noteq> 0 \<and> rest \<noteq> [] \<and> maxtries \<noteq> 0")
    case True
    then obtain k where k: "e = Sent k" "k \<noteq> 0" "rest \<noteq> []" "maxtries \<noteq> 0" by auto
    then have "dn @ take k rest \<noteq> []" by auto
    then show ?thesis using send_loop_prefix [OF Cons.prems(1) [unfolded k(1) send_loop_Sent [OF k(2-4)]]] Cons.prems(2) by auto
  next
    case False
    then show ?thesis using Cons by (cases e) (auto simp: Let_def split: if_splits)
  qed
qed

lemma sendAll_prefix:
  "\<exists>k \<le> length buffer. snd (sock_sendAll buffer maxtries es) = take k buffer
     \<and> (buffer \<noteq> [] \<longrightarrow> fst (sock_sendAll buffer maxtries es) = int (length buffer) \<longrightarrow> k = length buffer)"
proof -
  obtain dn ret where s: "send_loop buffer [] maxtries 0 es = (dn, ret)" by fastforce
  then obtain k where k: "k \<le> length buffer" "dn = take k buffer"
    using send_loop_prefix [OF s] by auto
  have "ret \<le> 0" if "dn = []" using send_loop_ret [OF s that] by simp
  then show ?thesis using k s by (intro exI [of _ k]) (auto simp: sock_sendAll_def)
qed

lemma sendAll_whole: "buffer \<noteq> [] \<Longrightarrow> length buffer \<le> k \<Longrightarrow> maxtries \<noteq> 0 \<Longrightarrow>
    sock_sendAll buffer maxtries (Sent k # es) = (int (length buffer), buffer)"
  by (cases es) (auto simp: sock_sendAll_def send_loop_Sent)

lemma sendAll_positive: "fst (sock_sendAll buffer maxtries es) > 0 \<Longrightarrow>
    fst (sock_sendAll buffer maxtries es) = int (length (snd (sock_sendAll buffer maxtries es)))"
  using send_loop_ret [of buffer "[]" maxtries 0 es] by (force simp: sock_sendAll_def split: prod.splits if_splits)

lemma sendAll_empty: "sock_sendAll [] maxtries es = (0, [])"
  by (cases es) (auto simp: sock_sendAll_def)

text \<open>\<open>sock_sendAll\<close> reports the length of the buffer only when the whole buffer went out, in order;
  otherwise what went out is a prefix of it.\<close>

theorem sock_sendAll_prefix:
  "\<exists>k \<le> length buffer. snd (sock_sendAll buffer maxtries es) = take k buffer
     \<and> (buffer \<noteq> [] \<longrightarrow> fst (sock_sendAll buffer maxtries es) = int (length buffer) \<longrightarrow> k = length buffer)"
  by (rule sendAll_prefix)

end
