(* ===== verification/Serialize.thy ===== *)
theory Serialize
  imports Protocol_Types
begin

text \<open>
  The message serialiser of \<open>src/serialize.c\<close>. A \<open>serialized_buffer_t\<close> is an array of
  \<open>MAX_PAYLOAD\<close> bytes with an end pointer and a position, both kept here as offsets into the
  array. The struct member that follows the array starts with one byte that
  \<open>serializer_get_string\<close> can read; it is part of the model as \<open>after_buffer\<close>.
  A C string is the byte string in front of its terminating zero byte.
\<close>

section \<open>State\<close>

record serialized_buffer =
  buffer :: "u8 list"
  after_buffer :: u8
  buffer_end :: nat
  buffer_pointer :: nat

definition sbuf_wf :: "serialized_buffer \<Rightarrow> bool" where
  "sbuf_wf b \<longleftrightarrow> length (buffer b) = MAX_PAYLOAD \<and> buffer_end b \<le> MAX_PAYLOAD"

text \<open>The byte a pointer into the struct reads.\<close>

definition byte_at :: "serialized_buffer \<Rightarrow> nat \<Rightarrow> u8" where
  "byte_at b i = (if i < length (buffer b) then buffer b ! i else after_buffer b)"

text \<open>\<open>memcpy\<close> of a byte string into the array.\<close>

definition memcpy :: "nat \<Rightarrow> 'a list \<Rightarrow> 'a list \<Rightarrow> 'a list" where
  "memcpy i xs buf = take i buf @ xs @ drop (i + length xs) buf"

section \<open>Operations\<close>

definition serializer_reset_read :: "serialized_buffer \<Rightarrow> nat \<Rightarrow> serialized_buffer" where
  "serializer_reset_read b data_len = b\<lparr>buffer_end := min MAX_PAYLOAD data_len, buffer_pointer := 0\<rparr>"

definition serializer_reset_write :: "serialized_buffer \<Rightarrow> serialized_buffer" where
  "serializer_reset_write b = b\<lparr>buffer_end := MAX_PAYLOAD, buffer_pointer := 0\<rparr>"

definition serializer_get_uint8 :: "serialized_buffer \<Rightarrow> u8 \<times> serialized_buffer" where
  "serializer_get_uint8 b =
    (if buffer_pointer b + 1 > buffer_end b then (0, b)
     else (byte_at b (buffer_pointer b), b\<lparr>buffer_pointer := buffer_pointer b + 1\<rparr>))"

definition serializer_get_uint16 :: "endian \<Rightarrow> serialized_buffer \<Rightarrow> u16 \<times> serialized_buffer" where
  "serializer_get_uint16 e b =
    (if buffer_pointer b + 2 > buffer_end b then (0, b)
     else (net_order_16 e (word_of_nat (load_native e (take 2 (drop (buffer_pointer b) (buffer b))))),
           b\<lparr>buffer_pointer := buffer_pointer b + 2\<rparr>))"

definition serializer_get_uint64 :: "endian \<Rightarrow> serialized_buffer \<Rightarrow> u64 \<times> serialized_buffer" where
  "serializer_get_uint64 e b =
    (if buffer_pointer b + 8 > buffer_end b then (0, b)
     else (net_order_64 e (word_of_nat (load_native e (take 8 (drop (buffer_pointer b) (buffer b))))),
           b\<lparr>buffer_pointer := buffer_pointer b + 8\<rparr>))"

text \<open>The loop \<open>while (ptr < buffer_end && *ptr) ++ptr\<close>, counted by the bytes in front of the end.\<close>

fun scan_nul :: "serialized_buffer \<Rightarrow> nat \<Rightarrow> nat \<Rightarrow> nat" where
  "scan_nul b 0 ptr = ptr"
| "scan_nul b (Suc n) ptr = (if byte_at b ptr \<noteq> 0 then scan_nul b n (Suc ptr) else ptr)"

text \<open>The result is the offset of the first character, \<open>None\<close> for a null pointer.\<close>

definition serializer_get_string :: "serialized_buffer \<Rightarrow> nat option \<times> serialized_buffer" where
  "serializer_get_string b =
    (if buffer_pointer b \<ge> buffer_end b then (None, b)
     else let ptr = scan_nul b (buffer_end b - buffer_pointer b) (buffer_pointer b)
          in if byte_at b ptr \<noteq> 0 then (None, b)
             else (Some (buffer_pointer b), b\<lparr>buffer_pointer := ptr + 1\<rparr>))"

definition serializer_put_uint8 :: "serialized_buffer \<Rightarrow> u8 \<Rightarrow> serialized_buffer" where
  "serializer_put_uint8 b value =
    (if buffer_pointer b + 1 > buffer_end b then b
     else b\<lparr>buffer := memcpy (buffer_pointer b) [value] (buffer b),
            buffer_pointer := buffer_pointer b + 1\<rparr>)"

definition serializer_put_uint16 :: "endian \<Rightarrow> serialized_buffer \<Rightarrow> u16 \<Rightarrow> serialized_buffer" where
  "serializer_put_uint16 e b value =
    (if buffer_pointer b + 2 > buffer_end b then b
     else b\<lparr>buffer := memcpy (buffer_pointer b) (store_native e 2 (unat (net_order_16 e value))) (buffer b),
            buffer_pointer := buffer_pointer b + 2\<rparr>)"

definition serializer_put_uint64 :: "endian \<Rightarrow> serialized_buffer \<Rightarrow> u64 \<Rightarrow> serialized_buffer" where
  "serializer_put_uint64 e b value =
    (if buffer_pointer b + 8 > buffer_end b then b
     else b\<lparr>buffer := memcpy (buffer_pointer b) (store_native e 8 (unat (net_order_64 e value))) (buffer b),
            buffer_pointer := buffer_pointer b + 8\<rparr>)"

text \<open>The C string a character array holds, and with its terminator.\<close>

definition c_str :: "u8 list \<Rightarrow> u8 list" where
  "c_str v = takeWhile (\<lambda>c. c \<noteq> 0) v"

definition serializer_put_string :: "serialized_buffer \<Rightarrow> u8 list \<Rightarrow> serialized_buffer" where
  "serializer_put_string b value =
    (let len = length (c_str value) + 1
     in if buffer_pointer b + len > buffer_end b then b
        else b\<lparr>buffer := memcpy (buffer_pointer b) (c_str value @ [0]) (buffer b),
               buffer_pointer := buffer_pointer b + len\<rparr>)"

definition serializer_get_written_length :: "serialized_buffer \<Rightarrow> u32" where
  "serializer_get_written_length b = word_of_nat (buffer_pointer b)"

text \<open>The string found at an offset that \<open>serializer_get_string\<close> returned.\<close>

definition string_at :: "serialized_buffer \<Rightarrow> nat \<Rightarrow> u8 list" where
  "string_at b i = c_str (drop i (buffer b) @ [after_buffer b])"

lemmas serializer_defs = serializer_reset_read_def serializer_reset_write_def
  serializer_get_uint8_def serializer_get_uint16_def serializer_get_uint64_def
  serializer_put_uint8_def serializer_put_uint16_def serializer_put_uint64_def
  serializer_put_string_def Let_def

section \<open>Well-formedness\<close>

lemma length_memcpy [simp, wire_simps]: "i + length xs \<le> length buf \<Longrightarrow> length (memcpy i xs buf) = length buf"
  by (simp add: memcpy_def)

lemma sbuf_wf_preserved:
  assumes "sbuf_wf b"
  shows "sbuf_wf (serializer_reset_read b n)" "sbuf_wf (serializer_reset_write b)"
    "sbuf_wf (snd (serializer_get_uint8 b))" "sbuf_wf (snd (serializer_get_uint16 e b))"
    "sbuf_wf (snd (serializer_get_uint64 e b))" "sbuf_wf (snd (serializer_get_string b))"
    "sbuf_wf (serializer_put_uint8 b v8)" "sbuf_wf (serializer_put_uint16 e b v16)"
    "sbuf_wf (serializer_put_uint64 e b v64)" "sbuf_wf (serializer_put_string b s)"
  using assms by (auto simp: sbuf_wf_def serializer_defs serializer_get_string_def)

section \<open>Writing appends to the bytes written so far\<close>

text \<open>\<open>written b\<close> is what a writer has produced. A write that fits appends its encoding,
  one that does not fit changes nothing.\<close>

definition written :: "serialized_buffer \<Rightarrow> u8 list" where
  "written b = take (buffer_pointer b) (buffer b)"

definition room :: "serialized_buffer \<Rightarrow> nat \<Rightarrow> bool" where
  "room b n \<longleftrightarrow> sbuf_wf b \<and> buffer_pointer b + n \<le> buffer_end b"

lemma take_memcpy: "i + length xs \<le> length buf \<Longrightarrow> take (i + length xs) (memcpy i xs buf) = take i buf @ xs"
  by (simp add: memcpy_def)

lemma put_appends:
  assumes "room b (length xs)"
  shows "written (b\<lparr>buffer := memcpy (buffer_pointer b) xs (buffer b),
                    buffer_pointer := buffer_pointer b + length xs\<rparr>) = written b @ xs"
  using assms take_memcpy [of "buffer_pointer b" xs "buffer b"]
  by (simp add: written_def room_def sbuf_wf_def)

lemma written_put:
  "room b 1 \<Longrightarrow> written (serializer_put_uint8 b v8) = written b @ [v8]"
  "room b 2 \<Longrightarrow> written (serializer_put_uint16 e b v16) = written b @ le_bytes 2 (unat v16)"
  "room b 8 \<Longrightarrow> written (serializer_put_uint64 e b v64) = written b @ le_bytes 8 (unat v64)"
  "room b (length (c_str s) + 1) \<Longrightarrow> written (serializer_put_string b s) = written b @ c_str s @ [0]"
  using put_appends [of b "[v8]"] put_appends [of b "le_bytes 2 (unat v16)"]
    put_appends [of b "le_bytes 8 (unat v64)"] put_appends [of b "c_str s @ [0]"]
  by (simp_all add: serializer_defs room_def store_net_order)

lemma pointer_put:
  "room b 1 \<Longrightarrow> buffer_pointer (serializer_put_uint8 b v8) = buffer_pointer b + 1"
  "room b 2 \<Longrightarrow> buffer_pointer (serializer_put_uint16 e b v16) = buffer_pointer b + 2"
  "room b 8 \<Longrightarrow> buffer_pointer (serializer_put_uint64 e b v64) = buffer_pointer b + 8"
  "room b (length (c_str s) + 1) \<Longrightarrow> buffer_pointer (serializer_put_string b s) = buffer_pointer b + length (c_str s) + 1"
  by (simp_all add: serializer_defs room_def)

lemma buffer_end_put [simp]:
  "buffer_end (serializer_put_uint8 b v8) = buffer_end b"
  "buffer_end (serializer_put_uint16 e b v16) = buffer_end b"
  "buffer_end (serializer_put_uint64 e b v64) = buffer_end b"
  "buffer_end (serializer_put_string b s) = buffer_end b"
  by (simp_all add: serializer_defs)

section \<open>Reading consumes the bytes in front of the end\<close>

definition unread :: "serialized_buffer \<Rightarrow> u8 list" where
  "unread b = take (buffer_end b - buffer_pointer b) (drop (buffer_pointer b) (buffer b))"

lemma unread_split:
  assumes "sbuf_wf b" "unread b = xs @ rest" "xs \<noteq> []"
  shows "buffer_pointer b + length xs \<le> buffer_end b"
    and "take (length xs) (drop (buffer_pointer b) (buffer b)) = xs"
    and "unread (b\<lparr>buffer_pointer := buffer_pointer b + length xs\<rparr>) = rest"
proof -
  let ?d = "drop (buffer_pointer b) (buffer b)" and ?n = "buffer_end b - buffer_pointer b"
  have t: "take ?n ?d = xs @ rest" using assms(2) by (simp add: unread_def)
  then have l: "length xs + length rest \<le> ?n" using length_take [of ?n ?d] by simp
  moreover have "length xs > 0" using assms(3) by simp
  ultimately show "buffer_pointer b + length xs \<le> buffer_end b" by linarith
  have "take (length xs) ?d = take (length xs) (take ?n ?d)"
    using l by (simp add: take_take min_def)
  then show "take (length xs) ?d = xs" by (simp add: t)
  have "drop (length xs) (take ?n ?d) = rest" by (simp add: t)
  then show "unread (b\<lparr>buffer_pointer := buffer_pointer b + length xs\<rparr>) = rest"
    by (simp add: unread_def drop_take add.commute)
qed

lemma word_of_le_bytes:
  "word_of_nat (le_value (le_bytes 2 (unat v16))) = (v16 :: u16)"
  "word_of_nat (le_value (le_bytes 8 (unat v64))) = (v64 :: u64)"
  using load_store_words [where e = LE] by (simp_all add: load_native_def store_native_def)

lemma get_unread:
  assumes "sbuf_wf b"
  shows "unread b = [v8] @ rest \<Longrightarrow>
      fst (serializer_get_uint8 b) = v8 \<and> unread (snd (serializer_get_uint8 b)) = rest"
    and "unread b = le_bytes 2 (unat v16) @ rest \<Longrightarrow>
      fst (serializer_get_uint16 e b) = v16 \<and> unread (snd (serializer_get_uint16 e b)) = rest"
    and "unread b = le_bytes 8 (unat v64) @ rest \<Longrightarrow>
      fst (serializer_get_uint64 e b) = v64 \<and> unread (snd (serializer_get_uint64 e b)) = rest"
proof -
  have ne: "le_bytes 2 n \<noteq> []" "le_bytes 8 n \<noteq> []" for n by (simp_all add: le_bytes_numeral)
  show "fst (serializer_get_uint8 b) = v8 \<and> unread (snd (serializer_get_uint8 b)) = rest"
    if u: "unread b = [v8] @ rest"
  proof -
    note f = unread_split [OF assms u]
    have "buffer_pointer b < length (buffer b)"
      using f(1) assms by (simp add: sbuf_wf_def)
    moreover have "buffer b ! buffer_pointer b = v8"
      using f(2) calculation by (simp add: Cons_nth_drop_Suc [symmetric])
    ultimately show ?thesis using f by (simp add: serializer_get_uint8_def byte_at_def)
  qed
  show "fst (serializer_get_uint16 e b) = v16 \<and> unread (snd (serializer_get_uint16 e b)) = rest"
    if u: "unread b = le_bytes 2 (unat v16) @ rest"
    using unread_split [OF assms u ne(1)]
    by (simp add: serializer_get_uint16_def load_net_order word_of_le_bytes)
  show "fst (serializer_get_uint64 e b) = v64 \<and> unread (snd (serializer_get_uint64 e b)) = rest"
    if u: "unread b = le_bytes 8 (unat v64) @ rest"
    using unread_split [OF assms u ne(2)]
    by (simp add: serializer_get_uint64_def load_net_order word_of_le_bytes)
qed

lemma scan_nul_bounds: "ptr \<le> scan_nul b n ptr \<and> scan_nul b n ptr \<le> ptr + n"
proof (induction n arbitrary: ptr)
  case (Suc n)
  show ?case using Suc.IH [of "Suc ptr"] by (cases "byte_at b ptr = 0"; simp; linarith)
qed simp

lemma scan_nul_stops: "scan_nul b n ptr < ptr + n \<Longrightarrow> byte_at b (scan_nul b n ptr) = 0"
proof (induction n arbitrary: ptr)
  case (Suc n)
  then show ?case using Suc.IH [of "Suc ptr"] by auto
qed simp

lemma scan_nul_before: "ptr \<le> i \<Longrightarrow> i < scan_nul b n ptr \<Longrightarrow> byte_at b i \<noteq> 0"
proof (induction n arbitrary: ptr)
  case (Suc n)
  then show ?case using Suc.IH [of "Suc ptr"] by (cases "i = ptr") (auto split: if_splits)
qed simp

lemma scan_nul_eq:
  assumes "\<And>i. i < k \<Longrightarrow> byte_at b (ptr + i) \<noteq> 0" "byte_at b (ptr + k) = 0" "k < n"
  shows "scan_nul b n ptr = ptr + k"
  using assms
proof (induction n arbitrary: ptr k)
  case (Suc n)
  show ?case
  proof (cases k)
    case 0
    with Suc.prems show ?thesis by simp
  next
    case (Suc k')
    have "byte_at b ptr \<noteq> 0" using Suc.prems(1) [of 0] Suc by simp
    moreover have "byte_at b (Suc ptr + i) \<noteq> 0" if "i < k'" for i
      using Suc.prems(1) [of "Suc i"] Suc that by simp
    then have "scan_nul b n (Suc ptr) = Suc ptr + k'"
      using Suc.prems(2,3) Suc by (intro Suc.IH) auto
    ultimately show ?thesis using Suc by simp
  qed
qed simp

lemma get_string_unread:
  assumes wf: "sbuf_wf b" and u: "unread b = (s @ [0]) @ rest" and s: "0 \<notin> set s"
  shows "fst (serializer_get_string b) = Some (buffer_pointer b)"
    and "string_at b (buffer_pointer b) = s"
    and "unread (snd (serializer_get_string b)) = rest"
proof -
  note f = unread_split [OF wf u, simplified]
  let ?p = "buffer_pointer b"
  have le: "?p + length s < length (buffer b)"
    using f(1) wf by (simp add: sbuf_wf_def)
  obtain tl where tl: "drop ?p (buffer b) = s @ 0 # tl"
    using f(2) append_take_drop_id [of "Suc (length s)" "drop ?p (buffer b)"] by (metis append.assoc append_Cons append_Nil)
  have nth: "buffer b ! (?p + i) = (s @ [0]) ! i" if "i \<le> length s" for i
  proof -
    have "buffer b ! (?p + i) = drop ?p (buffer b) ! i" using le that by simp
    also have "\<dots> = (s @ [0]) ! i" using that by (auto simp: tl nth_append nth_Cons')
    finally show ?thesis .
  qed
  have "byte_at b (?p + i) \<noteq> 0" if "i < length s" for i
    using nth [of i] that le s by (auto simp: byte_at_def nth_append in_set_conv_nth)
  moreover have z: "byte_at b (?p + length s) = 0"
    using nth [of "length s"] le by (simp add: byte_at_def nth_append)
  ultimately have sc: "scan_nul b (buffer_end b - ?p) ?p = ?p + length s"
    using f(1) by (intro scan_nul_eq) auto
  show "fst (serializer_get_string b) = Some ?p"
    and "unread (snd (serializer_get_string b)) = rest"
    using f(1,3) z by (simp_all add: serializer_get_string_def Let_def sc)
  have "takeWhile (\<lambda>c. c \<noteq> 0) s = s" using s by (auto simp: takeWhile_eq_all_conv)
  then show "string_at b ?p = s"
    by (simp add: string_at_def c_str_def tl takeWhile_append)
qed

end
