(* ===== verification/Protocol.thy ===== *)
theory Protocol
  imports Sock_Helper Serialize
begin

text \<open>
  The messages of \<open>src/shared/protocol.h\<close>: reading a reply header, selecting an image, asking for
  a block and for the checksum list, together with the server's side of the handshake in
  \<open>src/server/net.c\<close> as far as it reads the payload. Sender and receiver may be hosts of
  different byte order.
\<close>

section \<open>Reading from the socket\<close>

text \<open>One call of \<open>recv\<close>, with and without \<open>MSG_WAITALL\<close>. A waiting call returns early when it is
  interrupted or fails after part of the data has arrived.\<close>

datatype recv_result = Got "u8 list" | Closed | Failed recv_event

fun recv_once :: "nat \<Rightarrow> recv_event list \<Rightarrow> recv_result \<times> recv_event list" where
  "recv_once n [] = (Closed, [])"
| "recv_once n (Recv_data d # es) =
    (if d = [] then (Closed, es)
     else if length d \<le> n then (Got d, es) else (Got (take n d), Recv_data (drop n d) # es))"
| "recv_once n (e # es) = (Failed e, es)"

fun recv_waitall :: "nat \<Rightarrow> u8 list \<Rightarrow> recv_event list \<Rightarrow> recv_result \<times> recv_event list" where
  "recv_waitall n dn [] = (if dn = [] then Closed else Got dn, [])"
| "recv_waitall n dn (Recv_data d # es) =
    (if d = [] then (if dn = [] then Closed else Got dn, es)
     else if length d < n then recv_waitall (n - length d) (dn @ d) es
     else if length d = n then (Got (dn @ d), es)
     else (Got (dn @ take n d), Recv_data (drop n d) # es))"
| "recv_waitall n dn (e # es) = (if dn = [] then Failed e else Got dn, es)"

datatype reply_code = REPLY_OK dnbd3_reply | REPLY_ERRNO | REPLY_AGAIN | REPLY_INTR | REPLY_CLOSED
  | REPLY_INCOMPLETE | REPLY_WRONGMAGIC

definition dnbd3_read_reply :: "endian \<Rightarrow> bool \<Rightarrow> recv_event list \<Rightarrow> reply_code \<times> recv_event list" where
  "dnbd3_read_reply e wait es =
    (case (if wait then recv_waitall 16 [] es else recv_once 16 es) of
       (Closed, es) \<Rightarrow> (REPLY_CLOSED, es)
     | (Failed ev, es) \<Rightarrow>
         (case ev of Recv_EAGAIN \<Rightarrow> REPLY_AGAIN | Recv_EINTR \<Rightarrow> REPLY_INTR | _ \<Rightarrow> REPLY_ERRNO, es)
     | (Got d, es) \<Rightarrow>
        (let (d, es) = (if \<not> wait \<and> length d \<noteq> 16
               then (case recv_waitall (16 - length d) [] es of (Got d', es) \<Rightarrow> (d @ d', es) | (_, es) \<Rightarrow> (d, es))
               else (d, es))
         in if length d \<noteq> 16 then (REPLY_INCOMPLETE, es)
            else let reply = fixup_reply e (reply_of_mem e d)
                 in if rp_magic reply \<noteq> dnbd3_packet_magic e then (REPLY_WRONGMAGIC, es)
                    else (REPLY_OK reply, es)))"

text \<open>Every interruption uses up one event of the list.\<close>

lemma recv_waitall_shorter: "recv_waitall n dn es = (Failed ev, es') \<Longrightarrow> length es' < length es"
  by (induction n dn es rule: recv_waitall.induct) (auto split: if_splits simp: less_Suc_eq)

lemma read_reply_intr_shorter:
  "dnbd3_read_reply e True es = (REPLY_INTR, es') \<Longrightarrow> length es' < length es"
  using recv_waitall_shorter [of 16 "[]" es]
  by (cases es) (auto simp: dnbd3_read_reply_def Let_def split: prod.splits recv_result.splits recv_event.splits if_splits)

function dnbd3_get_reply :: "endian \<Rightarrow> recv_event list \<Rightarrow> dnbd3_reply option \<times> recv_event list" where
  "dnbd3_get_reply e es =
    (case dnbd3_read_reply e True es of
       (REPLY_INTR, es') \<Rightarrow> dnbd3_get_reply e es'
     | (REPLY_OK reply, es') \<Rightarrow> (Some reply, es')
     | (_, es') \<Rightarrow> (None, es'))"
  by pat_completeness auto
termination
  by (relation "measure (\<lambda>(e, es). length es)") (auto simp: read_reply_intr_shorter)

declare dnbd3_get_reply.simps [simp del]

section \<open>Messages\<close>

definition FLAGS8_SERVER :: u8 where "FLAGS8_SERVER = 1"
definition FLAGS8_BG_REP :: u8 where "FLAGS8_BG_REP = 2"

definition COND_HOPCOUNT :: "int \<Rightarrow> u8 \<Rightarrow> u8" where
  "COND_HOPCOUNT vers hopcount = (if vers \<ge> 3 then hopcount else 0)"

text \<open>The bytes that \<open>dnbd3_select_image\<close> passes to \<open>writev\<close>; \<open>junk\<close> is the stack content behind the
  fields that the code does not set.\<close>

definition select_image_payload :: "endian \<Rightarrow> serialized_buffer \<Rightarrow> u8 list \<Rightarrow> u16 \<Rightarrow> u8 \<Rightarrow> serialized_buffer" where
  "select_image_payload e buf nm rid flags8 =
    (let s = serializer_reset_write buf;
         s = serializer_put_uint16 e s PROTOCOL_VERSION;
         s = serializer_put_string s nm;
         s = serializer_put_uint16 e s rid
     in serializer_put_uint8 s flags8)"

definition dnbd3_select_image :: "endian \<Rightarrow> serialized_buffer \<Rightarrow> dnbd3_request \<Rightarrow> u8 list \<Rightarrow> u16 \<Rightarrow> u8 \<Rightarrow> u8 list" where
  "dnbd3_select_image e buf junk nm rid flags8 =
    (let s = select_image_payload e buf nm rid flags8;
         len = serializer_get_written_length s;
         request = junk\<lparr>rq_magic := dnbd3_packet_magic e, rq_cmd := CMD_SELECT_IMAGE, rq_size := len\<rparr>
     in request_mem e (fixup_request e request) @ take (unat len) (buffer s))"

definition get_block_request :: "endian \<Rightarrow> u64 \<Rightarrow> u32 \<Rightarrow> u64 \<Rightarrow> u8 \<Rightarrow> dnbd3_request" where
  "get_block_request e offset sz handle hopCount =
    set_hops hopCount \<lparr>rq_magic = dnbd3_packet_magic e, rq_cmd = CMD_GET_BLOCK, rq_size = sz,
      rq_offset = offset, rq_handle = handle\<rparr>"

definition dnbd3_get_block :: "endian \<Rightarrow> u64 \<Rightarrow> u32 \<Rightarrow> u64 \<Rightarrow> u8 \<Rightarrow> send_event list \<Rightarrow> bool \<times> u8 list" where
  "dnbd3_get_block e offset sz handle hopCount es =
    (case sock_sendAll (request_mem e (fixup_request e (get_block_request e offset sz handle hopCount))) 2 es of
       (ret, out) \<Rightarrow> (ret = 24, out))"

text \<open>\<open>dnbd3_get_crc32\<close> after the request went out: \<open>None\<close> is false, otherwise the length stored in
  \<open>*bufferLen\<close>, the master checksum as the host loads it, and the bytes of the list.\<close>

definition dnbd3_get_crc32 :: "endian \<Rightarrow> nat \<Rightarrow> recv_event list \<Rightarrow> (nat \<times> u32 \<times> u8 list) option \<times> recv_event list" where
  "dnbd3_get_crc32 e bufferLen es =
    (case dnbd3_get_reply e es of
       (None, es) \<Rightarrow> (None, es)
     | (Some reply, es) \<Rightarrow>
        if rp_size reply = 0 then (Some (0, 0, []), es)
        else if rp_size reply < 4 then (None, es)
        else let sz = unat (rp_size reply - 4) in
          if rp_cmd reply \<noteq> CMD_GET_CRC32 \<or> sz > bufferLen then (None, es)
          else case sock_recv 4 es of (r1, m, es) \<Rightarrow>
            if r1 \<noteq> 4 then (None, es)
            else case sock_recv sz es of (r2, list, es) \<Rightarrow>
              (if r2 = int sz then Some (sz, word_of_nat (load_native e m), list) else None, es))"

text \<open>\<open>dnbd3_select_image_reply\<close>: version, name, revision and size of the image.\<close>

definition dnbd3_select_image_reply ::
    "endian \<Rightarrow> serialized_buffer \<Rightarrow> recv_event list \<Rightarrow> (u16 \<times> nat option \<times> u16 \<times> u64 \<times> serialized_buffer) option \<times> recv_event list" where
  "dnbd3_select_image_reply e buf es =
    (case dnbd3_get_reply e es of
       (None, es) \<Rightarrow> (None, es)
     | (Some reply, es) \<Rightarrow>
        if rp_cmd reply \<noteq> CMD_SELECT_IMAGE \<or> rp_size reply < 3 \<or> unat (rp_size reply) > MAX_PAYLOAD then (None, es)
        else case sock_recv (unat (rp_size reply)) es of (ret, d, es) \<Rightarrow>
          if ret \<noteq> int (unat (rp_size reply)) then (None, es)
          else let b = serializer_reset_read (buf\<lparr>buffer := memcpy 0 d (buffer buf)\<rparr>) (unat (rp_size reply));
                   (v, b) = serializer_get_uint16 e b;
                   (nm, b) = serializer_get_string b;
                   (rid, b) = serializer_get_uint16 e b;
                   (imageSize, b) = serializer_get_uint64 e b
               in (Some (v, nm, rid, imageSize, b), es))"

section \<open>The server's side of the handshake\<close>

text \<open>\<open>recv_request_payload\<close>: the payload buffer ready for reading, or a failure.\<close>

definition recv_request_payload :: "u32 \<Rightarrow> serialized_buffer \<Rightarrow> recv_event list \<Rightarrow> serialized_buffer option \<times> recv_event list" where
  "recv_request_payload sz payload es =
    (if sz = 0 then (None, es)
     else if unat sz > MAX_PAYLOAD then (None, es)
     else case sock_recv (unat sz) es of (ret, d, es) \<Rightarrow>
       if ret \<noteq> int (unat sz) then (None, es)
       else (Some (serializer_reset_read (payload\<lparr>buffer := memcpy 0 d (buffer payload)\<rparr>) (unat sz)), es))"

text \<open>The fields that \<open>net_handleNewConnection\<close> takes from it: version, name, revision, flags.\<close>

definition parse_handshake :: "endian \<Rightarrow> serialized_buffer \<Rightarrow> u16 \<times> nat option \<times> u16 \<times> u8 \<times> serialized_buffer" where
  "parse_handshake e payload =
    (let (client_version, b) = serializer_get_uint16 e payload;
         (image_name, b) = serializer_get_string b;
         (rid, b) = serializer_get_uint16 e b;
         (flags, b) = serializer_get_uint8 b
     in (client_version, image_name, rid, flags, b))"

text \<open>The answer that the server puts into the payload buffer.\<close>

definition handshake_answer :: "endian \<Rightarrow> serialized_buffer \<Rightarrow> u16 \<Rightarrow> u8 list \<Rightarrow> u16 \<Rightarrow> u64 \<Rightarrow> serialized_buffer" where
  "handshake_answer e payload client_version nm rid vsize =
    (let s = serializer_reset_write payload;
         s = serializer_put_uint16 e s (if client_version < 3 then client_version else PROTOCOL_VERSION);
         s = serializer_put_string s nm;
         s = serializer_put_uint16 e s rid
     in serializer_put_uint64 e s vsize)"

section \<open>What the receiver sees\<close>

lemma written_select_image:
  assumes "sbuf_wf buf" "length (c_str nm) + 6 \<le> MAX_PAYLOAD"
  shows "written (select_image_payload e buf nm rid fl) = le_bytes 2 3 @ c_str nm @ [0] @ le_bytes 2 (unat rid) @ [fl]"
    and "buffer_pointer (select_image_payload e buf nm rid fl) = length (c_str nm) + 6"
proof -
  let ?s0 = "serializer_reset_write buf"
  let ?s1 = "serializer_put_uint16 e ?s0 PROTOCOL_VERSION"
  let ?s2 = "serializer_put_string ?s1 nm"
  let ?s3 = "serializer_put_uint16 e ?s2 rid"
  have wf: "sbuf_wf ?s0" "sbuf_wf ?s1" "sbuf_wf ?s2" "sbuf_wf ?s3"
    using assms(1) by (simp_all add: sbuf_wf_preserved)
  have p0: "buffer_pointer ?s0 = 0" "buffer_end ?s0 = MAX_PAYLOAD" by (simp_all add: serializer_reset_write_def)
  have r0: "room ?s0 2" using wf(1) p0 assms(2) by (simp add: room_def)
  then have p1: "buffer_pointer ?s1 = 2" using pointer_put(2) p0 by simp
  then have r1: "room ?s1 (length (c_str nm) + 1)" using wf(2) p0 assms(2) by (simp add: room_def)
  then have p2: "buffer_pointer ?s2 = length (c_str nm) + 3" using pointer_put(4) p1 by simp
  then have r2: "room ?s2 2" using wf(3) p0 assms(2) by (simp add: room_def)
  then have p3: "buffer_pointer ?s3 = length (c_str nm) + 5" using pointer_put(2) p2 by simp
  then have r3: "room ?s3 1" using wf(4) p0 assms(2) by (simp add: room_def)
  show "buffer_pointer (select_image_payload e buf nm rid fl) = length (c_str nm) + 6"
    using pointer_put(1) [OF r3] p3 by (simp add: select_image_payload_def Let_def)
  have "written ?s0 = []" using p0 by (simp add: written_def)
  then show "written (select_image_payload e buf nm rid fl) = le_bytes 2 3 @ c_str nm @ [0] @ le_bytes 2 (unat rid) @ [fl]"
    unfolding select_image_payload_def Let_def written_put(1) [OF r3] written_put(2) [OF r2] written_put(4) [OF r1] written_put(2) [OF r0]
    by (simp add: PROTOCOL_VERSION_def)
qed

lemma unread_received:
  assumes "sbuf_wf buf" "length d \<le> MAX_PAYLOAD"
  shows "unread (serializer_reset_read (buf\<lparr>buffer := memcpy 0 d (buffer buf)\<rparr>) (length d)) = d"
    "sbuf_wf (serializer_reset_read (buf\<lparr>buffer := memcpy 0 d (buffer buf)\<rparr>) (length d))"
  using assms by (auto simp: unread_def serializer_reset_read_def memcpy_def sbuf_wf_def)

lemma zero_notin_c_str: "0 \<notin> set (c_str nm)"
  using set_takeWhileD [of 0 "\<lambda>c. c \<noteq> 0" nm] by (auto simp: c_str_def)

lemma parse_handshake_unread:
  assumes wf: "sbuf_wf b" and u: "unread b = le_bytes 2 (unat v) @ (s @ [0]) @ le_bytes 2 (unat rid) @ [fl]" and s: "0 \<notin> set s"
  shows "\<exists>i b'. parse_handshake e b = (v, Some i, rid, fl, b') \<and> string_at b' i = s"
proof -
  obtain b1 where g1: "serializer_get_uint16 e b = (v, b1)" "unread b1 = (s @ [0]) @ le_bytes 2 (unat rid) @ [fl]"
    using get_unread(2) [OF wf, of v _ e] u by (metis prod.collapse)
  have w1: "sbuf_wf b1" "buffer b1 = buffer b" "after_buffer b1 = after_buffer b"
    using g1(1) sbuf_wf_preserved(4) [OF wf, of e] by (auto simp: serializer_get_uint16_def split: if_splits)
  note gs = get_string_unread [OF w1(1) g1(2) s]
  obtain b2 where g2: "serializer_get_string b1 = (Some (buffer_pointer b1), b2)" "unread b2 = le_bytes 2 (unat rid) @ [fl]"
    using gs by (metis prod.collapse)
  have w2: "sbuf_wf b2" "buffer b2 = buffer b1" "after_buffer b2 = after_buffer b1"
    using g2(1) sbuf_wf_preserved(6) [OF w1(1)] by (auto simp: serializer_get_string_def Let_def split: if_splits)
  obtain b3 where g3: "serializer_get_uint16 e b2 = (rid, b3)" "unread b3 = [fl]"
    using get_unread(2) [OF w2(1), of rid _ e] g2(2) by (metis prod.collapse)
  have w3: "sbuf_wf b3" "buffer b3 = buffer b2" "after_buffer b3 = after_buffer b2"
    using g3(1) sbuf_wf_preserved(4) [OF w2(1), of e] by (auto simp: serializer_get_uint16_def split: if_splits)
  obtain b4 where g4: "serializer_get_uint8 b3 = (fl, b4)"
    using get_unread(1) [OF w3(1), of fl "[]"] g3(2) by (metis append_Nil2 prod.collapse)
  have w4: "buffer b4 = buffer b3" "after_buffer b4 = after_buffer b3"
    using g4 by (auto simp: serializer_get_uint8_def split: if_splits)
  have "string_at b4 (buffer_pointer b1) = s"
    using gs(2) w2 w3 w4 by (simp add: string_at_def)
  then show ?thesis by (simp add: parse_handshake_def g1 g2 g3 g4)
qed

text \<open>A request header as a host of another byte order reads it: all fields arrive, except the handle, which
  is opaque to the receiver and goes back unchanged.\<close>

lemma load_magic: "word_of_nat (load_native e [0x73, 0x72]) = dnbd3_packet_magic e"
  using load_store_words(1) [of e "dnbd3_packet_magic e"] by (simp add: magic_mem)

lemma load_le_bytes:
  "net_order_16 e (word_of_nat (load_native e (le_bytes 2 (unat a)))) = a"
  "net_order_32 e (word_of_nat (load_native e (le_bytes 4 (unat b)))) = b"
  "net_order_64 e (word_of_nat (load_native e (le_bytes 8 (unat c)))) = c"
  by (simp_all only: load_net_order length_le_bytes
      load_store_words [where e = LE, unfolded load_native_def store_native_def endian.case])

lemma request_wire:
  "rq_magic r = dnbd3_packet_magic e \<Longrightarrow> request_mem e (fixup_request e r) = [0x73, 0x72] @ le_bytes 2 (unat (rq_cmd r))
     @ le_bytes 4 (unat (rq_size r)) @ le_bytes 8 (unat (rq_offset r)) @ store_native e 8 (unat (rq_handle r))"
  by (simp add: request_mem_def fixup_request_def store_net_order magic_mem)

lemma reply_wire:
  "rp_magic r = dnbd3_packet_magic e \<Longrightarrow> reply_mem e (fixup_reply e r) = [0x73, 0x72] @ le_bytes 2 (unat (rp_cmd r))
     @ le_bytes 4 (unat (rp_size r)) @ store_native e 8 (unat (rp_handle r))"
  by (simp add: reply_mem_def fixup_reply_def store_net_order magic_mem)

lemma request_over_wire:
  assumes "rq_magic r = dnbd3_packet_magic ce"
  shows "fixup_request se (request_of_mem se (request_mem ce (fixup_request ce r))) =
    r\<lparr>rq_magic := dnbd3_packet_magic se, rq_handle := word_of_nat (load_native se (store_native ce 8 (unat (rq_handle r))))\<rparr>"
  unfolding request_wire [OF assms] request_of_mem_def
  by (simp add: fixup_request_def load_magic load_le_bytes)

lemma reply_over_wire:
  assumes "rp_magic r = dnbd3_packet_magic se"
  shows "fixup_reply ce (reply_of_mem ce (reply_mem se (fixup_reply se r))) =
    r\<lparr>rp_magic := dnbd3_packet_magic ce, rp_handle := word_of_nat (load_native ce (store_native se 8 (unat (rp_handle r))))\<rparr>"
  unfolding reply_wire [OF assms] reply_of_mem_def
  by (simp add: fixup_reply_def load_magic load_le_bytes)

text \<open>A handle that the receiver stores and sends back with the native order of its own comes back as it was.\<close>

lemma handle_echo:
  "word_of_nat (load_native ce (store_native se 8 (unat (word_of_nat (load_native se (store_native ce 8 (unat h))) :: u64)))) = (h :: u64)"
proof -
  let ?bs = "store_native ce 8 (unat h)"
  have lt: "load_native se ?bs < 2 ^ 64"
    using le_value_bound [of ?bs] le_value_bound [of "rev ?bs"] by (cases se) (simp_all add: load_native_def)
  have "store_native se 8 (load_native se ?bs) = ?bs"
    using le_bytes_value [of ?bs 8] le_bytes_value [of "rev ?bs" 8]
    by (cases se) (simp_all add: store_native_def [of LE] store_native_def [of BE] load_native_def)
  moreover have "unat (word_of_nat (load_native se ?bs) :: u64) = load_native se ?bs"
    using lt by (simp add: unat_of_nat)
  ultimately show ?thesis by (simp add: load_store_words)
qed

lemma select_image_bytes:
  assumes "sbuf_wf cbuf" "length (c_str nm) + 6 \<le> MAX_PAYLOAD"
  shows "dnbd3_select_image ce cbuf junk nm rid fl = request_mem ce (fixup_request ce
      (junk\<lparr>rq_magic := dnbd3_packet_magic ce, rq_cmd := CMD_SELECT_IMAGE, rq_size := word_of_nat (length (c_str nm) + 6)\<rparr>))
    @ le_bytes 2 (unat (3 :: u16)) @ (c_str nm @ [0]) @ le_bytes 2 (unat rid) @ [fl]"
proof -
  let ?n = "length (c_str nm) + 6" and ?s = "select_image_payload ce cbuf nm rid fl"
  note w = written_select_image [OF assms, of ce rid fl]
  have n: "unat (word_of_nat ?n :: u32) = ?n"
    using assms(2) unfolding unat_of_nat by (simp add: MAX_PAYLOAD_def)
  have len: "serializer_get_written_length ?s = word_of_nat ?n"
    unfolding serializer_get_written_length_def w(2) ..
  have "take ?n (buffer ?s) = le_bytes 2 (unat (3 :: u16)) @ (c_str nm @ [0]) @ le_bytes 2 (unat rid) @ [fl]"
    using w unfolding written_def by simp
  then show ?thesis unfolding dnbd3_select_image_def Let_def len n by simp
qed

text \<open>C21. The select-image message reaches the server as it was sent, whatever the byte orders of the two
  hosts and however the bytes are split on the way: the header decodes to the command and the payload length,
  and the payload to the protocol version, the image name, the revision and the flags.\<close>

theorem select_image_roundtrip:
  assumes "sbuf_wf cbuf" "sbuf_wf sbuf" "length (c_str nm) + 6 \<le> MAX_PAYLOAD"
    and "chunks_ok es" "length (filter (\<lambda>ev. ev = Recv_EINTR) es) < 10"
    and "stream es = drop 24 (dnbd3_select_image ce cbuf junk nm rid fl) @ rest"
  shows "let h = fixup_request se (request_of_mem se (take 24 (dnbd3_select_image ce cbuf junk nm rid fl))) in
    rq_magic h = dnbd3_packet_magic se \<and> rq_cmd h = CMD_SELECT_IMAGE \<and>
    (\<exists>b es' i b'. recv_request_payload (rq_size h) sbuf es = (Some b, es')
       \<and> parse_handshake se b = (3, Some i, rid, fl, b') \<and> string_at b' i = c_str nm \<and> stream es' = rest)"
proof -
  let ?p = "le_bytes 2 (unat (3 :: u16)) @ (c_str nm @ [0]) @ le_bytes 2 (unat rid) @ [fl]" and ?n = "length (c_str nm) + 6"
  let ?r = "junk\<lparr>rq_magic := dnbd3_packet_magic ce, rq_cmd := CMD_SELECT_IMAGE, rq_size := word_of_nat ?n\<rparr>"
  have n: "unat (word_of_nat ?n :: u32) = ?n" "?n \<le> 1000"
    using assms(3) unfolding unat_of_nat by (simp_all add: MAX_PAYLOAD_def)
  note msg = select_image_bytes [OF assms(1,3), of ce junk rid fl]
  have lp: "length ?p = ?n" by simp
  have h: "fixup_request se (request_of_mem se (take 24 (dnbd3_select_image ce cbuf junk nm rid fl)))
      = ?r\<lparr>rq_magic := dnbd3_packet_magic se, rq_handle := word_of_nat (load_native se (store_native ce 8 (unat (rq_handle ?r))))\<rparr>"
    unfolding msg by (simp add: request_over_wire)
  have st: "stream es = ?p @ rest" using assms(6) unfolding msg by simp
  obtain es' where rc: "sock_recv ?n es = (int ?n, ?p, es')" "stream es' = rest"
    using sock_recv_complete [OF assms(4,5), of ?n] st lp by (metis append_eq_conv_conj le_add1 length_append)
  define b where "b = serializer_reset_read (sbuf\<lparr>buffer := memcpy 0 ?p (buffer sbuf)\<rparr>) ?n"
  have u: "unread b = ?p" "sbuf_wf b"
  proof -
    have "length ?p \<le> MAX_PAYLOAD" using lp assms(3) by simp
    note r = unread_received [OF assms(2) this, unfolded lp]
    show "unread b = ?p" "sbuf_wf b" unfolding b_def by (rule r)+
  qed
  obtain i b' where ph: "parse_handshake se b = (3, Some i, rid, fl, b')" "string_at b' i = c_str nm"
    using parse_handshake_unread [OF u(2,1) zero_notin_c_str, of se] by auto
  have "recv_request_payload (word_of_nat ?n) sbuf es = (Some b, es')"
    using n rc(1) by (simp add: recv_request_payload_def MAX_PAYLOAD_def b_def word_unat_eq_iff)
  then show ?thesis using ph rc(2) unfolding h Let_def by simp
qed


definition sample_sbuf :: serialized_buffer where
  "sample_sbuf = \<lparr>buffer = replicate 1000 0, after_buffer = 0, buffer_end = 0, buffer_pointer = 0\<rparr>"

definition sample_request :: dnbd3_request where
  "sample_request = \<lparr>rq_magic = 0, rq_cmd = 0, rq_size = 0, rq_offset = 0, rq_handle = 0\<rparr>"

lemma sample_sbuf_wf: "sbuf_wf sample_sbuf"
  by (simp add: sbuf_wf_def sample_sbuf_def MAX_PAYLOAD_def)

theorem select_image_roundtrip_witness:
  "\<exists>b es' i b'. recv_request_payload 8 sample_sbuf
       [Recv_data (drop 24 (dnbd3_select_image BE sample_sbuf sample_request [0x61, 0x62] 7 1))] = (Some b, es')
     \<and> parse_handshake LE b = (3, Some i, 7, 1, b') \<and> string_at b' i = [0x61, 0x62] \<and> stream es' = []"
proof -
  let ?msg = "dnbd3_select_image BE sample_sbuf sample_request [0x61, 0x62] 7 1"
  let ?h = "fixup_request LE (request_of_mem LE (take 24 ?msg))"
  have c: "c_str [0x61, 0x62] = [0x61, 0x62]" by (simp add: c_str_def)
  note b = select_image_bytes [OF sample_sbuf_wf, of "[0x61, 0x62]" BE sample_request 7 1, unfolded c]
  have ne: "drop 24 ?msg \<noteq> []" by (simp add: b MAX_PAYLOAD_def)
  have sz: "rq_size ?h = 8"
    by (simp add: b MAX_PAYLOAD_def request_over_wire)
  show ?thesis
    using select_image_roundtrip [OF sample_sbuf_wf sample_sbuf_wf, of "[0x61, 0x62]" "[Recv_data (drop 24 ?msg)]"
        BE sample_request 7 1 "[]" LE] ne sz
    by (simp add: c MAX_PAYLOAD_def Let_def)
qed

text \<open>A block request and its reply cross hosts of different byte order: the server sees the size, the low 56
  bits of the offset and the hop count that were sent, and the handle that it copies into its reply arrives
  at the client as the one the client chose.\<close>

theorem get_block_roundtrip:
  "let q = fixup_request se (request_of_mem se (request_mem ce (fixup_request ce (get_block_request ce offset sz handle hopCount)))) in
     rq_magic q = dnbd3_packet_magic se \<and> rq_cmd q = CMD_GET_BLOCK \<and> rq_size q = sz
     \<and> offset_small q = take_bit 56 offset \<and> hops q = hopCount
     \<and> fixup_reply ce (reply_of_mem ce (reply_mem se (fixup_reply se
          \<lparr>rp_magic = dnbd3_packet_magic se, rp_cmd = CMD_GET_BLOCK, rp_size = rq_size q, rp_handle = rq_handle q\<rparr>)))
       = \<lparr>rp_magic = dnbd3_packet_magic ce, rp_cmd = CMD_GET_BLOCK, rp_size = sz, rp_handle = handle\<rparr>"
proof -
  let ?r = "get_block_request ce offset sz handle hopCount"
  have m: "rq_magic ?r = dnbd3_packet_magic ce" "rq_cmd ?r = CMD_GET_BLOCK" "rq_size ?r = sz" "rq_handle ?r = handle"
    by (simp_all add: get_block_request_def set_hops_def)
  have f: "offset_small ?r = take_bit 56 offset" "hops ?r = hopCount"
    by (simp_all add: get_block_request_def) (simp add: offset_small_def)
  let ?q = "?r\<lparr>rq_magic := dnbd3_packet_magic se, rq_handle := word_of_nat (load_native se (store_native ce 8 (unat handle)))\<rparr>"
  have "offset_small ?q = offset_small ?r" "hops ?q = hops ?r" by (simp_all add: offset_small_def hops_def)
  then show ?thesis
    unfolding request_over_wire [OF m(1)] Let_def m(4) using f
    by (simp add: m reply_over_wire handle_echo)
qed

end
