(* ===== verification/Uplink_Queue.thy ===== *)
theory Uplink_Queue
  imports Cache_Map Protocol
begin

text \<open>
  The request queue of an uplink, from \<open>src/server/uplink.c\<close>: clients' requests that cannot be
  answered locally are queued (\<open>uplink_request\<close>), sent to the upstream server
  (\<open>uplink_sendRequests\<close>), and answered from its replies (\<open>uplink_handleReceive\<close>), which are also
  written to the image file. A disconnecting client is taken out by \<open>uplink_removeClient\<close>.

  The queue is the list of the slots below \<open>queueLen\<close>. The results of system calls (sending,
  writing the image file) are arguments. The messages that go out are part of the results.
\<close>

section \<open>State\<close>

datatype ulr = ULR_FREE | ULR_NEW | ULR_PENDING | ULR_PROCESSING

record queued_request =
  q_handle :: u64
  q_from :: u64
  q_to :: u64
  q_client :: "nat option"
  q_status :: ulr
  q_hopCount :: u8

datatype rtt_state = RTT_IDLE | RTT_INPROGRESS | RTT_DONTCHANGE | RTT_DOCHANGE | RTT_NOT_REACHABLE

record dnbd3_connection =
  up_fd :: int
  up_version :: int
  currentServer :: dnbd3_host
  rttTestResult :: rtt_state
  cacheFd :: int
  betterVersion :: int
  betterFd :: int
  betterServer :: dnbd3_host
  recvBufferLen :: u32
  up_shutdown :: bool
  replicatedLastBlock :: bool
  cycleDetected :: bool
  nextReplicationIndex :: int
  replicationHandle :: u64
  bytesReceived :: u64
  idleTime :: u32
  queue :: "queued_request list"

definition REP_NONE :: u64 where "REP_NONE = 0xffffffffffffffff"
definition SERVER_MAX_UPLINK_QUEUE :: nat where "SERVER_MAX_UPLINK_QUEUE = 1500"

text \<open>A block request as it is passed to \<open>dnbd3_get_block\<close>: offset, size, handle, hop count.\<close>

type_synonym block_request = "u64 \<times> u32 \<times> u64 \<times> u8"

definition upstream_request :: "int \<Rightarrow> u8 \<Rightarrow> queued_request \<Rightarrow> block_request" where
  "upstream_request version hps req =
    (let reqStart = align_down (q_from req);
         reqSize = ucast (align_up (q_to req) - reqStart) :: u32;
         hps = (if hps < 200 then hps + 1 else hps)
     in (reqStart, reqSize, reqStart, COND_HOPCOUNT version hps))"

section \<open>Queueing a request\<close>

text \<open>The scan of \<open>uplink_request\<close>: \<open>None\<close> when it finds a request loop, otherwise the free slot and
  the request to attach to, with its index.\<close>

fun scan_queue :: "u64 \<Rightarrow> u64 \<Rightarrow> u8 \<Rightarrow> nat \<Rightarrow> queued_request list \<Rightarrow> nat option \<Rightarrow> (nat \<times> ulr) option \<Rightarrow>
    (nat option \<times> (nat \<times> ulr) option) option" where
  "scan_queue start end hps i [] freeSlot found = Some (freeSlot, found)"
| "scan_queue start end hps i (r # rs) freeSlot found =
    (if freeSlot = None \<and> q_status r = ULR_FREE then scan_queue start end hps (Suc i) rs (Some i) found
     else if q_status r \<noteq> ULR_PENDING \<and> q_status r \<noteq> ULR_NEW then scan_queue start end hps (Suc i) rs freeSlot found
     else if q_from r \<le> start \<and> q_to r \<ge> end then
       (if hps > q_hopCount r \<and> q_from r = start \<and> q_to r = end then None
        else if (case found of None \<Rightarrow> True | Some (_, existingType) \<Rightarrow> existingType = ULR_PENDING)
        then (if freeSlot \<noteq> None then Some (freeSlot, Some (i, q_status r))
              else scan_queue start end hps (Suc i) rs freeSlot (Some (i, q_status r)))
        else scan_queue start end hps (Suc i) rs freeSlot found)
     else scan_queue start end hps (Suc i) rs freeSlot found)"

text \<open>What \<open>mutex_trylock\<close> on the send mutex and \<open>dnbd3_get_block\<close> report.\<close>

record send_env =
  se_locked :: bool
  se_sent :: bool

text \<open>The client with its address asks for \<open>len\<close> bytes at \<open>start\<close>. The result is the return value, the
  uplink and the block requests sent right away.\<close>

definition uplink_request :: "u32 \<Rightarrow> send_env \<Rightarrow> nat \<Rightarrow> dnbd3_host \<Rightarrow> u64 \<Rightarrow> u64 \<Rightarrow> u32 \<Rightarrow> u8 \<Rightarrow>
    dnbd3_connection \<Rightarrow> bool \<times> dnbd3_connection \<times> block_request list" where
  "uplink_request maxPayload env client host handle start len hps link =
    (if len > maxPayload then (False, link, [])
     else if up_shutdown link then (False, link, [])
     else if hps \<noteq> 0 \<and> isSameAddress (currentServer link) host then (False, link\<lparr>cycleDetected := True\<rparr>, [])
     else let end = start + ucast len in
       (case scan_queue start end hps 0 (queue link) None None of
          None \<Rightarrow> (False, link\<lparr>cycleDetected := True\<rparr>, [])
        | Some (free, found) \<Rightarrow>
           if free = None \<and> length (queue link) \<ge> SERVER_MAX_UPLINK_QUEUE then (False, link, [])
           else
             let freeSlot = (case free of Some i \<Rightarrow> i | None \<Rightarrow> length (queue link));
                 attach = (case found of None \<Rightarrow> False
                   | Some (i, existingType) \<Rightarrow> \<not> (existingType \<noteq> ULR_NEW \<and> freeSlot > i));
                 req = \<lparr>q_handle = handle, q_from = start, q_to = end, q_client = Some client,
                        q_status = (if attach then ULR_PENDING else ULR_NEW), q_hopCount = hps\<rparr>;
                 q = (case free of Some i \<Rightarrow> (queue link)[i := req] | None \<Rightarrow> queue link @ [req]);
                 link' = link\<lparr>queue := q\<rparr>
             in if attach then (True, link', [])
                else if se_locked env \<or> up_fd link' = - 1 then (True, link', [])
                else if se_sent env
                then (True, link'\<lparr>queue := (queue link')[freeSlot := req\<lparr>q_status := ULR_PENDING\<rparr>]\<rparr>,
                      [upstream_request (up_version link) hps req])
                else (True, link', [])))"

section \<open>Sending\<close>

text \<open>\<open>uplink_sendRequests\<close>: \<open>sends\<close> are the results of \<open>dnbd3_get_block\<close>. The last component of the
  result is false when a send failed. The code releases the lock of the queue around each send; here the loop is one step.\<close>

fun send_requests :: "bool \<Rightarrow> int \<Rightarrow> bool list \<Rightarrow> queued_request list \<Rightarrow>
    queued_request list \<times> block_request list \<times> bool" where
  "send_requests newOnly version sends [] = ([], [], True)"
| "send_requests newOnly version sends (r # rs) =
    (if q_status r \<noteq> ULR_NEW \<and> (newOnly \<or> q_status r \<noteq> ULR_PENDING)
     then (case send_requests newOnly version sends rs of (rs', out, ok) \<Rightarrow> (r # rs', out, ok))
     else let r' = r\<lparr>q_status := ULR_PENDING\<rparr> in
       (case sends of
          True # sends' \<Rightarrow>
            (case send_requests newOnly version sends' rs of
               (rs', out, ok) \<Rightarrow> (r' # rs', upstream_request version (q_hopCount r) r # out, ok))
        | _ \<Rightarrow> (r' # rs, [], False)))"

definition uplink_sendRequests :: "bool \<Rightarrow> bool list \<Rightarrow> dnbd3_connection \<Rightarrow> dnbd3_connection \<times> block_request list \<times> bool" where
  "uplink_sendRequests newOnly sends link =
    (case send_requests newOnly (up_version link) sends (queue link) of
       (q, out, ok) \<Rightarrow> (link\<lparr>queue := q\<rparr>, out, ok))"

section \<open>Removing a client\<close>

text \<open>The loops that walk the queue from its end, change every slot and lower \<open>queueLen\<close> over free slots
  at the end.\<close>

fun down_loop :: "('a \<Rightarrow> 'a) \<Rightarrow> ('a \<Rightarrow> bool) \<Rightarrow> nat \<Rightarrow> 'a list \<Rightarrow> 'a list" where
  "down_loop f free 0 xs = xs"
| "down_loop f free (Suc i) xs =
    (let xs = xs[i := f (xs ! i)];
         xs = (if free (xs ! i) \<and> i + 1 = length xs then butlast xs else xs)
     in down_loop f free i xs)"

definition forget_client :: "nat \<Rightarrow> queued_request \<Rightarrow> queued_request" where
  "forget_client client r = (if q_client r = Some client then r\<lparr>q_client := None, q_status := ULR_FREE\<rparr> else r)"

definition uplink_removeClient :: "nat \<Rightarrow> dnbd3_connection \<Rightarrow> dnbd3_connection" where
  "uplink_removeClient client link =
    link\<lparr>queue := down_loop (forget_client client) (\<lambda>r. q_client r = None) (length (queue link)) (queue link)\<rparr>"

section \<open>Receiving\<close>

text \<open>\<open>uplink_reopenCacheFd\<close>: \<open>opened\<close> is what \<open>open\<close> returns.\<close>

definition uplink_reopenCacheFd :: "int \<Rightarrow> bool \<Rightarrow> dnbd3_connection \<Rightarrow> bool \<times> dnbd3_connection" where
  "uplink_reopenCacheFd opened force link =
    (if cacheFd link \<noteq> - 1 \<and> \<not> force then (True, link)
     else (opened \<noteq> - 1, link\<lparr>cacheFd := opened\<rparr>))"

text \<open>Writing the payload to the image file. Each event is the outcome of one \<open>pwrite\<close>, with what the
  recovery from it reports: bytes written, interrupted, no space (and whether room could be made), bad
  descriptor (and what opening the file again returns), another error.\<close>

datatype pwrite_event = Wrote nat | Write_intr | No_space bool | Bad_fd int | Write_fail

text \<open>The file is a function from offsets to bytes.\<close>

definition store_bytes :: "nat \<Rightarrow> u8 list \<Rightarrow> (nat \<Rightarrow> u8) \<Rightarrow> nat \<Rightarrow> u8" where
  "store_bytes off d file = (\<lambda>i. if off \<le> i \<and> i < off + length d then d ! (i - off) else file i)"

fun cache_write :: "u8 list \<Rightarrow> nat \<Rightarrow> nat \<Rightarrow> bool \<Rightarrow> pwrite_event list \<Rightarrow> dnbd3_connection \<Rightarrow> (nat \<Rightarrow> u8) \<Rightarrow>
    nat \<times> dnbd3_connection \<times> (nat \<Rightarrow> u8)" where
  "cache_write payload start dn tryAgain [] link file = (dn, link, file)"
| "cache_write payload start dn tryAgain (ev # evs) link file =
    (if dn < length payload then
       (case ev of
          Wrote n \<Rightarrow> if n = 0 \<or> n > length payload - dn then (dn, link, file)
            else cache_write payload start (dn + n) tryAgain evs link
                   (store_bytes (start + dn) (take n (drop dn payload)) file)
        | Write_intr \<Rightarrow> cache_write payload start dn tryAgain evs link file
        | No_space freed \<Rightarrow> if \<not> tryAgain \<or> \<not> freed then (dn, link, file)
            else cache_write payload start dn False evs link file
        | Bad_fd opened \<Rightarrow> if \<not> tryAgain then (dn, link, file)
            else (case uplink_reopenCacheFd opened True link of
               (ok, link') \<Rightarrow> if \<not> ok then (dn, link', file)
                 else cache_write payload start dn False evs link' file)
        | Write_fail \<Rightarrow> (dn, link, file))
     else (dn, link, file))"

text \<open>Step 2: the requests that the reply covers.\<close>

definition mark_processing :: "u64 \<Rightarrow> u64 \<Rightarrow> queued_request \<Rightarrow> queued_request" where
  "mark_processing start end r =
    (if (q_status r = ULR_PENDING \<or> q_status r = ULR_NEW) \<and> q_from r \<ge> start \<and> q_to r \<le> end
     then r\<lparr>q_status := ULR_PROCESSING\<rparr> else r)"

text \<open>Step 3: a reply to a client is its address, the handle, the size and the bytes.\<close>

type_synonym client_reply = "nat \<times> u64 \<times> u32 \<times> u8 list"

definition serve_one :: "u64 \<Rightarrow> u8 list \<Rightarrow> queued_request \<Rightarrow> client_reply" where
  "serve_one start payload r =
    (let sz = ucast (q_to r - q_from r) :: u32
     in (the (q_client r), q_handle r, sz, take (unat sz) (drop (unat (q_from r - start)) payload)))"

definition serve_slot :: "queued_request \<Rightarrow> queued_request" where
  "serve_slot r = (if q_status r = ULR_PROCESSING then r\<lparr>q_status := ULR_FREE, q_client := None\<rparr> else r)"

definition serve_all :: "u64 \<Rightarrow> u8 list \<Rightarrow> queued_request list \<Rightarrow> client_reply list" where
  "serve_all start payload q = map (serve_one start payload) (filter (\<lambda>r. q_status r = ULR_PROCESSING) (rev q))"

text \<open>A block reply of the upstream server is a handle and the payload. Step 1 writes it to the image file and
  marks the blocks in the map. \<open>None\<close> is a failed assertion. The result has the hash blocks queued for a check.\<close>

definition write_payload :: "int \<Rightarrow> pwrite_event list \<Rightarrow> u64 \<Rightarrow> u8 list \<Rightarrow>
    dnbd3_connection \<times> dnbd3_image \<times> (nat \<Rightarrow> u8) \<Rightarrow> ((dnbd3_connection \<times> dnbd3_image \<times> (nat \<Rightarrow> u8)) \<times> int list) option" where
  "write_payload opened writes start payload st =
    (case st of (link, img, file) \<Rightarrow>
      let link = snd (uplink_reopenCacheFd opened False link);
          (dn, link, file) = (if cacheFd link \<noteq> - 1 then cache_write payload (unat start) 0 True writes link file
                              else (0, link, file))
      in if dn > 0
         then (case image_updateCachemap img start (start + word_of_nat dn) True of
                 None \<Rightarrow> None | Some (img, checks) \<Rightarrow> Some ((link, img, file), checks))
         else Some ((link, img, file), []))"

text \<open>Steps 2 and 3 and what follows: the waiting clients are answered, the replication state is updated.\<close>

definition assertion_fails :: "queued_request \<Rightarrow> bool" where
  "assertion_fails r \<longleftrightarrow> q_status r = ULR_PROCESSING
     \<or> ((q_status r = ULR_PENDING \<or> q_status r = ULR_NEW) \<and> q_client r = None)"

definition serve_clients :: "u64 \<Rightarrow> u8 list \<Rightarrow> dnbd3_connection \<Rightarrow> (dnbd3_connection \<times> client_reply list) option" where
  "serve_clients start payload link =
    (if list_ex assertion_fails (queue link) then None
     else
       let q = map (mark_processing start (start + word_of_nat (length payload))) (queue link);
           replies = serve_all start payload q;
           served = (replies \<noteq> []);
           q = down_loop serve_slot (\<lambda>r. q_status r = ULR_FREE) (length q) q;
           link = link\<lparr>queue := q\<rparr>;
           link = (if start = replicationHandle link then link\<lparr>replicationHandle := REP_NONE\<rparr> else link);
           link = (if served then link\<lparr>idleTime := 0,
                     nextReplicationIndex := (if nextReplicationIndex link = - 1
                       then to_int (start div (DNBD3_BLOCK_SIZE * 8)) AND NOT 511
                       else nextReplicationIndex link)\<rparr> else link)
       in Some (link, replies))"

definition receive_block :: "int \<Rightarrow> pwrite_event list \<Rightarrow> u64 \<Rightarrow> u8 list \<Rightarrow>
    dnbd3_connection \<times> dnbd3_image \<times> (nat \<Rightarrow> u8) \<Rightarrow>
    ((dnbd3_connection \<times> dnbd3_image \<times> (nat \<Rightarrow> u8)) \<times> client_reply list \<times> int list) option" where
  "receive_block opened writes handle payload st =
    (case st of (link, img, file) \<Rightarrow>
      case write_payload opened writes handle payload
             (link\<lparr>bytesReceived := bytesReceived link + word_of_nat (length payload)\<rparr>, img, file) of
        None \<Rightarrow> None
      | Some ((link, img, file), checks) \<Rightarrow>
          (case serve_clients handle payload link of
             None \<Rightarrow> None
           | Some (link, replies) \<Rightarrow> Some ((link, img, file), replies, checks)))"

section \<open>The loops\<close>

lemma down_loop_append:
  "down_loop f free (length xs) (xs @ ys) = (if ys = [] then drop_free free (map f xs) else map f xs @ ys)"
proof (induction xs arbitrary: ys rule: rev_induct)
  case (snoc x xs)
  have "down_loop f free (length (xs @ [x])) ((xs @ [x]) @ ys) =
      down_loop f free (length xs) (if free (f x) \<and> ys = [] then xs else xs @ f x # ys)"
    by (auto simp: Let_def nth_append list_update_append butlast_append)
  then show ?case using snoc.IH [of "[]"] snoc.IH [of "f x # ys"] by auto
qed simp

lemma down_loop_eq: "down_loop f free (length xs) xs = drop_free free (map f xs)"
  using down_loop_append [of f free xs "[]"] by simp

section \<open>Well-formed queues\<close>

text \<open>The ranges that clients may ask for: inside the largest image, and short enough that the block aligned
  range still fits into 32 bits.\<close>

definition range_ok :: "u64 \<Rightarrow> u64 \<Rightarrow> bool" where
  "range_ok from to \<longleftrightarrow> unat from \<le> unat to \<and> unat to < 2 ^ 45 \<and> unat to - unat from \<le> 2 ^ 31"

definition req_ok :: "queued_request \<Rightarrow> bool" where
  "req_ok r \<longleftrightarrow> q_status r \<noteq> ULR_PROCESSING \<and> (q_status r = ULR_FREE \<longleftrightarrow> q_client r = None)
     \<and> (q_status r \<noteq> ULR_FREE \<longrightarrow> range_ok (q_from r) (q_to r))"

definition queue_inv :: "dnbd3_connection \<Rightarrow> bool" where
  "queue_inv link \<longleftrightarrow> length (queue link) \<le> SERVER_MAX_UPLINK_QUEUE \<and> (\<forall>r\<in>set (queue link). req_ok r)"

text \<open>The bytes that a block request asks for.\<close>

definition byte_range :: "block_request \<Rightarrow> nat \<times> nat" where
  "byte_range b = (case b of (off, sz, h, hps) \<Rightarrow> (unat off, unat off + unat sz))"

lemma upstream_request_covers:
  assumes "range_ok (q_from r) (q_to r)"
  shows "byte_range (upstream_request v hps r) =
      (unat (q_from r) div 4096 * 4096, (unat (q_to r) + 4095) div 4096 * 4096)"
    "fst (byte_range (upstream_request v hps r)) \<le> unat (q_from r)"
    "unat (q_to r) \<le> snd (byte_range (upstream_request v hps r))"
proof -
  let ?f = "unat (q_from r)" and ?t = "unat (q_to r)"
  have r: "?f \<le> ?t" "?t < 2 ^ 45" "?t - ?f \<le> 2 ^ 31" using assms by (auto simp: range_ok_def)
  have d: "unat (align_down (q_from r)) = ?f div 4096 * 4096" by (rule unat_align_down)
  have u: "unat (align_up (q_to r)) = (?t + 4095) div 4096 * 4096" using r(2) by (intro unat_align_up) simp
  have le: "?f div 4096 * 4096 \<le> (?t + 4095) div 4096 * 4096" using r(1) by (simp add: div_le_mono)
  have "unat (align_up (q_to r) - align_down (q_from r)) = (?t + 4095) div 4096 * 4096 - ?f div 4096 * 4096"
    using le d u by (simp add: unat_sub word_le_nat_alt)
  moreover have "(?t + 4095) div 4096 * 4096 - ?f div 4096 * 4096 < 2 ^ 32"
  proof -
    have "(?t + 4095) div 4096 * 4096 \<le> ?t + 4095" by (rule div_times_less_eq_dividend)
    moreover have "?f < 4096 + ?f div 4096 * 4096" by (rule dividend_less_div_times) simp
    ultimately show ?thesis using r(1,3) by simp
  qed
  ultimately have "unat (ucast (align_up (q_to r) - align_down (q_from r)) :: u32)
      = (?t + 4095) div 4096 * 4096 - ?f div 4096 * 4096"
    by (simp add: unsigned_ucast_eq take_bit_nat_eq_self)
  then show b: "byte_range (upstream_request v hps r) = (?f div 4096 * 4096, (?t + 4095) div 4096 * 4096)"
    using d le by (simp add: byte_range_def upstream_request_def Let_def)
  show "fst (byte_range (upstream_request v hps r)) \<le> ?f" "?t \<le> snd (byte_range (upstream_request v hps r))"
    unfolding b by simp_all
qed

lemma range_ok_add:
  assumes "unat start + unat len < 2 ^ 45" "unat (len :: u32) \<le> 2 ^ 31"
  shows "range_ok start (start + ucast len)" "unat (start + ucast len) = unat start + unat len"
proof -
  have "unat (ucast len :: u64) = unat len"
    using unat_u32_less [of len] by (simp add: unsigned_ucast_eq take_bit_nat_eq_self)
  then show u: "unat (start + ucast len) = unat start + unat len"
    using assms by (subst unat_add_no_wrap) auto
  show "range_ok start (start + ucast len)" using assms u by (simp add: range_ok_def)
qed

section \<open>Scanning the queue\<close>

text \<open>The slot it returns is free, and the request it returns covers the new one.\<close>

definition free_at :: "queued_request list \<Rightarrow> nat option \<Rightarrow> bool" where
  "free_at q f \<longleftrightarrow> (\<forall>k. f = Some k \<longrightarrow> k < length q \<and> q_status (q ! k) = ULR_FREE)"

definition covers_at :: "u64 \<Rightarrow> u64 \<Rightarrow> queued_request list \<Rightarrow> (nat \<times> ulr) option \<Rightarrow> bool" where
  "covers_at start e q f \<longleftrightarrow> (\<forall>k s. f = Some (k, s) \<longrightarrow> k < length q \<and> q_status (q ! k) = s
     \<and> (s = ULR_PENDING \<or> s = ULR_NEW) \<and> q_from (q ! k) \<le> start \<and> e \<le> q_to (q ! k))"

lemma scan_queue_sound_gen:
  assumes "scan_queue start e hps (length pre) rs free found = Some (free', found')"
    and "free_at (pre @ rs) free" "covers_at start e (pre @ rs) found"
  shows "free_at (pre @ rs) free' \<and> covers_at start e (pre @ rs) found'
    \<and> (free' = None \<longrightarrow> free = None \<and> (\<forall>r\<in>set rs. q_status r \<noteq> ULR_FREE))"
  using assms
proof (induction rs arbitrary: pre free found)
  case (Cons r rs)
  have q: "(pre @ [r]) @ rs = pre @ r # rs" "length (pre @ [r]) = Suc (length pre)" "(pre @ r # rs) ! length pre = r" by simp_all
  have fr: "free_at (pre @ r # rs) (Some (length pre))" if "q_status r = ULR_FREE"
    using that by (simp add: free_at_def)
  have cv: "covers_at start e (pre @ r # rs) (Some (length pre, q_status r))"
    if "q_status r = ULR_PENDING \<or> q_status r = ULR_NEW" "q_from r \<le> start" "e \<le> q_to r"
    using that by (simp add: covers_at_def)
  note ih = Cons.IH [of "pre @ [r]", unfolded q]
  show ?case
    using Cons.prems fr cv ih [of free found] ih [of "Some (length pre)" found] ih [of free "Some (length pre, q_status r)"]
    by (auto split: if_splits)
qed simp

lemma scan_queue_sound:
  assumes "scan_queue start e hps 0 q None None = Some (free, found)"
  shows "free_at q free" "covers_at start e q found" "free = None \<Longrightarrow> \<forall>r\<in>set q. q_status r \<noteq> ULR_FREE"
  using scan_queue_sound_gen [of start e hps "[]" q None None free found] assms
  by (simp_all add: free_at_def [of q None] covers_at_def [of start e q None])

text \<open>A call that is accepted puts one request into a free slot or behind the last one. The new request waits to be
  sent, or has been sent, or attaches to a request that covers it.\<close>

definition inserted :: "queued_request list \<Rightarrow> queued_request \<Rightarrow> queued_request list \<Rightarrow> bool" where
  "inserted q req q' \<longleftrightarrow> (\<exists>k<length q. q_status (q ! k) = ULR_FREE \<and> q' = q[k := req])
     \<or> (length q < SERVER_MAX_UPLINK_QUEUE \<and> q' = q @ [req])"

lemma inserted_set:
  assumes "inserted q req q'"
  shows "req \<in> set q'" "r \<in> set q' \<Longrightarrow> r = req \<or> r \<in> set q" "r \<in> set q \<Longrightarrow> q_status r \<noteq> ULR_FREE \<Longrightarrow> r \<in> set q'"
    "length q \<le> SERVER_MAX_UPLINK_QUEUE \<Longrightarrow> length q' \<le> SERVER_MAX_UPLINK_QUEUE"
proof -
  consider (slot) k where "k < length q" "q_status (q ! k) = ULR_FREE" "q' = q[k := req]"
    | (behind) "length q < SERVER_MAX_UPLINK_QUEUE" "q' = q @ [req]"
    using assms by (auto simp: inserted_def)
  note cs = this
  show "req \<in> set q'" using cs by cases (auto simp: set_update_memI)
  show "r \<in> set q' \<Longrightarrow> r = req \<or> r \<in> set q" using cs by cases (auto dest!: set_update_subset_insert [THEN subsetD])
  show "r \<in> set q \<Longrightarrow> q_status r \<noteq> ULR_FREE \<Longrightarrow> r \<in> set q'"
    using cs by cases (auto simp: in_set_conv_nth nth_list_update, metis)
  show "length q \<le> SERVER_MAX_UPLINK_QUEUE \<Longrightarrow> length q' \<le> SERVER_MAX_UPLINK_QUEUE" using cs by cases auto
qed

definition new_request :: "int \<Rightarrow> queued_request list \<Rightarrow> queued_request \<Rightarrow> block_request list \<Rightarrow> bool" where
  "new_request v q req out \<longleftrightarrow>
     q_status req = ULR_NEW \<and> out = []
     \<or> q_status req = ULR_PENDING \<and> out = [upstream_request v (q_hopCount req) req]
     \<or> q_status req = ULR_PENDING \<and> out = [] \<and> (\<exists>r\<in>set q. (q_status r = ULR_PENDING \<or> q_status r = ULR_NEW)
          \<and> q_from r \<le> q_from req \<and> q_to req \<le> q_to r)"

lemma request_refused:
  assumes "len > mp \<or> up_shutdown link \<or> (hps \<noteq> 0 \<and> isSameAddress (currentServer link) host)
      \<or> scan_queue start (start + ucast len) hps 0 (queue link) None None = None"
  shows "uplink_request mp env c host h start len hps link = (False, link, [])
        \<or> uplink_request mp env c host h start len hps link = (False, link\<lparr>cycleDetected := True\<rparr>, [])"
proof -
  consider "len > mp" | "\<not> len > mp" "up_shutdown link"
    | "\<not> len > mp" "\<not> up_shutdown link" "hps \<noteq> 0 \<and> isSameAddress (currentServer link) host"
    | "\<not> len > mp" "\<not> up_shutdown link" "\<not> (hps \<noteq> 0 \<and> isSameAddress (currentServer link) host)"
      "scan_queue start (start + ucast len) hps 0 (queue link) None None = None"
    using assms by argo
  then show ?thesis
    unfolding uplink_request_def by cases (simp_all only: if_True if_False simp_thms Let_def option.case)
qed

lemma uplink_request_result:
  assumes "uplink_request mp env c host h start len hps link = (ret, link', out)"
  shows "if ret then \<exists>req. inserted (queue link) req (queue link') \<and> new_request (up_version link) (queue link) req out
        \<and> q_handle req = h \<and> q_from req = start \<and> q_to req = start + ucast len \<and> q_client req = Some c \<and> q_hopCount req = hps
        \<and> len \<le> mp
      else queue link' = queue link \<and> out = []"
proof -
  let ?e = "start + ucast len :: u64"
  show ?thesis
  proof (cases "len > mp \<or> up_shutdown link \<or> (hps \<noteq> 0 \<and> isSameAddress (currentServer link) host)
      \<or> scan_queue start ?e hps 0 (queue link) None None = None")
    case True
    then show ?thesis using request_refused [OF True, of env c h] assms by auto
  next
    case False
    then obtain free found where sc: "scan_queue start ?e hps 0 (queue link) None None = Some (free, found)" by auto
    note sound = scan_queue_sound [OF sc]
    define slot where "slot = (case free of Some i \<Rightarrow> i | None \<Rightarrow> length (queue link))"
    define attach where "attach = (case found of None \<Rightarrow> False | Some (i, t) \<Rightarrow> \<not> (t \<noteq> ULR_NEW \<and> slot > i))"
    define req where "req = \<lparr>q_handle = h, q_from = start, q_to = ?e, q_client = Some c,
        q_status = (if attach then ULR_PENDING else ULR_NEW), q_hopCount = hps\<rparr>"
    define ins where "ins = (\<lambda>r. case free of Some i \<Rightarrow> (queue link)[i := r] | None \<Rightarrow> queue link @ [r])"
    have eq: "uplink_request mp env c host h start len hps link =
      (if free = None \<and> length (queue link) \<ge> SERVER_MAX_UPLINK_QUEUE then (False, link, [])
       else if attach then (True, link\<lparr>queue := ins req\<rparr>, [])
       else if se_locked env \<or> up_fd link = - 1 then (True, link\<lparr>queue := ins req\<rparr>, [])
       else if se_sent env then (True, link\<lparr>queue := (ins req)[slot := req\<lparr>q_status := ULR_PENDING\<rparr>]\<rparr>,
              [upstream_request (up_version link) hps req])
       else (True, link\<lparr>queue := ins req\<rparr>, []))"
    proof -
      have n: "\<not> len > mp" "\<not> up_shutdown link" "\<not> (hps \<noteq> 0 \<and> isSameAddress (currentServer link) host)"
        using False by argo+
      have rec: "up_fd (link\<lparr>queue := x\<rparr>) = up_fd link" "queue (link\<lparr>queue := x\<rparr>) = x"
        "link\<lparr>queue := x, queue := y\<rparr> = link\<lparr>queue := y\<rparr>" for x y by simp_all
      show ?thesis
        unfolding uplink_request_def Let_def slot_def attach_def req_def ins_def
        by (simp only: n if_False sc option.case prod.case simp_thms rec)
    qed
    have ini: "inserted (queue link) r (ins r)" if "\<not> (free = None \<and> length (queue link) \<ge> SERVER_MAX_UPLINK_QUEUE)" for r
      using sound(1) that by (cases free) (auto simp: inserted_def ins_def free_at_def)
    have upd: "(ins req)[slot := r] = ins r" for r
      by (cases free) (simp_all add: ins_def slot_def)
    have att: "\<exists>r\<in>set (queue link). (q_status r = ULR_PENDING \<or> q_status r = ULR_NEW) \<and> q_from r \<le> start \<and> ?e \<le> q_to r" if at: attach
    proof -
      obtain k t where k: "found = Some (k, t)" using at by (auto simp: attach_def split: option.splits)
      then show ?thesis using sound(2) nth_mem [of k "queue link"] by (auto simp: covers_at_def)
    qed
    have up: "upstream_request (up_version link) hps (req\<lparr>q_status := ULR_PENDING\<rparr>) = upstream_request (up_version link) hps req"
      by (simp add: upstream_request_def)
    have "len \<le> mp" using False by (simp add: not_less)
    show ?thesis
    proof (cases "free = None \<and> length (queue link) \<ge> SERVER_MAX_UPLINK_QUEUE")
      case True
      then show ?thesis using assms eq by simp
    next
      case ok: False
      show ?thesis
      proof (cases "attach \<or> se_locked env \<or> up_fd link = - 1 \<or> \<not> se_sent env")
        case True
        then have "uplink_request mp env c host h start len hps link = (True, link\<lparr>queue := ins req\<rparr>, [])"
          unfolding eq using ok by (cases attach; cases "se_locked env \<or> up_fd link = - 1"; cases "se_sent env") (simp_all only: if_True if_False simp_thms)
        then have r: "ret" "queue link' = ins req" "out = []" using assms by simp_all
        have "new_request (up_version link) (queue link) req []"
          using att by (cases attach) (simp_all add: new_request_def req_def)
        then show ?thesis using r ini [OF ok, of req] \<open>len \<le> mp\<close>
          by (simp only: if_True) (rule exI [of _ req], simp add: req_def)
      next
        case False
        let ?r = "req\<lparr>q_status := ULR_PENDING\<rparr>"
        have "uplink_request mp env c host h start len hps link =
            (True, link\<lparr>queue := ins ?r\<rparr>, [upstream_request (up_version link) hps ?r])"
          unfolding eq up upd using ok False by (simp only: if_True if_False simp_thms de_Morgan_disj)
        then have r: "ret" "queue link' = ins ?r" "out = [upstream_request (up_version link) hps ?r]"
          using assms by simp_all
        have "new_request (up_version link) (queue link) ?r out" using r(3) by (simp add: new_request_def req_def)
        then show ?thesis using r(1,2) ini [OF ok, of ?r] \<open>len \<le> mp\<close>
          by (simp only: if_True) (rule exI [of _ ?r], simp add: req_def)
      qed
    qed
  qed
qed

section \<open>Every operation keeps the queue well-formed\<close>

lemma queue_inv_request:
  assumes "queue_inv link" "uplink_request mp env c host h start len hps link = (ret, link', out)"
    and "unat mp \<le> 2 ^ 31" "unat start + unat len < 2 ^ 45"
  shows "queue_inv link'"
proof -
  show ?thesis
  proof (cases ret)
    case False
    then show ?thesis using uplink_request_result [OF assms(2)] assms(1) by (simp add: queue_inv_def)
  next
    case True
    then obtain req where req: "inserted (queue link) req (queue link')" "new_request (up_version link) (queue link) req out"
      "q_from req = start" "q_to req = start + ucast len" "q_client req = Some c" "len \<le> mp"
      using uplink_request_result [OF assms(2)] by auto
    then have "req_ok req"
      using range_ok_add(1) [OF assms(4)] assms(3) by (auto simp: req_ok_def new_request_def word_le_nat_alt)
    then show ?thesis using assms(1) inserted_set(2,4) [OF req(1)] unfolding queue_inv_def by blast
  qed
qed

lemma send_requests_map:
  "send_requests newOnly v sends rs = (rs', out, ok) \<Longrightarrow> length rs' = length rs
    \<and> (\<forall>r'\<in>set rs'. \<exists>r\<in>set rs. r' = r \<or> (q_status r = ULR_NEW \<or> q_status r = ULR_PENDING) \<and> r' = r\<lparr>q_status := ULR_PENDING\<rparr>)"
proof (induction newOnly v sends rs arbitrary: rs' out ok rule: send_requests.induct)
  case (2 newOnly v sends r rs)
  show ?case
  proof (cases "q_status r \<noteq> ULR_NEW \<and> (newOnly \<or> q_status r \<noteq> ULR_PENDING)")
    case True
    then show ?thesis using 2 by (auto split: prod.splits)
  next
    case False
    then show ?thesis using "2.prems" "2.IH"(2) [OF False refl]
      by (auto simp: Let_def split: list.splits bool.splits prod.splits) blast+
  qed
qed simp

lemma queue_inv_send:
  assumes "queue_inv link" "uplink_sendRequests newOnly sends link = (link', out, ok)"
  shows "queue_inv link'"
proof -
  obtain q where q: "send_requests newOnly (up_version link) sends (queue link) = (q, out, ok)" "link' = link\<lparr>queue := q\<rparr>"
    using assms(2) by (auto simp: uplink_sendRequests_def split: prod.splits)
  have "req_ok r \<Longrightarrow> q_status r = ULR_NEW \<or> q_status r = ULR_PENDING \<Longrightarrow> req_ok (r\<lparr>q_status := ULR_PENDING\<rparr>)" for r
    by (auto simp: req_ok_def)
  then show ?thesis using send_requests_map [OF q(1)] assms(1) q(2) by (fastforce simp: queue_inv_def)
qed

lemma set_drop_free_map: "x \<in> set (drop_free free (map f xs)) \<Longrightarrow> \<exists>y\<in>set xs. x = f y"
  using set_drop_free_subset [of free "map f xs"] by auto

lemma queue_inv_remove: "queue_inv link \<Longrightarrow> queue_inv (uplink_removeClient c link)"
proof -
  assume inv: "queue_inv link"
  have "req_ok r \<Longrightarrow> req_ok (forget_client c r)" for r by (auto simp: req_ok_def forget_client_def)
  then show ?thesis
    using inv length_drop_free_le [of "\<lambda>r. q_client r = None" "map (forget_client c) (queue link)"]
    by (auto simp: queue_inv_def uplink_removeClient_def down_loop_eq dest!: set_drop_free_map)
qed

section \<open>No request waits for an answer that nobody asked for\<close>

text \<open>\<open>outs\<close> are the byte ranges requested from the upstream server on the current connection and not
  answered yet. A request that counts as sent has to be covered by one of them, or by a request that is still to be
  sent.\<close>

definition within :: "queued_request \<Rightarrow> nat \<times> nat \<Rightarrow> bool" where
  "within r b \<longleftrightarrow> fst b \<le> unat (q_from r) \<and> unat (q_to r) \<le> snd b"

definition inside :: "queued_request \<Rightarrow> queued_request \<Rightarrow> bool" where
  "inside r r' \<longleftrightarrow> q_from r' \<le> q_from r \<and> q_to r \<le> q_to r'"

definition covered :: "(nat \<times> nat) set \<Rightarrow> queued_request list \<Rightarrow> bool" where
  "covered outs q \<longleftrightarrow> (\<forall>r\<in>set q. q_status r = ULR_PENDING \<longrightarrow>
     (\<exists>b\<in>outs. within r b) \<or> (\<exists>r'\<in>set q. q_status r' = ULR_NEW \<and> inside r r'))"

lemma inside_within: "inside r r' \<Longrightarrow> within r' b \<Longrightarrow> within r b"
  by (auto simp: inside_def within_def word_le_nat_alt)

lemma inside_trans: "inside r r' \<Longrightarrow> inside r' r'' \<Longrightarrow> inside r r''"
  by (auto simp: inside_def)

lemma upstream_within: "req_ok r \<Longrightarrow> q_status r \<noteq> ULR_FREE \<Longrightarrow> within r (byte_range (upstream_request v hps r))"
  using upstream_request_covers(2,3) [of r] by (simp add: within_def req_ok_def)

lemma covered_request:
  assumes "queue_inv link" "covered outs (queue link)"
    and "uplink_request mp env c host h start len hps link = (ret, link', out)"
    and "unat mp \<le> 2 ^ 31" "unat start + unat len < 2 ^ 45"
  shows "covered (outs \<union> byte_range ` set out) (queue link')"
proof (cases ret)
  case False
  then show ?thesis using uplink_request_result [OF assms(3)] assms(2) by simp
next
  case True
  obtain req where req: "inserted (queue link) req (queue link')" "q_from req = start" "q_to req = start + ucast len"
    "new_request (up_version link) (queue link) req out" "len \<le> mp" "q_client req = Some c"
    using uplink_request_result [OF assms(3)] True by auto
  note ins = inserted_set [OF req(1)]
  have "req_ok req" using range_ok_add(1) [OF assms(5)] req(2-6) assms(4) by (auto simp: req_ok_def new_request_def word_le_nat_alt)
  show ?thesis
    unfolding covered_def
  proof (intro ballI impI)
    fix r assume r: "r \<in> set (queue link')" "q_status r = ULR_PENDING"
    have old: "(\<exists>b\<in>outs \<union> byte_range ` set out. within x b) \<or> (\<exists>r'\<in>set (queue link'). q_status r' = ULR_NEW \<and> inside x r')"
      if "r0 \<in> set (queue link)" "q_status r0 = ULR_PENDING" "inside x r0" for x r0
    proof -
      have "(\<exists>b\<in>outs. within r0 b) \<or> (\<exists>r1\<in>set (queue link). q_status r1 = ULR_NEW \<and> inside r0 r1)"
        using assms(2) that(1,2) by (simp add: covered_def)
      then consider b where "b \<in> outs" "within r0 b" | r1 where "r1 \<in> set (queue link)" "q_status r1 = ULR_NEW" "inside r0 r1"
        by auto
      then show ?thesis
      proof cases
        case 1
        then show ?thesis using inside_within [OF that(3)] by blast
      next
        case 2
        then show ?thesis using inside_trans [OF that(3)] ins(3) [of r1] by auto
      qed
    qed
    consider "r \<in> set (queue link)" | "r = req" using ins(2) [OF r(1)] by auto
    then show "(\<exists>b\<in>outs \<union> byte_range ` set out. within r b) \<or> (\<exists>r'\<in>set (queue link'). q_status r' = ULR_NEW \<and> inside r r')"
    proof cases
      case 1
      then show ?thesis using old [of r r] r(2) by (simp add: inside_def)
    next
      case 2
      then consider "out = [upstream_request (up_version link) (q_hopCount req) req]"
        | r0 where "r0 \<in> set (queue link)" "q_status r0 = ULR_PENDING \<or> q_status r0 = ULR_NEW" "inside req r0"
        using req(4) r(2) by (auto simp: inside_def new_request_def)
      then show ?thesis
      proof cases
        case 1
        then show ?thesis using upstream_within [OF \<open>req_ok req\<close>] r(2) \<open>r = req\<close> by auto
      next
        case (2 r0)
        then show ?thesis using old [of r0 req] ins(3) [of r0] \<open>r = req\<close> by (cases "q_status r0 = ULR_NEW") auto
      qed
    qed
  qed
qed
text \<open>\<open>uplink_sendRequests\<close> without a failed send: all requests that were new are covered by what went out, and
  nothing is new any more.\<close>

definition sent_as :: "bool \<Rightarrow> int \<Rightarrow> block_request list \<Rightarrow> queued_request \<Rightarrow> queued_request \<Rightarrow> bool" where
  "sent_as newOnly v out r r' \<longleftrightarrow> (if q_status r = ULR_NEW \<or> q_status r = ULR_PENDING \<and> \<not> newOnly
     then r' = r\<lparr>q_status := ULR_PENDING\<rparr> \<and> upstream_request v (q_hopCount r) r \<in> set out else r' = r)"

lemma send_requests_ok:
  "send_requests newOnly v sends rs = (rs', out, True) \<Longrightarrow>
    list_all2 (sent_as newOnly v out) rs rs'"
proof (induction newOnly v sends rs arbitrary: rs' out rule: send_requests.induct)
  case (2 newOnly v sends r rs)
  show ?case
  proof (cases "q_status r \<noteq> ULR_NEW \<and> (newOnly \<or> q_status r \<noteq> ULR_PENDING)")
    case True
    then show ?thesis using 2 by (auto simp: sent_as_def [of _ _ _ r] split: prod.splits)
  next
    case False
    then obtain sends' rs1 out1 where *: "sends = True # sends'" "send_requests newOnly v sends' rs = (rs1, out1, True)"
      "rs' = r\<lparr>q_status := ULR_PENDING\<rparr> # rs1" "out = upstream_request v (q_hopCount r) r # out1"
      using "2.prems" by (auto simp: Let_def split: list.splits bool.splits prod.splits)
    have a: "list_all2 (sent_as newOnly v out1) rs rs1"
      using "2.IH"(2) [OF False refl *(1) refl *(2)] .
    have b: "list_all2 (sent_as newOnly v out) rs rs1"
      by (rule list_all2_mono [OF a]) (auto simp: *(4) sent_as_def split: if_splits)
    show ?thesis using b False by (auto simp: *(3,4) sent_as_def [of _ _ _ r])
  qed
qed simp

text \<open>A slot before and after: the same request, only its status may change, and a used slot stays in use.\<close>

definition same_request :: "queued_request \<Rightarrow> queued_request \<Rightarrow> bool" where
  "same_request r r' \<longleftrightarrow> q_client r' = q_client r \<and> q_handle r' = q_handle r \<and> q_from r' = q_from r \<and> q_to r' = q_to r
     \<and> q_hopCount r' = q_hopCount r \<and> (q_status r' = ULR_FREE \<longleftrightarrow> q_status r = ULR_FREE)"

lemma send_requests_same: "send_requests newOnly v sends rs = (rs', out, ok) \<Longrightarrow> list_all2 same_request rs rs'"
proof (induction newOnly v sends rs arbitrary: rs' out ok rule: send_requests.induct)
  case (2 newOnly v sends r rs)
  have refl: "list_all2 same_request rs rs" by (rule list.rel_refl) (simp add: same_request_def)
  show ?case using 2 refl by (auto simp: same_request_def [of r] Let_def split: if_splits prod.splits list.splits bool.splits)
qed simp

lemma sendRequests_same: "uplink_sendRequests newOnly sends link = (link', out, ok) \<Longrightarrow> list_all2 same_request (queue link) (queue link')"
  by (auto simp: uplink_sendRequests_def dest: send_requests_same split: prod.splits)

lemma covered_send:
  assumes "queue_inv link" "newOnly \<longrightarrow> covered outs (queue link)"
    "uplink_sendRequests newOnly sends link = (link', out, True)"
  shows "\<forall>r\<in>set (queue link'). q_status r \<noteq> ULR_NEW \<and> (q_status r = ULR_PENDING \<longrightarrow>
     (\<exists>b\<in>(if newOnly then outs else {}) \<union> byte_range ` set out. within r b))"
proof
  let ?outs = "(if newOnly then outs else {}) \<union> byte_range ` set out"
  have q: "send_requests newOnly (up_version link) sends (queue link) = (queue link', out, True)"
    using assms(3) by (auto simp: uplink_sendRequests_def split: prod.splits)
  note l = send_requests_ok [OF q, unfolded list_all2_conv_all_nth sent_as_def]
  have sent: "\<exists>b\<in>?outs. within r b"
    if r: "r \<in> set (queue link)" "q_status r = ULR_NEW \<or> q_status r = ULR_PENDING \<and> \<not> newOnly" for r
  proof -
    obtain i where "i < length (queue link)" "queue link ! i = r" using r(1) by (auto simp: in_set_conv_nth)
    then have "upstream_request (up_version link) (q_hopCount r) r \<in> set out" using l r(2) by auto
    moreover have "within r (byte_range (upstream_request (up_version link) (q_hopCount r) r))"
      using upstream_within [of r] assms(1) r by (auto simp: queue_inv_def)
    ultimately show ?thesis by blast
  qed
  fix r' assume "r' \<in> set (queue link')"
  then obtain i where i: "i < length (queue link)" "queue link' ! i = r'" using l by (auto simp: in_set_conv_nth)
  let ?r = "queue link ! i"
  have r: "?r \<in> set (queue link)" using i(1) by simp
  show "q_status r' \<noteq> ULR_NEW \<and> (q_status r' = ULR_PENDING \<longrightarrow> (\<exists>b\<in>?outs. within r' b))"
  proof (cases "q_status ?r = ULR_NEW \<or> q_status ?r = ULR_PENDING \<and> \<not> newOnly")
    case True
    then have "r' = ?r\<lparr>q_status := ULR_PENDING\<rparr>" using l i by auto
    then show ?thesis using sent [OF r True] by (simp add: within_def)
  next
    case False
    then have e: "r' = ?r" using l i by auto
    show ?thesis
    proof (cases "q_status ?r = ULR_PENDING")
      case True
      then have nw: newOnly using False by simp
      have "(\<exists>b\<in>outs. within ?r b) \<or> (\<exists>r1\<in>set (queue link). q_status r1 = ULR_NEW \<and> inside ?r r1)"
        using assms(2) nw r True by (simp add: covered_def)
      then consider b where "b \<in> outs" "within ?r b" | r1 where "r1 \<in> set (queue link)" "q_status r1 = ULR_NEW" "inside ?r r1"
        by auto
      then have "\<exists>b\<in>?outs. within ?r b"
      proof cases
        case 1
        then show ?thesis using nw by auto
      next
        case 2
        then show ?thesis using sent [of r1] inside_within [OF 2(3)] by blast
      qed
      then show ?thesis using e True by simp
    next
      case False
      then show ?thesis using e \<open>\<not> (q_status ?r = ULR_NEW \<or> _)\<close> by simp
    qed
  qed
qed

lemma covered_mono: "covered outs q \<Longrightarrow> outs \<subseteq> outs' \<Longrightarrow> covered outs' q"
  unfolding covered_def by blast

text \<open>The unsent requests of a client, by range. When the client leaves they are never sent, so a request that was attached to one
  of them may not be covered any more.\<close>

definition unsent_ranges :: "nat \<Rightarrow> queued_request list \<Rightarrow> (nat \<times> nat) set" where
  "unsent_ranges c q = (\<lambda>r. (unat (q_from r), unat (q_to r))) ` {r \<in> set q. q_client r = Some c \<and> q_status r = ULR_NEW}"

lemma covered_remove:
  assumes "covered outs (queue link)" "queue_inv link"
  shows "covered (outs \<union> unsent_ranges c (queue link)) (queue (uplink_removeClient c link))"
  unfolding covered_def
proof (intro ballI impI)
  let ?q = "queue (uplink_removeClient c link)"
  have qeq: "?q = drop_free (\<lambda>r. q_client r = None) (map (forget_client c) (queue link))"
    by (simp add: uplink_removeClient_def down_loop_eq)
  fix r' assume r': "r' \<in> set ?q" "q_status r' = ULR_PENDING"
  then obtain r where r: "r \<in> set (queue link)" "r' = forget_client c r" using qeq by (auto dest!: set_drop_free_map)
  then have e: "r' = r" using r'(2) by (auto simp: forget_client_def split: if_splits)
  have keep: "r1 \<in> set ?q" if "r1 \<in> set (queue link)" "q_status r1 = ULR_NEW" "q_client r1 \<noteq> Some c" for r1
  proof -
    have "q_client r1 \<noteq> None" using assms(2) that by (auto simp: queue_inv_def req_ok_def)
    then show ?thesis unfolding qeq
      by (intro set_drop_free) (auto simp: forget_client_def image_iff intro!: bexI [of _ r1] that)
  qed
  have gone: "\<exists>b\<in>unsent_ranges c (queue link). within r b"
    if "r1 \<in> set (queue link)" "q_status r1 = ULR_NEW" "q_client r1 = Some c" "inside r r1" for r1
    using that by (intro bexI [of _ "(unat (q_from r1), unat (q_to r1))"]) (auto simp: within_def inside_def unsent_ranges_def word_le_nat_alt)
  have "(\<exists>b\<in>outs. within r b) \<or> (\<exists>r1\<in>set (queue link). q_status r1 = ULR_NEW \<and> inside r r1)"
    using assms(1) r(1) r'(2) e by (simp add: covered_def)
  then show "(\<exists>b\<in>outs \<union> unsent_ranges c (queue link). within r' b) \<or> (\<exists>r1\<in>set ?q. q_status r1 = ULR_NEW \<and> inside r' r1)"
    using keep gone e by blast
qed

section \<open>Handling a block reply\<close>

lemma store_bytes_Nil: "store_bytes off [] = (\<lambda>x. x)"
  by (intro ext) (auto simp: store_bytes_def)

lemma store_bytes_append:
  "store_bytes (off + length x) y (store_bytes off x file) = store_bytes off (x @ y) file"
  by (rule ext) (auto simp: store_bytes_def nth_append)

lemma cacheFd_same: "\<exists>fd. link = link\<lparr>cacheFd := fd\<rparr>"
  by (rule exI [of _ "cacheFd link"]) simp

lemma cache_write_result:
  "cache_write p s dn t evs link file = (dn', link', file') \<Longrightarrow> dn \<le> length p \<Longrightarrow>
    dn \<le> dn' \<and> dn' \<le> length p \<and> (\<exists>fd. link' = link\<lparr>cacheFd := fd\<rparr>)
    \<and> file' = store_bytes (s + dn) (take (dn' - dn) (drop dn p)) file"
proof (induction p s dn t evs link "file" rule: cache_write.induct)
  case (1 p s dn t link fl)
  then show ?case using store_bytes_Nil cacheFd_same by auto
next
  case (2 p s dn t ev evs link fl)
  note stop = cacheFd_same store_bytes_Nil
  show ?case
  proof (cases "dn < length p")
    case False
    then show ?thesis using "2.prems" stop by auto
  next
    case True
    show ?thesis
    proof (cases ev)
      case (Wrote n)
      show ?thesis
      proof (cases "n = 0 \<or> n > length p - dn")
        case True
        then show ?thesis using "2.prems" stop \<open>dn < length p\<close> Wrote by auto
      next
        case False
        have l: "length (take n (drop dn p)) = n" using False by auto
        have n: "dn + n \<le> length p" using False \<open>dn < length p\<close> by auto
        have ih: "dn + n \<le> dn' \<and> dn' \<le> length p \<and> (\<exists>fd. link' = link\<lparr>cacheFd := fd\<rparr>)
            \<and> file' = store_bytes (s + (dn + n)) (take (dn' - (dn + n)) (drop (dn + n) p))
                (store_bytes (s + dn) (take n (drop dn p)) fl)"
          using "2.IH"(1) [OF True Wrote False _ n] "2.prems" True Wrote False by simp
        have "store_bytes (s + (dn + n)) (take (dn' - (dn + n)) (drop (dn + n) p))
                (store_bytes (s + dn) (take n (drop dn p)) fl)
            = store_bytes (s + dn) (take n (drop dn p) @ take (dn' - (dn + n)) (drop (dn + n) p)) fl"
          using store_bytes_append [of "s + dn" "take n (drop dn p)"] l by (simp add: add.assoc)
        also have "take n (drop dn p) @ take (dn' - (dn + n)) (drop (dn + n) p) = take (dn' - dn) (drop dn p)"
          using ih take_add [of n "dn' - (dn + n)" "drop dn p"] by (simp add: add.commute)
        finally show ?thesis using ih by simp
      qed
    next
      case Write_intr
      then show ?thesis using "2.IH"(2) [OF True Write_intr] "2.prems" True by simp
    next
      case (No_space freed)
      then show ?thesis using "2.IH"(3) [OF True No_space] "2.prems" True stop by (auto split: if_splits)
    next
      case (Bad_fd opened)
      have o: "uplink_reopenCacheFd opened True link = (opened \<noteq> - 1, link\<lparr>cacheFd := opened\<rparr>)"
        by (simp add: uplink_reopenCacheFd_def)
      show ?thesis
      proof (cases "t \<and> opened \<noteq> - 1")
        case ok: True
        have "cache_write p s dn False evs (link\<lparr>cacheFd := opened\<rparr>) fl = (dn', link', file')"
          using "2.prems" True Bad_fd ok o by simp
        then show ?thesis using "2.IH"(4) [OF True Bad_fd _ o [symmetric]] ok "2.prems"(2) by auto
      next
        case False
        then show ?thesis using "2.prems" True Bad_fd o stop by (auto split: if_splits)
      qed
    next
      case Write_fail
      then show ?thesis using "2.prems" True stop by auto
    qed
  qed
qed


definition unserved :: "u64 \<Rightarrow> u8 list \<Rightarrow> queued_request list \<Rightarrow> queued_request list" where
  "unserved h p q = drop_free (\<lambda>r. q_status r = ULR_FREE)
     (map (\<lambda>r. serve_slot (mark_processing h (h + word_of_nat (length p)) r)) q)"

lemma serve_clients_result:
  assumes "\<forall>r\<in>set (queue link). req_ok r"
  obtains link' where "serve_clients h p link =
      Some (link', serve_all h p (map (mark_processing h (h + word_of_nat (length p))) (queue link)))"
    "queue link' = unserved h p (queue link)"
proof -
  have "\<not> list_ex assertion_fails (queue link)"
    using assms by (auto simp: req_ok_def list_ex_iff assertion_fails_def)
  then show thesis using that
    by (simp add: serve_clients_def Let_def unserved_def comp_def
        down_loop_eq [of _ _ "map _ (queue link)", unfolded length_map])
qed

lemma write_payload_result:
  assumes "unat h + length p \<le> unat (virtualFilesize img)" "image_wf img"
  obtains dn link' img' checks where "dn \<le> length p"
    "write_payload opened writes h p (link, img, file) = Some ((link', img', store_bytes (unat h) (take dn p) file), checks)"
    "queue link' = queue link" "image_wf img'" "virtualFilesize img' = virtualFilesize img"
    "cached_blocks img' = cached_blocks img \<union> affected_blocks h (h + word_of_nat dn) True"
    "unat (h + word_of_nat dn) = unat h + dn"
proof -
  let ?l = "snd (uplink_reopenCacheFd opened False link)"
  define w where "w = (if cacheFd ?l \<noteq> - 1 then cache_write p (unat h) 0 True writes ?l file else (0, ?l, file))"
  obtain dn l2 f2 where w: "w = (dn, l2, f2)" by (cases w)
  have q1: "queue ?l = queue link" by (simp add: uplink_reopenCacheFd_def)
  have res: "dn \<le> length p" "queue l2 = queue link" "f2 = store_bytes (unat h) (take dn p) file"
  proof (atomize (full), cases "cacheFd ?l \<noteq> - 1")
    case True
    then have "cache_write p (unat h) 0 True writes ?l file = (dn, l2, f2)" using w w_def by simp
    from cache_write_result [OF this] show "dn \<le> length p \<and> queue l2 = queue link \<and> f2 = store_bytes (unat h) (take dn p) file"
      using q1 by auto
  next
    case False
    then show "dn \<le> length p \<and> queue l2 = queue link \<and> f2 = store_bytes (unat h) (take dn p) file"
      using w w_def q1 by (auto simp: store_bytes_Nil)
  qed
  have small: "unat h + dn < 2 ^ 45" using assms res(1) by (auto simp: image_wf_def)
  have d: "unat (word_of_nat dn :: u64) = dn" using small by (simp add: unat_of_nat)
  have e: "unat (h + word_of_nat dn) = unat h + dn" using small d by (subst unat_add_no_wrap) auto
  have wp: "write_payload opened writes h p (link, img, file) = (if dn > 0
         then (case image_updateCachemap img h (h + word_of_nat dn) True of
                 None \<Rightarrow> None | Some (img, checks) \<Rightarrow> Some ((l2, img, f2), checks))
         else Some ((l2, img, f2), []))"
    using w unfolding w_def by (simp only: write_payload_def prod.case Let_def)
  show thesis
  proof (cases "dn > 0")
    case True
    have "h \<le> h + word_of_nat dn" "h + word_of_nat dn \<le> virtualFilesize img"
      using e assms(1) res(1) by (auto simp: word_le_nat_alt)
    from updateCachemap_refines [OF assms(2) this, of True] obtain img' checks where
      u: "image_updateCachemap img h (h + word_of_nat dn) True = Some (img', checks)" "image_wf img'"
        "img' = img\<lparr>cache_map := cache_map img'\<rparr>"
        "cached_blocks img' = cached_blocks img \<union> affected_blocks h (h + word_of_nat dn) True" by auto
    have "virtualFilesize img' = virtualFilesize img" by (subst u(3)) simp
    then show thesis using wp u True res e by (intro that [of dn l2 img' checks]) auto
  next
    case False
    then have "affected_blocks h (h + word_of_nat dn) True = {}" by (auto simp: affected_blocks_def)
    then show thesis using wp False res e assms(2) by (intro that [of dn l2 img "[]"]) auto
  qed
qed


lemma write_payload_keeps:
  assumes "write_payload opened writes h p (link, img, file) = Some ((link', img', file'), checks)" "image_wf img"
  shows "queue link' = queue link" "image_wf img'" "virtualFilesize img' = virtualFilesize img"
proof -
  let ?l = "snd (uplink_reopenCacheFd opened False link)"
  define w where "w = (if cacheFd ?l \<noteq> - 1 then cache_write p (unat h) 0 True writes ?l file else (0, ?l, file))"
  obtain dn l2 f2 where w: "w = (dn, l2, f2)" by (cases w)
  have q: "queue l2 = queue link"
    using w cache_write_result [of p "unat h" 0 True writes ?l "file" dn l2 f2] unfolding w_def
    by (auto simp: uplink_reopenCacheFd_def split: if_splits)
  have wp: "(if dn > 0 then (case image_updateCachemap img h (h + word_of_nat dn) True of
                 None \<Rightarrow> None | Some (img, checks) \<Rightarrow> Some ((l2, img, f2), checks))
             else Some ((l2, img, f2), [])) = Some ((link', img', file'), checks)"
    using w assms(1) unfolding w_def by (simp only: write_payload_def prod.case Let_def)
  have "image_wf img' \<and> virtualFilesize img' = virtualFilesize img" if u: "image_updateCachemap img h (h + word_of_nat dn) True = Some (img', c)" for c
  proof -
    have "h \<le> h + word_of_nat dn" "h + word_of_nat dn \<le> virtualFilesize img"
      using u by (auto simp: image_updateCachemap_def split: if_splits)
    from updateCachemap_refines [OF assms(2) this, of True] u have i: "image_wf img'" "img' = img\<lparr>cache_map := cache_map img'\<rparr>" by auto
    have "virtualFilesize img' = virtualFilesize img" by (subst i(2)) simp
    then show ?thesis using i(1) by simp
  qed
  then show "queue link' = queue link" "image_wf img'" "virtualFilesize img' = virtualFilesize img"
    using wp q assms(2) by (auto split: if_splits option.splits)
qed

text \<open>\<open>coherent\<close>: what the map calls cached is what the upstream server has.\<close>

definition coherent :: "(nat \<Rightarrow> u8) \<Rightarrow> dnbd3_image \<Rightarrow> (nat \<Rightarrow> u8) \<Rightarrow> bool" where
  "coherent content img file \<longleftrightarrow> (\<forall>k\<in>cached_blocks img. \<forall>i. 4096 * k \<le> i \<and> i < 4096 * k + 4096 \<longrightarrow> file i = content i)"

definition slice_of :: "(nat \<Rightarrow> u8) \<Rightarrow> nat \<Rightarrow> u8 list \<Rightarrow> bool" where
  "slice_of content off d \<longleftrightarrow> (\<forall>i<length d. d ! i = content (off + i))"

lemma store_slice:
  assumes "slice_of content off d" "file i = content i \<or> off \<le> i \<and> i < off + length d"
  shows "store_bytes off d file i = content i"
  using assms by (auto simp: store_bytes_def slice_of_def)

lemma coherent_write:
  assumes "coherent content img file" "slice_of content (unat h) p" "dn \<le> length p" "unat (h + word_of_nat dn) = unat h + dn"
    and "cached_blocks img' = cached_blocks img \<union> affected_blocks h (h + word_of_nat dn) True"
  shows "coherent content img' (store_bytes (unat h) (take dn p) file)"
  unfolding coherent_def
proof (intro ballI allI impI)
  fix k i assume k: "k \<in> cached_blocks img'" and i: "4096 * k \<le> i \<and> i < 4096 * k + 4096"
  have "slice_of content (unat h) (take dn p)" using assms(2) by (simp add: slice_of_def)
  moreover have "file i = content i \<or> unat h \<le> i \<and> i < unat h + length (take dn p)"
  proof (cases "k \<in> cached_blocks img")
    case True
    then show ?thesis using assms(1) i by (auto simp: coherent_def)
  next
    case False
    then have "k \<in> affected_blocks h (h + word_of_nat dn) True" using k assms(5) by blast
    then show ?thesis using i assms(3,4) by (auto simp: affected_blocks_def)
  qed
  ultimately show "store_bytes (unat h) (take dn p) file i = content i" by (rule store_slice)
qed

lemma unserved_member:
  assumes "r' \<in> set (unserved h p q)" "\<forall>r\<in>set q. req_ok r"
  shows "req_ok r'" "q_status r' \<noteq> ULR_FREE \<Longrightarrow> r' \<in> set q \<and> \<not> (h \<le> q_from r' \<and> q_to r' \<le> h + word_of_nat (length p))"
proof -
  obtain r where r: "r \<in> set q" "r' = serve_slot (mark_processing h (h + word_of_nat (length p)) r)"
    using set_drop_free_map assms(1) unfolding unserved_def by fastforce
  have ok: "req_ok r" using r(1) assms(2) by blast
  show "req_ok r'" using ok r(2) by (auto simp: req_ok_def serve_slot_def mark_processing_def)
  show "q_status r' \<noteq> ULR_FREE \<Longrightarrow> r' \<in> set q \<and> \<not> (h \<le> q_from r' \<and> q_to r' \<le> h + word_of_nat (length p))"
    using r ok by (cases "q_status r") (auto simp: req_ok_def serve_slot_def mark_processing_def split: if_splits)
qed

lemma unserved_kept:
  assumes "r \<in> set q" "q_status r \<noteq> ULR_FREE" "q_status r \<noteq> ULR_PROCESSING"
    "\<not> (h \<le> q_from r \<and> q_to r \<le> h + word_of_nat (length p))"
  shows "r \<in> set (unserved h p q)"
proof -
  have "serve_slot (mark_processing h (h + word_of_nat (length p)) r) = r"
    using assms(3,4) by (auto simp: serve_slot_def mark_processing_def)
  then have "r \<in> set (map (\<lambda>r. serve_slot (mark_processing h (h + word_of_nat (length p)) r)) q)"
    using assms(1) by (auto simp: image_iff intro!: bexI [of _ r])
  then show ?thesis unfolding unserved_def using assms(2) by (intro set_drop_free)
qed

lemma covered_unserved:
  assumes "covered outs q" "\<forall>r\<in>set q. req_ok r" "unat (h + word_of_nat (length p)) = unat h + length p"
  shows "covered (outs - {(unat h, unat h + length p)}) (unserved h p q)"
  unfolding covered_def
proof (intro ballI impI)
  let ?b = "(unat h, unat h + length p)"
  have w: "within r ?b \<longleftrightarrow> h \<le> q_from r \<and> q_to r \<le> h + word_of_nat (length p)" for r
    using assms(3) by (simp add: within_def word_le_nat_alt)
  fix r assume r: "r \<in> set (unserved h p q)" "q_status r = ULR_PENDING"
  then have old: "r \<in> set q" "\<not> within r ?b" using unserved_member(2) [OF r(1) assms(2)] w by auto
  then have "(\<exists>b\<in>outs. within r b) \<or> (\<exists>r'\<in>set q. q_status r' = ULR_NEW \<and> inside r r')"
    using assms(1) r(2) by (simp add: covered_def)
  then consider b where "b \<in> outs" "within r b" | r1 where "r1 \<in> set q" "q_status r1 = ULR_NEW" "inside r r1" by auto
  then show "(\<exists>b\<in>outs - {?b}. within r b) \<or> (\<exists>r'\<in>set (unserved h p q). q_status r' = ULR_NEW \<and> inside r r')"
  proof cases
    case 1
    then show ?thesis using old(2) by blast
  next
    case 2
    then have "\<not> within r1 ?b" using inside_within old(2) by blast
    then have "r1 \<in> set (unserved h p q)" using 2 w by (intro unserved_kept) auto
    then show ?thesis using 2 by blast
  qed
qed

text \<open>The replies to the clients. \<open>reply_to\<close>: the answer that a request asks for.\<close>

definition reply_to :: "(nat \<Rightarrow> u8) \<Rightarrow> queued_request \<Rightarrow> client_reply \<Rightarrow> bool" where
  "reply_to content r rep = (case rep of (c, hdl, sz, d) \<Rightarrow> q_client r = Some c \<and> hdl = q_handle r
     \<and> unat sz = unat (q_to r) - unat (q_from r) \<and> length d = unat sz \<and> slice_of content (unat (q_from r)) d)"

definition answered :: "u64 \<Rightarrow> u8 list \<Rightarrow> queued_request \<Rightarrow> bool" where
  "answered h p r \<longleftrightarrow> q_status r \<noteq> ULR_FREE \<and> within r (unat h, unat h + length p)"

lemma serve_one_correct:
  assumes "req_ok r" "answered h p r" "slice_of content (unat h) p" "h \<le> q_from r"
  shows "reply_to content r (serve_one h p r)"
proof -
  have ro: "range_ok (q_from r) (q_to r)" "q_client r \<noteq> None" using assms(1,2) by (auto simp: req_ok_def answered_def)
  have w: "unat h \<le> unat (q_from r)" "unat (q_to r) \<le> unat h + length p" using assms(2) by (auto simp: answered_def within_def)
  have "unat (q_to r - q_from r) = unat (q_to r) - unat (q_from r)"
    using ro(1) by (intro unat_sub) (simp add: range_ok_def word_le_nat_alt)
  then have sz: "unat (ucast (q_to r - q_from r) :: u32) = unat (q_to r) - unat (q_from r)"
    using ro(1) by (simp add: unsigned_ucast_eq take_bit_nat_eq_self range_ok_def)
  have off: "unat (q_from r - h) = unat (q_from r) - unat h" using assms(4) by (intro unat_sub)
  have le: "unat (q_from r) \<le> unat (q_to r)" using ro(1) by (simp add: range_ok_def)
  have "length (take (unat (q_to r) - unat (q_from r)) (drop (unat (q_from r) - unat h) p)) = unat (q_to r) - unat (q_from r)"
    using w le by simp
  moreover have "slice_of content (unat (q_from r)) (take (unat (q_to r) - unat (q_from r)) (drop (unat (q_from r) - unat h) p))"
    using assms(3) w le by (auto simp: slice_of_def)
  ultimately show ?thesis using ro(2) by (auto simp: reply_to_def serve_one_def Let_def sz off)
qed

lemma serve_all_answered:
  assumes "\<forall>r\<in>set q. req_ok r" "unat (h + word_of_nat (length p)) = unat h + length p"
  shows "serve_all h p (map (mark_processing h (h + word_of_nat (length p))) q) = map (serve_one h p) (filter (answered h p) (rev q))"
proof -
  let ?m = "mark_processing h (h + word_of_nat (length p))"
  have a: "q_status (?m r) = ULR_PROCESSING \<longleftrightarrow> answered h p r" if "r \<in> set q" for r
    using assms that by (cases "q_status r") (auto simp: mark_processing_def answered_def within_def word_le_nat_alt req_ok_def)
  have "serve_one h p (?m r) = serve_one h p r" for r by (simp add: serve_one_def mark_processing_def)
  moreover have "filter (\<lambda>r. q_status r = ULR_PROCESSING) (rev (map ?m q)) = map ?m (filter (answered h p) (rev q))"
    unfolding rev_map filter_map comp_def using a by (intro arg_cong [where f = "map ?m"] filter_cong) auto
  ultimately show ?thesis by (simp add: serve_all_def)
qed


lemma answered_iff:
  assumes "unat (h + word_of_nat (length p)) = unat h + length p"
  shows "answered h p r \<longleftrightarrow> q_status r \<noteq> ULR_FREE \<and> h \<le> q_from r \<and> q_to r \<le> h + word_of_nat (length p)"
  by (auto simp: answered_def within_def word_le_nat_alt assms)

text \<open>The requests that stay are those that the reply does not cover, and each covered one is answered.\<close>

lemma unserved_set:
  assumes "\<forall>r\<in>set q. req_ok r" "unat (h + word_of_nat (length p)) = unat h + length p"
  shows "{r \<in> set (unserved h p q). q_status r \<noteq> ULR_FREE} = {r \<in> set q. q_status r \<noteq> ULR_FREE \<and> \<not> answered h p r}"
proof (intro set_eqI iffI CollectI conjI; elim CollectE conjE)
  fix r assume *: "r \<in> set (unserved h p q)" "q_status r \<noteq> ULR_FREE"
  note m = unserved_member(2) [OF *(1) assms(1) *(2)]
  show "r \<in> set q" "\<not> answered h p r" "q_status r \<noteq> ULR_FREE" using m answered_iff [OF assms(2)] * by auto
next
  fix r assume *: "r \<in> set q" "q_status r \<noteq> ULR_FREE" "\<not> answered h p r"
  then show "r \<in> set (unserved h p q)" "q_status r \<noteq> ULR_FREE"
    using assms(1) answered_iff [OF assms(2)] by (auto simp: req_ok_def intro!: unserved_kept)
qed

lemma served_replies:
  assumes "\<forall>r\<in>set q. req_ok r" "unat (h + word_of_nat (length p)) = unat h + length p" "slice_of content (unat h) p"
  shows "list_all2 (reply_to content) (filter (answered h p) (rev q)) (map (serve_one h p) (filter (answered h p) (rev q)))"
  unfolding list_all2_map2
proof (rule list.rel_refl_strong)
  fix r assume "r \<in> set (filter (answered h p) (rev q))"
  then show "reply_to content r (serve_one h p r)" using assms answered_iff [OF assms(2), of r] by (intro serve_one_correct) auto
qed

section \<open>The uplink as a state machine\<close>

text \<open>A state is the uplink, the image, the image file, the ranges requested and not answered, and the connection: \<open>None\<close>
  when it is not usable, \<open>Some gone\<close> when it is, where \<open>gone\<close> collects the ranges of the requests that left with their client
  before they were sent, since the connection was set up. The steps are the operations above, in any order: clients queue
  requests and leave at any time, the uplink thread sends, asks for blocks of its own accord (replication), loses the connection,
  connects again (and asks for everything that is not answered), and handles the reply to an outstanding request. The fields of the
  uplink besides its queue and connection (the result of a measurement, the replication, its buffer) change at any time.
  Requests lie inside the image (\<open>net_connectionProcess\<close> checks that).\<close>

type_synonym uplink_state = "dnbd3_connection \<times> dnbd3_image \<times> (nat \<Rightarrow> u8) \<times> (nat \<times> nat) set \<times> (nat \<times> nat) set option"

inductive uplink_step :: "(nat \<Rightarrow> u8) \<Rightarrow> uplink_state \<Rightarrow> uplink_state \<Rightarrow> bool" for content where
  step_request: "uplink_request mp env c host h start len hps link = (ret, link', out) \<Longrightarrow> unat mp \<le> 2 ^ 31 \<Longrightarrow>
    unat start + unat len \<le> unat (virtualFilesize img) \<Longrightarrow>
    uplink_step content (link, img, file, outs, conn) (link', img, file, outs \<union> byte_range ` set out, conn)"
| step_send: "uplink_sendRequests True sends link = (link', out, ok) \<Longrightarrow>
    uplink_step content (link, img, file, outs, conn) (link', img, file, outs \<union> byte_range ` set out, if ok then conn else None)"
| step_replicate: "a \<le> b \<Longrightarrow> b \<le> unat (virtualFilesize img) \<Longrightarrow>
    uplink_step content (link, img, file, outs, conn) (link, img, file, insert (a, b) outs, conn)"
| step_lost: "uplink_step content (link, img, file, outs, conn) (link\<lparr>up_fd := - 1\<rparr>, img, file, {}, None)"
| step_reconnect: "uplink_sendRequests False sends (link\<lparr>up_fd := fd, up_version := v\<rparr>) = (link', out, ok) \<Longrightarrow>
    uplink_step content (link, img, file, outs, conn) (link', img, file, byte_range ` set out, if ok then Some {} else None)"
| step_fields: "queue link' = queue link \<Longrightarrow> up_fd link' = up_fd link \<Longrightarrow> up_version link' = up_version link \<Longrightarrow>
    uplink_step content (link, img, file, outs, conn) (link', img, file, outs, conn)"
| step_remove: "uplink_step content (link, img, file, outs, conn)
    (uplink_removeClient c link, img, file, outs, map_option (\<lambda>gone. gone \<union> unsent_ranges c (queue link)) conn)"
| step_receive: "(unat h, unat h + length p) \<in> outs \<Longrightarrow> slice_of content (unat h) p \<Longrightarrow>
    receive_block opened writes h p (link, img, file) = Some ((link', img', file'), replies, checks) \<Longrightarrow>
    uplink_step content (link, img, file, outs, conn) (link', img', file', outs - {(unat h, unat h + length p)}, conn)"

inductive uplink_reachable :: "(nat \<Rightarrow> u8) \<Rightarrow> uplink_state \<Rightarrow> bool" for content where
  start: "queue link = [] \<Longrightarrow> image_wf img \<Longrightarrow> coherent content img file \<Longrightarrow>
    uplink_reachable content (link, img, file, {}, None)"
| step: "uplink_reachable content s \<Longrightarrow> uplink_step content s s' \<Longrightarrow> uplink_reachable content s'"

text \<open>Requests and outstanding ranges lie inside the image.\<close>

definition in_image :: "dnbd3_image \<Rightarrow> queued_request list \<Rightarrow> bool" where
  "in_image img q \<longleftrightarrow> (\<forall>r\<in>set q. q_status r \<noteq> ULR_FREE \<longrightarrow> unat (q_to r) \<le> unat (virtualFilesize img))"

definition outs_ok :: "dnbd3_image \<Rightarrow> (nat \<times> nat) set \<Rightarrow> bool" where
  "outs_ok img outs \<longleftrightarrow> (\<forall>b\<in>outs. snd b \<le> unat (virtualFilesize img))"

lemma upstream_in_image:
  assumes "req_ok r" "q_status r \<noteq> ULR_FREE" "unat (q_to r) \<le> unat (virtualFilesize img)" "image_wf img"
  shows "snd (byte_range (upstream_request v hps r)) \<le> unat (virtualFilesize img)"
proof -
  obtain n where n: "unat (virtualFilesize img) = 4096 * n" using assms(4) by (auto simp: image_wf_def dvd_def)
  have "snd (byte_range (upstream_request v hps r)) = (unat (q_to r) + 4095) div 4096 * 4096"
    using upstream_request_covers(1) [of r v hps] assms(1,2) by (simp add: req_ok_def)
  then show ?thesis using assms(3) n by simp
qed

lemma send_requests_out:
  "send_requests newOnly v sends rs = (rs', out, ok) \<Longrightarrow> b \<in> set out \<Longrightarrow>
    \<exists>r\<in>set rs. q_status r \<noteq> ULR_FREE \<and> b = upstream_request v (q_hopCount r) r"
proof (induction newOnly v sends rs arbitrary: rs' out ok rule: send_requests.induct)
  case (2 newOnly v sends r rs)
  show ?case
  proof (cases "q_status r \<noteq> ULR_NEW \<and> (newOnly \<or> q_status r \<noteq> ULR_PENDING)")
    case True
    then show ?thesis using 2 by (auto split: prod.splits)
  next
    case False
    then have nf: "q_status r \<noteq> ULR_FREE" by auto
    show ?thesis
    proof (cases "\<exists>sends'. sends = True # sends'")
      case True
      then obtain sends' rs1 out1 where *: "sends = True # sends'" "send_requests newOnly v sends' rs = (rs1, out1, ok)"
        "out = upstream_request v (q_hopCount r) r # out1"
        using False "2.prems"(1) by (auto simp: Let_def split: prod.splits)
      show ?thesis using "2.IH"(2) [OF False refl *(1) refl *(2)] "2.prems"(2) *(3) nf by auto
    next
      case nosend: False
      then have "out = []" using "2.prems"(1) False by (auto simp: Let_def split: list.splits bool.splits)
      then show ?thesis using "2.prems"(2) by simp
    qed
  qed
qed simp


definition uplink_inv :: "(nat \<Rightarrow> u8) \<Rightarrow> uplink_state \<Rightarrow> bool" where
  "uplink_inv content s \<longleftrightarrow> (case s of (link, img, file, outs, conn) \<Rightarrow>
     queue_inv link \<and> image_wf img \<and> coherent content img file \<and> in_image img (queue link) \<and> outs_ok img outs
     \<and> (\<forall>gone. conn = Some gone \<longrightarrow> covered (outs \<union> gone) (queue link)))"

lemma inv_request:
  assumes "uplink_inv content (link, img, file, outs, conn)" "unat mp \<le> 2 ^ 31"
    "uplink_request mp env c host h start len hps link = (ret, link', out)"
    "unat start + unat len \<le> unat (virtualFilesize img)"
  shows "uplink_inv content (link', img, file, outs \<union> byte_range ` set out, conn)"
proof -
  have inv: "queue_inv link" "image_wf img" "in_image img (queue link)" "outs_ok img outs" "\<And>gone. conn = Some gone \<Longrightarrow> covered (outs \<union> gone) (queue link)"
    "coherent content img file" using assms(1) by (auto simp: uplink_inv_def)
  have small: "unat start + unat len < 2 ^ 45" using assms(4) inv(2) by (simp add: image_wf_def)
  have "in_image img (queue link') \<and> outs_ok img (outs \<union> byte_range ` set out)"
  proof (cases ret)
    case False
    then show ?thesis using uplink_request_result [OF assms(3)] inv by simp
  next
    case True
    then obtain req where req: "inserted (queue link) req (queue link')" "new_request (up_version link) (queue link) req out"
      "q_from req = start" "q_to req = start + ucast len" "len \<le> mp" "q_client req = Some c"
      using uplink_request_result [OF assms(3)] by auto
    have len: "unat len \<le> 2 ^ 31" using req(5) assms(2) by (simp add: word_le_nat_alt)
    have to: "unat (q_to req) \<le> unat (virtualFilesize img)" using range_ok_add(2) [OF small len] req(4) assms(4) by simp
    have ok: "req_ok req" "q_status req \<noteq> ULR_FREE"
      using range_ok_add(1) [OF small len] req(2-4,6) by (auto simp: req_ok_def new_request_def)
    have "in_image img (queue link')" using inserted_set(2) [OF req(1)] to inv(3) by (auto simp: in_image_def)
    moreover have "out = [] \<or> out = [upstream_request (up_version link) (q_hopCount req) req]"
      using req(2) by (auto simp: new_request_def)
    then have "outs_ok img (outs \<union> byte_range ` set out)"
      using upstream_in_image [OF ok to inv(2)] inv(4) by (auto simp: outs_ok_def)
    ultimately show ?thesis by simp
  qed
  moreover have "queue_inv link'" using queue_inv_request [OF inv(1) assms(3,2) small] .
  moreover have "covered (outs \<union> byte_range ` set out \<union> gone) (queue link')" if "conn = Some gone" for gone
    using covered_request [OF inv(1) inv(5) [OF that] assms(3,2) small] by (simp add: Un_ac)
  ultimately show ?thesis using inv(2,6) by (simp add: uplink_inv_def)
qed

lemma inv_send:
  assumes "queue_inv link" "image_wf img" "in_image img (queue link)" "outs_ok img outs" "\<And>gone. newOnly \<Longrightarrow> conn = Some gone \<Longrightarrow> covered (outs \<union> gone) (queue link)"
    "coherent content img file" "uplink_sendRequests newOnly sends link = (link', out, ok)" "\<not> newOnly \<longrightarrow> outs = {}"
  shows "uplink_inv content (link', img, file, outs \<union> byte_range ` set out, if ok then if newOnly then conn else Some {} else None)"
proof -
  have q: "send_requests newOnly (up_version link) sends (queue link) = (queue link', out, ok)"
    using assms(7) by (auto simp: uplink_sendRequests_def split: prod.splits)
  have "in_image img (queue link')"
    unfolding in_image_def
  proof (intro ballI impI)
    fix r assume "r \<in> set (queue link')" "q_status r \<noteq> ULR_FREE"
    then obtain r0 where "r0 \<in> set (queue link)" "q_status r0 \<noteq> ULR_FREE" "q_to r = q_to r0"
      using send_requests_map [OF q] by auto
    then show "unat (q_to r) \<le> unat (virtualFilesize img)" using assms(3) by (auto simp: in_image_def)
  qed
  moreover have "snd (byte_range b) \<le> unat (virtualFilesize img)" if b: "b \<in> set out" for b
  proof -
    obtain r where "r \<in> set (queue link)" "q_status r \<noteq> ULR_FREE" "b = upstream_request (up_version link) (q_hopCount r) r"
      using send_requests_out [OF q b] by auto
    then show ?thesis using upstream_in_image [of r img] assms(1-3) by (auto simp: in_image_def queue_inv_def)
  qed
  then have "outs_ok img (outs \<union> byte_range ` set out)" using assms(4) by (auto simp: outs_ok_def)
  moreover have "covered (outs \<union> byte_range ` set out \<union> gone) (queue link')"
    if al: "(if ok then if newOnly then conn else Some {} else None) = Some gone" for gone
  proof -
    have "newOnly \<longrightarrow> covered (outs \<union> gone) (queue link)" "uplink_sendRequests newOnly sends link = (link', out, True)"
      using al assms(5,7) by (auto split: if_splits)
    from covered_send [OF assms(1) this]
    have "covered ((if newOnly then outs \<union> gone else {}) \<union> byte_range ` set out) (queue link')" by (simp add: covered_def)
    then show ?thesis by (rule covered_mono) auto
  qed
  ultimately show ?thesis using queue_inv_send [OF assms(1,7)] assms(2,6) by (simp add: uplink_inv_def)
qed

lemma inv_remove:
  assumes "uplink_inv content (link, img, file, outs, conn)"
  shows "uplink_inv content (uplink_removeClient c link, img, file, outs, map_option (\<lambda>gone. gone \<union> unsent_ranges c (queue link)) conn)"
proof -
  have inv: "queue_inv link" "in_image img (queue link)" "\<And>gone. conn = Some gone \<Longrightarrow> covered (outs \<union> gone) (queue link)"
    using assms by (auto simp: uplink_inv_def)
  have "q_status (forget_client c r) \<noteq> ULR_FREE \<Longrightarrow> forget_client c r = r" for r
    by (simp add: forget_client_def split: if_splits)
  then have "in_image img (queue (uplink_removeClient c link))"
    using inv(2) by (fastforce simp: in_image_def uplink_removeClient_def down_loop_eq dest!: set_drop_free_map)
  moreover have "covered (outs \<union> (gone \<union> unsent_ranges c (queue link))) (queue (uplink_removeClient c link))"
    if "conn = Some gone" for gone
    using covered_remove [OF inv(3) [OF that] inv(1), of c] by (simp add: Un_ac)
  ultimately show ?thesis using assms queue_inv_remove [OF inv(1)] by (auto simp: uplink_inv_def)
qed

text \<open>One block reply, whatever the upstream server sends: the queue and the image stay well-formed, and the assertion on the range
  of the reply in \<open>image_updateCachemap\<close> is the only one that can fail, for a reply that ends behind the image.\<close>

lemma receive_block_robust:
  assumes "queue_inv link" "image_wf img" "in_image img (queue link)"
  obtains (aborts) "receive_block opened writes h p (link, img, fl) = None" "unat (virtualFilesize img) < unat h + length p"
  | (handled) link' img' file' rs checks where "receive_block opened writes h p (link, img, fl) = Some ((link', img', file'), rs, checks)"
      "queue_inv link'" "image_wf img'" "in_image img' (queue link')" "virtualFilesize img' = virtualFilesize img"
      "queue link' = unserved h p (queue link)" "rs = serve_all h p (map (mark_processing h (h + word_of_nat (length p))) (queue link))"
proof -
  have ok: "\<forall>r\<in>set (queue link). req_ok r" using assms(1) by (simp add: queue_inv_def)
  let ?l = "link\<lparr>bytesReceived := bytesReceived link + word_of_nat (length p)\<rparr>"
  have served: "case serve_clients h p l1 of None \<Rightarrow> False | Some (link', rs) \<Rightarrow> queue_inv link' \<and> in_image img' (queue link')
      \<and> queue link' = unserved h p (queue link) \<and> rs = serve_all h p (map (mark_processing h (h + word_of_nat (length p))) (queue link))"
    if l1: "queue l1 = queue link" and v: "virtualFilesize img' = virtualFilesize img" for l1 img'
  proof -
    obtain link' where s: "serve_clients h p l1 =
        Some (link', serve_all h p (map (mark_processing h (h + word_of_nat (length p))) (queue link)))"
      "queue link' = unserved h p (queue link)"
      by (rule serve_clients_result [of l1 h p, unfolded l1, OF ok])
    have "length (unserved h p (queue link)) \<le> length (queue link)"
      using length_drop_free_le [of _ "map _ (queue link)"] by (simp add: unserved_def)
    then have "queue_inv link'" using assms(1) s(2) unserved_member(1) [OF _ ok] by (auto simp: queue_inv_def)
    moreover have "in_image img' (queue link')"
      using unserved_member(2) [of _ h p, OF _ ok] s(2) assms(3) v by (auto simp: in_image_def)
    ultimately show ?thesis using s by simp
  qed
  show thesis
  proof (cases "write_payload opened writes h p (?l, img, fl)")
    case None
    have "\<not> unat h + length p \<le> unat (virtualFilesize img)"
    proof
      assume fits: "unat h + length p \<le> unat (virtualFilesize img)"
      show False by (rule write_payload_result [OF fits assms(2), of opened writes ?l fl]) (simp add: None)
    qed
    then show thesis using None aborts by (simp add: receive_block_def)
  next
    case (Some w)
    obtain l1 img1 file1 checks where w: "w = ((l1, img1, file1), checks)" by (cases w) auto
    note k = write_payload_keeps [OF Some [unfolded w] assms(2)]
    show thesis using served [of l1 img1] k Some w handled by (auto simp: receive_block_def split: option.splits)
  qed
qed

lemma receive_result:
  assumes "uplink_inv content (link, img, file, outs, conn)" "(unat h, unat h + length p) \<in> outs" "slice_of content (unat h) p"
  obtains link' img' file' checks where
    "receive_block opened writes h p (link, img, file) =
       Some ((link', img', file'), map (serve_one h p) (filter (answered h p) (rev (queue link))), checks)"
    "uplink_inv content (link', img', file', outs - {(unat h, unat h + length p)}, conn)"
    "queue link' = unserved h p (queue link)"
proof -
  have inv: "queue_inv link" "image_wf img" "in_image img (queue link)" "outs_ok img outs"
    "\<And>gone. conn = Some gone \<Longrightarrow> covered (outs \<union> gone) (queue link)"
    "coherent content img file" using assms(1) by (auto simp: uplink_inv_def)
  let ?b = "(unat h, unat h + length p)"
  let ?l = "link\<lparr>bytesReceived := bytesReceived link + word_of_nat (length p)\<rparr>"
  have ok: "\<forall>r\<in>set (queue link). req_ok r" using inv(1) by (simp add: queue_inv_def)
  have fits: "unat h + length p \<le> unat (virtualFilesize img)" using inv(4) assms(2) by (auto simp: outs_ok_def)
  then have lp: "unat (word_of_nat (length p) :: u64) = length p" using inv(2) by (simp add: unat_of_nat image_wf_def)
  have e: "unat (h + word_of_nat (length p)) = unat h + length p"
    using fits lp inv(2) by (subst unat_add_no_wrap) (auto simp: image_wf_def)
  obtain link' img' file' rs checks where r: "receive_block opened writes h p (link, img, file) = Some ((link', img', file'), rs, checks)"
    "queue_inv link'" "image_wf img'" "in_image img' (queue link')" "virtualFilesize img' = virtualFilesize img"
    "queue link' = unserved h p (queue link)" "rs = map (serve_one h p) (filter (answered h p) (rev (queue link)))"
    using inv(1-3)
  proof (cases rule: receive_block_robust [where opened = opened and writes = writes and h = h and p = p and fl = "file"])
    case aborts
    then show thesis using fits by simp
  next
    case (handled l i f rs c)
    then show thesis using that serve_all_answered [OF ok e] by simp
  qed
  obtain dn l1 i1 c1 where w: "dn \<le> length p"
    "write_payload opened writes h p (?l, img, file) = Some ((l1, i1, store_bytes (unat h) (take dn p) file), c1)"
    "cached_blocks i1 = cached_blocks img \<union> affected_blocks h (h + word_of_nat dn) True"
    "unat (h + word_of_nat dn) = unat h + dn"
    by (rule write_payload_result [OF fits inv(2)])
  have "img' = i1 \<and> file' = store_bytes (unat h) (take dn p) file"
    using r(1) w(2) by (auto simp: receive_block_def split: option.splits)
  then have "coherent content img' file'" using coherent_write [OF inv(6) assms(3) w(1,4,3)] by simp
  moreover have "outs_ok img' (outs - {?b})" using inv(4) r(5) by (auto simp: outs_ok_def)
  moreover have "covered (outs - {?b} \<union> gone) (queue link')" if "conn = Some gone" for gone
    unfolding r(6) by (rule covered_mono [OF covered_unserved [OF inv(5) [OF that] ok e]]) auto
  ultimately have "uplink_inv content (link', img', file', outs - {?b}, conn)" using r(2-4) by (auto simp: uplink_inv_def)
  then show thesis using that r(1,6,7) by simp
qed

lemma reachable_inv: "uplink_reachable content s \<Longrightarrow> uplink_inv content s"
proof (induction rule: uplink_reachable.induct)
  case (start link img "file")
  then show ?case by (simp add: uplink_inv_def queue_inv_def in_image_def outs_ok_def)
next
  case (step s s')
  from step(2,3) show ?case
  proof (induction rule: uplink_step.cases)
    case (step_request mp env c host h start len hps link ret link' out img fl outs conn)
    then show ?case using inv_request [of content link img fl outs conn] by simp
  next
    case (step_send sends link link' out ok img fl outs conn)
    then show ?case using inv_send [of link img outs True conn content fl sends link' out ok] by (simp add: uplink_inv_def)
  next
    case (step_replicate a b img link fl outs conn)
    then show ?case by (auto simp: uplink_inv_def outs_ok_def covered_def)
  next
    case (step_lost link img fl outs conn)
    then show ?case by (auto simp: uplink_inv_def outs_ok_def queue_inv_def)
  next
    case (step_reconnect sends v fd link link' out ok img fl outs conn)
    have "queue_inv (link\<lparr>up_fd := fd, up_version := v\<rparr>) \<longleftrightarrow> queue_inv link" by (simp add: queue_inv_def)
    then show ?case using step_reconnect inv_send [of "link\<lparr>up_fd := fd, up_version := v\<rparr>" img "{}" False conn content fl sends link' out ok]
      by (simp add: uplink_inv_def outs_ok_def split: if_splits)
  next
    case (step_fields link' link img fl outs conn)
    then show ?case by (simp add: uplink_inv_def queue_inv_def)
  next
    case (step_remove link img fl outs conn c)
    then show ?case using inv_remove [of content link img fl outs conn c] by simp
  next
    case (step_receive h p outs opened writes link img fl link' img' file' replies checks conn)
    then show ?case using receive_result [of content link img fl outs conn h p opened writes] by auto
  qed
qed


section \<open>Properties\<close>

text \<open>A run used by the witnesses: a connection, a request of client 1 that is sent right away, and one of client 2 that
  waits for the uplink thread.\<close>

definition sample_host :: dnbd3_host where
  "sample_host = \<lparr>addr = replicate 16 1, port = 1, host_type = 2\<rparr>"

definition sample_link :: dnbd3_connection where
  "sample_link = \<lparr>up_fd = 5, up_version = 3, currentServer = sample_host, rttTestResult = RTT_IDLE, cacheFd = 6,
     betterVersion = 0, betterFd = - 1, betterServer = sample_host, recvBufferLen = 0, up_shutdown = False,
     replicatedLastBlock = False, cycleDetected = False, nextReplicationIndex = 0, replicationHandle = REP_NONE,
     bytesReceived = 0, idleTime = 0, queue = []\<rparr>"

definition sample_req :: "u64 \<Rightarrow> nat \<Rightarrow> ulr \<Rightarrow> queued_request" where
  "sample_req from client st = \<lparr>q_handle = 7, q_from = from, q_to = from + 100, q_client = Some client, q_status = st, q_hopCount = 0\<rparr>"

definition sample_asked :: dnbd3_connection where
  "sample_asked = sample_link\<lparr>queue := [sample_req 20480 1 ULR_PENDING]\<rparr>"

definition sample_waiting :: dnbd3_connection where
  "sample_waiting = sample_link\<lparr>queue := [sample_req 20480 1 ULR_PENDING, sample_req 30000 2 ULR_NEW]\<rparr>"

lemma sample_request_sent:
  "uplink_request 100000 \<lparr>se_locked = False, se_sent = True\<rparr> 1 sample_host 7 20480 100 0 sample_link
     = (True, sample_asked, [(20480, 4096, 20480, 1)])"
  by (simp add: uplink_request_def sample_link_def sample_asked_def sample_req_def SERVER_MAX_UPLINK_QUEUE_def
      upstream_request_def align_down_def align_up_def COND_HOPCOUNT_def)

lemma sample_request_queued:
  "uplink_request 100000 \<lparr>se_locked = True, se_sent = True\<rparr> 2 sample_host 7 30000 100 0 sample_asked
     = (True, sample_waiting, [])"
  by (simp add: uplink_request_def sample_link_def sample_asked_def sample_waiting_def sample_req_def SERVER_MAX_UPLINK_QUEUE_def)

lemma sample_start_reachable: "uplink_reachable (\<lambda>_. 0) (sample_link, sample_image, \<lambda>_. 0, {}, Some {})"
proof -
  have a: "uplink_reachable (\<lambda>_. 0) (sample_link, sample_image, \<lambda>_. 0, {}, None)"
    by (rule uplink_reachable.start) (simp_all add: sample_link_def sample_image_wf coherent_def)
  have "uplink_sendRequests False [] (sample_link\<lparr>up_fd := 5, up_version := 3\<rparr>) = (sample_link, [], True)"
    by (simp add: uplink_sendRequests_def sample_link_def)
  then show ?thesis using uplink_reachable.step [OF a uplink_step.step_reconnect] by fastforce
qed

lemma sample_asked_reachable: "uplink_reachable (\<lambda>_. 0) (sample_asked, sample_image, \<lambda>_. 0, {(20480, 24576)}, Some {})"
  using uplink_reachable.step [OF sample_start_reachable uplink_step.step_request [OF sample_request_sent]]
  by (simp add: sample_image_def byte_range_def)

lemma sample_waiting_reachable: "uplink_reachable (\<lambda>_. 0) (sample_waiting, sample_image, \<lambda>_. 0, {(20480, 24576)}, Some {})"
  using uplink_reachable.step [OF sample_asked_reachable uplink_step.step_request [OF sample_request_queued]]
  by (simp add: sample_image_def)

text \<open>C2. In every reachable state of the uplink the queue is well-formed (at most \<open>SERVER_MAX_UPLINK_QUEUE\<close> slots, a
  slot is free exactly when it has no client, none is left in \<open>ULR_PROCESSING\<close>), the image is well-formed, and every block the
  cache map marks holds the bytes of the upstream server.\<close>

theorem uplink_invariant:
  assumes "uplink_reachable content (link, img, file, outs, conn)"
  shows "queue_inv link \<and> image_wf img \<and> coherent content img file"
  using reachable_inv [OF assms] by (simp add: uplink_inv_def)

theorem uplink_invariant_witness:
  "queue_inv sample_waiting \<and> image_wf sample_image \<and> coherent (\<lambda>_. 0) sample_image (\<lambda>_. 0)"
  using uplink_invariant [OF sample_waiting_reachable] .

text \<open>C1. The reply to an outstanding request is handled without a failed assertion in every reachable state, whatever
  the writes to the image file do. Exactly the queued requests that lie inside the reply are answered, from the end of the
  queue, each with its own handle, its size and the bytes it asked for, and only those leave the queue.\<close>

theorem uplink_receive_correct:
  assumes "uplink_reachable content (link, img, file, outs, conn)" "(unat h, unat h + length p) \<in> outs"
    "slice_of content (unat h) p"
  shows "\<exists>link' img' file' replies checks. receive_block opened writes h p (link, img, file) =
      Some ((link', img', file'), replies, checks)
    \<and> list_all2 (reply_to content) (filter (answered h p) (rev (queue link))) replies
    \<and> {r \<in> set (queue link'). q_status r \<noteq> ULR_FREE} = {r \<in> set (queue link). q_status r \<noteq> ULR_FREE \<and> \<not> answered h p r}"
proof -
  note inv = reachable_inv [OF assms(1)]
  have ok: "\<forall>r\<in>set (queue link). req_ok r" using inv by (simp add: uplink_inv_def queue_inv_def)
  obtain link' img' file' checks where r: "receive_block opened writes h p (link, img, file) =
       Some ((link', img', file'), map (serve_one h p) (filter (answered h p) (rev (queue link))), checks)"
    "uplink_inv content (link', img', file', outs - {(unat h, unat h + length p)}, conn)"
    "queue link' = unserved h p (queue link)"
    by (rule receive_result [OF inv assms(2,3)])
  have fits: "unat h + length p < 2 ^ 45" using inv assms(2) by (auto simp: uplink_inv_def outs_ok_def image_wf_def)
  then have e: "unat (h + word_of_nat (length p)) = unat h + length p"
    by (subst unat_add_no_wrap) (auto simp: unat_of_nat)
  show ?thesis using r(1) served_replies [OF ok e assms(3)] unserved_set [OF ok e] unfolding r(3) [symmetric] by blast
qed

theorem uplink_receive_correct_witness:
  "\<exists>link' img' file' replies checks. receive_block 6 [Wrote 4096] 20480 (replicate 4096 0) (sample_asked, sample_image, \<lambda>_. 0) =
      Some ((link', img', file'), replies, checks)
    \<and> list_all2 (reply_to (\<lambda>_. 0)) (filter (answered 20480 (replicate 4096 0)) (rev (queue sample_asked))) replies
    \<and> {r \<in> set (queue link'). q_status r \<noteq> ULR_FREE} =
      {r \<in> set (queue sample_asked). q_status r \<noteq> ULR_FREE \<and> \<not> answered 20480 (replicate 4096 0) r}"
  by (rule uplink_receive_correct [OF sample_asked_reachable]) (simp_all add: slice_of_def)

text \<open>C13. No request is forgotten: when the uplink thread has sent the new requests over a working connection, the queue holds the same requests as
  before, slot by slot, and every one of them counts as sent and lies inside a range that has been requested and not answered yet, including those that were
  attached to another request. The one exception is a request inside the range of a request that left the queue with its client
  before it was sent, since the connection was set up (what can happen then is \<open>starved_request\<close> below); without such a client
  \<open>gone\<close> is empty. Clients come and leave at any time in the run that leads to the state.\<close>

theorem uplink_no_starvation:
  assumes "uplink_reachable content (link, img, file, outs, Some gone)" "uplink_sendRequests True sends link = (link', out, True)"
  shows "list_all2 same_request (queue link) (queue link')
    \<and> (\<forall>r\<in>set (queue link'). q_status r \<noteq> ULR_FREE \<longrightarrow>
        q_status r = ULR_PENDING \<and> ((\<exists>b\<in>outs \<union> byte_range ` set out. within r b) \<or> (\<exists>b\<in>gone. within r b)))"
proof -
  have inv: "queue_inv link" "covered (outs \<union> gone) (queue link)" using reachable_inv [OF assms(1)] by (auto simp: uplink_inv_def)
  have "q_status r = ULR_PENDING \<and> ((\<exists>b\<in>outs \<union> byte_range ` set out. within r b) \<or> (\<exists>b\<in>gone. within r b))"
    if r: "r \<in> set (queue link')" "q_status r \<noteq> ULR_FREE" for r
  proof -
    have "req_ok r" using queue_inv_send [OF inv(1) assms(2)] r(1) by (simp add: queue_inv_def)
    then have "q_status r \<noteq> ULR_PROCESSING" by (simp add: req_ok_def)
    moreover have "q_status r \<noteq> ULR_NEW" "q_status r = ULR_PENDING \<Longrightarrow> \<exists>b\<in>outs \<union> gone \<union> byte_range ` set out. within r b"
      using covered_send [OF inv(1) _ assms(2), of "outs \<union> gone"] inv(2) r(1) by auto
    ultimately show ?thesis using r(2) by (cases "q_status r") auto
  qed
  then show ?thesis using sendRequests_same [OF assms(2)] by blast
qed

text \<open>Only the requests of the client that leaves are removed.\<close>

theorem removeClient_keeps_others:
  assumes "uplink_reachable content (link, img, file, outs, conn)"
  shows "{r \<in> set (queue (uplink_removeClient c link)). q_status r \<noteq> ULR_FREE} =
    {r \<in> set (queue link). q_status r \<noteq> ULR_FREE \<and> q_client r \<noteq> Some c}"
proof -
  have ok: "\<forall>r\<in>set (queue link). req_ok r" using reachable_inv [OF assms] by (auto simp: uplink_inv_def queue_inv_def)
  let ?q = "queue (uplink_removeClient c link)"
  have qeq: "?q = drop_free (\<lambda>r. q_client r = None) (map (forget_client c) (queue link))"
    by (simp add: uplink_removeClient_def down_loop_eq)
  have "r \<in> set ?q" if "r \<in> set (queue link)" "q_status r \<noteq> ULR_FREE" "q_client r \<noteq> Some c" for r
    unfolding qeq using that ok by (intro set_drop_free) (auto simp: forget_client_def image_iff req_ok_def intro!: bexI [of _ r])
  moreover have "r \<in> set (queue link) \<and> q_client r \<noteq> Some c" if "r \<in> set ?q" "q_status r \<noteq> ULR_FREE" for r
    using that unfolding qeq by (auto simp: forget_client_def split: if_splits dest!: set_drop_free_map)
  ultimately show ?thesis by blast
qed

theorem removeClient_keeps_others_witness:
  "{r \<in> set (queue (uplink_removeClient 1 sample_waiting)). q_status r \<noteq> ULR_FREE} =
    {r \<in> set (queue sample_waiting). q_status r \<noteq> ULR_FREE \<and> q_client r \<noteq> Some 1}"
  by (rule removeClient_keeps_others [OF sample_waiting_reachable])

theorem uplink_no_starvation_witness:
  "q_status (sample_req 30000 2 ULR_PENDING) = ULR_PENDING
    \<and> ((\<exists>b\<in>{(20480, 24576)} \<union> byte_range ` set [(28672, 4096, 28672, 1)]. within (sample_req 30000 2 ULR_PENDING) b)
      \<or> (\<exists>b\<in>{}. within (sample_req 30000 2 ULR_PENDING) b))"
proof -
  have "uplink_sendRequests True [True] sample_waiting =
      (sample_waiting\<lparr>queue := [sample_req 20480 1 ULR_PENDING, sample_req 30000 2 ULR_PENDING]\<rparr>, [(28672, 4096, 28672, 1)], True)"
    by (simp add: uplink_sendRequests_def sample_waiting_def sample_link_def sample_req_def upstream_request_def
        align_down_def align_up_def COND_HOPCOUNT_def)
  from uplink_no_starvation [OF sample_waiting_reachable this] show ?thesis
    by (simp add: sample_req_def)
qed

text \<open>A client that leaves can starve another one. Client 1 has a request that is not sent yet, client 2 asks for a part
  of the same range and is attached to it, client 1 leaves. The request of client 2 counts as sent, the uplink thread sends
  nothing for it, and nothing has been requested from the upstream server.\<close>

theorem starved_request:
  "let held = \<lparr>se_locked = True, se_sent = True\<rparr>;
       (ret1, link1, out1) = uplink_request 100000 held 1 sample_host 7 20480 4096 0 sample_link;
       (ret2, link2, out2) = uplink_request 100000 held 2 sample_host 9 20480 100 0 link1;
       link3 = uplink_removeClient 1 link2;
       (link4, out4, ok) = uplink_sendRequests True [True, True] link3
   in ret1 \<and> ret2 \<and> ok \<and> out1 = [] \<and> out2 = [] \<and> out4 = []
      \<and> map (\<lambda>r. (q_client r, q_status r)) (queue link4) = [(None, ULR_FREE), (Some 2, ULR_PENDING)]"
proof -
  define r1 where "r1 = \<lparr>q_handle = 7, q_from = 20480, q_to = 24576, q_client = Some 1, q_status = ULR_NEW, q_hopCount = 0\<rparr>"
  define r2 where "r2 = \<lparr>q_handle = 9, q_from = 20480, q_to = 20580, q_client = Some 2, q_status = ULR_PENDING, q_hopCount = 0\<rparr>"
  have 1: "uplink_request 100000 \<lparr>se_locked = True, se_sent = True\<rparr> 1 sample_host 7 20480 4096 0 sample_link =
      (True, sample_link\<lparr>queue := [r1]\<rparr>, [])"
    by (simp add: uplink_request_def sample_link_def SERVER_MAX_UPLINK_QUEUE_def r1_def)
  have 2: "uplink_request 100000 \<lparr>se_locked = True, se_sent = True\<rparr> 2 sample_host 9 20480 100 0 (sample_link\<lparr>queue := [r1]\<rparr>) =
      (True, sample_link\<lparr>queue := [r1, r2]\<rparr>, [])"
    by (simp add: uplink_request_def sample_link_def SERVER_MAX_UPLINK_QUEUE_def r1_def r2_def)
  have 3: "uplink_removeClient 1 (sample_link\<lparr>queue := [r1, r2]\<rparr>) =
      sample_link\<lparr>queue := [r1\<lparr>q_client := None, q_status := ULR_FREE\<rparr>, r2]\<rparr>"
    by (simp add: uplink_removeClient_def forget_client_def r1_def r2_def)
  show ?thesis
    unfolding Let_def 1 2 3 prod.case by (simp add: uplink_sendRequests_def r1_def r2_def)
qed

text \<open>The offset of a reply is not checked: when its payload could be written to the image file and it ends behind the
  end of the image, the assertion in \<open>image_updateCachemap\<close> fails and the server stops.\<close>

theorem receive_outside_image_aborts:
  assumes "cacheFd link \<noteq> - 1" "p \<noteq> []" "unat h + length p < 2 ^ 64" "unat (virtualFilesize img) < unat h + length p"
  shows "receive_block opened [Wrote (length p)] h p (link, img, file) = None"
proof -
  have e: "unat (h + word_of_nat (length p)) = unat h + length p"
    using assms(3) by (subst unat_add_no_wrap) (auto simp: unat_of_nat)
  then have "image_updateCachemap img h (h + word_of_nat (length p)) True = None"
    using assms(4) by (auto simp: image_updateCachemap_def word_le_nat_alt)
  then show ?thesis using assms(1,2)
    by (simp add: receive_block_def write_payload_def uplink_reopenCacheFd_def)
qed

theorem receive_outside_image_aborts_witness:
  "receive_block 6 [Wrote (length [1, 2 :: u8])] 40960 [1, 2] (sample_asked, sample_image, \<lambda>_. 0) = None"
  by (rule receive_outside_image_aborts) (simp_all add: sample_asked_def sample_link_def sample_image_def)

end
