(* ===== verification/Alt_Servers.thy ===== *)
theory Alt_Servers
  imports Uplink_Queue "HOL-Library.Signed_Division" "HOL-Library.Multiset" "HOL-Library.Sublist"
begin

text \<open>
  The table of alternative servers, from \<open>src/server/altservers.c\<close>: adding servers, the lists that
  clients and uplinks get, failure counters and response times, the queue of uplinks that look for a
  better server, and the measurement itself. The table is the list of the entries below
  \<open>numAltServers\<close>. Results of system calls (sockets, clocks, random numbers) are arguments.
\<close>

section \<open>State\<close>

definition SERVER_MAX_ALTS :: nat where "SERVER_MAX_ALTS = 100"
definition SERVER_UPLINK_FAIL_INCREASE :: int where "SERVER_UPLINK_FAIL_INCREASE = 5"
definition SERVER_BAD_UPLINK_THRES :: int where "SERVER_BAD_UPLINK_THRES = 40"
definition SERVER_BAD_UPLINK_IGNORE :: u32 where "SERVER_BAD_UPLINK_IGNORE = 180"
definition SERVER_MAX_PENDING_ALT_CHECKS :: nat where "SERVER_MAX_PENDING_ALT_CHECKS = 500"
definition SERVER_RTT_PROBES :: u32 where "SERVER_RTT_PROBES = 5"
definition SERVER_RTT_INTERVAL_INIT :: u32 where "SERVER_RTT_INTERVAL_INIT = 5"
definition COMMENT_LENGTH :: nat where "COMMENT_LENGTH = 120"
definition MIN_SUPPORTED_SERVER :: u16 where "MIN_SUPPORTED_SERVER = 2"
definition RTT_UNREACHABLE :: u64 where "RTT_UNREACHABLE = 0x7FFFFFF"
definition RTT_THRESHOLD_FACTOR :: "u64 \<Rightarrow> u64" where "RTT_THRESHOLD_FACTOR us = us * 2 div 3"

record dnbd3_alt_server =
  as_comment :: string
  as_host :: dnbd3_host
  as_rtt :: "u32 list"
  rttIndex :: u32
  isPrivate :: bool
  isClientOnly :: bool
  lastFail :: ticks
  numFails :: int

text \<open>A slot that was never used is zero.\<close>

definition zero_alt :: dnbd3_alt_server where
  "zero_alt = \<lparr>as_comment = [], as_host = \<lparr>addr = replicate 16 0, port = 0, host_type = 0\<rparr>,
     as_rtt = replicate 5 0, rttIndex = 0, isPrivate = False, isClientOnly = False,
     lastFail = \<lparr>tv_sec = 0, tv_nsec = 0\<rparr>, numFails = 0\<rparr>"

section \<open>Adding a server\<close>

fun add_scan :: "dnbd3_host \<Rightarrow> nat \<Rightarrow> nat option \<Rightarrow> dnbd3_alt_server list \<Rightarrow> nat option option" where
  "add_scan host i freeSlot [] = Some freeSlot"
| "add_scan host i freeSlot (a # as) =
    (if isSameAddressPort (as_host a) host then None
     else if freeSlot = None \<and> host_type (as_host a) = 0 then add_scan host (Suc i) (Some i) as
     else add_scan host (Suc i) freeSlot as)"

definition set_alt :: "dnbd3_host \<Rightarrow> string option \<Rightarrow> bool \<Rightarrow> bool \<Rightarrow> dnbd3_alt_server \<Rightarrow> dnbd3_alt_server" where
  "set_alt host comment prv clientOnly a =
    a\<lparr>as_host := host, isPrivate := prv, isClientOnly := clientOnly,
      as_comment := (case comment of None \<Rightarrow> as_comment a | Some c \<Rightarrow> take (COMMENT_LENGTH - 1) c)\<rparr>"

definition altservers_add :: "dnbd3_host \<Rightarrow> string option \<Rightarrow> bool \<Rightarrow> bool \<Rightarrow> dnbd3_alt_server list \<Rightarrow>
    bool \<times> dnbd3_alt_server list" where
  "altservers_add host comment prv clientOnly alts =
    (case add_scan host 0 None alts of
       None \<Rightarrow> (False, alts)
     | Some (Some i) \<Rightarrow> (True, alts[i := set_alt host comment prv clientOnly (alts ! i)])
     | Some None \<Rightarrow>
        if length alts \<ge> SERVER_MAX_ALTS then (False, alts)
        else (True, alts @ [set_alt host comment prv clientOnly zero_alt]))"

text \<open>A line of the configuration file \<open>alt-servers\<close>: \<open>addalt\<close> strips blanks and the prefixes \<open>-\<close> (private) and
  \<open>+\<close> (clients only). \<open>parse_address\<close> is an argument.\<close>

fun alt_prefix :: "string \<Rightarrow> bool \<Rightarrow> bool \<Rightarrow> string \<times> bool \<times> bool" where
  "alt_prefix [] prv cl = ([], prv, cl)"
| "alt_prefix (c # cs) prv cl =
    (if c = CHR ''-'' then alt_prefix cs True cl
     else if c = CHR ''+'' then alt_prefix cs prv True
     else if c \<noteq> CHR '' '' \<and> c \<noteq> CHR 0x09 then (c # cs, prv, cl)
     else alt_prefix cs prv cl)"

definition addalt :: "(string \<Rightarrow> dnbd3_host option) \<Rightarrow> string \<Rightarrow> string option \<Rightarrow> dnbd3_alt_server list \<Rightarrow>
    bool \<times> dnbd3_alt_server list" where
  "addalt parse_address field comment alts =
    (if field \<noteq> [] \<and> hd field = CHR ''#'' then (False, alts)
     else case alt_prefix field False False of (shost, prv, cl) \<Rightarrow>
       (case parse_address shost of
          None \<Rightarrow> (False, alts)
        | Some host \<Rightarrow> altservers_add host (Some (case comment of None \<Rightarrow> [] | Some c \<Rightarrow> c)) prv cl alts))"

section \<open>The list for a client\<close>

fun nibble_loop :: "(u8 \<times> u8) list \<Rightarrow> int \<Rightarrow> int" where
  "nibble_loop [] retval = retval"
| "nibble_loop ((a, b) # rest) retval =
    (if a AND 0xf0 \<noteq> b AND 0xf0 then retval
     else if a AND 0x0f \<noteq> b AND 0x0f then retval + 1
     else nibble_loop rest (retval + 2))"

definition altservers_netCloseness :: "dnbd3_host \<Rightarrow> dnbd3_host \<Rightarrow> int" where
  "altservers_netCloseness host1 host2 =
    (if host_type host1 \<noteq> host_type host2 then - 1
     else nibble_loop (zip (take (addr_len host1) (addr host1)) (take (addr_len host1) (addr host2))) 0)"

text \<open>The arrays \<open>scores\<close> and \<open>output\<close> up to \<open>count\<close>, as one list. \<open>insert_at\<close> is the body of the inner loop at
  its stopping index: the entries behind are moved up, the last one falls off a full array.\<close>

definition insert_at :: "nat \<Rightarrow> int \<times> dnbd3_host \<Rightarrow> nat \<Rightarrow> (int \<times> dnbd3_host) list \<Rightarrow> (int \<times> dnbd3_host) list" where
  "insert_at sz e j out =
    (let moved = (if j < length out \<and> j + 1 < sz then take sz (take (j + 1) out @ drop j out) else out)
     in if j < length out then moved[j := e] else out @ [e])"

function place :: "nat \<Rightarrow> int \<times> dnbd3_host \<Rightarrow> nat \<Rightarrow> (int \<times> dnbd3_host) list \<Rightarrow> (int \<times> dnbd3_host) list" where
  "place sz e j out =
    (if j < sz then
       (if j < length out \<and> fst e \<le> fst (out ! j) then place sz e (Suc j) out
        else if j > length out then out
        else insert_at sz e j out)
     else out)"
  by pat_completeness auto
termination
  by (relation "measure (\<lambda>(sz, e, j, out). sz - j)") auto

declare place.simps [simp del]

definition client_score :: "dnbd3_host \<Rightarrow> dnbd3_alt_server \<Rightarrow> int" where
  "client_score host a =
    (if host_type host = host_type (as_host a) then altservers_netCloseness host (as_host a) - numFails a
     else - (numFails a + 128))"

fun client_loop :: "dnbd3_host \<Rightarrow> nat \<Rightarrow> dnbd3_alt_server list \<Rightarrow> (int \<times> dnbd3_host) list \<Rightarrow> (int \<times> dnbd3_host) list" where
  "client_loop host sz [] out = out"
| "client_loop host sz (a # as) out =
    (if host_type (as_host a) = 0 then client_loop host sz as out
     else if isPrivate a then client_loop host sz as out
     else let e = (client_score host a, as_host a) in
       if out = [] then client_loop host sz as [e]
       else client_loop host sz as (place sz e 0 out))"

definition altservers_getListForClient :: "dnbd3_host \<Rightarrow> int \<Rightarrow> dnbd3_alt_server list \<Rightarrow> dnbd3_server_entry list" where
  "altservers_getListForClient host sz alts =
    (if host_type host = 0 \<or> alts = [] \<or> sz \<le> 0 then []
     else map (\<lambda>e. \<lparr>se_host = snd e, se_failures = 0\<rparr>) (client_loop host (min (nat sz) (length alts)) alts []))"

section \<open>The list for an uplink\<close>

definition swap :: "nat \<Rightarrow> nat \<Rightarrow> 'a list \<Rightarrow> 'a list" where
  "swap i j xs = xs[i := xs ! j, j := xs ! i]"

record uplink_env =
  ue_now :: ticks
  ue_proxyPrivateOnly :: bool
  ue_emergency :: bool

text \<open>The tests at the top of the loop body, for the first and the second round.\<close>

definition uplink_skip :: "uplink_env \<Rightarrow> bool \<Rightarrow> dnbd3_alt_server \<Rightarrow> bool" where
  "uplink_skip env first srv \<longleftrightarrow> host_type (as_host srv) = 0
     \<or> (ue_proxyPrivateOnly env \<and> \<not> isPrivate srv) \<or> isClientOnly srv
     \<or> (if first then numFails srv > 0
        else numFails srv = 0 \<or> (\<not> ue_emergency env \<and> numFails srv > SERVER_BAD_UPLINK_THRES
               \<and> timing_diff (lastFail srv) (ue_now env) < SERVER_BAD_UPLINK_IGNORE))"

text \<open>\<open>k\<close> is the number of iterations left of \<open>2 * numAltServers\<close>.\<close>

fun uplink_loop :: "uplink_env \<Rightarrow> nat \<Rightarrow> nat \<Rightarrow> dnbd3_alt_server list \<Rightarrow> dnbd3_host list \<Rightarrow>
    dnbd3_alt_server list \<times> dnbd3_host list" where
  "uplink_loop env sz 0 alts out = (alts, out)"
| "uplink_loop env sz (Suc k) alts out =
    (let n = length alts; i = 2 * n - Suc k; srv = alts ! (i mod n); first = i < n in
     if uplink_skip env first srv then uplink_loop env sz k alts out
     else
       let alts = (if \<not> first \<and> \<not> ue_emergency env then alts[i mod n := srv\<lparr>numFails := numFails srv - 1\<rparr>] else alts);
           out = out @ [as_host srv]
       in if length out \<ge> sz then (alts, out) else uplink_loop env sz k alts out)"

text \<open>\<open>rnd\<close> is the first non-zero value of \<open>rand() % numAltServers\<close>.\<close>

definition altservers_getListForUplink :: "uplink_env \<Rightarrow> nat \<Rightarrow> int \<Rightarrow> dnbd3_alt_server list \<Rightarrow>
    dnbd3_alt_server list \<times> dnbd3_host list" where
  "altservers_getListForUplink env rnd sz alts =
    (if sz \<le> 0 then (alts, [])
     else let alts = (if length alts > 1 then swap 0 rnd alts else alts)
          in uplink_loop env (min (nat sz) (length alts)) (2 * length alts) alts [])"

section \<open>Failures and response times\<close>

definition altservers_updateRtt :: "dnbd3_host \<Rightarrow> u32 \<Rightarrow> dnbd3_alt_server list \<Rightarrow> u32 \<times> dnbd3_alt_server list" where
  "altservers_updateRtt host rtt alts =
    (case first_index (\<lambda>a. isSameAddressPort host (as_host a)) alts of
       None \<Rightarrow> (rtt, alts)
     | Some i \<Rightarrow>
        (let a = alts ! i;
             idx = rttIndex a + 1;
             r = (as_rtt a)[unat (idx mod SERVER_RTT_PROBES) := rtt];
             avg = (r ! 0 + r ! 1 + r ! 2 + r ! 3 + r ! 4) div SERVER_RTT_PROBES;
             a = a\<lparr>rttIndex := idx, as_rtt := r, numFails := (if numFails a > 0 then numFails a - 1 else numFails a)\<rparr>
         in (avg, alts[i := a])))"

fun failed_scan :: "dnbd3_host \<Rightarrow> nat \<Rightarrow> nat option \<Rightarrow> nat option \<Rightarrow> dnbd3_alt_server list \<Rightarrow> nat option \<times> nat option" where
  "failed_scan host i foundIndex lastOk [] = (foundIndex, lastOk)"
| "failed_scan host i foundIndex lastOk (a # as) =
    (if foundIndex = None
     then failed_scan host (Suc i) (if isSameAddressPort host (as_host a) then Some i else None) lastOk as
     else failed_scan host (Suc i) foundIndex
            (if host_type (as_host a) \<noteq> 0 \<and> numFails a = 0 then Some i else lastOk) as)"

definition altservers_serverFailed :: "ticks \<Rightarrow> dnbd3_host \<Rightarrow> dnbd3_alt_server list \<Rightarrow> dnbd3_alt_server list" where
  "altservers_serverFailed now host alts =
    (case failed_scan host 0 None None alts of
       (None, _) \<Rightarrow> alts
     | (Some f, lastOk) \<Rightarrow>
        if timing_diff (lastFail (alts ! f)) now > SERVER_RTT_INTERVAL_INIT then
          let alts = alts[f := (alts ! f)\<lparr>numFails := numFails (alts ! f) + SERVER_UPLINK_FAIL_INCREASE, lastFail := now\<rparr>]
          in (case lastOk of None \<Rightarrow> alts | Some l \<Rightarrow> swap f l alts)
        else alts)"

section \<open>Looking for a better server\<close>

text \<open>The uplinks in a store by their address, and the array \<open>pending\<close>.\<close>

record alt_state =
  links :: "nat \<Rightarrow> dnbd3_connection"
  pending :: "nat option list"

definition set_rtt :: "nat \<Rightarrow> rtt_state \<Rightarrow> alt_state \<Rightarrow> alt_state" where
  "set_rtt u r s = s\<lparr>links := (links s)(u := (links s u)\<lparr>rttTestResult := r\<rparr>)\<rparr>"

text \<open>\<open>None\<close> is the failed assertion on \<open>betterFd\<close>.\<close>

definition altservers_findUplink :: "nat \<Rightarrow> alt_state \<Rightarrow> alt_state option" where
  "altservers_findUplink u s =
    (if betterFd (links s u) \<noteq> - 1 then None
     else if rttTestResult (links s u) = RTT_INPROGRESS \<and> Some u \<in> set (pending s) then Some s
     else case first_index (\<lambda>p. p = None) (pending s) of
            Some i \<Rightarrow> Some (set_rtt u RTT_INPROGRESS (s\<lparr>pending := (pending s)[i := Some u]\<rparr>))
          | None \<Rightarrow> Some s)"

definition altservers_removeUplink :: "nat \<Rightarrow> alt_state \<Rightarrow> alt_state" where
  "altservers_removeUplink u s =
    (if Some u \<in> set (pending s)
     then set_rtt u RTT_NOT_REACHABLE (s\<lparr>pending := map (\<lambda>p. if p = Some u then None else p) (pending s)\<rparr>)
     else s)"

text \<open>What happens on the connection to one server that is tested.\<close>

record probe =
  pr_sock :: int
  pr_selected :: bool
  pr_reply :: "(u16 \<times> string option \<times> u16 \<times> u64) option"
  pr_requested :: bool
  pr_block :: "(u16 \<times> u32) option"
  pr_payload :: int
  pr_start :: ticks
  pr_end :: ticks

datatype probe_result = Probe_ok u16 | Server_failed | Image_not_available

definition probe_outcome :: "dnbd3_image \<Rightarrow> probe \<Rightarrow> probe_result" where
  "probe_outcome img p =
    (if \<not> pr_selected p then Server_failed
     else case pr_reply p of
       None \<Rightarrow> Image_not_available
     | Some (protocolVersion, name, rid, imageSize) \<Rightarrow>
        if protocolVersion < MIN_SUPPORTED_SERVER then Server_failed
        else if name \<noteq> Some (im_name img) then Server_failed
        else if rid \<noteq> im_rid img then Server_failed
        else if imageSize \<noteq> virtualFilesize img then Server_failed
        else if \<not> pr_requested p then Server_failed
        else (case pr_block p of
            None \<Rightarrow> Server_failed
          | Some (cmd, sz) \<Rightarrow>
             if cmd \<noteq> CMD_GET_BLOCK \<or> ucast sz \<noteq> DNBD3_BLOCK_SIZE then Server_failed
             else if pr_payload p \<noteq> 4096 then Server_failed
             else Probe_ok protocolVersion))"

text \<open>The state of the loop over the servers: table, best server so far (socket, index, version), response times, and the
  sockets that have been closed.\<close>

record measurement =
  ms_alts :: "dnbd3_alt_server list"
  bestSock :: int
  bestIndex :: int
  bestProtocolVersion :: int
  bestRtt :: u64
  currentRtt :: u64
  ms_closed :: "int list"

definition probe_rtt :: "dnbd3_connection \<Rightarrow> bool \<Rightarrow> probe \<Rightarrow> u32" where
  "probe_rtt link isCurrent p = word_of_int ((tv_sec (pr_end p) - tv_sec (pr_start p)) * 1000000
     + (tv_nsec (pr_end p) - tv_nsec (pr_start p)) sdiv 1000
     + (if isCurrent \<and> cycleDetected link then 1000000 else 0))"

definition measure_server :: "ticks \<Rightarrow> dnbd3_image \<Rightarrow> dnbd3_connection \<Rightarrow> nat \<Rightarrow> dnbd3_host \<Rightarrow> probe \<Rightarrow> measurement \<Rightarrow> measurement" where
  "measure_server now img link itAlt server p m =
    (if pr_sock p < 0 then m
     else case probe_outcome img p of
       Server_failed \<Rightarrow> m\<lparr>ms_alts := altservers_serverFailed now server (ms_alts m), ms_closed := pr_sock p # ms_closed m\<rparr>
     | Image_not_available \<Rightarrow> m\<lparr>ms_closed := pr_sock p # ms_closed m\<rparr>
     | Probe_ok version \<Rightarrow>
        (let isCurrent = isSameAddressPort server (currentServer link);
             (avg, alts) = altservers_updateRtt server (probe_rtt link isCurrent p) (ms_alts m);
             avg = (if (cycleDetected link \<or> up_fd link = - 1) \<and> isCurrent then avg * 2 + 50000 else avg);
             m = m\<lparr>ms_alts := alts\<rparr>
         in if up_fd link \<noteq> - 1 \<and> isCurrent
            then m\<lparr>currentRtt := ucast avg, ms_closed := pr_sock p # ms_closed m\<rparr>
            else if ucast avg < bestRtt m
            then m\<lparr>ms_closed := (if bestSock m \<noteq> - 1 then bestSock m # ms_closed m else ms_closed m),
                   bestSock := pr_sock p, bestRtt := ucast avg, bestIndex := int itAlt, bestProtocolVersion := uint version\<rparr>
            else m\<lparr>ms_closed := pr_sock p # ms_closed m\<rparr>))"

fun measure_loop :: "ticks \<Rightarrow> dnbd3_image \<Rightarrow> dnbd3_connection \<Rightarrow> nat \<Rightarrow> (dnbd3_host \<times> probe) list \<Rightarrow> measurement \<Rightarrow> measurement" where
  "measure_loop now img link itAlt [] m = m"
| "measure_loop now img link itAlt ((server, p) # rest) m =
    measure_loop now img link (Suc itAlt) rest (measure_server now img link itAlt server p m)"

text \<open>The servers to test: those of the list, and the current one if it is not among them.\<close>

definition servers_to_test :: "dnbd3_connection \<Rightarrow> dnbd3_host list \<Rightarrow> dnbd3_host list" where
  "servers_to_test link servers =
    (if up_fd link \<noteq> - 1 \<and> \<not> list_ex (isSameAddressPort (currentServer link)) servers
     then servers @ [currentServer link] else servers)"

text \<open>What is done with the measurement: the uplink, the \<open>working\<close> flag of the image, and the closed sockets.\<close>

definition conclude :: "dnbd3_host list \<Rightarrow> measurement \<Rightarrow> dnbd3_connection \<Rightarrow> bool \<Rightarrow> dnbd3_connection \<times> bool \<times> int list" where
  "conclude servers m link working =
    (if bestSock m \<noteq> - 1 \<and> (up_fd link = - 1 \<or> (bestRtt m < 10000000 \<and> RTT_THRESHOLD_FACTOR (currentRtt m) > bestRtt m))
     then (link\<lparr>betterFd := bestSock m, betterServer := servers ! nat (bestIndex m),
                betterVersion := bestProtocolVersion m, rttTestResult := RTT_DOCHANGE\<rparr>, working, ms_closed m)
     else if bestSock m = - 1 \<and> currentRtt m = RTT_UNREACHABLE
     then (link\<lparr>rttTestResult := RTT_NOT_REACHABLE\<rparr>, working, ms_closed m)
     else (link\<lparr>rttTestResult := RTT_DONTCHANGE, cycleDetected := False\<rparr>, True,
           if bestSock m \<noteq> - 1 then bestSock m # ms_closed m else ms_closed m))"

definition start_measurement :: "dnbd3_alt_server list \<Rightarrow> measurement" where
  "start_measurement alts = \<lparr>ms_alts = alts, bestSock = - 1, bestIndex = - 1, bestProtocolVersion = - 1,
     bestRtt = RTT_UNREACHABLE, currentRtt = RTT_UNREACHABLE, ms_closed = []\<rparr>"

text \<open>One uplink of the queue: \<open>probes\<close> has the outcome for each server that is tested.\<close>

definition check_uplink :: "uplink_env \<Rightarrow> nat \<Rightarrow> (nat \<Rightarrow> probe) \<Rightarrow> dnbd3_image \<Rightarrow> dnbd3_connection \<Rightarrow> dnbd3_alt_server list \<Rightarrow>
    dnbd3_connection \<times> bool \<times> dnbd3_alt_server list \<times> int list" where
  "check_uplink env rnd probes img link alts =
    (let (alts, servers) = altservers_getListForUplink (env\<lparr>ue_emergency := up_fd link = - 1\<rparr>) rnd 4 alts;
         servers = servers_to_test link servers;
         m = measure_loop (ue_now env) img link 0 (zip servers (map probes [0..<length servers])) (start_measurement alts);
         (link, working, closed) = conclude servers m link (im_working img)
     in (link, working, ms_alts m, closed))"

text \<open>The pass over the queue. \<open>env i\<close> has, for slot \<open>i\<close>, the image of the uplink (\<open>None\<close> when it is gone) and the
  arguments of the test.\<close>

type_synonym slot_env = "nat \<Rightarrow> dnbd3_image option \<times> uplink_env \<times> nat \<times> (nat \<Rightarrow> probe)"

definition clear_slot :: "nat \<Rightarrow> alt_state \<Rightarrow> alt_state" where
  "clear_slot i s = s\<lparr>pending := (pending s)[i := None]\<rparr>"

definition serve_pending :: "slot_env \<Rightarrow> nat \<Rightarrow> alt_state \<times> dnbd3_alt_server list \<Rightarrow> (alt_state \<times> dnbd3_alt_server list) option" where
  "serve_pending env i st = (case st of (s, alts) \<Rightarrow>
    (case pending s ! i of
       None \<Rightarrow> Some (s, alts)
     | Some u \<Rightarrow>
        (case env i of
           (None, _) \<Rightarrow> Some (clear_slot i (set_rtt u RTT_NOT_REACHABLE s), alts)
         | (Some img, ue, rnd, probes) \<Rightarrow>
            if rttTestResult (links s u) \<noteq> RTT_INPROGRESS then None
            else (case check_uplink ue rnd probes img (links s u) alts of
              (link, _, alts, _) \<Rightarrow> Some (clear_slot i (s\<lparr>links := (links s)(u := link)\<rparr>), alts)))))"

fun pending_loop :: "slot_env \<Rightarrow> nat \<Rightarrow> nat \<Rightarrow> alt_state \<times> dnbd3_alt_server list \<Rightarrow> (alt_state \<times> dnbd3_alt_server list) option" where
  "pending_loop env i 0 st = Some st"
| "pending_loop env i (Suc n) st = (case serve_pending env i st of None \<Rightarrow> None | Some st \<Rightarrow> pending_loop env (Suc i) n st)"

section \<open>The list for a client is the sorted list of public servers\<close>

fun insert_desc :: "int \<times> 'a \<Rightarrow> (int \<times> 'a) list \<Rightarrow> (int \<times> 'a) list" where
  "insert_desc e [] = [e]"
| "insert_desc e (x # xs) = (if fst e \<le> fst x then x # insert_desc e xs else e # x # xs)"

lemma place_gen:
  assumes "length (pre @ out) \<le> sz" "0 < sz"
  shows "place sz e (length pre) (pre @ out) = take sz (pre @ insert_desc e out)"
  using assms
proof (induction out arbitrary: pre)
  case Nil
  then show ?case by (subst place.simps) (auto simp: insert_at_def)
next
  case (Cons x out)
  show ?case
  proof (cases "fst e \<le> fst x")
    case True
    have "place sz e (length pre) (pre @ x # out) = place sz e (length (pre @ [x])) ((pre @ [x]) @ out)"
      using True Cons.prems by (subst place.simps) simp
    then show ?thesis using Cons.IH [of "pre @ [x]"] Cons.prems True by simp
  next
    case False
    then have "place sz e (length pre) (pre @ x # out) = insert_at sz e (length pre) (pre @ x # out)"
      using Cons.prems by (subst place.simps) simp
    also have "\<dots> = take sz (pre @ e # x # out)"
    proof (cases "length pre + 1 < sz")
      case True
      have "(take sz (pre @ x # x # out))[length pre := e] = take sz (pre @ e # x # out)"
        using True by (simp add: take_update_swap [symmetric] list_update_append)
      then show ?thesis using True by (simp add: insert_at_def)
    next
      case False
      then have "out = []" "sz = Suc (length pre)" using Cons.prems by (cases out; simp)+
      then show ?thesis by (simp add: insert_at_def list_update_append)
    qed
    finally show ?thesis using False by simp
  qed
qed

lemma take_insert_desc: "take n (insert_desc e (take n xs)) = take n (insert_desc e xs)"
proof (induction xs arbitrary: n)
  case (Cons x xs)
  then show ?case by (cases n) (auto simp: take_Cons')
qed simp

lemma length_insert_desc [simp]: "length (insert_desc e xs) = Suc (length xs)"
  by (induction xs) auto

lemma mset_insert_desc [simp]: "mset (insert_desc e xs) = add_mset e (mset xs)"
  by (induction xs) auto

definition public_entries :: "dnbd3_host \<Rightarrow> dnbd3_alt_server list \<Rightarrow> (int \<times> dnbd3_host) list" where
  "public_entries host alts = map (\<lambda>a. (client_score host a, as_host a))
     (filter (\<lambda>a. host_type (as_host a) \<noteq> 0 \<and> \<not> isPrivate a) alts)"

lemma client_loop_eq:
  assumes "0 < sz"
  shows "client_loop host sz alts (take sz out) = take sz (fold insert_desc (public_entries host alts) out)"
proof (induction alts arbitrary: out)
  case Nil
  then show ?case by (simp add: public_entries_def)
next
  case (Cons a alts)
  let ?e = "(client_score host a, as_host a)"
  show ?case
  proof (cases "host_type (as_host a) \<noteq> 0 \<and> \<not> isPrivate a")
    case False
    then show ?thesis using Cons by (auto simp: public_entries_def)
  next
    case True
    have "(if take sz out = [] then [?e] else place sz ?e 0 (take sz out)) = take sz (insert_desc ?e out)"
    proof (cases "take sz out = []")
      case True
      then show ?thesis using assms by (cases out) auto
    next
      case False
      then show ?thesis using place_gen [of "[]" "take sz out" sz ?e] assms by (simp add: take_insert_desc)
    qed
    moreover have "client_loop host sz (a # alts) xs = client_loop host sz alts (if xs = [] then [?e] else place sz ?e 0 xs)" for xs
      using True by (simp add: Let_def)
    ultimately have "client_loop host sz (a # alts) (take sz out) = client_loop host sz alts (take sz (insert_desc ?e out))"
      by (simp only:)
    moreover have "public_entries host (a # alts) = ?e # public_entries host alts" using True by (simp add: public_entries_def)
    ultimately show ?thesis by (simp only: Cons.IH fold_simps)
  qed
qed

lemma insert_desc_sorted:
  "sorted (map (\<lambda>e. - fst e) xs) \<Longrightarrow> sorted (map (\<lambda>e. - fst e) (insert_desc e xs))"
proof -
  have "set (insert_desc e xs) = insert e (set xs)" for xs
    using mset_insert_desc [of e xs] by (metis set_mset_add_mset_insert set_mset_mset)
  then show "sorted (map (\<lambda>e. - fst e) xs) \<Longrightarrow> sorted (map (\<lambda>e. - fst e) (insert_desc e xs))"
    by (induction xs) auto
qed

lemma insert_desc_stable:
  "sorted (map (\<lambda>e. - fst e) xs) \<Longrightarrow> filter (\<lambda>x. fst x = k) (insert_desc e xs) = filter (\<lambda>x. fst x = k) (xs @ [e])"
proof (induction xs)
  case (Cons x xs)
  show ?case
  proof (cases "fst e \<le> fst x")
    case False
    then have "\<forall>y\<in>set (x # xs). fst y < fst e" using Cons.prems by auto
    then have "fst e = k \<Longrightarrow> filter (\<lambda>x. fst x = k) (x # xs) = []" by (intro filter_False) auto
    then show ?thesis using False by auto
  qed (use Cons in auto)
qed simp

lemma fold_insert_desc:
  "sorted (map (\<lambda>e. - fst e) ys) \<Longrightarrow> sorted (map (\<lambda>e. - fst e) (fold insert_desc xs ys))
    \<and> mset (fold insert_desc xs ys) = mset ys + mset xs
    \<and> filter (\<lambda>x. fst x = k) (fold insert_desc xs ys) = filter (\<lambda>x. fst x = k) (ys @ xs)"
proof (induction xs arbitrary: ys)
  case (Cons x xs)
  then show ?case using Cons.IH [of "insert_desc x ys"] insert_desc_sorted [of ys x] insert_desc_stable [of ys k x] by simp
qed simp

lemma fold_insert_desc_sort: "fold insert_desc xs [] = sort_key (\<lambda>e. - fst e) xs"
proof (rule properties_for_sort_key [symmetric])
  show "mset (fold insert_desc xs []) = mset xs" using fold_insert_desc [of "[]" xs] by simp
  show "sorted (map (\<lambda>e. - fst e) (fold insert_desc xs []))" using fold_insert_desc [of "[]" xs] by simp
  fix e
  show "filter (\<lambda>x. - fst e = - fst x) (fold insert_desc xs []) = filter (\<lambda>x. - fst e = - fst x) xs"
    using fold_insert_desc [of "[]" xs "fst e"] by (simp add: eq_commute [of "fst e"])
qed

lemma sort_key_map: "sort_key f (map g xs) = map g (sort_key (\<lambda>x. f (g x)) xs)"
proof -
  have "insort_key f (g x) (map g ys) = map g (insort_key (\<lambda>x. f (g x)) x ys)" for x ys by (induction ys) auto
  then show ?thesis by (induction xs) auto
qed

lemma client_list_eq:
  "altservers_getListForClient host sz alts =
    (if host_type host = 0 then []
     else map (\<lambda>a. \<lparr>se_host = as_host a, se_failures = 0\<rparr>)
       (take (nat sz) (sort_key (\<lambda>a. - client_score host a) (filter (\<lambda>a. host_type (as_host a) \<noteq> 0 \<and> \<not> isPrivate a) alts))))"
proof (cases "host_type host = 0 \<or> alts = [] \<or> sz \<le> 0")
  case True
  then show ?thesis by (auto simp: altservers_getListForClient_def)
next
  case False
  let ?f = "filter (\<lambda>a. host_type (as_host a) \<noteq> 0 \<and> \<not> isPrivate a) alts"
  let ?n = "min (nat sz) (length alts)"
  have "client_loop host ?n alts [] = take ?n (sort_key (\<lambda>e. - fst e) (public_entries host alts))"
    using client_loop_eq [of ?n host alts "[]"] False by (simp add: fold_insert_desc_sort)
  also have "\<dots> = take ?n (map (\<lambda>a. (client_score host a, as_host a)) (sort_key (\<lambda>a. - client_score host a) ?f))"
    by (simp add: public_entries_def sort_key_map)
  also have "\<dots> = map (\<lambda>a. (client_score host a, as_host a)) (take (nat sz) (sort_key (\<lambda>a. - client_score host a) ?f))"
    using le_trans [OF length_filter_le [of "\<lambda>a. host_type (as_host a) \<noteq> 0 \<and> \<not> isPrivate a" alts], of "nat sz"]
    by (simp add: take_map min_def)
  finally show ?thesis using False by (simp add: altservers_getListForClient_def)
qed

section \<open>The list for an uplink\<close>

lemma uplink_loop_second:
  "k \<le> length alts \<Longrightarrow> length out < sz \<Longrightarrow> uplink_loop env sz k alts out = (alts', out') \<Longrightarrow>
    out' = take sz (out @ map as_host (filter (\<lambda>s. \<not> uplink_skip env False s) (drop (length alts - k) alts)))
    \<and> map as_host alts' = map as_host alts"
proof (induction k arbitrary: alts out)
  case (Suc k)
  let ?n = "length alts" and ?i = "length alts - Suc k"
  have i: "2 * ?n - Suc k = ?n + ?i" "?i < ?n" using Suc.prems(1) by auto
  have im: "(2 * ?n - Suc k) mod ?n = ?i" "\<not> 2 * ?n - Suc k < ?n" unfolding i(1) using i(2) by simp_all
  have d: "drop ?i alts = alts ! ?i # drop (?n - k) alts"
    using Suc.prems(1) Cons_nth_drop_Suc [of ?i alts] by (simp add: Suc_diff_Suc)
  show ?case
  proof (cases "uplink_skip env False (alts ! ?i)")
    case True
    then have "uplink_loop env sz k alts out = (alts', out')" using Suc.prems(3) im by (simp add: Let_def)
    from Suc.IH [OF _ Suc.prems(2) this] show ?thesis using d True Suc.prems(1) by simp
  next
    case False
    define alts1 where "alts1 = (if ue_emergency env then alts
       else alts[?i := (alts ! ?i)\<lparr>numFails := numFails (alts ! ?i) - 1\<rparr>])"
    have l1: "length alts1 = ?n" "drop (?n - k) alts1 = drop (?n - k) alts" "map as_host alts1 = map as_host alts"
      using i(2) drop_update_cancel [of ?i "?n - k" alts] Suc.prems(1)
      by (auto simp: alts1_def map_update intro!: list_update_same_conv [THEN iffD2])
    have step: "uplink_loop env sz (Suc k) alts out = (if length (out @ [as_host (alts ! ?i)]) \<ge> sz then (alts1, out @ [as_host (alts ! ?i)])
        else uplink_loop env sz k alts1 (out @ [as_host (alts ! ?i)]))"
      using False im by (simp add: Let_def alts1_def)
    show ?thesis
    proof (cases "length (out @ [as_host (alts ! ?i)]) \<ge> sz")
      case True
      then have "alts' = alts1" "out' = out @ [as_host (alts ! ?i)]" "sz = Suc (length out)"
        using step Suc.prems(2,3) by auto
      then show ?thesis using l1 d False by simp
    next
      case more: False
      then have "uplink_loop env sz k alts1 (out @ [as_host (alts ! ?i)]) = (alts', out')" using step Suc.prems(3) by simp
      from Suc.IH [OF _ _ this] show ?thesis using more l1 d False Suc.prems(1) by simp
    qed
  qed
qed simp

lemma uplink_loop_first:
  "k \<le> length alts \<Longrightarrow> length out < sz \<Longrightarrow> uplink_loop env sz (length alts + k) alts out = (alts', out') \<Longrightarrow>
    out' = take sz (out @ map as_host (filter (\<lambda>s. \<not> uplink_skip env True s) (drop (length alts - k) alts)
                  @ filter (\<lambda>s. \<not> uplink_skip env False s) alts))
    \<and> map as_host alts' = map as_host alts"
proof (induction k arbitrary: out)
  case 0
  then show ?case using uplink_loop_second [of "length alts" alts out sz env alts' out'] by simp
next
  case (Suc k)
  let ?n = "length alts" and ?i = "length alts - Suc k"
  have i: "?n + Suc k = Suc (?n + k)" "2 * ?n - Suc (?n + k) = ?i" "?i < ?n" using Suc.prems(1) by auto
  have d: "drop ?i alts = alts ! ?i # drop (?n - k) alts"
    using Suc.prems(1) Cons_nth_drop_Suc [of ?i alts] by (simp add: Suc_diff_Suc)
  have step: "uplink_loop env sz (?n + Suc k) alts out = (if uplink_skip env True (alts ! ?i) then uplink_loop env sz (?n + k) alts out
      else if length (out @ [as_host (alts ! ?i)]) \<ge> sz then (alts, out @ [as_host (alts ! ?i)])
      else uplink_loop env sz (?n + k) alts (out @ [as_host (alts ! ?i)]))"
    unfolding i(1) uplink_loop.simps Let_def i(2) using i(3) by simp
  consider "uplink_skip env True (alts ! ?i)" "uplink_loop env sz (?n + k) alts out = (alts', out')"
    | "\<not> uplink_skip env True (alts ! ?i)" "alts' = alts" "out' = out @ [as_host (alts ! ?i)]" "sz = Suc (length out)"
    | "\<not> uplink_skip env True (alts ! ?i)" "length (out @ [as_host (alts ! ?i)]) < sz"
      "uplink_loop env sz (?n + k) alts (out @ [as_host (alts ! ?i)]) = (alts', out')"
    using step Suc.prems(2,3) by (auto split: if_splits)
  then show ?case
  proof cases
    case 1
    then show ?thesis using Suc.IH [OF _ Suc.prems(2) 1(2)] Suc.prems(1) d by simp
  next
    case 2
    then show ?thesis using d by simp
  next
    case 3
    then show ?thesis using Suc.IH [OF _ 3(2,3)] Suc.prems(1) d by simp
  qed
qed

lemma length_two_filters:
  "(\<And>x. x \<in> set xs \<Longrightarrow> \<not> (P x \<and> Q x)) \<Longrightarrow> length (filter P xs) + length (filter Q xs) \<le> length xs"
  by (induction xs) auto

lemma uplink_list_eq:
  assumes "\<forall>a\<in>set alts. 0 \<le> numFails a" "length alts > 1 \<longrightarrow> rnd < length alts"
    "altservers_getListForUplink env rnd sz alts = (alts', out)" "0 < sz"
  defines "flipped \<equiv> (if length alts > 1 then swap 0 rnd alts else alts)"
  shows "out = take (nat sz) (map as_host (filter (\<lambda>s. \<not> uplink_skip env True s) flipped @ filter (\<lambda>s. \<not> uplink_skip env False s) flipped))
    \<and> map as_host alts' = map as_host flipped"
proof (cases "alts = []")
  case True
  then show ?thesis using assms by (simp add: altservers_getListForUplink_def)
next
  case False
  let ?n = "length alts"
  have l: "length flipped = ?n" by (simp add: flipped_def swap_def)
  have "set flipped \<subseteq> set alts"
  proof (cases "length alts > 1")
    case True
    have "set (alts[0 := alts ! rnd]) \<subseteq> insert (alts ! rnd) (set alts)" by (rule set_update_subset_insert)
    moreover have "set (alts[0 := alts ! rnd, rnd := alts ! 0]) \<subseteq> insert (alts ! 0) (set (alts[0 := alts ! rnd]))"
      by (rule set_update_subset_insert)
    moreover have "alts ! 0 \<in> set alts" "alts ! rnd \<in> set alts" using True assms(2) by (auto intro!: nth_mem)
    ultimately have "set (swap 0 rnd alts) \<subseteq> set alts" unfolding swap_def by blast
    then show ?thesis using True by (simp add: flipped_def)
  qed (simp add: flipped_def)
  then have nf: "\<forall>a\<in>set flipped. 0 \<le> numFails a" using assms(1) by blast
  have "uplink_loop env (min (nat sz) ?n) (length flipped + length flipped) flipped [] = (alts', out)"
    using assms(3,4) l by (simp add: altservers_getListForUplink_def flipped_def Let_def mult_2 split: if_splits)
  from uplink_loop_first [OF _ _ this] False assms(4) have r:
    "out = take (min (nat sz) ?n) (map as_host (filter (\<lambda>s. \<not> uplink_skip env True s) flipped @ filter (\<lambda>s. \<not> uplink_skip env False s) flipped))"
    "map as_host alts' = map as_host flipped" by auto
  have "length (filter (\<lambda>s. \<not> uplink_skip env True s) flipped) + length (filter (\<lambda>s. \<not> uplink_skip env False s) flipped) \<le> ?n"
    unfolding l [symmetric] using nf by (intro length_two_filters) (force simp: uplink_skip_def)
  then show ?thesis using r by (simp add: min_def)
qed

section \<open>Closeness of addresses\<close>

definition nibbles :: "u8 list \<Rightarrow> u8 list" where
  "nibbles bs = concat (map (\<lambda>b. [b AND 0xf0, b AND 0x0f]) bs)"

lemma nibble_loop_prefix:
  "length as = length bs \<Longrightarrow> nibble_loop (zip as bs) r = r + int (length (longest_common_prefix (nibbles as) (nibbles bs)))"
proof (induction as bs arbitrary: r rule: list_induct2)
  case (Cons a as b bs)
  then show ?case by (simp add: nibbles_def)
qed (simp add: nibbles_def)

section \<open>The measurement\<close>

text \<open>\<open>sound_best\<close>: the best server so far passed all tests, is not the one in use, and its socket is the one kept open.\<close>

definition sound_best :: "dnbd3_image \<Rightarrow> dnbd3_connection \<Rightarrow> dnbd3_host list \<Rightarrow> probe list \<Rightarrow> measurement \<Rightarrow> bool" where
  "sound_best img link servers ps m \<longleftrightarrow> bestSock m \<noteq> - 1 \<longrightarrow>
     (\<exists>i v. i < length servers \<and> i < length ps \<and> bestIndex m = int i \<and> pr_sock (ps ! i) = bestSock m \<and> 0 \<le> bestSock m
        \<and> probe_outcome img (ps ! i) = Probe_ok v \<and> bestProtocolVersion m = uint v
        \<and> (up_fd link \<noteq> - 1 \<longrightarrow> \<not> isSameAddressPort (servers ! i) (currentServer link)))"

definition open_socks :: "measurement \<Rightarrow> int multiset" where
  "open_socks m = (if bestSock m \<noteq> - 1 then {#bestSock m#} else {#})"

lemma measure_server_cases:
  obtains (skip) "pr_sock p < 0" "measure_server now img link k srv p m = m"
  | (close) alts cur where "0 \<le> pr_sock p"
      "measure_server now img link k srv p m = m\<lparr>ms_alts := alts, currentRtt := cur, ms_closed := pr_sock p # ms_closed m\<rparr>"
  | (best) alts avg v where "0 \<le> pr_sock p" "probe_outcome img p = Probe_ok v"
      "up_fd link \<noteq> - 1 \<longrightarrow> \<not> isSameAddressPort srv (currentServer link)"
      "measure_server now img link k srv p m = m\<lparr>ms_alts := alts,
         ms_closed := (if bestSock m \<noteq> - 1 then bestSock m # ms_closed m else ms_closed m),
         bestSock := pr_sock p, bestRtt := avg, bestIndex := int k, bestProtocolVersion := uint v\<rparr>"
proof (cases "pr_sock p < 0")
  case True
  then show thesis using skip by (simp add: measure_server_def)
next
  case sock: False
  show thesis
  proof (cases "probe_outcome img p")
    case Server_failed
    then show thesis using sock by (intro close [where alts = "altservers_serverFailed now srv (ms_alts m)" and cur = "currentRtt m"]) (simp_all add: measure_server_def)
  next
    case Image_not_available
    then show thesis using sock by (intro close [where alts = "ms_alts m" and cur = "currentRtt m"]) (simp_all add: measure_server_def)
  next
    case (Probe_ok v)
    let ?cur = "isSameAddressPort srv (currentServer link)"
    obtain avg0 alts where u: "altservers_updateRtt srv (probe_rtt link ?cur p) (ms_alts m) = (avg0, alts)" by fastforce
    define avg where "avg = (if (cycleDetected link \<or> up_fd link = - 1) \<and> ?cur then avg0 * 2 + 50000 else avg0)"
    have eq: "measure_server now img link k srv p m = (let m = m\<lparr>ms_alts := alts\<rparr> in
        if up_fd link \<noteq> - 1 \<and> ?cur then m\<lparr>currentRtt := ucast avg, ms_closed := pr_sock p # ms_closed m\<rparr>
        else if ucast avg < bestRtt m
        then m\<lparr>ms_closed := (if bestSock m \<noteq> - 1 then bestSock m # ms_closed m else ms_closed m),
               bestSock := pr_sock p, bestRtt := ucast avg, bestIndex := int k, bestProtocolVersion := uint v\<rparr>
        else m\<lparr>ms_closed := pr_sock p # ms_closed m\<rparr>)"
      using sock Probe_ok u by (simp add: measure_server_def avg_def Let_def)
    consider "up_fd link \<noteq> - 1 \<and> ?cur" | "\<not> (up_fd link \<noteq> - 1 \<and> ?cur)" "ucast avg < bestRtt m"
      | "\<not> (up_fd link \<noteq> - 1 \<and> ?cur)" "\<not> ucast avg < bestRtt m" by blast
    then show thesis
    proof cases
      case 1
      then show thesis using sock eq by (intro close [where alts = alts and cur = "ucast avg"]) (simp_all add: Let_def)
    next
      case 2
      have "measure_server now img link k srv p m = m\<lparr>ms_alts := alts,
         ms_closed := (if bestSock m \<noteq> - 1 then bestSock m # ms_closed m else ms_closed m),
         bestSock := pr_sock p, bestRtt := ucast avg, bestIndex := int k, bestProtocolVersion := uint v\<rparr>"
        unfolding eq Let_def using 2 by auto
      from best [OF _ Probe_ok _ this] show thesis using sock 2(1) by auto
    next
      case 3
      show thesis by (rule close [where alts = alts and cur = "currentRtt m"]) (use 3 sock eq in \<open>auto simp: Let_def\<close>)
    qed
  qed
qed

lemma measure_loop_sound:
  assumes "sound_best img link servers ps m" "k + length rest = length servers" "length ps = length servers"
    "rest = zip (drop k servers) (drop k ps)"
  shows "sound_best img link servers ps (measure_loop now img link k rest m)
    \<and> mset (ms_closed (measure_loop now img link k rest m)) + open_socks (measure_loop now img link k rest m)
      = mset (ms_closed m) + open_socks m + filter_mset (\<lambda>s. 0 \<le> s) (mset (map (pr_sock \<circ> snd) rest))"
  using assms
proof (induction rest arbitrary: k m)
  case Nil
  then show ?case by simp
next
  case (Cons x rest)
  obtain srv p where x: "x = (srv, p)" by (cases x)
  have k: "k < length servers" using Cons.prems(2) by simp
  then have nth: "srv = servers ! k" "p = ps ! k" "rest = zip (drop (Suc k) servers) (drop (Suc k) ps)"
    using Cons.prems(3,4) x by (simp_all add: Cons_nth_drop_Suc [symmetric])
  let ?m = "measure_server now img link k srv p m"
  have "sound_best img link servers ps ?m \<and> mset (ms_closed ?m) + open_socks ?m
      = mset (ms_closed m) + open_socks m + (if 0 \<le> pr_sock p then {#pr_sock p#} else {#})"
  proof (cases rule: measure_server_cases [where p = p and now = now and img = img and link = link and k = k and srv = srv and m = m])
    case skip
    then show ?thesis using Cons.prems(1) by simp
  next
    case (close alts cur)
    then show ?thesis using Cons.prems(1) by (simp add: sound_best_def open_socks_def)
  next
    case (best alts avg v)
    have "sound_best img link servers ps ?m"
      unfolding best(4) sound_best_def using best(1-3) k Cons.prems(3) nth(1,2) by (auto intro!: exI [of _ k])
    then show ?thesis using best(1) unfolding best(4) by (simp add: open_socks_def)
  qed
  moreover have "measure_loop now img link k (x # rest) m = measure_loop now img link (Suc k) rest ?m" by (simp add: x)
  ultimately show ?case using Cons.IH [of ?m "Suc k"] Cons.prems(2,3) nth(3) by (simp add: x ac_simps)
qed

lemma conclude_cases:
  assumes "conclude servers m link w = (link', working, closed)"
  obtains (change) "bestSock m \<noteq> - 1" "closed = ms_closed m"
      "link' = link\<lparr>betterFd := bestSock m, betterServer := servers ! nat (bestIndex m),
         betterVersion := bestProtocolVersion m, rttTestResult := RTT_DOCHANGE\<rparr>"
  | (unreachable) "bestSock m = - 1" "closed = ms_closed m" "link' = link\<lparr>rttTestResult := RTT_NOT_REACHABLE\<rparr>"
  | (keep) "mset closed = mset (ms_closed m) + open_socks m" "link' = link\<lparr>rttTestResult := RTT_DONTCHANGE, cycleDetected := False\<rparr>"
proof -
  let ?A = "bestSock m \<noteq> - 1 \<and> (up_fd link = - 1 \<or> (bestRtt m < 10000000 \<and> RTT_THRESHOLD_FACTOR (currentRtt m) > bestRtt m))"
  let ?B = "bestSock m = - 1 \<and> currentRtt m = RTT_UNREACHABLE"
  consider ?A | "\<not> ?A" ?B | "\<not> ?A" "\<not> ?B" by argo
  then show thesis
  proof cases
    case 1
    then show thesis using assms change by (simp add: conclude_def)
  next
    case 2
    then show thesis using assms unreachable by (simp only: conclude_def if_False if_True) simp
  next
    case 3
    then show thesis using assms keep by (simp only: conclude_def if_False) (auto simp: open_socks_def split: if_splits)
  qed
qed

lemma check_uplink_result:
  assumes "check_uplink env rnd probes img link alts = (link', working, alts', closed)" "betterFd link = - 1" "rttTestResult link = RTT_INPROGRESS"
  obtains servers where
    "servers = servers_to_test link (snd (altservers_getListForUplink (env\<lparr>ue_emergency := up_fd link = - 1\<rparr>) rnd 4 alts))"
    "filter_mset (\<lambda>s. 0 \<le> s) (mset (map (pr_sock \<circ> probes) [0..<length servers]))
      = mset closed + (if rttTestResult link' = RTT_DOCHANGE then {#betterFd link'#} else {#})"
    "rttTestResult link' = RTT_DOCHANGE \<Longrightarrow> \<exists>i<length servers. \<exists>v. betterServer link' = servers ! i \<and> pr_sock (probes i) = betterFd link'
       \<and> 0 \<le> betterFd link' \<and> probe_outcome img (probes i) = Probe_ok v \<and> betterVersion link' = uint v
       \<and> (up_fd link \<noteq> - 1 \<longrightarrow> \<not> isSameAddressPort (betterServer link') (currentServer link))"
    "rttTestResult link' \<in> {RTT_DOCHANGE, RTT_DONTCHANGE, RTT_NOT_REACHABLE}"
    "rttTestResult link' \<noteq> RTT_DOCHANGE \<Longrightarrow> betterFd link' = - 1"
proof -
  obtain alts1 srv0 where g: "altservers_getListForUplink (env\<lparr>ue_emergency := up_fd link = - 1\<rparr>) rnd 4 alts = (alts1, srv0)" by fastforce
  let ?s = "servers_to_test link srv0"
  let ?ps = "map probes [0..<length ?s]"
  define m where "m = measure_loop (ue_now env) img link 0 (zip ?s ?ps) (start_measurement alts1)"
  have "check_uplink env rnd probes img link alts =
      (let (link, working, closed) = conclude ?s m link (im_working img) in (link, working, ms_alts m, closed))"
    by (simp only: check_uplink_def g Let_def prod.case m_def)
  then have c: "conclude ?s m link (im_working img) = (link', working, closed)"
    using assms(1) by (cases "conclude ?s m link (im_working img)") simp
  have "sound_best img link ?s ?ps (start_measurement alts1)" by (simp add: sound_best_def start_measurement_def)
  then have "sound_best img link ?s ?ps m \<and> mset (ms_closed m) + open_socks m
      = mset (ms_closed (start_measurement alts1)) + open_socks (start_measurement alts1)
        + filter_mset (\<lambda>s. 0 \<le> s) (mset (map (pr_sock \<circ> snd) (zip ?s ?ps)))"
    unfolding m_def by (rule measure_loop_sound) simp_all
  then have s: "sound_best img link ?s ?ps m"
    "mset (ms_closed m) + open_socks m = filter_mset (\<lambda>s. 0 \<le> s) (mset (map (pr_sock \<circ> snd) (zip ?s ?ps)))"
    by (simp_all only: start_measurement_def open_socks_def measurement.simps simp_thms if_False mset.simps add_0)
  have zipped: "map (pr_sock \<circ> snd) (zip ?s ?ps) = map (pr_sock \<circ> probes) [0..<length ?s]"
    by (rule nth_equalityI) simp_all
  show thesis
  proof (rule that [of ?s])
    show "?s = servers_to_test link (snd (altservers_getListForUplink (env\<lparr>ue_emergency := up_fd link = - 1\<rparr>) rnd 4 alts))" using g by simp
    show "filter_mset (\<lambda>s. 0 \<le> s) (mset (map (pr_sock \<circ> probes) [0..<length ?s]))
      = mset closed + (if rttTestResult link' = RTT_DOCHANGE then {#betterFd link'#} else {#})"
      using s(2) unfolding zipped by (cases rule: conclude_cases [OF c]) (simp_all add: open_socks_def)
    show "rttTestResult link' \<in> {RTT_DOCHANGE, RTT_DONTCHANGE, RTT_NOT_REACHABLE}"
      by (cases rule: conclude_cases [OF c]) simp_all
    show "rttTestResult link' \<noteq> RTT_DOCHANGE \<Longrightarrow> betterFd link' = - 1"
      using assms(2) by (cases rule: conclude_cases [OF c]) simp_all
    assume "rttTestResult link' = RTT_DOCHANGE"
    then have b: "bestSock m \<noteq> - 1" "link' = link\<lparr>betterFd := bestSock m, betterServer := ?s ! nat (bestIndex m),
                betterVersion := bestProtocolVersion m, rttTestResult := RTT_DOCHANGE\<rparr>"
      by (cases rule: conclude_cases [OF c]; simp)+
    then obtain i v where i: "i < length ?s" "bestIndex m = int i" "pr_sock (?ps ! i) = bestSock m" "0 \<le> bestSock m"
      "probe_outcome img (?ps ! i) = Probe_ok v" "bestProtocolVersion m = uint v"
      "up_fd link \<noteq> - 1 \<longrightarrow> \<not> isSameAddressPort (?s ! i) (currentServer link)"
      using s(1) unfolding sound_best_def by blast
    then show "\<exists>i<length ?s. \<exists>v. betterServer link' = ?s ! i \<and> pr_sock (probes i) = betterFd link'
       \<and> 0 \<le> betterFd link' \<and> probe_outcome img (probes i) = Probe_ok v \<and> betterVersion link' = uint v
       \<and> (up_fd link \<noteq> - 1 \<longrightarrow> \<not> isSameAddressPort (betterServer link') (currentServer link))"
      using b(2) by (intro exI [of _ i]) simp
  qed
qed


section \<open>The queue of uplinks\<close>

text \<open>An uplink that waits for a measurement is in the queue once and is marked as in progress.\<close>

definition pending_inv :: "alt_state \<Rightarrow> bool" where
  "pending_inv s \<longleftrightarrow> length (pending s) = SERVER_MAX_PENDING_ALT_CHECKS
     \<and> (\<forall>i<length (pending s). \<forall>j<length (pending s). pending s ! i = pending s ! j \<longrightarrow> pending s ! i \<noteq> None \<longrightarrow> i = j)
     \<and> (\<forall>u. Some u \<in> set (pending s) \<longrightarrow> rttTestResult (links s u) = RTT_INPROGRESS \<and> betterFd (links s u) = - 1)"

lemma pending_inv_update:
  assumes "pending_inv s" "pending s' = map (\<lambda>p. if p \<in> gone then None else p) (pending s)"
    "\<And>u. Some u \<in> set (pending s) \<Longrightarrow> Some u \<notin> gone \<Longrightarrow> links s' u = links s u"
  shows "pending_inv s'"
proof -
  have "pending s' ! i = (if pending s ! i \<in> gone then None else pending s ! i)" if "i < length (pending s)" for i
    using that assms(2) by simp
  moreover have "Some u \<in> set (pending s') \<Longrightarrow> Some u \<in> set (pending s) \<and> Some u \<notin> gone" for u
    using assms(2) by (auto split: if_splits)
  moreover have "length (pending s') = length (pending s)" using assms(2) by simp
  ultimately show ?thesis using assms(1,3) unfolding pending_inv_def by (simp split: if_splits)
qed

lemma findUplink_inv:
  assumes "pending_inv s" "altservers_findUplink u s = Some s'"
  shows "pending_inv s'"
proof (cases "rttTestResult (links s u) = RTT_INPROGRESS \<and> Some u \<in> set (pending s)")
  case True
  then show ?thesis using assms by (simp add: altservers_findUplink_def split: if_splits)
next
  case False
  have b: "betterFd (links s u) = - 1" using assms(2) by (simp add: altservers_findUplink_def split: if_splits)
  have notin: "Some u \<notin> set (pending s)" using assms(1) False by (auto simp: pending_inv_def)
  show ?thesis
  proof (cases "first_index (\<lambda>p. p = None) (pending s)")
    case None
    then have "s' = s" using assms(2) False b by (auto simp: altservers_findUplink_def)
    then show ?thesis using assms(1) by simp
  next
    case (Some k)
    then have s': "s' = set_rtt u RTT_INPROGRESS (s\<lparr>pending := (pending s)[k := Some u]\<rparr>)"
      using assms(2) False b by (auto simp: altservers_findUplink_def)
    have k: "k < length (pending s)" "pending s ! k = None" using first_index_Some [OF Some] by auto
    have nu: "pending s ! i \<noteq> Some u" if "i < length (pending s)" for i using notin nth_mem [OF that] by auto
    have p: "pending s' = (pending s)[k := Some u]" using s' by (simp add: set_rtt_def)
    have "i = j" if "i < length (pending s)" "j < length (pending s)" "pending s' ! i = pending s' ! j" "pending s' ! i \<noteq> None" for i j
      using that nu assms(1) k(1) unfolding p pending_inv_def by (auto simp: nth_list_update split: if_splits)
    moreover have "rttTestResult (links s' v) = RTT_INPROGRESS \<and> betterFd (links s' v) = - 1" if "Some v \<in> set (pending s')" for v
    proof (cases "v = u")
      case True
      then show ?thesis using b s' by (simp add: set_rtt_def)
    next
      case False
      then have "Some v \<in> set (pending s)" using that set_update_subset_insert [of "pending s" k "Some u"] unfolding p by auto
      then show ?thesis using False assms(1) s' by (simp add: set_rtt_def pending_inv_def)
    qed
    moreover have "length (pending s') = SERVER_MAX_PENDING_ALT_CHECKS" using assms(1) p by (simp add: pending_inv_def)
    ultimately show ?thesis using p by (simp add: pending_inv_def)
  qed
qed

lemma removeUplink_inv:
  assumes "pending_inv s"
  shows "pending_inv (altservers_removeUplink u s)" "Some u \<notin> set (pending (altservers_removeUplink u s))"
proof -
  show "pending_inv (altservers_removeUplink u s)"
  proof (cases "Some u \<in> set (pending s)")
    case True
    then show ?thesis
      by (intro pending_inv_update [OF assms, of _ "{Some u}"]) (auto simp: altservers_removeUplink_def set_rtt_def)
  next
    case False
    then show ?thesis using assms by (simp add: altservers_removeUplink_def)
  qed
  show "Some u \<notin> set (pending (altservers_removeUplink u s))"
    by (auto simp: altservers_removeUplink_def set_rtt_def)
qed

definition verdict :: "dnbd3_connection \<Rightarrow> bool" where
  "verdict link \<longleftrightarrow> rttTestResult link \<in> {RTT_DOCHANGE, RTT_DONTCHANGE, RTT_NOT_REACHABLE}"

lemma pending_clear:
  assumes "pending_inv s" "i < length (pending s)" "pending s ! i = Some u"
  shows "(pending s)[i := None] = map (\<lambda>p. if p \<in> {Some u} then None else p) (pending s)"
proof (rule nth_equalityI)
  fix j assume j: "j < length ((pending s)[i := None])"
  have "pending s ! j = Some u \<Longrightarrow> j = i" using assms j unfolding pending_inv_def by auto
  then show "(pending s)[i := None] ! j = map (\<lambda>p. if p \<in> {Some u} then None else p) (pending s) ! j"
    using j assms(2,3) by (auto simp: nth_list_update)
qed simp

lemma pending_clear_mem:
  assumes "pending_inv s" "i < length (pending s)"
  shows "Some u \<in> set ((pending s)[i := None]) \<longleftrightarrow> Some u \<in> set (pending s) \<and> Some u \<noteq> pending s ! i"
proof (cases "pending s ! i")
  case None
  then have "(pending s)[i := None] = pending s" by (metis list_update_id)
  then show ?thesis using None by simp
next
  case (Some v)
  show ?thesis unfolding pending_clear [OF assms Some] using Some by auto
qed

definition served_slot :: "alt_state \<Rightarrow> nat \<Rightarrow> alt_state \<Rightarrow> bool" where
  "served_slot s i s' \<longleftrightarrow> pending_inv s' \<and> pending s' = (pending s)[i := None]
     \<and> (\<forall>u. if Some u = pending s ! i then verdict (links s' u) else links s' u = links s u)"

lemma serve_pending_result:
  assumes "pending_inv s" "i < length (pending s)"
  shows "\<exists>s' alts'. serve_pending env i (s, alts) = Some (s', alts') \<and> served_slot s i s'"
proof (cases "pending s ! i")
  case None
  then have "pending s = (pending s)[i := None]" by (metis list_update_id)
  then show ?thesis using None assms(1) by (simp add: serve_pending_def served_slot_def)
next
  case (Some u)
  have at: "Some u \<in> set (pending s)" using Some assms(2) nth_mem by fastforce
  have r: "rttTestResult (links s u) = RTT_INPROGRESS" "betterFd (links s u) = - 1" using assms(1) at by (auto simp: pending_inv_def)
  note upd = pending_clear [OF assms Some]
  have fin: "served_slot s i (clear_slot i (s\<lparr>links := (links s)(u := l)\<rparr>))" if l: "verdict l" for l
  proof -
    have "pending_inv (clear_slot i (s\<lparr>links := (links s)(u := l)\<rparr>))"
      by (rule pending_inv_update [OF assms(1), of _ "{Some u}"]) (auto simp: clear_slot_def upd)
    then show ?thesis using l Some by (simp add: served_slot_def clear_slot_def)
  qed
  show ?thesis
  proof (cases "fst (env i)")
    case None
    then have "serve_pending env i (s, alts) = Some (clear_slot i (s\<lparr>links := (links s)(u := (links s u)\<lparr>rttTestResult := RTT_NOT_REACHABLE\<rparr>)\<rparr>), alts)"
      using Some by (cases "env i") (simp add: serve_pending_def set_rtt_def)
    then show ?thesis using fin [of "(links s u)\<lparr>rttTestResult := RTT_NOT_REACHABLE\<rparr>"] by (simp add: verdict_def)
  next
    case (Some img)
    then obtain ue rnd probes where e: "env i = (Some img, ue, rnd, probes)" by (cases "env i") auto
    obtain l w alts' closed where c: "check_uplink ue rnd probes img (links s u) alts = (l, w, alts', closed)"
      by (cases "check_uplink ue rnd probes img (links s u) alts") auto
    then have "serve_pending env i (s, alts) = Some (clear_slot i (s\<lparr>links := (links s)(u := l)\<rparr>), alts')"
      using \<open>pending s ! i = Some u\<close> e r(1) by (simp add: serve_pending_def)
    moreover have "verdict l" by (rule check_uplink_result [OF c r(2,1)]) (simp add: verdict_def)
    ultimately show ?thesis using fin [of l] by blast
  qed
qed

lemma pending_loop_result:
  assumes "pending_inv s" "i + n = length (pending s)" "\<forall>j<i. pending s ! j = None"
  shows "\<exists>s' alts'. pending_loop env i n (s, alts) = Some (s', alts') \<and> pending_inv s' \<and> set (pending s') \<subseteq> {None}
    \<and> (\<forall>u. Some u \<in> set (pending s) \<longrightarrow> verdict (links s' u)) \<and> (\<forall>u. Some u \<notin> set (pending s) \<longrightarrow> links s' u = links s u)"
  using assms
proof (induction n arbitrary: i s alts)
  case 0
  then show ?case by (auto simp: in_set_conv_nth)
next
  case (Suc n)
  have i: "i < length (pending s)" using Suc.prems(2) by simp
  obtain s1 alts1 where sv: "serve_pending env i (s, alts) = Some (s1, alts1)" "served_slot s i s1"
    using serve_pending_result [OF Suc.prems(1) i] by blast
  have 1: "serve_pending env i (s, alts) = Some (s1, alts1)" "pending_inv s1"
    "pending s1 = (pending s)[i := None]" "\<And>u. Some u \<noteq> pending s ! i \<Longrightarrow> links s1 u = links s u"
    "\<And>u. Some u = pending s ! i \<Longrightarrow> verdict (links s1 u)"
    using sv(1) sv(2) [unfolded served_slot_def] by presburger+
  have z: "\<forall>j<Suc i. pending s1 ! j = None" "Suc i + n = length (pending s1)"
    using Suc.prems(2,3) i 1(3) by (auto simp: less_Suc_eq nth_list_update)
  from Suc.IH [OF 1(2) z(2,1)] obtain s' alts' where 2: "pending_loop env (Suc i) n (s1, alts1) = Some (s', alts')" "pending_inv s'"
    "set (pending s') \<subseteq> {None}" "\<forall>u. Some u \<in> set (pending s1) \<longrightarrow> verdict (links s' u)"
    "\<forall>u. Some u \<notin> set (pending s1) \<longrightarrow> links s' u = links s1 u" by blast
  have mem: "Some u \<in> set (pending s1) \<longleftrightarrow> Some u \<in> set (pending s) \<and> Some u \<noteq> pending s ! i" for u
    unfolding 1(3) by (rule pending_clear_mem [OF Suc.prems(1) i])
  have "verdict (links s' u)" if "Some u \<in> set (pending s)" for u
    using that 2(4,5) mem [of u] 1(5) [of u] by (cases "Some u = pending s ! i") auto
  moreover have "links s' u = links s u" if "Some u \<notin> set (pending s)" for u
    using that 2(5) mem [of u] 1(4) [of u] nth_mem [OF i] by metis
  moreover have "pending_loop env i (Suc n) (s, alts) = Some (s', alts')" using 1(1) 2(1) by simp
  ultimately show ?case using 2(2,3) by blast
qed

section \<open>The table\<close>

definition host_key :: "dnbd3_host \<Rightarrow> u8 \<times> u16 \<times> u8 list" where
  "host_key h = (host_type h, port h, take (addr_len h) (addr h))"

lemma same_host_key: "isSameAddressPort a b \<longleftrightarrow> host_key a = host_key b"
  by (auto simp: isSameAddressPort_def host_key_def addr_len_def)

definition alt_ok :: "dnbd3_alt_server \<Rightarrow> bool" where
  "alt_ok a \<longleftrightarrow> 0 \<le> numFails a \<and> length (as_rtt a) = 5"

definition alts_wf :: "dnbd3_alt_server list \<Rightarrow> bool" where
  "alts_wf alts \<longleftrightarrow> length alts \<le> SERVER_MAX_ALTS \<and> distinct (map (host_key \<circ> as_host) alts) \<and> list_all alt_ok alts"

lemma add_scan_sound:
  "add_scan host i slot as = Some r \<Longrightarrow> (\<forall>a\<in>set as. host_key (as_host a) \<noteq> host_key host)
     \<and> (\<forall>j. r = Some j \<longrightarrow> slot = Some j \<or> i \<le> j \<and> j < i + length as)"
proof (induction as arbitrary: i slot)
  case (Cons a as)
  then have ns: "\<not> isSameAddressPort (as_host a) host" by (auto split: if_splits)
  have "add_scan host (Suc i) (if slot = None \<and> host_type (as_host a) = 0 then Some i else slot) as = Some r"
    using Cons.prems ns by (auto split: if_splits)
  from Cons.IH [OF this] show ?case using ns by (auto simp: same_host_key split: if_splits)
qed simp

lemma alts_wf_same:
  assumes "alts_wf alts" "mset (map as_host alts') = mset (map as_host alts)" "list_all alt_ok alts'"
  shows "alts_wf alts'"
proof -
  have "mset (map (host_key \<circ> as_host) alts') = mset (map (host_key \<circ> as_host) alts)"
    using arg_cong [OF assms(2), of "image_mset host_key"] by (simp add: image_mset.compositionality)
  then have "distinct (map (host_key \<circ> as_host) alts')" using assms(1) mset_eq_imp_distinct_iff unfolding alts_wf_def by blast
  moreover have "length alts' = length alts" using mset_eq_length [OF assms(2)] by simp
  ultimately show ?thesis using assms(1,3) by (simp add: alts_wf_def)
qed

lemma alts_wf_add:
  assumes "alts_wf alts"
  shows "alts_wf (snd (altservers_add host comment prv cl alts))"
proof (cases "add_scan host 0 None alts")
  case None
  then show ?thesis using assms by (simp add: altservers_add_def)
next
  case (Some r)
  note sc = add_scan_sound [OF Some]
  have fresh: "host_key host \<notin> set (map (host_key \<circ> as_host) alts)" using sc by fastforce
  show ?thesis
  proof (cases r)
    case None
    then show ?thesis using assms fresh Some
      by (auto simp: altservers_add_def alts_wf_def set_alt_def alt_ok_def zero_alt_def)
  next
    case (Some j)
    have j: "j < length alts" using sc Some by auto
    have l: "snd (altservers_add host comment prv cl alts) = alts[j := set_alt host comment prv cl (alts ! j)]"
      using Some \<open>add_scan host 0 None alts = Some r\<close> by (simp add: altservers_add_def)
    have "alt_ok (set_alt host comment prv cl (alts ! j))" using assms j by (auto simp: alts_wf_def alt_ok_def set_alt_def list_all_length)
    then show ?thesis using assms fresh unfolding l alts_wf_def
      by (auto simp: map_update set_alt_def [of host] intro!: distinct_list_update list_all_update)
  qed
qed

lemma mset_swap_alts: "i < length xs \<Longrightarrow> j < length xs \<Longrightarrow> mset (swap i j xs) = mset xs"
  using mset_swap [of j xs i] by (simp add: swap_def)

lemma list_all_mset: "mset xs = mset ys \<Longrightarrow> list_all P xs = list_all P ys"
  by (metis list_all_iff mset_eq_setD)

lemma hosts_update: "as_host a = as_host (alts ! i) \<Longrightarrow> map as_host (alts[i := a]) = map as_host alts"
  by (simp add: map_update) (metis list_update_id nth_map linorder_not_le list_update_beyond length_map)

lemma alts_wf_updateRtt:
  assumes "alts_wf alts"
  shows "alts_wf (snd (altservers_updateRtt host rtt alts))"
proof (cases "first_index (\<lambda>a. isSameAddressPort host (as_host a)) alts")
  case None
  then show ?thesis using assms by (simp add: altservers_updateRtt_def)
next
  case (Some i)
  then have i: "i < length alts" using first_index_Some by blast
  then have "alt_ok (alts ! i)" using assms by (simp add: alts_wf_def list_all_length)
  then show ?thesis using assms Some
    by (intro alts_wf_same [OF assms])
       (auto simp: altservers_updateRtt_def Let_def hosts_update alts_wf_def alt_ok_def intro!: list_all_update)
qed

lemma failed_scan_sound:
  "failed_scan host i f l as = (f', l') \<Longrightarrow>
    (\<forall>j. f' = Some j \<longrightarrow> f = Some j \<or> j < i + length as) \<and> (\<forall>j. l' = Some j \<longrightarrow> l = Some j \<or> j < i + length as)"
proof (induction as arbitrary: i f l)
  case (Cons a as)
  show ?case
  proof (cases f)
    case None
    then show ?thesis using Cons.IH [of "Suc i" "if isSameAddressPort host (as_host a) then Some i else None" l] Cons.prems
      by (fastforce split: if_splits)
  next
    case (Some k)
    then show ?thesis using Cons.IH [of "Suc i" f "if host_type (as_host a) \<noteq> 0 \<and> numFails a = 0 then Some i else l"] Cons.prems
      by (fastforce split: if_splits)
  qed
qed simp

lemma alts_wf_serverFailed:
  assumes "alts_wf alts"
  shows "alts_wf (altservers_serverFailed now host alts)"
proof -
  obtain f l where fl: "failed_scan host 0 None None alts = (f, l)" by fastforce
  show ?thesis
  proof (cases f)
    case None
    then show ?thesis using assms fl by (simp add: altservers_serverFailed_def)
  next
    case (Some k)
    have k: "k < length alts" using failed_scan_sound [OF fl] Some by simp
    have lb: "j < length alts" if "l = Some j" for j using failed_scan_sound [OF fl] that by simp
    let ?a = "alts[k := (alts ! k)\<lparr>numFails := numFails (alts ! k) + SERVER_UPLINK_FAIL_INCREASE, lastFail := now\<rparr>]"
    have "alt_ok (alts ! k)" using assms k by (simp add: alts_wf_def list_all_length)
    then have wf: "alts_wf ?a" using assms
      by (intro alts_wf_same [OF assms]) (auto simp: hosts_update alts_wf_def alt_ok_def SERVER_UPLINK_FAIL_INCREASE_def intro!: list_all_update)
    have "alts_wf (swap k j ?a)" if "l = Some j" for j
    proof -
      have "mset (swap k j ?a) = mset ?a" using k lb [OF that] by (intro mset_swap_alts) simp_all
      then show ?thesis
        using wf list_all_mset [of "swap k j ?a" ?a alt_ok] by (intro alts_wf_same [OF wf]) (simp_all only: alts_wf_def mset_map)
    qed
    then have "alts_wf (case l of None \<Rightarrow> ?a | Some j \<Rightarrow> swap k j ?a)" using wf by (cases l) simp_all
    moreover have "altservers_serverFailed now host alts = (if timing_diff (lastFail (alts ! k)) now > SERVER_RTT_INTERVAL_INIT
        then case l of None \<Rightarrow> ?a | Some j \<Rightarrow> swap k j ?a else alts)"
      unfolding altservers_serverFailed_def fl Some prod.case option.case Let_def ..
    ultimately show ?thesis using assms
      by (cases "timing_diff (lastFail (alts ! k)) now > SERVER_RTT_INTERVAL_INIT") (simp_all only: if_True if_False)
  qed
qed

lemma uplink_loop_ok:
  "list_all alt_ok alts \<Longrightarrow> alts \<noteq> [] \<Longrightarrow> list_all alt_ok (fst (uplink_loop env sz k alts out))"
proof (induction k arbitrary: alts out)
  case (Suc k)
  let ?i = "(2 * length alts - Suc k) mod length alts" and ?first = "2 * length alts - Suc k < length alts"
  have "alt_ok (alts ! ?i)" using Suc.prems by (simp add: list_all_length)
  then have "\<not> uplink_skip env ?first (alts ! ?i) \<Longrightarrow> \<not> ?first \<Longrightarrow> alt_ok ((alts ! ?i)\<lparr>numFails := numFails (alts ! ?i) - 1\<rparr>)"
    by (auto simp: uplink_skip_def alt_ok_def)
  then show ?case using Suc.prems Suc.IH by (simp add: Let_def list_all_update)
qed simp

lemma alts_wf_getListForUplink:
  assumes "alts_wf alts" "length alts > 1 \<longrightarrow> rnd < length alts"
  shows "alts_wf (fst (altservers_getListForUplink env rnd sz alts))"
proof (cases "0 < sz \<and> alts \<noteq> []")
  case False
  then show ?thesis using assms by (auto simp: altservers_getListForUplink_def)
next
  case True
  let ?f = "if length alts > 1 then swap 0 rnd alts else alts"
  obtain alts' out where g: "altservers_getListForUplink env rnd sz alts = (alts', out)" by fastforce
  have m: "mset ?f = mset alts" using assms(2) True by (auto intro!: mset_swap_alts)
  have "map as_host alts' = map as_host ?f"
    using uplink_list_eq [OF _ assms(2) g] True assms(1) by (auto simp: alts_wf_def alt_ok_def list_all_iff)
  then have h: "mset (map as_host alts') = mset (map as_host alts)" using m by (simp only: mset_map)
  have "list_all alt_ok ?f" using list_all_mset [OF m, of alt_ok] assms(1) unfolding alts_wf_def by blast
  moreover have "?f \<noteq> []" using True m by (metis mset_zero_iff)
  ultimately have "list_all alt_ok alts'"
    using uplink_loop_ok [of ?f env "min (nat sz) (length ?f)" "2 * length ?f" "[]"] g True
    by (simp add: altservers_getListForUplink_def Let_def split: if_splits)
  then show ?thesis using g alts_wf_same [OF assms(1) h] by simp
qed


inductive alt_step :: "dnbd3_alt_server list \<Rightarrow> dnbd3_alt_server list \<Rightarrow> bool" where
  alt_add: "alt_step alts (snd (altservers_add host comment prv cl alts))"
| alt_rtt: "alt_step alts (snd (altservers_updateRtt host rtt alts))"
| alt_failed: "alt_step alts (altservers_serverFailed now host alts)"
| alt_list: "(length alts > 1 \<longrightarrow> rnd < length alts) \<Longrightarrow> alt_step alts (fst (altservers_getListForUplink env rnd sz alts))"

lemma alt_reachable_wf: "alt_step\<^sup>*\<^sup>* [] alts \<Longrightarrow> alts_wf alts"
proof (induction rule: rtranclp_induct)
  case base
  then show ?case by (simp add: alts_wf_def)
next
  case (step alts alts')
  from step(2,3) show ?case
    by (cases rule: alt_step.cases) (auto intro: alts_wf_add alts_wf_updateRtt alts_wf_serverFailed alts_wf_getListForUplink)
qed

section \<open>Properties\<close>

text \<open>Samples for the witnesses.\<close>

definition sample_alt :: "u8 \<Rightarrow> int \<Rightarrow> dnbd3_alt_server" where
  "sample_alt a fails = zero_alt\<lparr>as_host := \<lparr>addr = a # replicate 15 0, port = 5003, host_type = HOST_IP4\<rparr>, numFails := fails\<rparr>"

definition sample_probe :: probe where
  "sample_probe = \<lparr>pr_sock = 9, pr_selected = True, pr_reply = Some (3, Some ''a'', 1, 40960), pr_requested = True,
     pr_block = Some (CMD_GET_BLOCK, 4096), pr_payload = 4096, pr_start = \<lparr>tv_sec = 0, tv_nsec = 0\<rparr>, pr_end = \<lparr>tv_sec = 0, tv_nsec = 900000\<rparr>\<rparr>"

definition sample_uplink_env :: uplink_env where
  "sample_uplink_env = \<lparr>ue_now = \<lparr>tv_sec = 1000, tv_nsec = 0\<rparr>, ue_proxyPrivateOnly = False, ue_emergency = False\<rparr>"

definition idle_link :: dnbd3_connection where
  "idle_link = sample_link\<lparr>up_fd := - 1, rttTestResult := RTT_INPROGRESS\<rparr>"

text \<open>C36. A client gets the public servers in the order of their scores (closeness of the address minus the failure counter),
  the first ones of the table first among equals, cut off at the requested number: the insertion with \<open>memmove\<close> into the two
  arrays is a stable sort.\<close>

theorem altservers_getListForClient_sorted:
  "altservers_getListForClient host sz alts =
    (if host_type host = 0 then []
     else map (\<lambda>a. \<lparr>se_host = as_host a, se_failures = 0\<rparr>)
       (take (nat sz) (sort_key (\<lambda>a. - client_score host a) (filter (\<lambda>a. host_type (as_host a) \<noteq> 0 \<and> \<not> isPrivate a) alts))))"
  by (rule client_list_eq)

text \<open>Two addresses of the same family are as close as the common prefix of their half bytes is long.\<close>

theorem altservers_netCloseness_prefix:
  assumes "host_type a = host_type b" "length (addr a) = 16" "length (addr b) = 16"
  shows "altservers_netCloseness a b = int (length (longest_common_prefix
    (nibbles (take (addr_len a) (addr a))) (nibbles (take (addr_len a) (addr b)))))"
  using nibble_loop_prefix [of "take (addr_len a) (addr a)" "take (addr_len a) (addr b)" 0] assms
  by (simp add: altservers_netCloseness_def)

text \<open>C37. After any sequence of operations the table of alternative servers has at most \<open>SERVER_MAX_ALTS\<close> entries, no address
  and port twice, and no negative failure counter.\<close>

theorem altservers_table_wf:
  assumes "alt_step\<^sup>*\<^sup>* [] alts"
  shows "length alts \<le> SERVER_MAX_ALTS \<and> (\<forall>i<length alts. \<forall>j<length alts. isSameAddressPort (as_host (alts ! i)) (as_host (alts ! j)) \<longrightarrow> i = j)
    \<and> (\<forall>a\<in>set alts. 0 \<le> numFails a)"
proof -
  have wf: "length alts \<le> SERVER_MAX_ALTS" "distinct (map (host_key \<circ> as_host) alts)" "list_all alt_ok alts"
    using alt_reachable_wf [OF assms] by (auto simp: alts_wf_def)
  have "i = j" if "i < length alts" "j < length alts" "isSameAddressPort (as_host (alts ! i)) (as_host (alts ! j))" for i j
    using nth_eq_iff_index_eq [OF wf(2), of i j] that by (simp add: same_host_key)
  then show ?thesis using wf(1,3) by (auto simp: list_all_iff alt_ok_def)
qed

theorem altservers_table_wf_witness:
  "\<exists>alts :: dnbd3_alt_server list. length alts = 1 \<and> length alts \<le> SERVER_MAX_ALTS \<and> (\<forall>i<length alts. \<forall>j<length alts. isSameAddressPort (as_host (alts ! i)) (as_host (alts ! j)) \<longrightarrow> i = j)
    \<and> (\<forall>a\<in>set alts. 0 \<le> numFails a)"
proof -
  have "alt_step\<^sup>*\<^sup>* [] (snd (altservers_add sample_host None False False []))" using alt_add by (rule r_into_rtranclp)
  note wf = altservers_table_wf [OF this]
  have "length (snd (altservers_add sample_host None False False [])) = 1" by (simp add: altservers_add_def SERVER_MAX_ALTS_def)
  from conjI [OF this wf] show ?thesis by (rule exI)
qed

text \<open>The servers that an uplink tests are eligible ones of the table, those without failures before those with failures, each
  at most once, and as many as were asked for if there are that many. The table keeps its servers.\<close>

theorem altservers_getListForUplink_order:
  assumes "alt_step\<^sup>*\<^sup>* [] alts" "length alts > 1 \<longrightarrow> rnd < length alts" "0 < sz"
    "altservers_getListForUplink env rnd sz alts = (alts', out)"
  defines "flipped \<equiv> (if length alts > 1 then swap 0 rnd alts else alts)"
  shows "out = take (nat sz) (map as_host (filter (\<lambda>s. \<not> uplink_skip env True s) flipped @ filter (\<lambda>s. \<not> uplink_skip env False s) flipped))
    \<and> distinct out \<and> mset (map as_host alts') = mset (map as_host alts)"
proof -
  have wf: "alts_wf alts" by (rule alt_reachable_wf [OF assms(1)])
  then have nf: "\<forall>a\<in>set alts. 0 \<le> numFails a" by (auto simp: alts_wf_def alt_ok_def list_all_iff)
  note eq = uplink_list_eq [OF nf assms(2,4,3), folded flipped_def]
  have "mset (swap 0 rnd alts) = mset alts" if "length alts > 1" using that assms(2) by (intro mset_swap_alts) auto
  then have m: "mset flipped = mset alts" by (simp add: flipped_def)
  have "distinct (map as_host flipped)"
  proof -
    have "distinct (map as_host alts)" using wf by (auto simp: alts_wf_def distinct_map inj_on_def)
    moreover have "mset (map as_host flipped) = mset (map as_host alts)" by (simp add: m)
    ultimately show ?thesis using mset_eq_imp_distinct_iff by blast
  qed
  moreover have "set (filter (\<lambda>s. \<not> uplink_skip env True s) flipped) \<inter> set (filter (\<lambda>s. \<not> uplink_skip env False s) flipped) = {}"
    using nf mset_eq_setD [OF m] by (force simp: uplink_skip_def)
  ultimately have "distinct (map as_host (filter (\<lambda>s. \<not> uplink_skip env True s) flipped @ filter (\<lambda>s. \<not> uplink_skip env False s) flipped))"
    by (auto simp: distinct_map inj_on_def)
  then have "distinct out" using eq by (simp only: distinct_take)
  moreover have "mset (map as_host alts') = mset (map as_host alts)" using eq m by (simp only: mset_map)
  ultimately show ?thesis using eq by blast
qed

theorem altservers_getListForUplink_order_witness:
  "\<exists>alts alts' out flipped. length alts = 1 \<and> flipped = (if length alts > 1 then swap 0 0 alts else alts)
    \<and> altservers_getListForUplink sample_uplink_env 0 4 alts = (alts', out)
    \<and> out = take (nat 4) (map as_host (filter (\<lambda>s. \<not> uplink_skip sample_uplink_env True s) flipped
               @ filter (\<lambda>s. \<not> uplink_skip sample_uplink_env False s) flipped))
    \<and> distinct out"
proof -
  let ?alts = "snd (altservers_add sample_host None False False [])"
  have r: "alt_step\<^sup>*\<^sup>* [] ?alts" using alt_add by (rule r_into_rtranclp)
  have l: "length ?alts = 1" by (simp add: altservers_add_def SERVER_MAX_ALTS_def)
  then have c: "1 < length ?alts \<longrightarrow> 0 < length ?alts" "(0 :: int) < 4" by simp_all
  obtain alts' out where g: "altservers_getListForUplink sample_uplink_env 0 4 ?alts = (alts', out)" by fastforce
  show ?thesis using altservers_getListForUplink_order [OF r c g] l g by blast
qed

text \<open>An uplink is only told to switch to a server that passed the whole test: it offers the image with the same name, revision
  and size, in a supported protocol version, delivered the first block, and is not the server in use.\<close>

theorem rtt_switch_safe:
  assumes "check_uplink env rnd probes img link alts = (link', working, alts', closed)" "betterFd link = - 1"
    "rttTestResult link = RTT_INPROGRESS" "rttTestResult link' = RTT_DOCHANGE"
  shows "\<exists>i v. pr_sock (probes i) = betterFd link' \<and> betterVersion link' = uint v \<and> MIN_SUPPORTED_SERVER \<le> v
    \<and> pr_reply (probes i) = Some (v, Some (im_name img), im_rid img, virtualFilesize img)
    \<and> pr_block (probes i) = Some (CMD_GET_BLOCK, 4096) \<and> pr_payload (probes i) = 4096
    \<and> (up_fd link \<noteq> - 1 \<longrightarrow> \<not> isSameAddressPort (betterServer link') (currentServer link))"
proof -
  have ok: "MIN_SUPPORTED_SERVER \<le> v \<and> pr_reply p = Some (v, Some (im_name img), im_rid img, virtualFilesize img)
      \<and> pr_block p = Some (CMD_GET_BLOCK, 4096) \<and> pr_payload p = 4096" if "probe_outcome img p = Probe_ok v" for p v
  proof -
    have "(ucast (sz :: u32) :: u64) = 4096 \<Longrightarrow> sz = 4096" for sz
      using unat_u32_less [of sz] by (simp add: word_unat_eq_iff unsigned_ucast_eq take_bit_nat_eq_self)
    then show ?thesis using that
      by (auto simp: probe_outcome_def DNBD3_BLOCK_SIZE_def not_less split: if_splits option.splits)
  qed
  show ?thesis by (rule check_uplink_result [OF assms(1-3)]) (use ok assms(4) in blast)
qed

lemma sample_probe_ok: "probe_outcome sample_image sample_probe = Probe_ok 3"
  by (simp add: probe_outcome_def sample_probe_def sample_image_def MIN_SUPPORTED_SERVER_def DNBD3_BLOCK_SIZE_def)

lemma sample_list: "altservers_getListForUplink (sample_uplink_env\<lparr>ue_emergency := True\<rparr>) 0 4 [sample_alt 1 0]
    = ([sample_alt 1 0], [as_host (sample_alt 1 0)])"
  by (simp add: altservers_getListForUplink_def numeral_2_eq_2 uplink_skip_def sample_alt_def zero_alt_def HOST_IP4_def sample_uplink_env_def)

lemma sample_rtt: "altservers_updateRtt (as_host (sample_alt 1 0)) (probe_rtt idle_link False sample_probe) [sample_alt 1 0]
    = (180, [(sample_alt 1 0)\<lparr>rttIndex := 1, as_rtt := [0, 900, 0, 0, 0]\<rparr>])"
proof -
  have "replicate 5 (0 :: u32) = [0, 0, 0, 0, 0]" by (simp add: eval_nat_numeral)
  moreover have "unat (1 mod 5 :: u32) = 1" by simp
  ultimately show ?thesis
    by (simp add: altservers_updateRtt_def probe_rtt_def sample_probe_def sample_alt_def zero_alt_def SERVER_RTT_PROBES_def Let_def
        signed_divide_int_def)
qed

lemma sample_not_current: "isSameAddressPort (as_host (sample_alt 1 0)) (currentServer idle_link) = False"
  by (simp add: isSameAddressPort_def sample_alt_def idle_link_def sample_link_def sample_host_def)

lemma sample_measured: "measure_server now sample_image idle_link 0 (as_host (sample_alt 1 0)) sample_probe (start_measurement [sample_alt 1 0])
    = (start_measurement [(sample_alt 1 0)\<lparr>rttIndex := 1, as_rtt := [0, 900, 0, 0, 0]\<rparr>])\<lparr>bestSock := 9, bestRtt := 180, bestIndex := 0, bestProtocolVersion := 3\<rparr>"
  by (simp add: measure_server_def sample_probe_ok sample_not_current start_measurement_def sample_rtt RTT_UNREACHABLE_def)
     (simp add: sample_probe_def idle_link_def)

lemma sample_check: "check_uplink sample_uplink_env 0 (\<lambda>_. sample_probe) sample_image idle_link [sample_alt 1 0]
    = (idle_link\<lparr>betterFd := 9, betterServer := as_host (sample_alt 1 0), betterVersion := 3, rttTestResult := RTT_DOCHANGE\<rparr>, True,
       [(sample_alt 1 0)\<lparr>rttIndex := 1, as_rtt := [0, 900, 0, 0, 0]\<rparr>], [])"
proof -
  have "up_fd idle_link = - 1" by (simp add: idle_link_def)
  then show ?thesis
    by (simp add: check_uplink_def sample_list servers_to_test_def sample_measured conclude_def)
       (simp add: start_measurement_def sample_image_def)
qed

theorem rtt_switch_safe_witness:
  "let (link', w, alts', closed) = check_uplink sample_uplink_env 0 (\<lambda>_. sample_probe) sample_image idle_link [sample_alt 1 0]
   in rttTestResult link' = RTT_DOCHANGE \<and> (\<exists>i v. pr_sock ((\<lambda>_::nat. sample_probe) i) = betterFd link' \<and> betterVersion link' = uint v \<and> MIN_SUPPORTED_SERVER \<le> v
    \<and> pr_reply sample_probe = Some (v, Some (im_name sample_image), im_rid sample_image, virtualFilesize sample_image)
    \<and> pr_block sample_probe = Some (CMD_GET_BLOCK, 4096) \<and> pr_payload sample_probe = 4096)"
proof -
  obtain link' w alts' closed where c: "check_uplink sample_uplink_env 0 (\<lambda>_. sample_probe) sample_image idle_link [sample_alt 1 0] = (link', w, alts', closed)"
    by (cases "check_uplink sample_uplink_env 0 (\<lambda>_. sample_probe) sample_image idle_link [sample_alt 1 0]") auto
  have "rttTestResult link' = RTT_DOCHANGE" using c unfolding sample_check by auto
  then show ?thesis using rtt_switch_safe [OF c] c by (simp add: idle_link_def sample_link_def)
qed

text \<open>A measurement leaks no socket: every socket that was opened is closed exactly once, except the one handed to the uplink
  when it is told to switch.\<close>

theorem rtt_no_socket_leak:
  assumes "check_uplink env rnd probes img link alts = (link', working, alts', closed)" "betterFd link = - 1"
    "rttTestResult link = RTT_INPROGRESS"
  shows "let servers = servers_to_test link (snd (altservers_getListForUplink (env\<lparr>ue_emergency := up_fd link = - 1\<rparr>) rnd 4 alts)) in
    filter_mset (\<lambda>s. 0 \<le> s) (mset (map (pr_sock \<circ> probes) [0..<length servers]))
      = mset closed + (if rttTestResult link' = RTT_DOCHANGE then {#betterFd link'#} else {#})"
  by (rule check_uplink_result [OF assms]) (simp only: Let_def)

theorem rtt_no_socket_leak_witness:
  "let (link', w, alts', closed) = check_uplink sample_uplink_env 0 (\<lambda>_. sample_probe) sample_image idle_link [sample_alt 1 0];
       servers = servers_to_test idle_link (snd (altservers_getListForUplink (sample_uplink_env\<lparr>ue_emergency := up_fd idle_link = - 1\<rparr>) 0 4 [sample_alt 1 0]))
   in filter_mset (\<lambda>s. 0 \<le> s) (mset (map (pr_sock \<circ> (\<lambda>_. sample_probe)) [0..<length servers]))
      = mset closed + (if rttTestResult link' = RTT_DOCHANGE then {#betterFd link'#} else {#})"
proof -
  obtain link' w alts' closed where c: "check_uplink sample_uplink_env 0 (\<lambda>_. sample_probe) sample_image idle_link [sample_alt 1 0] = (link', w, alts', closed)"
    by (cases "check_uplink sample_uplink_env 0 (\<lambda>_. sample_probe) sample_image idle_link [sample_alt 1 0]") auto
  have "betterFd idle_link = - 1" "rttTestResult idle_link = RTT_INPROGRESS" by (simp_all add: idle_link_def sample_link_def)
  from rtt_no_socket_leak [OF c this] show ?thesis unfolding c by (simp only: Let_def prod.case)
qed

text \<open>Every uplink in the queue for a measurement gets a verdict: the pass over the queue runs without a failed assertion,
  empties the queue and changes no other uplink.\<close>

theorem pending_all_served:
  assumes "pending_inv s"
  shows "\<exists>s' alts'. pending_loop env 0 (length (pending s)) (s, alts) = Some (s', alts') \<and> pending_inv s' \<and> set (pending s') \<subseteq> {None}
    \<and> (\<forall>u. if Some u \<in> set (pending s) then verdict (links s' u) else links s' u = links s u)"
  using pending_loop_result [OF assms, of 0 "length (pending s)" env alts] by auto

definition sample_pending :: alt_state where
  "sample_pending = \<lparr>links = (\<lambda>_. idle_link), pending = Some 7 # replicate 499 None\<rparr>"

theorem pending_all_served_witness:
  "\<exists>s' alts'. pending_loop (\<lambda>_. (None, sample_uplink_env, 0, \<lambda>_. sample_probe)) 0 (length (pending sample_pending)) (sample_pending, []) = Some (s', alts')
    \<and> pending_inv s' \<and> set (pending s') \<subseteq> {None}
    \<and> (\<forall>u. if Some u \<in> set (pending sample_pending) then verdict (links s' u) else links s' u = links sample_pending u)"
proof (rule pending_all_served)
  show "pending_inv sample_pending"
    by (auto simp: pending_inv_def sample_pending_def SERVER_MAX_PENDING_ALT_CHECKS_def idle_link_def sample_link_def nth_Cons' split: if_splits)
qed

end
