(* ===== verification/Image_Crc.thy ===== *)
theory Image_Crc
  imports Crc32 Cache_Map
begin

text \<open>
  The checksum lists of images, from \<open>src/server/image.c\<close>: the checksum of a hash block read from the image
  file, the check of some blocks, the random check when an image is loaded, and writing and reading the file with the
  checksum list. What \<open>pread\<close> and the other system calls return is an argument, \<open>address\<close> is the address of the buffer
  (the checksum routine looks at its alignment).
\<close>

section \<open>The checksum of a hash block\<close>

definition BSIZE :: nat where "BSIZE = 262144"

text \<open>The reading loop: \<open>rs\<close> are the results of \<open>pread\<close>, no more than asked for; an error counts as 0.\<close>

fun crc_read_loop :: "endian \<Rightarrow> nat \<Rightarrow> (nat \<Rightarrow> u8) \<Rightarrow> nat \<Rightarrow> nat \<Rightarrow> nat list \<Rightarrow> u32 \<Rightarrow> u32 option" where
  "crc_read_loop e address f pos 0 rs c = Some c"
| "crc_read_loop e address f pos (Suc n) [] c = None"
| "crc_read_loop e address f pos (Suc n) (r # rs) c =
    (let r = min r (min BSIZE (Suc n)) in
     if r = 0 then None
     else crc_read_loop e address f (pos + r) (Suc n - r) rs (crc32 e c (Some (address, map f [pos..<pos + r]))))"

text \<open>The loop over the zero bytes behind the end of the file.\<close>

function crc_zero_loop :: "endian \<Rightarrow> nat \<Rightarrow> nat \<Rightarrow> u32 \<Rightarrow> u32" where
  "crc_zero_loop e address n c =
    (if n = 0 then c
     else let len = min BSIZE n in crc_zero_loop e address (n - len) (crc32 e c (Some (address, replicate len 0))))"
  by pat_completeness auto
termination
  by (relation "measure (\<lambda>(e, address, n, c). n)") (auto simp: BSIZE_def)

declare crc_zero_loop.simps [simp del]

text \<open>\<open>image_calcBlockCrc32\<close>: the outer option is the assertion, the inner one the return value.\<close>

definition image_calcBlockCrc32 :: "endian \<Rightarrow> nat \<Rightarrow> (nat \<Rightarrow> u8) \<Rightarrow> u64 \<Rightarrow> u64 \<Rightarrow> nat list \<Rightarrow> u32 option option" where
  "image_calcBlockCrc32 e address f block fileSize rs =
    (let bytesFromFile = min HASH_BLOCK_SIZE (fileSize - block * HASH_BLOCK_SIZE);
         vbs = ((fileSize + (DNBD3_BLOCK_SIZE - 1)) AND NOT (DNBD3_BLOCK_SIZE - 1)) - block * HASH_BLOCK_SIZE;
         virtualBytesFromFile = min HASH_BLOCK_SIZE vbs
     in if \<not> vbs \<ge> bytesFromFile then None
        else Some
          (case crc_read_loop e address f (unat (block * HASH_BLOCK_SIZE)) (unat bytesFromFile) rs (crc32 e 0 None) of
             None \<Rightarrow> None
           | Some c \<Rightarrow>
              let c = (if bytesFromFile < virtualBytesFromFile
                       then crc_zero_loop e address (unat (virtualBytesFromFile - bytesFromFile)) c else c)
              in Some (net_order_32 e c)))"

text \<open>\<open>image_checkBlocksCrc32\<close>: the blocks up to the end mark, each with its reads. An index outside of the list is an access
  behind the array: \<open>None\<close>, like a failed assertion.\<close>

fun image_checkBlocksCrc32 :: "endian \<Rightarrow> nat \<Rightarrow> (nat \<Rightarrow> u8) \<Rightarrow> u32 list \<Rightarrow> u64 \<Rightarrow> (nat \<times> nat list) list \<Rightarrow> bool option" where
  "image_checkBlocksCrc32 e address f crcs fileSize [] = Some True"
| "image_checkBlocksCrc32 e address f crcs fileSize ((b, rs) # bs) =
    (case image_calcBlockCrc32 e address f (word_of_nat b) fileSize rs of
       None \<Rightarrow> None
     | Some None \<Rightarrow> Some False
     | Some (Some c) \<Rightarrow>
        if b \<ge> length crcs then None
        else if c \<noteq> crcs ! b then Some False
        else image_checkBlocksCrc32 e address f crcs fileSize bs)"

text \<open>The choice of blocks in \<open>image_checkRandomBlocks\<close>; \<open>rands\<close> are the values of \<open>rand\<close>, one for each round of the loop.\<close>

fun choose_blocks :: "u8 list option \<Rightarrow> u64 \<Rightarrow> nat \<Rightarrow> nat \<Rightarrow> nat list \<Rightarrow> nat list \<Rightarrow> nat list option" where
  "choose_blocks m fileSize hashBlocks count [] blocks = Some blocks"
| "choose_blocks m fileSize hashBlocks count (r # rands) blocks =
    (if \<not> length blocks + 1 < count then Some blocks
     else let block = r mod hashBlocks in
       if block \<in> set blocks then choose_blocks m fileSize hashBlocks count rands blocks
       else (case image_isHashBlockComplete m (word_of_nat block) fileSize of
               None \<Rightarrow> None
             | Some c \<Rightarrow> choose_blocks m fileSize hashBlocks count rands (if c then blocks @ [block] else blocks)))"

definition random_blocks :: "nat \<Rightarrow> u8 list option \<Rightarrow> u64 \<Rightarrow> nat list \<Rightarrow> nat list option" where
  "random_blocks count m fileSize rands =
    (case image_isHashBlockComplete m 0 fileSize of
       None \<Rightarrow> None
     | Some c \<Rightarrow> choose_blocks m fileSize (nat (IMGSIZE_TO_HASHBLOCKS fileSize)) count (take (count * 5 - 1) rands)
         (if c then [0] else []))"

definition image_checkRandomBlocks :: "endian \<Rightarrow> nat \<Rightarrow> (nat \<Rightarrow> u8) \<Rightarrow> nat \<Rightarrow> u64 \<Rightarrow> u32 list \<Rightarrow> u8 list option \<Rightarrow>
    nat list \<Rightarrow> (nat \<Rightarrow> nat list) \<Rightarrow> bool option" where
  "image_checkRandomBlocks e address f count fileSize crcs m rands reads =
    (case random_blocks count m fileSize rands of
       None \<Rightarrow> None
     | Some blocks \<Rightarrow> image_checkBlocksCrc32 e address f crcs fileSize (map (\<lambda>b. (b, reads b)) blocks))"

section \<open>Writing the checksum file\<close>

text \<open>What the system calls of \<open>image_generateCrcFile\<close> report; \<open>gc_writes\<close> and \<open>gc_rereads\<close> have one entry per call.\<close>

record gen_env =
  gc_fileLen :: int
  gc_exists :: bool
  gc_created :: bool
  gc_dummy :: bool
  gc_reads :: "nat \<Rightarrow> nat list"
  gc_writes :: "nat \<Rightarrow> bool"
  gc_seek :: bool
  gc_rereads :: "nat \<Rightarrow> bool"
  gc_pwrite :: bool

text \<open>The checksums of the blocks \<open>i, i + 1, ...\<close>: \<open>None\<close> is a failed assertion, \<open>Inl\<close> what was written before an error.\<close>

fun gen_blocks :: "endian \<Rightarrow> nat \<Rightarrow> (nat \<Rightarrow> u8) \<Rightarrow> gen_env \<Rightarrow> nat \<Rightarrow> nat \<Rightarrow> u8 list \<Rightarrow> (u8 list + u8 list) option" where
  "gen_blocks e address f env i 0 out = Some (Inr out)"
| "gen_blocks e address f env i (Suc n) out =
    (case image_calcBlockCrc32 e address f (word_of_nat i) (word_of_int (gc_fileLen env)) (gc_reads env i) of
       None \<Rightarrow> None
     | Some None \<Rightarrow> Some (Inl out)
     | Some (Some c) \<Rightarrow>
        if \<not> gc_writes env i then Some (Inl out)
        else gen_blocks e address f env (Suc i) n (out @ store_native e 4 (unat c)))"

text \<open>The checksum of the list, read again 100 entries at a time.\<close>

function master_loop :: "endian \<Rightarrow> nat \<Rightarrow> (nat \<Rightarrow> bool) \<Rightarrow> nat \<Rightarrow> nat \<Rightarrow> u8 list \<Rightarrow> u32 \<Rightarrow> u32 option" where
  "master_loop e address ok i blocksToGo bs c =
    (if blocksToGo = 0 then Some c
     else let numBlocks = min 100 blocksToGo in
       if \<not> ok i then None
       else master_loop e address ok (Suc i) (blocksToGo - numBlocks) (drop (4 * numBlocks) bs)
              (crc32 e c (Some (address, take (4 * numBlocks) bs))))"
  by pat_completeness auto
termination
  by (relation "measure (\<lambda>(e, address, ok, i, n, bs, c). n)") auto

declare master_loop.simps [simp del]

text \<open>\<open>image_generateCrcFile\<close> once the image file is open: the return value and the content of the checksum file if it was
  created. \<open>dummy\<close> are the four bytes that hold the place of the checksum of the list.\<close>

definition image_generateCrcFile :: "endian \<Rightarrow> nat \<Rightarrow> nat \<Rightarrow> (nat \<Rightarrow> u8) \<Rightarrow> u8 list \<Rightarrow> gen_env \<Rightarrow> (bool \<times> u8 list option) option" where
  "image_generateCrcFile e address address2 f dummy env =
    (if gc_fileLen env \<le> 0 then Some (False, None)
     else if gc_exists env then Some (False, None)
     else if \<not> gc_created env then Some (False, None)
     else if \<not> gc_dummy env then Some (False, Some [])
     else let blockCount = nat (IMGSIZE_TO_HASHBLOCKS (word_of_int (gc_fileLen env))) in
       (case gen_blocks e address f env 0 blockCount [] of
          None \<Rightarrow> None
        | Some (Inl out) \<Rightarrow> Some (False, Some (dummy @ out))
        | Some (Inr out) \<Rightarrow>
           if \<not> gc_seek env then Some (False, Some (dummy @ out))
           else (case master_loop e address2 (gc_rereads env) 0 blockCount out (crc32 e 0 None) of
                   None \<Rightarrow> Some (False, Some (dummy @ out))
                 | Some c \<Rightarrow>
                    if \<not> gc_pwrite env then Some (False, Some (dummy @ out))
                    else Some (True, Some (store_native e 4 (unat (net_order_32 e c)) @ out)))))"

section \<open>Reading the checksum file\<close>

datatype crc_read = Crc_read nat | Crc_again | Crc_fail

text \<open>The reading loop of \<open>image_loadCrcList\<close>. The target of \<open>pread\<close> is \<open>retval + pos\<close>, where \<open>retval\<close> points to 4 byte words and
  \<open>pos\<close> counts bytes: the data goes to byte \<open>4 * pos\<close>. \<open>None\<close> is a write behind the end of the buffer, the
  result otherwise is \<open>pos\<close> and the buffer.\<close>

definition crc_list_copy :: "nat \<Rightarrow> u8 list \<Rightarrow> u8 list \<Rightarrow> u8 list option" where
  "crc_list_copy pos d buf =
    (if 4 * pos + length d > length buf then None
     else Some (take (4 * pos) buf @ d @ drop (4 * pos + length d) buf))"

fun crc_list_loop :: "u8 list \<Rightarrow> nat \<Rightarrow> crc_read list \<Rightarrow> nat \<Rightarrow> u8 list \<Rightarrow> (nat \<times> u8 list) option" where
  "crc_list_loop cf len [] pos buf = Some (pos, buf)"
| "crc_list_loop cf len (Crc_again # rs) pos buf =
    (if pos < len then crc_list_loop cf len rs pos buf else Some (pos, buf))"
| "crc_list_loop cf len (Crc_fail # rs) pos buf = Some (pos, buf)"
| "crc_list_loop cf len (Crc_read k # rs) pos buf =
    (let d = take k (take (len - pos) (drop (pos + 4) cf)) in
     if \<not> pos < len \<or> d = [] then Some (pos, buf)
     else case crc_list_copy pos d buf of
       None \<Rightarrow> None
     | Some buf \<Rightarrow> crc_list_loop cf len rs (pos + length d) buf)"

fun u32_list :: "endian \<Rightarrow> u8 list \<Rightarrow> u32 list" where
  "u32_list e (a # b # c # d # rest) = word_of_nat (load_native e [a, b, c, d]) # u32_list e rest"
| "u32_list e rest = []"

text \<open>\<open>image_loadCrcList\<close>: \<open>cf\<close> is the content of the file if it can be opened. \<open>None\<close> is an access outside of the buffer. The
  result is the value of \<open>masterCrc\<close> and the list.\<close>

definition image_loadCrcList :: "endian \<Rightarrow> nat \<Rightarrow> u8 list option \<Rightarrow> bool \<Rightarrow> crc_read list \<Rightarrow> u64 \<Rightarrow> (u32 \<times> u32 list option) option" where
  "image_loadCrcList e address cf first_ok rs fileSize = (case cf of
      None \<Rightarrow> Some (0, None)
    | Some cf \<Rightarrow>
       (let hashBlocks = IMGSIZE_TO_HASHBLOCKS fileSize in
        if int (length cf) < (hashBlocks + 1) * 4 then Some (0, None)
        else if \<not> first_ok then Some (0, None)
        else
          let masterCrc = word_of_nat (load_native e (take 4 cf));
              crcFileLen = nat hashBlocks * 4 in
          (case crc_list_loop cf crcFileLen rs 0 (replicate crcFileLen 0) of
             None \<Rightarrow> None
           | Some (pos, retval) \<Rightarrow>
              if pos \<noteq> crcFileLen then Some (masterCrc, None)
              else
                let lists_crc = net_order_32 e (crc32 e (crc32 e 0 None) (Some (address, retval)))
                in Some (masterCrc, if lists_crc \<noteq> masterCrc then None else Some (u32_list e retval)))))"


section \<open>The checksum of a block\<close>

lemma crc32_Nil: "crc32 e c (Some (a, [])) = c"
  by (simp add: crc32_from_spec crc_spec_def)

lemma crc_zero_loop_0: "crc_zero_loop e address 0 c = c"
  by (subst crc_zero_loop.simps) simp

lemma crc_zero_loop_eq: "crc_zero_loop e address n c = crc32 e c (Some (a, replicate n 0))"
proof (induction n arbitrary: c rule: less_induct)
  case (less n)
  show ?case
  proof (cases "n = 0")
    case True
    then show ?thesis by (subst crc_zero_loop.simps) (simp add: crc32_Nil)
  next
    case False
    let ?k = "min BSIZE n"
    have k: "?k \<le> n" "n - ?k < n" using False by (auto simp: BSIZE_def)
    have "replicate ?k (0::u8) @ replicate (n - ?k) 0 = replicate n 0" using k(1) by (simp flip: replicate_add)
    then have "crc32 e (crc32 e c (Some (address, replicate ?k 0))) (Some (a, replicate (n - ?k) 0)) = crc32 e c (Some (a, replicate n 0))"
      by (simp only: crc32_pieces [of e c address "replicate ?k 0" a "replicate (n - ?k) 0" a])
    then show ?thesis using False less.IH [OF k(2)] by (subst crc_zero_loop.simps) (simp add: Let_def)
  qed
qed

definition reads_ok :: "nat \<Rightarrow> nat list \<Rightarrow> bool" where
  "reads_ok n rs \<longleftrightarrow> n \<le> sum_list (map (min BSIZE) rs) \<and> 0 \<notin> set rs"

lemma crc_read_loop_eq:
  "crc_read_loop e address f pos n rs c = None \<and> \<not> reads_ok n rs
   \<or> crc_read_loop e address f pos n rs c = Some (crc32 e c (Some (a, map f [pos..<pos + n])))"
proof (induction n arbitrary: pos rs c rule: less_induct)
  case (less n)
  consider "n = 0" | m where "n = Suc m" "rs = []" | m r rs' where "n = Suc m" "rs = r # rs'"
    by (cases n; cases rs) auto
  then show ?case
  proof cases
    case 1
    then show ?thesis by (simp add: crc32_Nil)
  next
    case 2
    then show ?thesis by (simp add: reads_ok_def)
  next
    case 3
    let ?k = "min r (min BSIZE n)"
    show ?thesis
    proof (cases "?k = 0")
      case True
      then have "r = 0" using 3(1) by (auto simp: BSIZE_def)
      then show ?thesis using 3 by (simp add: reads_ok_def)
    next
      case False
      have lt: "n - ?k < n" "?k \<le> n" using False 3(1) by auto
      have cat: "map f [pos..<pos + ?k] @ map f [pos + ?k..<pos + ?k + (n - ?k)] = map f [pos..<pos + n]"
        using upt_add_eq_append [of pos "pos + ?k" "n - ?k"] lt(2) by (simp flip: map_append)
      have ok: "reads_ok n rs \<Longrightarrow> reads_ok (n - ?k) rs'" using 3 False by (auto simp: reads_ok_def)
      have step: "crc_read_loop e address f pos n rs c
          = crc_read_loop e address f (pos + ?k) (n - ?k) rs' (crc32 e c (Some (address, map f [pos..<pos + ?k])))"
        using False unfolding 3 by (simp only: crc_read_loop.simps Let_def if_False)
      show ?thesis
        using less.IH [OF lt(1), of "pos + ?k" rs' "crc32 e c (Some (address, map f [pos..<pos + ?k]))"] ok
        unfolding step crc32_pieces [of e c address "map f [pos..<pos + ?k]" a "map f [pos + ?k..<pos + ?k + (n - ?k)]" a] cat
        by blast
    qed
  qed
qed

text \<open>The bytes of a hash block of the image: the file, padded with zeros to a multiple of 4 KiB.\<close>

definition virtual_block :: "(nat \<Rightarrow> u8) \<Rightarrow> nat \<Rightarrow> nat \<Rightarrow> u8 list" where
  "virtual_block f n b = map (\<lambda>i. if i < n then f i else 0) [b * 16777216..<min (b * 16777216 + 16777216) ((n + 4095) div 4096 * 4096)]"

lemma virtual_block_split:
  assumes "b * 16777216 < n"
  defines "k \<equiv> min 16777216 (n - b * 16777216)" and "v \<equiv> min 16777216 ((n + 4095) div 4096 * 4096 - b * 16777216)"
  shows "virtual_block f n b = map f [b * 16777216..<b * 16777216 + k] @ replicate (v - k) 0" "k \<le> v"
proof -
  let ?p = "b * 16777216"
  have nv: "n \<le> (n + 4095) div 4096 * 4096" by simp
  show kv: "k \<le> v" unfolding k_def v_def using nv by linarith
  have u: "min (?p + 16777216) ((n + 4095) div 4096 * 4096) = ?p + v" unfolding v_def using assms(1) nv by linarith
  have "[?p..<?p + v] = [?p..<?p + k] @ [?p + k..<?p + v]" using upt_add_eq_append [of ?p "?p + k" "v - k"] kv by simp
  moreover have "map (\<lambda>i. if i < n then f i else 0) [?p..<?p + k] = map f [?p..<?p + k]"
    using assms(1) by (auto simp: k_def)
  moreover have "map (\<lambda>i. if i < n then f i else 0) [?p + k..<?p + v] = replicate (v - k) 0"
  proof -
    have "k = n - ?p \<or> v = k" unfolding k_def v_def using nv by linarith
    then show ?thesis using assms(1) by (intro replicate_eqI) auto
  qed
  ultimately show "virtual_block f n b = map f [?p..<?p + k] @ replicate (v - k) 0"
    unfolding virtual_block_def u by (simp only: map_append)
qed


lemma unat_block_pos:
  assumes "b * 16777216 < unat n" "unat n < 2 ^ 45"
  shows "unat (word_of_nat b * HASH_BLOCK_SIZE) = b * 16777216"
proof -
  have "b < 2 ^ 39" using assms by simp
  from hash_block_pos [OF this] show ?thesis by simp
qed

lemma calcBlockCrc32_eq:
  assumes b: "b * 16777216 < unat n" and n: "unat n < 2 ^ 45"
  shows "image_calcBlockCrc32 e address f (word_of_nat b) n rs = Some None \<and> \<not> reads_ok (min 16777216 (unat n - b * 16777216)) rs
    \<or> image_calcBlockCrc32 e address f (word_of_nat b) n rs = Some (Some (net_order_32 e (crc32 e 0 (Some (a, virtual_block f (unat n) b)))))"
proof -
  let ?p = "word_of_nat b * HASH_BLOCK_SIZE"
  define k v where "k = min 16777216 (unat n - b * 16777216)" and "v = min 16777216 ((unat n + 4095) div 4096 * 4096 - b * 16777216)"
  note p = unat_block_pos [OF b n] and vb = virtual_block_split [OF b, folded k_def v_def]
  define bf where "bf = min HASH_BLOCK_SIZE (n - ?p)"
  define vbs where "vbs = ((n + (DNBD3_BLOCK_SIZE - 1)) AND NOT (DNBD3_BLOCK_SIZE - 1)) - ?p"
  have h: "unat HASH_BLOCK_SIZE = 16777216" by (simp add: HASH_BLOCK_SIZE_def)
  have m: "unat (min x y) = min (unat x) (unat y)" for x y :: u64 by (simp add: min_def word_le_nat_alt)
  have bf: "unat bf = k" using b by (simp add: bf_def k_def m h unat_sub word_le_nat_alt p)
  have al: "(n + (DNBD3_BLOCK_SIZE - 1)) AND NOT (DNBD3_BLOCK_SIZE - 1) = align_up n"
    by (simp add: align_up_def DNBD3_BLOCK_SIZE_def add.commute)
  have ua: "unat (align_up n) = (unat n + 4095) div 4096 * 4096" using n by (simp add: unat_align_up)
  have le: "b * 16777216 \<le> (unat n + 4095) div 4096 * 4096" using b by linarith
  then have uv: "unat vbs = (unat n + 4095) div 4096 * 4096 - b * 16777216"
    unfolding vbs_def al by (simp add: unat_sub word_le_nat_alt p ua)
  define vw where "vw = min HASH_BLOCK_SIZE vbs"
  have vf: "unat vw = v" by (simp add: vw_def m h uv v_def)
  have ge: "vbs \<ge> bf" using vb(2) by (simp add: word_le_nat_alt bf uv v_def)
  have pad: "unat (vw - bf) = v - k"
    using vb(2) by (simp add: unat_sub word_le_nat_alt bf vf)
  have lt: "bf < vw \<longleftrightarrow> v - k \<noteq> 0" using vb(2) by (auto simp: word_less_nat_alt bf vf)
  let ?r = "crc_read_loop e address f (b * 16777216) k rs (crc32 e 0 None)"
  have eq: "image_calcBlockCrc32 e address f (word_of_nat b) n rs = Some (case ?r of None \<Rightarrow> None
      | Some c \<Rightarrow> Some (net_order_32 e (crc_zero_loop e address (v - k) c)))"
    unfolding image_calcBlockCrc32_def Let_def bf_def [symmetric] vbs_def [symmetric] vw_def [symmetric] using ge
    by (simp add: p bf pad lt crc_zero_loop_0 split: option.split)
  have z: "crc_zero_loop e address (v - k) (crc32 e (crc32 e 0 None) (Some (a, map f [b * 16777216..<b * 16777216 + k])))
      = crc32 e 0 (Some (a, virtual_block f (unat n) b))"
    by (simp add: vb(1) crc_zero_loop_eq [where a = a] crc32_pieces [where a'' = a] crc32_def [of e 0 None])
  show ?thesis
    using crc_read_loop_eq [of e address f "b * 16777216" k rs "crc32 e 0 None" a] z by (auto simp: eq k_def)
qed


section \<open>Checking blocks\<close>

lemma hashblocks_eq:
  assumes "unat x < 2 ^ 45"
  shows "IMGSIZE_TO_HASHBLOCKS x = int ((unat x + 16777215) div 16777216)"
proof -
  have e: "x + HASH_BLOCK_SIZE - 1 = x + 16777215" by (simp add: HASH_BLOCK_SIZE_def)
  have u: "unat (x + 16777215) = unat x + 16777215"
    using assms by (subst unat_add_no_wrap) auto
  have "unat ((x + HASH_BLOCK_SIZE - 1) div HASH_BLOCK_SIZE) = (unat x + 16777215) div 16777216"
    by (simp only: e unat_div u) (simp add: HASH_BLOCK_SIZE_def)
  moreover have "(unat x + 16777215) div 16777216 < 2 ^ 31" using assms by simp
  ultimately show ?thesis by (simp add: IMGSIZE_TO_HASHBLOCKS_def to_int_small)
qed

definition hash_blocks :: "nat \<Rightarrow> nat" where
  "hash_blocks n = (n + 16777215) div 16777216"

lemma hash_blocks_less: "b < hash_blocks n \<longleftrightarrow> b * 16777216 < n"
  by (auto simp: hash_blocks_def)

lemma hash_blocks_align: "hash_blocks ((n + 4095) div 4096 * 4096) = hash_blocks n"
proof -
  have "b * 4096 < (n + 4095) div 4096 \<longleftrightarrow> b * 16777216 < n" for b by linarith
  then have "b < hash_blocks ((n + 4095) div 4096 * 4096) \<longleftrightarrow> b < hash_blocks n" for b
    unfolding hash_blocks_less by (simp add: mult.commute [of 4096])
  then show ?thesis by (meson less_irrefl linorder_less_linear)
qed

definition block_crc :: "endian \<Rightarrow> (nat \<Rightarrow> u8) \<Rightarrow> nat \<Rightarrow> nat \<Rightarrow> u32" where
  "block_crc e f n b = net_order_32 e (crc32 e 0 (Some (0, virtual_block f n b)))"

lemma calcBlock_cases:
  assumes "b < hash_blocks (unat n)" "unat n < 2 ^ 45"
  obtains "image_calcBlockCrc32 e address f (word_of_nat b) n rs = Some None" "\<not> reads_ok (min 16777216 (unat n - b * 16777216)) rs"
  | "image_calcBlockCrc32 e address f (word_of_nat b) n rs = Some (Some (block_crc e f (unat n) b))"
  using calcBlockCrc32_eq [OF _ assms(2), of b e address f rs 0] assms(1) unfolding block_crc_def hash_blocks_less by blast

lemma checkBlocks_eq:
  assumes "unat n < 2 ^ 45" "length crcs = hash_blocks (unat n)" "\<forall>(b, rs)\<in>set bs. b < length crcs"
  shows "image_checkBlocksCrc32 e address f crcs n bs \<noteq> None"
    "image_checkBlocksCrc32 e address f crcs n bs = Some True \<Longrightarrow> \<forall>(b, rs)\<in>set bs. crcs ! b = block_crc e f (unat n) b"
    "\<forall>(b, rs)\<in>set bs. reads_ok (min 16777216 (unat n - b * 16777216)) rs \<Longrightarrow> \<forall>(b, rs)\<in>set bs. crcs ! b = block_crc e f (unat n) b \<Longrightarrow>
       image_checkBlocksCrc32 e address f crcs n bs = Some True"
proof -
  have "image_checkBlocksCrc32 e address f crcs n bs \<noteq> None \<and>
    (image_checkBlocksCrc32 e address f crcs n bs = Some True \<longrightarrow> (\<forall>(b, rs)\<in>set bs. crcs ! b = block_crc e f (unat n) b)) \<and>
    ((\<forall>(b, rs)\<in>set bs. reads_ok (min 16777216 (unat n - b * 16777216)) rs) \<longrightarrow> (\<forall>(b, rs)\<in>set bs. crcs ! b = block_crc e f (unat n) b)
      \<longrightarrow> image_checkBlocksCrc32 e address f crcs n bs = Some True)"
    using assms(3)
  proof (induction bs)
    case (Cons x bs)
    obtain b rs where x: "x = (b, rs)" by (cases x)
    then have b: "b < hash_blocks (unat n)" "b < length crcs" using Cons.prems assms(2) by auto
    show ?case
      by (rule calcBlock_cases [OF b(1) assms(1), of e address f rs]) (use Cons b x in auto)
  qed simp
  then show "image_checkBlocksCrc32 e address f crcs n bs \<noteq> None"
    "image_checkBlocksCrc32 e address f crcs n bs = Some True \<Longrightarrow> \<forall>(b, rs)\<in>set bs. crcs ! b = block_crc e f (unat n) b"
    "\<forall>(b, rs)\<in>set bs. reads_ok (min 16777216 (unat n - b * 16777216)) rs \<Longrightarrow> \<forall>(b, rs)\<in>set bs. crcs ! b = block_crc e f (unat n) b \<Longrightarrow>
       image_checkBlocksCrc32 e address f crcs n bs = Some True" by blast+
qed

definition chosen_ok :: "dnbd3_image \<Rightarrow> nat list \<Rightarrow> bool" where
  "chosen_ok img blocks \<longleftrightarrow> distinct blocks \<and> (\<forall>b\<in>set blocks. b < hash_blocks (unat (realFilesize img)) \<and> hash_block_cached img b)"

lemma choose_blocks_ok:
  assumes wf: "image_wf img" and hb: "hb = hash_blocks (unat (realFilesize img))" "0 < hb"
    and "chosen_ok img blocks" "length blocks \<le> max 1 (count - 1)"
  shows "\<exists>bl. choose_blocks (cache_map img) (realFilesize img) hb count rands blocks = Some bl \<and> chosen_ok img bl
    \<and> length bl \<le> max 1 (count - 1) \<and> set blocks \<subseteq> set bl"
  using assms(4,5)
proof (induction rands arbitrary: blocks)
  case (Cons r rands)
  have lt: "r mod hb < hb" using hb(2) by simp
  have "hb \<le> 2 ^ 39" using image_wf_sizes(2,3) [OF wf] by (simp add: hb(1) hash_blocks_def)
  then have c: "image_isHashBlockComplete (cache_map img) (word_of_nat (r mod hb)) (realFilesize img) = Some (hash_block_cached img (r mod hb))"
    using lt by (intro isHashBlockComplete_iff [OF wf]) simp
  show ?case
  proof (cases "length blocks + 1 < count \<and> r mod hb \<notin> set blocks")
    case True
    let ?bl = "if hash_block_cached img (r mod hb) then blocks @ [r mod hb] else blocks"
    have "chosen_ok img ?bl" "length ?bl \<le> max 1 (count - 1)" "set blocks \<subseteq> set ?bl"
      using Cons.prems True lt hb(1) by (auto simp: chosen_ok_def)
    then show ?thesis using Cons.IH [of ?bl] True c by (auto simp: Let_def)
  next
    case False
    then show ?thesis using Cons.IH [OF Cons.prems] Cons.prems by (auto simp: Let_def)
  qed
qed auto

lemma random_blocks_ok:
  assumes "image_wf img" "realFilesize img \<noteq> 0"
  shows "\<exists>bl. random_blocks count (cache_map img) (realFilesize img) rands = Some bl \<and> chosen_ok img bl \<and> length bl \<le> max 1 (count - 1)
    \<and> (hash_block_cached img 0 \<longrightarrow> 0 \<in> set bl)"
proof -
  have "0 < unat (realFilesize img)" using assms(2) by (simp add: unat_gt_0)
  then have hb: "0 < hash_blocks (unat (realFilesize img))" by (simp add: hash_blocks_less)
  have "unat (realFilesize img) < 2 ^ 45" using image_wf_sizes [OF assms(1)] by linarith
  then have n: "nat (IMGSIZE_TO_HASHBLOCKS (realFilesize img)) = hash_blocks (unat (realFilesize img))"
    by (simp add: hashblocks_eq hash_blocks_def)
  have z: "image_isHashBlockComplete (cache_map img) 0 (realFilesize img) = Some (hash_block_cached img 0)"
    using isHashBlockComplete_iff [OF assms(1), of 0] by simp
  have "chosen_ok img (if hash_block_cached img 0 then [0] else [])" using hb by (simp add: chosen_ok_def)
  from choose_blocks_ok [OF assms(1) refl hb this, of count "take (count * 5 - 1) rands"]
  show ?thesis by (auto simp: random_blocks_def z n)
qed


section \<open>The checksum file\<close>

definition list_bytes :: "endian \<Rightarrow> u32 list \<Rightarrow> u8 list" where
  "list_bytes e cs = concat (map (\<lambda>c. store_native e 4 (unat c)) cs)"

lemma length_list_bytes [simp]: "length (list_bytes e cs) = 4 * length cs"
  by (induction cs) (auto simp: list_bytes_def)

lemma length_4: "length xs = 4 \<Longrightarrow> \<exists>a b c d. xs = [a, b, c, d]"
  by (auto simp: length_Suc_conv numeral_eq_Suc)

lemma u32_list_bytes: "u32_list e (list_bytes e cs) = cs"
proof (induction cs)
  case (Cons c cs)
  obtain x0 x1 x2 x3 where s: "store_native e 4 (unat c) = [x0, x1, x2, x3]"
    using length_4 [OF length_store_native] by blast
  then have "word_of_nat (load_native e [x0, x1, x2, x3]) = c" using load_store_words(2) [of e c] by simp
  then show ?case using Cons.IH s by (simp add: list_bytes_def)
qed (simp add: list_bytes_def)

lemma crc32_None: "crc32 e c None = 0"
  by (simp add: crc32_def)

lemma gen_blocks_result:
  assumes n: "unat (N :: u64) < 2 ^ 45" "N = word_of_int (gc_fileLen env)" and i: "i + n \<le> hash_blocks (unat N)"
  shows "\<exists>r. gen_blocks e address f env i n out = Some r
     \<and> (case r of Inl _ \<Rightarrow> \<exists>j<hash_blocks (unat N). \<not> gc_writes env j \<or> \<not> reads_ok (min 16777216 (unat N - j * 16777216)) (gc_reads env j)
        | Inr out' \<Rightarrow> out' = out @ list_bytes e (map (block_crc e f (unat N)) [i..<i + n]))"
  using i
proof (induction n arbitrary: i out)
  case (Suc n)
  have lt: "i < hash_blocks (unat N)" and le: "Suc i + n \<le> hash_blocks (unat N)" using Suc.prems by auto
  have up: "[i..<i + Suc n] = i # [Suc i..<Suc i + n]" by (simp add: upt_rec)
  show ?case
  proof (rule calcBlock_cases [OF lt n(1), of e address f "gc_reads env i"])
    assume "image_calcBlockCrc32 e address f (word_of_nat i) N (gc_reads env i) = Some None"
      "\<not> reads_ok (min 16777216 (unat N - i * 16777216)) (gc_reads env i)"
    then show ?thesis using lt n(2) by auto
  next
    assume c: "image_calcBlockCrc32 e address f (word_of_nat i) N (gc_reads env i) = Some (Some (block_crc e f (unat N) i))"
    show ?thesis
    proof (cases "gc_writes env i")
      case False
      then show ?thesis using c lt n(2) by auto
    next
      case True
      then show ?thesis using Suc.IH [OF le, of "out @ store_native e 4 (unat (block_crc e f (unat N) i))"] c n(2) unfolding up
        by (auto simp: list_bytes_def split: sum.splits)
    qed
  qed
qed (simp add: list_bytes_def)

lemma master_loop_result:
  assumes "length bs = 4 * n"
  shows "(\<exists>j. \<not> ok j) \<and> master_loop e address ok i n bs c = None
    \<or> master_loop e address ok i n bs c = Some (crc32 e c (Some (a, bs)))"
  using assms
proof (induction n arbitrary: i bs c rule: less_induct)
  case (less n)
  show ?case
  proof (cases "n = 0")
    case True
    then show ?thesis using less.prems by (subst (1 2) master_loop.simps) (simp add: crc32_Nil)
  next
    case False
    let ?k = "min 100 n"
    have k: "n - ?k < n" "length (drop (4 * ?k) bs) = 4 * (n - ?k)" using False less.prems by auto
    have "crc32 e (crc32 e c (Some (address, take (4 * ?k) bs))) (Some (a, drop (4 * ?k) bs)) = crc32 e c (Some (a, bs))"
      using crc32_pieces [of e c address "take (4 * ?k) bs" a "drop (4 * ?k) bs" a] by simp
    then show ?thesis
      using less.IH [OF k, of "Suc i" "crc32 e c (Some (address, take (4 * ?k) bs))"] False
      by (subst (1 2) master_loop.simps) (simp add: Let_def, blast)
  qed
qed

definition gen_ok :: "gen_env \<Rightarrow> bool" where
  "gen_ok env \<longleftrightarrow> \<not> gc_exists env \<and> gc_created env \<and> gc_dummy env \<and> gc_seek env \<and> gc_pwrite env \<and> (\<forall>j. gc_writes env j \<and> gc_rereads env j)
    \<and> (\<forall>j < hash_blocks (nat (gc_fileLen env)). reads_ok (min 16777216 (nat (gc_fileLen env) - j * 16777216)) (gc_reads env j))"

definition crc_list :: "endian \<Rightarrow> (nat \<Rightarrow> u8) \<Rightarrow> nat \<Rightarrow> u32 list" where
  "crc_list e f n = map (block_crc e f n) [0..<hash_blocks n]"

definition crc_file :: "endian \<Rightarrow> u32 list \<Rightarrow> u8 list" where
  "crc_file e cs = store_native e 4 (unat (net_order_32 e (crc32 e 0 (Some (0, list_bytes e cs))))) @ list_bytes e cs"

lemma generate_result:
  assumes "0 < gc_fileLen env" "gc_fileLen env < 2 ^ 45"
  shows "case image_generateCrcFile e address address2 f dummy env of None \<Rightarrow> False
    | Some (ok, cf) \<Rightarrow> (ok \<longrightarrow> cf = Some (crc_file e (crc_list e f (nat (gc_fileLen env))))) \<and> (gen_ok env \<longrightarrow> ok)"
proof -
  define N where "N = (word_of_int (gc_fileLen env) :: u64)"
  have uN: "unat N = nat (gc_fileLen env)" using assms word_of_int_inverse_u64 [of "gc_fileLen env"] by (simp add: N_def unat_eq_nat_uint)
  have lt: "unat N < 2 ^ 45" using assms(2) uN by simp
  have hb: "nat (IMGSIZE_TO_HASHBLOCKS N) = hash_blocks (unat N)" using lt by (simp add: hashblocks_eq hash_blocks_def)
  obtain r where r: "gen_blocks e address f env 0 (hash_blocks (unat N)) [] = Some r"
    "case r of Inl _ \<Rightarrow> \<exists>j<hash_blocks (unat N). \<not> gc_writes env j \<or> \<not> reads_ok (min 16777216 (unat N - j * 16777216)) (gc_reads env j)
      | Inr out' \<Rightarrow> out' = list_bytes e (crc_list e f (unat N))"
    using gen_blocks_result [OF lt N_def, of 0 "hash_blocks (unat N)" e address f "[]"] unfolding crc_list_def
    by (auto simp only: append_Nil add_0 le_refl)
  have bad: "\<not> gen_ok env" if "case r of Inl _ \<Rightarrow> True | Inr _ \<Rightarrow> False"
    using r(2) that unfolding gen_ok_def uN [symmetric] by (auto split: sum.splits)
  have run: "image_generateCrcFile e address address2 f dummy env =
      (if gc_exists env \<or> \<not> gc_created env then Some (False, None) else if \<not> gc_dummy env then Some (False, Some [])
       else case r of Inl out \<Rightarrow> Some (False, Some (dummy @ out))
         | Inr out \<Rightarrow>
            if \<not> gc_seek env then Some (False, Some (dummy @ out))
            else (case master_loop e address2 (gc_rereads env) 0 (hash_blocks (unat N)) out 0 of
                    None \<Rightarrow> Some (False, Some (dummy @ out))
                  | Some c \<Rightarrow>
                     if \<not> gc_pwrite env then Some (False, Some (dummy @ out))
                     else Some (True, Some (store_native e 4 (unat (net_order_32 e c)) @ out))))"
    unfolding image_generateCrcFile_def Let_def crc32_None N_def [symmetric] hb r(1) using assms(1) by simp
  show ?thesis
  proof (cases r)
    case (Inl out)
    then show ?thesis using bad unfolding run by auto
  next
    case (Inr out)
    then have o: "out = list_bytes e (crc_list e f (unat N))" using r(2) by simp
    have l: "length out = 4 * hash_blocks (unat N)" by (simp add: o crc_list_def)
    have m: "(\<exists>j. \<not> gc_rereads env j) \<and> master_loop e address2 (gc_rereads env) 0 (hash_blocks (unat N)) out 0 = None
        \<or> master_loop e address2 (gc_rereads env) 0 (hash_blocks (unat N)) out 0 = Some (crc32 e 0 (Some (0, out)))"
      by (rule master_loop_result [OF l])
    then show ?thesis unfolding run Inr by (auto simp: gen_ok_def crc_file_def o uN)
  qed
qed


lemma load_one_read:
  assumes "length cf = len + 4"
  shows "crc_list_loop cf len [Crc_read (length cf)] 0 (replicate len 0) = Some (len, drop 4 cf)"
proof (cases "len = 0")
  case False
  have "take (length cf) (take (len - 0) (drop (0 + 4) cf)) = drop 4 cf" using assms by simp
  moreover have "drop 4 cf \<noteq> []" "length (drop 4 cf) = len" using assms False by auto
  ultimately show ?thesis using False by (simp add: crc_list_copy_def)
qed (use assms in \<open>simp add: Let_def\<close>)

lemma load_generated:
  assumes "unat vsize < 2 ^ 45" "length cs = hash_blocks (unat vsize)"
  shows "image_loadCrcList e address (Some (crc_file e cs)) True [Crc_read (length (crc_file e cs))] vsize
    = Some (net_order_32 e (crc32 e 0 (Some (0, list_bytes e cs))), Some cs)"
proof -
  let ?m = "net_order_32 e (crc32 e 0 (Some (0, list_bytes e cs)))"
  have hb: "IMGSIZE_TO_HASHBLOCKS vsize = int (length cs)" using assms by (simp add: hashblocks_eq hash_blocks_def)
  have l: "length (crc_file e cs) = length cs * 4 + 4" "drop 4 (crc_file e cs) = list_bytes e cs"
    "word_of_nat (load_native e (take 4 (crc_file e cs))) = ?m"
    using load_store_words(2) [of e ?m] by (simp_all add: crc_file_def)
  have "crc32 e 0 (Some (address, list_bytes e cs)) = crc32 e 0 (Some (0, list_bytes e cs))" by (simp only: crc32_from_spec)
  then show ?thesis
    using load_one_read [OF l(1)] l
    by (simp add: image_loadCrcList_def Let_def hb crc32_None u32_list_bytes del: crc_list_loop.simps)
qed


section \<open>Properties\<close>

text \<open>C24. The check of hash blocks against the checksum list never runs into its assertion or reads outside of the list, however the reads are
  split. It accepts only blocks whose bytes, padded with zeros to a multiple of 4 KiB, have the CRC-32 of the list, and accepts these
  unless a read fails.\<close>

theorem image_checkBlocksCrc32_correct:
  assumes "unat n < 2 ^ 45" "length crcs = hash_blocks (unat n)" "\<forall>(b, rs)\<in>set bs. b < length crcs"
  shows "\<exists>ok. image_checkBlocksCrc32 e address f crcs n bs = Some ok
    \<and> (ok \<longrightarrow> (\<forall>(b, rs)\<in>set bs. crcs ! b = block_crc e f (unat n) b))
    \<and> ((\<forall>(b, rs)\<in>set bs. crcs ! b = block_crc e f (unat n) b) \<and> (\<forall>(b, rs)\<in>set bs. reads_ok (min 16777216 (unat n - b * 16777216)) rs) \<longrightarrow> ok)"
  using checkBlocks_eq [OF assms, where e = e and address = address and f = f] by (cases "image_checkBlocksCrc32 e address f crcs n bs") auto

theorem image_checkBlocksCrc32_correct_witness:
  "image_checkBlocksCrc32 LE 0 (\<lambda>_. 7) [block_crc LE (\<lambda>_. 7) 5000 0] 5000 [(0, [4000, 1000])] = Some True"
proof -
  have h: "hash_blocks (unat (5000 :: u64)) = 1" by (simp add: hash_blocks_def)
  have "reads_ok 5000 [4000, 1000]" by (simp add: reads_ok_def BSIZE_def)
  then show ?thesis
    using image_checkBlocksCrc32_correct [of 5000 "[block_crc LE (\<lambda>_. 7) 5000 0]" "[(0, [4000, 1000])]" LE 0 "\<lambda>_. 7"]
    unfolding h by (auto simp del: image_checkBlocksCrc32.simps)
qed

text \<open>The blocks for the random check are different complete hash blocks of the image, among them the first one if it is
  complete. There are at most \<open>count - 1\<close> of them altogether, although the description speaks of the first one and up to \<open>count - 1\<close>
  others.\<close>

theorem image_checkRandomBlocks_choice:
  assumes "image_wf img" "realFilesize img \<noteq> 0" "count \<ge> 2"
  shows "\<exists>bl. random_blocks count (cache_map img) (realFilesize img) rands = Some bl
    \<and> distinct bl \<and> (\<forall>b\<in>set bl. b < hash_blocks (unat (realFilesize img)) \<and> hash_block_cached img b)
    \<and> (hash_block_cached img 0 \<longrightarrow> 0 \<in> set bl) \<and> length bl \<le> count - 1"
proof -
  have "max 1 (count - 1) = count - 1" using assms(3) by simp
  then show ?thesis using random_blocks_ok [OF assms(1,2), of count rands] by (auto simp: chosen_ok_def)
qed

theorem image_checkRandomBlocks_choice_witness:
  "\<exists>bl. random_blocks 4 (cache_map sample_image) (realFilesize sample_image) [5, 9] = Some bl \<and> length bl \<le> 3"
  using image_checkRandomBlocks_choice [of sample_image 4 "[5, 9]"] sample_image_wf by (auto simp: sample_image_def)

text \<open>The checksum file that \<open>image_generateCrcFile\<close> writes is read back by \<open>image_loadCrcList\<close>: when it reports success, loading gives the
  CRC-32 of each hash block of the padded image and the checksum of the list matches, on the same kind of host. It reports success when no call fails.\<close>

theorem crc_file_roundtrip:
  assumes "0 < gc_fileLen env" "gc_fileLen env < 2 ^ 44" "unat vsize = (nat (gc_fileLen env) + 4095) div 4096 * 4096"
  shows "\<exists>ok cf. image_generateCrcFile e address address2 f dummy env = Some (ok, cf) \<and> (gen_ok env \<longrightarrow> ok) \<and>
    (ok \<longrightarrow> (\<exists>master file. cf = Some file
       \<and> image_loadCrcList e address3 cf True [Crc_read (length file)] vsize = Some (master, Some (crc_list e f (nat (gc_fileLen env))))))"
proof -
  let ?n = "nat (gc_fileLen env)"
  have b: "gc_fileLen env < 2 ^ 45" "unat vsize < 2 ^ 45" using assms(2,3) by auto
  have l: "length (crc_list e f ?n) = hash_blocks (unat vsize)" by (simp add: crc_list_def assms(3) hash_blocks_align)
  show ?thesis
    using generate_result [OF assms(1) b(1), where e = e and address = address and ?address2.0 = address2 and f = f and dummy = dummy]
      load_generated [OF b(2) l] by (auto split: option.splits)
qed

definition sample_gen :: gen_env where
  "sample_gen = \<lparr>gc_fileLen = 5000, gc_exists = False, gc_created = True, gc_dummy = True, gc_reads = (\<lambda>_. [4000, 1000]),
     gc_writes = (\<lambda>_. True), gc_seek = True, gc_rereads = (\<lambda>_. True), gc_pwrite = True\<rparr>"

theorem crc_file_roundtrip_witness:
  "\<exists>cf master. image_generateCrcFile LE 0 0 (\<lambda>_. 7) [1, 2, 3, 4] sample_gen = Some (True, Some cf)
     \<and> image_loadCrcList LE 0 (Some cf) True [Crc_read (length cf)] 8192 = Some (master, Some (crc_list LE (\<lambda>_. 7) 5000))"
proof -
  have "gen_ok sample_gen" by (auto simp: gen_ok_def sample_gen_def hash_blocks_def reads_ok_def BSIZE_def)
  then show ?thesis
    using crc_file_roundtrip [of sample_gen 8192 LE 0 0 "\<lambda>_. 7" "[1, 2, 3, 4]" 0] by (auto simp: sample_gen_def)
qed

text \<open>When the first \<open>pread\<close> of the checksum list is short, the next one writes behind the end of the buffer: the position is counted in
  bytes, but added to a pointer to 4 byte words.\<close>

theorem crc_list_short_read_overflow:
  assumes "unat vsize < 2 ^ 45" "length cf = 4 * hash_blocks (unat vsize) + 4" "0 < p" "p < 4 * hash_blocks (unat vsize)"
  shows "image_loadCrcList e address (Some cf) True (Crc_read p # Crc_read (length cf) # rs) vsize = None"
proof -
  let ?len = "4 * hash_blocks (unat vsize)"
  have hb: "IMGSIZE_TO_HASHBLOCKS vsize = int (hash_blocks (unat vsize))" using assms(1) by (simp add: hashblocks_eq hash_blocks_def)
  let ?d = "take p (take (?len - 0) (drop (0 + 4) cf))"
  have d: "length ?d = p" "?d \<noteq> []" using assms(2-4) by auto
  obtain buf where b: "crc_list_copy 0 ?d (replicate ?len 0) = Some buf" "length buf = ?len"
    using d(1) assms(4) by (auto simp: crc_list_copy_def)
  let ?d2 = "take (length cf) (take (?len - p) (drop (p + 4) cf))"
  have d2: "length ?d2 = ?len - p" "?d2 \<noteq> []" using assms(2-4) by auto
  have "4 * p + (?len - p) > length buf" unfolding b(2) using assms(3,4) by linarith
  then have c: "crc_list_copy p ?d2 buf = None" unfolding crc_list_copy_def d2(1) by simp
  have "crc_list_loop cf ?len (Crc_read (length cf) # rs) p buf = None"
    unfolding crc_list_loop.simps Let_def c using d2(2) assms(4) by simp
  then have "crc_list_loop cf ?len (Crc_read p # Crc_read (length cf) # rs) 0 (replicate ?len 0) = None"
    unfolding crc_list_loop.simps(4) [of cf ?len p] Let_def b(1) d(1) option.case using d(2) assms(3,4) by simp
  then show ?thesis using assms(2) by (simp add: image_loadCrcList_def Let_def hb mult.commute del: crc_list_loop.simps)
qed

theorem crc_list_short_read_overflow_witness:
  "image_loadCrcList LE 0 (Some (replicate 12 0)) True [Crc_read 4, Crc_read 12] 0x2000000 = None"
proof -
  have "hash_blocks (unat (0x2000000 :: u64)) = 2" by (simp add: hash_blocks_def)
  then show ?thesis using crc_list_short_read_overflow [where vsize = "0x2000000" and cf = "replicate 12 0" and p = 4 and rs = "[]"] by simp
qed

end
