(* ===== verification/Uplink_Thread.thy ===== *)
theory Uplink_Thread
  imports Alt_Servers Image_Crc
begin

text \<open>
  The uplink thread, from \<open>src/server/uplink.c\<close>: setting up and shutting down an uplink, background
  replication, the loop over the replies of the upstream server, the loss of the connection, the
  checksum list of the upstream server, and the parts of \<open>uplink_mainloop\<close>. Calls into other
  parts of the server that the functions make are listed in their results as \<open>action\<close>s.
\<close>

section \<open>Configuration and actions\<close>

datatype bgr = BGR_DISABLED | BGR_FULL | BGR_HASHBLOCK

record up_conf =
  uc_isProxy :: bool
  uc_shutdown :: bool
  uc_bgr :: bgr
  uc_bgrMinClients :: int
  uc_maxPayload :: u32

datatype action = Act_serverFailed dnbd3_host | Act_findUplink | Act_saveCacheMap

section \<open>Starting and stopping\<close>

text \<open>\<open>calloc\<close> clears the structure.\<close>

definition zero_host :: dnbd3_host where
  "zero_host = \<lparr>addr = replicate 16 0, port = 0, host_type = 0\<rparr>"

definition new_uplink :: "int \<Rightarrow> dnbd3_host \<Rightarrow> int \<Rightarrow> dnbd3_connection" where
  "new_uplink sock host version =
    \<lparr>up_fd = - 1, up_version = 0, currentServer = zero_host,
     rttTestResult = (if sock \<ge> 0 then RTT_DOCHANGE else RTT_IDLE), cacheFd = - 1,
     betterVersion = (if sock \<ge> 0 then version else 0), betterFd = (if sock \<ge> 0 then sock else - 1),
     betterServer = (if sock \<ge> 0 then host else zero_host), recvBufferLen = 0, up_shutdown = False,
     replicatedLastBlock = False, cycleDetected = False, nextReplicationIndex = 0, replicationHandle = REP_NONE,
     bytesReceived = 0, idleTime = 0, queue = []\<rparr>"

text \<open>The result is the return value, \<open>image->uplink\<close>, and the sockets closed. \<open>existing\<close> is the
  uplink that the image has, \<open>started\<close> whether the thread could be created.\<close>

definition uplink_init :: "up_conf \<Rightarrow> bool \<Rightarrow> dnbd3_image \<Rightarrow> int \<Rightarrow> dnbd3_host \<Rightarrow> int \<Rightarrow> dnbd3_connection option \<Rightarrow>
    bool \<times> dnbd3_connection option \<times> int list" where
  "uplink_init conf started img sock host version existing =
    (if \<not> uc_isProxy conf \<or> uc_shutdown conf then (False, existing, [])
     else if (case existing of None \<Rightarrow> False | Some link \<Rightarrow> \<not> up_shutdown link)
     then (True, existing, if sock \<ge> 0 then [sock] else [])
     else if cache_map img = None then (False, existing, [])
     else if \<not> started then (False, None, [])
     else (True, Some (new_uplink sock host version), []))"

text \<open>The flag says whether this call joins the thread.\<close>

definition uplink_shutdown :: "dnbd3_connection option \<Rightarrow> dnbd3_connection option \<times> bool" where
  "uplink_shutdown existing = (case existing of
      None \<Rightarrow> (None, False)
    | Some link \<Rightarrow> if \<not> up_shutdown link then (Some (link\<lparr>up_shutdown := True\<rparr>), True) else (Some link, False))"

definition SERVER_UPLINK_IDLE_TIMEOUT :: u32 where "SERVER_UPLINK_IDLE_TIMEOUT = 1800"
definition SERVER_UPLINK_KEEPALIVE_INTERVAL :: u32 where "SERVER_UPLINK_KEEPALIVE_INTERVAL = 10"

definition uplink_connectionShouldShutdown :: "up_conf \<Rightarrow> dnbd3_connection \<Rightarrow> bool" where
  "uplink_connectionShouldShutdown conf link \<longleftrightarrow> idleTime link > SERVER_UPLINK_IDLE_TIMEOUT \<and> uc_bgr conf \<noteq> BGR_FULL"

section \<open>Background replication\<close>

definition FILE_BYTES_PER_MAP_BYTE :: u64 where "FILE_BYTES_PER_MAP_BYTE = DNBD3_BLOCK_SIZE * 8"
definition MAP_BYTES_PER_HASH_BLOCK :: int where "MAP_BYTES_PER_HASH_BLOCK = 512"
definition MAP_INDEX_HASH_START_MASK :: int where "MAP_INDEX_HASH_START_MASK = NOT (MAP_BYTES_PER_HASH_BLOCK - 1)"

text \<open>The scan of \<open>uplink_sendReplicationRequest\<close> over \<open>n\<close> map bytes from \<open>j\<close>, modulo the length of the map.\<close>

fun rep_scan :: "u8 list \<Rightarrow> nat \<Rightarrow> bool \<Rightarrow> nat \<Rightarrow> nat \<Rightarrow> int" where
  "rep_scan m mapBytes lastDone j 0 = - 1"
| "rep_scan m mapBytes lastDone j (Suc n) =
    (let i = j mod mapBytes in
     if m ! i \<noteq> 0xff \<and> (i \<noteq> mapBytes - 1 \<or> \<not> lastDone) then int i
     else rep_scan m mapBytes lastDone (Suc j) n)"

text \<open>The loop of \<open>uplink_findNextIncompleteHashBlock\<close> over the indexes in the order it visits them.\<close>

definition byte_full :: "u8 list \<Rightarrow> nat \<Rightarrow> bool \<Rightarrow> nat \<Rightarrow> bool" where
  "byte_full m mapBytes lastDone i \<longleftrightarrow> m ! i = 0xff \<or> (i + 1 = mapBytes \<and> lastDone)"

fun find_loop :: "u8 list \<Rightarrow> nat \<Rightarrow> bool \<Rightarrow> nat list \<Rightarrow> int \<Rightarrow> int" where
  "find_loop m mapBytes lastDone [] retval = - 1"
| "find_loop m mapBytes lastDone (i # is) retval =
    (let isFull = byte_full m mapBytes lastDone i; isEmpty = (m ! i = 0) in
     if \<not> isEmpty \<and> \<not> isFull then (if retval = - 1 then int i else retval)
     else if int i AND MAP_INDEX_HASH_START_MASK = int i
     then find_loop m mapBytes lastDone is (if isEmpty then int i else - 1)
     else if isFull then (if retval \<noteq> - 1 then retval else find_loop m mapBytes lastDone is retval)
     else if isEmpty then (if retval = - 1 then int i else find_loop m mapBytes lastDone is retval)
     else find_loop m mapBytes lastDone is retval)"

definition uplink_findNextIncompleteHashBlock :: "dnbd3_connection \<Rightarrow> dnbd3_image \<Rightarrow> int \<Rightarrow> int" where
  "uplink_findNextIncompleteHashBlock link img startMapIndex = (case cache_map img of
      None \<Rightarrow> - 1
    | Some m \<Rightarrow>
       (let mapBytes = nat (IMGSIZE_TO_MAPBYTES (virtualFilesize img));
            start = nat (startMapIndex AND MAP_INDEX_HASH_START_MASK)
        in find_loop m mapBytes (replicatedLastBlock link) (map (\<lambda>j. (start + j) mod mapBytes) [0..<mapBytes]) (- 1)))"

text \<open>What happens once an index is chosen.\<close>

definition replicate_index :: "up_conf \<Rightarrow> bool \<Rightarrow> int \<Rightarrow> int \<Rightarrow> dnbd3_image \<Rightarrow> dnbd3_connection \<Rightarrow>
    dnbd3_connection \<times> block_request list" where
  "replicate_index conf sendOk mapBytes replicationIndex img link =
    (let offset = word_of_int replicationIndex * FILE_BYTES_PER_MAP_BYTE;
         link = link\<lparr>replicationHandle := offset\<rparr>;
         sz = ucast (min (virtualFilesize img - offset) FILE_BYTES_PER_MAP_BYTE)
     in if \<not> sendOk then (link, [])
        else
          let link = (if replicationIndex = mapBytes - 1 then link\<lparr>replicatedLastBlock := True\<rparr> else link);
              link = link\<lparr>nextReplicationIndex := replicationIndex + 1\<rparr>;
              link = (if uc_bgr conf = BGR_HASHBLOCK \<and> nextReplicationIndex link mod MAP_BYTES_PER_HASH_BLOCK = 0
                      then link\<lparr>nextReplicationIndex := uplink_findNextIncompleteHashBlock link img (nextReplicationIndex link)\<rparr>
                      else link)
          in (link, [(offset, sz, offset, COND_HOPCOUNT (up_version link) 1)]))"

definition replication_index :: "up_conf \<Rightarrow> int \<Rightarrow> u8 list \<Rightarrow> dnbd3_image \<Rightarrow> dnbd3_connection \<Rightarrow> int" where
  "replication_index conf mapBytes m img link =
    (let endByte = (if uc_bgr conf = BGR_FULL then nextReplicationIndex link + mapBytes
                    else min ((nextReplicationIndex link + MAP_BYTES_PER_HASH_BLOCK) AND MAP_INDEX_HASH_START_MASK) mapBytes);
         idx = rep_scan m (nat mapBytes) (replicatedLastBlock link) (nat (nextReplicationIndex link))
                 (nat (endByte - nextReplicationIndex link))
     in if idx = - 1 \<and> uc_bgr conf = BGR_HASHBLOCK then uplink_findNextIncompleteHashBlock link img endByte else idx)"

text \<open>The conditions under which nothing is replicated.\<close>

definition replication_off :: "up_conf \<Rightarrow> dnbd3_image \<Rightarrow> dnbd3_connection \<Rightarrow> bool" where
  "replication_off conf img link \<longleftrightarrow> up_fd link = - 1 \<or> uc_bgr conf = BGR_DISABLED \<or> cacheFd link = - 1
     \<or> nextReplicationIndex link = - 1 \<or> replicationHandle link \<noteq> REP_NONE
     \<or> virtualFilesize img < DNBD3_BLOCK_SIZE \<or> im_users img < uc_bgrMinClients conf"

definition uplink_sendReplicationRequest :: "up_conf \<Rightarrow> bool \<Rightarrow> dnbd3_image \<Rightarrow> dnbd3_connection \<Rightarrow>
    dnbd3_connection \<times> block_request list" where
  "uplink_sendReplicationRequest conf sendOk img link =
    (case cache_map img of
       None \<Rightarrow> (link, [])
     | Some m \<Rightarrow>
        if replication_off conf img link then (link, [])
        else
          let mapBytes = IMGSIZE_TO_MAPBYTES (virtualFilesize img);
              replicationIndex = replication_index conf mapBytes m img link
          in if replicationIndex = - 1 then (link\<lparr>nextReplicationIndex := - 1\<rparr>, [])
             else replicate_index conf sendOk mapBytes replicationIndex img link)"

section \<open>Loss of the connection\<close>

definition uplink_connectionFailed :: "up_conf \<Rightarrow> bool \<Rightarrow> dnbd3_connection \<Rightarrow> dnbd3_connection \<times> action list" where
  "uplink_connectionFailed conf findNew link =
    (if up_fd link = - 1 then (link, [])
     else
       let failed = Act_serverFailed (currentServer link);
           link = link\<lparr>up_fd := - 1, replicationHandle := REP_NONE\<rparr>;
           link = (if uc_bgr conf = BGR_FULL \<and> nextReplicationIndex link = - 1 then link\<lparr>nextReplicationIndex := 0\<rparr> else link)
       in if \<not> findNew then (link, [failed])
          else if rttTestResult link = RTT_INPROGRESS \<or> betterFd link \<noteq> - 1 then (link, [failed])
          else (link, [failed, Act_findUplink]))"

section \<open>The loop over the replies\<close>

text \<open>One round: what \<open>dnbd3_read_reply\<close> and \<open>sock_recv\<close> deliver, and what opening and writing the image file report.\<close>

record reply_event =
  re_code :: reply_code
  re_ret :: int
  re_payload :: "u8 list"
  re_opened :: int
  re_writes :: "pwrite_event list"

type_synonym uplink_files = "dnbd3_connection \<times> dnbd3_image \<times> (nat \<Rightarrow> u8)"

text \<open>\<open>None\<close> is a failed assertion or a write behind the end of the receive buffer. The flag of the result is false when
  the loop was left by \<open>goto error_cleanup\<close>.\<close>

definition grow_buffer :: "up_conf \<Rightarrow> u32 \<Rightarrow> dnbd3_connection \<Rightarrow> dnbd3_connection" where
  "grow_buffer conf sz link = (if recvBufferLen link < sz
     then link\<lparr>recvBufferLen := min (uc_maxPayload conf) (sz + 65536)\<rparr> else link)"

fun receive_loop :: "up_conf \<Rightarrow> reply_event list \<Rightarrow> uplink_files \<Rightarrow> client_reply list \<Rightarrow>
    (uplink_files \<times> client_reply list \<times> bool) option" where
  "receive_loop conf [] st replies = Some (st, replies, True)"
| "receive_loop conf (ev # evs) (link, img, file) replies =
    (case re_code ev of
       REPLY_INTR \<Rightarrow>
         if \<not> uc_shutdown conf \<and> \<not> up_shutdown link then receive_loop conf evs (link, img, file) replies
         else Some ((link, img, file), replies, False)
     | REPLY_AGAIN \<Rightarrow> Some ((link, img, file), replies, True)
     | REPLY_OK inReply \<Rightarrow>
         if rp_size inReply > uc_maxPayload conf then Some ((link, img, file), replies, False)
         else
           let link = grow_buffer conf (rp_size inReply) link in
           if rp_size inReply > recvBufferLen link then None
           else if re_ret ev \<noteq> int (unat (rp_size inReply)) then Some ((link, img, file), replies, False)
           else if rp_cmd inReply \<noteq> CMD_GET_BLOCK then receive_loop conf evs (link, img, file) replies
           else (case receive_block (re_opened ev) (re_writes ev) (rp_handle inReply) (re_payload ev) (link, img, file) of
                   None \<Rightarrow> None
                 | Some (st, rs, checks) \<Rightarrow> receive_loop conf evs st (replies @ rs))
     | _ \<Rightarrow> Some ((link, img, file), replies, False))"

definition uplink_handleReceive :: "up_conf \<Rightarrow> bool \<Rightarrow> reply_event list \<Rightarrow> uplink_files \<Rightarrow>
    (uplink_files \<times> client_reply list \<times> block_request list \<times> action list) option" where
  "uplink_handleReceive conf sendOk evs st =
    (case receive_loop conf evs st [] of
       None \<Rightarrow> None
     | Some ((link, img, file), replies, ok) \<Rightarrow>
        if ok then
          (let (link, out) = (if replicationHandle link = REP_NONE \<and> queue link = []
                              then uplink_sendReplicationRequest conf sendOk img link else (link, []))
           in Some ((link, img, file), replies, out, []))
        else (case uplink_connectionFailed conf True link of (link, acts) \<Rightarrow> Some ((link, img, file), replies, [], acts)))"

section \<open>Checksum list of the upstream server\<close>

text \<open>The result is the image and, when the list was accepted, the bytes written to the \<open>.crc\<close> file. \<open>address\<close> is where
  the list was allocated.\<close>

definition uplink_addCrc32 :: "endian \<Rightarrow> nat \<Rightarrow> recv_event list \<Rightarrow> dnbd3_image \<Rightarrow> dnbd3_image \<times> u8 list option" where
  "uplink_addCrc32 e address es img =
    (if virtualFilesize img = 0 then (img, None)
     else case fst (dnbd3_get_crc32 e (nat (IMGSIZE_TO_HASHBLOCKS (virtualFilesize img)) * 4) es) of
       None \<Rightarrow> (img, None)
     | Some (bytes, masterCrc, lst) \<Rightarrow>
        if bytes = 0 then (img, None)
        else
          let lists_crc = net_order_32 e (crc32 e (crc32 e 0 None) (Some (address, lst)))
          in if lists_crc \<noteq> masterCrc then (img, None)
             else (img\<lparr>masterCrc32 := masterCrc, im_crc32 := Some (u32_list e lst)\<rparr>,
                   Some (store_native e 4 (unat masterCrc) @ lst)))"

section \<open>The main loop\<close>

definition SERVER_RTT_INTERVAL_MAX :: int where "SERVER_RTT_INTERVAL_MAX = 45"
definition SERVER_RTT_BACKOFF_COUNT :: u32 where "SERVER_RTT_BACKOFF_COUNT = 5"
definition SERVER_RTT_INTERVAL_FAILED :: int where "SERVER_RTT_INTERVAL_FAILED = 180"

record loop_vars =
  altCheckInterval :: int
  discoverFailCount :: u32
  unsavedSeconds :: u32
  nextAltCheck :: ticks
  lastKeepalive :: ticks

text \<open>The time to wait in \<open>poll\<close>, in milliseconds.\<close>

definition poll_wait :: "up_conf \<Rightarrow> ticks \<Rightarrow> loop_vars \<Rightarrow> dnbd3_connection \<Rightarrow> int" where
  "poll_wait conf now lv link =
    (if rttTestResult link = RTT_DOCHANGE then 0
     else if up_fd link = - 1 \<and> \<not> uplink_connectionShouldShutdown conf link then 1000
     else let waitTime = to_int (timing_diffMs now (nextAltCheck lv));
              waitTime = (if waitTime < 100 then 100 else waitTime)
          in if waitTime > 5000 then 5000 else waitTime)"

text \<open>Switching to the server that the measurement found. \<open>crc\<close> is the outcome of \<open>uplink_addCrc32\<close>, called when the image has
  no list yet. The result has the requests sent to the new server and the socket that is closed.\<close>

definition switch_fields :: "dnbd3_connection \<Rightarrow> dnbd3_connection" where
  "switch_fields link = link\<lparr>rttTestResult := RTT_IDLE, up_fd := betterFd link, betterFd := - 1,
     currentServer := betterServer link, up_version := betterVersion link, cycleDetected := False,
     replicationHandle := REP_NONE, replicatedLastBlock := False\<rparr>"

definition switch_server :: "up_conf \<Rightarrow> (dnbd3_image \<Rightarrow> dnbd3_image) \<Rightarrow> bool list \<Rightarrow> bool \<Rightarrow> ticks \<Rightarrow> loop_vars \<Rightarrow>
    dnbd3_connection \<times> dnbd3_image \<Rightarrow> (dnbd3_connection \<times> dnbd3_image) \<times> loop_vars \<times> block_request list \<times> bool \<times> int list \<times> action list" where
  "switch_server conf crc sends repOk now lv st = (case st of (link, img) \<Rightarrow>
    if rttTestResult link \<noteq> RTT_DOCHANGE then ((link, img), lv, [], True, [], [])
    else
      let closed = (if up_fd link \<noteq> - 1 then [up_fd link] else []);
          link = switch_fields link;
          img = img\<lparr>im_working := True\<rparr>;
          img = (if im_crc32 img = None then crc img else img);
          (link, out, ok) = uplink_sendRequests False sends link;
          acts = (if ok then [] else [Act_serverFailed (currentServer link)]);
          (link, rep) = uplink_sendReplicationRequest conf repOk img link
      in ((link, img), lv\<lparr>discoverFailCount := 0, nextAltCheck := timing_set now (altCheckInterval lv)\<rparr>, out @ rep, ok, closed, acts))"

text \<open>The signal: new requests are sent, or the idle time is reset so that the uplink connects again.\<close>

definition handle_signal :: "bool list \<Rightarrow> dnbd3_connection \<Rightarrow> dnbd3_connection \<times> block_request list \<times> bool" where
  "handle_signal sends link =
    (if up_fd link \<noteq> - 1 then uplink_sendRequests True sends link else (link\<lparr>idleTime := 0\<rparr>, [], True))"

text \<open>The work that is due every \<open>SERVER_UPLINK_KEEPALIVE_INTERVAL\<close> seconds. \<open>sent\<close> is the result of the keep-alive.\<close>

definition keepalive_tick :: "up_conf \<Rightarrow> bool \<Rightarrow> bool \<Rightarrow> ticks \<Rightarrow> loop_vars \<Rightarrow> dnbd3_image \<Rightarrow> dnbd3_connection \<Rightarrow>
    dnbd3_connection \<times> loop_vars \<times> block_request list \<times> action list" where
  "keepalive_tick conf sent repOk now lv img link =
    (let timepassed = timing_diff (lastKeepalive lv) now in
     if timepassed < SERVER_UPLINK_KEEPALIVE_INTERVAL then (link, lv, [], [])
     else
       let link = link\<lparr>idleTime := idleTime link + timepassed\<rparr>;
           unsaved = unsavedSeconds lv + timepassed;
           save = (unsaved > 240 \<or> (unsaved > 60 \<and> idleTime link \<ge> 20 \<and> idleTime link \<le> 70));
           lv = lv\<lparr>lastKeepalive := now, unsavedSeconds := (if save then 0 else unsaved)\<rparr>;
           (link, out, acts) = (if up_fd link \<noteq> - 1 \<and> replicationHandle link = REP_NONE
              then if sent then (case uplink_sendReplicationRequest conf repOk img link of (link, out) \<Rightarrow> (link, out, []))
                   else (case uplink_connectionFailed conf True link of (link, acts) \<Rightarrow> (link, [], acts))
              else (link, [], []));
           link = (if up_fd link \<noteq> - 1 \<and> uplink_connectionShouldShutdown conf link
                   then link\<lparr>up_fd := - 1, cycleDetected := False, recvBufferLen := 0\<rparr> else link)
       in (link, lv, out, (if save then [Act_saveCacheMap] else []) @ acts))"

text \<open>Deciding whether to look for a better server. \<open>Inl\<close> is the end of the thread because the image is complete; \<open>None\<close> a
  failed assertion of \<open>image_isComplete\<close>.\<close>

definition rtt_trigger :: "up_conf \<Rightarrow> ticks \<Rightarrow> loop_vars \<Rightarrow> dnbd3_image \<Rightarrow> dnbd3_connection \<Rightarrow>
    (dnbd3_image + dnbd3_connection \<times> dnbd3_image \<times> loop_vars \<times> action list) option" where
  "rtt_trigger conf now lv img link =
    (if rttTestResult link = RTT_IDLE \<or> rttTestResult link = RTT_DONTCHANGE then
       (if timing_reached (nextAltCheck lv) now \<or> (up_fd link = - 1 \<and> \<not> uplink_connectionShouldShutdown conf link) \<or> cycleDetected link
        then (case image_isComplete img of
                None \<Rightarrow> None
              | Some (True, img, _) \<Rightarrow> Some (Inl img)
              | Some (False, img, _) \<Rightarrow>
                 (let find = \<not> uplink_connectionShouldShutdown conf link;
                      link = (if find \<and> uc_bgr conf = BGR_FULL \<and> nextReplicationIndex link = - 1
                              then link\<lparr>nextReplicationIndex := 0\<rparr> else link);
                      interval = min (altCheckInterval lv + 1) SERVER_RTT_INTERVAL_MAX
                  in Some (Inr (link, img, lv\<lparr>altCheckInterval := interval, nextAltCheck := timing_set now interval\<rparr>,
                                if find then [Act_findUplink] else []))))
        else Some (Inr (link, img, lv, [])))
     else if rttTestResult link = RTT_NOT_REACHABLE then
       (let count = discoverFailCount lv + 1
        in Some (Inr (link\<lparr>rttTestResult := RTT_IDLE\<rparr>, img, lv\<lparr>discoverFailCount := count,
             nextAltCheck := timing_set now (if count < SERVER_RTT_BACKOFF_COUNT then altCheckInterval lv else SERVER_RTT_INTERVAL_FAILED)\<rparr>, [])))
     else Some (Inr (link, img, lv, [])))"

section \<open>Scanning the cache map\<close>

lemma and_hash_mask: "int i AND MAP_INDEX_HASH_START_MASK = int (i div 512 * 512)"
proof -
  have m: "MAP_INDEX_HASH_START_MASK = NOT (mask 9)"
    by (simp add: MAP_INDEX_HASH_START_MASK_def MAP_BYTES_PER_HASH_BLOCK_def mask_eq_exp_minus_1)
  have "int i AND NOT (mask 9) = push_bit 9 (drop_bit 9 (int i))" by (rule bit_eqI) (auto simp: bit_simps)
  then show ?thesis unfolding m by (simp add: push_bit_eq_mult drop_bit_eq_div zdiv_int)
qed

lemma hash_start_iff: "int i AND MAP_INDEX_HASH_START_MASK = int i \<longleftrightarrow> i mod 512 = 0"
  unfolding and_hash_mask of_nat_eq_iff by (metis add_cancel_right_right div_mult_mod_eq)

lemma rep_scan_cases:
  "rep_scan m n lastDone j k = - 1 \<and> (\<forall>t<k. m ! ((j + t) mod n) = 0xff \<or> ((j + t) mod n = n - 1 \<and> lastDone))
   \<or> (\<exists>t<k. rep_scan m n lastDone j k = int ((j + t) mod n) \<and> m ! ((j + t) mod n) \<noteq> 0xff
        \<and> \<not> ((j + t) mod n = n - 1 \<and> lastDone))"
proof (induction k arbitrary: j)
  case (Suc k)
  let ?i = "j mod n"
  show ?case
  proof (cases "m ! ?i \<noteq> 0xff \<and> (?i \<noteq> n - 1 \<or> \<not> lastDone)")
    case True
    then show ?thesis by (intro disjI2 exI [of _ 0]) auto
  next
    case False
    then have e: "rep_scan m n lastDone j (Suc k) = rep_scan m n lastDone (Suc j) k" by (auto simp: Let_def)
    consider (none) "rep_scan m n lastDone (Suc j) k = - 1"
        "\<forall>t<k. m ! ((Suc j + t) mod n) = 0xff \<or> ((Suc j + t) mod n = n - 1 \<and> lastDone)"
      | (some) t where "t < k" "rep_scan m n lastDone (Suc j) k = int ((Suc j + t) mod n)" "m ! ((Suc j + t) mod n) \<noteq> 0xff"
        "\<not> ((Suc j + t) mod n = n - 1 \<and> lastDone)"
      using Suc.IH [of "Suc j"] by blast
    then show ?thesis
    proof cases
      case none
      have "m ! ((j + t) mod n) = 0xff \<or> ((j + t) mod n = n - 1 \<and> lastDone)" if "t < Suc k" for t
        using that False none(2) by (cases t) auto
      then show ?thesis using e none(1) by simp
    next
      case some
      then show ?thesis using e by (intro disjI2 exI [of _ "Suc t"]) auto
    qed
  qed
qed simp

text \<open>\<open>uniform\<close>: the bytes of a hash block are all complete or all empty. \<open>scanned\<close> relates the variable \<open>retval\<close> to the part of
  the current hash block that was visited.\<close>

definition uniform :: "u8 list \<Rightarrow> nat \<Rightarrow> bool \<Rightarrow> nat \<Rightarrow> nat \<Rightarrow> bool" where
  "uniform m n lastDone a b \<longleftrightarrow> (\<forall>k k'. a \<le> k \<and> k < b \<and> a \<le> k' \<and> k' < b \<and> k div 512 = k' div 512 \<longrightarrow>
     byte_full m n lastDone k \<and> byte_full m n lastDone k' \<or> m ! k = 0 \<and> m ! k' = 0)"

definition scanned :: "u8 list \<Rightarrow> nat \<Rightarrow> bool \<Rightarrow> nat \<Rightarrow> int \<Rightarrow> bool" where
  "scanned m n lastDone i ret \<longleftrightarrow> (ret = - 1 \<or> (\<exists>k<n. ret = int k \<and> m ! k = 0)) \<and>
     (if ret = - 1 then \<forall>k. i div 512 * 512 \<le> k \<and> k < i \<longrightarrow> byte_full m n lastDone k
      else \<forall>k. i div 512 * 512 \<le> k \<and> k < i \<longrightarrow> m ! k = 0)"

definition found_ok :: "u8 list \<Rightarrow> nat \<Rightarrow> int \<Rightarrow> bool" where
  "found_ok m n r \<longleftrightarrow> (\<exists>i<n. r = int i \<and> m ! i \<noteq> 0xff)"

lemma block_before: "\<not> i mod 512 = 0 \<Longrightarrow> Suc i div 512 * 512 \<le> k \<Longrightarrow> k < Suc i \<Longrightarrow> i div 512 * 512 \<le> k" for i k :: nat
  by (simp add: div_Suc split: if_splits)

lemma block_start: "i mod 512 = 0 \<Longrightarrow> Suc i div 512 * 512 = i" "i mod 512 = 0 \<Longrightarrow> i div 512 * 512 = i" for i :: nat
  by (auto simp: div_Suc mod_Suc)

lemma uniform_Suc:
  assumes "uniform m n l a0 i" "scanned m n l i ret"
    "if ret = - 1 \<or> i mod 512 = 0 then byte_full m n l i \<or> i mod 512 = 0 \<and> m ! i = 0 else m ! i = 0"
  shows "uniform m n l a0 (Suc i)"
  unfolding uniform_def
proof (intro allI impI)
  have new: "byte_full m n l k \<and> byte_full m n l i \<or> m ! k = 0 \<and> m ! i = 0"
    if k: "k \<le> i" "k div 512 = i div 512" for k
  proof (cases "i mod 512 = 0")
    case True
    then have "k = i" using k block_start(2) [of i] div_times_less_eq_dividend [of k 512] by simp
    then show ?thesis using assms(3) True by auto
  next
    case False
    have "i div 512 * 512 \<le> k" using k(2) div_times_less_eq_dividend [of k 512] by simp
    then show ?thesis using assms(2,3) False k(1) by (cases "k = i"; cases "ret = - 1") (auto simp: scanned_def)
  qed
  fix k k' assume *: "a0 \<le> k \<and> k < Suc i \<and> a0 \<le> k' \<and> k' < Suc i \<and> k div 512 = k' div 512"
  show "byte_full m n l k \<and> byte_full m n l k' \<or> m ! k = 0 \<and> m ! k' = 0"
  proof (cases "k = i \<or> k' = i")
    case True
    then show ?thesis using new [of k] new [of k'] * by auto
  next
    case False
    then show ?thesis using assms(1) * unfolding uniform_def by simp
  qed
qed

lemma find_loop_range:
  assumes "a \<le> b" "b \<le> n" "scanned m n l a ret" "uniform m n l a0 a"
  shows "found_ok m n (find_loop m n l ([a..<b] @ rest) ret)
    \<or> (\<exists>ret'. find_loop m n l ([a..<b] @ rest) ret = find_loop m n l rest ret' \<and> uniform m n l a0 b \<and> scanned m n l b ret')"
  using assms
proof (induction "b - a" arbitrary: a ret)
  case 0
  then show ?case by auto
next
  case (Suc d)
  let ?full = "byte_full m n l a" and ?empty = "m ! a = 0"
  have ab: "a < b" "[a..<b] = a # [Suc a..<b]" using Suc.hyps(2) by (auto simp: upt_conv_Cons)
  have an: "a < n" using ab Suc.prems(2) by simp
  note sc = Suc.prems(3) and un = Suc.prems(4)
  have go: ?case if "find_loop m n l ([a..<b] @ rest) ret = find_loop m n l ([Suc a..<b] @ rest) ret1"
    "scanned m n l (Suc a) ret1" "uniform m n l a0 (Suc a)" for ret1
    using Suc.hyps(1) [of "Suc a" ret1] Suc.hyps(2) Suc.prems(2) that ab(1) by auto
  have ret: "ret = - 1 \<or> found_ok m n ret" using sc by (auto simp: scanned_def found_ok_def)
  have nff: "\<not> ?full \<Longrightarrow> found_ok m n (int a)" using an by (auto simp: found_ok_def byte_full_def)
  consider (part) "\<not> ?empty" "\<not> ?full" | (head) "?empty \<or> ?full" "a mod 512 = 0"
    | (full_stop) "?full" "\<not> a mod 512 = 0" "ret \<noteq> - 1" | (full) "?full" "\<not> a mod 512 = 0" "ret = - 1"
    | (empty_stop) "?empty" "\<not> ?full" "\<not> a mod 512 = 0" "ret = - 1" | (empty) "?empty" "\<not> ?full" "\<not> a mod 512 = 0" "ret \<noteq> - 1"
    by blast
  then show ?case
  proof cases
    case part
    then have "find_loop m n l ([a..<b] @ rest) ret = (if ret = - 1 then int a else ret)" unfolding ab(2) by (simp add: Let_def)
    then show ?thesis using ret nff part by auto
  next
    case head
    let ?ret = "if ?empty then int a else - 1 :: int"
    have "find_loop m n l ([a..<b] @ rest) ret = find_loop m n l ([Suc a..<b] @ rest) ?ret"
      unfolding ab(2) using head by (auto simp: Let_def hash_start_iff)
    moreover have "k = a" if "Suc a div 512 * 512 \<le> k" "k < Suc a" for k using that block_start(1) [OF head(2)] by simp
    then have "scanned m n l (Suc a) ?ret" using head(1) an by (auto simp: scanned_def)
    moreover have "uniform m n l a0 (Suc a)" using head by (intro uniform_Suc [OF un sc]) auto
    ultimately show ?thesis by (rule go)
  next
    case full_stop
    then have "find_loop m n l ([a..<b] @ rest) ret = ret" unfolding ab(2) by (simp add: Let_def hash_start_iff)
    then show ?thesis using ret full_stop by simp
  next
    case full
    then have "find_loop m n l ([a..<b] @ rest) ret = find_loop m n l ([Suc a..<b] @ rest) ret"
      unfolding ab(2) by (simp add: Let_def hash_start_iff)
    moreover have "scanned m n l (Suc a) ret"
      using sc full block_before [OF full(2)] by (auto simp: scanned_def less_Suc_eq)
    moreover have "uniform m n l a0 (Suc a)" using full by (intro uniform_Suc [OF un sc]) auto
    ultimately show ?thesis by (rule go)
  next
    case empty_stop
    then have "find_loop m n l ([a..<b] @ rest) ret = int a" unfolding ab(2) by (simp add: Let_def hash_start_iff)
    then show ?thesis using nff empty_stop by simp
  next
    case empty
    then have "find_loop m n l ([a..<b] @ rest) ret = find_loop m n l ([Suc a..<b] @ rest) ret"
      unfolding ab(2) by (simp add: Let_def hash_start_iff)
    moreover have "scanned m n l (Suc a) ret"
      using sc empty block_before [OF empty(3)] by (auto simp: scanned_def less_Suc_eq)
    moreover have "uniform m n l a0 (Suc a)" using empty by (intro uniform_Suc [OF un sc]) auto
    ultimately show ?thesis by (rule go)
  qed
qed

lemma scanned_start: "a mod 512 = 0 \<Longrightarrow> ret = - 1 \<or> (\<exists>k<n. ret = int k \<and> m ! k = 0) \<Longrightarrow> scanned m n l a ret"
  using block_start(2) [of a] by (auto simp: scanned_def)

lemma rotated_upt: "s \<le> n \<Longrightarrow> map (\<lambda>j. (s + j) mod n) [0..<n] = [s..<n] @ [0..<s]"
proof -
  assume s: "s \<le> n"
  have "[0..<n] = [0..<n - s] @ [n - s..<n]" using s by (metis add_diff_inverse_nat diff_le_self le_add_diff_inverse2 upt_add_eq_append zero_le)
  moreover have "map (\<lambda>j. (s + j) mod n) [0..<n - s] = [s..<n]"
    by (rule nth_equalityI) (use s in auto)
  moreover have "map (\<lambda>j. (s + j) mod n) [n - s..<n] = [0..<s]"
    by (rule nth_equalityI) (use s in \<open>auto simp: mod_if\<close>)
  ultimately show ?thesis by simp
qed

lemma find_loop_all:
  assumes "s \<le> n" "s mod 512 = 0"
  shows "found_ok m n (find_loop m n l (map (\<lambda>j. (s + j) mod n) [0..<n]) (- 1))
    \<or> find_loop m n l (map (\<lambda>j. (s + j) mod n) [0..<n]) (- 1) = - 1 \<and> uniform m n l 0 n"
proof -
  let ?f = "find_loop m n l ([s..<n] @ [0..<s] @ []) (- 1)"
  have un: "uniform m n l x x" for x by (auto simp: uniform_def)
  consider "found_ok m n ?f" | ret where "?f = find_loop m n l ([0..<s] @ []) ret" "uniform m n l s n" "scanned m n l n ret"
    using find_loop_range [where rest = "[0..<s] @ []" and ret = "- 1" and m = m and l = l, OF assms(1) order_refl scanned_start [OF assms(2)] un] by auto
  then have "found_ok m n ?f \<or> ?f = - 1 \<and> uniform m n l 0 n"
  proof cases
    case 2
    have sc: "scanned m n l 0 ret" using 2(3) by (auto intro!: scanned_start simp: scanned_def)
    consider "found_ok m n (find_loop m n l ([0..<s] @ []) ret)" | "find_loop m n l ([0..<s] @ []) ret = - 1" "uniform m n l 0 s"
      using find_loop_range [where rest = "[]", OF _ assms(1) sc un] by auto
    then show ?thesis
    proof cases
      case 1
      then show ?thesis using 2(1) by simp
    next
      case uni: 2
      have "uniform m n l 0 n"
        unfolding uniform_def
      proof (intro allI impI)
        fix k k' assume k: "0 \<le> k \<and> k < n \<and> 0 \<le> k' \<and> k' < n \<and> k div 512 = k' div 512"
        have "k < s \<longleftrightarrow> k' < s" using k assms(2) by (metis div_mult_mod_eq add.right_neutral less_mult_imp_div_less div_less_iff_less_mult zero_less_numeral)
        then show "byte_full m n l k \<and> byte_full m n l k' \<or> m ! k = 0 \<and> m ! k' = 0"
          using uni(2) 2(2) k unfolding uniform_def by (cases "k < s") auto
      qed
      then show ?thesis using 2(1) uni(1) by simp
    qed
  qed simp
  then show ?thesis unfolding rotated_upt [OF assms(1)] by simp
qed

lemma find_next_cases:
  assumes "cache_map img = Some m" "image_wf img" "0 \<le> idx" "idx \<le> int (length m)"
  shows "found_ok m (length m) (uplink_findNextIncompleteHashBlock link img idx)
    \<or> uplink_findNextIncompleteHashBlock link img idx = - 1 \<and> uniform m (length m) (replicatedLastBlock link) 0 (length m)"
proof -
  have n: "nat (IMGSIZE_TO_MAPBYTES (virtualFilesize img)) = length m"
    using image_wf_map(1,5) [OF assms(2,1)] mapbytes_eq [of "virtualFilesize img"] by simp
  define s where "s = nat idx div 512 * 512"
  have "nat (idx AND MAP_INDEX_HASH_START_MASK) = s" using and_hash_mask [of "nat idx"] assms(3) by (simp add: s_def)
  moreover have "s \<le> length m" "s mod 512 = 0" using assms(4) div_times_less_eq_dividend [of "nat idx" 512] by (auto simp: s_def)
  ultimately show ?thesis
    using find_loop_all [of s "length m" m "replicatedLastBlock link"] assms(1) n
    by (simp add: uplink_findNextIncompleteHashBlock_def Let_def)
qed

section \<open>The replication request\<close>

lemma replication_index_cases:
  assumes "cache_map img = Some m" "image_wf img" "m \<noteq> []" "0 \<le> nextReplicationIndex link" "nextReplicationIndex link \<le> int (length m)"
  shows "found_ok m (length m) (replication_index conf (int (length m)) m img link)
    \<or> replication_index conf (int (length m)) m img link = - 1
      \<and> (uc_bgr conf = BGR_FULL \<longrightarrow> (\<forall>i<length m. m ! i = 0xff \<or> i = length m - 1 \<and> replicatedLastBlock link))
      \<and> (uc_bgr conf = BGR_HASHBLOCK \<longrightarrow> uniform m (length m) (replicatedLastBlock link) 0 (length m))"
proof -
  let ?n = "length m" and ?j = "nat (nextReplicationIndex link)"
  let ?lim = "if uc_bgr conf = BGR_FULL then nextReplicationIndex link + int ?n
     else min ((nextReplicationIndex link + MAP_BYTES_PER_HASH_BLOCK) AND MAP_INDEX_HASH_START_MASK) (int ?n)"
  let ?k = "nat (?lim - nextReplicationIndex link)"
  let ?s = "rep_scan m ?n (replicatedLastBlock link) ?j ?k"
  have eq: "replication_index conf (int ?n) m img link =
      (if ?s = - 1 \<and> uc_bgr conf = BGR_HASHBLOCK then uplink_findNextIncompleteHashBlock link img ?lim else ?s)"
    by (simp add: replication_index_def Let_def)
  have rn: "(x mod ?n) < ?n" for x using assms(3) by simp
  consider (some) "found_ok m ?n ?s" | (none) "?s = - 1" "\<forall>t<?k. m ! ((?j + t) mod ?n) = 0xff \<or> ((?j + t) mod ?n = ?n - 1 \<and> replicatedLastBlock link)"
    using rep_scan_cases [of m ?n "replicatedLastBlock link" ?j ?k] rn unfolding found_ok_def by blast
  then show ?thesis
  proof cases
    case some
    then have "?s \<noteq> - 1" by (auto simp: found_ok_def)
    then show ?thesis using some eq by simp
  next
    case none
    show ?thesis
    proof (cases "uc_bgr conf = BGR_HASHBLOCK")
      case True
      have "nextReplicationIndex link + MAP_BYTES_PER_HASH_BLOCK = int (?j + 512)"
        using assms(4) by (simp add: MAP_BYTES_PER_HASH_BLOCK_def)
      then have "0 \<le> ?lim" "?lim \<le> int ?n" using True by (simp_all only: and_hash_mask) auto
      from find_next_cases [OF assms(1,2) this] show ?thesis using eq none(1) True by simp
    next
      case False
      have "m ! i = 0xff \<or> i = ?n - 1 \<and> replicatedLastBlock link" if full: "uc_bgr conf = BGR_FULL" and i: "i < ?n" for i
      proof -
        have k: "?k = ?n" using full by simp
        define t where "t = (i + (?n - ?j mod ?n)) mod ?n"
        have "(?j + t) mod ?n = (?j mod ?n + (i + (?n - ?j mod ?n))) mod ?n" unfolding t_def by (simp add: mod_simps)
        also have "?j mod ?n + (i + (?n - ?j mod ?n)) = i + ?n" using rn [of ?j] by simp
        finally have "(?j + t) mod ?n = i" using i by simp
        moreover have "t < ?n" unfolding t_def by (rule rn)
        ultimately show ?thesis using none(2) k by auto
      qed
      then show ?thesis using eq none(1) False by simp
    qed
  qed
qed


lemma mapbytes_int: "image_wf img \<Longrightarrow> cache_map img = Some m \<Longrightarrow> m \<noteq> [] \<Longrightarrow> IMGSIZE_TO_MAPBYTES (virtualFilesize img) = int (length m)"
  using image_wf_map(1,5) [of img m] mapbytes_eq [of "virtualFilesize img"] by (cases "length m") auto

lemma replicate_index_result:
  assumes "replicate_index conf ok n (int i) img link = (link', out)"
  shows "queue link' = queue link" "replicationHandle link' = word_of_int (int i) * FILE_BYTES_PER_MAP_BYTE"
    "out = (if ok then [(word_of_int (int i) * FILE_BYTES_PER_MAP_BYTE,
       ucast (min (virtualFilesize img - word_of_int (int i) * FILE_BYTES_PER_MAP_BYTE) FILE_BYTES_PER_MAP_BYTE),
       word_of_int (int i) * FILE_BYTES_PER_MAP_BYTE, COND_HOPCOUNT (up_version link) 1)] else [])"
  using assms by (auto simp: replicate_index_def Let_def split: if_splits)

lemma replicate_range:
  assumes "image_wf img" "cache_map img = Some m" "i < length m"
  shows "byte_range (word_of_int (int i) * FILE_BYTES_PER_MAP_BYTE,
       ucast (min (virtualFilesize img - word_of_int (int i) * FILE_BYTES_PER_MAP_BYTE) FILE_BYTES_PER_MAP_BYTE), h, hps)
     = (i * 32768, min (unat (virtualFilesize img)) (i * 32768 + 32768))"
proof -
  let ?v = "unat (virtualFilesize img)"
  have b: "?v < 2 ^ 45" "length m = (?v + 32767) div 32768" using image_wf_map(1,5) [OF assms(1,2)] by auto
  then have i: "i * 32768 < ?v" "i < 2 ^ 31" using assms(3) by auto
  have f: "FILE_BYTES_PER_MAP_BYTE = 32768" by (simp add: FILE_BYTES_PER_MAP_BYTE_def DNBD3_BLOCK_SIZE_def)
  have "unat (word_of_int (int i) * 32768 :: u64) = i * 32768"
    using i(2) by (simp add: unat_word_ariths unat_of_nat)
  moreover from this have "unat (virtualFilesize img - word_of_int (int i) * 32768) = ?v - i * 32768"
    using i(1) by (subst unat_sub) (simp_all add: word_le_nat_alt)
  moreover have "unat (min x 32768 :: u64) = min (unat x) 32768" for x by (simp add: min_def word_le_nat_alt)
  moreover have "unat (ucast y :: u32) = unat y" if "unat (y :: u64) \<le> 32768" for y
    using that by (simp add: unsigned_ucast_eq take_bit_nat_eq_self)
  ultimately show ?thesis unfolding f byte_range_def using i(1) by simp
qed

lemma sendReplication_cases:
  assumes "uplink_sendReplicationRequest conf ok img link = (link', out)" "image_wf img" "nextReplicationIndex link \<le> IMGSIZE_TO_MAPBYTES (virtualFilesize img)"
    "- 1 \<le> nextReplicationIndex link"
  obtains (off) "cache_map img = None \<or> replication_off conf img link" "link' = link" "out = []"
  | (exhausted) m where "cache_map img = Some m" "link' = link\<lparr>nextReplicationIndex := - 1\<rparr>" "out = []"
      "uc_bgr conf = BGR_FULL \<longrightarrow> (\<forall>i<length m. m ! i = 0xff \<or> i = length m - 1 \<and> replicatedLastBlock link)"
      "uc_bgr conf = BGR_HASHBLOCK \<longrightarrow> uniform m (length m) (replicatedLastBlock link) 0 (length m)"
  | (requested) m i where "cache_map img = Some m" "i < length m" "m ! i \<noteq> 0xff" "queue link' = queue link"
      "replicationHandle link' = word_of_int (int i) * FILE_BYTES_PER_MAP_BYTE"
      "map byte_range out = (if ok then [(i * 32768, min (unat (virtualFilesize img)) (i * 32768 + 32768))] else [])"
proof (cases "cache_map img")
  case None
  then show thesis using off assms(1) by (simp add: uplink_sendReplicationRequest_def)
next
  case (Some m)
  show thesis
  proof (cases "replication_off conf img link")
    case True
    then show thesis using off assms(1) Some by (simp add: uplink_sendReplicationRequest_def)
  next
    case False
    then have on: "nextReplicationIndex link \<noteq> - 1" "\<not> virtualFilesize img < 4096" by (auto simp: replication_off_def DNBD3_BLOCK_SIZE_def)
    have ne: "m \<noteq> []"
    proof
      assume "m = []"
      then have "unat (virtualFilesize img) < 1" using image_wf_map(1) [OF assms(2) Some] by simp
      then show False using on(2) by (simp add: word_less_nat_alt)
    qed
    note n = mapbytes_int [OF assms(2) Some ne]
    let ?r = "replication_index conf (int (length m)) m img link"
    have idx: "0 \<le> nextReplicationIndex link" "nextReplicationIndex link \<le> int (length m)" using assms(3,4) on(1) n by auto
    have eq: "uplink_sendReplicationRequest conf ok img link =
        (if ?r = - 1 then (link\<lparr>nextReplicationIndex := - 1\<rparr>, []) else replicate_index conf ok (int (length m)) ?r img link)"
      using Some False by (simp add: uplink_sendReplicationRequest_def n Let_def)
    consider (a) i where "i < length m" "?r = int i" "m ! i \<noteq> 0xff" | (b) "?r = - 1"
      "uc_bgr conf = BGR_FULL \<longrightarrow> (\<forall>i<length m. m ! i = 0xff \<or> i = length m - 1 \<and> replicatedLastBlock link)"
      "uc_bgr conf = BGR_HASHBLOCK \<longrightarrow> uniform m (length m) (replicatedLastBlock link) 0 (length m)"
      using replication_index_cases [OF Some assms(2) ne idx, of conf] unfolding found_ok_def by blast
    then show thesis
    proof cases
      case a
      then have ri: "replicate_index conf ok (int (length m)) (int i) img link = (link', out)" using eq assms(1) by simp
      note res = replicate_index_result [OF ri]
      show thesis
      proof (rule requested [OF Some a(1,3) res(1,2)])
        show "map byte_range out = (if ok then [(i * 32768, min (unat (virtualFilesize img)) (i * 32768 + 32768))] else [])"
          unfolding res(3) using replicate_range [OF assms(2) Some a(1)] by simp
      qed
    next
      case b
      then show thesis using exhausted [OF Some] eq assms(1) by auto
    qed
  qed
qed


section \<open>Receiving\<close>

lemma uplink_inv_queue:
  "queue link' = queue link \<Longrightarrow> uplink_inv content (link', img, file, outs, conn) = uplink_inv content (link, img, file, outs, conn)"
  by (simp add: uplink_inv_def queue_inv_def)

lemma grow_buffer_fits:
  assumes "sz \<le> uc_maxPayload conf" "unat (uc_maxPayload conf) \<le> 2 ^ 31"
  shows "sz \<le> recvBufferLen (grow_buffer conf sz link)" "queue (grow_buffer conf sz link) = queue link"
proof -
  have "unat sz + 65536 < 2 ^ 32" using assms by (simp add: word_le_nat_alt)
  then have "unat (sz + 65536) = unat sz + 65536" by (subst unat_add_no_wrap) auto
  then show "sz \<le> recvBufferLen (grow_buffer conf sz link)"
    using assms(1) by (auto simp: grow_buffer_def word_le_nat_alt not_less min_def)
  show "queue (grow_buffer conf sz link) = queue link" by (simp add: grow_buffer_def)
qed

text \<open>\<open>replies_ok\<close>: the upstream server answers outstanding requests with the bytes it has. Other messages are not restricted.\<close>

fun replies_ok :: "(nat \<Rightarrow> u8) \<Rightarrow> (nat \<times> nat) set \<Rightarrow> reply_event list \<Rightarrow> bool" where
  "replies_ok content outs [] \<longleftrightarrow> True"
| "replies_ok content outs (ev # evs) \<longleftrightarrow> (case re_code ev of
     REPLY_OK r \<Rightarrow> if rp_cmd r = CMD_GET_BLOCK
       then length (re_payload ev) = unat (rp_size r) \<and> slice_of content (unat (rp_handle r)) (re_payload ev)
         \<and> (unat (rp_handle r), unat (rp_handle r) + length (re_payload ev)) \<in> outs
         \<and> replies_ok content (outs - {(unat (rp_handle r), unat (rp_handle r) + length (re_payload ev))}) evs
       else replies_ok content outs evs
   | _ \<Rightarrow> replies_ok content outs evs)"

text \<open>Every request that was in the queue is still there or has got its answer, and nothing else is answered.\<close>

definition served_requests :: "(nat \<Rightarrow> u8) \<Rightarrow> queued_request list \<Rightarrow> queued_request list \<Rightarrow> client_reply list \<Rightarrow> bool" where
  "served_requests content q q' rs \<longleftrightarrow> (\<exists>ans. mset (filter (\<lambda>r. q_status r \<noteq> ULR_FREE) q) = mset ans + mset (filter (\<lambda>r. q_status r \<noteq> ULR_FREE) q')
     \<and> list_all2 (reply_to content) ans rs)"

lemma served_none: "served_requests content q q []"
  unfolding served_requests_def by (intro exI [of _ "[]"]) simp

lemma served_trans:
  assumes "served_requests content q q1 rs" "served_requests content q1 q2 rs'"
  shows "served_requests content q q2 (rs @ rs')"
proof -
  obtain a b where "mset (filter (\<lambda>r. q_status r \<noteq> ULR_FREE) q) = mset a + mset (filter (\<lambda>r. q_status r \<noteq> ULR_FREE) q1)" "list_all2 (reply_to content) a rs"
    "mset (filter (\<lambda>r. q_status r \<noteq> ULR_FREE) q1) = mset b + mset (filter (\<lambda>r. q_status r \<noteq> ULR_FREE) q2)" "list_all2 (reply_to content) b rs'"
    using assms by (auto simp: served_requests_def)
  then show ?thesis unfolding served_requests_def by (intro exI [of _ "a @ b"]) (simp add: list_all2_appendI)
qed

lemma served_block:
  assumes "\<forall>r\<in>set q. req_ok r" "unat (h + word_of_nat (length p)) = unat h + length p" "slice_of content (unat h) p"
  shows "served_requests content q (unserved h p q) (map (serve_one h p) (filter (answered h p) (rev q)))"
proof -
  let ?f = "\<lambda>r. serve_slot (mark_processing h (h + word_of_nat (length p)) r)"
  have slot: "(q_status (?f r) = ULR_FREE \<longleftrightarrow> q_status r = ULR_FREE \<or> answered h p r) \<and> (q_status (?f r) \<noteq> ULR_FREE \<longrightarrow> ?f r = r)" if "r \<in> set q" for r
    using assms(1) that answered_iff [OF assms(2), of r]
    by (cases "q_status r") (auto simp: serve_slot_def mark_processing_def req_ok_def)
  have "filter (\<lambda>r. q_status r \<noteq> ULR_FREE) (map ?f q) = filter (\<lambda>r. q_status r \<noteq> ULR_FREE \<and> \<not> answered h p r) q"
    using slot by (induction q) auto
  then have rest: "filter (\<lambda>r. q_status r \<noteq> ULR_FREE) (unserved h p q) = filter (\<lambda>r. q_status r \<noteq> ULR_FREE \<and> \<not> answered h p r) q"
    unfolding unserved_def using filter_drop_free [of "\<lambda>r. q_status r = ULR_FREE" "map ?f q"] by simp
  have "mset (filter (\<lambda>r. q_status r \<noteq> ULR_FREE) q) =
      mset (filter (answered h p) (rev q)) + mset (filter (\<lambda>r. q_status r \<noteq> ULR_FREE \<and> \<not> answered h p r) q)"
    by (induction q) (auto simp: answered_def)
  then show ?thesis unfolding served_requests_def rest using served_replies [OF assms] by blast
qed

lemma receive_loop_inv:
  assumes "unat (uc_maxPayload conf) \<le> 2 ^ 31" "uplink_inv content (link, img, file, outs, conn)" "replies_ok content outs evs"
  shows "\<exists>link' img' file' outs' rs ok. receive_loop conf evs (link, img, file) replies = Some ((link', img', file'), replies @ rs, ok)
    \<and> uplink_inv content (link', img', file', outs', conn) \<and> outs' \<subseteq> outs \<and> served_requests content (queue link) (queue link') rs"
  using assms(2,3)
proof (induction evs arbitrary: link img "file" outs replies)
  case Nil
  then show ?case using served_none by auto
next
  case (Cons ev evs)
  show ?case
  proof (cases "re_code ev")
    case (REPLY_OK r)
    let ?l = "grow_buffer conf (rp_size r) link"
    have ql: "queue ?l = queue link" by (simp add: grow_buffer_def)
    have inv: "uplink_inv content (?l, img, file, outs, conn)"
      using Cons.prems(1) by (subst uplink_inv_queue [of _ link]) (simp_all add: grow_buffer_def)
    show ?thesis
    proof (cases "rp_size r > uc_maxPayload conf")
      case True
      then show ?thesis using REPLY_OK Cons.prems(1) served_none [of content "queue link"] by auto
    next
      case small: False
      then have fits: "\<not> rp_size r > recvBufferLen ?l" using grow_buffer_fits(1) [OF _ assms(1)] by (simp add: not_less)
      show ?thesis
      proof (cases "re_ret ev \<noteq> int (unat (rp_size r))")
        case True
        then show ?thesis using REPLY_OK small fits inv served_none [of content "queue link"] ql by auto
      next
        case False
        show ?thesis
        proof (cases "rp_cmd r = CMD_GET_BLOCK")
          case True
          let ?b = "(unat (rp_handle r), unat (rp_handle r) + length (re_payload ev))"
          have ok: "slice_of content (unat (rp_handle r)) (re_payload ev)" "?b \<in> outs" "replies_ok content (outs - {?b}) evs"
            using Cons.prems(2) REPLY_OK True by auto
          let ?rs = "map (serve_one (rp_handle r) (re_payload ev)) (filter (answered (rp_handle r) (re_payload ev)) (rev (queue link)))"
          obtain link1 img1 file1 checks where r: "receive_block (re_opened ev) (re_writes ev) (rp_handle r) (re_payload ev) (?l, img, file) =
              Some ((link1, img1, file1), ?rs, checks)" "uplink_inv content (link1, img1, file1, outs - {?b}, conn)"
              "queue link1 = unserved (rp_handle r) (re_payload ev) (queue link)"
            by (rule receive_result [OF inv ok(2,1), unfolded ql])
          have "unat (rp_handle r) + length (re_payload ev) < 2 ^ 45" "\<forall>r\<in>set (queue link). req_ok r"
            using Cons.prems(1) ok(2) by (auto simp: uplink_inv_def outs_ok_def image_wf_def queue_inv_def)
          then have srv: "served_requests content (queue link) (queue link1) ?rs"
            unfolding r(3) by (intro served_block ok(1)) (auto simp: unat_of_nat intro!: unat_add_no_wrap [THEN trans])
          have loop: "receive_loop conf (ev # evs) (link, img, file) replies = receive_loop conf evs (link1, img1, file1) (replies @ ?rs)"
            using REPLY_OK small fits False True r(1) by (simp add: Let_def)
          obtain link2 img2 file2 outs2 rs2 b where "receive_loop conf evs (link1, img1, file1) (replies @ ?rs) = Some ((link2, img2, file2), (replies @ ?rs) @ rs2, b)"
              "uplink_inv content (link2, img2, file2, outs2, conn)" "outs2 \<subseteq> outs - {?b}" "served_requests content (queue link1) (queue link2) rs2"
            using Cons.IH [OF r(2) ok(3), of "replies @ ?rs"] by blast
          then show ?thesis using loop served_trans [OF srv] by (intro exI [of _ link2] exI [of _ img2] exI [of _ file2] exI [of _ outs2] exI [of _ "?rs @ rs2"] exI [of _ b]) auto
        next
          case other: False
          then have "receive_loop conf (ev # evs) (link, img, file) replies = receive_loop conf evs (?l, img, file) replies"
            using REPLY_OK small fits False by (simp add: Let_def)
          moreover have "replies_ok content outs evs" using Cons.prems(2) REPLY_OK other by simp
          ultimately show ?thesis using Cons.IH [OF inv, of replies] by (simp only: ql)
        qed
      qed
    qed
  next
    case REPLY_INTR
    then show ?thesis using Cons served_none [of content "queue link"] by auto
  qed (use Cons.prems served_none [of content "queue link"] in auto)
qed

text \<open>Whatever the upstream server sends. \<open>reply_outside\<close>: a block reply that ends behind the image.\<close>

definition reply_outside :: "dnbd3_image \<Rightarrow> reply_event \<Rightarrow> bool" where
  "reply_outside img ev \<longleftrightarrow> (case re_code ev of
     REPLY_OK r \<Rightarrow> rp_cmd r = CMD_GET_BLOCK \<and> unat (virtualFilesize img) < unat (rp_handle r) + length (re_payload ev)
   | _ \<Rightarrow> False)"

lemma receive_loop_robust:
  assumes "unat (uc_maxPayload conf) \<le> 2 ^ 31" "queue_inv link" "image_wf img" "in_image img (queue link)"
  shows "case receive_loop conf evs (link, img, file) replies of
      None \<Rightarrow> \<exists>ev\<in>set evs. reply_outside img ev
    | Some ((link', img', file'), replies', ok) \<Rightarrow> queue_inv link' \<and> image_wf img'"
  using assms(2-4)
proof (induction evs arbitrary: link img "file" replies)
  case (Cons ev evs)
  show ?case
  proof (cases "re_code ev")
    case (REPLY_OK r)
    let ?l = "grow_buffer conf (rp_size r) link"
    have inv: "queue_inv ?l" "in_image img (queue ?l)" using Cons.prems by (simp_all add: grow_buffer_def queue_inv_def)
    show ?thesis
    proof (cases "rp_size r > uc_maxPayload conf \<or> re_ret ev \<noteq> int (unat (rp_size r))")
      case True
      moreover have "rp_size r \<le> uc_maxPayload conf \<Longrightarrow> \<not> rp_size r > recvBufferLen ?l"
        using grow_buffer_fits(1) [OF _ assms(1)] by (simp add: not_less)
      ultimately show ?thesis using REPLY_OK Cons.prems inv by (auto simp: Let_def not_less)
    next
      case False
      then have fits: "\<not> rp_size r > uc_maxPayload conf" "\<not> rp_size r > recvBufferLen ?l" "\<not> re_ret ev \<noteq> int (unat (rp_size r))"
        using grow_buffer_fits(1) [OF _ assms(1)] by (simp_all add: not_less)
      show ?thesis
      proof (cases "rp_cmd r = CMD_GET_BLOCK")
        case other: False
        then have "receive_loop conf (ev # evs) (link, img, file) replies = receive_loop conf evs (?l, img, file) replies"
          using REPLY_OK fits by (simp add: Let_def)
        then show ?thesis using Cons.IH [OF inv(1) Cons.prems(2) inv(2), of "file" replies]
          by (auto split: option.splits)
      next
        case block: True
        show ?thesis
          using inv(1) Cons.prems(2) inv(2)
        proof (cases rule: receive_block_robust [where opened = "re_opened ev" and writes = "re_writes ev" and h = "rp_handle r"
              and p = "re_payload ev" and fl = "file"])
          case aborts
          then have "reply_outside img ev" using REPLY_OK block by (simp add: reply_outside_def)
          moreover have "receive_loop conf (ev # evs) (link, img, file) replies = None"
            using REPLY_OK fits block aborts(1) by (simp add: Let_def)
          ultimately show ?thesis by simp
        next
          case (handled link1 img1 file1 rs checks)
          have "receive_loop conf (ev # evs) (link, img, file) replies = receive_loop conf evs (link1, img1, file1) (replies @ rs)"
            using REPLY_OK fits block handled(1) by (simp add: Let_def)
          moreover have "reply_outside img1 = reply_outside img" by (intro ext) (simp only: reply_outside_def handled(5))
          ultimately show ?thesis using Cons.IH [OF handled(2-4), of file1 "replies @ rs"] by (auto split: option.splits)
        qed
      qed
    qed
  next
    case REPLY_INTR
    then show ?thesis using Cons.IH [OF Cons.prems, of "file" replies] Cons.prems by (auto split: option.splits)
  qed (use Cons.prems in auto)
qed simp

section \<open>Switching the server\<close>

lemma addCrc32_keeps:
  "image_wf (fst (uplink_addCrc32 e a es img)) = image_wf img" "cached_blocks (fst (uplink_addCrc32 e a es img)) = cached_blocks img"
  "virtualFilesize (fst (uplink_addCrc32 e a es img)) = virtualFilesize img"
  by (auto simp: uplink_addCrc32_def Let_def image_wf_def cached_blocks_def image_blocks_def split: option.splits)

lemma sendReplication_inside:
  assumes "uplink_sendReplicationRequest conf ok img link = (link', out)" "image_wf img"
    "nextReplicationIndex link \<le> IMGSIZE_TO_MAPBYTES (virtualFilesize img)" "- 1 \<le> nextReplicationIndex link"
  shows "queue link' = queue link" "\<forall>b\<in>byte_range ` set out. snd b \<le> unat (virtualFilesize img)"
proof -
  have "queue link' = queue link \<and> (\<forall>b\<in>set (map byte_range out). snd b \<le> unat (virtualFilesize img))"
    using assms by (cases rule: sendReplication_cases) auto
  then show "queue link' = queue link" "\<forall>b\<in>byte_range ` set out. snd b \<le> unat (virtualFilesize img)" by auto
qed

lemma sendReplication_fd: "up_fd (fst (uplink_sendReplicationRequest conf ok img link)) = up_fd link"
  by (simp add: uplink_sendReplicationRequest_def replicate_index_def Let_def split: option.split)

lemma switch_server_fd:
  assumes "rttTestResult link = RTT_DOCHANGE"
    "switch_server conf crc sends repOk now lv (link, img) = ((link', img'), lv', out, ok, closed, acts)"
  shows "up_fd link' = betterFd link"
proof -
  obtain l2 out1 ok1 where s: "uplink_sendRequests False sends (switch_fields link) = (l2, out1, ok1)"
    by (cases "uplink_sendRequests False sends (switch_fields link)")
  have "up_fd l2 = betterFd link" using s by (auto simp: uplink_sendRequests_def switch_fields_def split: prod.splits)
  moreover have "\<exists>img2 x. uplink_sendReplicationRequest conf repOk img2 l2 = (link', x)"
    using assms(2) unfolding switch_server_def Let_def prod.case assms(1) s by (auto split: prod.splits)
  ultimately show ?thesis using sendReplication_fd by (metis fst_conv)
qed

lemma sendReplication_queue: "queue (fst (uplink_sendReplicationRequest conf ok img link)) = queue link"
  by (simp add: uplink_sendReplicationRequest_def replicate_index_def Let_def split: option.split)

lemma switch_server_split:
  assumes "rttTestResult link = RTT_DOCHANGE"
    "switch_server conf crc sends repOk now lv (link, img) = ((link', img'), lv', out, ok, closed, acts)"
  obtains l2 out1 rep where "uplink_sendRequests False sends (switch_fields link) = (l2, out1, ok)" "queue link' = queue l2"
    "img' = (if im_crc32 img = None then crc (img\<lparr>im_working := True\<rparr>) else img\<lparr>im_working := True\<rparr>)" "out = out1 @ rep"
    "closed = (if up_fd link \<noteq> - 1 then [up_fd link] else [])" "acts = (if ok then [] else [Act_serverFailed (betterServer link)])"
proof -
  let ?i = "img\<lparr>im_working := True\<rparr>"
  define i2 where "i2 = (if im_crc32 ?i = None then crc ?i else ?i)"
  obtain l2 out1 ok1 where s: "uplink_sendRequests False sends (switch_fields link) = (l2, out1, ok1)"
    by (cases "uplink_sendRequests False sends (switch_fields link)")
  obtain l3 rep where r: "uplink_sendReplicationRequest conf repOk i2 l2 = (l3, rep)" by fastforce
  have c: "currentServer l2 = betterServer link" using s by (auto simp: uplink_sendRequests_def switch_fields_def split: prod.splits)
  have "queue l3 = queue l2" using sendReplication_queue [of conf repOk i2 l2] r by simp
  then show thesis
    using assms(2) s that [of l2 out1 rep] unfolding switch_server_def Let_def prod.case assms(1) i2_def [symmetric] s r by (auto simp: i2_def c)
qed

lemma switch_server_inv:
  assumes "uplink_inv content (link, img, file, outs, conn)" "rttTestResult link = RTT_DOCHANGE"
    "switch_server conf (\<lambda>img. fst (uplink_addCrc32 e a es img)) sends repOk now lv (link, img) = ((link', img'), lv', out, ok, closed, acts)"
  shows "queue_inv link'" "image_wf img'" "coherent content img' file" "list_all2 same_request (queue link) (queue link')"
    "ok \<Longrightarrow> r \<in> set (queue link') \<Longrightarrow> q_status r \<noteq> ULR_FREE \<Longrightarrow> q_status r = ULR_PENDING \<and> (\<exists>b\<in>byte_range ` set out. within r b)"
proof -
  let ?l = "switch_fields link"
  let ?i = "img\<lparr>im_working := True\<rparr>"
  obtain l2 out1 rep where s: "uplink_sendRequests False sends ?l = (l2, out1, ok)" "queue link' = queue l2"
    and i2: "img' = (if im_crc32 img = None then fst (uplink_addCrc32 e a es ?i) else ?i)" and o: "out = out1 @ rep"
    and "closed = (if up_fd link \<noteq> - 1 then [up_fd link] else [])" "acts = (if ok then [] else [Act_serverFailed (betterServer link)])"
    by (rule switch_server_split [OF assms(2,3)])
  have inv: "queue_inv link" "image_wf img" "coherent content img file" using assms(1) by (auto simp: uplink_inv_def)
  have ql: "queue ?l = queue link" by (simp add: switch_fields_def)
  then have qi: "queue_inv ?l" using inv(1) by (simp add: queue_inv_def)
  have "image_wf ?i = image_wf img" "cached_blocks ?i = cached_blocks img"
    by (simp_all add: image_wf_def cached_blocks_def image_blocks_def split: option.split)
  then have "image_wf img' \<and> cached_blocks img' = cached_blocks img" using inv(2) by (simp add: i2 addCrc32_keeps)
  then show "image_wf img'" "coherent content img' file" using inv(3) by (simp_all add: coherent_def)
  have q': "queue_inv l2" by (rule queue_inv_send [OF qi s(1)])
  then show "queue_inv link'" using s(2) by (simp add: queue_inv_def)
  show "list_all2 same_request (queue link) (queue link')" using sendRequests_same [OF s(1)] s(2) ql by simp
  assume ok and q: "r \<in> set (queue link')" "q_status r \<noteq> ULR_FREE"
  then have s': "uplink_sendRequests False sends ?l = (l2, out1, True)" using s(1) by simp
  have "req_ok r" using q' q(1) s(2) by (simp add: queue_inv_def)
  then show "q_status r = ULR_PENDING \<and> (\<exists>b\<in>byte_range ` set out. within r b)"
    using covered_send [OF qi _ s', of "{}"] q s(2) o by (cases "q_status r") (auto simp: req_ok_def)
qed

section \<open>Properties\<close>

definition sample_conf :: up_conf where
  "sample_conf = \<lparr>uc_isProxy = True, uc_shutdown = False, uc_bgr = BGR_FULL, uc_bgrMinClients = 0, uc_maxPayload = 1000000\<rparr>"

text \<open>Background replication asks for a map byte that is not complete, and for exactly its part of the image. It stops
  (\<open>nextReplicationIndex\<close> is set to -1) only when nothing is left: in full mode, when all map bytes are complete, the last
  one possibly up to the bits behind the image; in hash block mode, when every hash block is complete or empty.\<close>

theorem replication_request_correct:
  assumes "uplink_sendReplicationRequest conf True img link = (link', out)" "image_wf img" "cache_map img = Some m"
    "\<not> replication_off conf img link" "0 \<le> nextReplicationIndex link" "nextReplicationIndex link \<le> IMGSIZE_TO_MAPBYTES (virtualFilesize img)"
  shows "(\<exists>i<length m. m ! i \<noteq> 0xff \<and> map byte_range out = [(i * 32768, min (unat (virtualFilesize img)) (i * 32768 + 32768))])
    \<or> nextReplicationIndex link' = - 1 \<and> out = []
      \<and> (uc_bgr conf = BGR_FULL \<longrightarrow> (\<forall>i<length m. m ! i = 0xff \<or> i = length m - 1 \<and> replicatedLastBlock link))
      \<and> (uc_bgr conf = BGR_HASHBLOCK \<longrightarrow> uniform m (length m) (replicatedLastBlock link) 0 (length m))"
proof -
  have "- 1 \<le> nextReplicationIndex link" using assms(5) by simp
  with assms(1,2,6) show ?thesis
  proof (cases rule: sendReplication_cases)
    case off
    then show ?thesis using assms(3,4) by simp
  next
    case (exhausted m')
    then show ?thesis using assms(3) by simp
  next
    case (requested m' i)
    then show ?thesis using assms(3) by auto
  qed
qed

theorem replication_request_correct_witness:
  "let (link', out) = uplink_sendReplicationRequest sample_conf True sample_image sample_link in
   (\<exists>i<length [0x0f, 0x01 :: u8]. [0x0f, 0x01 :: u8] ! i \<noteq> 0xff \<and> map byte_range out = [(i * 32768, min (unat (virtualFilesize sample_image)) (i * 32768 + 32768))])
   \<or> nextReplicationIndex link' = - 1 \<and> out = []"
proof -
  obtain link' out where r: "uplink_sendReplicationRequest sample_conf True sample_image sample_link = (link', out)" by fastforce
  have m: "cache_map sample_image = Some [0x0f, 0x01]" by (simp add: sample_image_def)
  have "\<not> replication_off sample_conf sample_image sample_link"
    by (simp add: replication_off_def sample_conf_def sample_image_def sample_link_def DNBD3_BLOCK_SIZE_def)
  moreover have "0 \<le> nextReplicationIndex sample_link" "nextReplicationIndex sample_link \<le> IMGSIZE_TO_MAPBYTES (virtualFilesize sample_image)"
    using mapbytes_int [OF sample_image_wf m] by (simp_all add: sample_link_def)
  ultimately show ?thesis using replication_request_correct [OF r sample_image_wf m] r by auto
qed

text \<open>The search for the next hash block to replicate can return a hash block that is completely empty, against its
  description: the variable that remembers an empty start is not reset when the next hash block begins with a partial byte.\<close>

theorem hash_block_search_returns_empty:
  "let m = replicate 512 0 @ [1]; img = sample_image\<lparr>cache_map := Some m, virtualFilesize := 16809984, realFilesize := 16809984\<rparr> in
   image_wf img \<and> take 512 m = replicate 512 0 \<and> m ! 512 = 1 \<and> uplink_findNextIncompleteHashBlock sample_link img 0 = 0"
proof -
  define m where "m = replicate 512 (0 :: u8) @ [1]"
  define img where "img = sample_image\<lparr>cache_map := Some m, virtualFilesize := 16809984, realFilesize := 16809984\<rparr>"
  have wf: "image_wf img" by (simp add: image_wf_def img_def m_def sample_image_def word_le_nat_alt dvd_def)
  have z: "m ! k = 0" if "k < 512" for k using that by (simp add: m_def nth_append)
  have run: "find_loop m 513 l ([a..<512] @ rest) 0 = find_loop m 513 l rest 0" if "0 < a" "a \<le> 512" for a l rest
    using that
  proof (induction "512 - a" arbitrary: a)
    case (Suc d)
    then have a: "a < 512" "[a..<512] = a # [Suc a..<512]" by (auto simp: upt_conv_Cons)
    have "\<not> byte_full m 513 l a" "a mod 512 \<noteq> 0" using a(1) z [of a] Suc.prems(1) by (auto simp: byte_full_def)
    then show ?case using Suc.hyps(1) [of "Suc a"] Suc.hyps(2) a z [OF a(1)] by (simp add: Let_def hash_start_iff)
  qed simp
  have n: "nat (IMGSIZE_TO_MAPBYTES (virtualFilesize img)) = 513" by (simp add: mapbytes_eq img_def)
  have "map (\<lambda>j. (0 + j) mod 513) [0..<513] = [0..<1] @ [1..<512] @ [512]"
  proof -
    have "[0..<513] = [0..<1] @ [1..<512] @ [512 :: nat]"
      using upt_add_eq_append [of 0 1 512] upt_add_eq_append [of 1 512 1] by simp
    moreover have "map (\<lambda>j. (0 + j) mod 513) [0..<513] = [0..<513]" by (rule map_idI) simp
    ultimately show ?thesis by simp
  qed
  moreover have "find_loop m 513 False ([0..<1] @ [1..<512] @ [512]) (- 1) = find_loop m 513 False ([1..<512] @ [512]) 0"
    using z [of 0] by (simp add: Let_def hash_start_iff byte_full_def)
  moreover have "find_loop m 513 False [512] 0 = 0" by (simp add: Let_def byte_full_def m_def nth_append)
  ultimately have "find_loop m 513 False (map (\<lambda>j. (0 + j) mod 513) [0..<513]) (- 1) = 0" using run [of 1 False "[512]"] by simp
  then have "uplink_findNextIncompleteHashBlock sample_link img 0 = 0"
    using n by (simp add: uplink_findNextIncompleteHashBlock_def sample_link_def) (simp add: img_def)
  moreover have "take 512 m = replicate 512 0" "m ! 512 = 1" by (simp_all add: m_def nth_append)
  ultimately show ?thesis using wf unfolding Let_def m_def img_def by blast
qed

text \<open>C22. The loop over the replies of the upstream server, for any mix of replies, interrupted calls, foreign messages and errors,
  right or wrong: it never writes behind its receive buffer, the queue and the image stay well-formed, and no assertion fails except,
  possibly, the one on the range of a block reply that ends behind the image (see \<open>receive_outside_image_aborts\<close>). When in addition
  every block reply answers an outstanding range with the bytes of the upstream server (\<open>replies_ok\<close>), no assertion fails, the replies to
  the clients are right and each queued request is answered once or stays in the queue, every block that the cache map marks still holds the right
  bytes, and what was covered by a request stays covered.\<close>

theorem uplink_receive_loop_safe:
  assumes "unat (uc_maxPayload conf) \<le> 2 ^ 31" "uplink_reachable content (link, img, file, outs, conn)"
  shows "case receive_loop conf evs (link, img, file) [] of
      None \<Rightarrow> (\<exists>ev\<in>set evs. reply_outside img ev) \<and> \<not> replies_ok content outs evs
    | Some ((link', img', file'), replies, ok) \<Rightarrow> queue_inv link' \<and> image_wf img'
        \<and> (replies_ok content outs evs \<longrightarrow> coherent content img' file' \<and> served_requests content (queue link) (queue link') replies
            \<and> (\<exists>outs'\<subseteq>outs. \<forall>gone. conn = Some gone \<longrightarrow> covered (outs' \<union> gone) (queue link')))"
proof -
  have inv: "queue_inv link" "image_wf img" "in_image img (queue link)" using reachable_inv [OF assms(2)] by (auto simp: uplink_inv_def)
  have ok: "\<exists>link' img' file' outs' replies ok. receive_loop conf evs (link, img, file) [] = Some ((link', img', file'), replies, ok)
      \<and> uplink_inv content (link', img', file', outs', conn) \<and> outs' \<subseteq> outs \<and> served_requests content (queue link) (queue link') replies"
    if "replies_ok content outs evs"
    using receive_loop_inv [OF assms(1) reachable_inv [OF assms(2)] that, of "[]"] by simp
  show ?thesis
  proof (cases "receive_loop conf evs (link, img, file) []")
    case None
    then have "\<exists>ev\<in>set evs. reply_outside img ev" using receive_loop_robust [OF assms(1) inv, of evs "file" "[]"] by simp
    moreover have "\<not> replies_ok content outs evs" using ok None by auto
    ultimately show ?thesis using None by simp
  next
    case (Some x)
    obtain l i f rs b where x: "x = ((l, i, f), rs, b)" by (cases x) auto
    have "queue_inv l \<and> image_wf i" using receive_loop_robust [OF assms(1) inv, of evs "file" "[]"] Some x by simp
    moreover have "coherent content i f \<and> served_requests content (queue link) (queue l) rs \<and> (\<exists>outs'\<subseteq>outs. \<forall>gone. conn = Some gone \<longrightarrow> covered (outs' \<union> gone) (queue l))"
      if h: "replies_ok content outs evs"
    proof -
      obtain outs' where "uplink_inv content (l, i, f, outs', conn)" "outs' \<subseteq> outs" "served_requests content (queue link) (queue l) rs" using ok [OF h] Some x by auto
      then show ?thesis unfolding uplink_inv_def by blast
    qed
    ultimately show ?thesis using Some x by simp
  qed
qed

theorem uplink_receive_loop_safe_witness:
  "let intr = \<lparr>re_code = REPLY_INTR, re_ret = 0, re_payload = [], re_opened = 6, re_writes = []\<rparr>;
       block = (\<lambda>h. \<lparr>re_code = REPLY_OK \<lparr>rp_magic = 0, rp_cmd = CMD_GET_BLOCK, rp_size = 4096, rp_handle = h\<rparr>, re_ret = 4096,
         re_payload = replicate 4096 0, re_opened = 6, re_writes = [Wrote 100]\<rparr>) in
   (case receive_loop sample_conf [intr, block 20480] (sample_asked, sample_image, \<lambda>_. 0) [] of
      None \<Rightarrow> False
    | Some ((link', img', file'), replies, ok) \<Rightarrow> queue_inv link' \<and> image_wf img' \<and> coherent (\<lambda>_. 0) img' file')
   \<and> (case receive_loop sample_conf [block 20480, intr, block 20480, block 40000] (sample_asked, sample_image, \<lambda>_. 0) [] of
      None \<Rightarrow> True
    | Some ((link', img', file'), replies, ok) \<Rightarrow> queue_inv link' \<and> image_wf img')"
proof -
  let ?intr = "\<lparr>re_code = REPLY_INTR, re_ret = 0, re_payload = [], re_opened = 6, re_writes = []\<rparr>"
  let ?block = "\<lambda>h. \<lparr>re_code = REPLY_OK \<lparr>rp_magic = 0, rp_cmd = CMD_GET_BLOCK, rp_size = 4096, rp_handle = h\<rparr>, re_ret = 4096,
         re_payload = replicate 4096 0, re_opened = 6, re_writes = [Wrote 100]\<rparr>"
  have m: "unat (uc_maxPayload sample_conf) \<le> 2 ^ 31" by (simp add: sample_conf_def)
  note safe = uplink_receive_loop_safe [OF m sample_asked_reachable]
  have "replies_ok (\<lambda>_. 0) {(20480, 24576)} [?intr, ?block 20480]" by (simp add: slice_of_def)
  with safe [of "[?intr, ?block 20480]"] safe [of "[?block 20480, ?intr, ?block 20480, ?block 40000]"] show ?thesis
    unfolding Let_def by (auto simp del: receive_loop.simps replies_ok.simps split: option.splits)
qed

text \<open>C23. When the uplink thread switches to the server that the measurement found, no queued request is lost, whatever the sends
  do: slot by slot the queue holds the same requests as before (client, handle, range, hop count; a used slot stays in use), the
  connection is the new one, and the queue, the image and the cached bytes stay right. If the sends succeed, every request counts as
  sent and lies inside a range requested from the new server; if one fails, the failure is reported for the new server.\<close>

theorem switch_server_keeps_requests:
  assumes "uplink_reachable content (link, img, file, outs, conn)" "rttTestResult link = RTT_DOCHANGE"
    "switch_server conf (\<lambda>img. fst (uplink_addCrc32 e a es img)) sends repOk now lv (link, img) = ((link', img'), lv', out, ok, closed, acts)"
  shows "list_all2 same_request (queue link) (queue link') \<and> up_fd link' = betterFd link
    \<and> queue_inv link' \<and> image_wf img' \<and> coherent content img' file
    \<and> closed = (if up_fd link \<noteq> - 1 then [up_fd link] else [])
    \<and> (if ok then \<forall>r\<in>set (queue link'). q_status r \<noteq> ULR_FREE \<longrightarrow> q_status r = ULR_PENDING \<and> (\<exists>b\<in>byte_range ` set out. within r b)
       else acts = [Act_serverFailed (betterServer link)])"
proof -
  note inv = switch_server_inv [OF reachable_inv [OF assms(1)] assms(2,3)]
  have "closed = (if up_fd link \<noteq> - 1 then [up_fd link] else []) \<and> (\<not> ok \<longrightarrow> acts = [Act_serverFailed (betterServer link)])"
    by (rule switch_server_split [OF assms(2,3)]) simp
  then show ?thesis using inv(1-4) switch_server_fd [OF assms(2,3)] inv(5) by (cases ok) auto
qed

definition changing_link :: dnbd3_connection where
  "changing_link = sample_waiting\<lparr>rttTestResult := RTT_DOCHANGE, betterFd := 9\<rparr>"

lemma changing_reachable: "uplink_reachable (\<lambda>_. 0) (changing_link, sample_image, \<lambda>_. 0, {(20480, 24576)}, Some {})"
  using uplink_reachable.step [OF sample_waiting_reachable uplink_step.step_fields [of changing_link]] by (simp add: changing_link_def)

definition sample_vars :: loop_vars where
  "sample_vars = \<lparr>altCheckInterval = 5, discoverFailCount = 0, unsavedSeconds = 0, nextAltCheck = \<lparr>tv_sec = 0, tv_nsec = 0\<rparr>,
     lastKeepalive = \<lparr>tv_sec = 0, tv_nsec = 0\<rparr>\<rparr>"

theorem switch_server_keeps_requests_witness:
  "let ((link', img'), lv', out, ok, closed, acts) = switch_server sample_conf (\<lambda>img. fst (uplink_addCrc32 LE 0 [] img)) [True, True] True
       \<lparr>tv_sec = 0, tv_nsec = 0\<rparr> sample_vars (changing_link, sample_image)
   in list_all2 same_request [sample_req 20480 1 ULR_PENDING, sample_req 30000 2 ULR_NEW] (queue link') \<and> up_fd link' = 9
    \<and> queue_inv link' \<and> image_wf img' \<and> coherent (\<lambda>_. 0) img' (\<lambda>_. 0) \<and> closed = [5] \<and> ok
    \<and> (\<forall>r\<in>set (queue link'). q_status r \<noteq> ULR_FREE \<longrightarrow> q_status r = ULR_PENDING \<and> (\<exists>b\<in>byte_range ` set out. within r b))"
proof -
  let ?s = "switch_server sample_conf (\<lambda>img. fst (uplink_addCrc32 LE 0 [] img)) [True, True] True \<lparr>tv_sec = 0, tv_nsec = 0\<rparr> sample_vars (changing_link, sample_image)"
  obtain link' img' lv' out ok closed acts where s: "?s = ((link', img'), lv', out, ok, closed, acts)" by (cases ?s) auto
  have d: "rttTestResult changing_link = RTT_DOCHANGE" by (simp add: changing_link_def)
  have "snd (snd (uplink_sendRequests False [True, True] (switch_fields changing_link)))"
    by (simp add: uplink_sendRequests_def switch_fields_def changing_link_def sample_waiting_def sample_req_def)
  then have ok by (rule_tac switch_server_split [OF d s]) simp
  moreover have "queue changing_link = [sample_req 20480 1 ULR_PENDING, sample_req 30000 2 ULR_NEW]" "betterFd changing_link = 9"
    "up_fd changing_link = 5" by (simp_all add: changing_link_def sample_waiting_def sample_link_def)
  ultimately show ?thesis using switch_server_keeps_requests [OF changing_reachable d s] unfolding s Let_def prod.case by simp
qed

end
