(* ===== verification/Net_Server.thy ===== *)
theory Net_Server
  imports Image_List Uplink_Thread
begin

text \<open>
  The connection of a client to the server, from \<open>src/server/net.c\<close>: the handshake, the requests (block
  requests answered from the image file or relayed to the uplink, the list of servers, keep-alive, checksums),
  the clean-up, and the list of clients. What the socket and file calls do is an argument, the bytes that go out to
  the client are part of the results.
\<close>

section \<open>Receiving a request header\<close>

datatype sock_errno = E_INTR | E_AGAIN | E_OTHER

text \<open>The outcome of one \<open>recv\<close> of a header: all 24 bytes, less (with the value that \<open>errno\<close> has then), or an error.\<close>

datatype header_event = Header "u8 list" | Header_short sock_errno | Header_error sock_errno

definition SOCKET_TIMEOUT_CLIENT_RETRIES :: nat where "SOCKET_TIMEOUT_CLIENT_RETRIES = 3"

fun header_loop :: "nat \<Rightarrow> header_event list \<Rightarrow> (u8 list) option \<times> header_event list" where
  "header_loop fails [] = (None, [])"
| "header_loop fails (Header bs # evs) = (Some bs, evs)"
| "header_loop fails (Header_short en # evs) =
    (if en = E_INTR \<and> Suc fails < 10 then header_loop (Suc fails) evs else (None, evs))"
| "header_loop fails (Header_error en # evs) =
    (if en = E_INTR \<and> Suc fails < 10 then header_loop (Suc fails) evs
     else let fails = (if en = E_INTR then Suc fails else fails); fails = Suc fails in
       if fails > SOCKET_TIMEOUT_CLIENT_RETRIES then (None, evs)
       else if en = E_AGAIN then header_loop fails evs
       else (None, evs))"

definition recv_request_header :: "endian \<Rightarrow> header_event list \<Rightarrow> dnbd3_request option \<times> header_event list" where
  "recv_request_header e evs = (case header_loop 0 evs of
      (None, evs) \<Rightarrow> (None, evs)
    | (Some bs, evs) \<Rightarrow>
       (let request = fixup_request e (request_of_mem e bs)
        in if rq_magic request \<noteq> dnbd3_packet_magic e then (None, evs)
           else if rq_cmd request \<noteq> CMD_GET_BLOCK \<and> unat (rq_size request) > MAX_PAYLOAD then (None, evs)
           else (Some request, evs)))"

section \<open>Sending\<close>

text \<open>\<open>send_reply\<close>: the header and, if there is one, the payload. The result has the bytes sent.\<close>

definition send_reply :: "endian \<Rightarrow> send_event list \<Rightarrow> send_event list \<Rightarrow> dnbd3_reply \<Rightarrow> u8 list option \<Rightarrow> bool \<times> u8 list" where
  "send_reply e es1 es2 reply payload =
    (case sock_sendAll (reply_mem e (fixup_reply e reply)) 1 es1 of
       (ret, out) \<Rightarrow>
        if ret \<noteq> 16 then (False, out)
        else case payload of
          None \<Rightarrow> (True, out)
        | Some d \<Rightarrow>
           if rp_size reply = 0 then (True, out)
           else case sock_sendAll (take (unat (rp_size reply)) d) 1 es2 of
             (ret2, out2) \<Rightarrow> (ret2 = int (unat (rp_size reply)), out @ out2))"

text \<open>\<open>sendPadding\<close>: each element of the list has the outcomes of the sends of one \<open>sock_sendAll\<close>.\<close>

fun sendPadding :: "send_event list list \<Rightarrow> nat \<Rightarrow> bool \<times> u8 list" where
  "sendPadding [] bytes = (bytes = 0, [])"
| "sendPadding (es # ess) bytes =
    (if bytes \<ge> 500
     then (case sock_sendAll (replicate 500 0) 2 es of
        (ret, out) \<Rightarrow> if ret \<le> 0 then (False, out)
          else (case sendPadding ess (bytes - nat ret) of (ok, out') \<Rightarrow> (ok, out @ out')))
     else (case sock_sendAll (replicate bytes 0) 2 es of (ret, out) \<Rightarrow> (ret = int bytes, out)))"

text \<open>The loop around \<open>sendfile\<close>: bytes sent (0 at the end of the file), or an error that may disable the image.
  \<open>Inl\<close> is a failure.\<close>

datatype file_event = File_sent nat | File_error bool

fun sendfile_loop :: "(nat \<Rightarrow> u8) \<Rightarrow> nat \<Rightarrow> nat \<Rightarrow> file_event list \<Rightarrow> u8 list \<Rightarrow> (bool \<times> u8 list) + u8 list" where
  "sendfile_loop file foffset 0 evs out = Inr out"
| "sendfile_loop file foffset (Suc n) [] out = Inl (False, out)"
| "sendfile_loop file foffset (Suc n) (File_error disable # evs) out = Inl (disable, out)"
| "sendfile_loop file foffset (Suc n) (File_sent k # evs) out =
    (let k = min k (Suc n) in
     if k = 0 then Inl (False, out)
     else sendfile_loop file (foffset + k) (Suc n - k) evs (out @ map file [foffset..<foffset + k]))"

section \<open>Clients\<close>

record dnbd3_client =
  c_id :: nat
  c_host :: dnbd3_host
  c_isServer :: bool
  c_bytesSent :: u64
  c_reply :: dnbd3_reply
  c_hasName :: bool

text \<open>What the connection works on: the client, its image, the uplink of the image and the file.\<close>

record net_state =
  ns_client :: dnbd3_client
  ns_image :: dnbd3_image
  ns_link :: "dnbd3_connection option"
  ns_file :: "nat \<Rightarrow> u8"

text \<open>What the calls of one request answer.\<close>

record net_env =
  ne_maxPayload :: u32
  ne_uplink :: send_env
  ne_header_ok :: bool
  ne_files :: "file_event list"
  ne_pad :: "send_event list list"
  ne_send1 :: "send_event list"
  ne_send2 :: "send_event list"

text \<open>A handler returns whether the connection goes on, the state, and the bytes sent to the client.\<close>

type_synonym net_result = "bool \<times> net_state \<times> u8 list"

section \<open>Block requests\<close>

text \<open>The reply for a request outside of the image: the reply structure keeps the handle of the last block reply.\<close>

definition error_reply :: "endian \<Rightarrow> net_env \<Rightarrow> net_state \<Rightarrow> net_result" where
  "error_reply e env s =
    (let reply = (c_reply (ns_client s))\<lparr>rp_size := 0, rp_cmd := CMD_ERROR\<rparr>
     in (True, s\<lparr>ns_client := (ns_client s)\<lparr>c_reply := fixup_reply e reply\<rparr>\<rparr>, snd (send_reply e (ne_send1 env) [] reply None)))"

text \<open>The number of bytes to take from the file; \<open>size_t\<close> wraps.\<close>

definition real_bytes :: "dnbd3_image \<Rightarrow> u64 \<Rightarrow> u32 \<Rightarrow> u64" where
  "real_bytes img offset sz =
    (if offset + ucast sz \<le> realFilesize img then ucast sz else realFilesize img - offset)"

definition send_block :: "endian \<Rightarrow> net_env \<Rightarrow> dnbd3_request \<Rightarrow> net_state \<Rightarrow> net_result" where
  "send_block e env request s =
    (let img = ns_image s; offset = offset_small request; sz = rq_size request;
         reply = fixup_reply e ((c_reply (ns_client s))\<lparr>rp_cmd := CMD_GET_BLOCK, rp_size := sz, rp_handle := rq_handle request\<rparr>);
         s = s\<lparr>ns_client := (ns_client s)\<lparr>c_reply := reply\<rparr>\<rparr>;
         sent = s\<lparr>ns_client := (ns_client s)\<lparr>c_bytesSent := c_bytesSent (ns_client s) + ucast sz\<rparr>\<rparr>
     in if \<not> ne_header_ok env then (False, s, [])
        else if sz = 0 then (True, sent, reply_mem e reply)
        else
          let realBytes = real_bytes img offset sz in
          (case sendfile_loop (ns_file s) (unat offset) (unat realBytes) (ne_files env) [] of
             Inl (disable, out) \<Rightarrow>
               (False, if disable then s\<lparr>ns_image := img\<lparr>im_working := False\<rparr>\<rparr> else s, reply_mem e reply @ out)
           | Inr out \<Rightarrow>
               if sz > ucast realBytes then
                 (case sendPadding (ne_pad env) (unat (sz - ucast realBytes)) of
                    (ok, pad) \<Rightarrow> (ok, if ok then sent else s, reply_mem e reply @ out @ pad))
               else (True, sent, reply_mem e reply @ out)))"

text \<open>The whole handler of \<open>CMD_GET_BLOCK\<close>: \<open>None\<close> is a failed assertion. The last component of the result has the
  requests passed on to the upstream server.\<close>

definition handle_get_block :: "endian \<Rightarrow> net_env \<Rightarrow> dnbd3_request \<Rightarrow> net_state \<Rightarrow> (net_result \<times> block_request list) option" where
  "handle_get_block e env request s =
    (let img = ns_image s; offset = offset_small request; sz = rq_size request in
     if offset \<ge> virtualFilesize img then Some (error_reply e env s, [])
     else if offset + ucast sz > virtualFilesize img then Some (error_reply e env s, [])
     else case (if sz \<noteq> 0 \<and> cache_map img \<noteq> None then net_isCached img offset sz else Some True) of
       None \<Rightarrow> None
     | Some True \<Rightarrow> Some (send_block e env request s, [])
     | Some False \<Rightarrow>
        (case (case ns_link s of
                 None \<Rightarrow> (False, None, [])
               | Some link \<Rightarrow>
                  (case uplink_request (ne_maxPayload env) (ne_uplink env) (c_id (ns_client s)) (c_host (ns_client s))
                          (rq_handle request) offset sz (hops request) link of
                     (ok, link, out) \<Rightarrow> (ok, Some link, out))) of
           (ok, link, out) \<Rightarrow>
             if ok then Some ((True, s\<lparr>ns_link := link\<rparr>, []), out)
             else Some ((False, s\<lparr>ns_link := link, ns_image := img\<lparr>im_working := False\<rparr>\<rparr>, []), out)))"

section \<open>The other requests\<close>

text \<open>The packed structure \<open>dnbd3_server_entry_t\<close> in memory, 20 bytes.\<close>

definition entry_mem :: "endian \<Rightarrow> dnbd3_server_entry \<Rightarrow> u8 list" where
  "entry_mem e s = addr (se_host s) @ store_native e 2 (unat (port (se_host s))) @ [host_type (se_host s), se_failures s]"

definition simple_reply :: "endian \<Rightarrow> net_env \<Rightarrow> u16 \<Rightarrow> u8 list option \<Rightarrow> u32 \<Rightarrow> net_state \<Rightarrow> net_state \<times> u8 list" where
  "simple_reply e env cmd payload sz s =
    (let reply = (c_reply (ns_client s))\<lparr>rp_cmd := cmd, rp_size := sz\<rparr>
     in (s\<lparr>ns_client := (ns_client s)\<lparr>c_reply := fixup_reply e reply\<rparr>\<rparr>, snd (send_reply e (ne_send1 env) (ne_send2 env) reply payload)))"

definition set_name :: "net_state \<Rightarrow> net_state" where
  "set_name s = s\<lparr>ns_client := (ns_client s)\<lparr>c_hasName := True\<rparr>\<rparr>"

definition handle_request :: "endian \<Rightarrow> net_env \<Rightarrow> dnbd3_alt_server list \<Rightarrow> dnbd3_request \<Rightarrow> net_state \<Rightarrow>
    (net_result \<times> block_request list) option" where
  "handle_request e env alts request s =
    (let cmd = rq_cmd request in
     if cmd = CMD_GET_BLOCK then handle_get_block e env request s
     else if cmd = CMD_GET_SERVERS then
       (let servers = altservers_getListForClient (c_host (ns_client s)) (int NUMBER_SERVERS) alts;
            (s, out) = simple_reply e env CMD_GET_SERVERS (Some (concat (map (entry_mem e) servers))) (word_of_nat (length servers * 20)) s
        in Some ((True, set_name s, out), []))
     else if cmd = CMD_KEEPALIVE then
       (case simple_reply e env CMD_KEEPALIVE None 0 s of (s, out) \<Rightarrow> Some ((True, set_name s, out), []))
     else if cmd = CMD_SET_CLIENT_MODE then
       Some ((True, s\<lparr>ns_client := (ns_client s)\<lparr>c_isServer := False\<rparr>\<rparr>, []), [])
     else if cmd = CMD_GET_CRC32 then
       (case im_crc32 (ns_image s) of
          None \<Rightarrow> (case simple_reply e env CMD_GET_CRC32 None 0 s of (s, out) \<Rightarrow> Some ((True, s, out), []))
        | Some crc \<Rightarrow>
           (let sz = word_of_int ((IMGSIZE_TO_HASHBLOCKS (realFilesize (ns_image s)) + 1) * 4);
                (s, out) = simple_reply e env CMD_GET_CRC32 None sz s
            in Some ((True, s, out @ store_native e 4 (unat (masterCrc32 (ns_image s)))
                 @ take (unat sz - 4) (concat (map (\<lambda>c. store_native e 4 (unat c)) crc))), [])))
     else Some ((True, s, []), []))"

text \<open>The request loop: for each request its header events and the environment of its handler. It ends when no header comes
  in, when the server shuts down, or when a handler says so.\<close>

fun client_loop_net :: "endian \<Rightarrow> bool \<Rightarrow> (header_event list \<times> net_env \<times> dnbd3_alt_server list) list \<Rightarrow> net_state \<Rightarrow>
    (net_state \<times> u8 list \<times> block_request list) option" where
  "client_loop_net e shut [] s = Some (s, [], [])"
| "client_loop_net e shut ((hdr, env, alts) # rest) s =
    (case fst (recv_request_header e hdr) of
       None \<Rightarrow> Some (s, [], [])
     | Some request \<Rightarrow>
        if shut then Some (s, [], [])
        else (case handle_request e env alts request s of
                None \<Rightarrow> None
              | Some ((go, s, out), reqs) \<Rightarrow>
                  if \<not> go then Some (s, out, reqs)
                  else (case client_loop_net e shut rest s of
                          None \<Rightarrow> None
                        | Some (s, out', reqs') \<Rightarrow> Some (s, out @ out', reqs @ reqs'))))"

section \<open>The handshake\<close>

text \<open>Which lookup the handshake uses: also on other servers (\<open>image_getOrLoad\<close>), only locally (\<open>image_get\<close>), or locally and only
  complete images.\<close>

datatype lookup = Lookup_getOrLoad | Lookup_get | Lookup_complete

definition handshake_lookup :: "bool \<Rightarrow> bgr \<Rightarrow> bool \<Rightarrow> bool \<Rightarrow> u8 \<Rightarrow> lookup" where
  "handshake_lookup isProxy bg lookupMissing isServer flags =
    (if \<not> isServer \<or> \<not> isProxy then Lookup_getOrLoad
     else if bg \<noteq> BGR_FULL \<and> flags AND FLAGS8_BG_REP \<noteq> 0 then Lookup_complete
     else if lookupMissing then Lookup_getOrLoad
     else Lookup_get)"

text \<open>Names as the payload and the answer carry them.\<close>

definition name_of_bytes :: "u8 list \<Rightarrow> string" where
  "name_of_bytes bs = map (\<lambda>b. char_of (unat b)) bs"

definition bytes_of_name :: "string \<Rightarrow> u8 list" where
  "bytes_of_name nm = map of_char nm"

text \<open>The lookup itself: \<open>getOrLoad\<close> is \<open>image_getOrLoad\<close>.\<close>

definition handshake_image :: "(string \<Rightarrow> u16 \<Rightarrow> image_store \<Rightarrow> (nat option \<times> image_store) option) \<Rightarrow> get_env \<Rightarrow>
    lookup \<Rightarrow> string \<Rightarrow> u16 \<Rightarrow> image_store \<Rightarrow> (nat option \<times> image_store) option" where
  "handshake_image getOrLoad env how nm rid s = (case how of
      Lookup_getOrLoad \<Rightarrow> getOrLoad nm rid s
    | Lookup_get \<Rightarrow> image_get env nm rid True s
    | Lookup_complete \<Rightarrow>
       (case image_get env nm rid True s of
          Some (Some a, s) \<Rightarrow>
            if cache_map (img_at s a) \<noteq> None then map_option (\<lambda>s. (None, s)) (image_release a s) else Some (Some a, s)
        | r \<Rightarrow> r))"

definition MIN_SUPPORTED_CLIENT :: u16 where "MIN_SUPPORTED_CLIENT = 2"
definition SERVER_UPLINK_QUEUELEN_THRES :: nat where "SERVER_UPLINK_QUEUELEN_THRES = 900"

text \<open>Whether the client is let in once the image is found; \<open>lucky\<close> is \<open>rand() % 4 == 1\<close>.\<close>

definition handshake_accept :: "bool \<Rightarrow> dnbd3_image \<Rightarrow> dnbd3_connection option \<Rightarrow> bool" where
  "handshake_accept lucky img link =
    (im_working img \<and>
     (if cache_map img \<noteq> None \<and> (case link of None \<Rightarrow> True
           | Some l \<Rightarrow> cacheFd l = - 1 \<or> length (queue l) > SERVER_UPLINK_QUEUELEN_THRES)
      then lucky else True))"

record handshake_env =
  he_isProxy :: bool
  he_backgroundReplication :: bgr
  he_lookupMissing :: bool
  he_lucky :: bool
  he_get :: get_env
  he_links :: "nat \<Rightarrow> dnbd3_connection option"
  he_send1 :: "send_event list"
  he_send2 :: "send_event list"

text \<open>What the handshake leaves behind: \<open>client->isServer\<close>, \<open>client->image\<close>, the reply structure, whether the
  client is accepted, and the bytes sent.\<close>

record handshake_result =
  hr_isServer :: bool
  hr_image :: "nat option"
  hr_reply :: dnbd3_reply
  hr_ok :: bool
  hr_out :: "u8 list"

definition link_of :: "(nat \<Rightarrow> dnbd3_connection option) \<Rightarrow> dnbd3_image \<Rightarrow> dnbd3_connection option" where
  "link_of ls img = Option.bind (im_uplink img) ls"

text \<open>The answer to an accepted client.\<close>

definition handshake_answer_to :: "endian \<Rightarrow> handshake_env \<Rightarrow> bool \<Rightarrow> serialized_buffer \<Rightarrow> u16 \<Rightarrow> nat \<Rightarrow> image_store \<Rightarrow>
    handshake_result \<times> image_store" where
  "handshake_answer_to e env isServer b client_version a s =
    (let s = (if isServer then s else modify a (\<lambda>img. img\<lparr>im_atime := ge_now (he_get env)\<rparr>) s);
         img = img_at s a;
         answer = handshake_answer e b client_version (bytes_of_name (im_name img)) (im_rid img) (virtualFilesize img);
         reply = \<lparr>rp_magic = dnbd3_packet_magic e, rp_cmd = CMD_SELECT_IMAGE,
                  rp_size = serializer_get_written_length answer, rp_handle = 0\<rparr>;
         (ok, out) = send_reply e (he_send1 env) (he_send2 env) reply (Some (buffer answer))
     in (\<lparr>hr_isServer = isServer, hr_image = Some a, hr_reply = fixup_reply e reply, hr_ok = ok, hr_out = out\<rparr>, s))"

definition rejected :: "endian \<Rightarrow> bool \<Rightarrow> nat option \<Rightarrow> handshake_result" where
  "rejected e isServer a = \<lparr>hr_isServer = isServer, hr_image = a,
     hr_reply = \<lparr>rp_magic = dnbd3_packet_magic e, rp_cmd = 0, rp_size = 0, rp_handle = 0\<rparr>, hr_ok = False, hr_out = []\<rparr>"

text \<open>The handshake after the first packet; \<open>payload\<close> is what \<open>recv_request_payload\<close> delivered. \<open>None\<close> is a
  failed assertion.\<close>

definition handshake :: "endian \<Rightarrow> (string \<Rightarrow> u16 \<Rightarrow> image_store \<Rightarrow> (nat option \<times> image_store) option) \<Rightarrow> handshake_env \<Rightarrow>
    dnbd3_request \<Rightarrow> serialized_buffer option \<Rightarrow> image_store \<Rightarrow> (handshake_result \<times> image_store) option" where
  "handshake e getOrLoad env request payload s =
    (case payload of
       None \<Rightarrow> Some (rejected e False None, s)
     | Some payload \<Rightarrow>
        (case parse_handshake e payload of (client_version, image_name, rid, flags, b) \<Rightarrow>
          let isServer = (flags AND FLAGS8_SERVER \<noteq> 0) in
          if rq_size request < 3 \<or> image_name = None \<or> client_version < MIN_SUPPORTED_CLIENT then Some (rejected e isServer None, s)
          else
            (case handshake_image getOrLoad (he_get env)
                    (handshake_lookup (he_isProxy env) (he_backgroundReplication env) (he_lookupMissing env) isServer flags)
                    (name_of_bytes (string_at b (the image_name))) rid s of
               None \<Rightarrow> None
             | Some (None, s) \<Rightarrow> Some (rejected e isServer None, s)
             | Some (Some a, s) \<Rightarrow>
                if \<not> handshake_accept (he_lucky env) (img_at s a) (link_of (he_links env) (img_at s a))
                then Some (rejected e isServer (Some a), s)
                else Some (handshake_answer_to e env isServer b client_version a s))))"

text \<open>The first packet: \<open>Inl\<close> says whether it looks like HTTP and goes to the status interface.\<close>

definition first_packet :: "endian \<Rightarrow> u8 list \<Rightarrow> bool + dnbd3_request" where
  "first_packet e bs =
    (if length bs \<noteq> 24 then Inl False
     else let request = request_of_mem e bs in
       if rq_magic request \<noteq> dnbd3_packet_magic e then Inl (bs ! 0 = 71 \<or> bs ! 0 = 80)
       else let request = fixup_request e request
            in if rq_cmd request \<noteq> CMD_SELECT_IMAGE then Inl False else Inr request)"

section \<open>The end of a connection\<close>

text \<open>The access time is updated unless the client only probed the server.\<close>

definition touch_image :: "ticks \<Rightarrow> dnbd3_client \<Rightarrow> dnbd3_image \<Rightarrow> dnbd3_image" where
  "touch_image now client img = (if c_bytesSent client > DNBD3_BLOCK_SIZE * 10 then img\<lparr>im_atime := now\<rparr> else img)"

text \<open>\<open>freeClientStruct\<close> on the store of images: \<open>None\<close> is a failed assertion.\<close>

definition freeClientStruct :: "nat \<Rightarrow> nat option \<Rightarrow> dnbd3_connection option \<Rightarrow> image_store \<Rightarrow> (dnbd3_connection option \<times> image_store) option" where
  "freeClientStruct client held link store = (case held of
      None \<Rightarrow> Some (link, store)
    | Some a \<Rightarrow>
       (case image_release a store of
          None \<Rightarrow> None
        | Some store \<Rightarrow> Some (map_option (uplink_removeClient client) link, store)))"

section \<open>The list of clients\<close>

definition addToList :: "nat \<Rightarrow> nat \<Rightarrow> nat option list \<Rightarrow> bool \<times> nat option list" where
  "addToList maxClients client clients = (case fill_slot maxClients client clients of
     None \<Rightarrow> (False, clients) | Some clients \<Rightarrow> (True, clients))"

definition removeFromList :: "nat \<Rightarrow> nat option list \<Rightarrow> nat option list" where
  "removeFromList client clients = clear_loop client (length clients) clients"

text \<open>\<open>net_getStats\<close>: \<open>info\<close> gives, for a client that has an image, whether it is a server and its counter.\<close>

fun net_getStats :: "(nat \<Rightarrow> (bool \<times> u64) option) \<Rightarrow> nat option list \<Rightarrow> int \<times> int \<times> u64 \<Rightarrow> int \<times> int \<times> u64" where
  "net_getStats info [] acc = acc"
| "net_getStats info (None # cs) acc = net_getStats info cs acc"
| "net_getStats info (Some c # cs) (cc, sc, bs) = (case info c of
     None \<Rightarrow> net_getStats info cs (cc, sc, bs)
   | Some (isServer, sent) \<Rightarrow>
       net_getStats info cs (if isServer then (cc, sc + 1, bs + sent) else (cc + 1, sc, bs + sent)))"

text \<open>\<open>net_waitForAllDisconnected\<close>: the list as each round finds it; the number of rounds.\<close>

fun wait_rounds :: "nat option list list \<Rightarrow> nat \<Rightarrow> nat" where
  "wait_rounds [] retries = 0"
| "wait_rounds (cs # rest) 0 = 0"
| "wait_rounds (cs # rest) (Suc retries) =
    (if filter (\<lambda>c. c \<noteq> None) cs = [] then 1 else if retries = 0 then 1 else Suc (wait_rounds rest retries))"

section \<open>Data on the wire\<close>


lemma sendfile_loop_prefix:
  "case sendfile_loop f off n evs out of
     Inl (d, out') \<Rightarrow> \<exists>k\<le>n. out' = out @ map f [off..<off + k]
   | Inr out' \<Rightarrow> out' = out @ map f [off..<off + n]"
proof (induction f off n evs out rule: sendfile_loop.induct)
  case (4 f off n k evs out)
  show ?case
  proof (cases "k = 0")
    case False
    let ?k = "min k (Suc n)"
    have k: "?k \<noteq> 0" "?k \<le> Suc n" using False by auto
    have app: "(out @ map f [off..<off + ?k]) @ map f [off + ?k..<off + ?k + j] = out @ map f [off..<off + (?k + j)]" for j
      using upt_add_eq_append [of off "off + ?k" j] by (simp add: add.assoc)
    show ?thesis
    proof (cases "sendfile_loop f (off + ?k) (Suc n - ?k) evs (out @ map f [off..<off + ?k])")
      case (Inl a)
      obtain d out' where a: "a = (d, out')" by (cases a)
      obtain j where j: "j \<le> Suc n - ?k" "out' = out @ map f [off..<off + (?k + j)]"
        using 4 [OF refl k(1)] Inl a app by auto
      have "?k + j \<le> Suc n" using j(1) k(2) by linarith
      then have "\<exists>k\<le>Suc n. out' = out @ map f [off..<off + k]" using j(2) by blast
      then show ?thesis using Inl a k by (simp only: sendfile_loop.simps Let_def if_False sum.case prod.case)
    next
      case (Inr out')
      have "off + (?k + (Suc n - ?k)) = off + Suc n" using k(2) by linarith
      then have "out' = out @ map f [off..<off + Suc n]"
        using 4 [OF refl k(1)] Inr app [of "Suc n - ?k"] by (simp only: sum.case)
      then show ?thesis using Inr k by (simp only: sendfile_loop.simps Let_def if_False sum.case)
    qed
  qed (auto intro: exI [of _ 0])
qed (auto intro: exI [of _ 0])

definition sends_file :: "nat \<Rightarrow> file_event list \<Rightarrow> bool" where
  "sends_file n evs \<longleftrightarrow> n \<le> length evs \<and> (\<forall>ev\<in>set evs. \<exists>k>0. ev = File_sent k)"

lemma sendfile_loop_complete:
  "sends_file n evs \<Longrightarrow> sendfile_loop f off n evs out = Inr (out @ map f [off..<off + n])"
proof (induction f off n evs out rule: sendfile_loop.induct)
  case (4 f off n k evs out)
  let ?k = "min k (Suc n)"
  have k: "?k \<noteq> 0" "?k \<le> Suc n" using "4.prems" by (auto simp: sends_file_def)
  have "sends_file (Suc n - ?k) evs" using "4.prems" k by (auto simp: sends_file_def)
  note ih = "4.IH" [OF refl k(1) this]
  have "off + ?k + (Suc n - ?k) = off + Suc n" using k(2) by linarith
  then have "map f [off..<off + ?k] @ map f [off + ?k..<off + ?k + (Suc n - ?k)] = map f [off..<off + Suc n]"
    using upt_add_eq_append [of off "off + ?k" "Suc n - ?k"] by (simp del: upt_Suc flip: map_append)
  then show ?case using ih k by (simp only: sendfile_loop.simps Let_def if_False append_assoc)
qed (auto simp: sends_file_def)

lemma sendPadding_prefix:
  "\<exists>k\<le>n. snd (sendPadding ess n) = replicate k 0 \<and> (fst (sendPadding ess n) \<longrightarrow> k = n)"
proof (induction ess n rule: sendPadding.induct)
  case (2 es ess n)
  show ?case
  proof (cases "n \<ge> 500")
    case True
    obtain k where k: "k \<le> 500" "snd (sock_sendAll (replicate 500 0) 2 es) = replicate k 0"
      using sendAll_prefix [of "replicate 500 0" 2 es] by (auto simp: min_def)
    obtain ret where r: "sock_sendAll (replicate 500 (0::u8)) 2 es = (ret, replicate k 0)" using k(2) by (metis prod.collapse)
    have ret: "ret > 0 \<Longrightarrow> ret = int k" using sendAll_positive [of "replicate 500 0" 2 es] r by simp
    show ?thesis
    proof (cases "ret \<le> 0")
      case True
      then show ?thesis using r k(1) \<open>n \<ge> 500\<close> by (auto intro!: exI [of _ k])
    next
      case False
      then have rk: "nat ret = k" using ret by simp
      obtain j where j: "j \<le> n - k" "snd (sendPadding ess (n - k)) = replicate j 0" "fst (sendPadding ess (n - k)) \<longrightarrow> j = n - k"
        using "2.IH" [OF True r [symmetric] False] rk by auto
      have kj: "k + j \<le> n" "j = n - k \<longrightarrow> k + j = n" using j(1) k(1) True by auto
      have "sendPadding (es # ess) n = (fst (sendPadding ess (n - k)), replicate (k + j) 0)"
        using r j(2) True False rk by (cases "sendPadding ess (n - k)") (simp add: replicate_add)
      then show ?thesis using kj j(3) by (intro exI [of _ "k + j"]) simp
    qed
  next
    case False
    obtain k where k: "k \<le> n" "snd (sock_sendAll (replicate n 0) 2 es) = replicate k (0::u8)"
      "n \<noteq> 0 \<longrightarrow> fst (sock_sendAll (replicate n (0::u8)) 2 es) = int n \<longrightarrow> k = n"
      using sendAll_prefix [of "replicate n 0" 2 es] by (auto simp: min_def)
    then show ?thesis using False by (auto split: prod.splits intro!: exI [of _ k])
  qed
qed auto


definition sends_pad :: "nat \<Rightarrow> send_event list list \<Rightarrow> bool" where
  "sends_pad n ess \<longleftrightarrow> n div 500 < length ess \<and> (\<forall>es\<in>set ess. \<exists>k\<ge>500. \<exists>es'. es = Sent k # es')"

lemma sendPadding_complete: "sends_pad n ess \<Longrightarrow> fst (sendPadding ess n)"
proof (induction ess n rule: sendPadding.induct)
  case (2 es ess n)
  obtain k es' where es: "es = Sent k # es'" "k \<ge> 500" using "2.prems" by (auto simp: sends_pad_def)
  show ?case
  proof (cases "n \<ge> 500")
    case True
    have w: "sock_sendAll (replicate 500 (0::u8)) 2 es = (500, replicate 500 0)"
      using es(2) by (simp add: es(1) sendAll_whole)
    have "(n - 500) div 500 < length ess" using "2.prems" True by (simp add: sends_pad_def le_div_geq)
    then have "sends_pad (n - 500) ess" using "2.prems" by (simp add: sends_pad_def)
    then show ?thesis using "2.IH" [OF True w [symmetric]] w True by (cases "sendPadding ess (n - 500)") simp
  next
    case False
    then show ?thesis using es by (cases "n = 0") (simp_all add: sendAll_whole sendAll_empty)
  qed
qed (simp add: sends_pad_def)

definition image_bytes :: "(nat \<Rightarrow> u8) \<Rightarrow> dnbd3_image \<Rightarrow> nat \<Rightarrow> nat \<Rightarrow> u8 list" where
  "image_bytes f img off n = map (\<lambda>i. if i < unat (realFilesize img) then f i else 0) [off..<off + n]"

lemma image_bytes_split:
  assumes "off \<le> unat (realFilesize img)"
  shows "image_bytes f img off n = (let m = min n (unat (realFilesize img) - off)
    in map f [off..<off + m] @ replicate (n - m) 0)"
proof -
  let ?m = "min n (unat (realFilesize img) - off)"
  have "[off..<off + n] = [off..<off + ?m] @ [off + ?m..<off + n]"
    using upt_add_eq_append [of off "off + ?m" "n - ?m"] by simp
  moreover have "map (\<lambda>i. if i < unat (realFilesize img) then f i else 0) [off..<off + ?m] = map f [off..<off + ?m]"
    using assms by auto
  moreover have "map (\<lambda>i. if i < unat (realFilesize img) then f i else 0) [off + ?m..<off + n] = replicate (n - ?m) 0"
    using assms by (intro replicate_eqI) auto
  ultimately show ?thesis by (simp only: image_bytes_def map_append Let_def)
qed

definition block_reply :: "endian \<Rightarrow> dnbd3_request \<Rightarrow> u8 list \<Rightarrow> u8 list" where
  "block_reply e request d = [0x73, 0x72] @ le_bytes 2 (unat CMD_GET_BLOCK) @ le_bytes 4 (unat (rq_size request))
     @ store_native e 8 (unat (rq_handle request)) @ d"

lemma unat_ucast_u32: "unat (ucast (sz :: u32) :: u64) = unat sz"
  using unat_u32_less [of sz] by (simp add: unsigned_ucast_eq take_bit_nat_eq_self)

lemma request_end:
  assumes "image_wf img" "unat (offset :: u64) + unat (sz :: u32) \<le> unat (virtualFilesize img)"
  shows "unat (offset + ucast sz) = unat offset + unat sz"
proof -
  have "unat (virtualFilesize img) < 2 ^ 45" using assms(1) by (simp add: image_wf_def)
  then show ?thesis using assms(2) by (subst unat_add_no_wrap) (simp_all add: unat_ucast_u32)
qed

lemma real_bytes_eq:
  assumes "image_wf img" "unat offset + unat sz \<le> unat (virtualFilesize img)" "offset \<le> realFilesize img"
  shows "unat (real_bytes img offset sz) = min (unat sz) (unat (realFilesize img) - unat offset)"
    "unat (ucast (real_bytes img offset sz) :: u32) = unat (real_bytes img offset sz)"
proof -
  note s = request_end [OF assms(1,2)]
  show r: "unat (real_bytes img offset sz) = min (unat sz) (unat (realFilesize img) - unat offset)"
    using s assms(3) by (auto simp: real_bytes_def word_le_nat_alt unat_sub_if_size unat_ucast_u32)
  show "unat (ucast (real_bytes img offset sz) :: u32) = unat (real_bytes img offset sz)"
    using r unat_u32_less [of sz] by (simp add: unsigned_ucast_eq take_bit_nat_eq_self)
qed

definition env_ok :: "nat \<Rightarrow> net_env \<Rightarrow> bool" where
  "env_ok n env \<longleftrightarrow> ne_header_ok env \<and> sends_file n (ne_files env) \<and> sends_pad n (ne_pad env)"

lemma sends_mono: "m \<le> n \<Longrightarrow> sends_file n evs \<Longrightarrow> sends_file m evs" "m \<le> n \<Longrightarrow> sends_pad n ess \<Longrightarrow> sends_pad m ess"
  using div_le_mono [of m n 500] by (auto simp: sends_file_def sends_pad_def)

text \<open>The reply, as far as it goes out: \<open>reply_sent go out full\<close> says that the bytes sent begin the full reply, and are the
  full reply if the connection goes on.\<close>

definition reply_sent :: "bool \<Rightarrow> u8 list \<Rightarrow> u8 list \<Rightarrow> bool" where
  "reply_sent go out full \<longleftrightarrow> (\<exists>k. out = take k full) \<and> (go \<longrightarrow> out = full)"

lemma reply_sentI: "full = out @ r \<Longrightarrow> go \<longrightarrow> r = [] \<Longrightarrow> reply_sent go out full"
  by (auto simp: reply_sent_def intro: exI [of _ "length out"])

lemma send_block_data:
  assumes "image_wf img" "unat offset + unat sz \<le> unat (virtualFilesize img)" "offset \<le> realFilesize img" "sz \<noteq> 0"
  defines "r \<equiv> real_bytes img offset sz"
  shows "image_bytes f img (unat offset) (unat sz) = map f [unat offset..<unat offset + unat r] @ replicate (unat (sz - ucast r)) 0"
    "sz > ucast r \<longleftrightarrow> unat sz - unat r \<noteq> 0" "unat (sz - ucast r) = unat sz - unat r" "unat r \<le> unat sz"
proof -
  note rb = real_bytes_eq [OF assms(1-3), folded r_def]
  show le: "unat r \<le> unat sz" using rb(1) by simp
  then show sub: "unat (sz - ucast r) = unat sz - unat r" by (simp add: unat_sub rb(2) word_le_nat_alt)
  show "sz > ucast r \<longleftrightarrow> unat sz - unat r \<noteq> 0" using le by (auto simp: word_less_nat_alt rb(2))
  have "unat offset \<le> unat (realFilesize img)" using assms(3) by (simp add: word_le_nat_alt)
  from image_bytes_split [OF this, of f "unat sz"]
  show "image_bytes f img (unat offset) (unat sz) = map f [unat offset..<unat offset + unat r] @ replicate (unat (sz - ucast r)) 0"
    by (simp only: Let_def sub rb(1) min.commute)
qed

lemma send_block_result:
  assumes wf: "image_wf (ns_image s)" and r: "unat (offset_small request) + unat (rq_size request) \<le> unat (virtualFilesize (ns_image s))"
    and off: "offset_small request \<le> realFilesize (ns_image s)" and m: "rp_magic (c_reply (ns_client s)) = dnbd3_packet_magic e"
    and res: "send_block e env request s = (go, s', out)"
  shows "reply_sent go out (block_reply e request
      (image_bytes (ns_file s) (ns_image s) (unat (offset_small request)) (unat (rq_size request))))"
    "env_ok (unat (rq_size request)) env \<Longrightarrow> go"
proof -
  define offset sz img where "offset = offset_small request" and "sz = rq_size request" and "img = ns_image s"
  define reply where "reply = fixup_reply e ((c_reply (ns_client s))\<lparr>rp_cmd := CMD_GET_BLOCK, rp_size := sz, rp_handle := rq_handle request\<rparr>)"
  define rb where "rb = real_bytes img offset sz"
  define fr where "fr = sendfile_loop (ns_file s) (unat offset) (unat rb) (ne_files env) []"
  define pr where "pr = sendPadding (ne_pad env) (unat (sz - ucast rb))"
  define full where "full = image_bytes (ns_file s) img (unat offset) (unat sz)"
  have mem: "reply_mem e reply @ full = block_reply e request full"
    unfolding reply_def block_reply_def using m by (subst reply_wire) (simp_all add: sz_def)
  note defs = res [unfolded send_block_def Let_def, folded offset_def sz_def img_def, folded reply_def rb_def, simplified,
      folded fr_def pr_def]
  have P: "reply_sent go out (reply_mem e reply @ full) \<and> (env_ok (unat sz) env \<longrightarrow> go)"
  proof (cases "ne_header_ok env \<and> sz \<noteq> 0")
    case False
    then consider "\<not> ne_header_ok env" | "ne_header_ok env" "sz = 0" by blast
    then show ?thesis
    proof cases
      case 1
      then show ?thesis using defs by (auto simp: env_ok_def reply_sent_def intro: exI [of _ 0])
    next
      case 2
      then have "full = []" by (simp add: full_def image_bytes_def)
      then show ?thesis using defs 2 by (auto intro: reply_sentI)
    qed
  next
    case True
    note d = send_block_data [OF wf [folded img_def] r [folded offset_def sz_def img_def] off [folded offset_def img_def] conjunct2 [OF True],
        folded rb_def]
    have fl: "full = map (ns_file s) [unat offset..<unat offset + unat rb] @ replicate (unat sz - unat rb) 0"
      using d(1) [where f = "ns_file s"] d(3) by (simp only: full_def)
    have ok: "fr = Inr (map (ns_file s) [unat offset..<unat offset + unat rb]) \<and> fst pr" if "env_ok (unat sz) env"
      using that sends_mono [of "unat rb" "unat sz"] sends_mono(2) [of "unat (sz - ucast rb)" "unat sz"] d(3,4)
      by (simp add: env_ok_def fr_def pr_def sendfile_loop_complete sendPadding_complete)
    note sp = sendfile_loop_prefix [where f = "ns_file s" and off = "unat offset" and n = "unat rb" and evs = "ne_files env" and out = "[]", folded fr_def, simplified]
    show ?thesis
    proof (cases fr)
      case (Inl a)
      obtain dis o1 where a: "a = (dis, o1)" by (cases a)
      obtain k where k: "k \<le> unat rb" "o1 = map (ns_file s) [unat offset..<unat offset + k]" using sp Inl a by auto
      have "full = o1 @ (map (ns_file s) [unat offset + k..<unat offset + unat rb] @ replicate (unat sz - unat rb) 0)"
        using upt_add_eq_append [of "unat offset" "unat offset + k" "unat rb - k"] k by (simp add: fl)
      moreover have "go = False" "out = reply_mem e reply @ o1" using defs True Inl [unfolded fr_def] a by simp_all
      ultimately show ?thesis using ok Inl by (auto intro: reply_sentI)
    next
      case (Inr o1)
      then have o1: "o1 = map (ns_file s) [unat offset..<unat offset + unat rb]" using sp by simp
      show ?thesis
      proof (cases "sz > ucast rb")
        case False
        then show ?thesis using defs True Inr [unfolded fr_def] d(2) by (auto simp: fl o1 intro!: reply_sentI)
      next
        case pad: True
        obtain k where k: "k \<le> unat sz - unat rb" "snd pr = replicate k 0" "fst pr \<longrightarrow> k = unat sz - unat rb"
          using sendPadding_prefix [of "unat (sz - ucast rb)" "ne_pad env", folded pr_def] d(3) by auto
        have "full = (o1 @ snd pr) @ replicate (unat sz - unat rb - k) 0"
          using k(1,2) by (simp add: fl o1 flip: replicate_add)
        moreover have "go = fst pr" "out = reply_mem e reply @ o1 @ snd pr" using defs True Inr [unfolded fr_def] pad by (auto split: prod.splits)
        ultimately show ?thesis using k(3) ok by (auto intro!: reply_sentI)
      qed
    qed
  qed
  show "reply_sent go out (block_reply e request (image_bytes (ns_file s) (ns_image s) (unat (offset_small request)) (unat (rq_size request))))"
    using P mem by (simp only: full_def offset_def sz_def img_def)
  show "env_ok (unat (rq_size request)) env \<Longrightarrow> go" using P by (simp only: sz_def)
qed

section \<open>Decisions of the block handler\<close>


lemma offset_small_less: "unat (offset_small r) < 2 ^ 56"
proof -
  have "unat (take_bit 56 (rq_offset r)) < 2 ^ 56" using take_bit_nat_less_exp [of 56 "unat (rq_offset r)"] by (simp add: unsigned_take_bit_eq)
  then show ?thesis by (simp add: offset_small_def)
qed

lemma unat_request_end: "unat (offset_small r + ucast (sz :: u32)) = unat (offset_small r) + unat sz"
  using offset_small_less [of r] unat_u32_less [of sz] by (subst unat_add_no_wrap) (simp_all add: unat_ucast_u32)

definition in_bounds :: "dnbd3_image \<Rightarrow> dnbd3_request \<Rightarrow> bool" where
  "in_bounds img request \<longleftrightarrow> unat (offset_small request) < unat (virtualFilesize img)
     \<and> unat (offset_small request) + unat (rq_size request) \<le> unat (virtualFilesize img)"

lemma handle_get_block_checks:
  "\<not> in_bounds (ns_image s) request \<Longrightarrow> handle_get_block e env request s = Some (error_reply e env s, [])"
  "in_bounds (ns_image s) request \<Longrightarrow>
     \<not> offset_small request \<ge> virtualFilesize (ns_image s)
     \<and> \<not> offset_small request + ucast (rq_size request) > virtualFilesize (ns_image s)"
  by (auto simp: in_bounds_def handle_get_block_def Let_def word_le_nat_alt word_less_nat_alt unat_request_end)

lemma no_map_cached: "image_wf img \<Longrightarrow> cache_map img = None \<Longrightarrow> unat offset + unat sz \<le> unat (virtualFilesize img) \<Longrightarrow>
    request_blocks offset sz \<subseteq> cached_blocks img"
  using image_wf_sizes(1) [of img] by (auto simp: request_blocks_def cached_blocks_def)

definition is_local :: "dnbd3_image \<Rightarrow> dnbd3_request \<Rightarrow> bool" where
  "is_local img request \<longleftrightarrow> rq_size request = 0 \<or> request_blocks (offset_small request) (rq_size request) \<subseteq> cached_blocks img"

text \<open>What the handler decides for a request inside the image.\<close>

lemma handle_get_block_local:
  assumes "image_wf (ns_image s)" "in_bounds (ns_image s) request"
    "is_local (ns_image s) request"
  shows "handle_get_block e env request s = Some (send_block e env request s, [])"
proof -
  have b: "unat (offset_small request) + unat (rq_size request) \<le> unat (virtualFilesize (ns_image s))"
    using assms(2) by (simp add: in_bounds_def)
  have "(if rq_size request \<noteq> 0 \<and> cache_map (ns_image s) \<noteq> None
      then net_isCached (ns_image s) (offset_small request) (rq_size request) else Some True) = Some True"
    using isCached_iff [OF assms(1) b] assms(3) by (auto simp: is_local_def)
  then show ?thesis
    using handle_get_block_checks(2) [OF assms(2)]
    unfolding handle_get_block_def Let_def by (simp only: if_False option.case bool.case)
qed

definition relay :: "net_env \<Rightarrow> dnbd3_request \<Rightarrow> net_state \<Rightarrow> bool \<times> dnbd3_connection option \<times> block_request list" where
  "relay env request s = (case ns_link s of
      None \<Rightarrow> (False, None, [])
    | Some link \<Rightarrow>
       (case uplink_request (ne_maxPayload env) (ne_uplink env) (c_id (ns_client s)) (c_host (ns_client s))
               (rq_handle request) (offset_small request) (rq_size request) (hops request) link of
          (ok, link, out) \<Rightarrow> (ok, Some link, out)))"

lemma handle_get_block_relay:
  assumes "image_wf (ns_image s)" "in_bounds (ns_image s) request"
    "\<not> is_local (ns_image s) request"
  shows "handle_get_block e env request s = (case relay env request s of (ok, link, out) \<Rightarrow>
      if ok then Some ((True, s\<lparr>ns_link := link\<rparr>, []), out)
      else Some ((False, s\<lparr>ns_link := link, ns_image := (ns_image s)\<lparr>im_working := False\<rparr>\<rparr>, []), out))"
proof -
  have b: "unat (offset_small request) + unat (rq_size request) \<le> unat (virtualFilesize (ns_image s))"
    using assms(2) by (simp add: in_bounds_def)
  have m: "cache_map (ns_image s) \<noteq> None" using no_map_cached [OF assms(1) _ b] assms(3) unfolding is_local_def by blast
  have z: "rq_size request \<noteq> 0" using assms(3) by (simp add: is_local_def)
  have "(if rq_size request \<noteq> 0 \<and> cache_map (ns_image s) \<noteq> None
      then net_isCached (ns_image s) (offset_small request) (rq_size request) else Some True) = Some False"
    using isCached_iff [OF assms(1) b z] assms(3) m z by (simp add: is_local_def)
  then show ?thesis
    using handle_get_block_checks(2) [OF assms(2)]
    unfolding handle_get_block_def Let_def relay_def by (simp only: if_False option.case bool.case)
qed


lemma error_reply_bytes:
  assumes "rp_magic (c_reply (ns_client s)) = dnbd3_packet_magic e"
  shows "\<exists>k. error_reply e env s = (True, s\<lparr>ns_client := (ns_client s)\<lparr>c_reply := fixup_reply e ((c_reply (ns_client s))\<lparr>rp_size := 0, rp_cmd := CMD_ERROR\<rparr>)\<rparr>\<rparr>,
    take k ([0x73, 0x72] @ le_bytes 2 (unat CMD_ERROR) @ le_bytes 4 0 @ store_native e 8 (unat (rp_handle (c_reply (ns_client s))))))"
proof -
  let ?r = "(c_reply (ns_client s))\<lparr>rp_size := 0, rp_cmd := CMD_ERROR\<rparr>"
  obtain k where "snd (sock_sendAll (reply_mem e (fixup_reply e ?r)) 1 (ne_send1 env)) = take k (reply_mem e (fixup_reply e ?r))"
    using sendAll_prefix by blast
  then have "snd (send_reply e (ne_send1 env) [] ?r None) = take k (reply_mem e (fixup_reply e ?r))"
    by (auto simp: send_reply_def split: prod.splits)
  then show ?thesis using assms by (intro exI [of _ k]) (simp add: error_reply_def reply_wire)
qed

lemma image_bytes_coherent:
  assumes "coherent content img f" "n = 0 \<or> {k. 4096 * k < off + n \<and> off < 4096 * k + 4096} \<subseteq> cached_blocks img"
  shows "image_bytes f img off n = image_bytes content img off n"
proof -
  have "f i = content i" if "off \<le> i" "i < off + n" for i
  proof -
    have "4096 * (i div 4096) \<le> i" "i < 4096 * (i div 4096) + 4096" by (auto simp: dividend_less_times_div)
    moreover then have "i div 4096 \<in> cached_blocks img" using assms(2) that by (auto simp: subset_eq)
    ultimately show ?thesis using assms(1) unfolding coherent_def by blast
  qed
  then show ?thesis by (auto simp: image_bytes_def)
qed

lemma sendfile_eof: "0 < n \<Longrightarrow> sendfile_loop f off n (File_sent 0 # evs) out = Inl (False, out)"
  by (cases n) auto

lemma real_bytes_underflow:
  assumes "image_wf img" "realFilesize img < offset" "sz \<noteq> 0" "unat offset + unat sz \<le> unat (virtualFilesize img)"
  shows "unat (real_bytes img offset sz) = 2 ^ 64 - (unat offset - unat (realFilesize img))"
proof -
  have "\<not> offset + ucast sz \<le> realFilesize img"
    using request_end [OF assms(1,4)] assms(2,3) by (auto simp: word_le_nat_alt word_less_nat_alt)
  then show ?thesis using assms(2) unat_u64_less [of offset] by (simp add: real_bytes_def unat_sub_if_size word_less_nat_alt word_size)
qed


section \<open>Properties\<close>

text \<open>A block request that lies inside the image and whose blocks are all in the local file is answered with the magic, its own
  size and handle and the bytes of the file, padded with zeros behind the real end of the file, however \<open>sendfile\<close> and \<open>send\<close> split the
  data: what goes out always begins the full reply, the connection only goes on when all of it went out, and it does go out when no call
  fails.\<close>

theorem get_block_reply:
  assumes "image_wf (ns_image s)" "in_bounds (ns_image s) request" "is_local (ns_image s) request"
    "offset_small request \<le> realFilesize (ns_image s)" "rp_magic (c_reply (ns_client s)) = dnbd3_packet_magic e"
  shows "\<exists>go s' out. handle_get_block e env request s = Some ((go, s', out), [])
    \<and> reply_sent go out (block_reply e request
        (image_bytes (ns_file s) (ns_image s) (unat (offset_small request)) (unat (rq_size request))))
    \<and> (env_ok (unat (rq_size request)) env \<longrightarrow> go)"
proof -
  obtain go s' out where r: "send_block e env request s = (go, s', out)" by (cases "send_block e env request s") auto
  have b: "unat (offset_small request) + unat (rq_size request) \<le> unat (virtualFilesize (ns_image s))"
    using assms(2) by (simp add: in_bounds_def)
  show ?thesis
    using handle_get_block_local [OF assms(1-3)] send_block_result [OF assms(1) b assms(4,5) r] r by auto
qed

definition sample_client :: dnbd3_client where
  "sample_client = \<lparr>c_id = 1, c_host = sample_host, c_isServer = False, c_bytesSent = 0,
     c_reply = \<lparr>rp_magic = dnbd3_packet_magic LE, rp_cmd = 0, rp_size = 0, rp_handle = 9\<rparr>, c_hasName = False\<rparr>"

definition sample_net :: net_state where
  "sample_net = \<lparr>ns_client = sample_client, ns_image = sample_image, ns_link = Some sample_link, ns_file = \<lambda>_. 7\<rparr>"

definition sample_net_env :: net_env where
  "sample_net_env = \<lparr>ne_maxPayload = 8192, ne_uplink = \<lparr>se_locked = False, se_sent = True\<rparr>, ne_header_ok = True,
     ne_files = [File_sent 1, File_sent 5], ne_pad = [[Sent 500]], ne_send1 = [Sent 16], ne_send2 = []\<rparr>"

definition block_request_at :: "u64 \<Rightarrow> u32 \<Rightarrow> dnbd3_request" where
  "block_request_at off n = \<lparr>rq_magic = dnbd3_packet_magic LE, rq_cmd = CMD_GET_BLOCK, rq_size = n, rq_offset = off, rq_handle = 5\<rparr>"

lemma sample_block:
  "off < 0x100000000000000 \<Longrightarrow> offset_small (block_request_at off n) = off" "rq_size (block_request_at off n) = n"
  "rq_handle (block_request_at off n) = 5"
proof -
  show "offset_small (block_request_at off n) = off" if a: "off < 0x100000000000000"
  proof -
    have "unat off < 2 ^ 56" using a by (simp add: word_less_nat_alt)
    then have "unat (take_bit 56 off) = unat off" by (simp add: unsigned_take_bit_eq take_bit_nat_eq_self)
    then show ?thesis by (simp add: block_request_at_def offset_small_def word_unat_eq_iff)
  qed
qed (simp_all add: block_request_at_def)

lemma sample_sizes: "virtualFilesize sample_image = 40960" "realFilesize sample_image = 40000"
  by (simp_all add: sample_image_def)

definition whole_image :: dnbd3_image where
  "whole_image = sample_image\<lparr>cache_map := None\<rparr>"

lemma whole_image: "image_wf whole_image" "virtualFilesize whole_image = 40960" "realFilesize whole_image = 40000"
  using sample_image_wf by (simp_all add: whole_image_def image_wf_def sample_sizes)

lemma whole_image_local: "off < 40960 \<Longrightarrow> unat off + unat n \<le> 40960 \<Longrightarrow> is_local whole_image (block_request_at off n)"
proof -
  assume a: "off < 40960" "unat off + unat n \<le> 40960"
  have "off < 0x100000000000000" using a(1) by (rule less_trans) simp
  moreover have "cache_map whole_image = None" by (simp add: whole_image_def)
  ultimately show ?thesis
    using no_map_cached [OF whole_image(1), of off n] a(2) by (simp add: is_local_def sample_block whole_image)
qed

theorem get_block_reply_witness:
  "\<exists>s'. handle_get_block LE sample_net_env (block_request_at 39999 2) (sample_net\<lparr>ns_image := whole_image\<rparr>)
     = Some ((True, s', [0x73, 0x72, 1, 0, 2, 0, 0, 0, 5, 0, 0, 0, 0, 0, 0, 0, 7, 0]), [])"
proof -
  let ?s = "sample_net\<lparr>ns_image := whole_image\<rparr>"
  have env: "env_ok 2 sample_net_env" by (simp add: env_ok_def sample_net_env_def sends_file_def sends_pad_def)
  have loc: "is_local whole_image (block_request_at 39999 2)" by (rule whole_image_local) simp_all
  have full: "block_reply LE (block_request_at 39999 2) (image_bytes (\<lambda>_. 7) whole_image 39999 2)
      = [0x73, 0x72, 1, 0, 2, 0, 0, 0, 5, 0, 0, 0, 0, 0, 0, 0, 7, 0]"
    by (simp add: block_reply_def image_bytes_def sample_block whole_image le_bytes_numeral store_native_def CMD_GET_BLOCK_def upt_rec [of 39999])
  have p: "image_wf (ns_image ?s)" "in_bounds (ns_image ?s) (block_request_at 39999 2)" "is_local (ns_image ?s) (block_request_at 39999 2)"
    "offset_small (block_request_at 39999 2) \<le> realFilesize (ns_image ?s)" "rp_magic (c_reply (ns_client ?s)) = dnbd3_packet_magic LE"
    "ns_file ?s = (\<lambda>_. 7)" "ns_image ?s = whole_image"
    using loc by (simp_all add: whole_image in_bounds_def sample_block sample_net_def sample_client_def)
  from get_block_reply [OF p(1-5), of sample_net_env] env show ?thesis
    by (auto simp: sample_block p(6,7) full reply_sent_def)
qed

text \<open>The file of the image ends at its real size: behind it \<open>sendfile\<close> copies nothing.\<close>

definition file_ends :: "dnbd3_image \<Rightarrow> dnbd3_request \<Rightarrow> net_env \<Rightarrow> bool" where
  "file_ends img request env \<longleftrightarrow> realFilesize img < offset_small request \<longrightarrow> (case ne_files env of File_sent k # _ \<Rightarrow> k = 0 | _ \<Rightarrow> True)"

lemma send_block_padding:
  assumes "image_wf (ns_image s)" "in_bounds (ns_image s) request" "realFilesize (ns_image s) < offset_small request" "rq_size request \<noteq> 0" "file_ends (ns_image s) request env"
    "rp_magic (c_reply (ns_client s)) = dnbd3_packet_magic e"
  shows "\<exists>s'. send_block e env request s = (False, s', if ne_header_ok env then block_reply e request [] else [])"
proof -
  have b: "unat (offset_small request) + unat (rq_size request) \<le> unat (virtualFilesize (ns_image s))" using assms(2) by (simp add: in_bounds_def)
  define rb where "rb = unat (real_bytes (ns_image s) (offset_small request) (rq_size request))"
  have "rb = 2 ^ 64 - (unat (offset_small request) - unat (realFilesize (ns_image s)))" unfolding rb_def by (rule real_bytes_underflow [OF assms(1,3,4) b])
  then have "0 < rb" using offset_small_less [of request] by simp
  then obtain m where m: "rb = Suc m" by (metis gr0_implies_Suc)
  obtain d where "sendfile_loop (ns_file s) (unat (offset_small request)) rb (ne_files env) [] = Inl (d, [])"
    using assms(3,5) unfolding m by (auto simp: file_ends_def split: list.splits file_event.splits)
  then show ?thesis using assms(4,6) by (simp add: send_block_def Let_def reply_wire block_reply_def flip: rb_def)
qed

lemma send_block_empty:
  assumes "rq_size request = 0" "rp_magic (c_reply (ns_client s)) = dnbd3_packet_magic e"
  shows "\<exists>s'. send_block e env request s = (ne_header_ok env, s', if ne_header_ok env then block_reply e request [] else [])"
  using assms by (simp add: send_block_def Let_def reply_wire block_reply_def)

text \<open>C3. A proxy is transparent, except behind the end of the file: in every reachable state of the uplink, for a block request inside the image, if one of its blocks is missing,
  nothing is sent to the client and the request is handed to the uplink. If all are there, the request is answered at once with the bytes that the upstream server has, with
  zeros behind the end of the file; but if it has data to send and begins behind the real end of the file, the client gets no data: it is dropped after the header at the
  latest. No assertion fails. The file is assumed to end where the image says.\<close>

theorem proxy_transparent:
  assumes "uplink_reachable content (link, img, f, outs, conn)" "ns_image s = img" "ns_file s = f" "ns_link s = Some link"
    "in_bounds img request" "file_ends img request env" "rp_magic (c_reply (ns_client s)) = dnbd3_packet_magic e"
  shows "\<exists>go s' out reqs. handle_get_block e env request s = Some ((go, s', out), reqs) \<and>
    (if \<not> is_local img request then out = [] \<and> relay env request s = (go, ns_link s', reqs)
     else if offset_small request \<le> realFilesize img \<or> rq_size request = 0
     then reply_sent go out (block_reply e request
            (image_bytes content img (unat (offset_small request)) (unat (rq_size request)))) \<and> reqs = []
            \<and> (env_ok (unat (rq_size request)) env \<longrightarrow> go)
     else \<not> go \<and> reqs = [] \<and> out = (if ne_header_ok env then block_reply e request [] else []))"
proof -
  have inv: "image_wf (ns_image s)" "coherent content img f"
    using reachable_inv [OF assms(1)] assms(2) by (simp_all add: uplink_inv_def)
  have ib: "in_bounds (ns_image s) request" using assms(2,5) by simp
  show ?thesis
  proof (cases "is_local img request")
    case True
    then have loc: "is_local (ns_image s) request" using assms(2) by simp
    have b: "unat (offset_small request) + unat (rq_size request) \<le> unat (virtualFilesize (ns_image s))"
      using ib by (simp add: in_bounds_def)
    obtain go s' out where r: "send_block e env request s = (go, s', out)" by (cases "send_block e env request s") auto
    note h = handle_get_block_local [OF inv(1) ib loc, of e env, unfolded r]
    consider "offset_small request \<le> realFilesize img" | "\<not> offset_small request \<le> realFilesize img" "rq_size request = 0" | "\<not> offset_small request \<le> realFilesize img" "rq_size request \<noteq> 0" by blast
    then show ?thesis
    proof cases
      case 1
      then have off: "offset_small request \<le> realFilesize (ns_image s)" using assms(2) by simp
      have "image_bytes f img (unat (offset_small request)) (unat (rq_size request))
          = image_bytes content img (unat (offset_small request)) (unat (rq_size request))"
        using image_bytes_coherent [OF inv(2)] True by (auto simp: is_local_def request_blocks_def)
      then show ?thesis using h send_block_result [OF inv(1) b off assms(7) r] True 1 assms(2,3) by auto
    next
      case 2
      have "image_bytes content img (unat (offset_small request)) (unat (rq_size request)) = []" using 2 by (simp add: image_bytes_def)
      then show ?thesis using h send_block_empty [OF 2(2) assms(7), of env] r True 2 reply_sentI [of "block_reply e request []" "block_reply e request []" "[]"] reply_sentI [of "block_reply e request []" "[]"]
        by (cases "ne_header_ok env") (auto simp: env_ok_def)
    next
      case 3
      then have "realFilesize (ns_image s) < offset_small request" "file_ends (ns_image s) request env" using assms(2,6) by simp_all
      then show ?thesis using h send_block_padding [OF inv(1) ib _ 3(2) _ assms(7), of env] r True 3 by (auto split: if_splits)
    qed
  next
    case False
    then show ?thesis
      using handle_get_block_relay [OF inv(1) ib, of e env] assms(2) by (auto split: prod.splits)
  qed
qed

lemma sample_cached: "0 \<in> cached_blocks sample_image" "4 \<notin> cached_blocks sample_image"
  by (simp_all add: cached_blocks_def cached_bit_def image_blocks_def sample_image_def bit_numeral_rec)

theorem proxy_transparent_witness:
  "\<exists>s'. handle_get_block LE sample_net_env (block_request_at 5 1) (sample_net\<lparr>ns_file := \<lambda>_. 0, ns_link := Some sample_waiting\<rparr>)
     = Some ((True, s', [0x73, 0x72, 1, 0, 1, 0, 0, 0, 5, 0, 0, 0, 0, 0, 0, 0, 0]), [])"
proof -
  let ?s = "sample_net\<lparr>ns_file := \<lambda>_. 0, ns_link := Some sample_waiting\<rparr>"
  have env: "env_ok 1 sample_net_env" by (simp add: env_ok_def sample_net_env_def sends_file_def sends_pad_def)
  have loc: "is_local sample_image (block_request_at 5 1)"
  proof -
    have "request_blocks 5 1 = {0}" by (auto simp: request_blocks_def)
    then show ?thesis using sample_cached(1) by (simp add: is_local_def sample_block)
  qed
  have full: "block_reply LE (block_request_at 5 1) (image_bytes (\<lambda>_. 0) sample_image 5 1)
      = [0x73, 0x72, 1, 0, 1, 0, 0, 0, 5, 0, 0, 0, 0, 0, 0, 0, 0]"
    by (simp add: block_reply_def image_bytes_def sample_block sample_sizes le_bytes_numeral store_native_def CMD_GET_BLOCK_def)
  have p: "ns_image ?s = sample_image" "ns_file ?s = (\<lambda>_. 0)" "ns_link ?s = Some sample_waiting"
    "in_bounds sample_image (block_request_at 5 1)" "file_ends sample_image (block_request_at 5 1) sample_net_env"
    "rp_magic (c_reply (ns_client ?s)) = dnbd3_packet_magic LE"
    by (simp_all add: sample_sizes in_bounds_def sample_block sample_net_def sample_client_def file_ends_def)
  from proxy_transparent [OF sample_waiting_reachable p] env loc show ?thesis
    by (auto simp: sample_block sample_sizes full [unfolded One_nat_def] reply_sent_def)
qed

text \<open>A block request that is not inside the image is answered with an empty \<open>CMD_ERROR\<close> reply, and nothing else changes. The reply
  does not carry the handle of the request: the reply structure still has the handle of the last block that was sent.\<close>

theorem get_block_out_of_bounds:
  assumes "\<not> in_bounds (ns_image s) request" "rp_magic (c_reply (ns_client s)) = dnbd3_packet_magic e"
  shows "\<exists>s' out. handle_get_block e env request s = Some ((True, s', out), [])
    \<and> ns_image s' = ns_image s \<and> ns_link s' = ns_link s \<and> rp_handle (c_reply (ns_client s')) = rp_handle (c_reply (ns_client s))
    \<and> (\<exists>k. out = take k ([0x73, 0x72] @ le_bytes 2 (unat CMD_ERROR) @ le_bytes 4 0 @ store_native e 8 (unat (rp_handle (c_reply (ns_client s))))))"
  using handle_get_block_checks(1) [OF assms(1)] error_reply_bytes [OF assms(2), of env] by (auto simp: fixup_reply_def)

theorem get_block_out_of_bounds_witness:
  "\<exists>s' out. handle_get_block LE sample_net_env (block_request_at 40960 1) sample_net = Some ((True, s', out), [])
     \<and> rp_handle (c_reply (ns_client s')) = 9"
  using get_block_out_of_bounds [of sample_net "block_request_at 40960 1" LE sample_net_env]
  by (auto simp: in_bounds_def sample_block sample_net_def sample_image_def sample_client_def)

text \<open>When the uplink does not take a request that the file cannot answer, the whole image is taken out of service, not only the client:
  a single request that is longer than the configured payload (or comes when the queue is full) suffices.\<close>

theorem oversized_request_disables_image:
  assumes "image_wf (ns_image s)" "in_bounds (ns_image s) request" "\<not> is_local (ns_image s) request"
    "rq_size request > ne_maxPayload env"
  shows "handle_get_block e env request s = Some ((False, s\<lparr>ns_image := (ns_image s)\<lparr>im_working := False\<rparr>\<rparr>, []), [])"
proof -
  have "relay env request s = (False, ns_link s, [])"
    using assms(4) by (simp add: relay_def uplink_request_def split: option.splits)
  then show ?thesis using handle_get_block_relay [OF assms(1-3), of e env] by simp
qed

lemma sample_not_local: "\<not> is_local sample_image (block_request_at 16384 9000)"
proof -
  have "4 \<in> request_blocks 16384 9000" by (simp add: request_blocks_def)
  then show ?thesis using sample_cached(2) by (auto simp: is_local_def sample_block)
qed

theorem oversized_request_disables_image_witness:
  "handle_get_block LE sample_net_env (block_request_at 16384 9000) sample_net
     = Some ((False, sample_net\<lparr>ns_image := sample_image\<lparr>im_working := False\<rparr>\<rparr>, []), [])"
  using oversized_request_disables_image [of sample_net "block_request_at 16384 9000" sample_net_env LE] sample_image_wf sample_not_local
  by (simp add: sample_net_def sample_block in_bounds_def sample_net_env_def sample_sizes)

text \<open>A request that lies in the padding behind the real end of the file is not answered: the number of bytes to take from the file wraps
  around, \<open>sendfile\<close> reports the end of the file, and the client is dropped after the header.\<close>

theorem padding_request_drops_client:
  assumes "image_wf (ns_image s)" "in_bounds (ns_image s) request" "is_local (ns_image s) request"
    "realFilesize (ns_image s) < offset_small request" "rq_size request \<noteq> 0" "ne_header_ok env" "ne_files env = File_sent 0 # evs"
    "rp_magic (c_reply (ns_client s)) = dnbd3_packet_magic e"
  shows "\<exists>s'. handle_get_block e env request s = Some ((False, s', block_reply e request []), [])"
proof -
  have "file_ends (ns_image s) request env" using assms(7) by (simp add: file_ends_def)
  then show ?thesis using handle_get_block_local [OF assms(1-3), of e env] send_block_padding [OF assms(1,2,4,5) _ assms(8), of env] assms(6) by auto
qed

theorem padding_request_drops_client_witness:
  "\<exists>s'. handle_get_block LE (sample_net_env\<lparr>ne_files := [File_sent 0]\<rparr>) (block_request_at 40448 512) (sample_net\<lparr>ns_image := whole_image\<rparr>)
     = Some ((False, s', block_reply LE (block_request_at 40448 512) []), [])"
  using padding_request_drops_client [of "sample_net\<lparr>ns_image := whole_image\<rparr>" "block_request_at 40448 512"
      "sample_net_env\<lparr>ne_files := [File_sent 0]\<rparr>" "[]" LE] whole_image_local [of 40448 512]
  by (simp add: whole_image in_bounds_def sample_block sample_net_def sample_client_def sample_net_env_def)

end
