(* ===== verification/Text_Util.thy ===== *)
theory Text_Util
  imports Protocol_Types
begin

text \<open>
  Text handling of the server: numbers in decimal notation as the C library prints and reads them, the helpers of \<open>src/server/helper.c\<close> for addresses and
  strings, and the reader of line based configuration files of \<open>src/server/fileutil.c\<close>. C strings are lists of characters without a
  terminating zero. \<open>inet_pton\<close> and \<open>inet_ntop\<close> are arguments.
\<close>

section \<open>Decimal numbers\<close>

definition is_digit :: "char \<Rightarrow> bool" where
  "is_digit c \<longleftrightarrow> 48 \<le> (of_char c :: nat) \<and> (of_char c :: nat) \<le> 57"

definition digits_value :: "string \<Rightarrow> nat" where
  "digits_value ds = foldl (\<lambda>v c. v * 10 + (of_char c - 48)) 0 ds"

text \<open>\<open>printf\<close> with \<open>%d\<close>.\<close>

fun dec :: "nat \<Rightarrow> string" where
  "dec n = (if n < 10 then [char_of (48 + n)] else dec (n div 10) @ [char_of (48 + n mod 10)])"

declare dec.simps [simp del]

lemma of_char_digit: "d < 10 \<Longrightarrow> (of_char (char_of (48 + d) :: char) :: nat) = 48 + d"
  by (simp add: of_char_of take_bit_nat_eq_self)

lemma dec_digits: "\<forall>c\<in>set (dec n). is_digit c" "dec n \<noteq> []"
  by (induction n rule: dec.induct) (subst dec.simps; auto simp: is_digit_def of_char_digit)+

lemma digits_value_dec: "digits_value (dec n) = n"
proof (induction n rule: dec.induct)
  case (1 n)
  show ?case
  proof (cases "n < 10")
    case True
    then show ?thesis by (subst dec.simps) (simp add: digits_value_def of_char_digit)
  next
    case False
    then have "digits_value (dec n) = digits_value (dec (n div 10)) * 10 + n mod 10"
      by (subst dec.simps) (simp add: digits_value_def of_char_digit)
    then show ?thesis using 1 [OF False] by simp
  qed
qed

lemma length_dec: "n < 10 ^ k \<Longrightarrow> 0 < k \<Longrightarrow> length (dec n) \<le> k"
proof (induction k arbitrary: n)
  case (Suc k)
  show ?case
  proof (cases "n < 10")
    case True
    then show ?thesis by (subst dec.simps) simp
  next
    case False
    then have "0 < k" "n div 10 < 10 ^ k" using Suc.prems(1) by (cases k; auto)+
    then show ?thesis using Suc.IH [of "n div 10"] False by (subst dec.simps) simp
  qed
qed simp

text \<open>\<open>isspace\<close>, and \<open>strtol\<close> or \<open>strtoll\<close> with base 10: the value, which saturates at the limits of 64 bits, and the rest of the string. Without digits
  the rest is the whole string.\<close>

definition isspace :: "char \<Rightarrow> bool" where
  "isspace c \<longleftrightarrow> c = CHR '' '' \<or> c = CHR 0x09 \<or> c = CHR 0x0A \<or> c = CHR 0x0B \<or> c = CHR 0x0C \<or> c = CHR 0x0D"

definition saturate :: "int \<Rightarrow> int" where
  "saturate v = max (- (2 ^ 63)) (min (2 ^ 63 - 1) v)"

definition strtoll :: "string \<Rightarrow> int \<times> string" where
  "strtoll s =
    (let t = dropWhile isspace s;
         neg = (t \<noteq> [] \<and> hd t = CHR ''-'');
         u = (if t \<noteq> [] \<and> (hd t = CHR ''-'' \<or> hd t = CHR ''+'') then tl t else t);
         ds = takeWhile is_digit u;
         v = int (digits_value ds)
     in if ds = [] then (0, s) else (saturate (if neg then - v else v), dropWhile is_digit u))"

definition atoi_text :: "string \<Rightarrow> int" where
  "atoi_text s = sint (word_of_int (fst (strtoll s)) :: u32)"

lemma digit_not_space: "is_digit c \<Longrightarrow> \<not> isspace c \<and> c \<noteq> CHR ''-'' \<and> c \<noteq> CHR ''+''"
  by (auto simp: is_digit_def isspace_def)

lemma strtoll_dec:
  assumes "n < 2 ^ 63" "r = [] \<or> \<not> is_digit (hd r)"
  shows "strtoll (dec n @ r) = (int n, r)"
proof -
  obtain c cs where d: "dec n = c # cs" "is_digit c" using dec_digits [of n] by (cases "dec n") auto
  have "takeWhile is_digit r = []" "dropWhile is_digit r = r" using assms(2) by (cases r; auto)+
  then have "takeWhile is_digit (dec n @ r) = dec n" "dropWhile is_digit (dec n @ r) = r"
    using dec_digits(1) [of n] by (simp_all add: takeWhile_append2 dropWhile_append2)
  then show ?thesis using d digit_not_space [OF d(2)] assms(1) digits_value_dec [of n]
    by (simp add: strtoll_def Let_def saturate_def)
qed

lemma sint_int: "- (2 ^ 31) \<le> v \<Longrightarrow> v < 2 ^ 31 \<Longrightarrow> sint (word_of_int v :: u32) = v"
  by (simp only: sint_sbintrunc') (simp add: signed_take_bit_int_eq_self)

lemma atoi_text_dec: "n < 2 ^ 31 \<Longrightarrow> atoi_text (dec n) = int n"
  using strtoll_dec [of n "[]"] sint_int [of "int n"] by (simp add: atoi_text_def)

section \<open>Strings\<close>

text \<open>\<open>remove_trailing_slash\<close> and \<open>trim_right\<close> overwrite the characters at the end, last one first.\<close>

fun strip_end :: "(char \<Rightarrow> bool) \<Rightarrow> nat \<Rightarrow> string \<Rightarrow> string" where
  "strip_end P 0 s = take 0 s"
| "strip_end P (Suc n) s = (if P (s ! n) then strip_end P n s else take (Suc n) s)"

definition remove_trailing_slash :: "string \<Rightarrow> string" where
  "remove_trailing_slash s = strip_end (\<lambda>c. c = CHR ''/'') (length s) s"

definition is_blank_end :: "char \<Rightarrow> bool" where
  "is_blank_end c \<longleftrightarrow> c = CHR 0x0D \<or> c = CHR 0x0A \<or> c = CHR '' '' \<or> c = CHR 0x09"

definition trim_right :: "string \<Rightarrow> string" where
  "trim_right s = strip_end is_blank_end (length s) s"

text \<open>A missing string is \<open>None\<close>.\<close>

definition strend :: "string option \<Rightarrow> string option \<Rightarrow> bool" where
  "strend s suffix = (case s of None \<Rightarrow> False | Some s \<Rightarrow> (case suffix of None \<Rightarrow> True | Some t \<Rightarrow>
     t = [] \<or> length t \<le> length s \<and> drop (length s - length t) s = t))"

lemma strip_end_eq: "n \<le> length s \<Longrightarrow> strip_end P n s = rev (dropWhile P (rev (take n s)))"
proof (induction n)
  case (Suc n)
  have "rev (take (Suc n) s) = s ! n # rev (take n s)" using Suc.prems by (simp add: take_Suc_conv_app_nth)
  moreover have "take (Suc n) s = take n s @ [s ! n]" using Suc.prems by (simp add: take_Suc_conv_app_nth)
  ultimately show ?case using Suc by simp
qed simp

lemma strip_end_spec:
  "\<exists>t. s = strip_end P (length s) s @ t \<and> (\<forall>c\<in>set t. P c)"
  "strip_end P (length s) s = [] \<or> \<not> P (last (strip_end P (length s) s))"
proof -
  have e: "strip_end P (length s) s = rev (dropWhile P (rev s))" by (simp add: strip_end_eq)
  have "s = rev (dropWhile P (rev s)) @ rev (takeWhile P (rev s))"
    by (metis rev_append rev_rev_ident takeWhile_dropWhile_id)
  then show "\<exists>t. s = strip_end P (length s) s @ t \<and> (\<forall>c\<in>set t. P c)"
    unfolding e by (metis set_rev set_takeWhileD)
  show "strip_end P (length s) s = [] \<or> \<not> P (last (strip_end P (length s) s))"
    unfolding e by (metis hd_dropWhile last_rev rev.simps(1))
qed

lemma strend_iff: "strend (Some s) (Some t) \<longleftrightarrow> (\<exists>p. s = p @ t)"
proof
  assume "strend (Some s) (Some t)"
  then show "\<exists>p. s = p @ t" by (auto simp: strend_def) (metis append_take_drop_id)
qed (auto simp: strend_def)

section \<open>Addresses\<close>

definition PORT :: u16 where "PORT = 5003"

text \<open>\<open>htons\<close> and \<open>ntohs\<close>.\<close>

definition htons :: "endian \<Rightarrow> u16 \<Rightarrow> u16" where
  "htons e x = word_of_nat (load_native e (store_native BE 2 (unat x)))"

definition no_host :: dnbd3_host where
  "no_host = \<lparr>addr = replicate 16 0, port = 0, host_type = 0\<rparr>"

text \<open>Both attempts to read an address; \<open>pton4\<close> and \<open>pton6\<close> are \<open>inet_pton\<close> for the two address families.\<close>

definition set_addr :: "u8 \<Rightarrow> u8 list \<Rightarrow> dnbd3_host \<Rightarrow> dnbd3_host" where
  "set_addr t bs h = h\<lparr>host_type := t, addr := bs @ drop (length bs) (addr h)\<rparr>"

definition try_address :: "(string \<Rightarrow> u8 list option) \<Rightarrow> (string \<Rightarrow> u8 list option) \<Rightarrow> string \<Rightarrow> dnbd3_host \<Rightarrow> dnbd3_host option" where
  "try_address pton4 pton6 s h =
    (case pton4 s of
       Some bs \<Rightarrow> Some (set_addr HOST_IP4 bs h)
     | None \<Rightarrow> map_option (\<lambda>bs. set_addr HOST_IP6 bs h) (pton6 s))"

text \<open>The position of the last colon.\<close>

definition last_colon :: "string \<Rightarrow> nat option" where
  "last_colon s = (if CHR '':'' \<in> set s then Some (length s - 1 - length (takeWhile (\<lambda>c. c \<noteq> CHR '':'') (rev s))) else None)"

definition parse_address :: "endian \<Rightarrow> (string \<Rightarrow> u8 list option) \<Rightarrow> (string \<Rightarrow> u8 list option) \<Rightarrow> string \<Rightarrow> dnbd3_host option" where
  "parse_address e pton4 pton6 s =
    (case try_address pton4 pton6 s (no_host\<lparr>port := htons e PORT\<rparr>) of
       Some h \<Rightarrow> Some h
     | None \<Rightarrow>
        (case last_colon s of
           None \<Rightarrow> None
         | Some i \<Rightarrow>
            let str = (if s ! 0 = CHR ''['' \<and> s ! (i - 1) = CHR '']'' then take (i - 2) (tl s) else take i s);
                p = atoi_text (drop (i + 1) s)
            in if p < 1 \<or> p > 65535 then None
               else try_address pton4 pton6 str (no_host\<lparr>port := htons e (word_of_int p)\<rparr>)))"

text \<open>The printed form. \<open>ntop4\<close> and \<open>ntop6\<close> are \<open>inet_ntop\<close>; \<open>None\<close> is the use of the buffer after \<open>inet_ntop\<close> found no room.\<close>

definition addr_text :: "(u8 list \<Rightarrow> string) \<Rightarrow> (u8 list \<Rightarrow> string) \<Rightarrow> dnbd3_host \<Rightarrow> nat \<Rightarrow> string option" where
  "addr_text ntop4 ntop6 h targetlen =
    (if host_type h = HOST_IP6
     then if length (ntop6 (addr h)) < targetlen - 10 then Some (''['' @ ntop6 (addr h) @ '']'') else None
     else if length (ntop4 (take 4 (addr h))) < targetlen - 8 then Some (ntop4 (take 4 (addr h))) else None)"

definition host_to_string :: "endian \<Rightarrow> (u8 list \<Rightarrow> string) \<Rightarrow> (u8 list \<Rightarrow> string) \<Rightarrow> dnbd3_host \<Rightarrow> nat \<Rightarrow> (bool \<times> string) option" where
  "host_to_string e ntop4 ntop6 h targetlen =
    (if targetlen < 10 then Some (False, [])
     else if host_type h \<noteq> HOST_IP6 \<and> host_type h \<noteq> HOST_IP4
     then Some (False, take (targetlen - 1) (''<?addrtype='' @ dec (unat (host_type h)) @ ''>''))
     else map_option (\<lambda>t. (True, t @ (if port h \<noteq> 0 then CHR '':'' # dec (unat (htons e (port h))) else [])))
       (addr_text ntop4 ntop6 h targetlen))"

section \<open>Line based files\<close>

text \<open>The calls of \<open>fgets\<close> with a buffer of \<open>n + 1\<close> bytes: a line, or a part of a line that is too long. What follows a zero byte in a line is ignored.\<close>

function fgets_lines :: "nat \<Rightarrow> string \<Rightarrow> string list" where
  "fgets_lines n s =
    (if s = [] \<or> n = 0 then []
     else let l = takeWhile (\<lambda>c. c \<noteq> CHR 0x0A) s;
              l = (if length l < n \<and> length l < length s then l @ [CHR 0x0A] else take n l)
          in takeWhile (\<lambda>c. c \<noteq> CHR 0x00) l # fgets_lines n (drop (length l) s))"
  by pat_completeness auto
termination
proof (relation "measure (\<lambda>(n, s). length s)", goal_cases)
  case (2 n s l l')
  then have "0 < length l'" by (auto simp: min_def)
  then show ?case using 2 by simp
qed simp

declare fgets_lines.simps [simp del]

definition is_sep :: "char \<Rightarrow> bool" where
  "is_sep c \<longleftrightarrow> c = CHR '' '' \<or> c = CHR 0x09 \<or> c = CHR 0x0D \<or> c = CHR 0x0A"

text \<open>The items of a line; \<open>n\<close> is the number of items so far.\<close>

function line_items :: "nat \<Rightarrow> nat \<Rightarrow> string \<Rightarrow> string list" where
  "line_items maxFields n s =
    (if s = [] \<or> n \<ge> 20 then []
     else let s = dropWhile (\<lambda>c. c = CHR '' '' \<or> c = CHR 0x09) s in
       if s = [] \<or> hd s = CHR 0x0D \<or> hd s = CHR 0x0A then []
       else if n + 1 \<ge> maxFields then [trim_right s]
       else takeWhile (\<lambda>c. \<not> is_sep c) s # line_items maxFields (n + 1) (tl (dropWhile (\<lambda>c. \<not> is_sep c) s)))"
  by pat_completeness auto
termination
  by (relation "measure (\<lambda>(m, n, s). 20 - n)") auto

declare line_items.simps [simp del]

definition file_loadLineBased :: "nat \<Rightarrow> nat \<Rightarrow> string option \<Rightarrow> string list list option" where
  "file_loadLineBased minFields maxFields file =
    map_option (\<lambda>s. filter (\<lambda>items. minFields \<le> length items) (map (line_items maxFields 0) (fgets_lines 999 s))) file"

section \<open>Lemmas\<close>

lemma htons_involution: "htons e (htons e x) = x"
proof (cases e)
  case BE
  then show ?thesis by (simp add: htons_def load_store_words)
next
  case LE
  let ?bs = "rev (le_bytes 2 (unat x))"
  have "unat (word_of_nat (le_value ?bs) :: u16) = le_value ?bs" using le_value_bound [of ?bs] by (simp add: unat_of_nat)
  moreover have "le_bytes 2 (le_value ?bs) = ?bs" by (rule le_bytes_value) simp
  ultimately show ?thesis using LE unat_u16_less [of x] by (simp add: htons_def load_native_def store_native_def le_value_bytes)
qed

lemma last_colon_append: "CHR '':'' \<notin> set t \<Longrightarrow> last_colon (s @ CHR '':'' # t) = Some (length s)"
proof -
  assume "CHR '':'' \<notin> set t"
  then have "takeWhile (\<lambda>c. c \<noteq> CHR '':'') (rev t @ CHR '':'' # rev s) = rev t" by (subst takeWhile_append2) auto
  then show ?thesis by (simp add: last_colon_def)
qed

lemma dec_no_colon: "CHR '':'' \<notin> set (dec n)"
  using dec_digits(1) [of n] by (auto simp: is_digit_def)

text \<open>What the C library documents of \<open>inet_pton\<close>: the texts that it accepts are not empty and contain no brackets, IPv4 addresses no colon and IPv6 addresses at least two.\<close>

definition inet_syntax :: "(string \<Rightarrow> u8 list option) \<Rightarrow> (string \<Rightarrow> u8 list option) \<Rightarrow> bool" where
  "inet_syntax pton4 pton6 \<longleftrightarrow>
    (\<forall>s. pton4 s \<noteq> None \<longrightarrow> s \<noteq> [] \<and> CHR ''['' \<notin> set s \<and> CHR '':'' \<notin> set s) \<and>
    (\<forall>s. pton6 s \<noteq> None \<longrightarrow> CHR ''['' \<notin> set s \<and> 2 \<le> length (filter (\<lambda>c. c = CHR '':'') s))"

lemma port_text: "p \<noteq> 0 \<Longrightarrow> atoi_text (dec (unat (htons e p))) = int (unat (htons e p)) \<and> htons e p \<noteq> 0"
proof
  assume "p \<noteq> 0"
  then show "htons e p \<noteq> 0" using htons_involution [of e p] htons_involution [of e 0]
    by (cases e) (auto simp: htons_def load_native_def store_native_def le_bytes_numeral)
qed (use unat_u16_less [of "htons e p"] in \<open>simp add: atoi_text_dec\<close>)

lemma parse_with_port:
  assumes "inet_syntax pton4 pton6" "p \<noteq> 0" "pton4 (s @ CHR '':'' # dec (unat (htons e p))) = None" "pton6 (s @ CHR '':'' # dec (unat (htons e p))) = None" "s \<noteq> []"
  shows "parse_address e pton4 pton6 (s @ CHR '':'' # dec (unat (htons e p))) =
    try_address pton4 pton6 (if hd s = CHR ''['' \<and> last s = CHR '']'' then take (length s - 2) (tl s) else s) (no_host\<lparr>port := p\<rparr>)"
proof -
  let ?t = "dec (unat (htons e p))"
  have c: "last_colon (s @ CHR '':'' # ?t) = Some (length s)" using last_colon_append dec_no_colon by blast
  have p: "atoi_text ?t = int (unat (htons e p))" "unat (htons e p) \<noteq> 0" using port_text [OF assms(2), of e] by (simp_all add: unat_eq_0)
  have n: "(s @ CHR '':'' # ?t) ! 0 = hd s" "(s @ CHR '':'' # ?t) ! (length s - 1) = last s" "tl (s @ CHR '':'' # ?t) = tl s @ CHR '':'' # ?t"
    using assms(5) by (simp_all add: hd_conv_nth last_conv_nth nth_append)
  have b: "\<not> atoi_text ?t < 1" "\<not> 65535 < atoi_text ?t" unfolding p(1) using p(2) unat_u16_less [of "htons e p"] by linarith+
  have w: "word_of_int (atoi_text ?t) = htons e p" unfolding p(1) by simp
  have "try_address pton4 pton6 (s @ CHR '':'' # ?t) h = None" for h using assms(3,4) by (simp add: try_address_def)
  then show ?thesis using n b by (simp add: parse_address_def c Let_def htons_involution w)
qed

section \<open>Properties\<close>

text \<open>An address that the server prints is read back as it was: family, address and port, for hosts of both byte orders, whatever texts the C library uses for the addresses.\<close>

theorem address_roundtrip:
  assumes "inet_syntax pton4 pton6" "host_to_string e ntop4 ntop6 h targetlen = Some (True, out)" "port h \<noteq> 0"
    "host_type h = HOST_IP4 \<Longrightarrow> pton4 (ntop4 (take 4 (addr h))) = Some (take 4 (addr h)) \<and> length (addr h) = 16 \<and> drop 4 (addr h) = replicate 12 0"
    "host_type h = HOST_IP6 \<Longrightarrow> pton6 (ntop6 (addr h)) = Some (addr h) \<and> length (addr h) = 16"
  shows "parse_address e pton4 pton6 out = Some h"
proof -
  let ?t = "dec (unat (htons e (port h)))"
  have t: "host_type h = HOST_IP4 \<or> host_type h = HOST_IP6" "HOST_IP4 \<noteq> HOST_IP6"
    using assms(2) by (auto simp: host_to_string_def HOST_IP4_def HOST_IP6_def split: if_splits)
  have syn: "s \<noteq> [] \<and> CHR ''['' \<notin> set s \<and> CHR '':'' \<notin> set s" if "pton4 s = Some a" for s a using assms(1) that by (simp add: inet_syntax_def)
  have syn6: "CHR ''['' \<notin> set s \<and> 2 \<le> length (filter (\<lambda>c. c = CHR '':'') s)" if "pton6 s = Some a" for s a
    using assms(1) that by (simp add: inet_syntax_def)
  have no4: "pton4 s = None" if "CHR '':'' \<in> set s" for s using syn that by (cases "pton4 s") auto
  have no6: "pton6 s = None" if "CHR ''['' \<in> set s \<or> length (filter (\<lambda>c. c = CHR '':'') s) < 2" for s using syn6 that by (cases "pton6 s") force+
  show ?thesis
  proof (cases "host_type h = HOST_IP4")
    case True
    let ?s = "ntop4 (take 4 (addr h))"
    note a = assms(4) [OF True]
    have out: "out = ?s @ CHR '':'' # ?t" using assms(2,3) True t(2) by (auto simp: host_to_string_def addr_text_def split: if_splits)
    have f: "filter (\<lambda>c. c = CHR '':'') ?t = []" "filter (\<lambda>c. c = CHR '':'') ?s = []" "CHR ''['' \<notin> set ?s" and ne: "?s \<noteq> []"
      using syn [OF a [THEN conjunct1]] dec_no_colon by (auto simp: filter_empty_conv)
    have "parse_address e pton4 pton6 out = try_address pton4 pton6 ?s (no_host\<lparr>port := port h\<rparr>)"
      using parse_with_port [OF assms(1,3), of ?s e] no4 no6 f ne unfolding out by (auto dest: hd_in_set)
    moreover have "take 4 (addr h) @ replicate 12 0 = addr h" using a by (metis append_take_drop_id)
    ultimately show ?thesis using a True by (simp add: try_address_def set_addr_def no_host_def)
  next
    case False
    then have h6: "host_type h = HOST_IP6" using t by simp
    let ?u = "ntop6 (addr h)"
    let ?s = "''['' @ ?u @ '']''"
    note a = assms(5) [OF h6]
    have out: "out = ?s @ CHR '':'' # ?t" using assms(2,3) h6 t(2) by (auto simp: host_to_string_def addr_text_def split: if_splits)
    have c: "CHR '':'' \<in> set ?u"
    proof (rule ccontr)
      assume "CHR '':'' \<notin> set ?u"
      then have "filter (\<lambda>c. c = CHR '':'') ?u = []" by (auto simp: filter_empty_conv)
      then show False using syn6 [OF a [THEN conjunct1]] by simp
    qed
    have "parse_address e pton4 pton6 out = try_address pton4 pton6 ?u (no_host\<lparr>port := port h\<rparr>)"
      using parse_with_port [OF assms(1,3), of ?s e] no4 no6 unfolding out by auto
    then show ?thesis using a h6 no4 [OF c] by (simp add: try_address_def set_addr_def no_host_def)
  qed
qed

theorem address_roundtrip_witness:
  "\<exists>out. host_to_string LE (\<lambda>_. ''10.0.0.1'') (\<lambda>_. ''::'') \<lparr>addr = [10, 0, 0, 1] @ replicate 12 0, port = 0x5000, host_type = HOST_IP4\<rparr> 48 = Some (True, out) \<and>
    parse_address LE (\<lambda>s. if s = ''10.0.0.1'' then Some [10, 0, 0, 1] else None) (\<lambda>_. None) out = Some \<lparr>addr = [10, 0, 0, 1] @ replicate 12 0, port = 0x5000, host_type = HOST_IP4\<rparr>"
proof -
  let ?h = "\<lparr>addr = [10, 0, 0, 1] @ replicate 12 0, port = 0x5000, host_type = HOST_IP4\<rparr>"
  let ?p4 = "\<lambda>s. if s = ''10.0.0.1'' then Some [10, 0, 0, 1 :: u8] else None"
  have "inet_syntax ?p4 (\<lambda>_. None)" by (simp add: inet_syntax_def)
  moreover obtain out where "host_to_string LE (\<lambda>_. ''10.0.0.1'') (\<lambda>_. ''::'') ?h 48 = Some (True, out)"
    by (simp add: host_to_string_def addr_text_def HOST_IP4_def HOST_IP6_def)
  ultimately show ?thesis
    using address_roundtrip [of ?p4 "\<lambda>_. None" LE "\<lambda>_. ''10.0.0.1''" "\<lambda>_. ''::''" ?h 48 out] by (auto simp: HOST_IP4_def HOST_IP6_def)
qed

text \<open>A line as a person writes it.\<close>

fun join_words :: "string list \<Rightarrow> string" where
  "join_words [] = []"
| "join_words [w] = w"
| "join_words (w # ws) = w @ CHR '' '' # join_words ws"

definition word_ok :: "string \<Rightarrow> bool" where
  "word_ok w \<longleftrightarrow> w \<noteq> [] \<and> (\<forall>c\<in>set w. \<not> is_sep c \<and> c \<noteq> CHR 0x00)"

lemma trim_right_line: "word_ok w \<Longrightarrow> trim_right (w @ [CHR 0x0A]) = w"
proof -
  assume w: "word_ok w"
  then have "last w \<in> set w" by (simp add: word_ok_def)
  then have "\<not> is_blank_end (last w)" using w by (auto simp: word_ok_def is_blank_end_def is_sep_def)
  then have "dropWhile is_blank_end (rev w) = rev w" using w by (simp add: dropWhile_eq_self_iff hd_rev)
  then show ?thesis unfolding trim_right_def by (subst strip_end_eq) (simp_all add: is_blank_end_def)
qed

lemma line_items_word:
  assumes "word_ok w" "n < 20" "r \<noteq> []" "is_sep (hd r)"
  shows "line_items maxFields n (w @ r) =
    (if n + 1 \<ge> maxFields then [trim_right (w @ r)] else w # line_items maxFields (n + 1) (tl r))"
proof -
  obtain c cs where c: "w = c # cs" "\<not> is_sep c" using assms(1) by (cases w) (auto simp: word_ok_def)
  have "takeWhile (\<lambda>c. \<not> is_sep c) (w @ r) = w" "dropWhile (\<lambda>c. \<not> is_sep c) (w @ r) = r"
    using assms by (auto simp: word_ok_def takeWhile_append2 dropWhile_append2 takeWhile_eq_Nil_iff dropWhile_eq_self_iff)
  moreover have "dropWhile (\<lambda>c. c = CHR '' '' \<or> c = CHR 0x09) (w @ r) = w @ r" using c by (auto simp: is_sep_def)
  ultimately show ?thesis using assms(2) c by (subst line_items.simps) (auto simp: is_sep_def Let_def)
qed

lemma line_items_join:
  "ws \<noteq> [] \<Longrightarrow> \<forall>w\<in>set ws. word_ok w \<Longrightarrow> n + length ws \<le> maxFields \<Longrightarrow> n + length ws \<le> 20 \<Longrightarrow> line_items maxFields n (join_words ws @ [CHR 0x0A]) = ws"
proof (induction ws arbitrary: n rule: join_words.induct)
  case (2 w)
  then show ?case using line_items_word [of w n "[CHR 0x0A]" maxFields] trim_right_line [of w]
    by (simp add: is_sep_def line_items.simps [of _ _ "[]"])
next
  case (3 w v vs)
  then show ?case using line_items_word [of w n "CHR '' '' # join_words (v # vs) @ [CHR 0x0A]" maxFields] by (simp add: is_sep_def)
qed simp

lemma fgets_line:
  assumes "CHR 0x0A \<notin> set l" "CHR 0x00 \<notin> set l" "length l < n"
  shows "fgets_lines n (l @ CHR 0x0A # s) = (l @ [CHR 0x0A]) # fgets_lines n s"
proof -
  have "takeWhile (\<lambda>c. c \<noteq> CHR 0x0A) (l @ CHR 0x0A # s) = l" using assms(1) by (subst takeWhile_append2) auto
  moreover have "takeWhile (\<lambda>c. c \<noteq> CHR 0x00) (l @ [CHR 0x0A]) = l @ [CHR 0x0A]" using assms(2) by (subst takeWhile_append2) auto
  ultimately show ?thesis using assms(3) by (subst fgets_lines.simps) (simp add: Let_def)
qed

lemma join_words_chars: "\<forall>w\<in>set ws. word_ok w \<Longrightarrow> CHR 0x0A \<notin> set (join_words ws) \<and> CHR 0x00 \<notin> set (join_words ws)"
  by (induction ws rule: join_words.induct) (auto simp: word_ok_def is_sep_def)

text \<open>A configuration file is read line by line and word by word: a file whose lines are words separated by blanks is delivered as these words, for
  every line with enough of them.\<close>

theorem file_lines_read:
  assumes "\<forall>ws\<in>set ls. ws \<noteq> [] \<and> (\<forall>w\<in>set ws. word_ok w) \<and> length ws \<le> maxFields \<and> length ws \<le> 20 \<and> length (join_words ws) < 999"
  shows "file_loadLineBased minFields maxFields (Some (concat (map (\<lambda>ws. join_words ws @ [CHR 0x0A]) ls))) = Some (filter (\<lambda>ws. minFields \<le> length ws) ls)"
proof -
  have "map (line_items maxFields 0) (fgets_lines 999 (concat (map (\<lambda>ws. join_words ws @ [CHR 0x0A]) ls))) = ls"
    using assms
  proof (induction ls)
    case Nil
    then show ?case by (simp add: fgets_lines.simps [of _ "[]"])
  next
    case (Cons ws ls)
    then show ?case using fgets_line [of "join_words ws" 999 "concat (map (\<lambda>ws. join_words ws @ [CHR 0x0A]) ls)"] join_words_chars [of ws]
        line_items_join [of ws 0 maxFields] by simp
  qed
  then show ?thesis by (simp add: file_loadLineBased_def)
qed

theorem file_lines_read_witness:
  "file_loadLineBased 2 20 (Some (''10.0.0.0/8 STATS'' @ [CHR 0x0A] @ ''x'' @ [CHR 0x0A])) = Some [[''10.0.0.0/8'', ''STATS'']]"
  using file_lines_read [of "[[''10.0.0.0/8'', ''STATS''], [''x'']]" 20 2] by (simp add: word_ok_def is_sep_def)

text \<open>A line of more than 998 characters is read in pieces, and each piece counts as a line: what follows in a long comment is not a comment any more.\<close>

theorem long_line_split:
  assumes "length l = 999" "CHR 0x0A \<notin> set l" "CHR 0x00 \<notin> set l"
  shows "fgets_lines 999 (l @ s) = l # fgets_lines 999 s"
proof -
  have t: "takeWhile (\<lambda>c. c \<noteq> CHR 0x0A) (l @ s) = l @ takeWhile (\<lambda>c. c \<noteq> CHR 0x0A) s" using assms(2) by (subst takeWhile_append2) auto
  have z: "takeWhile (\<lambda>c. c \<noteq> CHR 0x00) l = l" using assms(3) by (auto simp: takeWhile_eq_all_conv)
  have "l \<noteq> []" using assms(1) by auto
  then show ?thesis using assms(1) t z by (subst fgets_lines.simps) (simp add: Let_def)
qed

end
