(* ===== verification/Image_Load.thy ===== *)
theory Image_Load
  imports Image_List Image_Crc Alt_Servers Text_Util
begin

text \<open>
  Loading images, from \<open>src/server/image.c\<close>: the name and revision in a file name, \<open>image_load\<close>, the search for an image that is
  not loaded yet on disk (\<open>loadImageServer\<close>) or on other servers (\<open>loadImageProxy\<close>), and the directory scan. What the file
  system and other servers answer is an argument. Fallible operations return an option, \<open>None\<close> being a failed assertion or an
  access outside of a buffer.
\<close>

section \<open>File names\<close>

text \<open>\<open>strtol\<close> of a string of digits saturates; \<open>atoi\<close> truncates its result to \<open>int\<close>.\<close>

definition strtol :: "string \<Rightarrow> int" where
  "strtol ds = min (2 ^ 63 - 1) (int (digits_value ds))"

definition atoi :: "string \<Rightarrow> int" where
  "atoi ds = to_int (word_of_int (strtol ds))"

definition PATHLEN :: nat where "PATHLEN = 2000"

definition snprintf_path :: "string \<Rightarrow> string" where
  "snprintf_path s = take (PATHLEN - 1) s"

text \<open>The loop that looks for the beginning of the trailing digits.\<close>

fun rev_scan :: "string \<Rightarrow> nat \<Rightarrow> nat" where
  "rev_scan fn 0 = 0"
| "rev_scan fn (Suc i) = (if Suc i > 1 \<and> is_digit (fn ! Suc i) then rev_scan fn i else Suc i)"

text \<open>The name without \<open>.r<ID>\<close> and the revision; -1 when there is none.\<close>

definition parse_revision :: "string \<Rightarrow> string \<times> int" where
  "parse_revision fn =
    (let i = rev_scan fn (length fn - 1) in
     if i \<noteq> length fn - 1 \<and> fn ! i = CHR ''r'' \<and> fn ! (i - 1) = CHR ''.''
     then (take (i - 1) fn, atoi (drop (i + 1) fn)) else ([], - 1))"

definition last_slash :: "string \<Rightarrow> nat" where
  "last_slash path = length path - 1 - length (takeWhile (\<lambda>c. c \<noteq> CHR ''/'') (rev path))"

text \<open>The assertions on \<open>base\<close> and \<open>path\<close>; an empty file name would be read outside of its bounds.\<close>

definition path_ok :: "string \<Rightarrow> string \<Rightarrow> bool" where
  "path_ok base path \<longleftrightarrow> path \<noteq> [] \<and> path ! 0 = CHR ''/'' \<and> base \<noteq> [] \<and> take (length base) path = base \<and> last base \<noteq> CHR ''/''
     \<and> length path > length base \<and> (drop (length base + 1) path = [] \<or> drop (length base + 1) path ! 0 \<noteq> CHR ''/'')
     \<and> drop (last_slash path + 1) path \<noteq> []"

definition virtual_dir :: "string \<Rightarrow> string \<Rightarrow> string" where
  "virtual_dir base path = take (last_slash path - length base) (drop (length base + 1) path)"

definition file_name :: "string \<Rightarrow> string" where
  "file_name path = drop (last_slash path + 1) path"

section \<open>Loading an image\<close>

text \<open>What the file system, the clock and the configuration answer during one call of \<open>image_load\<close>.\<close>

record load_env =
  le_endian :: endian
  le_legacy :: bool
  le_get :: get_env
  le_fd :: int
  le_seek :: int
  le_file :: "nat \<Rightarrow> u8"
  le_map :: "u8 list option"
  le_crc :: "u8 list option"
  le_crc_first :: bool
  le_crc_reads :: "crc_read list"
  le_address :: nat
  le_rands :: "nat list"
  le_reads :: "nat \<Rightarrow> nat list"
  le_fresh :: nat
  le_now :: ticks
  le_age :: int
  le_uplink :: "nat option"

text \<open>The new image structure.\<close>

definition new_image :: "load_env \<Rightarrow> string \<Rightarrow> string \<Rightarrow> int \<Rightarrow> u64 \<Rightarrow> u64 \<Rightarrow> u8 list option \<Rightarrow> u32 \<times> u32 list option \<Rightarrow> dnbd3_image" where
  "new_image env path nm revision rsize vsize m crc = \<lparr>im_path = path, im_name = nm, im_uplink = None, cache_map = m,
     virtualFilesize = vsize, realFilesize = rsize,
     im_atime = timing_set (le_now env) (if le_age env > 0 then 0 else le_age env),
     lastWorkCheck = \<lparr>tv_sec = 0, tv_nsec = 0\<rparr>, nextCompletenessEstimate = le_now env, im_crc32 = snd crc, masterCrc32 = fst crc,
     readFd = - 1, completenessEstimate = - 1, im_users = 0, im_id = 0, im_working = (m = None), im_rid = word_of_int revision\<rparr>"

text \<open>The comparison with an image of this name and revision that is loaded already: replace it, keep it and take over the
  list, or keep it as it is.\<close>

datatype existing_action = Replace | Take_crc | Keep

definition compare_existing :: "dnbd3_image \<Rightarrow> u64 \<Rightarrow> u32 list option \<Rightarrow> u8 list option \<Rightarrow> int \<Rightarrow> existing_action" where
  "compare_existing img rsize crcs m hashBlockCount =
    (if realFilesize img \<noteq> rsize then Replace
     else case (im_crc32 img, crcs) of
       (Some old, Some new) \<Rightarrow> if take (nat hashBlockCount) old \<noteq> take (nat hashBlockCount) new then Replace else Keep
     | (None, Some new) \<Rightarrow> Take_crc
     | _ \<Rightarrow> Keep)"

text \<open>From the fresh image on: completeness, uplink, list. The result is the return value, the store and the queued checks.\<close>

definition add_new_image :: "load_env \<Rightarrow> bool \<Rightarrow> bool \<Rightarrow> dnbd3_image \<Rightarrow> image_store \<Rightarrow> (bool \<times> image_store \<times> bool) option" where
  "add_new_image env withUplink doFullCheck img s =
    (case (if cache_map img \<noteq> None then map_option (\<lambda>(c, img, d). img) (image_isComplete img) else Some img) of
       None \<Rightarrow> None
     | Some img \<Rightarrow>
        (let img = (if cache_map img \<noteq> None
                    then img\<lparr>im_working := False, im_uplink := (if withUplink then le_uplink env else None)\<rparr> else img);
             a = le_fresh env;
             (ok, s) = image_addToList (ge_maxImages (le_get env)) a (s\<lparr>heap := (heap s)(a \<mapsto> img\<lparr>readFd := le_fd env\<rparr>)\<rparr>)
         in if ok then Some (True, s, doFullCheck) else Some (False, image_free a s, False)))"

text \<open>The part of \<open>image_load\<close> behind the lookup of an existing image.\<close>

definition load_data :: "load_env \<Rightarrow> string \<Rightarrow> string \<Rightarrow> int \<Rightarrow> bool \<Rightarrow> nat option \<Rightarrow> image_store \<Rightarrow> (bool \<times> image_store \<times> bool) option" where
  "load_data env path nm revision withUplink existing s =
    (let release = (\<lambda>ret s. case existing of None \<Rightarrow> Some (ret, s, False)
           | Some a \<Rightarrow> map_option (\<lambda>s. (ret, s, False)) (image_release a s))
     in if le_fd env = - 1 then release False s
        else if le_seek env \<le> 0 then release False s
        else
          let rsize = word_of_int (le_seek env);
              vsize = (rsize + (DNBD3_BLOCK_SIZE - 1)) AND NOT (DNBD3_BLOCK_SIZE - 1);
              m = image_loadCacheMap (le_map env) vsize;
              hashBlockCount = IMGSIZE_TO_HASHBLOCKS vsize in
          (case image_loadCrcList (le_endian env) (le_address env) (le_crc env) (le_crc_first env) (le_crc_reads env) vsize of
             None \<Rightarrow> None
           | Some (master, crcs) \<Rightarrow>
              (case (case crcs of None \<Rightarrow> Some True
                     | Some cs \<Rightarrow> image_checkRandomBlocks (le_endian env) (le_address env) (le_file env) 4 rsize cs m
                                   (le_rands env) (le_reads env)) of
                 None \<Rightarrow> None
               | Some checked \<Rightarrow>
                  let img = new_image env path nm revision rsize vsize m (master, crcs) in
                  (case existing of
                     None \<Rightarrow> add_new_image env withUplink (\<not> checked) img s
                   | Some a \<Rightarrow>
                      (case compare_existing (img_at s a) rsize crcs m hashBlockCount of
                         Take_crc \<Rightarrow> release True (modify a (\<lambda>i. i\<lparr>im_crc32 := crcs, masterCrc32 := master\<rparr>) s)
                       | Keep \<Rightarrow> release True s
                       | Replace \<Rightarrow>
                          (case image_remove a s of
                             (None, s) \<Rightarrow> add_new_image env withUplink (\<not> checked) img s
                           | (Some a, s) \<Rightarrow>
                              (case image_release a s of
                                 None \<Rightarrow> None
                               | Some s \<Rightarrow> add_new_image env withUplink (\<not> checked) img s)))))))"

text \<open>\<open>image_load\<close>: the return value, the store, and whether a full check of the image is queued.\<close>

definition image_load :: "load_env \<Rightarrow> string \<Rightarrow> string \<Rightarrow> bool \<Rightarrow> image_store \<Rightarrow> (bool \<times> image_store \<times> bool) option" where
  "image_load env base path withUplink s =
    (if \<not> path_ok base path then None
     else
       let (nm, revision) = parse_revision (file_name path);
           legacy = (le_legacy env \<and> revision = - 1);
           nm = virtual_dir base path @ nm @ (if legacy then file_name path else []);
           revision = (if legacy then 1 else revision)
       in if legacy \<and> le_fd env = - 1 then Some (False, s, False)
          else if revision \<le> 0 \<or> revision \<ge> 65536 then Some (False, s, False)
          else (case image_get (le_get env) nm (word_of_int revision) True s of
                  None \<Rightarrow> None
                | Some (existing, s) \<Rightarrow> load_data env path nm revision withUplink existing s))"


section \<open>Searching for an image that is not loaded\<close>

text \<open>\<open>malloc\<close>: two addresses that are not in use.\<close>

type_synonym allocator = "image_store \<Rightarrow> nat \<times> nat"

definition malloc_ok :: "allocator \<Rightarrow> bool" where
  "malloc_ok alloc \<longleftrightarrow> (\<forall>s. finite (dom (heap s)) \<longrightarrow>
     heap s (fst (alloc s)) = None \<and> heap s (snd (alloc s)) = None \<and> fst (alloc s) \<noteq> snd (alloc s))"

definition get_fresh :: "allocator \<Rightarrow> get_env \<Rightarrow> image_store \<Rightarrow> get_env" where
  "get_fresh alloc env s = env\<lparr>ge_fresh := fst (alloc s)\<rparr>"

definition load_fresh :: "allocator \<Rightarrow> load_env \<Rightarrow> image_store \<Rightarrow> load_env" where
  "load_fresh alloc env s = env\<lparr>le_get := get_fresh alloc (le_get env) s, le_fresh := snd (alloc s)\<rparr>"

subsection \<open>On disk\<close>

text \<open>\<open>sv_glob\<close> are the files that match \<open>name.r*\<close>, \<open>None\<close> when there is none or \<open>glob\<close> fails.\<close>

record server_env =
  sv_base :: string
  sv_legacy :: bool
  sv_glob :: "string list option"
  sv_readable :: "string \<Rightarrow> bool"
  sv_get :: get_env
  sv_load :: load_env

definition strrchr_r :: "string \<Rightarrow> nat option" where
  "strrchr_r path = (if CHR ''r'' \<in> set path then Some (length path - 1 - length (takeWhile (\<lambda>c. c \<noteq> CHR ''r'') (rev path))) else None)"

text \<open>The revision that the loop over the matches takes from a path.\<close>

definition path_revision :: "string \<Rightarrow> int option" where
  "path_revision path = (case strrchr_r path of
      None \<Rightarrow> None
    | Some i \<Rightarrow>
       if i = 0 \<or> path ! (i - 1) \<noteq> CHR ''.'' then None
       else let ds = drop (i + 1) path in
         if ds = [] \<or> \<not> list_all is_digit ds then None else Some (strtol ds))"

fun glob_best :: "string list \<Rightarrow> int \<Rightarrow> string \<Rightarrow> int \<times> string" where
  "glob_best [] best imageFile = (best, imageFile)"
| "glob_best (path # paths) best imageFile = (case path_revision path of
     None \<Rightarrow> glob_best paths best imageFile
   | Some val \<Rightarrow> if val > best then glob_best paths val (snprintf_path path) else glob_best paths best imageFile)"

definition rid_path :: "server_env \<Rightarrow> string \<Rightarrow> u16 \<Rightarrow> string" where
  "rid_path env nm rid = snprintf_path (sv_base env @ ''/'' @ nm @ ''.r'' @ dec (unat rid))"

text \<open>The file and the revision found for a request.\<close>

definition detect :: "server_env \<Rightarrow> string \<Rightarrow> u16 \<Rightarrow> string \<times> u16" where
  "detect env nm requestedRid =
    (let (imageFile, detectedRid) =
       (if requestedRid \<noteq> 0 then (rid_path env nm requestedRid, requestedRid)
        else case sv_glob env of
          None \<Rightarrow> ([], 0)
        | Some paths \<Rightarrow>
           (case glob_best paths 0 [] of (best, imageFile) \<Rightarrow>
              (imageFile, if best > 0 \<and> best < 65536 then word_of_int best else 0)))
     in if sv_legacy env \<and> requestedRid \<le> 1 \<and> \<not> isForbiddenExtension nm
            \<and> (detectedRid = 0 \<or> \<not> sv_readable env imageFile)
        then (snprintf_path (sv_base env @ ''/'' @ nm), 1) else (imageFile, detectedRid))"

text \<open>The loop to lower revisions: \<open>Inl\<close> is an image that is loaded already. The new file name is made with
  \<open>requestedRid\<close>, which is 0 here.\<close>

fun lower_loop :: "allocator \<Rightarrow> server_env \<Rightarrow> string \<Rightarrow> u16 \<Rightarrow> nat \<Rightarrow> string \<Rightarrow> image_store \<Rightarrow>
    (nat + string \<times> nat) option \<times> image_store" where
  "lower_loop alloc env nm requestedRid 0 imageFile s = (Some (Inr (imageFile, 0)), s)"
| "lower_loop alloc env nm requestedRid (Suc d) imageFile s =
    (case image_get (get_fresh alloc (sv_get env) s) nm (word_of_nat (Suc d)) True s of
       None \<Rightarrow> (None, s)
     | Some (Some a, s) \<Rightarrow> (Some (Inl a), s)
     | Some (None, s) \<Rightarrow>
        if sv_readable env imageFile then (Some (Inr (imageFile, Suc d)), s)
        else lower_loop alloc env nm requestedRid d (rid_path env nm requestedRid) s)"

text \<open>Loading what was found and looking it up again.\<close>

definition load_detected :: "allocator \<Rightarrow> server_env \<Rightarrow> string \<Rightarrow> u16 \<Rightarrow> string \<Rightarrow> nat \<Rightarrow> image_store \<Rightarrow> (nat option \<times> image_store) option" where
  "load_detected alloc env nm requestedRid imageFile d s =
    (case image_get (get_fresh alloc (sv_get env) s) nm (word_of_nat d) True s of
       None \<Rightarrow> None
     | Some (Some a, s) \<Rightarrow> Some (Some a, s)
     | Some (None, s) \<Rightarrow>
        (case image_load (load_fresh alloc (sv_load env) s) (sv_base env) imageFile False s of
           None \<Rightarrow> None
         | Some (ret, s, chk) \<Rightarrow> image_get (get_fresh alloc (sv_get env) s) nm requestedRid True s))"

definition loadImageServer :: "allocator \<Rightarrow> server_env \<Rightarrow> string \<Rightarrow> u16 \<Rightarrow> image_store \<Rightarrow> (nat option \<times> image_store) option" where
  "loadImageServer alloc env nm requestedRid s =
    (case detect env nm requestedRid of (imageFile, detectedRid) \<Rightarrow>
       if detectedRid = 0 then image_get (get_fresh alloc (sv_get env) s) nm requestedRid True s
       else if \<not> sv_legacy env \<and> requestedRid = 0
       then (case lower_loop alloc env nm requestedRid (unat detectedRid) imageFile s of
               (None, s) \<Rightarrow> None
             | (Some (Inl a), s) \<Rightarrow> Some (Some a, s)
             | (Some (Inr (imageFile, d)), s) \<Rightarrow> load_detected alloc env nm requestedRid imageFile d s)
       else load_detected alloc env nm requestedRid imageFile (unat detectedRid) s)"

subsection \<open>On other servers\<close>

text \<open>\<open>image_create\<close>: whether the calls on the files succeed. The result is the return value and the files that remain, with their
  sizes; \<open>None\<close> is the assertion on the size.\<close>

record create_env =
  cr_image :: bool
  cr_cache :: bool
  cr_map_alloc :: bool
  cr_map_size :: bool
  cr_alloc :: bool
  cr_size :: bool

definition image_create :: "bool \<Rightarrow> create_env \<Rightarrow> string \<Rightarrow> string \<Rightarrow> int \<Rightarrow> u64 \<Rightarrow> (bool \<times> (string \<times> int) list) option" where
  "image_create sparseFiles env base nm revision sz =
    (if \<not> sz \<ge> DNBD3_BLOCK_SIZE then None
     else if revision \<le> 0 then Some (False, [])
     else
       let path = snprintf_path (base @ ''/'' @ nm @ ''.r'' @ dec (nat revision));
           cache = snprintf_path (path @ ''.map'');
           sz = (sz + DNBD3_BLOCK_SIZE - 1) AND NOT (DNBD3_BLOCK_SIZE - 1);
           mapsize = IMGSIZE_TO_MAPBYTES sz
       in if \<not> cr_image env \<or> \<not> cr_cache env then Some (False, [])
          else if \<not> sparseFiles \<and> \<not> cr_alloc env then Some (False, [])
          else if sparseFiles \<and> \<not> cr_size env then Some (False, [])
          else Some (True, [(path, int (unat sz)), (cache, if cr_map_alloc env \<or> cr_map_size env then mapsize else 0)]))"

record clone_env =
  cl_create :: create_env
  cl_crc_readable :: bool
  cl_events :: "recv_event list"
  cl_crc_open :: bool
  cl_load :: load_env

text \<open>\<open>image_clone\<close>: the checksum list of the server is written to the file that \<open>image_load\<close> reads then.\<close>

definition image_clone :: "allocator \<Rightarrow> bool \<Rightarrow> clone_env \<Rightarrow> string \<Rightarrow> string \<Rightarrow> u16 \<Rightarrow> u64 \<Rightarrow> image_store \<Rightarrow> (bool \<times> image_store) option" where
  "image_clone alloc sparseFiles env base nm revision imageSize s =
    (case image_create sparseFiles (cl_create env) base nm (int (unat revision)) imageSize of
       None \<Rightarrow> None
     | Some (False, _) \<Rightarrow> Some (False, s)
     | Some (True, _) \<Rightarrow>
        (let e = le_endian (cl_load env);
             load = (\<lambda>lenv. map_option (\<lambda>(ret, s, chk). (ret, s))
                (image_load (load_fresh alloc lenv s) base (base @ ''/'' @ nm @ ''.r'' @ dec (unat revision)) False s))
         in if cl_crc_readable env then load (cl_load env)
            else (case fst (dnbd3_get_crc32 e (nat (IMGSIZE_TO_HASHBLOCKS imageSize) * 4) (cl_events env)) of
                    None \<Rightarrow> Some (False, s)
                  | Some (len, masterCrc, lst) \<Rightarrow>
                     if len \<noteq> 0 \<and> net_order_32 e (crc32 e (crc32 e 0 None) (Some (le_address (cl_load env), lst))) = masterCrc \<and> cl_crc_open env
                     then load ((cl_load env)\<lparr>le_crc := Some (store_native e 4 (unat masterCrc) @ lst)\<rparr>)
                     else load (cl_load env))))"

text \<open>One round of the loop over the servers: no connection yet, no more connections to wait for, or a connection with what
  \<open>getpeername\<close>, \<open>dnbd3_select_image\<close> and \<open>dnbd3_select_image_reply\<close> (version, name, revision, size) deliver.\<close>

record clone_conn =
  cn_peer :: bool
  cn_select :: bool
  cn_reply :: "(u16 \<times> string option \<times> u16 \<times> u64) option"
  cn_space :: "(u64 option \<times> ticks) list"
  cn_clone :: clone_env

datatype clone_event = No_sock | No_more | Connected clone_conn

record proxy_env =
  px_base :: string
  px_sparse :: bool
  px_maxReplicationSize :: u64
  px_uptime :: u32
  px_now :: ticks
  px_get :: get_env
  px_servers :: "clone_event list"
  px_uplink :: "nat option"

definition server_ok :: "proxy_env \<Rightarrow> string \<Rightarrow> u16 \<Rightarrow> u16 option \<Rightarrow> u16 \<times> string option \<times> u16 \<times> u64 \<Rightarrow> bool" where
  "server_ok env nm revision localRid reply = (case reply of (version, remoteName, remoteRid, remoteSize) \<Rightarrow>
     \<not> (version < MIN_SUPPORTED_SERVER \<or> remoteRid = 0)
     \<and> \<not> (revision \<noteq> 0 \<and> remoteRid \<noteq> revision)
     \<and> \<not> (revision = 0 \<and> (case localRid of None \<Rightarrow> False | Some r \<Rightarrow> r \<ge> remoteRid))
     \<and> \<not> (remoteSize < DNBD3_BLOCK_SIZE \<or> remoteName \<noteq> Some nm)
     \<and> \<not> remoteSize > px_maxReplicationSize env)"

text \<open>Making room and cloning from a server that passed the checks: whether the clone is there, and the store.\<close>

definition try_clone :: "allocator \<Rightarrow> proxy_env \<Rightarrow> string \<Rightarrow> clone_conn \<Rightarrow> u16 \<Rightarrow> u64 \<Rightarrow> image_store \<Rightarrow> (bool \<times> image_store) option" where
  "try_clone alloc env nm c remoteRid remoteSize s =
    (case image_ensureDiskSpace (cn_space c) (if px_sparse env then 2 * 1024 * 1024 * 1024 else remoteSize + 10 * 1024 * 1024)
            False (px_sparse env) (px_uptime env) s of
       None \<Rightarrow> None
     | Some (ok, files, s) \<Rightarrow>
        if ok then image_clone alloc (px_sparse env) (cn_clone c) (px_base env) nm remoteRid remoteSize s else Some (False, s))"

text \<open>The loop over the servers; \<open>remoteRid\<close> keeps what the last server that answered said. The result says whether the image was
  cloned.\<close>

fun clone_loop :: "allocator \<Rightarrow> proxy_env \<Rightarrow> string \<Rightarrow> u16 \<Rightarrow> nat option \<Rightarrow> clone_event list \<Rightarrow> u16 \<Rightarrow> image_store \<Rightarrow>
    (bool \<times> u16 \<times> image_store) option" where
  "clone_loop alloc env nm revision img [] remoteRid s = Some (False, remoteRid, s)"
| "clone_loop alloc env nm revision img (No_more # cs) remoteRid s = Some (False, remoteRid, s)"
| "clone_loop alloc env nm revision img (No_sock # cs) remoteRid s = clone_loop alloc env nm revision img cs remoteRid s"
| "clone_loop alloc env nm revision img (Connected c # cs) remoteRid s =
    (if \<not> cn_peer c \<or> \<not> cn_select c then clone_loop alloc env nm revision img cs remoteRid s
     else case cn_reply c of
       None \<Rightarrow> clone_loop alloc env nm revision img cs remoteRid s
     | Some reply \<Rightarrow>
        if \<not> server_ok env nm revision (map_option (\<lambda>a. im_rid (img_at s a)) img) reply
        then clone_loop alloc env nm revision img cs (fst (snd (snd reply))) s
        else (case try_clone alloc env nm c (fst (snd (snd reply))) (snd (snd (snd reply))) s of
                None \<Rightarrow> None
              | Some (ok, s) \<Rightarrow>
                 if ok then Some (True, fst (snd (snd reply)), s)
                 else clone_loop alloc env nm revision img cs (fst (snd (snd reply))) s))"

text \<open>The cache of images that other servers were asked for.\<close>

definition NAMELEN :: nat where "NAMELEN = 500"
definition CACHELEN :: nat where "CACHELEN = 20"
definition SERVER_REMOTE_IMAGE_CHECK_CACHETIME :: int where "SERVER_REMOTE_IMAGE_CHECK_CACHETIME = 120"

record imagecache =
  ic_name :: string
  ic_rid :: u16
  ic_deadline :: ticks

definition cmpname :: "string \<Rightarrow> string" where
  "cmpname nm = (if length nm \<ge> NAMELEN then drop (1 + length nm - NAMELEN) nm else nm)"

datatype cache_result = Recent | Use nat

fun cache_scan :: "ticks \<Rightarrow> string \<Rightarrow> u16 \<Rightarrow> nat \<Rightarrow> imagecache list \<Rightarrow> nat \<times> ticks \<Rightarrow> cache_result" where
  "cache_scan now nm rid i [] fallback = Use (fst fallback)"
| "cache_scan now nm rid i (c # cs) fallback =
    (if ic_rid c = rid \<and> ic_name c = nm then (if timing_reached (ic_deadline c) now then Use i else Recent)
     else cache_scan now nm rid (Suc i) cs
       (if timing_reached (ic_deadline c) (snd fallback) then (i, ic_deadline c) else fallback))"

definition cache_lookup :: "ticks \<Rightarrow> string \<Rightarrow> u16 \<Rightarrow> imagecache list \<Rightarrow> cache_result" where
  "cache_lookup now nm rid cache = cache_scan now (cmpname nm) rid 0 cache (0, ic_deadline (hd cache))"

definition cache_mark :: "ticks \<Rightarrow> string \<Rightarrow> u16 \<Rightarrow> nat \<Rightarrow> imagecache list \<Rightarrow> imagecache list" where
  "cache_mark now nm rid i cache = cache[i := \<lparr>ic_name = take (NAMELEN - 1) (cmpname nm), ic_rid = rid,
     ic_deadline = timing_set now SERVER_REMOTE_IMAGE_CHECK_CACHETIME\<rparr>]"

text \<open>Contacting the other servers: the loop, the release of the local image and the final lookup.\<close>

definition ask_servers :: "allocator \<Rightarrow> proxy_env \<Rightarrow> string \<Rightarrow> u16 \<Rightarrow> nat option \<Rightarrow> image_store \<Rightarrow> (nat option \<times> image_store) option" where
  "ask_servers alloc env nm revision img s =
    (case clone_loop alloc env nm revision img (px_servers env) revision s of
       None \<Rightarrow> None
     | Some (cloned, remoteRid, s) \<Rightarrow>
        (case (case img of None \<Rightarrow> Some s | Some a \<Rightarrow> image_release a s) of
           None \<Rightarrow> None
         | Some s \<Rightarrow>
            (case image_get (get_fresh alloc (px_get env) s) nm remoteRid False s of
               None \<Rightarrow> None
             | Some (None, s) \<Rightarrow> Some (None, s)
             | Some (Some a, s) \<Rightarrow>
                Some (Some a, if cloned \<and> im_uplink (img_at s a) = None
                              then modify a (\<lambda>i. i\<lparr>im_uplink := px_uplink env\<rparr>) s else s))))"

definition loadImageProxy :: "allocator \<Rightarrow> proxy_env \<Rightarrow> string \<Rightarrow> u16 \<Rightarrow> imagecache list \<times> image_store \<Rightarrow>
    (nat option \<times> imagecache list \<times> image_store) option" where
  "loadImageProxy alloc env nm revision st = (case st of (cache, s) \<Rightarrow>
    (case (if revision = 0 then image_get (get_fresh alloc (px_get env) s) nm revision True s else Some (None, s)) of
       None \<Rightarrow> None
     | Some (img, s) \<Rightarrow>
        (case cache_lookup (px_now env) nm revision cache of
           Recent \<Rightarrow> Some (img, cache, s)
         | Use i \<Rightarrow>
            (case (if revision \<noteq> 0 then image_get (get_fresh alloc (px_get env) s) nm revision True s else Some (None, s)) of
               None \<Rightarrow> None
             | Some (Some a, s) \<Rightarrow> Some (Some a, cache, s)
             | Some (None, s) \<Rightarrow>
                map_option (\<lambda>(r, s). (r, cache_mark (px_now env) nm revision i cache, s))
                  (ask_servers alloc env nm revision img s)))))"

subsection \<open>The entry\<close>

text \<open>Whether a substring occurs: \<open>strstr\<close>.\<close>

definition strstr :: "string \<Rightarrow> string \<Rightarrow> bool" where
  "strstr s sub \<longleftrightarrow> (\<exists>i\<in>{0..length s}. take (length sub) (drop i s) = sub)"

definition bad_name :: "string \<Rightarrow> bool" where
  "bad_name nm \<longleftrightarrow> nm = [] \<or> last nm = CHR ''/'' \<or> hd nm = CHR ''/'' \<or> hd nm = CHR ''.'' \<or> strstr nm ''/.''"

definition image_getOrLoad :: "allocator \<Rightarrow> (proxy_env option) \<Rightarrow> server_env \<Rightarrow> string \<Rightarrow> u16 \<Rightarrow> imagecache list \<times> image_store \<Rightarrow>
    (nat option \<times> imagecache list \<times> image_store) option" where
  "image_getOrLoad alloc proxy env nm revision st = (case st of (cache, s) \<Rightarrow>
    (case (if revision \<noteq> 0 then image_get (get_fresh alloc (sv_get env) s) nm revision True s else Some (None, s)) of
       None \<Rightarrow> None
     | Some (Some a, s) \<Rightarrow> Some (Some a, cache, s)
     | Some (None, s) \<Rightarrow>
        if bad_name nm then Some (None, cache, s)
        else (case proxy of
                Some penv \<Rightarrow> loadImageProxy alloc penv nm revision (cache, s)
              | None \<Rightarrow> map_option (\<lambda>(r, s). (r, cache, s)) (loadImageServer alloc env nm revision s))))"

subsection \<open>Scanning a directory\<close>

text \<open>A directory as \<open>readdir\<close> and \<open>stat\<close> show it: an entry for which \<open>stat\<close> fails, a file, or a directory, with whether it can be
  opened and its entries.\<close>

datatype dir_entry = Unreadable string | File string | Dir string bool "dir_entry list"

definition SUBDIR_LEN :: nat where "SUBDIR_LEN = 150"

definition sub_path :: "string \<Rightarrow> string \<Rightarrow> string" where
  "sub_path path nm = snprintf_path (if (nm \<noteq> [] \<and> hd nm = CHR ''/'') \<or> last path = CHR ''/'' then path @ nm else path @ ''/'' @ nm)"

definition skip_entry :: "string \<Rightarrow> bool" where
  "skip_entry nm \<longleftrightarrow> nm = ''.'' \<or> nm = ''..'' \<or> length nm > SUBDIR_LEN"

text \<open>The files that \<open>image_load_all_internal\<close> passes to \<open>image_load\<close>, in order.\<close>

fun scan_files :: "string \<Rightarrow> dir_entry list \<Rightarrow> string list" where
  "scan_files path [] = []"
| "scan_files path (Unreadable n # es) = scan_files path es"
| "scan_files path (File n # es) =
    (if skip_entry n \<or> isForbiddenExtension (sub_path path n) then scan_files path es
     else sub_path path n # scan_files path es)"
| "scan_files path (Dir n ok sub # es) =
    (if skip_entry n \<or> \<not> ok then scan_files path es
     else scan_files (sub_path path n) sub @ scan_files path es)"

text \<open>Loading them one after the other; \<open>envs\<close> gives the environment for a file.\<close>

fun load_files :: "allocator \<Rightarrow> (string \<Rightarrow> load_env) \<Rightarrow> string \<Rightarrow> string list \<Rightarrow> image_store \<Rightarrow> image_store option" where
  "load_files alloc envs base [] s = Some s"
| "load_files alloc envs base (p # ps) s =
    (case image_load (load_fresh alloc (envs p) s) base p True s of
       None \<Rightarrow> None
     | Some (ret, s, chk) \<Rightarrow> load_files alloc envs base ps s)"

text \<open>\<open>image_loadAll\<close>: the return value and the store. \<open>busy\<close> says whether another thread holds \<open>reloadLock\<close>; \<open>dir\<close> are the entries of
  the directory, \<open>None\<close> when it cannot be opened.\<close>

definition image_loadAll :: "allocator \<Rightarrow> (string \<Rightarrow> load_env) \<Rightarrow> bool \<Rightarrow> bool \<Rightarrow> (string \<Rightarrow> bool) \<Rightarrow> string \<Rightarrow> dir_entry list option \<Rightarrow>
    image_store \<Rightarrow> (bool \<times> image_store) option" where
  "image_loadAll alloc envs busy removeMissing readable base dir s =
    (if busy then Some (False, s)
     else let s = (if removeMissing then image_removeVanished readable s else s) in
       case dir of
         None \<Rightarrow> Some (False, s)
       | Some es \<Rightarrow> map_option (\<lambda>s. (True, s)) (load_files alloc envs base (scan_files base es) s))"

section \<open>Names and revisions in file names\<close>

lemma atoi_dec:
  assumes "n < 2 ^ 31"
  shows "atoi (dec n) = int n"
proof -
  have s: "strtol (dec n) = int n" using assms by (simp add: strtol_def digits_value_dec)
  have "uint (word_of_int (int n) :: u64) = int n" using assms by (intro word_of_int_inverse_u64) auto
  then have "unat (word_of_int (int n) :: u64) = n" by (simp add: unat_eq_nat_uint)
  then show ?thesis unfolding atoi_def s using assms by (simp add: to_int_small)
qed

lemma last_slash_append: "CHR ''/'' \<notin> set fn \<Longrightarrow> last_slash (p @ CHR ''/'' # fn) = length p"
proof -
  assume "CHR ''/'' \<notin> set fn"
  then have "takeWhile (\<lambda>c. c \<noteq> CHR ''/'') (rev fn @ CHR ''/'' # rev p) = rev fn"
    by (subst takeWhile_append2) auto
  then show ?thesis by (simp add: last_slash_def)
qed

lemma rev_scan_digits:
  assumes "\<forall>c\<in>set ds. is_digit c" "length x + 1 \<le> j" "j < length x + 2 + length ds"
  shows "rev_scan (x @ [CHR ''.'', CHR ''r''] @ ds) j = length x + 1"
  using assms(2,3)
proof (induction j)
  case (Suc j)
  let ?fn = "x @ [CHR ''.'', CHR ''r''] @ ds"
  show ?case
  proof (cases "j = length x")
    case True
    then have "?fn ! Suc j = CHR ''r''" by (simp add: nth_append)
    then have "\<not> is_digit (?fn ! Suc j)" by (simp add: is_digit_def)
    then show ?thesis using True by simp
  next
    case False
    then have j: "length x + 1 \<le> j" "Suc j - (length x + 2) < length ds" using Suc.prems by auto
    have "?fn ! Suc j = ds ! (Suc j - (length x + 2))"
      using j(1) by (simp add: nth_append nth_Cons')
    then have "is_digit (?fn ! Suc j)" using assms(1) j(2) by auto
    then show ?thesis using Suc.IH j(1) Suc.prems by simp
  qed
qed simp

lemma parse_revision_dec:
  assumes "n < 2 ^ 31"
  shows "parse_revision (x @ ''.r'' @ dec n) = (x, int n)"
proof -
  define fn where "fn = x @ [CHR ''.'', CHR ''r''] @ dec n"
  have ne: "0 < length (dec n)" using dec_digits(2) by simp
  have s: "rev_scan fn (length fn - 1) = length x + 1"
    unfolding fn_def by (rule rev_scan_digits [OF dec_digits(1)]) (use ne in auto)
  have "length x + 1 \<noteq> length fn - 1" "fn ! (length x + 1) = CHR ''r''" "fn ! (length x + 1 - 1) = CHR ''.''"
    "take (length x + 1 - 1) fn = x" "drop (length x + 1 + 1) fn = dec n"
    using ne by (simp_all add: fn_def nth_append)
  then have "parse_revision fn = (x, int n)"
    unfolding parse_revision_def by (simp only: s Let_def atoi_dec [OF assms] if_True simp_thms)
  then show ?thesis by (simp add: fn_def)
qed

text \<open>A name with its directory part.\<close>

lemma split_name:
  assumes "nm \<noteq> []" "last nm \<noteq> CHR ''/''"
  obtains (plain) "CHR ''/'' \<notin> set nm" | (dir) d fn where "nm = d @ CHR ''/'' # fn" "CHR ''/'' \<notin> set fn" "fn \<noteq> []"
proof (cases "CHR ''/'' \<in> set nm")
  case True
  then obtain d fn where "nm = d @ CHR ''/'' # fn" "CHR ''/'' \<notin> set fn" using split_list_last by metis
  moreover then have "fn \<noteq> []" using assms(2) by auto
  ultimately show ?thesis by (rule that(2))
next
  case False
  then show ?thesis by (rule that(1))
qed

definition image_path :: "string \<Rightarrow> string \<Rightarrow> nat \<Rightarrow> string" where
  "image_path base nm rid = base @ CHR ''/'' # nm @ ''.r'' @ dec rid"

lemma dec_no_slash: "CHR ''/'' \<notin> set (dec n)" 
  using dec_digits(1) [of n] by (auto simp: is_digit_def)

lemma image_path_parts:
  assumes base: "base \<noteq> []" "base ! 0 = CHR ''/''" "last base \<noteq> CHR ''/''"
    and nm: "nm \<noteq> []" "hd nm \<noteq> CHR ''/''" "last nm \<noteq> CHR ''/''" and rid: "rid < 2 ^ 31"
  shows "path_ok base (image_path base nm rid)"
    "virtual_dir base (image_path base nm rid) @ fst (parse_revision (file_name (image_path base nm rid))) = nm"
    "snd (parse_revision (file_name (image_path base nm rid))) = int rid"
proof -
  let ?p = "image_path base nm rid" and ?e = "''.r'' @ dec rid"
  have e: "CHR ''/'' \<notin> set ?e" using dec_no_slash by simp
  have "\<exists>d fn. nm = d @ fn \<and> fn \<noteq> [] \<and> last_slash ?p = length base + length d \<and> drop (last_slash ?p + 1) ?p = fn @ ?e"
  proof (rule split_name [OF nm(1,3)])
    assume a: "CHR ''/'' \<notin> set nm"
    then have "last_slash ?p = length base" unfolding image_path_def using e by (intro last_slash_append) auto
    then show ?thesis using nm(1) by (intro exI [of _ "[]"] exI [of _ nm]) (simp add: image_path_def)
  next
    fix d fn
    assume a: "nm = d @ CHR ''/'' # fn" "CHR ''/'' \<notin> set fn" "fn \<noteq> []"
    have "last_slash ((base @ CHR ''/'' # d) @ CHR ''/'' # (fn @ ?e)) = length (base @ CHR ''/'' # d)"
      using a(2) e by (intro last_slash_append) auto
    then show ?thesis using a by (intro exI [of _ "d @ ''/''"] exI [of _ fn]) (simp add: image_path_def)
  qed
  then obtain d fn where *: "nm = d @ fn" "fn \<noteq> []" "last_slash ?p = length base + length d" "drop (last_slash ?p + 1) ?p = fn @ ?e"
    by blast
  have pr: "parse_revision (file_name ?p) = (fn, int rid)"
    unfolding file_name_def *(4) by (rule parse_revision_dec [OF rid])
  then show "snd (parse_revision (file_name ?p)) = int rid" by simp
  have "virtual_dir base ?p = d" by (simp add: virtual_dir_def *(3)) (simp add: image_path_def *(1))
  then show "virtual_dir base ?p @ fst (parse_revision (file_name ?p)) = nm" using pr *(1) by simp
  show "path_ok base ?p"
    unfolding path_ok_def *(4) using base nm by (auto simp: image_path_def nth_append hd_conv_nth)
qed


section \<open>What looking up an image changes\<close>

text \<open>The part of an image that identifies it and its data. \<open>derived n s s'\<close>: every image of \<open>s'\<close> has this part from an image of
  \<open>s\<close>, and no address but \<open>n\<close> is new.\<close>

definition core :: "dnbd3_image \<Rightarrow> string \<times> u16 \<times> u64 \<times> u64 \<times> u8 list option" where
  "core img = (im_name img, im_rid img, realFilesize img, virtualFilesize img, cache_map img)"

definition derived :: "nat \<Rightarrow> image_store \<Rightarrow> image_store \<Rightarrow> bool" where
  "derived n s s' \<longleftrightarrow> (\<forall>a img'. heap s' a = Some img' \<longrightarrow>
     (\<exists>b img. heap s b = Some img \<and> core img' = core img) \<and> (a = n \<or> heap s a \<noteq> None))"

lemma derived_refl: "derived n s s"
  by (auto simp: derived_def)

lemma derived_trans: "derived n s s' \<Longrightarrow> derived n s' s'' \<Longrightarrow> derived n s s''"
  unfolding derived_def by (metis not_None_eq)

lemma derived_modify: "(\<And>img. core (f img) = core img) \<Longrightarrow> derived n s (modify a f s)"
  by (auto simp: derived_def modify_def)

lemma derived_modify_img: "core img = core (img_at s a) \<Longrightarrow> derived n s (modify a (\<lambda>_. img) s)"
  by (auto simp: derived_def modify_def img_at_def) blast

lemma derived_free: "derived n s (image_free a s)"
  by (auto simp: derived_def image_free_def)

lemma derived_images: "derived n s (s\<lparr>images := xs\<rparr>)" "derived n s (s\<lparr>imgIdCounter := c\<rparr>)"
  by (auto simp: derived_def)

lemma derived_release: "image_release a s = Some s' \<Longrightarrow> derived n s s'"
  unfolding image_release_def Let_def
  by (auto split: if_splits intro!: derived_modify derived_trans [OF derived_modify derived_free] simp: core_def)

lemma derived_remove: "derived n s (snd (image_remove a s))"
  unfolding image_remove_def Let_def by (auto intro: derived_images derived_trans [OF derived_images(1) derived_free])

lemma derived_addToList: "derived n s (snd (image_addToList mx a s))"
proof -
  have "derived n s (modify a (\<lambda>img. img\<lparr>im_id := imgIdCounter s + 1\<rparr>) (s\<lparr>imgIdCounter := imgIdCounter s + 1\<rparr>))"
    by (rule derived_trans [OF derived_images(2) derived_modify]) (simp add: core_def)
  then show ?thesis
    by (auto simp: image_addToList_def Let_def intro: derived_trans [OF _ derived_images(1)] split: option.split)
qed

lemma derived_reload:
  assumes "reload env a s = Some (c, s')" "heap s a \<noteq> None"
  shows "derived (ge_fresh env) s s'"
proof -
  let ?n = "ge_fresh env"
  let ?s = "s\<lparr>heap := (heap s)(?n \<mapsto> reload_copy (ge_now env) (img_at s a))\<rparr>"
  have n: "derived ?n s ?s"
    using assms(2) by (auto simp: derived_def reload_copy_def core_def img_at_def) blast
  obtain ok s1 where ad: "image_addToList (ge_maxImages env) ?n ?s = (ok, s1)" by fastforce
  have d: "derived ?n s s1" using derived_trans [OF n derived_addToList, of "ge_maxImages env" ?n] ad by simp
  show ?thesis
  proof (cases ok)
    case True
    then obtain s2 where "image_release a s1 = Some s2" "s' = s2" using assms(1) by (auto simp: reload_def ad Let_def)
    then show ?thesis using derived_trans [OF d derived_release] by blast
  next
    case False
    then have "s' = image_free ?n s1" using assms(1) by (auto simp: reload_def ad Let_def)
    then show ?thesis using derived_trans [OF d derived_free] by blast
  qed
qed

lemma core_ensureOpen: "core (snd (image_ensureOpen fd len img)) = core img"
  by (simp add: image_ensureOpen_def Let_def core_def)

lemma core_recheck: "core (snd (recheck env img)) = core img"
  by (simp add: recheck_def core_def)

lemma derived_start_uplink: "derived n s (start_uplink env a s)"
  unfolding start_uplink_def by (auto intro!: derived_modify derived_refl simp: core_def)

lemma image_get_derived:
  assumes get: "image_get env nm rvn chk s = Some (r, s')" and inv: "store_inv refs s" "heap s (ge_fresh env) = None"
  shows "derived (ge_fresh env) s s'"
proof (cases "nm = [] \<or> last nm = CHR ''/'' \<or> hd nm = CHR ''/'' \<or> find_candidate s nm rvn (images s) None = None")
  case True
  then have "image_get env nm rvn chk s = Some (None, s)" by (auto simp: image_get_def)
  then show ?thesis using get by (simp add: derived_refl)
next
  case False
  let ?n = "ge_fresh env"
  obtain a where c: "find_candidate s nm rvn (images s) None = Some a" using False by auto
  then have "Some a \<in> set (images s)" using find_candidate_listed by blast
  then have h: "heap s a \<noteq> None" using store_inv_heap [OF inv(1)] by blast
  define s1 where "s1 = modify a (\<lambda>img. img\<lparr>im_users := im_users img + 1\<rparr>) s"
  define oi where "oi = (if im_working (img_at s1 a) \<or> chk
      then image_ensureOpen (ge_open_fd env) (ge_open_len env) (img_at s1 a) else (True, img_at s1 a))"
  define s2 where "s2 = modify a (\<lambda>_. snd oi) s1"
  define s3 where "s3 = modify a (\<lambda>img. img\<lparr>lastWorkCheck := ge_now env\<rparr>) s2"
  define s4 where "s4 = modify a (\<lambda>_. snd (recheck env (img_at s3 a))) s3"
  have d1: "derived ?n s s1" unfolding s1_def by (rule derived_modify) (simp add: core_def)
  have "core (snd oi) = core (img_at s1 a)" by (simp add: oi_def core_ensureOpen)
  then have d2: "derived ?n s s2" unfolding s2_def by (intro derived_trans [OF d1 derived_modify_img])
  have d3: "derived ?n s s3" unfolding s3_def by (rule derived_trans [OF d2 derived_modify]) (simp add: core_def)
  have d4: "derived ?n s s4" unfolding s4_def by (rule derived_trans [OF d3 derived_modify_img]) (simp add: core_recheck)
  have h4: "heap s4 a \<noteq> None" using h by (simp add: s1_def s2_def s3_def s4_def)
  have eq: "image_get env nm rvn chk s =
    (if \<not> fst oi then (if ge_removeMissing env then Some (image_remove a s3) else Some (Some a, s3))
     else if \<not> chk then Some (Some a, s2)
     else if \<not> timing_diff (lastWorkCheck (snd oi)) (ge_now env) > NONWORKING_RECHECK_INTERVAL_SECONDS then Some (Some a, s2)
     else case (if fst (recheck env (img_at s3 a)) then reload env a s4 else Some (a, s4)) of
            None \<Rightarrow> None | Some (c, s) \<Rightarrow> Some (Some c, start_uplink env c s))"
    using False c by (simp add: image_get_def Let_def case_prod_beta s1_def oi_def s2_def s3_def s4_def)
  consider "s' = snd (image_remove a s3)" | "s' = s3" | "s' = s2" | x where "s' = start_uplink env x s4"
    | x s5 where "reload env a s4 = Some (x, s5)" "s' = start_uplink env x s5"
    using get unfolding eq by (auto split: if_splits option.splits prod.splits)
  then show ?thesis
    by cases (use d2 d3 d4 derived_reload [OF _ h4] in
      \<open>auto intro: derived_trans [OF _ derived_remove] derived_trans [OF _ derived_start_uplink] derived_trans [OF derived_trans [OF _ _] derived_start_uplink]\<close>)
qed


section \<open>Loading keeps the invariants\<close>

lemma length_u32_list: "length bs = 4 * n \<Longrightarrow> length (u32_list e bs) = n"
proof (induction n arbitrary: bs)
  case (Suc n)
  have "length (take 4 bs) = 4" using Suc.prems by simp
  then obtain a b c d where "take 4 bs = [a, b, c, d]" using length_4 by blast
  then have bs: "bs = a # b # c # d # drop 4 bs" using append_take_drop_id [of 4 bs] by simp
  have "length (u32_list e (drop 4 bs)) = n" using Suc by simp
  then show ?case by (subst bs) simp
qed simp

lemma crc_list_loop_done: "len \<le> pos \<Longrightarrow> crc_list_loop cf len rs pos buf = Some (pos, buf)"
  by (induction cf len rs pos buf rule: crc_list_loop.induct) (auto simp: Let_def)

text \<open>The first \<open>pread\<close> of the list is not cut short, whatever its length (an image below 32 TiB has at most \<open>2 ^ 21\<close> hash blocks).\<close>

definition whole_reads :: "crc_read list \<Rightarrow> bool" where
  "whole_reads rs \<longleftrightarrow> (\<exists>k rs'. rs = Crc_read k # rs' \<and> 2 ^ 23 \<le> k)"

lemma loadCrcList_result:
  assumes v: "unat vsize < 2 ^ 45" and w: "whole_reads rs"
  shows "\<exists>m cs. image_loadCrcList e address cf fo rs vsize = Some (m, cs) \<and> (\<forall>l. cs = Some l \<longrightarrow> length l = hash_blocks (unat vsize))"
proof (cases cf)
  case (Some f)
  define hb where "hb = hash_blocks (unat vsize)"
  have hbi: "IMGSIZE_TO_HASHBLOCKS vsize = int hb" using v by (simp add: hb_def hashblocks_eq hash_blocks_def)
  obtain k rs' where rs: "rs = Crc_read k # rs'" "2 ^ 23 \<le> k" using w by (auto simp: whole_reads_def)
  have "hb \<le> 2 ^ 21" using v by (simp add: hb_def hash_blocks_def)
  then have k: "hb * 4 \<le> k" using rs(2) by simp
  show ?thesis
  proof (cases "length f < (hb + 1) * 4 \<or> \<not> fo")
    case True
    then show ?thesis using Some by (auto simp: image_loadCrcList_def Let_def hbi)
  next
    case False
    then have l: "hb * 4 + 4 \<le> length f" "fo" by auto
    have "\<exists>p buf. crc_list_loop f (hb * 4) rs 0 (replicate (hb * 4) 0) = Some (p, buf) \<and> length buf = hb * 4"
    proof (cases "hb = 0")
      case True
      then show ?thesis by (simp add: crc_list_loop_done)
    next
      case nz: False
      let ?d = "take k (take (hb * 4 - 0) (drop (0 + 4) f))"
      have d: "length ?d = hb * 4" "?d \<noteq> []" using l(1) k nz by auto
      then have c: "crc_list_copy 0 ?d (replicate (hb * 4) 0) = Some ?d" by (simp add: crc_list_copy_def)
      have "(\<not> 0 < hb * 4 \<or> ?d = []) = False" using d(2) nz by simp
      then have "crc_list_loop f (hb * 4) rs 0 (replicate (hb * 4) 0) = crc_list_loop f (hb * 4) rs' (0 + length ?d) ?d"
        unfolding rs(1) by (simp only: crc_list_loop.simps Let_def c option.case if_False)
      then show ?thesis using d(1) by (simp add: crc_list_loop_done)
    qed
    then obtain p buf where r: "crc_list_loop f (hb * 4) rs 0 (replicate (hb * 4) 0) = Some (p, buf)" "length buf = hb * 4" by blast
    have "length (u32_list e buf) = hb" by (rule length_u32_list) (use r(2) in simp)
    then show ?thesis using Some l r by (auto simp: image_loadCrcList_def Let_def hbi hb_def [symmetric])
  qed
qed (simp add: image_loadCrcList_def)

text \<open>The sizes of a file that is loaded.\<close>

lemma loaded_sizes:
  assumes "0 < seek" "seek < 2 ^ 44"
  defines "rsize \<equiv> word_of_int seek :: u64"
  defines "vsize \<equiv> (rsize + (DNBD3_BLOCK_SIZE - 1)) AND NOT (DNBD3_BLOCK_SIZE - 1)"
  shows "unat rsize = nat seek" "unat vsize = (nat seek + 4095) div 4096 * 4096" "unat vsize < 2 ^ 45" "rsize \<noteq> 0"
proof -
  show r: "unat rsize = nat seek"
    using assms(1,2) word_of_int_inverse_u64 [of seek] by (simp add: rsize_def unat_eq_nat_uint)
  have "vsize = align_up rsize" by (simp add: vsize_def align_up_def DNBD3_BLOCK_SIZE_def add.commute)
  then show v: "unat vsize = (nat seek + 4095) div 4096 * 4096" using r assms(2) by (simp add: unat_align_up)
  show "unat vsize < 2 ^ 45" using v assms(2) by simp
  show "rsize \<noteq> 0" using r assms(1) by (metis nat_0_iff not_less unat_0)
qed

lemma loadCacheMap_length:
  "image_loadCacheMap mf vsize = Some m \<Longrightarrow> unat vsize < 2 ^ 45 \<Longrightarrow> length m = (unat vsize + 32767) div 32768"
  by (auto simp: image_loadCacheMap_def Let_def mapbytes_eq split: option.splits)

lemma new_image_wf:
  assumes "0 < seek" "seek < 2 ^ 44"
  defines "rsize \<equiv> word_of_int seek :: u64"
  defines "vsize \<equiv> (rsize + (DNBD3_BLOCK_SIZE - 1)) AND NOT (DNBD3_BLOCK_SIZE - 1)"
  shows "image_wf (new_image env path nm rvn rsize vsize (image_loadCacheMap mf vsize) crc)"
proof -
  note sz = loaded_sizes [OF assms(1,2), folded rsize_def, folded vsize_def]
  have "unat rsize \<le> unat vsize" "unat vsize < unat rsize + 4096" "4096 dvd unat vsize" unfolding sz(1,2) by simp_all
  then show ?thesis
    using sz(3) loadCacheMap_length [of mf vsize] by (auto simp: image_wf_def new_image_def word_le_nat_alt split: option.split)
qed

definition all_wf :: "image_store \<Rightarrow> bool" where
  "all_wf s \<longleftrightarrow> (\<forall>a img. heap s a = Some img \<longrightarrow> image_wf img)"

lemma image_wf_core: "core img = core img' \<Longrightarrow> image_wf img = image_wf img'"
  by (auto simp: core_def image_wf_def split: option.split)

lemma all_wf_derived: "derived n s s' \<Longrightarrow> all_wf s \<Longrightarrow> all_wf s'"
  unfolding derived_def all_wf_def by (metis image_wf_core)

lemma add_new_image_inv:
  assumes inv: "store_inv refs s" "all_wf s" and n: "heap s (le_fresh env) = None" and img: "image_wf img" "im_users img = 0"
  shows "\<exists>ret s' chk. add_new_image env up full img s = Some (ret, s', chk) \<and> store_inv refs s' \<and> all_wf s'"
proof -
  let ?a = "le_fresh env"
  obtain img1 where c: "(if cache_map img \<noteq> None then map_option (\<lambda>(c, img, d). img) (image_isComplete img) else Some img) = Some img1"
    and i1: "image_wf img1" "im_users img1 = 0"
  proof (cases "cache_map img = None")
    case True
    then show ?thesis using that [of img] img by simp
  next
    case False
    obtain c img' d where "image_isComplete img = Some (c, img', d)" "image_wf img'" "im_users img' = im_users img"
      using isComplete_result [OF img(1)] by (auto split: option.splits)
    then show ?thesis using that [of img'] False img(2) by simp
  qed
  define img2 where "img2 = (if cache_map img1 \<noteq> None then img1\<lparr>im_working := False, im_uplink := (if up then le_uplink env else None)\<rparr> else img1)\<lparr>readFd := le_fd env\<rparr>"
  have i2: "image_wf img2" "im_users img2 = 0" using i1 by (auto simp: img2_def image_wf_def)
  obtain ok s1 where ad: "image_addToList (ge_maxImages (le_get env)) ?a (s\<lparr>heap := (heap s)(?a \<mapsto> img2)\<rparr>) = (ok, s1)" by fastforce
  have eq: "add_new_image env up full img s = (if ok then Some (True, s1, full) else Some (False, image_free ?a s1, False))"
    unfolding add_new_image_def c option.case Let_def using ad by (simp add: img2_def)
  have "all_wf (s\<lparr>heap := (heap s)(?a \<mapsto> img2)\<rparr>)" using inv(2) i2(1) by (auto simp: all_wf_def)
  then have "all_wf s1" using all_wf_derived [OF derived_addToList] ad by (metis snd_conv)
  moreover then have "all_wf (image_free ?a s1)" using all_wf_derived [OF derived_free] by blast
  ultimately show ?thesis using new_image_inv [OF inv(1) n i2(2) ad] unfolding eq by auto
qed


lemma derived_None: "derived n s s' \<Longrightarrow> n \<noteq> a \<Longrightarrow> heap s a = None \<Longrightarrow> heap s' a = None"
  unfolding derived_def by (metis not_None_eq)

definition held :: "nat option \<Rightarrow> nat multiset \<Rightarrow> nat multiset" where
  "held existing refs = (case existing of None \<Rightarrow> refs | Some a \<Rightarrow> add_mset a refs)"

definition load_ok :: "nat multiset \<Rightarrow> (bool \<times> image_store \<times> bool) option \<Rightarrow> bool" where
  "load_ok refs r \<longleftrightarrow> (\<exists>ret s' chk. r = Some (ret, s', chk) \<and> store_inv refs s' \<and> all_wf s')"

lemma release_ok:
  assumes "store_inv (add_mset a refs) s" "all_wf s"
  shows "\<exists>s'. image_release a s = Some s' \<and> store_inv refs s' \<and> all_wf s' \<and> derived n s s'"
proof -
  obtain s' where s': "image_release a s = Some s'" "store_inv refs s'" using image_release_inv [OF assms(1), of a] by auto
  then show ?thesis using derived_release [OF s'(1)] all_wf_derived assms(2) by blast
qed

lemma release_existing_ok:
  assumes "store_inv (held existing refs) s" "all_wf s"
  shows "load_ok refs (case existing of None \<Rightarrow> Some (ret, s, False) | Some a \<Rightarrow> map_option (\<lambda>s. (ret, s, False)) (image_release a s))"
proof (cases existing)
  case None
  then show ?thesis using assms by (auto simp: load_ok_def held_def)
next
  case (Some a)
  then show ?thesis using release_ok [of a refs s 0] assms by (auto simp: load_ok_def held_def)
qed

lemma random_check_ok:
  assumes "image_wf img" "realFilesize img \<noteq> 0" "length cs = hash_blocks (unat (realFilesize img))"
  shows "image_checkRandomBlocks e address f cnt (realFilesize img) cs (cache_map img) rands reads \<noteq> None"
proof -
  obtain bl where bl: "random_blocks cnt (cache_map img) (realFilesize img) rands = Some bl" "chosen_ok img bl"
    using random_blocks_ok [OF assms(1,2)] by blast
  have "unat (realFilesize img) < 2 ^ 45" using image_wf_sizes [OF assms(1)] by linarith
  moreover have "\<forall>(b, rs)\<in>set (map (\<lambda>b. (b, reads b)) bl). b < length cs" using bl(2) assms(3) by (auto simp: chosen_ok_def)
  ultimately show ?thesis using checkBlocks_eq(1) assms(3) bl(1) by (simp add: image_checkRandomBlocks_def)
qed

lemma load_data_ok:
  assumes inv: "store_inv (held existing refs) s" "all_wf s" and n: "heap s (le_fresh env) = None"
    and sz: "le_seek env < 2 ^ 44" and w: "whole_reads (le_crc_reads env)"
  shows "load_ok refs (load_data env path nm revision up existing s)"
proof (cases "le_fd env = - 1 \<or> le_seek env \<le> 0")
  case True
  then show ?thesis unfolding load_data_def Let_def using release_existing_ok [OF inv] by auto
next
  case False
  define rsize vsize where "rsize = (word_of_int (le_seek env) :: u64)"
    and "vsize = (rsize + (DNBD3_BLOCK_SIZE - 1)) AND NOT (DNBD3_BLOCK_SIZE - 1)"
  define m where "m = image_loadCacheMap (le_map env) vsize"
  have pos: "0 < le_seek env" using False by simp
  note s = loaded_sizes [OF pos sz, folded rsize_def, folded vsize_def]
  obtain master crcs where cl: "image_loadCrcList (le_endian env) (le_address env) (le_crc env) (le_crc_first env) (le_crc_reads env) vsize = Some (master, crcs)"
    and len: "\<forall>l. crcs = Some l \<longrightarrow> length l = hash_blocks (unat vsize)" using loadCrcList_result [OF s(3) w] by blast
  define img where "img = new_image env path nm revision rsize vsize m (master, crcs)"
  have wf: "image_wf img" unfolding img_def m_def
    by (rule new_image_wf [OF pos sz, folded rsize_def, folded vsize_def])
  have im: "realFilesize img = rsize" "cache_map img = m" "im_users img = 0" by (simp_all add: img_def new_image_def)
  have hb: "hash_blocks (unat vsize) = hash_blocks (unat rsize)" by (simp add: s(1,2) hash_blocks_align)
  obtain checked where ck: "(case crcs of None \<Rightarrow> Some True
      | Some cs \<Rightarrow> image_checkRandomBlocks (le_endian env) (le_address env) (le_file env) 4 rsize cs m (le_rands env) (le_reads env)) = Some checked"
    using random_check_ok [OF wf, unfolded im, OF s(4)] len hb by (cases crcs) fastforce+
  define new where "new = add_new_image env up (\<not> checked) img"
  have new: "load_ok refs (new s')" if "store_inv refs s'" "all_wf s'" "heap s' (le_fresh env) = None" for s'
    unfolding new_def load_ok_def by (rule add_new_image_inv [OF that wf im(3)])
  note eq = load_data_def [of env path nm revision up existing s, unfolded Let_def, folded rsize_def, folded vsize_def, folded m_def,
      unfolded cl option.case prod.case ck, folded img_def, folded new_def]
  show ?thesis
  proof (cases existing)
    case None
    then show ?thesis using new [OF _ inv(2) n] inv(1) False None unfolding eq by (simp add: held_def)
  next
    case (Some a)
    have iv: "store_inv (add_mset a refs) s" using inv(1) Some by (simp add: held_def)
    let ?act = "compare_existing (img_at s a) rsize crcs m (IMGSIZE_TO_HASHBLOCKS vsize)"
    show ?thesis
    proof (cases ?act)
      case Keep
      then show ?thesis using release_existing_ok [OF inv, of True] False Some unfolding eq by simp
    next
      case Take_crc
      let ?s = "modify a (\<lambda>i. i\<lparr>im_crc32 := crcs, masterCrc32 := master\<rparr>) s"
      have "store_inv (held existing refs) ?s" using inv(1) by (simp add: store_inv_modify)
      moreover have "all_wf ?s" by (rule all_wf_derived [OF derived_modify inv(2)]) (simp add: core_def)
      ultimately show ?thesis using release_existing_ok [of existing refs ?s True] Take_crc False Some unfolding eq by simp
    next
      case Replace
      obtain s2 where rm: "image_remove a s = (Some a, s2)" "store_inv (add_mset a refs) s2"
        using image_remove_inv [OF iv, of a] by (cases "image_remove a s") auto
      have d2: "derived (Suc (le_fresh env)) s s2" using derived_remove [of _ s a] rm(1) by simp
      obtain s3 where rl: "image_release a s2 = Some s3" "store_inv refs s3" "all_wf s3" "derived (Suc (le_fresh env)) s2 s3"
        using release_ok [OF rm(2) all_wf_derived [OF d2 inv(2)]] by blast
      have "heap s3 (le_fresh env) = None" by (rule derived_None [OF derived_trans [OF d2 rl(4)] _ n]) simp
      then show ?thesis using new [OF rl(2,3)] Replace False Some rm(1) rl(1) unfolding eq by simp
    qed
  qed
qed

lemma image_load_ok:
  assumes inv: "store_inv refs s" "all_wf s" and n: "heap s (le_fresh env) = None" "heap s (ge_fresh (le_get env)) = None"
    "le_fresh env \<noteq> ge_fresh (le_get env)" and sz: "le_seek env < 2 ^ 44" and w: "whole_reads (le_crc_reads env)"
    and p: "path_ok base path"
  shows "load_ok refs (image_load env base path up s)"
proof -
  define nm rvn where "nm = virtual_dir base path @ fst (parse_revision (file_name path))
      @ (if le_legacy env \<and> snd (parse_revision (file_name path)) = - 1 then file_name path else [])"
    and "rvn = (if le_legacy env \<and> snd (parse_revision (file_name path)) = - 1 then 1 else snd (parse_revision (file_name path)))"
  have same: "load_ok refs (Some (False, s, False))" using inv by (auto simp: load_ok_def)
  obtain r s' where g: "image_get (le_get env) nm (word_of_int rvn) True s = Some (r, s')" "store_inv (held r refs) s'"
    using image_get_inv [OF inv(1) n(2), of nm "word_of_int rvn" True] unfolding held_def by blast
  note d = image_get_derived [OF g(1) inv(1) n(2)]
  have "load_ok refs (load_data env path nm rvn up r s')"
    using g(2) all_wf_derived [OF d inv(2)] derived_None [OF d n(3) [symmetric] n(1)] sz w by (rule load_data_ok)
  then show ?thesis
    using p same g(1) unfolding image_load_def Let_def nm_def rvn_def by (auto split: prod.splits)
qed


section \<open>Every search keeps the invariants\<close>

lemma store_inv_finite: "store_inv refs s \<Longrightarrow> finite (dom (heap s))"
proof -
  assume "store_inv refs s"
  then have "dom (heap s) \<subseteq> {a. Some a \<in> set (images s)} \<union> set_mset refs" using store_inv_heap by blast
  moreover have "finite {a. Some a \<in> set (images s)}"
    using finite_vimageI [of "set (images s)" Some] by (simp add: vimage_def)
  ultimately show ?thesis by (meson finite_UnI finite_set_mset finite_subset)
qed

definition good :: "nat multiset \<Rightarrow> image_store \<Rightarrow> bool" where
  "good refs s \<longleftrightarrow> store_inv refs s \<and> all_wf s"

definition lookup_ok :: "nat multiset \<Rightarrow> (nat option \<times> image_store) option \<Rightarrow> bool" where
  "lookup_ok refs r \<longleftrightarrow> (\<exists>a s'. r = Some (a, s') \<and> good (held a refs) s')"

lemma get_ok:
  assumes "malloc_ok alloc" "good refs s"
  shows "lookup_ok refs (image_get (get_fresh alloc env s) nm rvn chk s)"
proof -
  have inv: "store_inv refs s" "all_wf s" using assms(2) by (simp_all add: good_def)
  have n: "heap s (ge_fresh (get_fresh alloc env s)) = None"
    using assms(1) store_inv_finite [OF inv(1)] by (simp add: malloc_ok_def get_fresh_def)
  obtain r s' where g: "image_get (get_fresh alloc env s) nm rvn chk s = Some (r, s')" "store_inv (held r refs) s'"
    using image_get_inv [OF inv(1) n, of nm rvn chk] unfolding held_def by blast
  then show ?thesis using all_wf_derived [OF image_get_derived [OF g(1) inv(1) n] inv(2)] by (auto simp: lookup_ok_def good_def)
qed

definition load_env_ok :: "load_env \<Rightarrow> bool" where
  "load_env_ok env \<longleftrightarrow> le_seek env < 2 ^ 44 \<and> whole_reads (le_crc_reads env)"

lemma load_fresh_ok:
  assumes "malloc_ok alloc" "good refs s" "load_env_ok env" "path_ok base path"
  shows "\<exists>ret s' chk. image_load (load_fresh alloc env s) base path up s = Some (ret, s', chk) \<and> good refs s'"
proof -
  have inv: "store_inv refs s" "all_wf s" using assms(2) by (simp_all add: good_def)
  let ?e = "load_fresh alloc env s"
  have "heap s (le_fresh ?e) = None" "heap s (ge_fresh (le_get ?e)) = None" "le_fresh ?e \<noteq> ge_fresh (le_get ?e)"
    using assms(1) store_inv_finite [OF inv(1)] by (auto simp: malloc_ok_def load_fresh_def get_fresh_def)
  then have "load_ok refs (image_load ?e base path up s)"
    using assms(3,4) by (intro image_load_ok [OF inv]) (simp_all add: load_env_ok_def load_fresh_def)
  then show ?thesis by (auto simp: load_ok_def good_def)
qed

subsection \<open>On disk\<close>

definition base_ok :: "string \<Rightarrow> bool" where
  "base_ok base \<longleftrightarrow> base \<noteq> [] \<and> base ! 0 = CHR ''/'' \<and> last base \<noteq> CHR ''/''"

lemma path_ok_name:
  assumes "base_ok base" "nm \<noteq> []" "hd nm \<noteq> CHR ''/''" "last nm \<noteq> CHR ''/''"
  shows "path_ok base (base @ CHR ''/'' # nm)"
proof -
  let ?p = "base @ CHR ''/'' # nm"
  have "drop (last_slash ?p + 1) ?p \<noteq> []"
  proof (rule split_name [OF assms(2,4)])
    assume "CHR ''/'' \<notin> set nm"
    then show ?thesis using assms(2) by (simp add: last_slash_append)
  next
    fix d fn
    assume a: "nm = d @ CHR ''/'' # fn" "CHR ''/'' \<notin> set fn" "fn \<noteq> []"
    then have "last_slash ((base @ CHR ''/'' # d) @ CHR ''/'' # fn) = length (base @ CHR ''/'' # d)" by (intro last_slash_append)
    then show ?thesis using a by simp
  qed
  then show ?thesis using assms unfolding path_ok_def base_ok_def by (auto simp: nth_append hd_conv_nth)
qed

lemma path_ok_rid:
  assumes "base_ok base" "\<not> bad_name nm"
  shows "path_ok base (base @ CHR ''/'' # nm @ ''.r'' @ dec n)"
proof (rule path_ok_name [OF assms(1)])
  show "hd (nm @ ''.r'' @ dec n) \<noteq> CHR ''/''" using assms(2) by (auto simp: bad_name_def)
  have "last (dec n) \<noteq> CHR ''/''" using dec_digits(2) [of n] dec_no_slash [of n] last_in_set by metis
  then show "last (nm @ ''.r'' @ dec n) \<noteq> CHR ''/''" using dec_digits(2) [of n] by (simp add: last_append)
qed simp

text \<open>The file system: matches of \<open>glob\<close> lie in the directory, and no path is cut off.\<close>

definition server_env_ok :: "server_env \<Rightarrow> string \<Rightarrow> bool" where
  "server_env_ok env nm \<longleftrightarrow> base_ok (sv_base env) \<and> length (sv_base env) + length nm + 20 < PATHLEN \<and> load_env_ok (sv_load env)
     \<and> (\<forall>paths. sv_glob env = Some paths \<longrightarrow> (\<forall>p\<in>set paths. path_ok (sv_base env) p \<and> length p < PATHLEN))"

lemma rid_path_eq:
  assumes "server_env_ok env nm"
  shows "rid_path env nm rid = sv_base env @ CHR ''/'' # nm @ ''.r'' @ dec (unat rid)"
proof -
  have "unat rid < 10 ^ 5" using unat_u16_less [of rid] by simp
  then have "length (dec (unat rid)) \<le> 5" by (intro length_dec) auto
  then show ?thesis using assms by (auto simp: rid_path_def snprintf_path_def server_env_ok_def PATHLEN_def)
qed

lemma rid_path_ok: "server_env_ok env nm \<Longrightarrow> \<not> bad_name nm \<Longrightarrow> path_ok (sv_base env) (rid_path env nm rid)"
  unfolding rid_path_eq by (rule path_ok_rid) (simp_all add: server_env_ok_def)

lemma glob_best_ok:
  "glob_best paths best imageFile = (best', imageFile') \<Longrightarrow> 0 \<le> best \<Longrightarrow>
   best' = best \<and> imageFile' = imageFile \<or> best < best' \<and> (\<exists>p\<in>set paths. path_revision p = Some best' \<and> imageFile' = snprintf_path p)"
proof (induction paths best imageFile rule: glob_best.induct)
  case (2 path paths best imageFile)
  show ?case
  proof (cases "path_revision path")
    case None
    then show ?thesis using "2.IH"(1) "2.prems" by auto
  next
    case (Some val)
    show ?thesis
    proof (cases "val > best")
      case True
      then show ?thesis using "2.IH"(2) [OF Some True] "2.prems" Some by auto
    next
      case False
      then show ?thesis using "2.IH"(3) [OF Some False] "2.prems" Some by auto
    qed
  qed
qed auto

lemma detect_ok:
  assumes "server_env_ok env nm" "\<not> bad_name nm" "detect env nm rid = (imageFile, d)" "d \<noteq> 0"
  shows "path_ok (sv_base env) imageFile"
proof -
  have b: "base_ok (sv_base env)" using assms(1) by (simp add: server_env_ok_def)
  have "path_ok (sv_base env) (snprintf_path (sv_base env @ ''/'' @ nm))"
  proof -
    have "snprintf_path (sv_base env @ ''/'' @ nm) = sv_base env @ CHR ''/'' # nm"
      using assms(1) by (auto simp: snprintf_path_def server_env_ok_def PATHLEN_def)
    then show ?thesis using path_ok_name [OF b] assms(2) by (simp add: bad_name_def)
  qed
  moreover have "path_ok (sv_base env) f" if g: "sv_glob env = Some paths" "glob_best paths 0 [] = (best, f)" "best > 0" for paths best f
  proof -
    obtain p where "p \<in> set paths" "f = snprintf_path p" using glob_best_ok [OF g(2)] g(3) by auto
    then show ?thesis using assms(1) g(1) by (auto simp: server_env_ok_def snprintf_path_def)
  qed
  ultimately show ?thesis
    using assms(3,4) rid_path_ok [OF assms(1,2)] by (auto simp: detect_def Let_def split: if_splits option.splits prod.splits)
qed

lemma load_detected_ok:
  assumes "malloc_ok alloc" "good refs s" "server_env_ok env nm" "path_ok (sv_base env) imageFile"
  shows "lookup_ok refs (load_detected alloc env nm rid imageFile d s)"
proof -
  obtain r s1 where g: "image_get (get_fresh alloc (sv_get env) s) nm (word_of_nat d) True s = Some (r, s1)" "good (held r refs) s1"
    using get_ok [OF assms(1,2)] unfolding lookup_ok_def by blast
  show ?thesis
  proof (cases r)
    case None
    then have g1: "good refs s1" using g(2) by (simp add: held_def)
    have "load_env_ok (sv_load env)" using assms(3) by (simp add: server_env_ok_def)
    from load_fresh_ok [OF assms(1) g1 this assms(4)]
    obtain ret s2 chk where "image_load (load_fresh alloc (sv_load env) s1) (sv_base env) imageFile False s1 = Some (ret, s2, chk)" "good refs s2"
      by blast
    then show ?thesis using g None get_ok [OF assms(1)] by (simp add: load_detected_def)
  next
    case (Some a)
    then show ?thesis using g by (simp add: load_detected_def lookup_ok_def)
  qed
qed

lemma lower_loop_ok:
  assumes "malloc_ok alloc" "good refs s" "server_env_ok env nm" "\<not> bad_name nm" "path_ok (sv_base env) imageFile"
  shows "\<exists>r s'. lower_loop alloc env nm rid d imageFile s = (Some r, s')
    \<and> (case r of Inl a \<Rightarrow> good (add_mset a refs) s' | Inr (f, d') \<Rightarrow> good refs s' \<and> path_ok (sv_base env) f)"
  using assms(2,5)
proof (induction d arbitrary: imageFile s)
  case (Suc d)
  obtain r s1 where g: "image_get (get_fresh alloc (sv_get env) s) nm (word_of_nat (Suc d)) True s = Some (r, s1)" "good (held r refs) s1"
    using get_ok [OF assms(1) Suc.prems(1)] unfolding lookup_ok_def by blast
  show ?case
  proof (cases r)
    case None
    then have g1: "good refs s1" using g(2) by (simp add: held_def)
    show ?thesis using g None g1 Suc.prems(2) Suc.IH [OF g1 rid_path_ok [OF assms(3,4)]] by (simp del: of_nat_Suc)
  next
    case (Some a)
    then show ?thesis using g by (simp add: held_def del: of_nat_Suc)
  qed
qed simp

lemma loadImageServer_ok:
  assumes "malloc_ok alloc" "good refs s" "server_env_ok env nm" "\<not> bad_name nm"
  shows "lookup_ok refs (loadImageServer alloc env nm rid s)"
proof -
  obtain f d where dt: "detect env nm rid = (f, d)" by fastforce
  show ?thesis
  proof (cases "d = 0")
    case True
    then show ?thesis using get_ok [OF assms(1,2)] by (simp add: loadImageServer_def dt)
  next
    case False
    note p = detect_ok [OF assms(3,4) dt False]
    obtain r s' where l: "lower_loop alloc env nm rid (unat d) f s = (Some r, s')"
      "case r of Inl a \<Rightarrow> good (add_mset a refs) s' | Inr (f, d') \<Rightarrow> good refs s' \<and> path_ok (sv_base env) f"
      using lower_loop_ok [OF assms p] by blast
    have "lookup_ok refs (case r of Inl a \<Rightarrow> Some (Some a, s') | Inr (f, d) \<Rightarrow> load_detected alloc env nm rid f d s')"
      using l(2) load_detected_ok [OF assms(1) _ assms(3)] by (auto simp: lookup_ok_def held_def split: sum.splits)
    then show ?thesis using False l(1) load_detected_ok [OF assms(1-3) p] by (auto simp: loadImageServer_def dt split: sum.splits)
  qed
qed


subsection \<open>On other servers\<close>

lemma derived_lock: "derived n s (snd (image_lock a s))"
  by (auto simp: image_lock_def core_def intro!: derived_modify derived_refl)

lemma derived_oldest: "oldest_loop xs oldest s = Some (r, s') \<Longrightarrow> derived n s s'"
proof (induction xs oldest s arbitrary: r s' rule: oldest_loop.induct)
  case (3 a xs oldest s)
  obtain l s1 where l: "image_lock a s = (l, s1)" by fastforce
  have d: "derived n s s1" using derived_lock [of n s a] l by simp
  show ?case
  proof (cases l)
    case None
    then show ?thesis using "3.IH"(1) [OF l [symmetric]] "3.prems" l derived_trans [OF d] by simp
  next
    case (Some c)
    obtain s2 where r: "image_release c s1 = Some s2" using "3.prems" l Some by (auto simp: Let_def split: option.splits)
    then show ?thesis
      using "3.IH"(2) [OF l [symmetric] Some refl r] "3.prems" l Some derived_trans [OF derived_trans [OF d derived_release [OF r]]]
      by (simp add: Let_def)
  qed
qed (auto simp: derived_refl)

lemma derived_evict:
  assumes "evict a s = Some (fs, s')"
  shows "derived n s s'"
proof -
  obtain l s1 where l: "image_lock a s = (l, s1)" by fastforce
  have d: "derived n s s1" using derived_lock [of n s a] l by simp
  show ?thesis
  proof (cases l)
    case None
    then show ?thesis using assms l d by (simp add: evict_def)
  next
    case (Some c)
    obtain m s2 where m: "image_remove c s1 = (m, s2)" by fastforce
    have d2: "derived n s s2" using derived_trans [OF d derived_remove, of c] m by simp
    show ?thesis
      using assms l Some m d2 derived_trans [OF d2 derived_release] by (auto simp: evict_def Let_def split: option.splits)
  qed
qed

lemma derived_disk: "disk_loop k av sz force sparse up s = Some (r, fs, s') \<Longrightarrow> derived n s s'"
proof (induction k av sz force sparse up s arbitrary: r fs s' rule: disk_loop.induct)
  case (3 k r0 now rs sz force sparse up s)
  show ?case
  proof (cases "\<exists>av. r0 = Some av \<and> \<not> av > sz \<and> (force \<or> \<not> up < 10 * 3600)")
    case False
    then have "s' = s" using "3.prems" by (auto split: option.splits if_splits)
    then show ?thesis by (simp add: derived_refl)
  next
    case True
    then obtain av where av: "r0 = Some av" "\<not> sz < av" "\<not> (\<not> force \<and> up < 10 * 3600)" by auto
    have c: "(sz < av) = False" "(\<not> force \<and> up < 10 * 3600) = False" using av(2,3) by blast+
    note pr = "3.prems" [unfolded disk_loop.simps av(1) option.case c if_False]
    obtain o1 s1 where o: "oldest_loop (images s) None s = Some (o1, s1)" using pr by (auto split: option.splits)
    note d = derived_oldest [OF o, of n]
    show ?thesis
    proof (cases o1)
      case None
      then show ?thesis using pr o d by simp
    next
      case (Some a)
      show ?thesis
      proof (cases "\<not> sparse \<and> timing_diff (im_atime (img_at s1 a)) now < 86400")
        case True
        then show ?thesis using pr o d Some by simp
      next
        case False
        obtain gs s2 where e: "evict a s1 = Some (gs, s2)" using pr o Some False by (auto split: option.splits)
        obtain r' hs where l: "disk_loop k rs sz force sparse up s2 = Some (r', hs, s')" using pr o Some False e
          by (auto split: option.splits)
        show ?thesis
          using derived_trans [OF derived_trans [OF d derived_evict [OF e]]] "3.IH" [OF av(1-3) o refl Some False e refl l] by blast
      qed
    qed
  qed
qed (auto simp: derived_refl)

lemma ensureDiskSpace_ok:
  assumes "good refs s"
  shows "\<exists>r fs s'. image_ensureDiskSpace av sz force sparse up s = Some (r, fs, s') \<and> good refs s'"
proof -
  obtain r fs s' where d: "image_ensureDiskSpace av sz force sparse up s = Some (r, fs, s')" "store_inv refs s'"
    using disk_loop_inv [of refs s 20 av sz force sparse up] assms by (auto simp: good_def image_ensureDiskSpace_def)
  have "all_wf s'" using all_wf_derived [OF derived_disk] d(1) assms unfolding good_def image_ensureDiskSpace_def by blast
  then show ?thesis using d by (auto simp: good_def)
qed


lemma image_create_returns:
  assumes "sz \<ge> DNBD3_BLOCK_SIZE"
  shows "\<exists>b fs. image_create sparse env base nm rid sz = Some (b, fs)"
proof -
  have "image_create sparse env base nm rid sz \<noteq> None" using assms by (simp add: image_create_def Let_def del: not_None_eq)
  then show ?thesis by auto
qed

lemma image_clone_ok:
  assumes "malloc_ok alloc" "good refs s" "base_ok base" "\<not> bad_name nm" "load_env_ok (cl_load env)" "sz \<ge> DNBD3_BLOCK_SIZE"
  shows "\<exists>ok s'. image_clone alloc sparse env base nm rid sz s = Some (ok, s') \<and> good refs s'"
proof -
  have p: "path_ok base (base @ ''/'' @ nm @ ''.r'' @ dec (unat rid))" using path_ok_rid [OF assms(3,4)] by simp
  have load: "\<exists>ok s'. map_option (\<lambda>(ret, s, chk). (ret, s))
      (image_load (load_fresh alloc lenv s) base (base @ ''/'' @ nm @ ''.r'' @ dec (unat rid)) False s) = Some (ok, s') \<and> good refs s'"
    if "load_env_ok lenv" for lenv
    using load_fresh_ok [OF assms(1,2) that p] by fastforce
  have crc: "load_env_ok ((cl_load env)\<lparr>le_crc := c\<rparr>)" for c using assms(5) by (simp add: load_env_ok_def)
  obtain b fs where "image_create sparse (cl_create env) base nm (int (unat rid)) sz = Some (b, fs)"
    using image_create_returns [OF assms(6)] by blast
  note eq = this
  note unf = image_clone_def [of alloc sparse env base nm rid sz s, unfolded Let_def eq option.case prod.case]
  have stay: "\<exists>ok s'. Some (False, s) = Some (ok, s') \<and> good refs s'" using assms(2) by blast
  show ?thesis
  proof (cases b)
    case False
    then show ?thesis using stay unf by simp
  next
    case b: True
    show ?thesis
    proof (cases "cl_crc_readable env")
      case True
      then show ?thesis using load [OF assms(5)] b unf by (simp only: bool.case if_True)
    next
      case False
      show ?thesis
      proof (cases "fst (dnbd3_get_crc32 (le_endian (cl_load env)) (nat (IMGSIZE_TO_HASHBLOCKS sz) * 4) (cl_events env))")
        case None
        then show ?thesis using stay b unf False by (simp only: bool.case if_False option.case)
      next
        case (Some r)
        obtain len m lst where r: "r = (len, m, lst)" by (cases r)
        have if_ok: "\<exists>ok s'. (if c then x else y) = Some (ok, s') \<and> good refs s'"
          if "\<exists>ok s'. x = Some (ok, s') \<and> good refs s'" "\<exists>ok s'. y = Some (ok, s') \<and> good refs s'"
          for c and x y :: "(bool \<times> image_store) option" using that by simp
        show ?thesis unfolding unf Some r option.case prod.case using False b
          by (simp only: bool.case if_False) (rule if_ok [OF load [OF crc] load [OF assms(5)]])
      qed
    qed
  qed
qed

lemma try_clone_ok:
  assumes "malloc_ok alloc" "good refs s" "base_ok (px_base env)" "\<not> bad_name nm" "load_env_ok (cl_load (cn_clone c))" "sz \<ge> DNBD3_BLOCK_SIZE"
  shows "\<exists>ok s'. try_clone alloc env nm c rid sz s = Some (ok, s') \<and> good refs s'"
proof -
  let ?need = "if px_sparse env then 2 * 1024 * 1024 * 1024 else sz + 10 * 1024 * 1024"
  obtain r fs s1 where d: "image_ensureDiskSpace (cn_space c) ?need False (px_sparse env) (px_uptime env) s = Some (r, fs, s1)" "good refs s1"
    using ensureDiskSpace_ok [OF assms(2)] by blast
  then show ?thesis
    using image_clone_ok [OF assms(1) d(2) assms(3-6)] unfolding try_clone_def d(1) by auto
qed

definition proxy_env_ok :: "proxy_env \<Rightarrow> bool" where
  "proxy_env_ok env \<longleftrightarrow> base_ok (px_base env) \<and> (\<forall>c. Connected c \<in> set (px_servers env) \<longrightarrow> load_env_ok (cl_load (cn_clone c)))"

lemma clone_loop_ok:
  assumes "malloc_ok alloc" "base_ok (px_base env)" "\<not> bad_name nm"
  shows "good refs s \<Longrightarrow> \<forall>c. Connected c \<in> set cs \<longrightarrow> load_env_ok (cl_load (cn_clone c)) \<Longrightarrow>
    \<exists>ok rid' s'. clone_loop alloc env nm revision img cs rid s = Some (ok, rid', s') \<and> good refs s'"
proof (induction cs arbitrary: rid s)
  case (Cons x cs)
  have rest: "\<exists>ok rid' s'. clone_loop alloc env nm revision img cs r s1 = Some (ok, rid', s') \<and> good refs s'" if "good refs s1" for r s1
    using Cons.IH [OF that] Cons.prems(2) by simp
  show ?case
  proof (cases x)
    case (Connected c)
    show ?thesis
    proof (cases "\<exists>reply. cn_peer c \<and> cn_select c \<and> cn_reply c = Some reply
        \<and> server_ok env nm revision (map_option (\<lambda>a. im_rid (img_at s a)) img) reply")
      case False
      then show ?thesis using rest [OF Cons.prems(1)] Connected by (auto split: option.split)
    next
      case True
      then obtain reply where r: "cn_peer c" "cn_select c" "cn_reply c = Some reply"
        "server_ok env nm revision (map_option (\<lambda>a. im_rid (img_at s a)) img) reply" by blast
      have sz: "snd (snd (snd reply)) \<ge> DNBD3_BLOCK_SIZE" using r(4) by (auto simp: server_ok_def split: prod.splits)
      have le: "load_env_ok (cl_load (cn_clone c))" using Cons.prems(2) Connected by simp
      obtain ok s1 where t: "try_clone alloc env nm c (fst (snd (snd reply))) (snd (snd (snd reply))) s = Some (ok, s1)" "good refs s1"
        using try_clone_ok [OF assms(1) Cons.prems(1) assms(2,3) le sz] by blast
      show ?thesis using rest [OF t(2)] r t Connected by (cases ok) auto
    qed
  next
    case No_more
    then show ?thesis using Cons.prems(1) by (auto intro: exI [of _ False])
  qed (use Cons.prems rest in auto)
qed (auto intro: exI [of _ False])

lemma ask_servers_ok:
  assumes "malloc_ok alloc" "good (held img refs) s" "proxy_env_ok env" "\<not> bad_name nm"
  shows "lookup_ok refs (ask_servers alloc env nm revision img s)"
proof -
  have pe: "base_ok (px_base env)" "\<forall>c. Connected c \<in> set (px_servers env) \<longrightarrow> load_env_ok (cl_load (cn_clone c))"
    using assms(3) by (simp_all add: proxy_env_ok_def)
  obtain ok rid s1 where c: "clone_loop alloc env nm revision img (px_servers env) revision s = Some (ok, rid, s1)" "good (held img refs) s1"
    using clone_loop_ok [OF assms(1) pe(1) assms(4,2) pe(2)] by blast
  obtain s2 where r: "(case img of None \<Rightarrow> Some s1 | Some a \<Rightarrow> image_release a s1) = Some s2" "good refs s2"
    using c(2) release_ok [of _ refs s1] by (cases img) (auto simp: good_def held_def)
  obtain a s3 where g: "image_get (get_fresh alloc (px_get env) s2) nm rid False s2 = Some (a, s3)" "good (held a refs) s3"
    using get_ok [OF assms(1) r(2)] unfolding lookup_ok_def by blast
  have up: "good rs (modify x (\<lambda>i. i\<lparr>im_uplink := px_uplink env\<rparr>) s3)" if "good rs s3" for rs x
    using that all_wf_derived [OF derived_modify] by (simp add: good_def store_inv_modify core_def)
  show ?thesis
    using g up [OF g(2)] unfolding ask_servers_def c(1) option.case prod.case r(1) lookup_ok_def by (auto split: option.split)
qed

lemma get_if_ok:
  assumes "malloc_ok alloc" "good refs s"
  shows "\<exists>r s'. (if c then image_get (get_fresh alloc env s) nm rid up s else Some (None, s)) = Some (r, s') \<and> good (held r refs) s'"
proof (cases c)
  case True
  then show ?thesis using get_ok [OF assms, of env nm rid up] unfolding lookup_ok_def by simp
next
  case False
  then show ?thesis using assms(2) by (simp add: held_def)
qed

lemma loadImageProxy_ok:
  assumes "malloc_ok alloc" "good refs s" "proxy_env_ok env" "\<not> bad_name nm"
  shows "\<exists>r cache' s'. loadImageProxy alloc env nm revision (cache, s) = Some (r, cache', s') \<and> good (held r refs) s'"
proof -
  obtain img s1 where g: "(if revision = 0 then image_get (get_fresh alloc (px_get env) s) nm revision True s else Some (None, s)) = Some (img, s1)"
    "good (held img refs) s1" using get_if_ok [OF assms(1,2)] by blast
  show ?thesis
  proof (cases "cache_lookup (px_now env) nm revision cache")
    case Recent
    then show ?thesis using g by (simp add: loadImageProxy_def)
  next
    case (Use i)
    have im: "revision \<noteq> 0 \<Longrightarrow> img = None" using g(1) by simp
    obtain a s2 where g2: "(if revision \<noteq> 0 then image_get (get_fresh alloc (px_get env) s1) nm revision True s1 else Some (None, s1)) = Some (a, s2)"
      "good (held a (held img refs)) s2" using get_if_ok [OF assms(1) g(2)] by blast
    show ?thesis
    proof (cases a)
      case None
      then have "good (held img refs) s2" using g2(2) by (simp add: held_def)
      from ask_servers_ok [OF assms(1) this assms(3,4)] show ?thesis
        using g(1) g2(1) Use None unfolding lookup_ok_def loadImageProxy_def by auto
    next
      case (Some b)
      then have "img = None" using g2(1) im by (cases "revision = 0") auto
      then show ?thesis using g g2 Use Some unfolding loadImageProxy_def by (auto simp: held_def)
    qed
  qed
qed

lemma getOrLoad_ok:
  assumes "malloc_ok alloc" "good refs s" "\<forall>penv. proxy = Some penv \<longrightarrow> proxy_env_ok penv" "proxy = None \<longrightarrow> server_env_ok env nm"
  shows "\<exists>r cache' s'. image_getOrLoad alloc proxy env nm revision (cache, s) = Some (r, cache', s') \<and> good (held r refs) s'"
proof -
  obtain r s1 where g: "(if revision \<noteq> 0 then image_get (get_fresh alloc (sv_get env) s) nm revision True s else Some (None, s)) = Some (r, s1)"
    "good (held r refs) s1" using get_if_ok [OF assms(1,2)] by blast
  show ?thesis
  proof (cases "r = None \<and> \<not> bad_name nm")
    case False
    then show ?thesis using g unfolding image_getOrLoad_def by (auto split: option.split)
  next
    case True
    then have g1: "good refs s1" and b: "\<not> bad_name nm" using g(2) by (auto simp: held_def)
    show ?thesis
    proof (cases proxy)
      case None
      then have "server_env_ok env nm" using assms(4) by simp
      from loadImageServer_ok [OF assms(1) g1 this b] show ?thesis
        using g(1) True None unfolding image_getOrLoad_def lookup_ok_def by fastforce
    next
      case (Some penv)
      then have "proxy_env_ok penv" using assms(3) by simp
      from loadImageProxy_ok [OF assms(1) g1 this b] show ?thesis
        using g(1) True Some unfolding image_getOrLoad_def by simp
    qed
  qed
qed

lemma load_files_ok:
  assumes "malloc_ok alloc" "\<forall>p\<in>set ps. path_ok base p \<and> load_env_ok (envs p)"
  shows "good refs s \<Longrightarrow> \<exists>s'. load_files alloc envs base ps s = Some s' \<and> good refs s'"
  using assms(2)
proof (induction ps arbitrary: s)
  case (Cons p ps)
  obtain ret s1 chk where "image_load (load_fresh alloc (envs p) s) base p True s = Some (ret, s1, chk)" "good refs s1"
    using load_fresh_ok [OF assms(1) Cons.prems(1), of "envs p" base p True] Cons.prems(2) by auto
  then show ?case using Cons.IH Cons.prems(2) by simp
qed simp


section \<open>Properties\<close>

text \<open>The name and the revision that \<open>image_load\<close> takes from a path are those that the path was made of: the file
  \<open>base/name.r<rid>\<close> is loaded as revision \<open>rid\<close> of \<open>name\<close>, with slashes and dots in the name, and passes the checks on
  the path.\<close>

theorem image_name_roundtrip:
  assumes "base_ok base" "nm \<noteq> []" "hd nm \<noteq> CHR ''/''" "last nm \<noteq> CHR ''/''" "rid < 2 ^ 31"
  shows "path_ok base (image_path base nm rid)
    \<and> virtual_dir base (image_path base nm rid) @ fst (parse_revision (file_name (image_path base nm rid))) = nm
    \<and> snd (parse_revision (file_name (image_path base nm rid))) = int rid"
  using image_path_parts [of base nm rid] assms by (auto simp: base_ok_def)

theorem image_name_roundtrip_witness:
  "snd (parse_revision (file_name (image_path ''/srv'' ''a/b.r2'' 17))) = 17"
  using image_name_roundtrip [of "''/srv''" "''a/b.r2''" 17] by (simp add: base_ok_def)

text \<open>The allocator of the examples: the addresses behind the last one in use.\<close>

definition sample_alloc :: allocator where
  "sample_alloc s = (let m = Suc (Max (insert 0 (dom (heap s)))) in (m, Suc m))"

lemma sample_alloc_ok: "malloc_ok sample_alloc"
proof -
  have "heap s n = None" if "finite (dom (heap s))" "n > Max (insert 0 (dom (heap s)))" for s :: image_store and n
  proof (rule ccontr)
    assume "heap s n \<noteq> None"
    then have "n \<le> Max (insert 0 (dom (heap s)))" using that(1) by (intro Max_ge) auto
    then show False using that(2) by simp
  qed
  from this [OF _ lessI] this [OF _ less_SucI [OF lessI]] show ?thesis by (simp add: malloc_ok_def sample_alloc_def Let_def)
qed

definition sample_load_env :: load_env where
  "sample_load_env = \<lparr>le_endian = LE, le_legacy = False, le_get = sample_env, le_fd = 7, le_seek = 5000, le_file = \<lambda>_. 0,
     le_map = None, le_crc = None, le_crc_first = False, le_crc_reads = [Crc_read (2 ^ 23)], le_address = 0, le_rands = [],
     le_reads = \<lambda>_. [], le_fresh = 9, le_now = \<lparr>tv_sec = 100, tv_nsec = 0\<rparr>, le_age = 0, le_uplink = None\<rparr>"

definition sample_server :: server_env where
  "sample_server = \<lparr>sv_base = ''/srv'', sv_legacy = False, sv_glob = Some [''/srv/x.r2''], sv_readable = \<lambda>p. p = ''/srv/x.r1'',
     sv_get = sample_env, sv_load = sample_load_env\<rparr>"

lemma sample_server_ok: "server_env_ok sample_server ''x''" "\<not> bad_name ''x''"
  by (auto simp: sample_server_def server_env_ok_def base_ok_def PATHLEN_def load_env_ok_def whole_reads_def sample_load_env_def
      path_ok_def last_slash_def bad_name_def strstr_def dest!: arg_cong [of _ _ length])

text \<open>C10. Looking an image up with everything it may entail - reloading, searching the disk, asking other servers, making room by
  evicting images, cloning and loading - returns without a failed assertion, whatever the files and the servers answer, provided
  that checksum lists are read without short reads and files are smaller than 16 TiB. The reference counts stay exact: the caller holds one
  reference more if an image is returned and none otherwise. Every image stays well-formed: its cache map fits its size.\<close>

theorem image_getOrLoad_safe:
  assumes "malloc_ok alloc" "store_inv refs s" "all_wf s" "\<forall>penv. proxy = Some penv \<longrightarrow> proxy_env_ok penv"
    "proxy = None \<longrightarrow> server_env_ok env nm"
  shows "\<exists>r cache' s'. image_getOrLoad alloc proxy env nm revision (cache, s) = Some (r, cache', s')
    \<and> store_inv (case r of None \<Rightarrow> refs | Some a \<Rightarrow> add_mset a refs) s' \<and> all_wf s'"
  using getOrLoad_ok [where refs = refs and revision = revision and cache = cache, OF assms(1) _ assms(4,5)] assms(2,3)
  by (auto simp: good_def held_def)

theorem image_getOrLoad_safe_witness:
  "\<exists>r cache' s'. image_getOrLoad sample_alloc None sample_server ''x'' 0 ([], empty_store) = Some (r, cache', s')
    \<and> store_inv (case r of None \<Rightarrow> {#} | Some a \<Rightarrow> add_mset a {#}) s' \<and> all_wf s'"
  by (rule image_getOrLoad_safe [OF sample_alloc_ok store_inv_empty])
    (simp_all add: sample_server_ok, simp add: all_wf_def empty_store_def)


lemma lower_loop_unreadable:
  "\<not> sv_readable env f \<Longrightarrow> \<not> sv_readable env (rid_path env nm rid) \<Longrightarrow> 0 < d \<Longrightarrow>
   lower_loop alloc env nm rid d f s = (Some (Inr (f', d')), s') \<Longrightarrow> d' = 0 \<and> f' = rid_path env nm rid"
proof (induction d arbitrary: f s)
  case (Suc d)
  obtain s1 where s1: "lower_loop alloc env nm rid d (rid_path env nm rid) s1 = (Some (Inr (f', d')), s')"
    using Suc.prems by (auto split: option.splits)
  show ?case
  proof (cases d)
    case 0
    then show ?thesis using s1 by simp
  next
    case (Suc k)
    then show ?thesis using Suc.IH [OF Suc.prems(2,2) _ s1] by simp
  qed
qed simp

lemma revision_zero_refused:
  assumes "server_env_ok env nm" "\<not> bad_name nm"
  shows "image_load lenv (sv_base env) (rid_path env nm 0) up s = Some (False, s, False)"
proof -
  have nm: "nm \<noteq> []" "hd nm \<noteq> CHR ''/''" "last nm \<noteq> CHR ''/''" using assms(2) by (auto simp: bad_name_def)
  have p: "rid_path env nm 0 = image_path (sv_base env) nm 0" using rid_path_eq [OF assms(1), of 0] by (simp add: image_path_def)
  have b: "sv_base env \<noteq> []" "sv_base env ! 0 = CHR ''/''" "last (sv_base env) \<noteq> CHR ''/''"
    using assms(1) by (simp_all add: server_env_ok_def base_ok_def)
  note parts = image_path_parts [OF b nm, of 0]
  show ?thesis using parts(1,3) unfolding image_load_def p Let_def by (auto split: prod.splits)
qed

text \<open>The search for a lower revision never loads one: when the highest revision on disk is not readable, the loop keeps testing
  the file name of revision 0, because the name is made with the requested revision, not the detected one. It ends at revision 0 with
  that name, whichever lower revisions are readable, and loading that file is refused.\<close>

theorem lower_revision_never_loaded:
  assumes "server_env_ok env nm" "\<not> bad_name nm" "\<not> sv_readable env f" "\<not> sv_readable env (rid_path env nm 0)" "0 < d"
    "lower_loop alloc env nm 0 d f s = (Some (Inr (f', d')), s')"
  shows "d' = 0 \<and> image_load lenv (sv_base env) f' up s'' = Some (False, s'', False)"
  using lower_loop_unreadable [OF assms(3-6)] revision_zero_refused [OF assms(1,2)] by simp

lemma char_of_48: "char_of (48 :: nat) = CHR ''0''"
  by code_simp

lemma rid_path_sample: "rid_path sample_server ''x'' 0 = ''/srv/x.r0''"
  by (simp add: rid_path_def sample_server_def snprintf_path_def PATHLEN_def dec.simps char_of_48)

theorem lower_revision_never_loaded_witness:
  "sv_readable sample_server ''/srv/x.r1'' \<and> fst (lower_loop sample_alloc sample_server ''x'' 0 2 ''/srv/x.r2'' empty_store) = Some (Inr (''/srv/x.r0'', 0))
   \<and> image_load sample_load_env ''/srv'' ''/srv/x.r0'' False empty_store = Some (False, empty_store, False)"
proof -
  have r: "\<not> sv_readable sample_server ''/srv/x.r2''" "\<not> sv_readable sample_server ''/srv/x.r0''" "sv_readable sample_server ''/srv/x.r1''" "sv_base sample_server = ''/srv''"
    by (simp_all add: sample_server_def)
  have l: "lower_loop sample_alloc sample_server ''x'' 0 2 ''/srv/x.r2'' empty_store = (Some (Inr (''/srv/x.r0'', 0)), empty_store)"
    by (simp add: numeral_2_eq_2 image_get_def empty_store_def rid_path_sample r)
  from lower_revision_never_loaded [OF sample_server_ok r(1) r(2) [folded rid_path_sample] _ l, of sample_load_env False empty_store] show ?thesis
    using l r(3,4) by simp
qed


lemma release_keeps:
  assumes "image_release a s = Some s'" "heap s a \<noteq> None"
  shows "images s' = images s" "Some b \<in> set (images s) \<Longrightarrow> im_name (img_at s' b) = im_name (img_at s b) \<and> im_rid (img_at s' b) = im_rid (img_at s b)"
  using assms by (auto simp: image_release_def Let_def modify_def image_free_def img_at_def split: if_splits option.splits)

text \<open>A server that offers an older revision hides the local image: for a request of the latest revision, when the only server that answers
  has a revision below the local one, nothing is cloned, the local image is released, and the final lookup is for the revision of
  that server. The client gets no image although a newer one is loaded, unless that very revision happens to be loaded too.\<close>

theorem older_remote_hides_local_image:
  assumes "malloc_ok alloc" "store_inv (add_mset a refs) s" "all_wf s" "px_servers env = [Connected c]" "cn_peer c" "cn_select c"
    "cn_reply c = Some (version, nm', remoteRid, sz)" "remoteRid \<noteq> 0" "remoteRid < im_rid (img_at s a)"
    "\<forall>b. Some b \<in> set (images s) \<longrightarrow> im_name (img_at s b) = nm \<longrightarrow> im_rid (img_at s b) \<noteq> remoteRid"
  shows "\<exists>s'. ask_servers alloc env nm 0 (Some a) s = Some (None, s')"
proof -
  have c: "clone_loop alloc env nm 0 (Some a) (px_servers env) 0 s = Some (False, remoteRid, s)"
    using assms(4-8) less_imp_le [OF assms(9)] by (simp add: server_ok_def)
  obtain s' where r: "image_release a s = Some s'" using image_release_inv [OF assms(2), of a] by auto
  have h: "heap s a \<noteq> None" using store_inv_heap [OF assms(2), of a] by simp
  have "find_candidate s' nm remoteRid (images s') None = None"
    using find_candidate_revision [where s = s' and nm = nm and xs = "images s'", OF assms(8)] assms(8,10) release_keeps [OF r h]
    by (auto simp: matches_def split: option.splits)
  then have "image_get (get_fresh alloc (px_get env) s') nm remoteRid False s' = Some (None, s')" by (simp add: image_get_def)
  then show ?thesis unfolding ask_servers_def c option.case prod.case r by simp
qed

definition sample_conn :: "u16 \<Rightarrow> clone_conn" where
  "sample_conn rid = \<lparr>cn_peer = True, cn_select = True, cn_reply = Some (3, Some ''a'', rid, 40960), cn_space = [],
     cn_clone = \<lparr>cl_create = \<lparr>cr_image = True, cr_cache = True, cr_map_alloc = True, cr_map_size = True, cr_alloc = True, cr_size = True\<rparr>,
       cl_crc_readable = False, cl_events = [], cl_crc_open = True, cl_load = sample_load_env\<rparr>\<rparr>"

definition sample_proxy :: "clone_event list \<Rightarrow> proxy_env" where
  "sample_proxy servers = \<lparr>px_base = ''/srv'', px_sparse = True, px_maxReplicationSize = 2 ^ 40, px_uptime = 0,
     px_now = \<lparr>tv_sec = 100, tv_nsec = 0\<rparr>, px_get = sample_env, px_servers = servers, px_uplink = None\<rparr>"

text \<open>Revision 5 is loaded and held, the other server has revision 4.\<close>

definition newer_store :: image_store where
  "newer_store = modify 1 (\<lambda>i. i\<lparr>im_rid := 5\<rparr>) sample_store"

lemma newer_store_eval: "images newer_store = [Some 1]" "img_at newer_store 1 = sample_image\<lparr>im_id := 1, im_rid := 5\<rparr>"
  by (simp_all add: newer_store_def sample_store_eval modify_def img_at_def)

lemma newer_store_ok: "store_inv {#1#} newer_store" "all_wf newer_store"
proof -
  show "store_inv {#1#} newer_store"
    using image_reachable_inv [OF sample_store_reachable] by (simp add: newer_store_def store_inv_modify)
  have "image_wf (sample_image\<lparr>im_id := 1, im_rid := 5\<rparr>)" by (simp add: image_wf_def sample_image_def word_le_nat_alt dvd_def)
  then show "all_wf newer_store" by (auto simp: all_wf_def newer_store_def modify_def sample_store_eval)
qed

theorem older_remote_hides_local_image_witness:
  "find_candidate newer_store ''a'' 0 (images newer_store) None = Some 1
   \<and> (\<exists>s'. ask_servers sample_alloc (sample_proxy [Connected (sample_conn 4)]) ''a'' 0 (Some 1) newer_store = Some (None, s'))"
proof
  show "find_candidate newer_store ''a'' 0 (images newer_store) None = Some 1" by (simp add: newer_store_eval sample_image_def del: One_nat_def)
  show "\<exists>s'. ask_servers sample_alloc (sample_proxy [Connected (sample_conn 4)]) ''a'' 0 (Some 1) newer_store = Some (None, s')"
    by (rule older_remote_hides_local_image [OF sample_alloc_ok, where refs = "{#}" and c = "sample_conn 4" and version = 3 and nm' = "Some ''a''" and remoteRid = 4 and sz = 40960])
      (simp_all add: newer_store_ok sample_proxy_def sample_conn_def newer_store_eval del: One_nat_def)
qed

section \<open>The cache of searches\<close>

lemma cmpname_length: "length (cmpname nm) \<le> NAMELEN - 1"
  by (simp add: cmpname_def NAMELEN_def)

definition hit :: "string \<Rightarrow> u16 \<Rightarrow> imagecache \<Rightarrow> bool" where
  "hit nm rid c \<longleftrightarrow> ic_rid c = rid \<and> ic_name c = nm"

lemma cache_scan_Use:
  "cache_scan now nm rid k cs fb = Use i \<Longrightarrow>
    (\<exists>j<length cs. i = k + j \<and> (\<forall>l<j. \<not> hit nm rid (cs ! l))) \<or> i = fst fb \<and> (\<forall>c\<in>set cs. \<not> hit nm rid c)"
proof (induction cs arbitrary: k fb)
  case (Cons c cs)
  show ?case
  proof (cases "hit nm rid c")
    case True
    then have "i = k" using Cons.prems by (auto simp: hit_def split: if_splits)
    then show ?thesis by (intro disjI1 exI [of _ 0]) simp
  next
    case False
    let ?fb = "if timing_reached (ic_deadline c) (snd fb) then (k, ic_deadline c) else fb"
    have "cache_scan now nm rid (Suc k) cs ?fb = Use i" using Cons.prems False by (simp add: hit_def split: if_splits)
    from Cons.IH [OF this] show ?thesis
    proof (elim disjE exE conjE)
      fix j assume "j < length cs" "i = Suc k + j" "\<forall>l<j. \<not> hit nm rid (cs ! l)"
      then show ?thesis using False by (intro disjI1 exI [of _ "Suc j"]) (auto simp: less_Suc_eq_0_disj)
    next
      assume "i = fst ?fb" "\<forall>c\<in>set cs. \<not> hit nm rid c"
      then show ?thesis using False by (cases "i = k") (auto split: if_splits)
    qed
  qed
qed simp

lemma cache_scan_Recent:
  "j < length cs \<Longrightarrow> hit nm rid (cs ! j) \<Longrightarrow> \<not> timing_reached (ic_deadline (cs ! j)) now \<Longrightarrow> \<forall>l<j. \<not> hit nm rid (cs ! l) \<Longrightarrow>
    cache_scan now nm rid k cs fb = Recent"
proof (induction cs arbitrary: j k fb)
  case (Cons c cs)
  show ?case
  proof (cases j)
    case 0
    then show ?thesis using Cons.prems by (simp add: hit_def)
  next
    case (Suc j')
    then have "\<not> hit nm rid c" "\<forall>l<j'. \<not> hit nm rid (cs ! l)" using Cons.prems(4) by auto
    then show ?thesis using Cons.IH [of j'] Cons.prems Suc by (simp add: hit_def)
  qed
qed simp

text \<open>Other servers are asked for the same image at most once in two minutes: when a request finds no recent entry and takes an entry of the
  cache, every further request for the same name and revision in the next 120 seconds finds that entry and is answered
  locally, also when the name is longer than the cache keeps.\<close>

theorem clone_cache_suppresses_repeat:
  assumes "cache \<noteq> []" "cache_lookup now nm rid cache = Use i" "tv_sec now' < tv_sec now + 120"
  shows "cache_lookup now' nm rid (cache_mark now nm rid i cache) = Recent"
proof -
  have i: "i < length cache" "\<forall>l<i. \<not> hit (cmpname nm) rid (cache ! l)"
    using cache_scan_Use [OF assms(2) [unfolded cache_lookup_def]] assms(1) by auto
  have "take (NAMELEN - 1) (cmpname nm) = cmpname nm" using cmpname_length by simp
  then show ?thesis
    using i assms(3) unfolding cache_lookup_def cache_mark_def
    by (intro cache_scan_Recent [of i]) (simp_all add: hit_def timing_reached_def timing_set_def SERVER_REMOTE_IMAGE_CHECK_CACHETIME_def)
qed

definition sample_cache :: "imagecache list" where
  "sample_cache = replicate CACHELEN \<lparr>ic_name = [], ic_rid = 0, ic_deadline = \<lparr>tv_sec = 0, tv_nsec = 0\<rparr>\<rparr>"

theorem clone_cache_suppresses_repeat_witness:
  "cache_lookup \<lparr>tv_sec = 150, tv_nsec = 0\<rparr> ''a'' 0 (cache_mark \<lparr>tv_sec = 100, tv_nsec = 0\<rparr> ''a'' 0 19 sample_cache) = Recent"
proof (rule clone_cache_suppresses_repeat)
  show "cache_lookup \<lparr>tv_sec = 100, tv_nsec = 0\<rparr> ''a'' 0 sample_cache = Use 19"
    by (simp add: cache_lookup_def sample_cache_def CACHELEN_def cmpname_def NAMELEN_def timing_reached_def numeral_eq_Suc)
qed (simp_all add: sample_cache_def CACHELEN_def)


section \<open>Loading all images\<close>

lemma derived_vanished: "derived n s (vanished_loop readable i s)"
proof (induction i arbitrary: s)
  case (Suc i)
  have d: "derived n s (image_free a (s\<lparr>images := xs\<rparr>))" for a xs by (rule derived_trans [OF derived_images(1) derived_free])
  show ?case by (auto simp: Let_def split: option.split intro: derived_trans [OF _ Suc.IH] Suc.IH d derived_images)
qed (simp add: derived_refl)

lemma removeVanished_ok: "good refs s \<Longrightarrow> good refs (image_removeVanished readable s)"
  using removeVanished_inv(1) all_wf_derived [OF derived_vanished] by (auto simp: good_def image_removeVanished_def)

text \<open>Names as a file system has them: not empty and without a slash, and paths that fit into the buffer.\<close>

fun tree_ok :: "string \<Rightarrow> dir_entry list \<Rightarrow> bool" where
  "tree_ok path [] \<longleftrightarrow> True"
| "tree_ok path (Unreadable n # es) \<longleftrightarrow> tree_ok path es"
| "tree_ok path (File n # es) \<longleftrightarrow> n \<noteq> [] \<and> CHR ''/'' \<notin> set n \<and> length path + length n + 1 < PATHLEN \<and> tree_ok path es"
| "tree_ok path (Dir n ok sub # es) \<longleftrightarrow> n \<noteq> [] \<and> CHR ''/'' \<notin> set n \<and> length path + length n + 1 < PATHLEN
     \<and> tree_ok (path @ ''/'' @ n) sub \<and> tree_ok path es"

definition below :: "string \<Rightarrow> string \<Rightarrow> bool" where
  "below base path \<longleftrightarrow> path = base \<or> (\<exists>nm. path = base @ CHR ''/'' # nm \<and> nm \<noteq> [] \<and> hd nm \<noteq> CHR ''/'' \<and> last nm \<noteq> CHR ''/'')"

lemma below_sub:
  assumes "base_ok base" "below base path" "n \<noteq> []" "CHR ''/'' \<notin> set n" "length path + length n + 1 < PATHLEN"
  shows "sub_path path n = path @ ''/'' @ n" "below base (path @ ''/'' @ n)" "path_ok base (path @ ''/'' @ n)"
proof -
  have ends: "last n \<noteq> CHR ''/''" "hd n \<noteq> CHR ''/''" using assms(3,4) last_in_set hd_in_set by metis+
  have "last path \<noteq> CHR ''/''" using assms(1,2) by (auto simp: below_def base_ok_def)
  then show s: "sub_path path n = path @ ''/'' @ n" using assms(5) ends by (simp add: sub_path_def snprintf_path_def)
  have "\<exists>nm. path @ ''/'' @ n = base @ CHR ''/'' # nm \<and> nm \<noteq> [] \<and> hd nm \<noteq> CHR ''/'' \<and> last nm \<noteq> CHR ''/''"
    using assms(2) ends assms(3) unfolding below_def by auto
  then show "below base (path @ ''/'' @ n)" "path_ok base (path @ ''/'' @ n)"
    using path_ok_name [OF assms(1)] unfolding below_def by metis+
qed

lemma scan_files_ok:
  assumes "base_ok base"
  shows "tree_ok path es \<Longrightarrow> below base path \<Longrightarrow> \<forall>p\<in>set (scan_files path es). path_ok base p"
proof (induction path es rule: scan_files.induct)
  case (3 path n es)
  then show ?case using below_sub [OF assms, of path n] by auto
next
  case (4 path n ok sub es)
  note b = below_sub [OF assms 4(5), of n]
  have "\<forall>p\<in>set (scan_files path es). path_ok base p" using 4 by (cases "skip_entry n \<or> \<not> ok") auto
  moreover have "\<forall>p\<in>set (scan_files (sub_path path n) sub). path_ok base p" if "\<not> (skip_entry n \<or> \<not> ok)"
    using 4(2) [OF that] 4(4) b by auto
  ultimately show ?case by auto
qed simp_all

text \<open>Loading all images of a directory tree, with the removal of vanished images before, runs without a failed assertion, whatever
  the files contain; the reference counts stay exact, no caller gains or loses a reference, and every image is well-formed. This rests on
  names as a file system has them and paths below 2000 characters.\<close>

theorem image_loadAll_safe:
  assumes "malloc_ok alloc" "store_inv refs s" "all_wf s" "base_ok base" "\<And>es. dir = Some es \<Longrightarrow> tree_ok base es" "\<And>p. load_env_ok (envs p)"
  shows "\<exists>ret s'. image_loadAll alloc envs busy removeMissing readable base dir s = Some (ret, s') \<and> store_inv refs s' \<and> all_wf s'"
proof (cases "busy \<or> dir = None")
  case True
  then show ?thesis using assms(2,3) removeVanished_ok [of refs s readable] by (auto simp: image_loadAll_def good_def Let_def split: option.split)
next
  case False
  then obtain es where es: "dir = Some es" by auto
  let ?s = "if removeMissing then image_removeVanished readable s else s"
  have g: "good refs ?s" using assms(2,3) removeVanished_ok [of refs s readable] by (simp add: good_def)
  have "\<forall>p\<in>set (scan_files base es). path_ok base p \<and> load_env_ok (envs p)"
    using scan_files_ok [OF assms(4) assms(5) [OF es]] assms(6) by (simp add: below_def)
  from load_files_ok [OF assms(1) this g] show ?thesis
    using False es by (auto simp: image_loadAll_def good_def)
qed

theorem image_loadAll_safe_witness:
  "\<exists>ret s'. image_loadAll sample_alloc (\<lambda>_. sample_load_env) False True (\<lambda>_. True) ''/srv'' (Some [Dir ''d'' True [File ''x.r1'']]) empty_store = Some (ret, s')
    \<and> store_inv {#} s' \<and> all_wf s'"
  by (rule image_loadAll_safe [OF sample_alloc_ok store_inv_empty])
    (auto simp: all_wf_def empty_store_def base_ok_def PATHLEN_def load_env_ok_def sample_load_env_def whole_reads_def)

end
