(* ===== verification/Client_Session.thy ===== *)
theory Client_Session
  imports Net_Server Image_Load
begin

text \<open>
  The life of a client connection as far as the list of images is concerned: \<open>net_handleNewConnection\<close> of
  \<open>src/server/net.c\<close> gets a reference to an image in the handshake, from \<open>image_get\<close> or \<open>image_getOrLoad\<close> of
  \<open>src/server/image.c\<close>, and gives it back in \<open>freeClientStruct\<close>. The locale states what the connection relies on;
  it is interpreted on both lookups.
\<close>

section \<open>What a connection relies on\<close>

text \<open>A lookup returns and hands out a reference exactly when it returns an image; a reference can be given back. \<open>inv\<close> is the invariant of
  the state for the references that are handed out, \<open>valid\<close> the names that may be looked up.\<close>

locale image_source =
  fixes inv :: "nat multiset \<Rightarrow> 's \<Rightarrow> bool"
    and valid :: "string \<Rightarrow> bool"
    and lookup :: "string \<Rightarrow> u16 \<Rightarrow> 's \<Rightarrow> (nat option \<times> 's) option"
    and release :: "nat \<Rightarrow> 's \<Rightarrow> 's option"
  assumes lookup_inv: "inv refs s \<Longrightarrow> valid nm \<Longrightarrow> \<exists>r s'. lookup nm rid s = Some (r, s') \<and> inv (held r refs) s'"
    and release_inv: "inv (add_mset a refs) s \<Longrightarrow> \<exists>s'. release a s = Some s' \<and> inv refs s'"
begin

text \<open>A lookup whose result is given back at once.\<close>

definition probe :: "string \<Rightarrow> u16 \<Rightarrow> 's \<Rightarrow> 's option" where
  "probe nm rid s = Option.bind (lookup nm rid s) (\<lambda>(r, s). case r of None \<Rightarrow> Some s | Some a \<Rightarrow> release a s)"

lemma give_back: "inv (held r refs) s \<Longrightarrow> \<exists>s'. (case r of None \<Rightarrow> Some s | Some a \<Rightarrow> release a s) = Some s' \<and> inv refs s'"
  using release_inv by (cases r) (simp_all add: held_def)

lemma probe_inv: "inv refs s \<Longrightarrow> valid nm \<Longrightarrow> \<exists>s'. probe nm rid s = Some s' \<and> inv refs s'"
  using lookup_inv [of refs s nm rid] give_back by (force simp: probe_def)

lemma probes_inv: "inv refs s \<Longrightarrow> list_all (\<lambda>(nm, rid). valid nm) qs \<Longrightarrow>
    \<exists>s'. foldl (\<lambda>s (nm, rid). Option.bind s (probe nm rid)) (Some s) qs = Some s' \<and> inv refs s'"
proof (induction qs arbitrary: s)
  case (Cons q qs)
  obtain nm rid where q: "q = (nm, rid)" by (cases q)
  then obtain s' where "probe nm rid s = Some s'" "inv refs s'" using probe_inv [OF Cons.prems(1)] Cons.prems(2) by auto
  then show ?case using Cons.IH Cons.prems(2) q by simp
qed simp

end

text \<open>Lookups among the loaded images, and with loading and cloning.\<close>

definition local_inv :: "allocator \<Rightarrow> nat multiset \<Rightarrow> image_store \<Rightarrow> bool" where
  "local_inv alloc refs s \<longleftrightarrow> malloc_ok alloc \<and> good refs s"

interpretation local_images: image_source "local_inv alloc" "\<lambda>_. True"
    "\<lambda>nm rid s. image_get (get_fresh alloc env s) nm rid chk s" image_release
  for alloc env chk
proof unfold_locales
  fix refs s nm rid
  assume "local_inv alloc refs s"
  then show "\<exists>r s'. image_get (get_fresh alloc env s) nm rid chk s = Some (r, s') \<and> local_inv alloc (held r refs) s'"
    using get_ok [of alloc refs s env nm rid chk] by (auto simp: local_inv_def lookup_ok_def)
next
  fix a refs s
  assume "local_inv alloc (add_mset a refs) s"
  then show "\<exists>s'. image_release a s = Some s' \<and> local_inv alloc refs s'"
    using release_ok [of a refs s] by (auto simp: local_inv_def good_def)
qed

definition world_ok :: "proxy_env option \<Rightarrow> server_env \<Rightarrow> bool" where
  "world_ok proxy env \<longleftrightarrow> (case proxy of Some penv \<Rightarrow> proxy_env_ok penv | None \<Rightarrow> server_env_ok env (replicate (MAX_PAYLOAD + 1) CHR ''a''))"

lemma world_ok_names: "world_ok proxy env \<Longrightarrow> length nm \<le> MAX_PAYLOAD + 1 \<Longrightarrow>
    (\<forall>penv. proxy = Some penv \<longrightarrow> proxy_env_ok penv) \<and> (proxy = None \<longrightarrow> server_env_ok env nm)"
  by (auto simp: world_ok_def server_env_ok_def split: option.splits)

definition load_inv :: "allocator \<Rightarrow> proxy_env option \<Rightarrow> server_env \<Rightarrow> nat multiset \<Rightarrow> imagecache list \<times> image_store \<Rightarrow> bool" where
  "load_inv alloc proxy env refs st \<longleftrightarrow> malloc_ok alloc \<and> world_ok proxy env \<and> good refs (snd st)"

definition release_in :: "nat \<Rightarrow> imagecache list \<times> image_store \<Rightarrow> (imagecache list \<times> image_store) option" where
  "release_in a st = map_option (Pair (fst st)) (image_release a (snd st))"

interpretation all_images: image_source "load_inv alloc proxy env" "\<lambda>nm. length nm \<le> MAX_PAYLOAD + 1"
    "\<lambda>nm rid st. image_getOrLoad alloc proxy env nm rid st" release_in
  for alloc proxy env
proof unfold_locales
  fix refs st rid and nm :: string
  assume a: "load_inv alloc proxy env refs st" and l: "length nm \<le> MAX_PAYLOAD + 1"
  obtain cache s where st: "st = (cache, s)" by (cases st)
  have w: "world_ok proxy env" "malloc_ok alloc" "good refs s" using a st by (simp_all add: load_inv_def)
  show "\<exists>r st'. image_getOrLoad alloc proxy env nm rid st = Some (r, st') \<and> load_inv alloc proxy env (held r refs) st'"
    using getOrLoad_ok [where nm = nm and revision = rid and cache = cache, OF w(2,3)] world_ok_names [OF w(1) l] w st
    by (fastforce simp: load_inv_def)
next
  fix a refs st
  assume "load_inv alloc proxy env (add_mset a refs) st"
  then show "\<exists>st'. release_in a st = Some st' \<and> load_inv alloc proxy env refs st'"
    using release_ok [of a refs "snd st"] by (auto simp: load_inv_def good_def release_in_def)
qed

section \<open>The handshake\<close>

text \<open>The lookup of \<open>handshake\<close>, on the store alone.\<close>

definition getOrLoad_store :: "allocator \<Rightarrow> proxy_env option \<Rightarrow> server_env \<Rightarrow> imagecache list \<Rightarrow> string \<Rightarrow> u16 \<Rightarrow> image_store \<Rightarrow>
    (nat option \<times> image_store) option" where
  "getOrLoad_store alloc proxy env cache nm rid s =
    map_option (\<lambda>(r, st). (r, snd st)) (image_getOrLoad alloc proxy env nm rid (cache, s))"

lemma getOrLoad_store_ok:
  assumes "malloc_ok alloc" "world_ok proxy env" "good refs s" "length nm \<le> MAX_PAYLOAD + 1"
  shows "lookup_ok refs (getOrLoad_store alloc proxy env cache nm rid s)"
proof -
  have "load_inv alloc proxy env refs (cache, s)" using assms by (simp add: load_inv_def)
  from all_images.lookup_inv [OF this assms(4), of rid] show ?thesis
    by (auto simp: lookup_ok_def getOrLoad_store_def load_inv_def)
qed

lemma parse_handshake_wf:
  assumes "sbuf_wf b" "parse_handshake e b = (v, nm, rid, fl, b')"
  shows "sbuf_wf b'"
proof -
  have "b' = snd (serializer_get_uint8 (snd (serializer_get_uint16 e (snd (serializer_get_string (snd (serializer_get_uint16 e b)))))))"
    using assms(2) by (auto simp: parse_handshake_def Let_def split: prod.splits)
  then show ?thesis using assms(1) by (simp add: sbuf_wf_preserved)
qed

lemma string_at_length: "sbuf_wf b \<Longrightarrow> length (string_at b i) \<le> MAX_PAYLOAD + 1"
proof -
  assume "sbuf_wf b"
  then have "length (drop i (buffer b) @ [after_buffer b]) \<le> MAX_PAYLOAD + 1" by (simp add: sbuf_wf_def)
  then show ?thesis using length_takeWhile_le order_trans unfolding string_at_def c_str_def by blast
qed

lemma handshake_image_ok:
  assumes "lookup_ok refs (getOrLoad nm rid s)" "malloc_ok alloc" "good refs s"
  shows "lookup_ok refs (handshake_image getOrLoad (get_fresh alloc genv s) how nm rid s)"
proof (cases how)
  case Lookup_complete
  obtain r s' where g: "image_get (get_fresh alloc genv s) nm rid True s = Some (r, s')" "good (held r refs) s'"
    using get_ok [OF assms(2,3)] unfolding lookup_ok_def by blast
  show ?thesis
  proof (cases r)
    case None
    then show ?thesis using g Lookup_complete by (simp add: handshake_image_def lookup_ok_def)
  next
    case (Some a)
    then have "store_inv (add_mset a refs) s'" "all_wf s'" using g(2) by (simp_all add: good_def held_def)
    from release_ok [OF this] show ?thesis
      using g Some Lookup_complete by (auto simp: handshake_image_def lookup_ok_def good_def held_def)
  qed
qed (use assms get_ok [OF assms(2,3)] in \<open>simp_all add: handshake_image_def\<close>)

lemma good_touch: "good refs s \<Longrightarrow> good refs (modify a (\<lambda>img. img\<lparr>im_atime := t\<rparr>) s)"
  using all_wf_derived [OF derived_modify] by (simp add: good_def store_inv_modify core_def)

lemma handshake_ok:
  assumes "malloc_ok alloc" "world_ok proxy env" "good refs s" "\<And>b. payload = Some b \<Longrightarrow> sbuf_wf b"
  shows "\<exists>r s'. handshake e (getOrLoad_store alloc proxy env cache) (henv\<lparr>he_get := get_fresh alloc genv s\<rparr>) request payload s = Some (r, s')
    \<and> good (held (hr_image r) refs) s'"
proof (cases payload)
  case None
  then show ?thesis using assms(3) by (simp add: handshake_def rejected_def held_def)
next
  case (Some b0)
  let ?henv = "henv\<lparr>he_get := get_fresh alloc genv s\<rparr>"
  obtain v nm rid fl b where p: "parse_handshake e b0 = (v, nm, rid, fl, b)" by (metis prod_cases5)
  define how n where "how = handshake_lookup (he_isProxy henv) (he_backgroundReplication henv) (he_lookupMissing henv) (fl AND FLAGS8_SERVER \<noteq> 0) fl"
    and "n = name_of_bytes (string_at b (the nm))"
  have "sbuf_wf b" using parse_handshake_wf [OF assms(4) [OF Some] p] .
  then have len: "length n \<le> MAX_PAYLOAD + 1" using string_at_length by (simp add: n_def name_of_bytes_def)
  obtain r s1 where l: "handshake_image (getOrLoad_store alloc proxy env cache) (get_fresh alloc genv s) how n rid s = Some (r, s1)"
    "good (held r refs) s1"
    using handshake_image_ok [where getOrLoad = "getOrLoad_store alloc proxy env cache", OF getOrLoad_store_ok [OF assms(1-3) len] assms(1,3)]
    unfolding lookup_ok_def by blast
  show ?thesis
  proof (cases "rq_size request < 3 \<or> nm = None \<or> v < MIN_SUPPORTED_CLIENT")
    case True
    then show ?thesis using Some p assms(3) unfolding handshake_def by (auto simp: Let_def rejected_def held_def)
  next
    case False
    note eq = handshake_def [of e "getOrLoad_store alloc proxy env cache" ?henv request payload s, unfolded Some option.case p prod.case Let_def]
    have l': "handshake_image (getOrLoad_store alloc proxy env cache) (he_get ?henv)
        (handshake_lookup (he_isProxy ?henv) (he_backgroundReplication ?henv) (he_lookupMissing ?henv) (fl AND FLAGS8_SERVER \<noteq> 0) fl)
        (name_of_bytes (string_at b (the nm))) rid s = Some (r, s1)"
      using l(1) by (simp add: how_def n_def)
    show ?thesis
    proof (cases r)
      case None
      then show ?thesis using eq False l l' Some by (simp add: rejected_def held_def)
    next
      case (Some a)
      have "good (held (Some a) refs) (modify a (\<lambda>img. img\<lparr>im_atime := t\<rparr>) s1)" for t using good_touch l(2) Some by simp
      then show ?thesis
        using eq False l l' Some \<open>payload = Some b0\<close>
        by (auto simp: rejected_def handshake_answer_to_def Let_def split: prod.splits)
    qed
  qed
qed

text \<open>C9. A connection takes at most one reference to an image and gives it back: whatever a client sends as its handshake, whichever image it asks for and
  whatever loading or cloning this entails, the handshake runs without a failed assertion and leaves the connection with exactly one reference to the
  image of the connection, or none if it has no image; and closing the connection later, in any state in which the counts are exact, returns
  this reference without a failed assertion. As for C10, checksum lists are read without short reads and files are smaller than 16 TiB.\<close>

theorem client_session_balanced:
  assumes "malloc_ok alloc" "world_ok proxy env" "store_inv refs s" "all_wf s" "\<And>b. payload = Some b \<Longrightarrow> sbuf_wf b"
  shows "\<exists>r s'. handshake e (getOrLoad_store alloc proxy env cache) (henv\<lparr>he_get := get_fresh alloc genv s\<rparr>) request payload s = Some (r, s')
    \<and> store_inv (case hr_image r of None \<Rightarrow> refs | Some a \<Rightarrow> add_mset a refs) s' \<and> all_wf s'
    \<and> (\<forall>refs' s2. store_inv (case hr_image r of None \<Rightarrow> refs' | Some a \<Rightarrow> add_mset a refs') s2 \<and> all_wf s2 \<longrightarrow>
        (\<exists>link' s3. freeClientStruct client (hr_image r) link s2 = Some (link', s3) \<and> store_inv refs' s3 \<and> all_wf s3))"
proof -
  have "good refs s" using assms(3,4) by (simp add: good_def)
  from handshake_ok [OF assms(1,2) this assms(5)] obtain r s'
    where h: "handshake e (getOrLoad_store alloc proxy env cache) (henv\<lparr>he_get := get_fresh alloc genv s\<rparr>) request payload s = Some (r, s')"
      "good (held (hr_image r) refs) s'" by blast
  have "\<exists>link' s3. freeClientStruct client (hr_image r) link s2 = Some (link', s3) \<and> store_inv refs' s3 \<and> all_wf s3"
    if "store_inv (case hr_image r of None \<Rightarrow> refs' | Some a \<Rightarrow> add_mset a refs') s2" "all_wf s2" for refs' s2
  proof (cases "hr_image r")
    case (Some a)
    then show ?thesis using release_ok [of a refs' s2 0] that by (auto simp: freeClientStruct_def)
  qed (use that in \<open>simp add: freeClientStruct_def\<close>)
  then show ?thesis using h by (auto simp: good_def held_def)
qed

definition sample_handshake :: handshake_env where
  "sample_handshake = \<lparr>he_isProxy = False, he_backgroundReplication = BGR_FULL, he_lookupMissing = True, he_lucky = True, he_get = sample_env,
     he_links = \<lambda>_. None, he_send1 = [], he_send2 = []\<rparr>"

text \<open>Version 2, the name x, revision 0, no flags.\<close>

definition sample_payload :: serialized_buffer where
  "sample_payload = \<lparr>buffer = [2, 0, 0x78] @ replicate (MAX_PAYLOAD - 3) 0, after_buffer = 0, buffer_end = 7, buffer_pointer = 0\<rparr>"

lemma sample_payload_wf: "sbuf_wf sample_payload"
  by (simp add: sbuf_wf_def sample_payload_def MAX_PAYLOAD_def)

lemma sample_world_ok: "world_ok None sample_server"
  using sample_server_ok(1) by (simp add: world_ok_def server_env_ok_def sample_server_def MAX_PAYLOAD_def PATHLEN_def)

theorem client_session_balanced_witness:
  "\<exists>r s'. handshake LE (getOrLoad_store sample_alloc None sample_server []) (sample_handshake\<lparr>he_get := get_fresh sample_alloc sample_env empty_store\<rparr>)
      (block_request_at 0 7) (Some sample_payload) empty_store = Some (r, s')
    \<and> store_inv (case hr_image r of None \<Rightarrow> {#} | Some a \<Rightarrow> add_mset a {#}) s' \<and> all_wf s'"
proof -
  have "all_wf empty_store" by (simp add: all_wf_def empty_store_def)
  from client_session_balanced [OF sample_alloc_ok sample_world_ok store_inv_empty this, where payload = "Some sample_payload" and e = LE and cache = "[]"
      and henv = sample_handshake and genv = sample_env and request = "block_request_at 0 7"] show ?thesis using sample_payload_wf by blast
qed

end
