(* ===== verification/Integrity.thy ===== *)
theory Integrity
  imports Image_Load
begin

text \<open>
  The integrity checker, from \<open>src/server/integrity.c\<close>: the queue of hash blocks to check (\<open>integrity_check\<close>) and the thread that
  works on it (\<open>integrity_main\<close>), on the store of images. An entry is checked in slices of at most five blocks; while a
  slice is read the queue is unlocked, and other threads may add to it. What the file system answers, and what other threads add, is an
  argument. \<open>None\<close> is a failed assertion, a read outside of the checksum list, or the exit after a failed flush.
\<close>

section \<open>The queue\<close>

definition CHECK_QUEUE_SIZE :: nat where "CHECK_QUEUE_SIZE = 200"
definition CHECK_ALL :: int where "CHECK_ALL = 0x7fffffff"

record queue_entry =
  qe_image :: "nat option"
  qe_block :: int
  qe_count :: int

text \<open>The sum of two values of type \<open>int\<close>, with wrap-around.\<close>

definition add_int :: "int \<Rightarrow> int \<Rightarrow> int" where
  "add_int x y = sint (word_of_int (x + y) :: u32)"

text \<open>The search through the queue: an entry that covers the block or ends right in front of it (\<open>Inl\<close>), or the first free slot.\<close>

fun check_scan :: "nat \<Rightarrow> int \<Rightarrow> nat \<Rightarrow> queue_entry list \<Rightarrow> nat option \<Rightarrow> nat + nat option" where
  "check_scan img block i [] free = Inr free"
| "check_scan img block i (c # cs) free =
    (if free = None \<and> qe_image c = None then check_scan img block (Suc i) cs (Some i)
     else if qe_image c = Some img \<and> qe_block c \<le> block \<and> add_int (qe_block c) (qe_count c) \<ge> block then Inl i
     else check_scan img block (Suc i) cs free)"

definition new_check :: "nat \<Rightarrow> int \<Rightarrow> queue_entry" where
  "new_check img block =
    (if block = - 1 then \<lparr>qe_image = Some img, qe_block = 0, qe_count = CHECK_ALL\<rparr>
     else \<lparr>qe_image = Some img, qe_block = block, qe_count = 1\<rparr>)"

definition integrity_check :: "bool \<Rightarrow> nat \<Rightarrow> int \<Rightarrow> queue_entry list \<Rightarrow> queue_entry list" where
  "integrity_check bRunning img block q =
    (if \<not> bRunning then q
     else case check_scan img block 0 q None of
       Inl i \<Rightarrow> (if add_int (qe_block (q ! i)) (qe_count (q ! i)) = block
                 then q[i := (q ! i)\<lparr>qe_count := add_int (qe_count (q ! i)) 1\<rparr>] else q)
     | Inr (Some i) \<Rightarrow> q[i := new_check img block]
     | Inr None \<Rightarrow> if length q \<ge> CHECK_QUEUE_SIZE then q else q @ [new_check img block])"

text \<open>An entry is taken out of the queue.\<close>

definition drop_entry :: "nat \<Rightarrow> queue_entry list \<Rightarrow> queue_entry list" where
  "drop_entry i q = (let q = q[i := (q ! i)\<lparr>qe_image := None\<rparr>] in if i + 1 = length q then butlast q else q)"

section \<open>The thread\<close>

text \<open>What happens during one visit of an entry: whether direct access works, the results of \<open>open\<close> and \<open>lseek\<close> in \<open>image_ensureOpen\<close> (before
  the loop and for each block), whether the data can be flushed, what the reads deliver, whether the server shuts down, what
  other threads put into the queue, and the state of the uplink.\<close>

record check_env =
  ck_endian :: endian
  ck_address :: nat
  ck_file :: "nat \<Rightarrow> u8"
  ck_direct :: bool
  ck_open :: "int \<times> int"
  ck_reopen :: "nat \<Rightarrow> int \<times> int"
  ck_sync :: "nat \<Rightarrow> bool"
  ck_reads :: "nat \<Rightarrow> nat list"
  ck_shutdown :: "nat \<Rightarrow> bool"
  ck_others :: "nat \<Rightarrow> (nat \<times> int) list"
  ck_link_fd :: int
  ck_link_shutdown :: bool
  ck_uplink :: "nat option"

definition hash_block_start :: "nat \<Rightarrow> u64" where
  "hash_block_start b = word_of_nat b * HASH_BLOCK_SIZE"

definition hash_block_end :: "dnbd3_image \<Rightarrow> nat \<Rightarrow> u64" where
  "hash_block_end img b = min ((word_of_nat b + 1) * HASH_BLOCK_SIZE) (virtualFilesize img)"

text \<open>A block whose checksum is wrong: it is taken out of the cache map, and a full check is queued unless this is one.\<close>

definition mark_corrupt :: "int \<Rightarrow> nat \<Rightarrow> nat \<Rightarrow> queue_entry list \<Rightarrow> image_store \<Rightarrow> (queue_entry list \<times> image_store) option" where
  "mark_corrupt qCount a b q s =
    (case image_updateCachemap (img_at s a) (hash_block_start b) (hash_block_end (img_at s a) b) False of
       None \<Rightarrow> None
     | Some (img, checks) \<Rightarrow> Some (if qCount \<noteq> CHECK_ALL then integrity_check True a (- 1) q else q, modify a (\<lambda>_. img) s))"

text \<open>The loop over the blocks of a slice; \<open>k\<close> is the number of blocks up to the end of the image. The result is the next block, the
  counter, whether a block was corrupt, the queue and the store.\<close>

fun slice_loop :: "check_env \<Rightarrow> int \<Rightarrow> u32 list \<Rightarrow> u64 \<Rightarrow> nat \<Rightarrow> nat \<Rightarrow> nat \<Rightarrow> int \<Rightarrow> bool \<Rightarrow> queue_entry list \<Rightarrow> image_store \<Rightarrow>
    (nat \<times> int \<times> bool \<times> queue_entry list \<times> image_store) option" where
  "slice_loop env qCount crcs fileSize a 0 b checkCount found q s = Some (b, checkCount, found, q, s)"
| "slice_loop env qCount crcs fileSize a (Suc k) b checkCount found q s =
    (if ck_shutdown env b then Some (b, checkCount, found, q, s)
     else case (if qCount = CHECK_ALL then image_isHashBlockComplete (cache_map (img_at s a)) (word_of_nat b) fileSize else Some True) of
       None \<Rightarrow> None
     | Some complete \<Rightarrow>
        if \<not> ck_sync env b then None
        else
          let (opened, img) = (if ck_direct env \<and> hash_block_end (img_at s a) b mod DNBD3_BLOCK_SIZE = 0 then (True, img_at s a)
                               else image_ensureOpen (fst (ck_reopen env b)) (snd (ck_reopen env b)) (img_at s a));
              s = modify a (\<lambda>_. img) s
          in if \<not> opened then Some (b, checkCount, found, q, s)
             else (case (if complete then image_checkBlocksCrc32 (ck_endian env) (ck_address env) (ck_file env) crcs fileSize [(b, ck_reads env b)]
                         else Some True) of
                     None \<Rightarrow> None
                   | Some ok \<Rightarrow>
                      (case (if ok then Some (q, s) else mark_corrupt qCount a b q s) of
                         None \<Rightarrow> None
                       | Some (q, s) \<Rightarrow>
                          let q = foldl (\<lambda>q (img, block). integrity_check True img block q) q (ck_others env b);
                              found = (found \<or> \<not> ok)
                          in if complete \<and> checkCount - 1 = 0 then Some (b + 1, 0, found, q, s)
                             else slice_loop env qCount crcs fileSize a k (b + 1) (if complete then checkCount - 1 else checkCount) found q s)))"

text \<open>The end of a slice, with the queue locked again.\<close>

definition finish_slice :: "check_env \<Rightarrow> nat \<Rightarrow> nat \<Rightarrow> int \<Rightarrow> bool \<Rightarrow> nat \<Rightarrow> int \<Rightarrow> bool \<Rightarrow> queue_entry list \<Rightarrow> image_store \<Rightarrow>
    (queue_entry list \<times> image_store) option" where
  "finish_slice env i a qCount fd_ok b checkCount found q s =
    (if qe_image (q ! i) \<noteq> Some a then None
     else
       let q = (if qCount \<noteq> CHECK_ALL then q[i := (q ! i)\<lparr>qe_count := qe_count (q ! i) - (int b - qe_block (q ! i))\<rparr>] else q)
       in if checkCount > 0 \<or> qe_count (q ! i) \<le> 0 \<or> \<not> fd_ok
          then Some (drop_entry i q,
            if \<not> found then modify a (\<lambda>img. if im_uplink img \<noteq> None
                                          then img\<lparr>im_working := (ck_link_fd env \<noteq> - 1 \<and> readFd img \<noteq> - 1)\<rparr> else img) s
            else s)
          else Some (q[i := (q ! i)\<lparr>qe_block := int b\<rparr>], s))"

text \<open>A slice of entry \<open>i\<close> on image \<open>a\<close>: whether a corrupt block was found, the queue and the store.\<close>

definition check_slice :: "check_env \<Rightarrow> nat \<Rightarrow> nat \<Rightarrow> u32 list \<Rightarrow> queue_entry list \<Rightarrow> image_store \<Rightarrow>
    (bool \<times> queue_entry list \<times> image_store) option" where
  "check_slice env i a crcs q s =
    (let fileSize = realFilesize (img_at s a);
         numHashBlocks = nat (IMGSIZE_TO_HASHBLOCKS fileSize);
         qCount = qe_count (q ! i);
         b = nat (qe_block (q ! i))
     in if length crcs < numHashBlocks then None
        else
          let img = (if ck_direct env then img_at s a else snd (image_ensureOpen (fst (ck_open env)) (snd (ck_open env)) (img_at s a)));
              fd_ok = (ck_direct env \<or> readFd img \<noteq> - 1);
              s = modify a (\<lambda>_. img) s
          in (case (if fd_ok then slice_loop env qCount (take numHashBlocks crcs) fileSize a (numHashBlocks - b) b (min qCount 5) False q s
                    else Some (b, min qCount 5, False, q, s)) of
                None \<Rightarrow> None
              | Some (b, checkCount, found, q, s) \<Rightarrow>
                  map_option (\<lambda>(q, s). (found, q, s)) (finish_slice env i a qCount fd_ok b checkCount found q s)))"

text \<open>After a corrupt block: the image is out of service until its uplink delivers, and an uplink is started if there is none.\<close>

definition after_corruption :: "check_env \<Rightarrow> dnbd3_image \<Rightarrow> dnbd3_image" where
  "after_corruption env img =
    (let img = img\<lparr>im_working := False\<rparr>
     in if im_uplink img = None \<or> ck_link_shutdown env then img\<lparr>im_uplink := ck_uplink env\<rparr> else img)"

text \<open>One visit of entry \<open>i\<close>.\<close>

definition check_entry :: "check_env \<Rightarrow> nat \<Rightarrow> queue_entry list \<times> image_store \<Rightarrow> (queue_entry list \<times> image_store) option" where
  "check_entry env i st = (case st of (q, s) \<Rightarrow>
    (case (case qe_image (q ! i) of None \<Rightarrow> (None, s) | Some a \<Rightarrow> image_lock a s) of
       (None, s) \<Rightarrow> Some (drop_entry i q, s)
     | (Some a, s) \<Rightarrow>
        if qe_count (q ! i) = 0 then map_option (\<lambda>s. (drop_entry i q, s)) (image_release a s)
        else
          (case (case im_crc32 (img_at s a) of
                   None \<Rightarrow> Some (False, q, s)
                 | Some crcs \<Rightarrow> if realFilesize (img_at s a) = 0 then Some (False, q, s) else check_slice env i a crcs q s) of
             None \<Rightarrow> None
           | Some (found, q, s) \<Rightarrow>
              let s = (if found then modify a (after_corruption env) s else s)
              in map_option (\<lambda>s. (q, s)) (image_release a s))))"

text \<open>The loop over the queue from its end.\<close>

fun check_pass :: "(nat \<Rightarrow> check_env) \<Rightarrow> nat \<Rightarrow> queue_entry list \<times> image_store \<Rightarrow> (queue_entry list \<times> image_store) option" where
  "check_pass envs 0 st = Some st"
| "check_pass envs (Suc i) st = Option.bind (check_entry (envs i) i st) (check_pass envs i)"


section \<open>The queue covers what was asked for\<close>

text \<open>Hash blocks of an image have numbers below 2097152, since an image is smaller than 32 TiB.\<close>

definition entry_ok :: "queue_entry \<Rightarrow> bool" where
  "entry_ok c \<longleftrightarrow> (qe_image c \<noteq> None \<longrightarrow> 0 \<le> qe_block c \<and> qe_block c \<le> 2097152 \<and> 0 \<le> qe_count c
     \<and> (qe_count c = CHECK_ALL \<or> qe_block c + qe_count c \<le> 2097152))"

definition check_queue_wf :: "queue_entry list \<Rightarrow> bool" where
  "check_queue_wf q \<longleftrightarrow> length q \<le> CHECK_QUEUE_SIZE \<and> (\<forall>c\<in>set q. entry_ok c)"

text \<open>A check of a block is pending.\<close>

definition pending_check :: "nat \<Rightarrow> int \<Rightarrow> queue_entry list \<Rightarrow> bool" where
  "pending_check img block q \<longleftrightarrow> (\<exists>c\<in>set q. qe_image c = Some img \<and> qe_block c \<le> block \<and> block < qe_block c + qe_count c)"

lemma add_int_eq: "add_int x y = (x + y + 2147483648) mod 4294967296 - 2147483648"
  unfolding add_int_def sint_sbintrunc' by (simp add: signed_take_bit_eq_take_bit_shift take_bit_eq_mod)

lemma add_int_small: "- 2147483648 \<le> x + y \<Longrightarrow> x + y \<le> 2147483647 \<Longrightarrow> add_int x y = x + y"
  by (simp add: add_int_eq)

lemma add_int_all:
  assumes "0 \<le> x" "x \<le> 2097152"
  shows "add_int x CHECK_ALL = (if x = 0 then CHECK_ALL else x + CHECK_ALL - 4294967296)"
proof (cases "x = 0")
  case False
  have "(x + CHECK_ALL + 2147483648) mod 4294967296 = (x + CHECK_ALL + 2147483648 - 4294967296) mod 4294967296"
    by (rule minus_mod_self2 [symmetric])
  also have "\<dots> = x + CHECK_ALL + 2147483648 - 4294967296" using False assms by (intro mod_pos_pos_trivial) (simp_all add: CHECK_ALL_def)
  finally show ?thesis using False by (simp add: add_int_eq)
qed (simp add: add_int_small CHECK_ALL_def)

lemma entry_sum:
  assumes "entry_ok c" "qe_image c \<noteq> None" "0 \<le> block" "block < 2097152" "qe_block c \<le> block"
  shows "add_int (qe_block c) (qe_count c) \<ge> block \<Longrightarrow> block \<le> qe_block c + qe_count c"
    "add_int (qe_block c) (qe_count c) = block \<Longrightarrow> qe_block c + qe_count c = block"
    "qe_block c + qe_count c = block \<Longrightarrow> add_int (qe_block c) (qe_count c) = block"
proof -
  have c: "0 \<le> qe_block c" "qe_block c \<le> 2097152" "0 \<le> qe_count c" "qe_count c = CHECK_ALL \<or> qe_block c + qe_count c \<le> 2097152"
    using assms(1,2) by (auto simp: entry_ok_def)
  show "add_int (qe_block c) (qe_count c) \<ge> block \<Longrightarrow> block \<le> qe_block c + qe_count c"
    "add_int (qe_block c) (qe_count c) = block \<Longrightarrow> qe_block c + qe_count c = block"
    "qe_block c + qe_count c = block \<Longrightarrow> add_int (qe_block c) (qe_count c) = block"
    using c assms(3-5) add_int_all [OF c(1,2)] add_int_small [of "qe_block c" "qe_count c"]
    by (auto simp: CHECK_ALL_def split: if_splits)
qed

lemma check_scan_Inl: "check_scan img block i q free = Inl j \<Longrightarrow> i \<le> j \<and> j - i < length q
    \<and> qe_image (q ! (j - i)) = Some img \<and> qe_block (q ! (j - i)) \<le> block \<and> add_int (qe_block (q ! (j - i))) (qe_count (q ! (j - i))) \<ge> block"
proof (induction q arbitrary: i free)
  case (Cons c cs)
  show ?case
  proof (cases "\<not> (free = None \<and> qe_image c = None) \<and> qe_image c = Some img \<and> qe_block c \<le> block \<and> add_int (qe_block c) (qe_count c) \<ge> block")
    case True
    then show ?thesis using Cons.prems by auto
  next
    case False
    then have "check_scan img block (Suc i) cs (if free = None \<and> qe_image c = None then Some i else free) = Inl j"
      using Cons.prems by (auto split: if_splits)
    from Cons.IH [OF this] have h: "Suc i \<le> j" "j - Suc i < length cs" "qe_image (cs ! (j - Suc i)) = Some img"
      "qe_block (cs ! (j - Suc i)) \<le> block" "add_int (qe_block (cs ! (j - Suc i))) (qe_count (cs ! (j - Suc i))) \<ge> block" by auto
    then have "j - i = Suc (j - Suc i)" by simp
    then show ?thesis using h by simp
  qed
qed simp

lemma check_scan_Inr: "check_scan img block i q free = Inr (Some j) \<Longrightarrow> free = Some j \<or> i \<le> j \<and> j - i < length q \<and> qe_image (q ! (j - i)) = None"
proof (induction q arbitrary: i free)
  case (Cons c cs)
  let ?free = "if free = None \<and> qe_image c = None then Some i else free"
  have "check_scan img block (Suc i) cs ?free = Inr (Some j)" using Cons.prems by (auto split: if_splits)
  from Cons.IH [OF this] show ?case
  proof
    assume "?free = Some j"
    then show ?thesis by (auto split: if_splits)
  next
    assume "Suc i \<le> j \<and> j - Suc i < length cs \<and> qe_image (cs ! (j - Suc i)) = None"
    moreover then have "j - i = Suc (j - Suc i)" by linarith
    ultimately show ?thesis by simp
  qed
qed simp

lemma check_scan_None: "check_scan img block i q free = Inr None \<Longrightarrow> free = None \<and> (\<forall>c\<in>set q. qe_image c \<noteq> None)"
proof (induction q arbitrary: i free)
  case (Cons c cs)
  have "check_scan img block (Suc i) cs (if free = None \<and> qe_image c = None then Some i else free) = Inr None"
    using Cons.prems by (simp only: check_scan.simps split: if_splits) auto
  from Cons.IH [OF this] show ?case by (auto split: if_splits)
qed simp


lemma new_check_ok: "- 1 \<le> block \<Longrightarrow> block < 2097152 \<Longrightarrow> entry_ok (new_check img block)"
  by (auto simp: entry_ok_def new_check_def CHECK_ALL_def)

lemma check_queue_wf_update: "check_queue_wf q \<Longrightarrow> entry_ok c \<Longrightarrow> check_queue_wf (q[i := c])"
  unfolding check_queue_wf_def using set_update_subset_insert [of q i c] by auto

lemma entry_grows:
  assumes "entry_ok c" "qe_image c \<noteq> None" "qe_block c + qe_count c = block" "block < 2097152"
  shows "entry_ok (c\<lparr>qe_count := add_int (qe_count c) 1\<rparr>)" "add_int (qe_count c) 1 = qe_count c + 1"
proof -
  have c: "0 \<le> qe_block c" "0 \<le> qe_count c" using assms(1,2) by (auto simp: entry_ok_def)
  then show a: "add_int (qe_count c) 1 = qe_count c + 1" using assms(3,4) by (intro add_int_small) auto
  show "entry_ok (c\<lparr>qe_count := add_int (qe_count c) 1\<rparr>)" unfolding a using assms c by (auto simp: entry_ok_def)
qed

text \<open>What \<open>integrity_check\<close> does to a queue: it leaves it, lets an entry grow, fills a free slot or appends.\<close>

lemma integrity_check_cases:
  assumes "check_queue_wf q" "- 1 \<le> block" "block < 2097152"
  obtains (same) "integrity_check True img block q = q" "pending_check img block q \<or> length q = CHECK_QUEUE_SIZE \<and> (\<forall>c\<in>set q. qe_image c \<noteq> None)"
  | (grow) i where "i < length q" "qe_image (q ! i) = Some img" "qe_block (q ! i) + qe_count (q ! i) = block" "0 \<le> block"
      "integrity_check True img block q = q[i := (q ! i)\<lparr>qe_count := qe_count (q ! i) + 1\<rparr>]"
  | (fill) i where "i < length q" "qe_image (q ! i) = None" "integrity_check True img block q = q[i := new_check img block]"
  | (append) "length q < CHECK_QUEUE_SIZE" "integrity_check True img block q = q @ [new_check img block]"
proof (cases "check_scan img block 0 q None")
  case (Inl i)
  note h = check_scan_Inl [OF Inl]
  let ?c = "q ! i"
  have ok: "entry_ok ?c" "qe_image ?c \<noteq> None" "qe_image ?c = Some img" "i < length q" "qe_block ?c \<le> block"
    using h assms(1) by (auto simp: check_queue_wf_def)
  then have b: "0 \<le> block" by (auto simp: entry_ok_def)
  note s = entry_sum [OF ok(1,2) b assms(3) ok(5)]
  show ?thesis
  proof (cases "add_int (qe_block ?c) (qe_count ?c) = block")
    case True
    have e: "qe_block ?c + qe_count ?c = block" using s(2) [OF True] .
    have "integrity_check True img block q = q[i := ?c\<lparr>qe_count := qe_count ?c + 1\<rparr>]"
      using Inl True entry_grows(2) [OF ok(1,2) e assms(3)] by (simp add: integrity_check_def)
    then show ?thesis by (rule grow [OF ok(4,3) e b])
  next
    case False
    have "block \<le> qe_block ?c + qe_count ?c" using s(1) h by simp
    moreover have "block \<noteq> qe_block ?c + qe_count ?c" using s(3) False by blast
    ultimately have "pending_check img block q" unfolding pending_check_def using ok by (intro bexI [of _ ?c]) auto
    moreover have "integrity_check True img block q = q" using Inl False by (simp add: integrity_check_def)
    ultimately show ?thesis using same by blast
  qed
next
  case (Inr fr)
  show ?thesis
  proof (cases fr)
    case None
    show ?thesis
    proof (cases "length q \<ge> CHECK_QUEUE_SIZE")
      case True
      have "integrity_check True img block q = q" using True Inr None by (simp add: integrity_check_def)
      moreover have "length q = CHECK_QUEUE_SIZE" using True assms(1) by (simp add: check_queue_wf_def)
      ultimately show ?thesis using same check_scan_None Inr None by blast
    next
      case False
      show ?thesis by (rule append) (use False Inr None in \<open>simp_all add: integrity_check_def\<close>)
    qed
  next
    case (Some i)
    show ?thesis by (rule fill [of i]) (use check_scan_Inr [of img block 0 q None i] Inr Some in \<open>simp_all add: integrity_check_def\<close>)
  qed
qed

lemma integrity_check_wf:
  assumes "check_queue_wf q" "- 1 \<le> block" "block < 2097152"
  shows "check_queue_wf (integrity_check True img block q)"
  using assms
proof (cases rule: integrity_check_cases [where img = img])
  case (grow i)
  have "entry_ok (q ! i)" using assms(1) grow(1) by (simp add: check_queue_wf_def)
  then have "entry_ok ((q ! i)\<lparr>qe_count := qe_count (q ! i) + 1\<rparr>)"
    using entry_grows [of "q ! i" block] grow assms(3) by simp
  then show ?thesis using grow(5) check_queue_wf_update [OF assms(1)] by simp
next
  case (fill i)
  then show ?thesis using check_queue_wf_update [OF assms(1) new_check_ok] assms by simp
next
  case append
  then show ?thesis using assms new_check_ok [OF assms(2,3), of img] by (simp add: check_queue_wf_def)
qed (simp add: assms)

lemma pending_update:
  assumes "i < length q" "qe_image (q ! i) = None \<or>
      qe_image c = qe_image (q ! i) \<and> qe_block c \<le> qe_block (q ! i) \<and> qe_block (q ! i) + qe_count (q ! i) \<le> qe_block c + qe_count c"
    "pending_check img block q"
  shows "pending_check img block (q[i := c])"
proof -
  obtain j where j: "j < length q" "qe_image (q ! j) = Some img" "qe_block (q ! j) \<le> block" "block < qe_block (q ! j) + qe_count (q ! j)"
    using assms(3) by (auto simp: pending_check_def in_set_conv_nth)
  show ?thesis
  proof (cases "j = i")
    case True
    have "c \<in> set (q[i := c])" using assms(1) by (simp add: set_update_memI)
    then show ?thesis unfolding pending_check_def using True j assms(2) by (intro bexI [of _ c]) auto
  next
    case False
    then have "q ! j \<in> set (q[i := c])" using j(1) by (metis length_list_update nth_list_update_neq nth_mem)
    then show ?thesis unfolding pending_check_def using j by blast
  qed
qed


lemma integrity_check_pending:
  assumes "check_queue_wf q" "- 1 \<le> block" "block < 2097152" "pending_check img' block' q"
  shows "pending_check img' block' (integrity_check True img block q)"
  using assms(1-3)
proof (cases rule: integrity_check_cases [where img = img])
  case (grow i)
  show ?thesis unfolding grow(5) by (rule pending_update [OF grow(1) _ assms(4)]) simp
next
  case (fill i)
  show ?thesis unfolding fill(3) by (rule pending_update [OF fill(1) _ assms(4)]) (simp add: fill(2))
next
  case append
  then show ?thesis using assms(4) by (auto simp: pending_check_def)
qed (simp add: assms(4))

lemma integrity_check_covers:
  assumes "check_queue_wf q" "0 \<le> block" "block < 2097152" "length q < CHECK_QUEUE_SIZE \<or> (\<exists>c\<in>set q. qe_image c = None)"
  shows "pending_check img block (integrity_check True img block q)"
proof -
  have b: "- 1 \<le> block" using assms(2) by simp
  have new: "qe_image (new_check img block) = Some img \<and> qe_block (new_check img block) \<le> block \<and> block < qe_block (new_check img block) + qe_count (new_check img block)"
    using assms(2) by (simp add: new_check_def)
  show ?thesis using assms(1) b assms(3)
  proof (cases rule: integrity_check_cases [where img = img])
    case same
    then show ?thesis using assms(4) by auto
  next
    case (grow i)
    let ?c = "(q ! i)\<lparr>qe_count := qe_count (q ! i) + 1\<rparr>"
    have "?c \<in> set (q[i := ?c])" using grow(1) by (simp add: set_update_memI)
    moreover have "0 \<le> qe_count (q ! i)" using assms(1) grow(1,2) nth_mem [OF grow(1)] by (auto simp: check_queue_wf_def entry_ok_def)
    ultimately show ?thesis unfolding grow(5) pending_check_def using grow(2,3) by (intro bexI [of _ ?c]) auto
  next
    case (fill i)
    have "new_check img block \<in> set (q[i := new_check img block])" using fill(1) by (simp add: set_update_memI)
    then show ?thesis unfolding fill(3) pending_check_def using new by blast
  next
    case append
    then show ?thesis using new by (auto simp: pending_check_def)
  qed
qed

lemma integrity_check_all:
  assumes "check_queue_wf q" "0 \<le> block" "block < 2097152" "length q < CHECK_QUEUE_SIZE \<or> (\<exists>c\<in>set q. qe_image c = None)"
  shows "pending_check img block (integrity_check True img (- 1) q)"
proof -
  have c: "qe_image (new_check img (- 1)) = Some img \<and> qe_block (new_check img (- 1)) \<le> block \<and> block < qe_block (new_check img (- 1)) + qe_count (new_check img (- 1))"
    using assms(2,3) by (simp add: new_check_def CHECK_ALL_def)
  have b: "(- 1 :: int) \<le> - 1" "(- 1 :: int) < 2097152" by simp_all
  show ?thesis using assms(1) b
  proof (cases rule: integrity_check_cases [where img = img])
    case same
    then show ?thesis using assms(1,4) by (fastforce simp: pending_check_def check_queue_wf_def entry_ok_def)
  next
    case (grow i)
    then show ?thesis by simp
  next
    case (fill i)
    have "new_check img (- 1) \<in> set (q[i := new_check img (- 1)])" using fill(1) by (simp add: set_update_memI)
    then show ?thesis unfolding fill(3) pending_check_def using c by blast
  next
    case append
    then show ?thesis using c by (auto simp: pending_check_def)
  qed
qed

text \<open>An entry in use keeps its image and its first block, and its range does not shrink, whatever is queued.\<close>

definition kept :: "nat \<Rightarrow> queue_entry list \<Rightarrow> queue_entry list \<Rightarrow> bool" where
  "kept i q q' \<longleftrightarrow> i < length q' \<and> length q \<le> length q' \<and> qe_image (q' ! i) = qe_image (q ! i) \<and> qe_block (q' ! i) = qe_block (q ! i)
     \<and> qe_count (q ! i) \<le> qe_count (q' ! i) \<and> (qe_count (q ! i) = CHECK_ALL \<longleftrightarrow> qe_count (q' ! i) = CHECK_ALL)"

lemma kept_refl: "i < length q \<Longrightarrow> kept i q q"
  by (simp add: kept_def)

lemma kept_trans: "kept i q q' \<Longrightarrow> kept i q' q'' \<Longrightarrow> kept i q q''"
  by (auto simp: kept_def)

lemma integrity_check_kept:
  assumes "check_queue_wf q" "- 1 \<le> block" "block < 2097152" "i < length q" "qe_image (q ! i) \<noteq> None"
  shows "kept i q (integrity_check True img block q)"
  using assms(1-3)
proof (cases rule: integrity_check_cases [where img = img])
  case (grow j)
  have "0 \<le> qe_block (q ! j)" using assms(1) grow(1,2) nth_mem [OF grow(1)] by (auto simp: check_queue_wf_def entry_ok_def)
  then have "qe_count (q ! j) \<noteq> CHECK_ALL" "qe_count (q ! j) + 1 \<noteq> CHECK_ALL" using grow(3) assms(3) by (simp_all add: CHECK_ALL_def)
  then show ?thesis unfolding grow(5) using assms(4) grow(1) by (cases "i = j") (auto simp: kept_def)
next
  case (fill j)
  then have "j \<noteq> i" using assms(5) by auto
  then show ?thesis unfolding fill(3) using assms(4) by (simp add: kept_def)
qed (use assms(4) in \<open>simp_all add: kept_def nth_append\<close>)

definition others_ok :: "(nat \<times> int) list \<Rightarrow> bool" where
  "others_ok rs \<longleftrightarrow> (\<forall>(img, block)\<in>set rs. - 1 \<le> block \<and> block < 2097152)"

lemma others_kept:
  assumes "others_ok rs" "check_queue_wf q" "i < length q" "qe_image (q ! i) \<noteq> None"
  shows "check_queue_wf (foldl (\<lambda>q (img, block). integrity_check True img block q) q rs)
    \<and> kept i q (foldl (\<lambda>q (img, block). integrity_check True img block q) q rs)"
  using assms
proof (induction rs arbitrary: q)
  case Nil
  then show ?case by (simp add: kept_refl)
next
  case (Cons r rs)
  obtain img block where r: "r = (img, block)" by (cases r)
  have b: "- 1 \<le> block" "block < 2097152" "others_ok rs" using Cons.prems(1) by (auto simp: others_ok_def r)
  let ?q = "integrity_check True img block q"
  have k: "kept i q ?q" by (rule integrity_check_kept [OF Cons.prems(2) b(1,2) Cons.prems(3,4)])
  then have "i < length ?q" "qe_image (?q ! i) \<noteq> None" using Cons.prems(4) by (auto simp: kept_def)
  from Cons.IH [OF b(3) integrity_check_wf [OF Cons.prems(2) b(1,2)] this] show ?case
    using kept_trans [OF k] by (simp add: r)
qed


section \<open>A slice\<close>

definition hash_block_range :: "nat \<Rightarrow> nat set" where
  "hash_block_range h = {h * 4096..<(h + 1) * 4096}"

lemma block_bounds:
  assumes "image_wf img" "b < hash_blocks (unat (realFilesize img))"
  shows "b < 2097152" "hash_block_start b \<le> hash_block_end img b" "hash_block_end img b \<le> virtualFilesize img"
    "cached_blocks img - affected_blocks (hash_block_start b) (hash_block_end img b) False = cached_blocks img - hash_block_range b"
proof -
  note sz = image_wf_sizes [OF assms(1)]
  have h: "b * 16777216 < unat (realFilesize img)" using assms(2) by (simp add: hash_blocks_less)
  then show b: "b < 2097152" using sz(2,3) by simp
  note p = hash_block_pos [of b]
  have s: "unat (hash_block_start b) = b * 16777216" using p(1) b by (simp add: hash_block_start_def)
  have e: "unat (hash_block_end img b) = min ((b + 1) * 16777216) (unat (virtualFilesize img))"
    using p(2) b by (simp add: hash_block_end_def min_def word_le_nat_alt)
  show "hash_block_start b \<le> hash_block_end img b" using s e h sz(3) by (simp add: word_le_nat_alt)
  show "hash_block_end img b \<le> virtualFilesize img" by (simp add: hash_block_end_def)
  have "affected_blocks (hash_block_start b) (hash_block_end img b) False \<inter> {..<image_blocks img} = hash_block_range b \<inter> {..<image_blocks img}"
    unfolding affected_blocks_def s e sz(1) by (auto simp: hash_block_range_def)
  moreover have "cached_blocks img \<subseteq> {..<image_blocks img}" by (auto simp: cached_blocks_def)
  ultimately show "cached_blocks img - affected_blocks (hash_block_start b) (hash_block_end img b) False = cached_blocks img - hash_block_range b"
    by blast
qed

text \<open>What a slice leaves alone in an image.\<close>

definition same_file :: "dnbd3_image \<Rightarrow> dnbd3_image \<Rightarrow> bool" where
  "same_file img img' \<longleftrightarrow> realFilesize img' = realFilesize img \<and> virtualFilesize img' = virtualFilesize img \<and> im_crc32 img' = im_crc32 img
     \<and> im_users img' = im_users img \<and> im_name img' = im_name img \<and> im_rid img' = im_rid img"

lemma same_file_trans: "same_file i j \<Longrightarrow> same_file j k \<Longrightarrow> same_file i k"
  by (simp add: same_file_def)

lemma ensureOpen_same: "same_file img (snd (image_ensureOpen fd len img))" "cache_map (snd (image_ensureOpen fd len img)) = cache_map img"
  by (simp_all add: image_ensureOpen_def same_file_def Let_def)

lemma cached_blocks_eq: "virtualFilesize img' = virtualFilesize img \<Longrightarrow> realFilesize img' = realFilesize img \<Longrightarrow> cache_map img' = cache_map img \<Longrightarrow>
    cached_blocks img' = cached_blocks img \<and> image_wf img' = image_wf img"
  by (auto simp: cached_blocks_def image_blocks_def image_wf_def split: option.split)

text \<open>Checksum lists have an entry for each hash block.\<close>

definition crc_lists_ok :: "image_store \<Rightarrow> bool" where
  "crc_lists_ok s \<longleftrightarrow> (\<forall>a img l. heap s a = Some img \<and> im_crc32 img = Some l \<longrightarrow> hash_blocks (unat (realFilesize img)) \<le> length l)"

definition checkable :: "nat multiset \<Rightarrow> image_store \<Rightarrow> bool" where
  "checkable refs s \<longleftrightarrow> good refs s \<and> crc_lists_ok s"

lemma checkable_modify:
  assumes "checkable refs s" "\<And>img. heap s a = Some img \<Longrightarrow> same_file img (f img) \<and> image_wf (f img)"
  shows "checkable refs (modify a f s)"
proof -
  have "modify a f s = modify a (\<lambda>_. f (img_at s a)) s" by (cases "heap s a") (simp_all add: modify_def img_at_def)
  moreover have "store_inv refs (modify a (\<lambda>_. f (img_at s a)) s)"
  proof (cases "heap s a")
    case None
    then have "modify a (\<lambda>_. f (img_at s a)) s = s" by (simp add: modify_def fun_upd_idem)
    then show ?thesis using assms(1) by (simp add: checkable_def good_def)
  next
    case (Some img)
    then show ?thesis using assms by (simp add: checkable_def good_def store_inv_modify_img same_file_def img_at_def)
  qed
  moreover have "all_wf (modify a f s)" "crc_lists_ok (modify a f s)"
    using assms by (auto simp: checkable_def good_def all_wf_def crc_lists_ok_def modify_def same_file_def split: if_splits)
  ultimately show ?thesis by (simp add: checkable_def good_def)
qed

text \<open>The state that the loop works on: image \<open>a\<close> is referenced, and entry \<open>i\<close> is its entry.\<close>

definition slice_ok :: "nat multiset \<Rightarrow> nat \<Rightarrow> nat \<Rightarrow> queue_entry list \<Rightarrow> image_store \<Rightarrow> bool" where
  "slice_ok refs i a q s \<longleftrightarrow> checkable refs s \<and> heap s a \<noteq> None \<and> Some a \<in> set (images s) \<and> check_queue_wf q \<and> i < length q \<and> qe_image (q ! i) = Some a"

lemma img_at_modify: "heap s a \<noteq> None \<Longrightarrow> img_at (modify a (\<lambda>_. img) s) a = img"
  by (auto simp: img_at_def modify_def)

lemma slice_ok_modify:
  assumes "slice_ok refs i a q s" "image_wf img" "same_file (img_at s a) img"
  shows "slice_ok refs i a q (modify a (\<lambda>_. img) s)"
  using assms checkable_modify [of refs s a "\<lambda>_. img"] by (auto simp: slice_ok_def img_at_def modify_def)

lemma slice_ok_wf: "slice_ok refs i a q s \<Longrightarrow> image_wf (img_at s a)"
  by (auto simp: slice_ok_def checkable_def good_def all_wf_def img_at_def)

lemma slice_ok_queue:
  assumes "slice_ok refs i a q s" "check_queue_wf q'" "kept i q q'"
  shows "slice_ok refs i a q' s"
  using assms by (simp add: slice_ok_def kept_def)

lemma mark_corrupt_ok:
  assumes "slice_ok refs i a q s" "b < hash_blocks (unat (realFilesize (img_at s a)))"
  shows "\<exists>q' s'. mark_corrupt qCount a b q s = Some (q', s') \<and> slice_ok refs i a q' s' \<and> kept i q q' \<and> same_file (img_at s a) (img_at s' a)
    \<and> cached_blocks (img_at s' a) = cached_blocks (img_at s a) - hash_block_range b"
proof -
  let ?img = "img_at s a"
  note wf = slice_ok_wf [OF assms(1)]
  note bb = block_bounds [OF wf assms(2)]
  obtain img' checks where u: "image_updateCachemap ?img (hash_block_start b) (hash_block_end ?img b) False = Some (img', checks)" "image_wf img'"
    "img' = ?img\<lparr>cache_map := cache_map img'\<rparr>" "cached_blocks img' = cached_blocks ?img - affected_blocks (hash_block_start b) (hash_block_end ?img b) False"
    using updateCachemap_refines [OF wf bb(2,3), of False] by auto
  let ?s = "modify a (\<lambda>_. img') s"
  have "same_file ?img (?img\<lparr>cache_map := m\<rparr>)" for m by (simp add: same_file_def)
  then have same: "same_file ?img img'" using u(3) by metis
  have s: "slice_ok refs i a q ?s" by (rule slice_ok_modify [OF assms(1) u(2) same])
  have at: "img_at ?s a = img'" using img_at_modify assms(1) by (simp add: slice_ok_def)
  define q' where "q' = (if qCount \<noteq> CHECK_ALL then integrity_check True a (- 1) q else q)"
  have q: "check_queue_wf q" "i < length q" "qe_image (q ! i) \<noteq> None" using assms(1) by (auto simp: slice_ok_def)
  have q': "check_queue_wf q'" "kept i q q'"
    using integrity_check_wf [OF q(1), of "- 1" a] integrity_check_kept [OF q(1) _ _ q(2,3), of "- 1" a] q kept_refl by (simp_all add: q'_def)
  have "mark_corrupt qCount a b q s = Some (q', ?s)" using u(1) by (simp add: mark_corrupt_def q'_def)
  then show ?thesis using slice_ok_queue [OF s q'] q'(2) same at u(4) bb(4) by auto
qed


definition slice_env_ok :: "check_env \<Rightarrow> bool" where
  "slice_env_ok env \<longleftrightarrow> (\<forall>b. ck_sync env b \<and> others_ok (ck_others env b))"

text \<open>A block is examined, and its checksum is found wrong or it cannot be read.\<close>

definition examined :: "int \<Rightarrow> dnbd3_image \<Rightarrow> nat \<Rightarrow> bool" where
  "examined qCount img b \<longleftrightarrow> (qCount = CHECK_ALL \<longrightarrow> hash_block_cached img b)"

definition is_bad :: "check_env \<Rightarrow> u32 list \<Rightarrow> u64 \<Rightarrow> nat \<Rightarrow> bool" where
  "is_bad env crcs fileSize b \<longleftrightarrow>
     image_checkBlocksCrc32 (ck_endian env) (ck_address env) (ck_file env) crcs fileSize [(b, ck_reads env b)] \<noteq> Some True"

definition bad_range :: "check_env \<Rightarrow> int \<Rightarrow> u32 list \<Rightarrow> dnbd3_image \<Rightarrow> nat \<Rightarrow> nat set" where
  "bad_range env qCount crcs img b = (if examined qCount img b \<and> is_bad env crcs (realFilesize img) b then hash_block_range b else {})"

lemma slice_step:
  assumes ok: "slice_ok refs i a q s" "slice_env_ok env" and fs: "fs = realFilesize (img_at s a)"
    and crcs: "length crcs = hash_blocks (unat fs)" and b: "b < hash_blocks (unat fs)" "\<not> ck_shutdown env b"
  obtains (stop) s1 where "slice_loop env qCount crcs fs a (Suc k) b cc found q s = Some (b, cc, found, q, s1)"
      "slice_ok refs i a q s1" "same_file (img_at s a) (img_at s1 a)" "cached_blocks (img_at s1 a) = cached_blocks (img_at s a)"
      "\<not> (ck_direct env \<and> hash_block_end (img_at s a) b mod DNBD3_BLOCK_SIZE = 0)"
  | (next_block) q1 s1 where "slice_loop env qCount crcs fs a (Suc k) b cc found q s =
        (if examined qCount (img_at s a) b \<and> cc - 1 = 0
         then Some (b + 1, 0, found \<or> examined qCount (img_at s a) b \<and> is_bad env crcs fs b, q1, s1)
         else slice_loop env qCount crcs fs a k (b + 1) (if examined qCount (img_at s a) b then cc - 1 else cc)
                (found \<or> examined qCount (img_at s a) b \<and> is_bad env crcs fs b) q1 s1)"
      "slice_ok refs i a q1 s1" "kept i q q1" "same_file (img_at s a) (img_at s1 a)"
      "cached_blocks (img_at s1 a) = cached_blocks (img_at s a) - bad_range env qCount crcs (img_at s a) b"
proof -
  let ?img = "img_at s a" and ?c = "examined qCount (img_at s a) b" and ?bad = "is_bad env crcs fs b"
  note wf = slice_ok_wf [OF ok(1)]
  have b39: "b < 2 ^ 39" using block_bounds(1) [OF wf, of b] b(1) fs by simp
  have c: "(if qCount = CHECK_ALL then image_isHashBlockComplete (cache_map ?img) (word_of_nat b) fs else Some True) = Some ?c"
    using isHashBlockComplete_iff [OF wf b39] fs by (simp add: examined_def)
  obtain opened img where o: "(if ck_direct env \<and> hash_block_end ?img b mod DNBD3_BLOCK_SIZE = 0 then (True, ?img)
      else image_ensureOpen (fst (ck_reopen env b)) (snd (ck_reopen env b)) ?img) = (opened, img)" by (metis surj_pair)
  have "img = ?img \<or> img = snd (image_ensureOpen (fst (ck_reopen env b)) (snd (ck_reopen env b)) ?img)"
    using o by (cases "ck_direct env \<and> hash_block_end ?img b mod DNBD3_BLOCK_SIZE = 0") auto
  then have img: "same_file ?img img" "cache_map img = cache_map ?img"
    using ensureOpen_same [where img = ?img] by (auto simp: same_file_def)
  let ?s = "modify a (\<lambda>_. img) s"
  have cb: "cached_blocks img = cached_blocks ?img" "image_wf img" using cached_blocks_eq [of img ?img] img wf by (auto simp: same_file_def)
  have s: "slice_ok refs i a q ?s" by (rule slice_ok_modify [OF ok(1) cb(2) img(1)])
  have at: "img_at ?s a = img" using img_at_modify ok(1) by (simp add: slice_ok_def)
  have sync: "ck_sync env b" "others_ok (ck_others env b)" using ok(2) by (simp_all add: slice_env_ok_def)
  note eq = slice_loop.simps(2) [of env qCount crcs fs a k b cc found q s, unfolded c option.case o Let_def prod.case]
  show ?thesis
  proof (cases opened)
    case False
    have d: "\<not> (ck_direct env \<and> hash_block_end ?img b mod DNBD3_BLOCK_SIZE = 0)" using o False by (metis prod.inject)
    show ?thesis by (rule stop [OF _ _ _ _ d, of ?s]) (use eq False b(2) sync s at img(1) cb in simp_all)
  next
    case opened: True
    have "unat fs < 2 ^ 45" using image_wf_sizes(2,3) [OF wf] fs by simp
    then have nn: "image_checkBlocksCrc32 (ck_endian env) (ck_address env) (ck_file env) crcs fs [(b, ck_reads env b)] \<noteq> None"
      using checkBlocks_eq(1) [of fs crcs "[(b, ck_reads env b)]"] crcs b(1) by simp
    then have ck: "(if ?c then image_checkBlocksCrc32 (ck_endian env) (ck_address env) (ck_file env) crcs fs [(b, ck_reads env b)] else Some True)
        = Some (\<not> (?c \<and> ?bad))" by (auto simp: is_bad_def)
    have "\<exists>q1 s1. (if \<not> (?c \<and> ?bad) then Some (q, ?s) else mark_corrupt qCount a b q ?s) = Some (q1, s1) \<and> slice_ok refs i a q1 s1 \<and> kept i q q1
        \<and> same_file img (img_at s1 a) \<and> cached_blocks (img_at s1 a) = cached_blocks img - bad_range env qCount crcs ?img b"
    proof (cases "?c \<and> ?bad")
      case True
      then have "bad_range env qCount crcs ?img b = hash_block_range b" using fs by (simp add: bad_range_def)
      moreover have "b < hash_blocks (unat (realFilesize (img_at ?s a)))" using b(1) fs img(1) at by (simp add: same_file_def)
      ultimately show ?thesis using mark_corrupt_ok [OF s, of b qCount] True at by simp
    next
      case False
      then have "bad_range env qCount crcs ?img b = {}" using fs by (auto simp: bad_range_def)
      moreover have "kept i q q" using ok(1) by (simp add: slice_ok_def kept_refl)
      ultimately show ?thesis using False s at by (intro exI [of _ q] exI [of _ ?s]) (simp add: same_file_def)
    qed
    then obtain q1 s1 where m: "(if \<not> (?c \<and> ?bad) then Some (q, ?s) else mark_corrupt qCount a b q ?s) = Some (q1, s1)"
      "slice_ok refs i a q1 s1" "kept i q q1" "same_file img (img_at s1 a)"
      "cached_blocks (img_at s1 a) = cached_blocks img - bad_range env qCount crcs ?img b" by blast
    define q2 where "q2 = foldl (\<lambda>q (img, block). integrity_check True img block q) q1 (ck_others env b)"
    have "check_queue_wf q1" "i < length q1" "qe_image (q1 ! i) \<noteq> None" using m(2) by (auto simp: slice_ok_def)
    from others_kept [OF sync(2) this] have q2: "check_queue_wf q2" "kept i q1 q2" by (simp_all add: q2_def)
    show ?thesis
    proof (rule next_block [of q2 s1])
      show "slice_loop env qCount crcs fs a (Suc k) b cc found q s = (if ?c \<and> cc - 1 = 0 then Some (b + 1, 0, found \<or> ?c \<and> ?bad, q2, s1)
          else slice_loop env qCount crcs fs a k (b + 1) (if ?c then cc - 1 else cc) (found \<or> ?c \<and> ?bad) q2 s1)"
        using b(2) sync(1) opened unfolding eq ck option.case m(1) prod.case q2_def by (simp only: if_False if_True not_not simp_thms)
    qed (use slice_ok_queue [OF m(2) q2] kept_trans [OF m(3) q2(2)] same_file_trans [OF img(1) m(4)] m(5) cb in simp_all)
  qed
qed


lemma block_end_aligned:
  assumes "image_wf img" "b < hash_blocks (unat (realFilesize img))"
  shows "hash_block_end img b mod DNBD3_BLOCK_SIZE = 0"
proof -
  have b: "b < 2 ^ 39" using block_bounds(1) [OF assms] by simp
  have "4096 dvd unat (hash_block_end img b)"
    using hash_block_pos(2) [OF b] image_wf_sizes(1) [OF assms(1)]
    by (simp add: hash_block_end_def min_def dvd_mult2)
  then have "unat (hash_block_end img b mod DNBD3_BLOCK_SIZE) = 0" by (simp add: unat_mod DNBD3_BLOCK_SIZE_def)
  then show ?thesis by (simp add: unat_eq_zero)
qed

lemma bad_range_sub: "bad_range env qCount crcs img b \<subseteq> hash_block_range b"
  by (simp add: bad_range_def)

lemma bad_range_other:
  assumes "same_file img img1" "cached_blocks img1 = cached_blocks img - X" "X \<subseteq> hash_block_range b" "b < h"
  shows "examined qCount img1 h = examined qCount img h" "bad_range env qCount crcs img1 h = bad_range env qCount crcs img h"
proof -
  have "hash_block_range h \<inter> hash_block_range b = {}" using assms(4) by (auto simp: hash_block_range_def)
  then have "hash_block_cached img1 h = hash_block_cached img h"
    using assms(1-3) by (auto simp: hash_block_cached_def image_blocks_def same_file_def hash_block_range_def)
  then show "examined qCount img1 h = examined qCount img h" by (simp add: examined_def)
  then show "bad_range env qCount crcs img1 h = bad_range env qCount crcs img h" using assms(1) by (simp add: bad_range_def same_file_def)
qed

lemma bad_ranges_other:
  assumes "same_file img img1" "cached_blocks img1 = cached_blocks img - X" "X \<subseteq> hash_block_range b"
  shows "(\<Union>h\<in>{b + 1..<n}. bad_range env qCount crcs img1 h) = (\<Union>h\<in>{b + 1..<n}. bad_range env qCount crcs img h)"
  using bad_range_other(2) [OF assms] by (intro SUP_cong) auto

lemma range_first: "b < n \<Longrightarrow> {b..<n} = insert b {b + 1..<n}" for b n :: nat
  by auto

text \<open>What a slice achieves: how far it came, that the counter tells how many blocks were examined, and what was taken out of the map.\<close>

definition slice_result :: "check_env \<Rightarrow> int \<Rightarrow> u32 list \<Rightarrow> dnbd3_image \<Rightarrow> nat \<Rightarrow> nat \<Rightarrow> int \<Rightarrow> nat \<Rightarrow> int \<Rightarrow> dnbd3_image \<Rightarrow> bool" where
  "slice_result env qCount crcs img n b cc b' cc' img' \<longleftrightarrow> b \<le> b' \<and> b' \<le> n \<and> 0 \<le> cc' \<and> cc' \<le> cc
     \<and> (qCount \<noteq> CHECK_ALL \<longrightarrow> int b' - int b = cc - cc') \<and> (cc' = 0 \<longrightarrow> b < b')
     \<and> (ck_direct env \<and> (\<forall>h. \<not> ck_shutdown env h) \<longrightarrow> cc' = 0 \<or> b' = n)
     \<and> same_file img img' \<and> cached_blocks img' = cached_blocks img - (\<Union>h\<in>{b..<b'}. bad_range env qCount crcs img h)"

lemma slice_loop_ok:
  assumes env: "slice_env_ok env" and crcs: "length crcs = hash_blocks (unat fs)"
  shows "slice_ok refs i a q s \<Longrightarrow> fs = realFilesize (img_at s a) \<Longrightarrow> b + k = hash_blocks (unat fs) \<Longrightarrow> 1 \<le> cc \<Longrightarrow>
    \<exists>b' cc' found' q' s'. slice_loop env qCount crcs fs a k b cc found q s = Some (b', cc', found', q', s')
      \<and> slice_ok refs i a q' s' \<and> kept i q q' \<and> slice_result env qCount crcs (img_at s a) (b + k) b cc b' cc' (img_at s' a)"
proof (induction k arbitrary: b cc found q s)
  case 0
  have "kept i q q" using 0(1) by (simp add: slice_ok_def kept_refl)
  then show ?case using 0 by (auto simp: slice_result_def same_file_def)
next
  case (Suc k)
  let ?img = "img_at s a"
  have kp: "kept i q q" using Suc.prems(1) by (simp add: slice_ok_def kept_refl)
  have bn: "b < hash_blocks (unat fs)" using Suc.prems(3) by simp
  show ?case
  proof (cases "ck_shutdown env b")
    case True
    then show ?thesis using Suc.prems kp by (auto simp: slice_result_def same_file_def)
  next
    case False
    show ?thesis
    proof (rule slice_step [OF Suc.prems(1) env Suc.prems(2) crcs bn False, of qCount k cc found])
      fix s1
      assume st: "slice_loop env qCount crcs fs a (Suc k) b cc found q s = Some (b, cc, found, q, s1)" "slice_ok refs i a q s1"
        "same_file ?img (img_at s1 a)" "cached_blocks (img_at s1 a) = cached_blocks ?img"
        "\<not> (ck_direct env \<and> hash_block_end ?img b mod DNBD3_BLOCK_SIZE = 0)"
      have "\<not> ck_direct env" using st(5) block_end_aligned [OF slice_ok_wf [OF Suc.prems(1)]] bn Suc.prems(2) by simp
      then show ?thesis unfolding st(1) using st kp Suc.prems(3,4) by (auto simp: slice_result_def)
    next
      fix q1 s1
      let ?c = "examined qCount ?img b"
      assume st: "slice_loop env qCount crcs fs a (Suc k) b cc found q s =
          (if ?c \<and> cc - 1 = 0 then Some (b + 1, 0, found \<or> ?c \<and> is_bad env crcs fs b, q1, s1)
           else slice_loop env qCount crcs fs a k (b + 1) (if ?c then cc - 1 else cc) (found \<or> ?c \<and> is_bad env crcs fs b) q1 s1)"
        "slice_ok refs i a q1 s1" "kept i q q1" "same_file ?img (img_at s1 a)"
        "cached_blocks (img_at s1 a) = cached_blocks ?img - bad_range env qCount crcs ?img b"
      show ?thesis
      proof (cases "?c \<and> cc - 1 = 0")
        case True
        have "{b..<b + 1} = {b}" by auto
        then have "slice_result env qCount crcs ?img (b + Suc k) b cc (b + 1) 0 (img_at s1 a)"
          using st(4,5) True by (simp add: slice_result_def)
        then show ?thesis unfolding st(1) using st(2,3) True by auto
      next
        case False
        let ?cc = "if ?c then cc - 1 else cc"
        have "fs = realFilesize (img_at s1 a)" "b + 1 + k = hash_blocks (unat fs)" "1 \<le> ?cc"
          using Suc.prems(2-4) st(4) False by (auto simp: same_file_def)
        from Suc.IH [OF st(2) this] obtain b' cc' found' q' s' where r:
          "slice_loop env qCount crcs fs a k (b + 1) ?cc (found \<or> ?c \<and> is_bad env crcs fs b) q1 s1 = Some (b', cc', found', q', s')"
          "slice_ok refs i a q' s'" "kept i q1 q'" "slice_result env qCount crcs (img_at s1 a) (b + 1 + k) (b + 1) ?cc b' cc' (img_at s' a)" by blast
        have rr: "b + 1 \<le> b'" "b' \<le> b + 1 + k" "0 \<le> cc'" "cc' \<le> ?cc" "qCount \<noteq> CHECK_ALL \<longrightarrow> int b' - int (b + 1) = ?cc - cc'"
          "ck_direct env \<and> (\<forall>h. \<not> ck_shutdown env h) \<longrightarrow> cc' = 0 \<or> b' = b + 1 + k" "same_file (img_at s1 a) (img_at s' a)"
          "cached_blocks (img_at s' a) = cached_blocks (img_at s1 a) - (\<Union>h\<in>{b + 1..<b'}. bad_range env qCount crcs (img_at s1 a) h)"
          using r(4) unfolding slice_result_def by blast+
        have "{b..<b'} = insert b {b + 1..<b'}" using range_first rr(1) by simp
        then have cb: "cached_blocks (img_at s' a) = cached_blocks ?img - (\<Union>h\<in>{b..<b'}. bad_range env qCount crcs ?img h)"
          unfolding rr(8) st(5) bad_ranges_other [OF st(4,5) bad_range_sub] by auto
        have ex: "qCount \<noteq> CHECK_ALL \<longrightarrow> ?c" by (simp add: examined_def)
        have "slice_result env qCount crcs ?img (b + Suc k) b cc b' cc' (img_at s' a)"
          unfolding slice_result_def
          using rr(1-7) ex cb same_file_trans [OF st(4) rr(7)] Suc.prems(4) by (auto split: if_splits)
        moreover have "slice_loop env qCount crcs fs a (Suc k) b cc found q s = Some (b', cc', found', q', s')"
          using False r(1) unfolding st(1) by (simp only: if_False)
        ultimately show ?thesis using r(2) kept_trans [OF st(3) r(3)] by blast
      qed
    qed
  qed
qed


section \<open>A visit of an entry\<close>

definition dropped :: "nat \<Rightarrow> queue_entry list \<Rightarrow> bool" where
  "dropped i q \<longleftrightarrow> length q = i \<or> i < length q \<and> qe_image (q ! i) = None"

lemma entry_ok_drop: "entry_ok (c\<lparr>qe_image := None\<rparr>)"
  by (simp add: entry_ok_def)

lemma drop_entry_ok:
  assumes "check_queue_wf q" "i < length q"
  shows "check_queue_wf (drop_entry i q)" "dropped i (drop_entry i q)"
proof -
  have "check_queue_wf (q[i := (q ! i)\<lparr>qe_image := None\<rparr>])" by (rule check_queue_wf_update [OF assms(1) entry_ok_drop])
  then show "check_queue_wf (drop_entry i q)" by (auto simp: drop_entry_def Let_def check_queue_wf_def dest: in_set_butlastD)
  show "dropped i (drop_entry i q)" using assms(2) by (auto simp: drop_entry_def dropped_def Let_def)
qed

text \<open>The end of a slice: the entry is taken out or goes on behind the last block. Its counter does not become negative.\<close>

lemma finish_slice_ok:
  assumes ok: "slice_ok refs i a q s" and k: "kept i q0 q" "qe_count (q0 ! i) = qCount"
    and b: "qe_block (q0 ! i) \<le> int b" "int b \<le> 2097152" "qCount \<noteq> CHECK_ALL \<Longrightarrow> int b - qe_block (q0 ! i) \<le> qCount"
  shows "\<exists>q' s'. finish_slice env i a qCount fd_ok b cc found q s = Some (q', s') \<and> checkable refs s' \<and> heap s' a \<noteq> None \<and> Some a \<in> set (images s')
    \<and> check_queue_wf q' \<and> same_file (img_at s a) (img_at s' a) \<and> cached_blocks (img_at s' a) = cached_blocks (img_at s a)
    \<and> (if cc > 0 \<or> \<not> fd_ok then dropped i q'
       else dropped i q' \<and> qCount \<noteq> CHECK_ALL \<or> i < length q' \<and> qe_image (q' ! i) = Some a \<and> qe_block (q' ! i) = int b)"
proof -
  have q: "i < length q" "check_queue_wf q" "qe_image (q ! i) = Some a" "checkable refs s" "heap s a \<noteq> None"
    and li: "Some a \<in> set (images s)" using ok by (auto simp: slice_ok_def)
  have blk: "qe_block (q ! i) = qe_block (q0 ! i)" "qCount \<le> qe_count (q ! i)" "qCount = CHECK_ALL \<longleftrightarrow> qe_count (q ! i) = CHECK_ALL"
    using k by (auto simp: kept_def)
  have e: "entry_ok (q ! i)" using q(1,2) by (simp add: check_queue_wf_def)
  define q1 where "q1 = (if qCount \<noteq> CHECK_ALL then q[i := (q ! i)\<lparr>qe_count := qe_count (q ! i) - (int b - qe_block (q ! i))\<rparr>] else q)"
  define q2 where "q2 = q1[i := (q1 ! i)\<lparr>qe_block := int b\<rparr>]"
  let ?f = "\<lambda>img. if im_uplink img \<noteq> None then img\<lparr>im_working := (ck_link_fd env \<noteq> - 1 \<and> readFd img \<noteq> - 1)\<rparr> else img"
  let ?s = "if \<not> found then modify a ?f s else s"
  have "same_file img (?f img) \<and> image_wf (?f img) = image_wf img" for img
    using cached_blocks_eq [of "?f img" img] by (simp add: same_file_def)
  moreover have "image_wf img" if "heap s a = Some img" for img using q(4) that by (auto simp: checkable_def good_def all_wf_def)
  ultimately have s: "checkable refs ?s" "heap ?s a \<noteq> None" "Some a \<in> set (images ?s)" using li checkable_modify [OF q(4), of a ?f] q(4,5) by (simp_all del: not_None_eq)
  have at: "same_file (img_at s a) (img_at ?s a)" "cached_blocks (img_at ?s a) = cached_blocks (img_at s a)"
  proof -
    have "img_at (modify a ?f s) a = ?f (img_at s a)" using q(5) by (auto simp: img_at_def modify_def)
    moreover have "same_file img (?f img)" for img by (simp add: same_file_def)
    moreover have "cached_blocks (?f img) = cached_blocks img" for img by (rule cached_blocks_eq [THEN conjunct1]) simp_all
    moreover have "same_file (img_at s a) (img_at s a)" by (simp add: same_file_def)
    ultimately show "same_file (img_at s a) (img_at ?s a)" "cached_blocks (img_at ?s a) = cached_blocks (img_at s a)" by presburger+
  qed
  have same: "same_file (img_at s a) (img_at s a)" by (simp add: same_file_def)
  have l1: "length q1 = length q" "qe_image (q1 ! i) = Some a" using q(1,3) by (simp_all add: q1_def)
  have c1: "0 \<le> qe_count (q1 ! i)" using b(3) blk q(1) by (auto simp: q1_def CHECK_ALL_def)
  have "entry_ok ((q ! i)\<lparr>qe_count := qe_count (q ! i) - (int b - qe_block (q ! i)), qe_block := int b\<rparr>)" if "qCount \<noteq> CHECK_ALL"
    using e b blk that q(3) by (auto simp: entry_ok_def CHECK_ALL_def)
  moreover have "entry_ok ((q ! i)\<lparr>qe_block := int b\<rparr>)" if "qCount = CHECK_ALL" using blk that b e q(3) by (auto simp: entry_ok_def)
  ultimately have w2: "check_queue_wf q2"
    unfolding q2_def q1_def using check_queue_wf_update [OF q(2)] q(1) by (cases "qCount = CHECK_ALL") (simp_all add: list_update_overwrite)
  have d: "check_queue_wf (drop_entry i q1)" "dropped i (drop_entry i q1)"
  proof -
    have "check_queue_wf (q1[i := (q1 ! i)\<lparr>qe_image := None\<rparr>])"
      using check_queue_wf_update [OF q(2) entry_ok_drop] q(1) by (auto simp: q1_def list_update_overwrite)
    then show "check_queue_wf (drop_entry i q1)" by (auto simp: drop_entry_def Let_def check_queue_wf_def dest: in_set_butlastD)
    show "dropped i (drop_entry i q1)" using q(1) l1(1) by (auto simp: drop_entry_def dropped_def Let_def)
  qed
  have eq: "finish_slice env i a qCount fd_ok b cc found q s =
      (if cc > 0 \<or> qe_count (q1 ! i) \<le> 0 \<or> \<not> fd_ok then Some (drop_entry i q1, ?s) else Some (q2, s))"
    unfolding finish_slice_def Let_def q1_def [symmetric] q2_def [symmetric] using q(3) by (simp only: simp_thms if_False)
  show ?thesis
  proof (cases "cc > 0 \<or> qe_count (q1 ! i) \<le> 0 \<or> \<not> fd_ok")
    case True
    have "qe_count (q1 ! i) \<le> 0 \<Longrightarrow> qCount \<noteq> CHECK_ALL" using blk q(1) by (auto simp: q1_def CHECK_ALL_def)
    then show ?thesis unfolding eq using True s at d by auto
  next
    case False
    then show ?thesis unfolding eq using w2 same q(1,4,5) li l1 by (auto simp: q2_def)
  qed
qed


lemma bad_range_cong:
  assumes "same_file img img1" "cached_blocks img1 = cached_blocks img"
  shows "bad_range env qCount crcs img1 h = bad_range env qCount crcs img h"
proof -
  have "hash_block_cached img1 h = hash_block_cached img h"
    using assms by (simp add: hash_block_cached_def image_blocks_def same_file_def)
  then show ?thesis using assms(1) by (simp add: bad_range_def examined_def same_file_def)
qed

text \<open>The same, up to the reference counter.\<close>

definition same_data :: "dnbd3_image \<Rightarrow> dnbd3_image \<Rightarrow> bool" where
  "same_data img img' \<longleftrightarrow> same_file (img\<lparr>im_users := im_users img'\<rparr>) img'"

lemma same_file_data: "same_file img img' \<Longrightarrow> same_data img img'"
  by (simp add: same_file_def same_data_def)

text \<open>What one slice does to the image and to its entry: from block \<open>b\<close> it comes to \<open>b'\<close>.\<close>

definition slice_done :: "check_env \<Rightarrow> nat \<Rightarrow> nat \<Rightarrow> u32 list \<Rightarrow> queue_entry \<Rightarrow> dnbd3_image \<Rightarrow> queue_entry list \<Rightarrow> dnbd3_image \<Rightarrow> nat \<Rightarrow> bool" where
  "slice_done env i a crcs c img q' img' b' \<longleftrightarrow>
    (let n = hash_blocks (unat (realFilesize img)); b = nat (qe_block c) in
     same_data img img' \<and> b \<le> b' \<and> b' \<le> max b n
     \<and> cached_blocks img' = cached_blocks img - (\<Union>h\<in>{b..<b'}. bad_range env (qe_count c) (take n crcs) img h)
     \<and> (dropped i q' \<or> i < length q' \<and> qe_image (q' ! i) = Some a \<and> qe_block (q' ! i) = int b' \<and> b < b' \<and> b' \<le> n)
     \<and> (ck_direct env \<and> (\<forall>h. \<not> ck_shutdown env h) \<and> dropped i q' \<and> qe_count c = CHECK_ALL \<longrightarrow> n \<le> b'))"

lemma check_slice_ok:
  assumes ok: "slice_ok refs i a q s" "slice_env_ok env" and c: "qe_count (q ! i) \<noteq> 0"
    and crcs: "hash_blocks (unat (realFilesize (img_at s a))) \<le> length crcs"
  shows "\<exists>found q' s' b'. check_slice env i a crcs q s = Some (found, q', s') \<and> checkable refs s' \<and> heap s' a \<noteq> None \<and> Some a \<in> set (images s') \<and> check_queue_wf q'
    \<and> slice_done env i a crcs (q ! i) (img_at s a) q' (img_at s' a) b'"
proof -
  let ?img = "img_at s a" and ?qc = "qe_count (q ! i)"
  define fs n b where "fs = realFilesize ?img" and "n = hash_blocks (unat fs)" and "b = nat (qe_block (q ! i))"
  note wf = slice_ok_wf [OF ok(1)]
  have fs45: "unat fs < 2 ^ 45" using image_wf_sizes(2,3) [OF wf] by (simp add: fs_def)
  have n: "nat (IMGSIZE_TO_HASHBLOCKS fs) = n" using hashblocks_eq [OF fs45] by (simp add: n_def hash_blocks_def)
  have n21: "n \<le> 2097152" using fs45 by (simp add: n_def hash_blocks_def)
  have e: "entry_ok (q ! i)" "qe_image (q ! i) \<noteq> None" using ok(1) by (auto simp: slice_ok_def check_queue_wf_def)
  then have blk: "qe_block (q ! i) = int b" "b \<le> 2097152" "1 \<le> ?qc" using c by (auto simp: entry_ok_def b_def)
  let ?cr = "take n crcs"
  have lc: "length ?cr = hash_blocks (unat fs)" using crcs by (simp add: n_def fs_def)
  define img where "img = (if ck_direct env then ?img else snd (image_ensureOpen (fst (ck_open env)) (snd (ck_open env)) ?img))"
  define fd_ok s1 where "fd_ok = (ck_direct env \<or> readFd img \<noteq> - 1)" and "s1 = modify a (\<lambda>_. img) s"
  have img: "same_file ?img img" "cache_map img = cache_map ?img"
    unfolding img_def using ensureOpen_same [where img = ?img] by (simp_all add: same_file_def)
  have cb: "cached_blocks img = cached_blocks ?img" "image_wf img" using cached_blocks_eq [of img ?img] img wf by (auto simp: same_file_def)
  have s1: "slice_ok refs i a q s1" "img_at s1 a = img"
    using slice_ok_modify [OF ok(1) cb(2) img(1)] img_at_modify ok(1) by (auto simp: s1_def slice_ok_def)
  define r where "r = (if fd_ok then slice_loop env ?qc ?cr fs a (n - b) b (min ?qc 5) False q s1 else Some (b, min ?qc 5, False, q, s1))"
  have kp: "kept i q q" using ok(1) by (simp add: slice_ok_def kept_refl)
  have "\<exists>b' cc' found' q' s'. r = Some (b', cc', found', q', s') \<and> slice_ok refs i a q' s' \<and> kept i q q'
      \<and> (fd_ok \<longrightarrow> slice_result env ?qc ?cr img (max b n) b (min ?qc 5) b' cc' (img_at s' a)) \<and> (\<not> fd_ok \<longrightarrow> b' = b \<and> s' = s1 \<and> cc' = min ?qc 5)"
  proof (cases "fd_ok \<and> b < n")
    case True
    have "fs = realFilesize (img_at s1 a)" "b + (n - b) = hash_blocks (unat fs)" "1 \<le> min ?qc 5" using True blk img(1) s1(2)
      by (simp_all add: fs_def same_file_def n_def)
    note l = slice_loop_ok [OF ok(2) lc s1(1) this, of ?qc False]
    have "r = slice_loop env ?qc ?cr fs a (n - b) b (min ?qc 5) False q s1" "b + (n - b) = max b n" using True by (simp_all add: r_def)
    then show ?thesis using l True s1(2) by metis
  next
    case False
    have sr: "slice_result env ?qc ?cr img (max b n) b (min ?qc 5) b (min ?qc 5) img" if "n \<le> b"
      using that blk by (auto simp: slice_result_def same_file_def)
    have "r = Some (b, min ?qc 5, False, q, s1)" using False by (cases fd_ok) (simp_all add: r_def)
    moreover have "fd_ok \<Longrightarrow> n \<le> b" using False by simp
    ultimately show ?thesis using sr s1 kp by blast
  qed
  then obtain b' cc' found' q' s' where r: "r = Some (b', cc', found', q', s')" "slice_ok refs i a q' s'" "kept i q q'"
    "fd_ok \<Longrightarrow> slice_result env ?qc ?cr img (max b n) b (min ?qc 5) b' cc' (img_at s' a)"
    "\<not> fd_ok \<Longrightarrow> b' = b \<and> s' = s1 \<and> cc' = min ?qc 5"
    by blast
  have bb: "b \<le> b'" "b' \<le> max b n" "?qc \<noteq> CHECK_ALL \<Longrightarrow> int b' - int b \<le> min ?qc 5" "cc' = 0 \<Longrightarrow> b < b'" "0 \<le> cc'"
    using r(4,5) blk by (cases fd_ok; auto simp: slice_result_def)+
  have cs: "same_file img (img_at s' a)" "cached_blocks (img_at s' a) = cached_blocks img - (\<Union>h\<in>{b..<b'}. bad_range env ?qc ?cr img h)"
    using r(4,5) s1(2) by (cases fd_ok; auto simp: slice_result_def same_file_def)+
  have "qe_block (q ! i) \<le> int b'" "int b' \<le> 2097152" "?qc \<noteq> CHECK_ALL \<Longrightarrow> int b' - qe_block (q ! i) \<le> ?qc" using bb blk n21 by auto
  from finish_slice_ok [OF r(2,3) refl this] obtain q'' s'' where f:
    "finish_slice env i a ?qc fd_ok b' cc' found' q' s' = Some (q'', s'')" "checkable refs s''" "heap s'' a \<noteq> None \<and> Some a \<in> set (images s'')" "check_queue_wf q''"
    "same_file (img_at s' a) (img_at s'' a)" "cached_blocks (img_at s'' a) = cached_blocks (img_at s' a)"
    "if cc' > 0 \<or> \<not> fd_ok then dropped i q''
       else dropped i q'' \<and> ?qc \<noteq> CHECK_ALL \<or> i < length q'' \<and> qe_image (q'' ! i) = Some a \<and> qe_block (q'' ! i) = int b'" by blast
  have cbs: "cached_blocks (img_at s'' a) = cached_blocks ?img - (\<Union>h\<in>{b..<b'}. bad_range env ?qc ?cr ?img h)"
    unfolding f(6) cs(2) cb(1) using bad_range_cong [OF img(1) cb(1)] by simp
  have "\<not> (cc' > 0 \<or> \<not> fd_ok) \<Longrightarrow> b < b' \<and> b' \<le> n" using bb by linarith
  then have en: "dropped i q'' \<or> i < length q'' \<and> qe_image (q'' ! i) = Some a \<and> qe_block (q'' ! i) = int b' \<and> b < b' \<and> b' \<le> n"
    using f(7) by (cases "cc' > 0 \<or> \<not> fd_ok") auto
  have fin: "n \<le> b'" if "ck_direct env \<and> (\<forall>h. \<not> ck_shutdown env h) \<and> dropped i q'' \<and> ?qc = CHECK_ALL"
  proof -
    have "fd_ok" using that by (simp add: fd_ok_def)
    then have "cc' = 0 \<or> b' = max b n" using r(4) that by (auto simp: slice_result_def)
    moreover have "cc' \<noteq> 0" using f(7) that \<open>fd_ok\<close> by (auto simp: dropped_def)
    ultimately show ?thesis by simp
  qed
  have "check_slice env i a crcs q s = Some (found', q'', s'')"
    using crcs r(1) f(1) unfolding check_slice_def Let_def fs_def [symmetric] n b_def [symmetric] img_def [symmetric] fd_ok_def [symmetric] s1_def [symmetric] r_def [symmetric]
    by (simp add: n_def fs_def)
  moreover have "slice_done env i a crcs (q ! i) ?img q'' (img_at s'' a) b'"
    unfolding slice_done_def Let_def fs_def [symmetric] n_def [symmetric] b_def [symmetric]
    using same_file_data [OF same_file_trans [OF same_file_trans [OF img(1) cs(1)] f(5)]] bb(1,2) cbs en fin by blast
  ultimately show ?thesis using f(2-4) by blast
qed


lemma checkable_lock:
  assumes "checkable refs s" "image_lock a s = (Some b, s')"
  shows "b = a \<and> checkable (add_mset a refs) s' \<and> heap s' a \<noteq> None \<and> Some a \<in> set (images s)"
proof -
  have s': "s' = modify a (\<lambda>img. img\<lparr>im_users := im_users img + 1\<rparr>) s" "b = a" "Some a \<in> set (images s)"
    using assms(2) by (auto simp: image_lock_def split: if_splits)
  have inv: "store_inv refs s" using assms(1) by (simp add: checkable_def good_def)
  have "store_inv (add_mset a refs) s'" using image_lock_inv [OF inv, of a] assms(2) by simp
  moreover have "all_wf s'"
    unfolding s'(1) by (rule all_wf_derived [OF derived_modify]) (use assms(1) in \<open>simp_all add: core_def checkable_def good_def\<close>)
  moreover have "crc_lists_ok s'" using assms(1) unfolding s'(1) by (auto simp: crc_lists_ok_def checkable_def modify_def split: if_splits)
  moreover have "heap s a \<noteq> None" using store_inv_heap [OF inv, of a] s'(3) by simp
  ultimately show ?thesis using s' by (simp add: checkable_def good_def)
qed

lemma checkable_release:
  assumes "checkable (add_mset a refs) s" "heap s a \<noteq> None"
  shows "\<exists>s'. image_release a s = Some s' \<and> checkable refs s'"
proof -
  obtain s' where s': "image_release a s = Some s'" "store_inv refs s'" "all_wf s'"
    using release_ok [of a refs s 0] assms(1) by (auto simp: checkable_def good_def)
  have "crc_lists_ok s'"
    using s'(1) assms by (auto simp: image_release_def Let_def crc_lists_ok_def checkable_def modify_def image_free_def split: if_splits)
  then show ?thesis using s' by (auto simp: checkable_def good_def)
qed

lemma after_corruption_same: "same_file img (after_corruption env img)" "cache_map (after_corruption env img) = cache_map img"
  by (simp_all add: after_corruption_def same_file_def Let_def)

lemma checkable_corruption: "checkable refs s \<Longrightarrow> checkable refs (modify a (after_corruption env) s)"
proof (rule checkable_modify)
  fix img
  assume "checkable refs s" "heap s a = Some img"
  then have "image_wf img" by (auto simp: checkable_def good_def all_wf_def)
  then show "same_file img (after_corruption env img) \<and> image_wf (after_corruption env img)"
    using after_corruption_same [where img = img and env = env] cached_blocks_eq [of "after_corruption env img" img] by (auto simp: same_file_def)
qed

lemma release_listed:
  assumes "image_release a s = Some s'" "Some a \<in> set (images s)" "heap s a \<noteq> None"
  shows "images s' = images s" "img_at s' a = (img_at s a)\<lparr>im_users := im_users (img_at s a) - 1\<rparr>"
  using assms by (auto simp: image_release_def Let_def modify_def img_at_def split: if_splits)

lemma users_irrelevant:
  "cached_blocks (img\<lparr>im_users := u\<rparr>) = cached_blocks img" "bad_range env qc crcs (img\<lparr>im_users := u\<rparr>) h = bad_range env qc crcs img h"
  by (simp_all add: cached_blocks_def image_blocks_def bad_range_def examined_def hash_block_cached_def)

lemma slice_done_users:
  "slice_done env i a crcs c (img\<lparr>im_users := u\<rparr>) q' img' b' = slice_done env i a crcs c img q' img' b'"
  "slice_done env i a crcs c img q' (img'\<lparr>im_users := u\<rparr>) b' = slice_done env i a crcs c img q' img' b'"
  unfolding slice_done_def Let_def users_irrelevant by (simp_all add: same_data_def same_file_def)

lemma slice_done_corruption:
  "slice_done env i a crcs c img q' (after_corruption env' img') b' = slice_done env i a crcs c img q' img' b'"
proof -
  have "cached_blocks (after_corruption env' img') = cached_blocks img'"
    using cached_blocks_eq [of "after_corruption env' img'" img'] after_corruption_same [where img = img' and env = env'] by (simp add: same_file_def)
  moreover have "same_data img (after_corruption env' img') = same_data img img'"
    using after_corruption_same(1) [where img = img' and env = env'] by (auto simp: same_data_def same_file_def)
  ultimately show ?thesis by (simp add: slice_done_def)
qed

text \<open>A visit of an entry whose image is listed and has a checksum list.\<close>

lemma check_entry_slice:
  assumes st: "checkable refs s" "check_queue_wf q" "i < length q" "slice_env_ok env"
    and e: "qe_image (q ! i) = Some a" "Some a \<in> set (images s)" "qe_count (q ! i) \<noteq> 0"
    and img: "im_crc32 (img_at s a) = Some crcs" "realFilesize (img_at s a) \<noteq> 0"
  shows "\<exists>q' s' b'. check_entry env i (q, s) = Some (q', s') \<and> checkable refs s' \<and> check_queue_wf q' \<and> Some a \<in> set (images s')
    \<and> slice_done env i a crcs (q ! i) (img_at s a) q' (img_at s' a) b'"
proof -
  define s1 where "s1 = modify a (\<lambda>img. img\<lparr>im_users := im_users img + 1\<rparr>) s"
  have l: "image_lock a s = (Some a, s1)" using e(2) by (simp add: image_lock_def s1_def)
  have s1: "checkable (add_mset a refs) s1" "heap s1 a \<noteq> None" using checkable_lock [OF st(1) l] by simp_all
  have at: "img_at s1 a = (img_at s a)\<lparr>im_users := im_users (img_at s a) + 1\<rparr>"
    using s1(2) by (auto simp: s1_def img_at_def modify_def)
  have so: "slice_ok (add_mset a refs) i a q s1" using s1 st(2,3) e(1,2) by (simp add: slice_ok_def s1_def)
  have "hash_blocks (unat (realFilesize (img_at s1 a))) \<le> length crcs"
  proof -
    have "heap s1 a = Some (img_at s1 a)" using s1(2) by (auto simp: img_at_def)
    moreover have "im_crc32 (img_at s1 a) = Some crcs" using img(1) at by simp
    ultimately show ?thesis using s1(1) unfolding checkable_def crc_lists_ok_def by blast
  qed
  from check_slice_ok [OF so st(4) e(3) this] obtain found q' s2 b' where r: "check_slice env i a crcs q s1 = Some (found, q', s2)"
    "checkable (add_mset a refs) s2" "heap s2 a \<noteq> None" "Some a \<in> set (images s2)" "check_queue_wf q'"
    "slice_done env i a crcs (q ! i) (img_at s1 a) q' (img_at s2 a) b'" by blast
  let ?s = "if found then modify a (after_corruption env) s2 else s2"
  have s3: "checkable (add_mset a refs) ?s" "heap ?s a \<noteq> None" "Some a \<in> set (images ?s)"
    using r(2-4) checkable_corruption by (simp_all del: not_None_eq)
  have "slice_done env i a crcs (q ! i) (img_at s a) q' (img_at ?s a) b'"
  proof (cases found)
    case True
    have "img_at (modify a (after_corruption env) s2) a = after_corruption env (img_at s2 a)" using r(3) by (auto simp: img_at_def modify_def)
    then show ?thesis using r(6) True unfolding at slice_done_users by (simp add: slice_done_corruption)
  qed (use r(6) in \<open>simp add: at slice_done_users\<close>)
  moreover obtain s' where s': "image_release a ?s = Some s'" "checkable refs s'" using checkable_release [OF s3(1,2)] by blast
  ultimately have "slice_done env i a crcs (q ! i) (img_at s a) q' (img_at s' a) b'" "Some a \<in> set (images s')"
    using release_listed [OF s'(1) s3(3,2)] s3(3) by (simp_all add: slice_done_users)
  moreover have "check_entry env i (q, s) = Some (q', s')"
    using e(1,3) img at unfolding check_entry_def by (simp add: l r(1) s'(1))
  ultimately show ?thesis using s'(2) r(5) by blast
qed

lemma check_entry_ok:
  assumes "checkable refs s" "check_queue_wf q" "i < length q" "slice_env_ok env"
  shows "\<exists>q' s'. check_entry env i (q, s) = Some (q', s') \<and> checkable refs s' \<and> check_queue_wf q' \<and> i \<le> length q'"
proof -
  have drop: "check_queue_wf (drop_entry i q)" "i \<le> length (drop_entry i q)"
    using drop_entry_ok [OF assms(2,3)] by (auto simp: dropped_def)
  show ?thesis
  proof (cases "\<exists>a. qe_image (q ! i) = Some a \<and> Some a \<in> set (images s)")
    case False
    then have "(case qe_image (q ! i) of None \<Rightarrow> (None, s) | Some a \<Rightarrow> image_lock a s) = (None, s)"
      by (auto simp: image_lock_def split: option.split)
    then show ?thesis using assms(1) drop by (simp add: check_entry_def)
  next
    case True
    then obtain a where a: "qe_image (q ! i) = Some a" "Some a \<in> set (images s)" by blast
    obtain s1 where l: "image_lock a s = (Some a, s1)" using a(2) by (simp add: image_lock_def)
    note s1 = checkable_lock [OF assms(1) l]
    have rl: "\<exists>s'. image_release a s1 = Some s' \<and> checkable refs s'" using checkable_release s1 by blast
    have at: "im_crc32 (img_at s1 a) = im_crc32 (img_at s a)" "realFilesize (img_at s1 a) = realFilesize (img_at s a)"
      using l s1 by (auto simp: image_lock_def img_at_def modify_def split: if_splits)
    show ?thesis
    proof (cases "qe_count (q ! i) = 0 \<or> im_crc32 (img_at s a) = None \<or> realFilesize (img_at s a) = 0")
      case True
      then show ?thesis using rl drop assms(2,3) a(1) l at by (auto simp: check_entry_def split: option.split)
    next
      case False
      then obtain crcs where "im_crc32 (img_at s a) = Some crcs" by auto
      from check_entry_slice [OF assms a _ this] False show ?thesis by (auto simp: slice_done_def dropped_def Let_def)
    qed
  qed
qed

lemma check_pass_ok:
  assumes "\<And>i. slice_env_ok (envs i)"
  shows "checkable refs s \<Longrightarrow> check_queue_wf q \<Longrightarrow> i \<le> length q \<Longrightarrow>
    \<exists>q' s'. check_pass envs i (q, s) = Some (q', s') \<and> checkable refs s' \<and> check_queue_wf q'"
proof (induction i arbitrary: q s)
  case (Suc i)
  then have "i < length q" by simp
  from check_entry_ok [OF Suc.prems(1,2) this assms [of i]] obtain q1 s1
    where "check_entry (envs i) i (q, s) = Some (q1, s1)" "checkable refs s1" "check_queue_wf q1" "i \<le> length q1" by blast
  then show ?case using Suc.IH [of s1 q1] by simp
qed simp


lemma is_bad_iff:
  assumes "unat fs < 2 ^ 45" "n = hash_blocks (unat fs)" "n \<le> length crcs" "h < n"
    "reads_ok (min 16777216 (unat fs - h * 16777216)) (ck_reads env h)"
  shows "is_bad env (take n crcs) fs h \<longleftrightarrow> crcs ! h \<noteq> block_crc (ck_endian env) (ck_file env) (unat fs) h"
proof -
  have "\<forall>(b, rs)\<in>set [(h, ck_reads env h)]. b < length (take n crcs)" "length (take n crcs) = hash_blocks (unat fs)" using assms by auto
  note c = checkBlocks_eq [OF assms(1) this(2,1), where e = "ck_endian env" and address = "ck_address env" and f = "ck_file env"]
  have "take n crcs ! h = crcs ! h" using assms(4) by simp
  then show ?thesis using c(2,3) assms(5) by (auto simp: is_bad_def)
qed

section \<open>Repeated visits\<close>

fun visits :: "(nat \<Rightarrow> check_env) \<Rightarrow> nat \<Rightarrow> nat \<Rightarrow> queue_entry list \<times> image_store \<Rightarrow> (queue_entry list \<times> image_store) option" where
  "visits envs i 0 st = Some st"
| "visits envs i (Suc k) st = (if dropped i (fst st) then Some st else Option.bind (check_entry (envs k) i st) (visits envs i k))"

lemma check_entry_finished:
  assumes "checkable refs s" "check_queue_wf q" "i < length q" "qe_image (q ! i) = Some a" "Some a \<in> set (images s)" "qe_count (q ! i) = 0"
  shows "\<exists>s'. check_entry env i (q, s) = Some (drop_entry i q, s') \<and> checkable refs s'"
proof -
  obtain s1 where l: "image_lock a s = (Some a, s1)" using assms(5) by (simp add: image_lock_def)
  then show ?thesis using checkable_lock [OF assms(1) l] checkable_release [of a refs s1] assms(4,6) by (auto simp: check_entry_def)
qed

lemma visits_drop:
  assumes "\<And>k. slice_env_ok (envs k)"
  shows "checkable refs s \<Longrightarrow> check_queue_wf q \<Longrightarrow> i < length q \<Longrightarrow> qe_image (q ! i) = Some a \<Longrightarrow> Some a \<in> set (images s) \<Longrightarrow>
    im_crc32 (img_at s a) = Some crcs \<Longrightarrow> realFilesize (img_at s a) \<noteq> 0 \<Longrightarrow> hash_blocks (unat (realFilesize (img_at s a))) - nat (qe_block (q ! i)) \<le> m \<Longrightarrow>
    \<exists>q' s'. visits envs i (Suc m) (q, s) = Some (q', s') \<and> dropped i q' \<and> checkable refs s' \<and> check_queue_wf q'"
proof (induction m arbitrary: q s)
  case (0 q s)
  have nd: "\<not> dropped i q" using 0(3,4) by (auto simp: dropped_def)
  show ?case
  proof (cases "qe_count (q ! i) = 0")
    case True
    then show ?thesis using check_entry_finished [OF 0(1-5) True, of "envs 0"] drop_entry_ok [OF 0(2,3)] nd by auto
  next
    case False
    from check_entry_slice [OF 0(1-3) assms 0(4,5) False 0(6,7), of 0] obtain q' s' b' where r: "check_entry (envs 0) i (q, s) = Some (q', s')"
      "checkable refs s'" "check_queue_wf q'" "slice_done (envs 0) i a crcs (q ! i) (img_at s a) q' (img_at s' a) b'" by blast
    have "dropped i q'" using r(4) 0(8) by (auto simp: slice_done_def Let_def)
    then show ?thesis using r nd by simp
  qed
next
  case (Suc m q s)
  have nd: "\<not> dropped i q" using Suc(4,5) by (auto simp: dropped_def)
  have stop: "visits envs i (Suc m) (q', s') = Some (q', s')" if "dropped i q'" for q' s' using that by simp
  show ?case
  proof (cases "qe_count (q ! i) = 0")
    case True
    then show ?thesis using check_entry_finished [OF Suc(2-6) True, of "envs (Suc m)"] drop_entry_ok [OF Suc(3,4)] nd by auto
  next
    case False
    from check_entry_slice [OF Suc(2-4) assms Suc(5,6) False Suc(7,8), of "Suc m"] obtain q' s' b' where r: "check_entry (envs (Suc m)) i (q, s) = Some (q', s')"
      "checkable refs s'" "check_queue_wf q'" "Some a \<in> set (images s')"
      "slice_done (envs (Suc m)) i a crcs (q ! i) (img_at s a) q' (img_at s' a) b'" by blast
    have eq: "visits envs i (Suc (Suc m)) (q, s) = visits envs i (Suc m) (q', s')" using nd r(1) by simp
    show ?thesis
    proof (cases "dropped i q'")
      case True
      then show ?thesis unfolding eq using stop r(2,3) by blast
    next
      case d: False
      have sd: "same_data (img_at s a) (img_at s' a)" "i < length q'" "qe_image (q' ! i) = Some a" "qe_block (q' ! i) = int b'"
        "nat (qe_block (q ! i)) < b'"
        using r(5) d by (auto simp: slice_done_def Let_def)
      have "im_crc32 (img_at s' a) = Some crcs" "realFilesize (img_at s' a) = realFilesize (img_at s a)"
        using sd(1) Suc(7) by (simp_all add: same_data_def same_file_def)
      moreover have "hash_blocks (unat (realFilesize (img_at s a))) - nat (qe_block (q' ! i)) \<le> m" using sd(4,5) Suc(9) by simp
      ultimately show ?thesis unfolding eq using Suc.IH [OF r(2,3) sd(2,3) r(4)] Suc(8) by simp
    qed
  qed
qed

section \<open>Properties\<close>

text \<open>C20. A request for the check of one hash block is not lost while the thread runs and the queue has room: after \<open>integrity_check\<close> some entry of the queue covers the block, also
  when it was attached to an entry that ended right in front of it, and every check that was pending before is still pending. The queue stays
  within its size.\<close>

theorem integrity_request_kept:
  assumes "check_queue_wf q" "0 \<le> block" "block < 2097152" "length q < CHECK_QUEUE_SIZE \<or> (\<exists>c\<in>set q. qe_image c = None)"
  shows "check_queue_wf (integrity_check True img block q) \<and> pending_check img block (integrity_check True img block q)
    \<and> (\<forall>img' block'. pending_check img' block' q \<longrightarrow> pending_check img' block' (integrity_check True img block q))"
  using integrity_check_covers [OF assms] integrity_check_pending [OF assms(1) _ assms(3)] integrity_check_wf [OF assms(1) _ assms(3)] assms(2) by auto

definition sample_checks :: "queue_entry list" where
  "sample_checks = [\<lparr>qe_image = Some 1, qe_block = 0, qe_count = CHECK_ALL\<rparr>, \<lparr>qe_image = None, qe_block = 0, qe_count = 0\<rparr>,
     \<lparr>qe_image = Some 2, qe_block = 3, qe_count = 4\<rparr>]"

lemma sample_checks_wf: "check_queue_wf sample_checks"
  by (simp add: check_queue_wf_def sample_checks_def CHECK_QUEUE_SIZE_def entry_ok_def CHECK_ALL_def)

theorem integrity_request_kept_witness:
  "pending_check 2 7 (integrity_check True 2 7 sample_checks) \<and> \<not> pending_check 2 7 sample_checks"
  using integrity_request_kept [OF sample_checks_wf, of 7 2] by (simp add: sample_checks_def pending_check_def)

text \<open>C18. A pass of the checking thread over its queue runs without a failed assertion and without reading behind a checksum list, keeps
  the reference counts of all images exact, every image well-formed and the queue within its bounds, whatever is read from disk and whatever
  other threads queue in the meantime. In particular the counter of an entry never becomes negative.\<close>

theorem integrity_pass_safe:
  assumes "\<And>i. slice_env_ok (envs i)" "checkable refs s" "check_queue_wf q"
  shows "\<exists>q' s'. check_pass envs (length q) (q, s) = Some (q', s') \<and> checkable refs s' \<and> check_queue_wf q'"
  by (rule check_pass_ok [OF assms order_refl])

definition sample_check_env :: check_env where
  "sample_check_env = \<lparr>ck_endian = LE, ck_address = 0, ck_file = \<lambda>_. 0, ck_direct = True, ck_open = (5, 40000), ck_reopen = \<lambda>_. (5, 40000),
     ck_sync = \<lambda>_. True, ck_reads = \<lambda>_. [40000], ck_shutdown = \<lambda>_. False, ck_others = \<lambda>_. [], ck_link_fd = - 1, ck_link_shutdown = False, ck_uplink = None\<rparr>"

lemma sample_check_env_ok: "slice_env_ok sample_check_env"
  by (simp add: slice_env_ok_def sample_check_env_def others_ok_def)

lemma sample_store_checkable: "checkable {#1#} sample_store"
proof -
  have "image_wf (sample_image\<lparr>im_id := 1\<rparr>)" by (simp add: image_wf_def sample_image_def word_le_nat_alt dvd_def)
  then show ?thesis
    using image_reachable_inv [OF sample_store_reachable]
    by (auto simp: checkable_def good_def all_wf_def crc_lists_ok_def sample_store_eval sample_image_def hash_blocks_def)
qed

theorem integrity_pass_safe_witness:
  "\<exists>q' s'. check_pass (\<lambda>_. sample_check_env) (length sample_checks) (sample_checks, sample_store) = Some (q', s') \<and> checkable {#1#} s' \<and> check_queue_wf q'"
  by (rule integrity_pass_safe [OF sample_check_env_ok sample_store_checkable sample_checks_wf])

text \<open>C17. A visit of an entry takes exactly the corrupt blocks out of the cache map: of the hash blocks from the position of the entry up to the new
  position, those whose data differs from the checksum list; in a full check only hash blocks that are completely cached are examined. Nothing
  else changes in the map. The entry is finished, or its position has moved on; a full check that reads directly is finished only behind the last
  hash block. The image is not empty and has a checksum list, and the reads of its file succeed, possibly in pieces. When an entry for
  single blocks is finished, the statement does not say how far the visit came.\<close>

theorem integrity_visit_correct:
  assumes "checkable refs s" "check_queue_wf q" "i < length q" "slice_env_ok env" "qe_image (q ! i) = Some a" "Some a \<in> set (images s)"
    "qe_count (q ! i) \<noteq> 0" "im_crc32 (img_at s a) = Some crcs" "realFilesize (img_at s a) \<noteq> 0"
    "\<forall>h < hash_blocks (unat (realFilesize (img_at s a))). reads_ok (min 16777216 (unat (realFilesize (img_at s a)) - h * 16777216)) (ck_reads env h)"
  shows "\<exists>q' s' b'. check_entry env i (q, s) = Some (q', s')
    \<and> cached_blocks (img_at s' a) = cached_blocks (img_at s a) - (\<Union>h\<in>{h. nat (qe_block (q ! i)) \<le> h \<and> h < b'
        \<and> (qe_count (q ! i) = CHECK_ALL \<longrightarrow> hash_block_cached (img_at s a) h)
        \<and> crcs ! h \<noteq> block_crc (ck_endian env) (ck_file env) (unat (realFilesize (img_at s a))) h}. {h * 4096..<(h + 1) * 4096})
    \<and> (dropped i q' \<or> qe_image (q' ! i) = Some a \<and> qe_block (q' ! i) = int b' \<and> qe_block (q ! i) < int b')
    \<and> (ck_direct env \<and> (\<forall>h. \<not> ck_shutdown env h) \<and> dropped i q' \<and> qe_count (q ! i) = CHECK_ALL
        \<longrightarrow> hash_blocks (unat (realFilesize (img_at s a))) \<le> b')"
proof -
  let ?img = "img_at s a" and ?b = "nat (qe_block (q ! i))"
  let ?n = "hash_blocks (unat (realFilesize ?img))"
  obtain q' s' b' where r: "check_entry env i (q, s) = Some (q', s')" "slice_done env i a crcs (q ! i) ?img q' (img_at s' a) b'"
    using check_entry_slice [OF assms(1-9)] by blast
  have h: "heap s a = Some ?img" using store_inv_heap [of refs s a] assms(1,6) by (auto simp: checkable_def good_def img_at_def)
  have wf: "image_wf ?img" "?n \<le> length crcs" using assms(1,8) h by (auto simp: checkable_def good_def all_wf_def crc_lists_ok_def)
  have fs: "unat (realFilesize ?img) < 2 ^ 45" using image_wf_sizes(2,3) [OF wf(1)] by simp
  have sd: "?b \<le> b'" "b' \<le> max ?b ?n" "cached_blocks (img_at s' a) = cached_blocks ?img
      - (\<Union>h\<in>{?b..<b'}. bad_range env (qe_count (q ! i)) (take ?n crcs) ?img h)"
    "dropped i q' \<or> i < length q' \<and> qe_image (q' ! i) = Some a \<and> qe_block (q' ! i) = int b' \<and> ?b < b' \<and> b' \<le> ?n"
    "ck_direct env \<and> (\<forall>h. \<not> ck_shutdown env h) \<and> dropped i q' \<and> qe_count (q ! i) = CHECK_ALL \<longrightarrow> ?n \<le> b'"
    using r(2) by (simp_all add: slice_done_def Let_def)
  have bad: "is_bad env (take ?n crcs) (realFilesize ?img) h \<longleftrightarrow> crcs ! h \<noteq> block_crc (ck_endian env) (ck_file env) (unat (realFilesize ?img)) h"
    if "h \<in> {?b..<b'}" for h
  proof -
    have "h < ?n" using that sd(2) by auto
    then show ?thesis using is_bad_iff [OF fs refl wf(2)] assms(10) by blast
  qed
  have "(\<Union>h\<in>{?b..<b'}. bad_range env (qe_count (q ! i)) (take ?n crcs) ?img h) = (\<Union>h\<in>{h. ?b \<le> h \<and> h < b'
        \<and> (qe_count (q ! i) = CHECK_ALL \<longrightarrow> hash_block_cached ?img h)
        \<and> crcs ! h \<noteq> block_crc (ck_endian env) (ck_file env) (unat (realFilesize ?img)) h}. {h * 4096..<(h + 1) * 4096})"
    using bad by (auto simp: bad_range_def examined_def hash_block_range_def split: if_splits)
  then show ?thesis using r(1) sd by (intro exI [of _ q'] exI [of _ s'] exI [of _ b']) auto
qed


definition full_check :: "queue_entry list" where
  "full_check = [\<lparr>qe_image = Some 1, qe_block = 0, qe_count = CHECK_ALL\<rparr>]"

lemma full_check_wf: "check_queue_wf full_check"
  by (simp add: check_queue_wf_def full_check_def CHECK_QUEUE_SIZE_def entry_ok_def CHECK_ALL_def)

lemma sample_store_image: "img_at sample_store 1 = sample_image\<lparr>im_id := 1\<rparr>" "Some 1 \<in> set (images sample_store)"
  by (simp_all add: sample_store_eval img_at_def)

theorem integrity_visit_correct_witness:
  "\<exists>q' s' b'. check_entry sample_check_env 0 (full_check, sample_store) = Some (q', s')
    \<and> (dropped 0 q' \<or> qe_image (q' ! 0) = Some 1 \<and> qe_block (q' ! 0) = int b' \<and> 0 < int b')"
proof -
  have "\<forall>h < hash_blocks (unat (realFilesize (img_at sample_store 1))).
      reads_ok (min 16777216 (unat (realFilesize (img_at sample_store 1)) - h * 16777216)) (ck_reads sample_check_env h)"
    by (simp add: sample_store_image sample_image_def sample_check_env_def reads_ok_def BSIZE_def del: One_nat_def)
  from integrity_visit_correct [OF sample_store_checkable full_check_wf _ sample_check_env_ok _ sample_store_image(2) _ _ _ this, of 0 "[0]"]
  show ?thesis by (simp add: full_check_def sample_store_image sample_image_def CHECK_ALL_def del: One_nat_def) blast
qed

text \<open>C19. A check terminates: every visit of an entry either finishes it or moves its position on, so after at most one visit more than the image has hash
  blocks the entry is out of the queue. This holds whatever the disk delivers, and however other threads extend the entry. The image is not
  empty and has a checksum list; checks are only asked for such images.\<close>

theorem integrity_check_terminates:
  assumes "\<And>k. slice_env_ok (envs k)" "checkable refs s" "check_queue_wf q" "i < length q" "qe_image (q ! i) = Some a" "Some a \<in> set (images s)"
    "im_crc32 (img_at s a) = Some crcs" "realFilesize (img_at s a) \<noteq> 0"
  shows "\<exists>q' s'. visits envs i (Suc (hash_blocks (unat (realFilesize (img_at s a))))) (q, s) = Some (q', s') \<and> dropped i q' \<and> checkable refs s'"
  using visits_drop [where envs = envs, OF assms diff_le_self] by blast

theorem integrity_check_terminates_witness:
  "\<exists>q' s'. visits (\<lambda>_. sample_check_env) 0 2 (full_check, sample_store) = Some (q', s') \<and> dropped 0 q' \<and> checkable {#1#} s'"
proof -
  have n: "hash_blocks (unat (realFilesize (img_at sample_store 1))) = 1" "realFilesize (img_at sample_store 1) \<noteq> 0"
    by (simp_all add: sample_store_image sample_image_def hash_blocks_def del: One_nat_def)
  have e: "0 < length full_check" "qe_image (full_check ! 0) = Some 1" "im_crc32 (img_at sample_store 1) = Some [0]" "Suc 1 = 2"
    by (simp_all add: full_check_def sample_store_image sample_image_def del: One_nat_def)
  from integrity_check_terminates [OF sample_check_env_ok sample_store_checkable full_check_wf e(1,2) sample_store_image(2) e(3) n(2)]
  show ?thesis unfolding n(1) e(4) .
qed

text \<open>While a full check is at work behind block 0, the sum of its block and its counter overflows, so a request that it covers is not recognised and is queued again.\<close>

lemma running_full_check_duplicated:
  "pending_check 1 7 [\<lparr>qe_image = Some 1, qe_block = 5, qe_count = CHECK_ALL\<rparr>]
   \<and> integrity_check True 1 7 [\<lparr>qe_image = Some 1, qe_block = 5, qe_count = CHECK_ALL\<rparr>] =
       [\<lparr>qe_image = Some 1, qe_block = 5, qe_count = CHECK_ALL\<rparr>, \<lparr>qe_image = Some 1, qe_block = 7, qe_count = 1\<rparr>]"
  using add_int_all [of 5] by (simp add: pending_check_def integrity_check_def new_check_def CHECK_QUEUE_SIZE_def CHECK_ALL_def)

end
