(* ===== verification/Fuse_Queue.thy ===== *)
theory Fuse_Queue
  imports Protocol Timing
begin

text \<open>
  The list of pending requests of the fuse client (\<open>src/fuse/connection.c\<close>, \<open>enqueueRequest\<close> and
  \<open>removeRequest\<close>). The requests are heap cells that are linked through their \<open>next\<close> member, and
  the address of a request is also the handle that goes to the server and comes back with its reply.
  The heap is a map from addresses to requests; address 0 is \<open>NULL\<close>. A result \<open>None\<close> is an access through a
  pointer to memory that is not allocated. The linked list implements a queue of addresses; the laws of such a queue
  are the locale \<open>pending_queue\<close>.
\<close>

section \<open>Requests and their list\<close>

record dnbd3_async =
  a_next :: u64
  a_buffer :: "u8 list option"
  a_time :: ticks
  a_offset :: u64
  a_length :: u32
  a_fuse_req :: nat

record request_list =
  req_head :: u64
  req_tail :: u64
  async :: "u64 \<Rightarrow> dnbd3_async option"

text \<open>An assignment to a member of the request at an address.\<close>

definition update_async :: "u64 \<Rightarrow> (dnbd3_async \<Rightarrow> dnbd3_async) \<Rightarrow> request_list \<Rightarrow> request_list option" where
  "update_async p f s = (case async s p of None \<Rightarrow> None | Some r \<Rightarrow> Some (s\<lparr>async := (async s)(p \<mapsto> f r)\<rparr>))"

definition enqueueRequest :: "ticks \<Rightarrow> u64 \<Rightarrow> request_list \<Rightarrow> request_list option" where
  "enqueueRequest now p s =
    (case update_async p (\<lambda>r. r\<lparr>a_next := 0, a_time := now\<rparr>) s of
       None \<Rightarrow> None
     | Some s \<Rightarrow>
        if req_head s = 0 then Some (s\<lparr>req_head := p, req_tail := p\<rparr>)
        else map_option (\<lambda>s. s\<lparr>req_tail := p\<rparr>) (update_async (req_tail s) (\<lambda>r. r\<lparr>a_next := p\<rparr>) s))"

text \<open>The loop of \<open>removeRequest\<close>: the iterator and its predecessor where it stops.\<close>

partial_function (option) remove_loop :: "(u64 \<Rightarrow> dnbd3_async option) \<Rightarrow> u64 \<Rightarrow> u64 \<Rightarrow> u64 \<Rightarrow> (u64 \<times> u64) option" where
  "remove_loop m request iterator prev =
    (if iterator = 0 \<or> iterator = request then Some (iterator, prev)
     else case m iterator of None \<Rightarrow> None | Some r \<Rightarrow> remove_loop m request (a_next r) iterator)"

definition unlink :: "u64 \<Rightarrow> u64 \<Rightarrow> request_list \<Rightarrow> request_list option" where
  "unlink iterator prev s =
    (case async s iterator of
       None \<Rightarrow> None
     | Some r \<Rightarrow>
        map_option (\<lambda>s. if req_tail s = iterator then s\<lparr>req_tail := prev\<rparr> else s)
          (if prev \<noteq> 0 then update_async prev (\<lambda>q. q\<lparr>a_next := a_next r\<rparr>) s
           else Some (s\<lparr>req_head := a_next r\<rparr>)))"

definition removeRequest :: "u64 \<Rightarrow> request_list \<Rightarrow> (u64 \<times> request_list) option" where
  "removeRequest request s =
    (case remove_loop (async s) request (req_head s) 0 of
       None \<Rightarrow> None
     | Some (iterator, prev) \<Rightarrow>
        if iterator = 0 then Some (0, s) else map_option (\<lambda>s. (iterator, s)) (unlink iterator prev s))"

section \<open>What the linked list stands for\<close>

text \<open>\<open>chain m p ps\<close>: following the \<open>next\<close> members from \<open>p\<close> visits the addresses \<open>ps\<close> and ends at \<open>NULL\<close>.\<close>

fun chain :: "(u64 \<Rightarrow> dnbd3_async option) \<Rightarrow> u64 \<Rightarrow> u64 list \<Rightarrow> bool" where
  "chain m p [] \<longleftrightarrow> p = 0"
| "chain m p (q # ps) \<longleftrightarrow> p = q \<and> p \<noteq> 0 \<and> (case m p of None \<Rightarrow> False | Some r \<Rightarrow> chain m (a_next r) ps)"

definition queue_is :: "request_list \<Rightarrow> u64 list \<Rightarrow> bool" where
  "queue_is s ps \<longleftrightarrow> chain (async s) (req_head s) ps \<and> distinct ps \<and> req_tail s = (if ps = [] then 0 else last ps)"

text \<open>The members of a request that its owner sets; the operations on the list leave them alone.\<close>

definition contents :: "request_list \<Rightarrow> u64 \<Rightarrow> (nat \<times> u64 \<times> u32 \<times> u8 list option) option" where
  "contents s p = map_option (\<lambda>r. (a_fuse_req r, a_offset r, a_length r, a_buffer r)) (async s p)"

lemma update_async_Some:
  "update_async p f s = Some s' \<longleftrightarrow> (\<exists>r. async s p = Some r \<and> s' = s\<lparr>async := (async s)(p \<mapsto> f r)\<rparr>)"
  by (auto simp: update_async_def split: option.splits)

lemma contents_update:
  "async s p = Some r \<Longrightarrow> contents (s\<lparr>async := (async s)(p \<mapsto> r\<lparr>a_next := x\<rparr>)\<rparr>) = contents s"
  "async s p = Some r \<Longrightarrow> contents (s\<lparr>async := (async s)(p \<mapsto> r\<lparr>a_next := x, a_time := t\<rparr>)\<rparr>) = contents s"
  by (auto simp: contents_def)

lemma contents_ends [simp]: "contents (s\<lparr>req_head := x\<rparr>) = contents s" "contents (s\<lparr>req_tail := x\<rparr>) = contents s"
  by (auto simp: contents_def)

lemma contents_None: "contents s p = None \<longleftrightarrow> async s p = None"
  by (simp add: contents_def)

subsection \<open>Chains\<close>

lemma chain_allocated: "chain m p ps \<Longrightarrow> q \<in> set ps \<Longrightarrow> q \<noteq> 0 \<and> m q \<noteq> None"
  by (induction ps arbitrary: p) (auto split: option.splits)

lemma chain_cong: "chain m p ps \<Longrightarrow> (\<And>q. q \<in> set ps \<Longrightarrow> map_option a_next (m' q) = map_option a_next (m q)) \<Longrightarrow> chain m' p ps"
proof (induction ps arbitrary: p)
  case Nil
  then show ?case by simp
next
  case (Cons q ps)
  then obtain r where r: "p = q" "q \<noteq> 0" "m q = Some r" "chain m (a_next r) ps" by (auto split: option.splits)
  then obtain r' where "m' q = Some r'" "a_next r' = a_next r" using Cons.prems(2) [of q] by auto
  moreover have "chain m' (a_next r) ps" using Cons.IH [OF r(4)] Cons.prems(2) by simp
  ultimately show ?case using r by simp
qed

lemma chain_upd_other: "chain m p ps \<Longrightarrow> q \<notin> set ps \<Longrightarrow> chain (m(q := x)) p ps"
  by (erule chain_cong) auto

lemma chain_snoc:
  "chain m p (ps @ [q]) \<Longrightarrow> distinct (ps @ [q]) \<Longrightarrow> m q = Some r \<Longrightarrow> chain m x qs \<Longrightarrow> q \<notin> set qs \<Longrightarrow> set ps \<inter> set qs = {} \<Longrightarrow>
   chain (m(q \<mapsto> r\<lparr>a_next := x\<rparr>)) p (ps @ [q] @ qs)"
proof (induction ps arbitrary: p)
  case Nil
  then show ?case using chain_upd_other [of m x qs q "Some (r\<lparr>a_next := x\<rparr>)"] by (auto simp: fun_upd_def)
next
  case (Cons y ps)
  then show ?case by (auto split: option.splits)
qed

lemma chain_split:
  "chain m p (ps @ q # qs) \<Longrightarrow> \<exists>r. m q = Some r \<and> q \<noteq> 0 \<and> chain m (a_next r) qs"
  by (induction ps arbitrary: p) (auto split: option.splits)

lemma chain_relink:
  "chain m p (ps @ l # q # qs) \<Longrightarrow> distinct (ps @ l # q # qs) \<Longrightarrow> m l = Some r \<Longrightarrow> chain m x qs \<Longrightarrow>
   chain (m(l \<mapsto> r\<lparr>a_next := x\<rparr>)) p (ps @ [l] @ qs)"
proof (induction ps arbitrary: p)
  case Nil
  then show ?case using chain_upd_other [of m x qs l "Some (r\<lparr>a_next := x\<rparr>)"] by (auto simp: fun_upd_def)
next
  case (Cons y ps)
  then show ?case by (auto split: option.splits)
qed

lemma chain_prefix_end: "chain m p (ps @ [q]) \<Longrightarrow> m q = Some r \<Longrightarrow> a_next r = 0"
  using chain_split [of m p ps q "[]"] by auto

lemma remove_loop_found:
  "chain m p (ps @ q # qs) \<Longrightarrow> q \<notin> set ps \<Longrightarrow>
   remove_loop m q p prev = Some (q, if ps = [] then prev else last ps)"
proof (induction ps arbitrary: p prev)
  case Nil
  then show ?case by (simp add: remove_loop.simps)
next
  case (Cons y ps)
  then show ?case by (auto simp: remove_loop.simps [of m q y] split: option.splits)
qed

lemma remove_loop_absent:
  "chain m p ps \<Longrightarrow> q \<notin> set ps \<Longrightarrow> remove_loop m q p prev = Some (0, if ps = [] then prev else last ps)"
proof (induction ps arbitrary: p prev)
  case Nil
  then show ?case by (simp add: remove_loop.simps)
next
  case (Cons y ps)
  then show ?case by (auto simp: remove_loop.simps [of m q y] split: option.splits)
qed

subsection \<open>The operations on the queue\<close>

lemma enqueueRequest_queue:
  assumes q: "queue_is s ps" and p: "p \<noteq> 0" "contents s p \<noteq> None" "p \<notin> set ps"
  shows "\<exists>s'. enqueueRequest now p s = Some s' \<and> queue_is s' (ps @ [p]) \<and> contents s' = contents s"
proof -
  obtain r where r: "async s p = Some r" using p(2) by (auto simp: contents_None)
  define s1 where "s1 = s\<lparr>async := (async s)(p \<mapsto> r\<lparr>a_next := 0, a_time := now\<rparr>)\<rparr>"
  have u: "update_async p (\<lambda>r. r\<lparr>a_next := 0, a_time := now\<rparr>) s = Some s1"
    by (simp add: update_async_def r s1_def)
  have c1: "contents s1 = contents s" unfolding s1_def by (rule contents_update(2) [OF r])
  have q1: "chain (async s1) (req_head s1) ps" "req_tail s1 = (if ps = [] then 0 else last ps)"
    using q p(3) by (auto simp: queue_is_def s1_def simp del: fun_upd_apply intro: chain_upd_other)
  have p1: "chain (async s1) p [p]" using p(1) by (simp add: s1_def)
  show ?thesis
  proof (cases "ps = []")
    case True
    then have "req_head s1 = 0" using q1(1) by simp
    then show ?thesis using u c1 True p1 by (auto simp: enqueueRequest_def queue_is_def split: option.splits)
  next
    case False
    then obtain qs l where l: "ps = qs @ [l]" by (meson rev_exhaust)
    obtain rl where rl: "async s1 l = Some rl" "req_tail s1 = l"
      using chain_split [of "async s1" _ qs l "[]"] q1 l by auto
    have h: "req_head s1 \<noteq> 0" using q1(1) False by (cases ps) auto
    have d: "distinct (qs @ [l])" "l \<noteq> p" "p \<notin> set qs" using q p(3) l by (auto simp: queue_is_def)
    define s2 where "s2 = s1\<lparr>async := (async s1)(l \<mapsto> rl\<lparr>a_next := p\<rparr>), req_tail := p\<rparr>"
    have "chain ((async s1)(l \<mapsto> rl\<lparr>a_next := p\<rparr>)) (req_head s1) (qs @ [l] @ [p])"
      by (rule chain_snoc [OF q1(1) [unfolded l] d(1) rl(1) p1]) (use d in auto)
    then have "queue_is s2 (ps @ [p])" using d l by (auto simp: queue_is_def s2_def)
    moreover have "enqueueRequest now p s = Some s2"
      using u h rl by (simp add: enqueueRequest_def update_async_def s2_def)
    moreover have "contents s2 = contents s"
      using contents_update(1) [OF rl(1), of p] c1 by (simp add: s2_def contents_def)
    ultimately show ?thesis by blast
  qed
qed

lemma unlink_queue:
  assumes q: "queue_is s (ps @ p # qs)"
  shows "\<exists>s'. unlink p (if ps = [] then 0 else last ps) s = Some s' \<and> queue_is s' (ps @ qs) \<and> contents s' = contents s"
proof -
  have d: "distinct (ps @ p # qs)" and ch: "chain (async s) (req_head s) (ps @ p # qs)"
    and t: "req_tail s = last (p # qs)" using q by (auto simp: queue_is_def)
  obtain r where r: "async s p = Some r" "p \<noteq> 0" "chain (async s) (a_next r) qs" using chain_split [OF ch] by blast
  have tl: "req_tail s = p \<longleftrightarrow> qs = []" using t d by (auto simp: last_ConsR dest: last_in_set)
  show ?thesis
  proof (cases "ps = []")
    case True
    then show ?thesis using r d t tl by (auto simp: unlink_def queue_is_def contents_def)
  next
    case False
    then obtain us l where l: "ps = us @ [l]" by (meson rev_exhaust)
    obtain rl where rl: "async s l = Some rl" "l \<noteq> 0" using chain_split [of "async s" _ us l "p # qs"] ch l by auto
    have pre: "chain ((async s)(l \<mapsto> rl\<lparr>a_next := a_next r\<rparr>)) (req_head s) (us @ [l] @ qs)"
      using chain_relink [OF ch [unfolded l append_assoc append_Cons append_Nil] _ rl(1) r(3)] d l by auto
    have "contents (s\<lparr>async := (async s)(l \<mapsto> rl\<lparr>a_next := a_next r\<rparr>)\<rparr>) = contents s"
      by (rule contents_update(1) [OF rl(1)])
    then show ?thesis using pre rl r d t tl l by (auto simp: unlink_def queue_is_def update_async_def)
  qed
qed

lemma removeRequest_queue:
  assumes "queue_is s ps"
  shows "\<exists>s'. removeRequest p s = Some (if p \<in> set ps then p else 0, s') \<and> queue_is s' (remove1 p ps) \<and> contents s' = contents s"
proof (cases "p \<in> set ps")
  case True
  then obtain us vs where s: "ps = us @ p # vs" "p \<notin> set us" by (meson split_list_first)
  then have ch: "chain (async s) (req_head s) (us @ p # vs)" using assms by (simp add: queue_is_def)
  note f = remove_loop_found [OF ch s(2), of 0]
  obtain s' where "unlink p (if us = [] then 0 else last us) s = Some s'" "queue_is s' (us @ vs)" "contents s' = contents s"
    using unlink_queue assms s(1) by blast
  moreover have "p \<noteq> 0" using chain_split [OF ch] by blast
  moreover have "remove1 p ps = us @ vs" using s by (simp add: remove1_append)
  ultimately show ?thesis using True f by (auto simp: removeRequest_def)
next
  case False
  then have "remove_loop (async s) p (req_head s) 0 = Some (0, if ps = [] then 0 else last ps)"
    using assms remove_loop_absent by (auto simp: queue_is_def)
  then show ?thesis using False assms by (auto simp: removeRequest_def remove1_idem)
qed

section \<open>The contract of the queue\<close>

text \<open>A queue of addresses: \<open>is_queue s ps\<close> says that the state holds the addresses \<open>ps\<close> in this order, \<open>cell\<close> is the
  content of the request at an address.\<close>

locale pending_queue =
  fixes is_queue :: "'s \<Rightarrow> u64 list \<Rightarrow> bool"
    and enq :: "ticks \<Rightarrow> u64 \<Rightarrow> 's \<Rightarrow> 's option"
    and rem :: "u64 \<Rightarrow> 's \<Rightarrow> (u64 \<times> 's) option"
    and cell :: "'s \<Rightarrow> u64 \<Rightarrow> 'c option"
  assumes enq_law: "is_queue s ps \<Longrightarrow> p \<noteq> 0 \<Longrightarrow> cell s p \<noteq> None \<Longrightarrow> p \<notin> set ps \<Longrightarrow>
      \<exists>s'. enq t p s = Some s' \<and> is_queue s' (ps @ [p]) \<and> cell s' = cell s"
    and rem_law: "is_queue s ps \<Longrightarrow>
      \<exists>s'. rem p s = Some (if p \<in> set ps then p else 0, s') \<and> is_queue s' (remove1 p ps) \<and> cell s' = cell s"
    and queue_law: "is_queue s ps \<Longrightarrow> distinct ps \<and> (\<forall>p\<in>set ps. p \<noteq> 0 \<and> cell s p \<noteq> None)"
begin

text \<open>A request is handed out at most once: a second removal finds nothing.\<close>

lemma rem_twice:
  assumes "is_queue s ps" "rem p s = Some (x, s')" "rem p s' = Some (y, s'')"
  shows "y = 0"
proof -
  have "is_queue s' (remove1 p ps)" "distinct ps"
    using rem_law [OF assms(1), of p] queue_law [OF assms(1)] assms(2) by auto
  then show ?thesis using rem_law [of s' "remove1 p ps" p] assms(3) by auto
qed

end

text \<open>A sequence of operations: \<open>Inl\<close> appends, \<open>Inr\<close> removes. The list model runs beside the queue.\<close>

primrec run_ops :: "(ticks \<Rightarrow> u64 \<Rightarrow> 's \<Rightarrow> 's option) \<Rightarrow> (u64 \<Rightarrow> 's \<Rightarrow> (u64 \<times> 's) option) \<Rightarrow> (ticks \<times> u64 + u64) list \<Rightarrow> 's \<Rightarrow> (u64 list \<times> 's) option" where
  "run_ops enq rem [] s = Some ([], s)"
| "run_ops enq rem (x # xs) s = (case x of
     Inl (t, p) \<Rightarrow> (case enq t p s of None \<Rightarrow> None | Some s \<Rightarrow> run_ops enq rem xs s)
   | Inr p \<Rightarrow> (case rem p s of None \<Rightarrow> None | Some (y, s) \<Rightarrow> map_option (\<lambda>(ys, s). (y # ys, s)) (run_ops enq rem xs s)))"

text \<open>The same on lists of addresses, and when a sequence of operations respects the interface: only an allocated
  request that is not queued is appended.\<close>

primrec list_ops :: "(ticks \<times> u64 + u64) list \<Rightarrow> u64 list \<Rightarrow> u64 list \<times> u64 list" where
  "list_ops [] ps = ([], ps)"
| "list_ops (x # xs) ps = (case x of
     Inl (t, p) \<Rightarrow> list_ops xs (ps @ [p])
   | Inr p \<Rightarrow> (case list_ops xs (remove1 p ps) of (ys, qs) \<Rightarrow> ((if p \<in> set ps then p else 0) # ys, qs)))"

primrec ops_allowed :: "(u64 \<Rightarrow> bool) \<Rightarrow> (ticks \<times> u64 + u64) list \<Rightarrow> u64 list \<Rightarrow> bool" where
  "ops_allowed ok [] ps \<longleftrightarrow> True"
| "ops_allowed ok (x # xs) ps \<longleftrightarrow> (case x of
     Inl (t, p) \<Rightarrow> p \<noteq> 0 \<and> ok p \<and> p \<notin> set ps \<and> ops_allowed ok xs (ps @ [p])
   | Inr p \<Rightarrow> ops_allowed ok xs (remove1 p ps))"

context pending_queue
begin

lemma run_ops_refines:
  assumes "is_queue s ps" "ops_allowed (\<lambda>p. cell s p \<noteq> None) xs ps"
  shows "\<exists>s'. run_ops enq rem xs s = Some (fst (list_ops xs ps), s') \<and> is_queue s' (snd (list_ops xs ps)) \<and> cell s' = cell s"
  using assms
proof (induction xs arbitrary: s ps)
  case Nil
  then show ?case by simp
next
  case (Cons x xs)
  show ?case
  proof (cases x)
    case (Inl tp)
    obtain t p where tp: "tp = (t, p)" by fastforce
    then obtain s1 where "enq t p s = Some s1" "is_queue s1 (ps @ [p])" "cell s1 = cell s"
      using enq_law [OF Cons.prems(1), of p t] Cons.prems(2) Inl by auto
    then show ?thesis using Cons.IH [of s1 "ps @ [p]"] Cons.prems(2) Inl tp by auto
  next
    case (Inr p)
    then obtain s1 where "rem p s = Some (if p \<in> set ps then p else 0, s1)" "is_queue s1 (remove1 p ps)" "cell s1 = cell s"
      using rem_law [OF Cons.prems(1), of p] by blast
    then show ?thesis using Cons.IH [of s1 "remove1 p ps"] Cons.prems(2) Inr by (auto split: prod.splits)
  qed
qed

end

lemma queue_is_law: "queue_is s ps \<Longrightarrow> distinct ps \<and> (\<forall>p\<in>set ps. p \<noteq> 0 \<and> contents s p \<noteq> None)"
  by (auto simp: queue_is_def contents_None dest: chain_allocated)

interpretation fuse_requests: pending_queue queue_is enqueueRequest removeRequest contents
  by unfold_locales (erule (3) enqueueRequest_queue, erule removeRequest_queue, erule queue_is_law)

section \<open>Properties\<close>

text \<open>C14. The linked list of pending requests implements a queue: every sequence of calls of \<open>enqueueRequest\<close> and
  \<open>removeRequest\<close> that appends only allocated requests that are not queued yet follows no dangling pointer and
  ends, its removals return what removals from a list of addresses return (the request if it is queued, \<open>NULL\<close>
  otherwise), the list that is linked afterwards is the list of addresses, and offset, length, buffer and
  fuse handle of every request are unchanged.\<close>

theorem request_list_refines:
  assumes "queue_is s ps" "ops_allowed (\<lambda>p. async s p \<noteq> None) xs ps"
  shows "\<exists>s'. run_ops enqueueRequest removeRequest xs s = Some (fst (list_ops xs ps), s') \<and> queue_is s' (snd (list_ops xs ps))
     \<and> contents s' = contents s"
  using fuse_requests.run_ops_refines [OF assms(1)] assms(2) by (simp add: contents_None)

definition sample_async :: "nat \<Rightarrow> dnbd3_async" where
  "sample_async n = \<lparr>a_next = 0, a_buffer = None, a_time = \<lparr>tv_sec = 0, tv_nsec = 0\<rparr>, a_offset = 0, a_length = 4096, a_fuse_req = n\<rparr>"

definition sample_requests :: request_list where
  "sample_requests = \<lparr>req_head = 0, req_tail = 0, async = [16 \<mapsto> sample_async 1, 32 \<mapsto> sample_async 2]\<rparr>"

theorem request_list_refines_witness:
  "\<exists>s'. run_ops enqueueRequest removeRequest [Inl (\<lparr>tv_sec = 0, tv_nsec = 0\<rparr>, 16), Inl (\<lparr>tv_sec = 0, tv_nsec = 0\<rparr>, 32), Inr 16, Inr 16] sample_requests
      = Some ([16, 0], s') \<and> queue_is s' [32] \<and> contents s' = contents sample_requests"
  using request_list_refines [of sample_requests "[]"
      "[Inl (\<lparr>tv_sec = 0, tv_nsec = 0\<rparr>, 16), Inl (\<lparr>tv_sec = 0, tv_nsec = 0\<rparr>, 32), Inr 16, Inr 16]"]
  by (simp add: sample_requests_def queue_is_def)

end
