(* ===== verification/Fuse_Servers.thy ===== *)
theory Fuse_Servers
  imports Protocol Timing "HOL-Library.Signed_Division" "HOL-Library.Multiset"
begin

text \<open>
  The table of servers of the fuse client (\<open>src/fuse/connection.c\<close>): learning servers
  (\<open>addAltServers\<close>), keeping working servers in the first places (\<open>sortAltServers\<close>), the response times
  and the decision of \<open>probeAltServers\<close> to switch. The table and the array of learned servers have \<open>MAX_ALTS\<close>
  entries; an entry with host type 0 is free. The members of type \<open>int\<close> are integers; the property on response times
  shows that the computations stay inside of 32 bits. A result \<open>None\<close> is an access outside of an array or
  through \<open>NULL\<close>.
\<close>

section \<open>Table\<close>

definition MAX_ALTS :: nat where "MAX_ALTS = 16"
definition MAX_ALTS_ACTIVE :: nat where "MAX_ALTS_ACTIVE = 5"
definition FAIL_BACKOFF_START_COUNT :: int where "FAIL_BACKOFF_START_COUNT = 8"
definition RTT_COUNT :: nat where "RTT_COUNT = 4"
definition CLIENT_RTT_UNREACHABLE :: int where "CLIENT_RTT_UNREACHABLE = 0x7FFFFFF"
definition RTT_ABSOLUTE_THRESHOLD :: int where "RTT_ABSOLUTE_THRESHOLD = 80000"

definition CLIENT_RTT_THRESHOLD_FACTOR :: "int \<Rightarrow> int" where
  "CLIENT_RTT_THRESHOLD_FACTOR us = (us * 2) sdiv 3"

lemmas fuse_consts = MAX_ALTS_def MAX_ALTS_ACTIVE_def FAIL_BACKOFF_START_COUNT_def RTT_COUNT_def
  CLIENT_RTT_UNREACHABLE_def RTT_ABSOLUTE_THRESHOLD_def

record alt_server =
  al_host :: dnbd3_host
  consecutiveFails :: int
  al_rtt :: int
  rtts :: "int list"
  rttIndex :: nat
  bestCount :: int
  liveRtt :: int

abbreviation al_used :: "alt_server \<Rightarrow> bool" where
  "al_used a \<equiv> host_type (al_host a) \<noteq> 0"

text \<open>Memory filled with zeros.\<close>

definition zero_fuse_host :: dnbd3_host where
  "zero_fuse_host = \<lparr>addr = replicate 16 0, port = 0, host_type = 0\<rparr>"

definition zero_server :: alt_server where
  "zero_server = \<lparr>al_host = zero_fuse_host, consecutiveFails = 0, al_rtt = 0, rtts = replicate RTT_COUNT 0, rttIndex = 0,
     bestCount = 0, liveRtt = 0\<rparr>"

definition zero_newservers :: "dnbd3_server_entry list" where
  "zero_newservers = replicate MAX_ALTS \<lparr>se_host = zero_fuse_host, se_failures = 0\<rparr>"

text \<open>The assignments with which a server starts in a slot.\<close>

definition fresh_server :: "dnbd3_host \<Rightarrow> int \<Rightarrow> alt_server \<Rightarrow> alt_server" where
  "fresh_server h fails a = a\<lparr>al_host := h, consecutiveFails := fails, bestCount := 0, rtts := (rtts a)[0 := CLIENT_RTT_UNREACHABLE],
     rttIndex := 1, liveRtt := 0\<rparr>"

section \<open>Learning servers\<close>

text \<open>The search for a slot in \<open>addAltServers\<close>: index and content of the slots that are left, the slot found so far.\<close>

fun slot_scan :: "alt_server list \<Rightarrow> nat \<Rightarrow> alt_server list \<Rightarrow> nat option \<Rightarrow> nat option" where
  "slot_scan alts eIdx [] slot = slot"
| "slot_scan alts eIdx (a # as) slot =
    (if \<not> al_used a then Some eIdx
     else slot_scan alts (Suc eIdx) as
       (case slot of
          None \<Rightarrow> None
        | Some j \<Rightarrow> if consecutiveFails a > FAIL_BACKOFF_START_COUNT \<and> consecutiveFails (alts ! j) < consecutiveFails a
             then Some eIdx else slot))"

definition add_server :: "dnbd3_server_entry \<Rightarrow> alt_server list \<Rightarrow> alt_server list" where
  "add_server new alts =
    (if host_type (se_host new) = 0 then alts
     else if list_ex (\<lambda>a. isSameAddress (se_host new) (al_host a)) alts then alts
     else case slot_scan alts 0 alts None of
       None \<Rightarrow> alts
     | Some slot \<Rightarrow> alts[slot := fresh_server (se_host new) 0 (alts ! slot)])"

definition addAltServers :: "dnbd3_server_entry list \<Rightarrow> alt_server list \<Rightarrow> dnbd3_server_entry list \<times> alt_server list" where
  "addAltServers newservers alts = (zero_newservers, fold add_server newservers alts)"

section \<open>Active and inactive servers\<close>

definition failing_slot :: "alt_server \<Rightarrow> bool" where
  "failing_slot a \<longleftrightarrow> \<not> al_used a \<or> consecutiveFails a > FAIL_BACKOFF_START_COUNT"

function next_failing :: "nat \<Rightarrow> alt_server list \<Rightarrow> nat" where
  "next_failing ac alts =
    (if ac < MAX_ALTS_ACTIVE \<and> \<not> failing_slot (alts ! ac) then next_failing (Suc ac) alts else ac)"
  by pat_completeness auto
termination
  by (relation "measure (\<lambda>(ac, alts). MAX_ALTS_ACTIVE - ac)") auto

declare next_failing.simps [simp del]

definition switch_slots :: "nat \<Rightarrow> nat \<Rightarrow> alt_server list \<Rightarrow> alt_server list" where
  "switch_slots ia ac alts = alts
    [ia := fresh_server (al_host (alts ! ac)) (FAIL_BACKOFF_START_COUNT * 4) (alts ! ia),
     ac := fresh_server (al_host (alts ! ia)) 0 (alts ! ac)]"

fun sort_loop :: "nat list \<Rightarrow> nat \<Rightarrow> alt_server list \<Rightarrow> alt_server list" where
  "sort_loop [] ac alts = alts"
| "sort_loop (ia # ias) ac alts =
    (if \<not> al_used (alts ! ia) \<or> consecutiveFails (alts ! ia) > 0 then sort_loop ias ac alts
     else let ac = next_failing ac alts in
       if ac = MAX_ALTS_ACTIVE then alts else sort_loop ias ac (switch_slots ia ac alts))"

definition sortAltServers :: "alt_server list \<Rightarrow> alt_server list" where
  "sortAltServers alts = sort_loop [MAX_ALTS_ACTIVE..<MAX_ALTS] 0 alts"

section \<open>Response times\<close>

text \<open>The update of the live response time when a block arrives; \<open>diff\<close> is the time since the request was queued.\<close>

definition update_liveRtt :: "dnbd3_host \<Rightarrow> u64 \<Rightarrow> alt_server list \<Rightarrow> alt_server list" where
  "update_liveRtt currentServer diff alts =
    (if diff < 30 * 1000 * 1000
     then case first_index (\<lambda>a. al_used a \<and> isSameAddressPort currentServer (al_host a)) alts of
       None \<Rightarrow> alts
     | Some i \<Rightarrow> alts[i := (alts ! i)\<lparr>liveRtt := (liveRtt (alts ! i) * 3 + sint (ucast diff :: u32)) sdiv 4\<rparr>]
     else alts)"

definition next_rttIndex :: "alt_server \<Rightarrow> alt_server" where
  "next_rttIndex srv = srv\<lparr>rttIndex := (if rttIndex srv \<ge> RTT_COUNT then 0 else rttIndex srv + 1)\<rparr>"

definition store_rtt :: "int \<Rightarrow> alt_server \<Rightarrow> alt_server option" where
  "store_rtt v srv = (if rttIndex srv < RTT_COUNT then Some (srv\<lparr>rtts := (rtts srv)[rttIndex srv := v]\<rparr>) else None)"

text \<open>After a successful and after a failed probe.\<close>

definition probe_success :: "u64 \<Rightarrow> alt_server \<Rightarrow> alt_server option" where
  "probe_success us srv =
    map_option (\<lambda>srv. let newRtt = sum_list (rtts srv) in
        srv\<lparr>al_rtt := (if liveRtt srv \<noteq> 0 then (newRtt + liveRtt srv) sdiv (int RTT_COUNT + 1) else newRtt sdiv int RTT_COUNT)\<rparr>)
      (store_rtt (sint (ucast us :: u32)) (srv\<lparr>consecutiveFails := 0\<rparr>))"

definition probe_failure :: "int \<Rightarrow> alt_server \<Rightarrow> alt_server option" where
  "probe_failure penalty srv =
    map_option (\<lambda>srv. srv\<lparr>consecutiveFails := consecutiveFails srv + penalty + 1\<rparr>) (store_rtt CLIENT_RTT_UNREACHABLE srv)"

section \<open>The decision to switch\<close>

definition decay :: "int \<Rightarrow> alt_server \<Rightarrow> alt_server" where
  "decay currentLive srv =
    (if liveRtt srv > currentLive \<and> liveRtt srv > al_rtt srv
     then srv\<lparr>liveRtt := liveRtt srv - (liveRtt srv sdiv 100 + 1)\<rparr> else srv)"

text \<open>The loop over the active servers; \<open>best\<close> and \<open>current\<close> are indexes, \<open>rnd\<close> is what \<open>rand\<close> returns.\<close>

fun count_loop :: "int \<Rightarrow> nat \<Rightarrow> nat \<Rightarrow> nat list \<Rightarrow> alt_server list \<times> bool \<Rightarrow> alt_server list \<times> bool" where
  "count_loop rnd best current [] (alts, doSwitch) = (alts, doSwitch)"
| "count_loop rnd best current (i # is) (alts, doSwitch) =
    (let srv = decay (liveRtt (alts ! current)) (alts ! i);
         srv = (if i = best then (if bestCount srv < 50 then srv\<lparr>bestCount := bestCount srv + 2\<rparr> else srv)
                else if bestCount srv > 0 then srv\<lparr>bestCount := bestCount srv - 1\<rparr> else srv);
         doSwitch = (if i = best \<and> bestCount srv > 12 \<and> al_rtt srv < al_rtt (alts ! current) \<and> bestCount srv > rnd smod 50
                     then True else doSwitch)
     in count_loop rnd best current is (alts[i := srv], doSwitch))"

definition forgive :: "alt_server \<Rightarrow> alt_server" where
  "forgive a = (if consecutiveFails a > 0 then a\<lparr>consecutiveFails := consecutiveFails a - 1\<rparr> else a)"

definition decide :: "int \<Rightarrow> nat \<Rightarrow> nat option \<Rightarrow> alt_server list \<Rightarrow> (bool \<times> alt_server list) option" where
  "decide rnd best current alts = (case current of
     None \<Rightarrow> None
   | Some cur \<Rightarrow>
      (let (alts, doSwitch) = count_loop rnd best cur [0..<MAX_ALTS_ACTIVE] (alts, False);
           alts = take MAX_ALTS_ACTIVE alts @ map forgive (drop MAX_ALTS_ACTIVE alts);
           doSwitch = (doSwitch \<and> \<not> bestCount (alts ! best) - bestCount (alts ! cur) < 8);
           doSwitch = (doSwitch \<or> al_rtt (alts ! cur) > al_rtt (alts ! best) + RTT_ABSOLUTE_THRESHOLD
             \<or> CLIENT_RTT_THRESHOLD_FACTOR (al_rtt (alts ! cur)) > al_rtt (alts ! best) + 1000)
       in Some (doSwitch, alts)))"

definition reset_bestCounts :: "nat \<Rightarrow> alt_server list \<Rightarrow> alt_server list" where
  "reset_bestCounts best alts = map (\<lambda>i. if i \<noteq> best then (alts ! i)\<lparr>bestCount := 0\<rparr> else alts ! i) [0..<length alts]"


section \<open>Addresses of the table\<close>

definition addr_key :: "dnbd3_host \<Rightarrow> u8 \<times> u8 list" where
  "addr_key h = (host_type h, take (addr_len h) (addr h))"

lemma isSameAddress_key: "isSameAddress a b \<longleftrightarrow> addr_key a = addr_key b"
  by (auto simp: isSameAddress_def addr_key_def addr_len_def)

definition used_keys :: "alt_server list \<Rightarrow> (u8 \<times> u8 list) list" where
  "used_keys alts = map (addr_key \<circ> al_host) (filter al_used alts)"

definition fuse_alts_wf :: "alt_server list \<Rightarrow> bool" where
  "fuse_alts_wf alts \<longleftrightarrow> length alts = MAX_ALTS \<and> distinct (used_keys alts) \<and> list_all (\<lambda>a. length (rtts a) = RTT_COUNT) alts"

lemma mset_filter_update:
  "i < length xs \<Longrightarrow> \<not> P (xs ! i) \<Longrightarrow> P y \<Longrightarrow> mset (filter P (xs[i := y])) = add_mset y (mset (filter P xs))"
proof (induction xs arbitrary: i)
  case (Cons x xs)
  then show ?case by (cases i) auto
qed simp

lemma slot_scan_free:
  "slot_scan alts i as None = map_option ((+) i) (first_index (\<lambda>a. \<not> al_used a) as)"
proof (induction as arbitrary: i)
  case (Cons a as)
  then show ?case by (cases "first_index (\<lambda>a. \<not> al_used a) as") auto
qed simp

lemma add_server_cases:
  assumes "al_used_new = (host_type (se_host new) \<noteq> 0)"
  obtains "add_server new alts = alts" "al_used_new \<longrightarrow> (\<exists>a\<in>set alts. isSameAddress (se_host new) (al_host a)) \<or> list_all al_used alts"
  | slot where "add_server new alts = alts[slot := fresh_server (se_host new) 0 (alts ! slot)]" "slot < length alts"
      "\<not> al_used (alts ! slot)" "al_used_new" "\<forall>a\<in>set alts. addr_key (se_host new) \<noteq> addr_key (al_host a)"
proof (cases "al_used_new \<and> \<not> list_ex (\<lambda>a. isSameAddress (se_host new) (al_host a)) alts")
  case False
  then have "add_server new alts = alts" using assms by (auto simp: add_server_def)
  then show ?thesis using that(1) False by (auto simp: list_ex_iff)
next
  case True
  show ?thesis
  proof (cases "first_index (\<lambda>a. \<not> al_used a) alts")
    case None
    then have "add_server new alts = alts" by (simp add: add_server_def slot_scan_free)
    moreover have "list_all al_used alts" using None by (simp add: first_index_None list_all_iff)
    ultimately show ?thesis using that(1) by blast
  next
    case (Some slot)
    then show ?thesis using that(2) [of slot] True assms first_index_Some [OF Some]
      by (auto simp: add_server_def slot_scan_free list_ex_iff isSameAddress_key)
  qed
qed

lemma fresh_server_simps [simp]: "al_host (fresh_server h f a) = h" "consecutiveFails (fresh_server h f a) = f"
  "length (rtts (fresh_server h f a)) = length (rtts a)" "bestCount (fresh_server h f a) = 0" "liveRtt (fresh_server h f a) = 0"
  "rttIndex (fresh_server h f a) = 1"
  by (simp_all add: fresh_server_def)

text \<open>What one or several learned servers change in the table.\<close>

definition learned :: "dnbd3_server_entry list \<Rightarrow> alt_server list \<Rightarrow> alt_server list \<Rightarrow> bool" where
  "learned ns alts alts' \<longleftrightarrow> fuse_alts_wf alts'
     \<and> (\<forall>i<MAX_ALTS. al_used (alts ! i) \<longrightarrow> alts' ! i = alts ! i)
     \<and> (\<forall>n\<in>set ns. host_type (se_host n) \<noteq> 0 \<longrightarrow> (\<exists>a\<in>set alts'. isSameAddress (se_host n) (al_host a)) \<or> list_all al_used alts')
     \<and> al_host ` set (filter al_used alts') \<subseteq> al_host ` set (filter al_used alts) \<union> se_host ` set ns"

lemma add_server_learned:
  assumes wf: "fuse_alts_wf alts"
  shows "learned [n] alts (add_server n alts)"
proof (rule add_server_cases [OF refl, of n alts])
  assume "add_server n alts = alts"
    "host_type (se_host n) \<noteq> 0 \<longrightarrow> (\<exists>a\<in>set alts. isSameAddress (se_host n) (al_host a)) \<or> list_all al_used alts"
  then show ?thesis using wf by (auto simp: learned_def)
next
  fix slot let ?f = "fresh_server (se_host n) 0 (alts ! slot)"
  assume a: "add_server n alts = alts[slot := ?f]" "slot < length alts" "\<not> al_used (alts ! slot)"
    "host_type (se_host n) \<noteq> 0" "\<forall>a\<in>set alts. addr_key (se_host n) \<noteq> addr_key (al_host a)"
  have m: "mset (filter al_used (alts[slot := ?f])) = mset (?f # filter al_used alts)"
    using mset_filter_update [of slot alts al_used ?f] a(2-4) by simp
  have "mset (used_keys (alts[slot := ?f])) = mset (addr_key (se_host n) # used_keys alts)"
    using arg_cong [OF m, of "image_mset (addr_key \<circ> al_host)"] by (simp add: used_keys_def)
  moreover have "distinct (addr_key (se_host n) # used_keys alts)"
    using wf a(5) by (auto simp: fuse_alts_wf_def used_keys_def)
  ultimately have "distinct (used_keys (alts[slot := ?f]))" using mset_eq_imp_distinct_iff by blast
  moreover have "list_all (\<lambda>a. length (rtts a) = RTT_COUNT) (alts[slot := ?f])"
    using wf a(2) by (intro list_all_update) (auto simp: fuse_alts_wf_def list_all_length)
  moreover have "set (filter al_used (alts[slot := ?f])) = insert ?f (set (filter al_used alts))"
    using mset_eq_setD [OF m] by simp
  moreover have "?f \<in> set (alts[slot := ?f])" using a(2) by (simp add: set_update_memI)
  ultimately show ?thesis using a wf
    by (auto simp: learned_def fuse_alts_wf_def nth_list_update isSameAddress_key intro!: bexI [of _ ?f])
qed

lemma all_used_kept:
  assumes "learned ns alts alts'" "list_all al_used alts" "fuse_alts_wf alts"
  shows "list_all al_used alts'"
  using assms by (auto simp: learned_def fuse_alts_wf_def list_all_length)

lemma known_kept:
  assumes "learned ns alts alts'" "fuse_alts_wf alts" "a \<in> set alts" "al_used a"
  shows "a \<in> set alts'"
proof -
  obtain i where "i < length alts" "a = alts ! i" using assms(3) by (metis in_set_conv_nth)
  then have "alts' ! i = a" "i < length alts'" using assms by (auto simp: learned_def fuse_alts_wf_def)
  then show ?thesis by (metis nth_mem)
qed

lemma learned_step:
  assumes wf: "fuse_alts_wf alts" and 1: "learned [n] alts alts'" and 2: "learned ns alts' alts''"
  shows "learned (n # ns) alts alts''"
proof -
  have wf': "fuse_alts_wf alts'" using 1 by (simp add: learned_def)
  have "alts'' ! i = alts ! i" if "i < MAX_ALTS" "al_used (alts ! i)" for i
    using 1 2 that by (auto simp: learned_def)
  moreover have "(\<exists>a\<in>set alts''. isSameAddress (se_host m) (al_host a)) \<or> list_all al_used alts''"
    if m: "m \<in> set (n # ns)" "host_type (se_host m) \<noteq> 0" for m
  proof (cases "m \<in> set ns")
    case True
    then show ?thesis using 2 m(2) by (auto simp: learned_def)
  next
    case False
    then consider a where "a \<in> set alts'" "isSameAddress (se_host m) (al_host a)" | "list_all al_used alts'"
      using 1 m by (auto simp: learned_def)
    then show ?thesis
    proof cases
      case (1 a)
      then have "al_used a" using m(2) by (auto simp: isSameAddress_def)
      then show ?thesis using known_kept [OF 2 wf' 1(1)] 1(2) by blast
    next
      case 2
      then show ?thesis using all_used_kept \<open>learned ns alts' alts''\<close> wf' by blast
    qed
  qed
  moreover have "al_host ` set (filter al_used alts'') \<subseteq> al_host ` set (filter al_used alts) \<union> se_host ` set (n # ns)"
  proof -
    have "al_host ` set (filter al_used alts') \<subseteq> al_host ` set (filter al_used alts) \<union> se_host ` set [n]"
      "al_host ` set (filter al_used alts'') \<subseteq> al_host ` set (filter al_used alts') \<union> se_host ` set ns"
      using 1 2 by (simp_all only: learned_def)
    then show ?thesis by (simp only: list.set) blast
  qed
  ultimately show ?thesis using 2 by (simp add: learned_def)
qed

lemma fold_add_learned: "fuse_alts_wf alts \<Longrightarrow> learned ns alts (fold add_server ns alts)"
proof (induction ns arbitrary: alts)
  case Nil
  then show ?case by (auto simp: learned_def)
next
  case (Cons n ns)
  note 1 = add_server_learned [OF Cons.prems, of n]
  then have "learned ns (add_server n alts) (fold add_server ns (add_server n alts))"
    using Cons.IH by (simp add: learned_def)
  then show ?case using learned_step [OF Cons.prems 1] by simp
qed


section \<open>Sorting\<close>

definition idle_spare :: "alt_server \<Rightarrow> bool" where
  "idle_spare a \<longleftrightarrow> al_used a \<and> consecutiveFails a \<le> 0"

lemma next_failing_spec:
  "ac \<le> MAX_ALTS_ACTIVE \<Longrightarrow> (\<forall>i<ac. \<not> failing_slot (alts ! i)) \<Longrightarrow>
   ac \<le> next_failing ac alts \<and> next_failing ac alts \<le> MAX_ALTS_ACTIVE \<and> (\<forall>i<next_failing ac alts. \<not> failing_slot (alts ! i))
     \<and> (next_failing ac alts < MAX_ALTS_ACTIVE \<longrightarrow> failing_slot (alts ! next_failing ac alts))"
proof (induction ac alts rule: next_failing.induct)
  case (1 ac alts)
  show ?case
  proof (cases "ac < MAX_ALTS_ACTIVE \<and> \<not> failing_slot (alts ! ac)")
    case True
    then have "next_failing ac alts = next_failing (Suc ac) alts" by (simp add: next_failing.simps [of ac])
    moreover have "\<forall>i<Suc ac. \<not> failing_slot (alts ! i)" using 1(3) True by (auto simp: less_Suc_eq)
    ultimately show ?thesis using 1(1) True by auto
  next
    case False
    then have "next_failing ac alts = ac" by (auto simp: next_failing.simps [of ac])
    then show ?thesis using 1(2,3) False by auto
  qed
qed

lemma length_switch_slots [simp]: "length (switch_slots ia ac alts) = length alts"
  by (simp add: switch_slots_def)

lemma switch_slots_hosts:
  assumes "ia < length alts" "ac < length alts" "ia \<noteq> ac"
  shows "mset (map al_host (switch_slots ia ac alts)) = mset (map al_host alts)"
proof -
  have "map al_host (switch_slots ia ac alts) = (map al_host alts)[ia := map al_host alts ! ac, ac := map al_host alts ! ia]"
    using assms by (simp add: switch_slots_def map_update)
  then show ?thesis using mset_swap [of ac "map al_host alts" ia] assms by (simp add: list_update_swap)
qed

text \<open>The loop keeps the hosts; it ends with no failing active server, or with no spare server behind them.\<close>

lemma sort_loop_spec:
  assumes "set ias \<subseteq> {MAX_ALTS_ACTIVE..<length alts}" "sorted_wrt (<) ias" "ac \<le> MAX_ALTS_ACTIVE"
    "\<forall>i<ac. \<not> failing_slot (alts ! i)"
    "\<forall>i. MAX_ALTS_ACTIVE \<le> i \<longrightarrow> i < length alts \<longrightarrow> i \<notin> set ias \<longrightarrow> \<not> idle_spare (alts ! i)"
    "MAX_ALTS_ACTIVE \<le> length alts"
  shows "mset (map al_host (sort_loop ias ac alts)) = mset (map al_host alts) \<and>
    map (\<lambda>a. length (rtts a)) (sort_loop ias ac alts) = map (\<lambda>a. length (rtts a)) alts \<and>
    ((\<forall>i<MAX_ALTS_ACTIVE. \<not> failing_slot (sort_loop ias ac alts ! i))
     \<or> (\<forall>i. MAX_ALTS_ACTIVE \<le> i \<longrightarrow> i < length alts \<longrightarrow> \<not> idle_spare (sort_loop ias ac alts ! i)))"
  using assms
proof (induction ias arbitrary: ac alts)
  case Nil
  then show ?case by simp
next
  case (Cons ia ias)
  let ?ac = "next_failing ac alts"
  note nf = next_failing_spec [OF Cons.prems(3,4)]
  show ?case
  proof (cases "idle_spare (alts ! ia)")
    case False
    then have s: "sort_loop (ia # ias) ac alts = sort_loop ias ac alts" by (auto simp: idle_spare_def)
    have "\<forall>i. MAX_ALTS_ACTIVE \<le> i \<longrightarrow> i < length alts \<longrightarrow> i \<notin> set ias \<longrightarrow> \<not> idle_spare (alts ! i)"
      using Cons.prems(5) False by auto
    then show ?thesis using Cons.IH [of alts ac] Cons.prems s by simp
  next
    case True
    then have g: "\<not> (\<not> al_used (alts ! ia) \<or> consecutiveFails (alts ! ia) > 0)" by (simp add: idle_spare_def)
    show ?thesis
    proof (cases "?ac = MAX_ALTS_ACTIVE")
      case True
      then show ?thesis using g nf by (simp add: Let_def)
    next
      case False
      let ?alts = "switch_slots ia ?ac alts"
      have ac: "?ac < MAX_ALTS_ACTIVE" "ia < length alts" "MAX_ALTS_ACTIVE \<le> ia" "?ac < length alts" "ia \<noteq> ?ac"
        using nf False Cons.prems(1,6) by auto
      have n: "?alts ! i = (if i = ?ac then fresh_server (al_host (alts ! ia)) 0 (alts ! ?ac)
          else if i = ia then fresh_server (al_host (alts ! ?ac)) (FAIL_BACKOFF_START_COUNT * 4) (alts ! ia) else alts ! i)" for i
        using ac by (simp add: switch_slots_def nth_list_update)
      have a: "\<forall>i<?ac. \<not> failing_slot (?alts ! i)" using nf ac by (auto simp: n)
      have b: "\<forall>i. MAX_ALTS_ACTIVE \<le> i \<longrightarrow> i < length ?alts \<longrightarrow> i \<notin> set ias \<longrightarrow> \<not> idle_spare (?alts ! i)"
        using Cons.prems(5) ac by (auto simp: n idle_spare_def FAIL_BACKOFF_START_COUNT_def)
      have "map (\<lambda>a. length (rtts a)) ?alts = map (\<lambda>a. length (rtts a)) alts"
        by (rule nth_equalityI) (auto simp: n)
      then show ?thesis using Cons.IH [of ?alts ?ac] Cons.prems(1,2,6) a b nf g False switch_slots_hosts [OF ac(2,4,5)]
        by (simp add: Let_def)
    qed
  qed
qed

lemma used_keys_hosts:
  "mset (map al_host alts') = mset (map al_host alts) \<Longrightarrow> mset (used_keys alts') = mset (used_keys alts)"
proof -
  assume m: "mset (map al_host alts') = mset (map al_host alts)"
  have k: "mset (used_keys as) = image_mset addr_key (filter_mset (\<lambda>h. host_type h \<noteq> 0) (mset (map al_host as)))" for as
    by (induction as) (auto simp: used_keys_def)
  show ?thesis unfolding k m ..
qed

section \<open>The decision\<close>

text \<open>What the loop over the active servers leaves alone, and when it asks for a switch.\<close>

lemma decay_rtt [simp]: "al_rtt (decay l a) = al_rtt a" "bestCount (decay l a) = bestCount a" "al_host (decay l a) = al_host a"
  by (simp_all add: decay_def)

lemma count_loop_rtt:
  assumes "set is \<subseteq> {..<length alts}" "cur < length alts"
  shows "map al_rtt (fst (count_loop rnd best cur is (alts, d))) = map al_rtt alts
    \<and> (snd (count_loop rnd best cur is (alts, d)) \<longrightarrow> d \<or> al_rtt (alts ! best) < al_rtt (alts ! cur))"
  using assms
proof (induction "is" arbitrary: alts d)
  case Nil
  then show ?case by simp
next
  case (Cons i "is")
  define srv where "srv = decay (liveRtt (alts ! cur)) (alts ! i)"
  define srv' where "srv' = (if i = best then (if bestCount srv < 50 then srv\<lparr>bestCount := bestCount srv + 2\<rparr> else srv)
                else if bestCount srv > 0 then srv\<lparr>bestCount := bestCount srv - 1\<rparr> else srv)"
  define d' where "d' = (if i = best \<and> bestCount srv' > 12 \<and> al_rtt srv' < al_rtt (alts ! cur) \<and> bestCount srv' > rnd smod 50
                     then True else d)"
  have r: "al_rtt srv' = al_rtt (alts ! i)" by (simp add: srv'_def srv_def)
  have e: "count_loop rnd best cur (i # is) (alts, d) = count_loop rnd best cur is (alts[i := srv'], d')"
    by (simp only: count_loop.simps Let_def srv_def srv'_def d'_def)
  have m: "map al_rtt (alts[i := srv']) = map al_rtt alts"
    using Cons.prems(1) by (simp add: map_update r list_update_same_conv)
  have n: "al_rtt (alts[i := srv'] ! k) = al_rtt (alts ! k)" for k
    using Cons.prems(1) r by (cases "k = i") (auto simp: nth_list_update)
  have "d' \<longrightarrow> d \<or> al_rtt (alts ! best) < al_rtt (alts ! cur)" using r by (auto simp: d'_def)
  then show ?case using Cons.IH [of "alts[i := srv']" d'] Cons.prems unfolding e by (auto simp: m n)
qed

lemma sdiv_bounds: "0 \<le> (x::int) \<Longrightarrow> x sdiv 3 = x div 3"
  by (simp add: signed_divide_int_def sgn_if)

lemma decide_faster:
  assumes "decide rnd best current alts = Some (True, alts')" "length alts = MAX_ALTS" "best < MAX_ALTS" "\<forall>c. current = Some c \<longrightarrow> c < MAX_ALTS"
    "\<forall>a\<in>set alts. 0 \<le> al_rtt a"
  shows "\<exists>cur. current = Some cur \<and> al_rtt (alts ! best) < al_rtt (alts ! cur) \<and> best \<noteq> cur"
proof -
  obtain cur where c: "current = Some cur" "cur < MAX_ALTS"
    using assms(1,4) by (auto simp: decide_def split: option.splits)
  obtain as d where l: "count_loop rnd best cur [0..<MAX_ALTS_ACTIVE] (alts, False) = (as, d)" by fastforce
  have s: "set [0..<MAX_ALTS_ACTIVE] \<subseteq> {..<length alts}" using assms(2) by (auto simp: fuse_consts)
  note cl = count_loop_rtt [OF s, of cur rnd best False, unfolded l]
  have m: "map al_rtt as = map al_rtt alts" "d \<longrightarrow> al_rtt (alts ! best) < al_rtt (alts ! cur)"
    using cl c(2) assms(2) by auto
  let ?as = "take MAX_ALTS_ACTIVE as @ map forgive (drop MAX_ALTS_ACTIVE as)"
  have f: "al_rtt (forgive a) = al_rtt a" for a by (simp add: forgive_def)
  have "map al_rtt ?as = map al_rtt alts" using m(1) f
    by (metis (no_types, lifting) append_take_drop_id comp_apply list.map_comp map_append map_ext)
  then have n: "al_rtt (?as ! i) = al_rtt (alts ! i)" if "i < MAX_ALTS" for i
    using that assms(2) by (metis (no_types, lifting) length_map nth_map)
  have nn: "0 \<le> al_rtt (alts ! cur)" "0 \<le> al_rtt (alts ! best)" using assms(2,3,5) c(2) by (auto intro: nth_mem)
  have "d \<or> al_rtt (alts ! cur) > al_rtt (alts ! best) + RTT_ABSOLUTE_THRESHOLD
     \<or> CLIENT_RTT_THRESHOLD_FACTOR (al_rtt (alts ! cur)) > al_rtt (alts ! best) + 1000"
    using assms(1) c n [OF c(2)] n [OF assms(3)] l by (auto simp: decide_def Let_def)
  then have "al_rtt (alts ! best) < al_rtt (alts ! cur)"
    using m(2) nn by (auto simp: fuse_consts CLIENT_RTT_THRESHOLD_FACTOR_def sdiv_bounds)
  then show ?thesis using c(1) by auto
qed


lemma active_indexes: "length alts = MAX_ALTS \<Longrightarrow> set [0..<MAX_ALTS_ACTIVE] \<subseteq> {..<length alts}"
  by (auto simp: fuse_consts)

section \<open>Response times stay in range\<close>

text \<open>The range of the stored times; measured times are at most \<open>RTT_UNREACHABLE\<close> microseconds.\<close>

definition rtt_ok :: "alt_server \<Rightarrow> bool" where
  "rtt_ok a \<longleftrightarrow> length (rtts a) = RTT_COUNT \<and> (\<forall>v\<in>set (rtts a). 0 \<le> v \<and> v \<le> CLIENT_RTT_UNREACHABLE)
     \<and> 0 \<le> al_rtt a \<and> al_rtt a \<le> CLIENT_RTT_UNREACHABLE \<and> 0 \<le> liveRtt a \<and> liveRtt a < 30000000"

lemma sint_time:
  assumes "uint (us :: u64) < 2 ^ 31"
  shows "sint (ucast us :: u32) = uint us"
proof -
  have "uint (ucast us :: u32) = take_bit 32 (uint us)" by (simp add: unsigned_ucast_eq)
  also have "\<dots> = uint us" using assms by (intro take_bit_int_eq_self) auto
  finally have u: "uint (ucast us :: u32) = uint us" .
  have "sint (ucast us :: u32) = signed_take_bit 31 (uint (ucast us :: u32))" by (simp add: sint_uint)
  also have "\<dots> = uint us" unfolding u using assms order_trans [of "- (2 ^ 31)" 0 "uint us"]
    by (intro signed_take_bit_int_eq_self) auto
  finally show ?thesis .
qed

lemma quotient_range:
  assumes "0 \<le> (x::int)" "x \<le> n * b" "0 < n"
  shows "0 \<le> x sdiv n" "x sdiv n \<le> b"
proof -
  have e: "x sdiv n = x div n" using assms by (simp add: signed_divide_int_def sgn_if)
  have "x div n \<le> (n * b) div n" using assms by (intro zdiv_mono1)
  then show "0 \<le> x sdiv n" "x sdiv n \<le> b" using assms by (simp_all add: e pos_imp_zdiv_nonneg_iff)
qed

lemma rtt_ok_sum: "rtt_ok a \<Longrightarrow> 0 \<le> sum_list (rtts a) \<and> sum_list (rtts a) \<le> 4 * CLIENT_RTT_UNREACHABLE"
  by (auto simp: rtt_ok_def RTT_COUNT_def length_Suc_conv numeral_eq_Suc)

lemma rtt_ok_store:
  assumes "rtt_ok a" "0 \<le> v" "v \<le> CLIENT_RTT_UNREACHABLE" "store_rtt v a = Some a'"
  shows "rtt_ok a'"
  using assms set_update_subset_insert [of "rtts a" "rttIndex a" v]
  by (fastforce simp: rtt_ok_def store_rtt_def split: if_splits)

lemma rtt_ok_average:
  assumes "rtt_ok a"
  shows "0 \<le> (if liveRtt a \<noteq> 0 then (sum_list (rtts a) + liveRtt a) sdiv 5 else sum_list (rtts a) sdiv 4) \<and>
    (if liveRtt a \<noteq> 0 then (sum_list (rtts a) + liveRtt a) sdiv 5 else sum_list (rtts a) sdiv 4) \<le> CLIENT_RTT_UNREACHABLE"
  using rtt_ok_sum [OF assms] assms quotient_range [of "sum_list (rtts a) + liveRtt a" 5 CLIENT_RTT_UNREACHABLE]
    quotient_range [of "sum_list (rtts a)" 4 CLIENT_RTT_UNREACHABLE]
  by (auto simp: rtt_ok_def CLIENT_RTT_UNREACHABLE_def)

lemma rtt_ok_success:
  assumes "rtt_ok a" "uint us \<le> CLIENT_RTT_UNREACHABLE" "probe_success us a = Some a'"
  shows "rtt_ok a'"
proof -
  obtain b where b: "store_rtt (sint (ucast us :: u32)) (a\<lparr>consecutiveFails := 0\<rparr>) = Some b"
    "a' = b\<lparr>al_rtt := (if liveRtt b \<noteq> 0 then (sum_list (rtts b) + liveRtt b) sdiv 5 else sum_list (rtts b) sdiv 4)\<rparr>"
    using assms(3) by (auto simp: probe_success_def RTT_COUNT_def Let_def)
  have "sint (ucast us :: u32) = uint us" using assms(2) by (intro sint_time) (simp add: CLIENT_RTT_UNREACHABLE_def)
  then have "rtt_ok b" using b(1) assms(1,2) by (intro rtt_ok_store [OF _ _ _ b(1)]) (auto simp: rtt_ok_def)
  then show ?thesis using rtt_ok_average [of b] b(2) by (simp add: rtt_ok_def)
qed

lemma rtt_ok_failure: "rtt_ok a \<Longrightarrow> probe_failure n a = Some a' \<Longrightarrow> rtt_ok a'"
  using rtt_ok_store [of a CLIENT_RTT_UNREACHABLE] by (auto simp: probe_failure_def rtt_ok_def CLIENT_RTT_UNREACHABLE_def)

lemma rtt_ok_live:
  assumes "rtt_ok a" "(diff :: u64) < 30000000"
  shows "rtt_ok (a\<lparr>liveRtt := (liveRtt a * 3 + sint (ucast diff :: u32)) sdiv 4\<rparr>)"
proof -
  have d: "uint diff < 30000000" using assms(2) by (simp add: word_less_def)
  then have "sint (ucast diff :: u32) = uint diff" by (intro sint_time) simp
  then show ?thesis using assms(1) d quotient_range [of "liveRtt a * 3 + uint diff" 4 29999999]
    by (auto simp: rtt_ok_def)
qed

lemma rtt_ok_update_liveRtt: "list_all rtt_ok alts \<Longrightarrow> list_all rtt_ok (update_liveRtt cur diff alts)"
  unfolding update_liveRtt_def
  by (auto split: option.splits intro!: list_all_update rtt_ok_live dest!: first_index_Some) (simp add: list_all_length)

lemma rtt_ok_decay: "rtt_ok a \<Longrightarrow> 0 \<le> c \<Longrightarrow> rtt_ok (decay c a)"
proof -
  assume a: "rtt_ok a" "0 \<le> c"
  have "liveRtt a sdiv 100 + 1 \<le> liveRtt a \<and> 0 \<le> liveRtt a sdiv 100" if "liveRtt a > 0"
    using that by (auto simp: signed_divide_int_def sgn_if)
  then show ?thesis using a by (auto simp: decay_def rtt_ok_def)
qed

lemma rtt_ok_fresh: "rtt_ok a \<Longrightarrow> rtt_ok (fresh_server h f a)"
  using set_update_subset_insert [of "rtts a" 0 CLIENT_RTT_UNREACHABLE]
  by (fastforce simp: rtt_ok_def fresh_server_def CLIENT_RTT_UNREACHABLE_def)

lemma rtt_ok_count_loop:
  assumes "list_all rtt_ok alts" "set is \<subseteq> {..<length alts}" "cur < length alts"
  shows "list_all rtt_ok (fst (count_loop rnd best cur is (alts, d)))"
  using assms
proof (induction "is" arbitrary: alts d)
  case (Cons i "is")
  have "rtt_ok (alts ! i)" "0 \<le> liveRtt (alts ! cur)" using Cons.prems by (auto simp: list_all_length rtt_ok_def)
  then have r: "rtt_ok (decay (liveRtt (alts ! cur)) (alts ! i))" by (rule rtt_ok_decay)
  have b: "rtt_ok (a\<lparr>bestCount := n\<rparr>) = rtt_ok a" for a n by (simp add: rtt_ok_def)
  show ?case using Cons.prems r by (auto simp: Let_def b intro!: Cons.IH list_all_update)
qed simp

lemma rtt_ok_decide:
  assumes "list_all rtt_ok alts" "length alts = MAX_ALTS" "\<forall>c. current = Some c \<longrightarrow> c < MAX_ALTS" "decide rnd best current alts = Some (d, alts')"
  shows "list_all rtt_ok alts'"
proof -
  obtain cur where c: "current = Some cur" using assms(4) by (auto simp: decide_def split: option.splits)
  obtain as ds where l: "count_loop rnd best cur [0..<MAX_ALTS_ACTIVE] (alts, False) = (as, ds)" by fastforce
  have "list_all rtt_ok as"
    using rtt_ok_count_loop [OF assms(1) active_indexes [OF assms(2)], of cur rnd best False] l assms(2,3) c by simp
  moreover have "alts' = take MAX_ALTS_ACTIVE as @ map forgive (drop MAX_ALTS_ACTIVE as)"
    using assms(4) l c by (auto simp: decide_def Let_def)
  moreover have "rtt_ok (forgive a) = rtt_ok a" for a by (simp add: forgive_def rtt_ok_def)
  ultimately show ?thesis by (auto simp: list_all_iff dest: in_set_takeD in_set_dropD)
qed

section \<open>Properties\<close>

text \<open>Learning servers from a server's answer changes no entry that is in use, keeps the addresses of the table
  different, adds only hosts of the answer, and every host of the answer is in the table afterwards unless all of its
  entries are in use.\<close>

theorem fuse_learn_servers:
  assumes "fuse_alts_wf alts" "addAltServers ns alts = (ns', alts')"
  shows "fuse_alts_wf alts' \<and> (\<forall>i<MAX_ALTS. al_used (alts ! i) \<longrightarrow> alts' ! i = alts ! i)
    \<and> al_host ` set (filter al_used alts') \<subseteq> al_host ` set (filter al_used alts) \<union> se_host ` set ns
    \<and> (\<forall>n\<in>set ns. host_type (se_host n) \<noteq> 0 \<longrightarrow>
         (\<exists>a\<in>set alts'. isSameAddress (se_host n) (al_host a)) \<or> list_all al_used alts')"
  using fold_add_learned [OF assms(1), of ns] assms(2) by (auto simp: addAltServers_def learned_def)

definition sample_fuse_host :: "u8 \<Rightarrow> dnbd3_host" where
  "sample_fuse_host n = \<lparr>addr = n # replicate 15 0, port = 5003, host_type = HOST_IP4\<rparr>"

definition sample_alt_server :: "u8 \<Rightarrow> int \<Rightarrow> int \<Rightarrow> alt_server" where
  "sample_alt_server n fails r = zero_server\<lparr>al_host := sample_fuse_host n, consecutiveFails := fails, al_rtt := r\<rparr>"

definition sample_alts :: "alt_server list" where
  "sample_alts = [sample_alt_server 1 9 200000, sample_alt_server 2 0 100000] @ replicate 3 zero_server @ [sample_alt_server 3 0 100]
     @ replicate 10 zero_server"

lemma replicate_num: "replicate (numeral k) x = x # replicate (pred_numeral k) x"
  by (simp add: numeral_eq_Suc)

lemma update_num: "(x # xs)[numeral k := y] = x # xs[pred_numeral k := y]"
  by (simp add: numeral_eq_Suc)

lemmas sample_alt_defs = sample_alts_def sample_alt_server_def sample_fuse_host_def zero_server_def zero_fuse_host_def fuse_consts
  HOST_IP4_def replicate_num update_num

lemma sample_alts_wf: "fuse_alts_wf sample_alts"
  by (simp add: fuse_alts_wf_def used_keys_def addr_key_def addr_len_def sample_alt_defs)

theorem fuse_learn_servers_witness:
  "fuse_alts_wf (fold add_server [\<lparr>se_host = sample_fuse_host 4, se_failures = 0\<rparr>] sample_alts) \<and>
   isSameAddress (sample_fuse_host 4) (al_host (fold add_server [\<lparr>se_host = sample_fuse_host 4, se_failures = 0\<rparr>] sample_alts ! 2))"
  using fuse_learn_servers [OF sample_alts_wf, of "[\<lparr>se_host = sample_fuse_host 4, se_failures = 0\<rparr>]"]
  by (simp add: addAltServers_def add_server_def slot_scan_free isSameAddress_def addr_len_def sample_alt_defs fresh_server_def)

text \<open>Sorting keeps the hosts of the table, and afterwards either all active places hold a server that has not
  failed too often, or no server behind them is reachable.\<close>

theorem fuse_sort_servers:
  assumes "fuse_alts_wf alts"
  shows "fuse_alts_wf (sortAltServers alts) \<and> mset (map al_host (sortAltServers alts)) = mset (map al_host alts) \<and>
    ((\<forall>i<MAX_ALTS_ACTIVE. al_used (sortAltServers alts ! i) \<and> consecutiveFails (sortAltServers alts ! i) \<le> FAIL_BACKOFF_START_COUNT)
     \<or> (\<forall>i\<in>{MAX_ALTS_ACTIVE..<MAX_ALTS}. \<not> al_used (sortAltServers alts ! i) \<or> 0 < consecutiveFails (sortAltServers alts ! i)))"
proof -
  have l: "length alts = MAX_ALTS" using assms by (simp add: fuse_alts_wf_def)
  have le: "MAX_ALTS_ACTIVE \<le> MAX_ALTS" by (simp add: fuse_consts)
  note sp = sort_loop_spec [of "[MAX_ALTS_ACTIVE..<MAX_ALTS]" alts 0, folded sortAltServers_def]
  have m: "mset (map al_host (sortAltServers alts)) = mset (map al_host alts)"
    and r: "map (\<lambda>a. length (rtts a)) (sortAltServers alts) = map (\<lambda>a. length (rtts a)) alts"
    and d: "(\<forall>i<MAX_ALTS_ACTIVE. \<not> failing_slot (sortAltServers alts ! i))
     \<or> (\<forall>i. MAX_ALTS_ACTIVE \<le> i \<longrightarrow> i < length alts \<longrightarrow> \<not> idle_spare (sortAltServers alts ! i))"
    using sp l le by auto
  have q: "list_all (\<lambda>a. length (rtts a) = RTT_COUNT) as = list_all (\<lambda>n. n = RTT_COUNT) (map (\<lambda>a. length (rtts a)) as)" for as
    by (simp add: list.pred_map comp_def)
  have "list_all (\<lambda>a. length (rtts a) = RTT_COUNT) (sortAltServers alts)"
    using assms unfolding q r by (simp add: q [symmetric] fuse_alts_wf_def)
  then have "fuse_alts_wf (sortAltServers alts)"
    using assms mset_eq_length [OF m] mset_eq_imp_distinct_iff [OF used_keys_hosts [OF m]] by (simp add: fuse_alts_wf_def)
  then show ?thesis using m d l by (auto simp: failing_slot_def idle_spare_def)
qed

theorem fuse_sort_servers_witness:
  "al_host (sortAltServers sample_alts ! 0) = sample_fuse_host 3 \<and> al_host (sortAltServers sample_alts ! 5) = sample_fuse_host 1
   \<and> mset (map al_host (sortAltServers sample_alts)) = mset (map al_host sample_alts)"
  using fuse_sort_servers [OF sample_alts_wf]
  by (simp add: sortAltServers_def next_failing.simps failing_slot_def switch_slots_def sample_alt_defs fresh_server_def Let_def
      upt_rec)

text \<open>The client leaves its server only for one whose average response time is lower.\<close>

theorem fuse_switch_faster:
  assumes "list_all rtt_ok alts" "length alts = MAX_ALTS" "best < MAX_ALTS" "cur < MAX_ALTS"
    "decide rnd best (Some cur) alts = Some (True, alts')"
  shows "al_rtt (alts ! best) < al_rtt (alts ! cur) \<and> best \<noteq> cur"
  using decide_faster [OF assms(5,2,3)] assms(1,4) by (auto simp: list_all_iff rtt_ok_def)

text \<open>Response times stay in the range where none of the \<open>int\<close> computations overflows: the sum of the measured times,
  the weighted average of the live time and the five-fold time used to detect a stalled connection. Here a measurement takes at most
  \<open>RTT_UNREACHABLE\<close> microseconds.\<close>

theorem fuse_rtt_range:
  assumes "list_all rtt_ok alts" "length alts = MAX_ALTS" "i < MAX_ALTS" "uint us \<le> CLIENT_RTT_UNREACHABLE"
  shows "sum_list (rtts (alts ! i)) + liveRtt (alts ! i) < 2 ^ 31 \<and> liveRtt (alts ! i) * 3 + 30000000 < 2 ^ 31 \<and> al_rtt (alts ! i) * 5 < 2 ^ 31
    \<and> list_all rtt_ok (update_liveRtt cur diff alts)
    \<and> (\<forall>a. probe_success us (alts ! i) = Some a \<longrightarrow> list_all rtt_ok (alts[i := a]))
    \<and> (\<forall>a. probe_failure n (alts ! i) = Some a \<longrightarrow> list_all rtt_ok (alts[i := a]))
    \<and> (\<forall>c d alts'. c < MAX_ALTS \<longrightarrow> decide rnd best (Some c) alts = Some (d, alts') \<longrightarrow> list_all rtt_ok alts')
    \<and> list_all rtt_ok (alts[i := fresh_server h k (alts ! i)])"
proof -
  have r: "rtt_ok (alts ! i)" using assms(1-3) by (simp add: list_all_length)
  then have "sum_list (rtts (alts ! i)) + liveRtt (alts ! i) < 2 ^ 31 \<and> liveRtt (alts ! i) * 3 + 30000000 < 2 ^ 31 \<and> al_rtt (alts ! i) * 5 < 2 ^ 31"
    using rtt_ok_sum [OF r] by (auto simp: rtt_ok_def CLIENT_RTT_UNREACHABLE_def)
  moreover have "list_all rtt_ok alts'" if "c < MAX_ALTS" "decide rnd best (Some c) alts = Some (d, alts')" for c d alts'
    using rtt_ok_decide [OF assms(1,2) _ that(2)] that(1) by simp
  ultimately show ?thesis using assms r
    by (auto intro!: list_all_update rtt_ok_update_liveRtt rtt_ok_fresh intro: rtt_ok_success rtt_ok_failure)
qed

lemma sample_alts_rtt_ok: "list_all rtt_ok sample_alts"
  by (simp add: rtt_ok_def sample_alt_defs)

theorem fuse_rtt_range_witness:
  "al_rtt (sample_alts ! 0) * 5 < 2 ^ 31 \<and> list_all rtt_ok (update_liveRtt (sample_fuse_host 1) 1000 sample_alts)"
  using fuse_rtt_range [OF sample_alts_rtt_ok, of 0 0 "sample_fuse_host 1" 1000] by (simp add: sample_alt_defs)

theorem fuse_switch_faster_witness:
  "\<exists>alts'. decide 0 1 (Some 0) sample_alts = Some (True, alts') \<and> al_rtt (sample_alts ! 1) < al_rtt (sample_alts ! 0)"
proof -
  obtain alts' where d: "decide 0 1 (Some 0) sample_alts = Some (True, alts')"
    by (simp add: decide_def decay_def forgive_def CLIENT_RTT_THRESHOLD_FACTOR_def sample_alt_defs Let_def upt_rec)
  then show ?thesis using fuse_switch_faster [OF sample_alts_rtt_ok _ _ _ d] by (simp add: sample_alts_def fuse_consts)
qed

end
