(* ===== verification/Fuse_Connection.thy ===== *)
theory Fuse_Connection
  imports Fuse_Queue Fuse_Servers
begin

text \<open>
  The connection of the fuse client (\<open>src/fuse/connection.c\<close>): accepting a read request, the thread that receives
  replies, and the switch to another server. Three kinds of threads work on the same state: the threads of fuse that
  call \<open>connection_read\<close>, one receiving thread for each socket, and the background thread that switches
  servers. \<open>fuse_exec\<close> runs one step of one thread; a step covers what the code does under a lock, or the
  work of one thread on a request that no other thread can see. A result \<open>None\<close> is an access to memory that is not
  allocated. What the kernel delivers on a socket, the clock, the address \<open>malloc\<close> returns and the result of
  the fuse library are arguments of a step.
\<close>

section \<open>State\<close>

text \<open>Calls into the fuse library that answer a request.\<close>

datatype fuse_call = Reply_buf nat "u8 list" | Reply_err nat int

text \<open>The module variables, and as a record of what happens outside: the calls of \<open>signal_call\<close>, \<open>shutdown\<close> and
  \<open>close\<close>, the block requests that were handed completely to a socket that is still open, and the answers to
  fuse.\<close>

record fuse_state =
  requests :: request_list
  sockFd :: int
  currentServer :: dnbd3_host
  startupTime :: ticks
  img_name :: "u8 list"
  img_rid :: u16
  img_size :: u64
  newservers :: "dnbd3_server_entry list"
  altservers :: "alt_server list"
  learnNewServers :: bool
  connectionInitDone :: bool
  keepRunning :: bool
  panicSignals :: nat
  shutdowns :: "int list"
  closed :: "int list"
  asked :: "(int \<times> dnbd3_request) list"
  fuse_calls :: "fuse_call list"

abbreviation cells :: "fuse_state \<Rightarrow> u64 \<Rightarrow> dnbd3_async option" where
  "cells s \<equiv> async (requests s)"

section \<open>Sending\<close>

text \<open>\<open>shutdown( connection.sockFd ); connection.sockFd = -1\<close>, and the signal to the background thread.\<close>

definition drop_connection :: "fuse_state \<Rightarrow> fuse_state" where
  "drop_connection s = s\<lparr>shutdowns := sockFd s # shutdowns s, sockFd := - 1\<rparr>"

definition signal_panic :: "fuse_state \<Rightarrow> fuse_state" where
  "signal_panic s = s\<lparr>panicSignals := panicSignals s + 1\<rparr>"

text \<open>The block request for the request at an address; the address is the handle.\<close>

definition send_request :: "endian \<Rightarrow> send_event list \<Rightarrow> u64 \<Rightarrow> fuse_state \<Rightarrow> (bool \<times> fuse_state) option" where
  "send_request e es p s = (case cells s p of
     None \<Rightarrow> None
   | Some r \<Rightarrow>
      if fst (dnbd3_get_block e (a_offset r) (a_length r) p 0 es)
      then Some (True, s\<lparr>asked := (sockFd s, get_block_request e (a_offset r) (a_length r) p 0) # asked s\<rparr>)
      else Some (False, s))"

text \<open>Queue the request and send it if there is a connection: the common part of \<open>connection_read\<close> and of the
  loop of \<open>switchConnection\<close>.\<close>

definition submit :: "endian \<Rightarrow> ticks \<Rightarrow> send_event list \<Rightarrow> u64 \<Rightarrow> fuse_state \<Rightarrow> fuse_state option" where
  "submit e now es p s = (case enqueueRequest now p (requests s) of
     None \<Rightarrow> None
   | Some q \<Rightarrow>
      let s = s\<lparr>requests := q\<rparr> in
      if sockFd s = - 1 then Some s
      else case send_request e es p s of
        None \<Rightarrow> None
      | Some (ok, s) \<Rightarrow> Some (if ok then s else signal_panic (drop_connection s)))"

definition connection_read :: "endian \<Rightarrow> ticks \<Rightarrow> send_event list \<Rightarrow> u64 \<Rightarrow> fuse_state \<Rightarrow> (bool \<times> fuse_state) option" where
  "connection_read e now es p s =
    (if \<not> connectionInitDone s then Some (False, s) else map_option (\<lambda>s. (True, s)) (submit e now es p s))"

text \<open>The header of a request without block, as \<open>requestAltServers\<close> and the keepalive code fill it.\<close>

definition plain_request :: "endian \<Rightarrow> u16 \<Rightarrow> dnbd3_request" where
  "plain_request e cmd = \<lparr>rq_magic = dnbd3_packet_magic e, rq_cmd = cmd, rq_size = 0, rq_offset = 0, rq_handle = 0\<rparr>"

definition send_plain :: "endian \<Rightarrow> u16 \<Rightarrow> send_event list \<Rightarrow> bool" where
  "send_plain e cmd es \<longleftrightarrow> fst (sock_sendAll (request_mem e (fixup_request e (plain_request e cmd))) 2 es) = 24"

definition requestAltServers :: "endian \<Rightarrow> send_event list \<Rightarrow> fuse_state \<Rightarrow> fuse_state" where
  "requestAltServers e es s =
    (if sockFd s = - 1 \<or> \<not> learnNewServers s then s
     else if send_plain e CMD_GET_SERVERS es then s else drop_connection s)"

definition connection_close :: "fuse_state \<Rightarrow> fuse_state" where
  "connection_close s =
    (let s = s\<lparr>keepRunning := False\<rparr> in
     if connectionInitDone s \<and> sockFd s \<noteq> - 1 then s\<lparr>shutdowns := sockFd s # shutdowns s\<rparr> else s)"

section \<open>Receiving\<close>

definition SHORTBUF :: nat where "SHORTBUF = 100"

function throwDataAway :: "nat \<Rightarrow> recv_event list \<Rightarrow> bool \<times> recv_event list" where
  "throwDataAway amount es =
    (if amount = 0 then (True, es)
     else case sock_recv (min amount SHORTBUF) es of (ret, d, es') \<Rightarrow>
       if ret \<le> 0 then (False, es') else throwDataAway (amount - nat ret) es')"
  by pat_completeness auto
termination
  by (relation "measure (\<lambda>(amount, es). amount)") auto

declare throwDataAway.simps [simp del]

text \<open>The loop around \<open>dnbd3_read_reply\<close>: repeated when interrupted or when there was nothing to read.\<close>

lemma read_reply_again_shorter:
  "dnbd3_read_reply e True es = (REPLY_AGAIN, es') \<Longrightarrow> length es' < length es"
  using recv_waitall_shorter [of 16 "[]" es]
  by (cases es) (auto simp: dnbd3_read_reply_def Let_def split: prod.splits recv_result.splits recv_event.splits if_splits)

function receive_header :: "endian \<Rightarrow> recv_event list \<Rightarrow> dnbd3_reply option \<times> recv_event list" where
  "receive_header e es =
    (case dnbd3_read_reply e True es of
       (REPLY_INTR, es') \<Rightarrow> receive_header e es'
     | (REPLY_AGAIN, es') \<Rightarrow> receive_header e es'
     | (REPLY_OK reply, es') \<Rightarrow> (Some reply, es')
     | (_, es') \<Rightarrow> (None, es'))"
  by pat_completeness auto
termination
  by (relation "measure (\<lambda>(e, es). length es)") (auto simp: read_reply_intr_shorter read_reply_again_shorter)

declare receive_header.simps [simp del]

text \<open>The packed structure \<open>dnbd3_server_entry_t\<close> read from 20 bytes of memory.\<close>

definition entry_of_mem :: "endian \<Rightarrow> u8 list \<Rightarrow> dnbd3_server_entry" where
  "entry_of_mem e bs = \<lparr>se_host = \<lparr>addr = take 16 bs, port = word_of_nat (load_native e (take 2 (drop 16 bs))), host_type = bs ! 18\<rparr>,
     se_failures = bs ! 19\<rparr>"

fun entries_of_mem :: "endian \<Rightarrow> nat \<Rightarrow> u8 list \<Rightarrow> dnbd3_server_entry list" where
  "entries_of_mem e 0 bs = []"
| "entries_of_mem e (Suc n) bs = entry_of_mem e (take 20 bs) # entries_of_mem e n (drop 20 bs)"

text \<open>Where a receiving thread is: waiting for a reply, holding a request that it took from the list, after it
  queued a request again whose payload did not arrive, or about to end.\<close>

datatype receiver = Waiting | Taken u64 | Requeued u64 | Failing

definition skip_payload :: "u32 \<Rightarrow> recv_event list \<Rightarrow> receiver \<times> recv_event list" where
  "skip_payload sz es = (if sz = 0 then (Waiting, es)
     else case throwDataAway (unat sz) es of (ok, es) \<Rightarrow> (if ok then Waiting else Failing, es))"

text \<open>What the thread does with a reply header.\<close>

definition take_reply :: "endian \<Rightarrow> dnbd3_reply \<Rightarrow> recv_event list \<Rightarrow> fuse_state \<Rightarrow> (receiver \<times> recv_event list \<times> fuse_state) option" where
  "take_reply e reply es s =
    (if rp_cmd reply = CMD_GET_BLOCK
     then case removeRequest (rp_handle reply) (requests s) of
       None \<Rightarrow> None
     | Some (p, q) \<Rightarrow>
        let s = s\<lparr>requests := q\<rparr> in
        if p = 0 then (case skip_payload (rp_size reply) es of (rc, es) \<Rightarrow> Some (rc, es, s))
        else Some (Taken p, es, s)
     else if rp_cmd reply = CMD_GET_SERVERS
     then let count = min (unat (rp_size reply) div 20) MAX_ALTS; relevantSize = 20 * count in
       case sock_recv relevantSize es of (ret, d, es) \<Rightarrow>
         if ret \<noteq> int relevantSize then Some (Failing, es, s)
         else (case throwDataAway (unat (rp_size reply) - relevantSize) es of (ok, es) \<Rightarrow>
           if \<not> ok then Some (Failing, es, s)
           else Some (Waiting, es, s\<lparr>newservers := memcpy 0 (entries_of_mem e count d) (newservers s)\<rparr>))
     else case skip_payload (rp_size reply) es of (rc, es) \<Rightarrow> Some (rc, es, s))"

text \<open>The payload of a block for the request that the thread holds: \<open>now\<close> is the time when it has arrived,
  \<open>fret\<close> what \<open>fuse_reply_buf\<close> returns.\<close>

definition answer :: "ticks \<Rightarrow> int \<Rightarrow> u64 \<Rightarrow> dnbd3_async \<Rightarrow> u8 list \<Rightarrow> fuse_state \<Rightarrow> fuse_state" where
  "answer now fret p r d s = s\<lparr>
     altservers := update_liveRtt (currentServer s) (timing_diffUs (a_time r) now) (altservers s),
     fuse_calls := fuse_calls s @ Reply_buf (a_fuse_req r) d # (if fret \<noteq> 0 then [Reply_err (a_fuse_req r) fret] else []),
     requests := (requests s)\<lparr>async := (cells s)(p := None)\<rparr>\<rparr>"

definition finish_block :: "endian \<Rightarrow> ticks \<Rightarrow> int \<Rightarrow> send_event list \<Rightarrow> u64 \<Rightarrow> recv_event list \<Rightarrow> fuse_state \<Rightarrow>
    (receiver \<times> recv_event list \<times> fuse_state) option" where
  "finish_block e now fret ss p es s = (case cells s p of
     None \<Rightarrow> None
   | Some r \<Rightarrow>
      case sock_recv (unat (a_length r)) es of (ret, d, es) \<Rightarrow>
        if ret \<noteq> int (unat (a_length r))
        then map_option (\<lambda>(_, s). (Requeued p, es, s))
          (connection_read e now ss p (s\<lparr>requests := (requests s)\<lparr>async := (cells s)(p \<mapsto> r\<lparr>a_buffer := Some d\<rparr>)\<rparr>\<rparr>))
        else Some (Waiting, es, answer now fret p r d s))"

text \<open>\<open>free( request->buffer ); request->buffer = NULL\<close> after the request has been queued again.\<close>

definition clear_buffer :: "u64 \<Rightarrow> fuse_state \<Rightarrow> fuse_state option" where
  "clear_buffer p s = map_option (\<lambda>q. s\<lparr>requests := q\<rparr>) (update_async p (\<lambda>r. r\<lparr>a_buffer := None\<rparr>) (requests s))"

definition receiver_exit :: "int \<Rightarrow> fuse_state \<Rightarrow> fuse_state" where
  "receiver_exit sock s =
    (let s = (if sockFd s = sock then signal_panic (s\<lparr>sockFd := - 1\<rparr>) else s) in
     s\<lparr>closed := sock # closed s, asked := filter (\<lambda>(fd, _). fd \<noteq> sock) (asked s)\<rparr>)"

section \<open>Switching the server\<close>

text \<open>The first half of \<open>switchConnection\<close>, under the send lock; \<open>peer\<close> says whether \<open>getpeername\<close> succeeds. The second component is
  the head of the list that is to be sent again, or \<open>None\<close> if the function returns early.\<close>

definition switch_begin :: "endian \<Rightarrow> ticks \<Rightarrow> send_event list \<Rightarrow> int \<Rightarrow> dnbd3_host \<Rightarrow> bool \<Rightarrow> fuse_state \<Rightarrow> fuse_state \<times> u64 option" where
  "switch_begin e now es sock host peer s =
    (let s = (if sockFd s \<noteq> - 1 then s\<lparr>shutdowns := sockFd s # shutdowns s\<rparr> else s) in
     if peer
     then let queue = req_head (requests s);
              s = s\<lparr>currentServer := host, sockFd := sock, requests := (requests s)\<lparr>req_head := 0, req_tail := 0\<rparr>\<rparr>;
              s = requestAltServers e es s
          in (s\<lparr>startupTime := now\<rparr>, Some queue)
     else let s = requestAltServers e es (s\<lparr>sockFd := - 1\<rparr>)
          in (signal_panic (s\<lparr>closed := sock # closed s\<rparr>), None))"

text \<open>One round of the loop that sends the old requests again.\<close>

definition resend_one :: "endian \<Rightarrow> ticks \<Rightarrow> send_event list \<Rightarrow> u64 \<Rightarrow> fuse_state \<Rightarrow> (u64 \<times> fuse_state) option" where
  "resend_one e now es it s = (case cells s it of
     None \<Rightarrow> None
   | Some r \<Rightarrow> map_option (\<lambda>s. (a_next r, s)) (submit e now es it s))"

partial_function (option) resend_loop :: "endian \<Rightarrow> (nat \<Rightarrow> ticks \<times> send_event list) \<Rightarrow> nat \<Rightarrow> u64 \<Rightarrow> fuse_state \<Rightarrow> fuse_state option" where
  "resend_loop e env n it s =
    (if it = 0 then Some s
     else case resend_one e (fst (env n)) (snd (env n)) it s of
       None \<Rightarrow> None
     | Some (next, s) \<Rightarrow> resend_loop e env (Suc n) next s)"

definition switchConnection :: "endian \<Rightarrow> ticks \<Rightarrow> send_event list \<Rightarrow> (nat \<Rightarrow> ticks \<times> send_event list) \<Rightarrow> int \<Rightarrow> dnbd3_host \<Rightarrow> bool \<Rightarrow> fuse_state \<Rightarrow>
    fuse_state option" where
  "switchConnection e now es env sock host peer s = (case switch_begin e now es sock host peer s of
     (s, None) \<Rightarrow> Some s
   | (s, Some queue) \<Rightarrow> resend_loop e env 0 queue s)"


section \<open>Frames\<close>

lemma enqueueRequest_other:
  "enqueueRequest now p s = Some s' \<Longrightarrow> x \<noteq> p \<Longrightarrow> x \<noteq> req_tail s \<or> req_head s = 0 \<Longrightarrow> async s' x = async s x"
  by (auto simp: enqueueRequest_def update_async_Some split: option.splits if_splits)

lemma removeRequest_other:
  assumes "queue_is s ps" "removeRequest p s = Some (y, s')" "x \<notin> set ps"
  shows "async s' x = async s x"
proof (cases "p \<in> set ps")
  case True
  then obtain us vs where u: "ps = us @ p # vs" "p \<notin> set us" by (meson split_list_first)
  have ch: "chain (async s) (req_head s) (us @ p # vs)" using assms(1) u by (simp add: queue_is_def)
  have "unlink p (if us = [] then 0 else last us) s = Some s'"
    using assms(2) remove_loop_found [OF ch u(2), of 0] chain_split [OF ch] by (auto simp: removeRequest_def)
  then show ?thesis using assms(3) u(1)
    by (auto simp: unlink_def update_async_Some split: option.splits if_splits)
next
  case False
  then show ?thesis using assms(1,2) remove_loop_absent [of "async s" "req_head s" ps p 0]
    by (auto simp: queue_is_def removeRequest_def)
qed

text \<open>What \<open>submit\<close> does with the queue, the log of sent requests and the connection.\<close>

lemma send_request_cases:
  assumes "cells s p = Some r"
  shows "send_request e es p s = Some (False, s)
    \<or> send_request e es p s = Some (True, s\<lparr>asked := (sockFd s, get_block_request e (a_offset r) (a_length r) p 0) # asked s\<rparr>)"
  using assms by (simp add: send_request_def)

lemma submit_ok:
  assumes q: "queue_is (requests s) ps" and p: "p \<noteq> 0" "cells s p \<noteq> None" "p \<notin> set ps"
  shows "\<exists>s'. submit e now es p s = Some s' \<and> queue_is (requests s') (ps @ [p]) \<and> contents (requests s') = contents (requests s)
    \<and> (\<forall>x. x \<noteq> p \<longrightarrow> x \<notin> set ps \<longrightarrow> cells s' x = cells s x)
    \<and> s' = s\<lparr>requests := requests s', sockFd := sockFd s', panicSignals := panicSignals s', shutdowns := shutdowns s', asked := asked s'\<rparr>
    \<and> sockFd s' \<in> {sockFd s, - 1}
    \<and> (asked s' = asked s \<or> sockFd s \<noteq> - 1
        \<and> (\<exists>r. cells s p = Some r \<and> asked s' = (sockFd s, get_block_request e (a_offset r) (a_length r) p 0) # asked s))"
proof -
  obtain q' where q': "enqueueRequest now p (requests s) = Some q'" "queue_is q' (ps @ [p])" "contents q' = contents (requests s)"
    using enqueueRequest_queue [OF q, of p now] p by (auto simp: contents_None)
  have o: "async q' x = cells s x" if "x \<noteq> p" "x \<notin> set ps" for x
    using enqueueRequest_other [OF q'(1) that(1)] q that(2)
    by (cases ps rule: rev_cases) (auto simp: queue_is_def)
  let ?s = "s\<lparr>requests := q'\<rparr>"
  obtain r where r: "cells s p = Some r" using p(2) by auto
  then obtain r' where r': "async q' p = Some r'" "a_offset r' = a_offset r" "a_length r' = a_length r"
    using fun_cong [OF q'(3), of p] by (auto simp: contents_def)
  show ?thesis
  proof (cases "sockFd s = - 1")
    case True
    then show ?thesis using q' o by (auto simp: submit_def)
  next
    case False
    from send_request_cases [of ?s p r' e es] show ?thesis
    proof (rule disjE)
      show "cells ?s p = Some r'" using r' by simp
      assume "send_request e es p ?s = Some (False, ?s)"
      then show ?thesis using q' o False by (auto simp: submit_def drop_connection_def signal_panic_def)
    next
      assume "send_request e es p ?s =
        Some (True, ?s\<lparr>asked := (sockFd ?s, get_block_request e (a_offset r') (a_length r') p 0) # asked ?s\<rparr>)"
      then show ?thesis using q' o False r r' by (auto simp: submit_def)
    qed
  qed
qed

lemma contents_Some: "contents q p = Some c \<longleftrightarrow> (\<exists>r. async q p = Some r \<and> c = (a_fuse_req r, a_offset r, a_length r, a_buffer r))"
  by (auto simp: contents_def)

lemma get_block_sends: "24 \<le> k \<Longrightarrow> fst (dnbd3_get_block e off len p 0 (Sent k # es))"
proof -
  let ?m = "request_mem e (fixup_request e (get_block_request e off len p 0))"
  assume "24 \<le> k"
  moreover have "length ?m = 24" by (simp add: request_mem_def store_native_def split: endian.split)
  ultimately have "sock_sendAll ?m 2 (Sent k # es) = (24, ?m)" using sendAll_whole [of ?m k 2 es] by (cases ?m) auto
  then show ?thesis by (simp add: dnbd3_get_block_def)
qed

section \<open>The switch to another server\<close>

text \<open>The loop over the old list: \<open>ds\<close> are the requests that are still to be sent. Nothing is lost, whatever happens to the
  connection.\<close>

lemma resend_loop_ok:
  assumes "chain (cells s) it ds" "queue_is (requests s) ps" "distinct (ps @ ds)"
  shows "\<exists>s'. resend_loop e env n it s = Some s' \<and> queue_is (requests s') (ps @ ds) \<and> contents (requests s') = contents (requests s)
    \<and> s' = s\<lparr>requests := requests s', sockFd := sockFd s', panicSignals := panicSignals s', shutdowns := shutdowns s', asked := asked s'\<rparr>"
  using assms
proof (induction ds arbitrary: it s ps n)
  case Nil
  then show ?case by (simp add: resend_loop.simps)
next
  case (Cons d ds)
  then obtain r where r: "it = d" "d \<noteq> 0" "cells s d = Some r" "chain (cells s) (a_next r) ds"
    by (auto split: option.splits)
  obtain s1 where s1: "submit e (fst (env n)) (snd (env n)) d s = Some s1" "queue_is (requests s1) (ps @ [d])"
    "contents (requests s1) = contents (requests s)" "\<forall>x. x \<noteq> d \<longrightarrow> x \<notin> set ps \<longrightarrow> cells s1 x = cells s x"
    "s1 = s\<lparr>requests := requests s1, sockFd := sockFd s1, panicSignals := panicSignals s1, shutdowns := shutdowns s1, asked := asked s1\<rparr>"
    using submit_ok [OF Cons.prems(2) r(2), of e "fst (env n)" "snd (env n)"] r(3) Cons.prems(3) by auto
  have "chain (cells s1) (a_next r) ds"
    by (rule chain_cong [OF r(4)]) (use s1(4) Cons.prems(3) in auto)
  then obtain s2 where s2: "resend_loop e env (Suc n) (a_next r) s1 = Some s2" "queue_is (requests s2) (ps @ d # ds)"
    "contents (requests s2) = contents (requests s1)"
    "s2 = s1\<lparr>requests := requests s2, sockFd := sockFd s2, panicSignals := panicSignals s2, shutdowns := shutdowns s2, asked := asked s2\<rparr>"
    using Cons.IH [of s1 "a_next r" "ps @ [d]" "Suc n"] s1(2) Cons.prems(3) by auto
  have "resend_loop e env n it s = Some s2"
    using r s1(1) s2(1) by (simp add: resend_loop.simps [of e env n] resend_one_def)
  moreover have "s2 = s\<lparr>requests := requests s2, sockFd := sockFd s2, panicSignals := panicSignals s2, shutdowns := shutdowns s2, asked := asked s2\<rparr>"
    using arg_cong [OF s1(5), of "\<lambda>t. t\<lparr>requests := requests s2, sockFd := sockFd s2, panicSignals := panicSignals s2, shutdowns := shutdowns s2, asked := asked s2\<rparr>"]
      s2(4) by simp
  ultimately show ?case using s2(2,3) s1(3) by auto
qed

text \<open>When every send goes through, each request is sent once, in the order of the list.\<close>

definition block_request_of :: "endian \<Rightarrow> fuse_state \<Rightarrow> u64 \<Rightarrow> dnbd3_request" where
  "block_request_of e s p = (case cells s p of Some r \<Rightarrow> get_block_request e (a_offset r) (a_length r) p 0)"

definition sends_whole :: "(nat \<Rightarrow> ticks \<times> send_event list) \<Rightarrow> bool" where
  "sends_whole env \<longleftrightarrow> (\<forall>n. \<exists>k es. snd (env n) = Sent k # es \<and> 24 \<le> k)"

lemma block_request_of_contents:
  "contents (requests s') = contents (requests s) \<Longrightarrow> cells s p \<noteq> None \<Longrightarrow> block_request_of e s' p = block_request_of e s p"
  by (drule fun_cong [of _ _ p]) (auto simp: block_request_of_def contents_def)

lemma submit_whole:
  assumes "submit e now (Sent k # es) p s = Some s'" "24 \<le> k" "sockFd s \<noteq> - 1" "contents (requests s') = contents (requests s)" "cells s p \<noteq> None"
  shows "asked s' = (sockFd s, block_request_of e s p) # asked s \<and> sockFd s' = sockFd s"
proof -
  obtain q' where q': "enqueueRequest now p (requests s) = Some q'" using assms(1) by (auto simp: submit_def split: option.splits)
  obtain r where r: "async q' p = Some r" using assms(1,3) q' by (auto simp: submit_def send_request_def Let_def split: option.splits)
  have "s' = s\<lparr>requests := q', asked := (sockFd s, get_block_request e (a_offset r) (a_length r) p 0) # asked s\<rparr>"
    using assms(1-3) q' r get_block_sends [OF assms(2)] by (auto simp: submit_def send_request_def Let_def)
  moreover from this have "block_request_of e s' p = get_block_request e (a_offset r) (a_length r) p 0"
    using r by (simp add: block_request_of_def)
  ultimately show ?thesis using block_request_of_contents [OF assms(4,5), of e] by simp
qed

lemma resend_loop_whole:
  assumes "chain (cells s) it ds" "queue_is (requests s) ps" "distinct (ps @ ds)" "sends_whole env" "sockFd s \<noteq> - 1"
    "resend_loop e env n it s = Some s'"
  shows "asked s' = rev (map (\<lambda>p. (sockFd s, block_request_of e s p)) ds) @ asked s \<and> sockFd s' = sockFd s"
  using assms
proof (induction ds arbitrary: it s ps n)
  case Nil
  then show ?case by (simp add: resend_loop.simps)
next
  case (Cons d ds)
  then obtain r where r: "it = d" "d \<noteq> 0" "cells s d = Some r" "chain (cells s) (a_next r) ds"
    by (auto split: option.splits)
  obtain k es where env: "snd (env n) = Sent k # es" "24 \<le> k" using Cons.prems(4) unfolding sends_whole_def by blast
  obtain s1 where s1: "submit e (fst (env n)) (snd (env n)) d s = Some s1" "queue_is (requests s1) (ps @ [d])"
    "contents (requests s1) = contents (requests s)" "\<forall>x. x \<noteq> d \<longrightarrow> x \<notin> set ps \<longrightarrow> cells s1 x = cells s x"
    using submit_ok [OF Cons.prems(2) r(2), of e "fst (env n)" "snd (env n)"] r(3) Cons.prems(3) by auto
  have c: "chain (cells s1) (a_next r) ds"
    by (rule chain_cong [OF r(4)]) (use s1(4) Cons.prems(3) in auto)
  have a: "asked s1 = (sockFd s, block_request_of e s d) # asked s" "sockFd s1 = sockFd s"
    using submit_whole [OF s1(1) [unfolded env(1)] env(2) Cons.prems(5) s1(3)] r(3) by auto
  have "block_request_of e s1 p = block_request_of e s p" if "p \<in> set ds" for p
    using block_request_of_contents [OF s1(3)] chain_allocated [OF r(4) that] by blast
  then have m: "map (\<lambda>p. (sockFd s, block_request_of e s1 p)) ds = map (\<lambda>p. (sockFd s, block_request_of e s p)) ds" by simp
  have "resend_loop e env (Suc n) (a_next r) s1 = Some s'"
    using Cons.prems(6) r s1(1) by (simp add: resend_loop.simps [of e env n] resend_one_def)
  then show ?case using Cons.IH [OF c s1(2) _ Cons.prems(4)] Cons.prems(3,5) a m by auto
qed

lemma requestAltServers_frame:
  "requestAltServers e es s = s \<or> requestAltServers e es s = drop_connection s"
  by (simp add: requestAltServers_def)

lemma switch_begin_queue:
  assumes "switch_begin e now es sock host True s = (s', q)"
  shows "q = Some (req_head (requests s)) \<and> requests s' = (requests s)\<lparr>req_head := 0, req_tail := 0\<rparr> \<and> fuse_calls s' = fuse_calls s
    \<and> asked s' = asked s \<and> currentServer s' = host \<and> (send_plain e CMD_GET_SERVERS es \<longrightarrow> sockFd s' = sock)"
  using assms by (auto simp: switch_begin_def requestAltServers_def drop_connection_def Let_def)

lemma switch_keeps:
  assumes "queue_is (requests s) ps"
  shows "\<exists>s'. switchConnection e now es env sock host peer s = Some s' \<and> queue_is (requests s') ps
    \<and> contents (requests s') = contents (requests s) \<and> fuse_calls s' = fuse_calls s
    \<and> (peer \<and> sock \<noteq> - 1 \<and> send_plain e CMD_GET_SERVERS es \<and> sends_whole env \<longrightarrow>
        sockFd s' = sock \<and> currentServer s' = host \<and> asked s' = rev (map (\<lambda>p. (sock, block_request_of e s p)) ps) @ asked s)"
proof (cases peer)
  case False
  then show ?thesis using assms
    by (auto simp: switchConnection_def switch_begin_def requestAltServers_def signal_panic_def Let_def)
next
  case True
  obtain s1 q where b: "switch_begin e now es sock host True s = (s1, q)" by fastforce
  note bq = switch_begin_queue [OF b]
  have c: "chain (cells s1) (req_head (requests s)) ps" "queue_is (requests s1) []" "distinct ([] @ ps)"
    and co: "contents (requests s1) = contents (requests s)"
    using assms bq by (auto simp: queue_is_def contents_def)
  obtain s2 where s2: "resend_loop e env 0 (req_head (requests s)) s1 = Some s2" "queue_is (requests s2) ps"
    "contents (requests s2) = contents (requests s1)"
    "s2 = s1\<lparr>requests := requests s2, sockFd := sockFd s2, panicSignals := panicSignals s2, shutdowns := shutdowns s2, asked := asked s2\<rparr>"
    using resend_loop_ok [OF c, of e env 0] by auto
  have f: "fuse_calls s2 = fuse_calls s" "currentServer s2 = host"
    using bq arg_cong [OF s2(4), of fuse_calls] arg_cong [OF s2(4), of currentServer] by simp_all
  have "asked s2 = rev (map (\<lambda>p. (sock, block_request_of e s p)) ps) @ asked s \<and> sockFd s2 = sock"
    if "sock \<noteq> - 1" "send_plain e CMD_GET_SERVERS es" "sends_whole env"
  proof -
    have k: "sockFd s1 = sock" using bq that by simp
    have "block_request_of e s1 p = block_request_of e s p" for p using bq by (simp add: block_request_of_def)
    then show ?thesis using resend_loop_whole [OF c that(3) _ s2(1)] k that(1) bq by simp
  qed
  then show ?thesis using True b bq s2 f co by (auto simp: switchConnection_def)
qed

section \<open>Properties\<close>

text \<open>C16. Switching to another server terminates and loses no request: whatever happens to the new connection, the list holds the
  same requests in the same order afterwards. If the sends go through, each of them has been sent on the new socket exactly once,
  in this order.\<close>

theorem fuse_switch_keeps_requests:
  assumes "queue_is (requests s) ps"
  shows "\<exists>s'. switchConnection e now es env sock host peer s = Some s' \<and> queue_is (requests s') ps
    \<and> contents (requests s') = contents (requests s) \<and> fuse_calls s' = fuse_calls s
    \<and> (peer \<and> sock \<noteq> - 1 \<and> send_plain e CMD_GET_SERVERS es \<and> sends_whole env \<longrightarrow>
        sockFd s' = sock \<and> currentServer s' = host \<and> asked s' = rev (map (\<lambda>p. (sock, block_request_of e s p)) ps) @ asked s)"
  by (rule switch_keeps [OF assms])

definition sample_ticks :: ticks where "sample_ticks = \<lparr>tv_sec = 0, tv_nsec = 0\<rparr>"

definition sample_fuse :: fuse_state where
  "sample_fuse = \<lparr>requests = \<lparr>req_head = 16, req_tail = 32, async = [16 \<mapsto> (sample_async 1)\<lparr>a_next := 32\<rparr>, 32 \<mapsto> sample_async 2]\<rparr>,
     sockFd = 5, currentServer = sample_fuse_host 1, startupTime = sample_ticks, img_name = [105], img_rid = 1, img_size = 8192,
     newservers = zero_newservers, altservers = sample_alts, learnNewServers = True, connectionInitDone = True, keepRunning = True,
     panicSignals = 0, shutdowns = [], closed = [], asked = [], fuse_calls = []\<rparr>"

lemma sample_fuse_queue: "queue_is (requests sample_fuse) [16, 32]"
  by (simp add: queue_is_def sample_fuse_def sample_async_def)

lemma sample_send_plain: "send_plain e cmd [Sent 24]"
proof -
  let ?m = "request_mem e (fixup_request e (plain_request e cmd))"
  have "length ?m = 24" by (simp add: request_mem_def store_native_def split: endian.split)
  then show ?thesis using sendAll_whole [of ?m 24 2 "[]"] by (cases ?m) (auto simp: send_plain_def)
qed

theorem fuse_switch_keeps_requests_witness:
  "\<exists>s'. switchConnection LE sample_ticks [Sent 24] (\<lambda>_. (sample_ticks, [Sent 24])) 6 (sample_fuse_host 2) True sample_fuse = Some s'
    \<and> queue_is (requests s') [16, 32] \<and> map (rq_handle \<circ> snd) (asked s') = [32, 16] \<and> sockFd s' = 6"
proof -
  have w: "sends_whole (\<lambda>_. (sample_ticks, [Sent 24]))" by (simp add: sends_whole_def)
  have h: "rq_handle (block_request_of LE sample_fuse p) = p" if "p = 16 \<or> p = 32" for p
    using that by (auto simp: block_request_of_def sample_fuse_def sample_async_def get_block_request_def set_hops_def)
  have "asked sample_fuse = []" by (simp add: sample_fuse_def)
  then show ?thesis
    using fuse_switch_keeps_requests [OF sample_fuse_queue, of LE sample_ticks "[Sent 24]" "\<lambda>_. (sample_ticks, [Sent 24])" 6 "sample_fuse_host 2" True]
      sample_send_plain w h by auto
qed

end
