(* ===== verification/Fuse_Threads.thy ===== *)
theory Fuse_Threads
  imports Fuse_Connection
begin

text \<open>
  The threads of the fuse client working together. A world is the state of \<open>Fuse_Connection\<close> with the position of each receiving
  thread and of the background thread. \<open>fuse_exec\<close> runs one step of one thread, chosen by a label that also carries
  what the environment contributes. \<open>fuse_reach\<close> are the worlds that any interleaving of steps can reach. For the
  statements, a world also remembers the requests that were accepted, those that were answered, and those that the direct
  probe of the background thread took from the list and never answered.
\<close>

section \<open>Steps of the threads\<close>

text \<open>The background thread: idle, sending requests again from an address on, or receiving the payload for a request
  it took from the list.\<close>

datatype background = BG_idle | BG_resend u64 | BG_direct u64

record fuse_world =
  fs :: fuse_state
  receivers :: "int \<Rightarrow> receiver option"
  background :: background
  lost :: "u64 list"
  accepted :: "(nat \<times> u64 \<times> u32) list"
  answered :: "(nat \<times> u64 \<times> u32) list"

datatype fuse_label =
    L_read ticks "send_event list" dnbd3_async u64 nat u64 u32
  | L_reply int "recv_event list"
  | L_block int ticks int "send_event list" "recv_event list"
  | L_clear int
  | L_stop int
  | L_exit int
  | L_switch ticks "send_event list" int dnbd3_host bool
  | L_resend ticks "send_event list"
  | L_direct u64
  | L_direct_end "recv_event list" bool ticks "send_event list"
  | L_keepalive "send_event list"
  | L_servers "alt_server list \<Rightarrow> alt_server list option" "dnbd3_server_entry list"
  | L_close

definition request_at :: "fuse_state \<Rightarrow> u64 \<Rightarrow> nat \<times> u64 \<times> u32" where
  "request_at s p = (case cells s p of None \<Rightarrow> (0, 0, 0) | Some r \<Rightarrow> (a_fuse_req r, a_offset r, a_length r))"

text \<open>When a step can be taken: the thread is at this place, \<open>malloc\<close> returns an address that is not in use, and a new
  socket has a number that is not in use.\<close>

fun fuse_enabled :: "fuse_world \<Rightarrow> fuse_label \<Rightarrow> bool" where
  "fuse_enabled w (L_read now ss junk p req off len) \<longleftrightarrow> p \<noteq> 0 \<and> cells (fs w) p = None \<and> connectionInitDone (fs w)"
| "fuse_enabled w (L_reply fd es) \<longleftrightarrow> receivers w fd = Some Waiting \<and> keepRunning (fs w)"
| "fuse_enabled w (L_block fd now fret ss es) \<longleftrightarrow> (case receivers w fd of Some (Taken p) \<Rightarrow> True | _ \<Rightarrow> False)"
| "fuse_enabled w (L_clear fd) \<longleftrightarrow> (case receivers w fd of Some (Requeued p) \<Rightarrow> True | _ \<Rightarrow> False)"
| "fuse_enabled w (L_stop fd) \<longleftrightarrow> receivers w fd = Some Waiting \<and> \<not> keepRunning (fs w)"
| "fuse_enabled w (L_exit fd) \<longleftrightarrow> receivers w fd = Some Failing"
| "fuse_enabled w (L_switch now ss sock host peer) \<longleftrightarrow> background w = BG_idle \<and> receivers w sock = None \<and> 0 \<le> sock"
| "fuse_enabled w (L_resend now ss) \<longleftrightarrow> (case background w of BG_resend it \<Rightarrow> True | _ \<Rightarrow> False)"
| "fuse_enabled w (L_direct p) \<longleftrightarrow> background w = BG_idle \<and> p \<noteq> 0"
| "fuse_enabled w (L_direct_end es fault now ss) \<longleftrightarrow> (case background w of BG_direct p \<Rightarrow> True | _ \<Rightarrow> False)"
| "fuse_enabled w (L_keepalive ss) \<longleftrightarrow> background w = BG_idle"
| "fuse_enabled w (L_servers rate new) \<longleftrightarrow> background w = BG_idle"
| "fuse_enabled w L_close \<longleftrightarrow> True"

text \<open>A read request as \<open>image_ll_read\<close> hands it to \<open>connection_read\<close>; \<open>junk\<close> is what the memory from \<open>malloc\<close> contains.\<close>

definition fuse_request :: "dnbd3_async \<Rightarrow> u64 \<Rightarrow> nat \<Rightarrow> u64 \<Rightarrow> u32 \<Rightarrow> fuse_state \<Rightarrow> fuse_state" where
  "fuse_request junk p req off len s = s\<lparr>requests := (requests s)\<lparr>async := (cells s)(p \<mapsto>
     junk\<lparr>a_length := len, a_offset := off, a_fuse_req := req\<rparr>)\<rparr>\<rparr>"

definition keepalive :: "endian \<Rightarrow> send_event list \<Rightarrow> fuse_state \<Rightarrow> fuse_state" where
  "keepalive e es s = (if sockFd s = - 1 \<or> send_plain e CMD_KEEPALIVE es then s else drop_connection s)"

text \<open>The reply to a block request has been taken from the socket: the request is no longer outstanding there.\<close>

fun drop_first :: "('a \<Rightarrow> bool) \<Rightarrow> 'a list \<Rightarrow> 'a list" where
  "drop_first P [] = []"
| "drop_first P (x # xs) = (if P x then xs else x # drop_first P xs)"

definition reply_done :: "int \<Rightarrow> u64 \<Rightarrow> fuse_state \<Rightarrow> fuse_state" where
  "reply_done fd p s = s\<lparr>asked := drop_first (\<lambda>(k, rq). k = fd \<and> rq_handle rq = p) (asked s)\<rparr>"

text \<open>
  In a direct probe the payload is received into \<open>request->buffer\<close>, which nothing has set to memory of the request: when bytes arrive, \<open>fault\<close> says whether
  writing them ends the program; if not, they overwrite memory that is not part of this model. \<open>rate\<close> is what the background thread does with the table of servers when it adds, sorts and measures them, undefined when it
  uses an index or a pointer outside of the table.
\<close>

fun fuse_exec :: "endian \<Rightarrow> fuse_world \<Rightarrow> fuse_label \<Rightarrow> fuse_world option" where
  "fuse_exec e w (L_read now ss junk p req off len) =
    map_option (\<lambda>(_, s). w\<lparr>fs := s, accepted := (req, off, len) # accepted w\<rparr>)
      (connection_read e now ss p (fuse_request junk p req off len (fs w)))"
| "fuse_exec e w (L_reply fd es) =
    (case receive_header e es of
       (None, es) \<Rightarrow> Some (w\<lparr>receivers := (receivers w)(fd \<mapsto> Failing)\<rparr>)
     | (Some reply, es) \<Rightarrow>
        map_option (\<lambda>(rc, es, s). w\<lparr>fs := (if rp_cmd reply = CMD_GET_BLOCK \<and> rc = Waiting then reply_done fd (rp_handle reply) s else s),
            receivers := (receivers w)(fd \<mapsto> rc)\<rparr>) (take_reply e reply es (fs w)))"
| "fuse_exec e w (L_block fd now fret ss es) =
    (case receivers w fd of
       Some (Taken p) \<Rightarrow>
         map_option (\<lambda>(rc, es, s). w\<lparr>fs := (if rc = Waiting then reply_done fd p s else s), receivers := (receivers w)(fd \<mapsto> rc),
             answered := (if rc = Waiting then answered w @ [request_at (fs w) p] else answered w)\<rparr>)
           (finish_block e now fret ss p es (fs w))
     | _ \<Rightarrow> None)"
| "fuse_exec e w (L_clear fd) =
    (case receivers w fd of
       Some (Requeued p) \<Rightarrow>
         map_option (\<lambda>s. w\<lparr>fs := s, receivers := (receivers w)(fd \<mapsto> Failing)\<rparr>) (clear_buffer p (fs w))
     | _ \<Rightarrow> None)"
| "fuse_exec e w (L_stop fd) = Some (w\<lparr>fs := connection_close (fs w), receivers := (receivers w)(fd \<mapsto> Failing)\<rparr>)"
| "fuse_exec e w (L_exit fd) = Some (w\<lparr>fs := receiver_exit fd (fs w), receivers := (receivers w)(fd := None)\<rparr>)"
| "fuse_exec e w (L_switch now ss sock host peer) =
    (case switch_begin e now ss sock host peer (fs w) of
       (s, None) \<Rightarrow> Some (w\<lparr>fs := s\<rparr>)
     | (s, Some queue) \<Rightarrow> Some (w\<lparr>fs := s, receivers := (receivers w)(sock \<mapsto> Waiting), background := BG_resend queue\<rparr>))"
| "fuse_exec e w (L_resend now ss) =
    (case background w of
       BG_resend it \<Rightarrow>
         if it = 0 then Some (w\<lparr>background := BG_idle\<rparr>)
         else map_option (\<lambda>(next, s). w\<lparr>fs := s, background := BG_resend next\<rparr>) (resend_one e now ss it (fs w))
     | _ \<Rightarrow> None)"
| "fuse_exec e w (L_direct p) =
    map_option (\<lambda>(y, q). w\<lparr>fs := (fs w)\<lparr>requests := q\<rparr>, background := (if y = 0 then BG_idle else BG_direct p)\<rparr>)
      (removeRequest p (requests (fs w)))"
| "fuse_exec e w (L_direct_end es fault now ss) =
    (case background w of
       BG_direct p \<Rightarrow>
         (case cells (fs w) p of
            None \<Rightarrow> None
          | Some r \<Rightarrow>
             (case sock_recv (unat (a_length r)) es of (ret, d, es) \<Rightarrow>
                if d \<noteq> [] \<and> fault then None
                else if ret = int (unat (a_length r)) then Some (w\<lparr>background := BG_idle, lost := p # lost w\<rparr>)
                else map_option (\<lambda>(_, s). w\<lparr>fs := s, background := BG_idle\<rparr>) (connection_read e now ss p (fs w))))
     | _ \<Rightarrow> None)"
| "fuse_exec e w (L_keepalive ss) = Some (w\<lparr>fs := keepalive e ss (fs w)\<rparr>)"
| "fuse_exec e w (L_servers rate new) =
    map_option (\<lambda>alts. w\<lparr>fs := (fs w)\<lparr>altservers := alts, newservers := new\<rparr>\<rparr>) (rate (altservers (fs w)))"
| "fuse_exec e w L_close = Some (w\<lparr>fs := connection_close (fs w)\<rparr>)"

text \<open>After \<open>connection_init\<close> and \<open>connection_initThreads\<close>: an empty list, one socket with its receiving thread.\<close>

definition fuse_start :: "fuse_world \<Rightarrow> bool" where
  "fuse_start w \<longleftrightarrow> req_head (requests (fs w)) = 0 \<and> req_tail (requests (fs w)) = 0 \<and> async (requests (fs w)) = Map.empty
     \<and> connectionInitDone (fs w) \<and> 0 \<le> sockFd (fs w) \<and> receivers w = [sockFd (fs w) \<mapsto> Waiting] \<and> background w = BG_idle
     \<and> lost w = [] \<and> accepted w = [] \<and> answered w = [] \<and> asked (fs w) = [] \<and> fuse_calls (fs w) = []"

inductive fuse_reach :: "endian \<Rightarrow> (fuse_world \<Rightarrow> fuse_label \<Rightarrow> bool) \<Rightarrow> fuse_world \<Rightarrow> bool" for e ok where
  start: "fuse_start w \<Longrightarrow> fuse_reach e ok w"
| step: "fuse_reach e ok w \<Longrightarrow> fuse_enabled w l \<Longrightarrow> ok w l \<Longrightarrow> fuse_exec e w l = Some w' \<Longrightarrow> fuse_reach e ok w'"

section \<open>What arrives on a socket\<close>

lemma recv_loop_ret: "recv_loop n intrs dn ret es = (dn', ret', es') \<Longrightarrow> ret \<le> 0 \<or> dn \<noteq> [] \<Longrightarrow> ret' \<le> 0 \<or> dn' \<noteq> []"
proof (induction n intrs dn ret es rule: recv_loop.induct)
  case (3 n intrs dn ret d es)
  then show ?case by (auto split: if_splits)
next
  case (4 n intrs dn ret es)
  then show ?case by (auto split: if_splits)
qed auto

text \<open>A non-negative result of \<open>sock_recv\<close> is the number of bytes received.\<close>

lemma sock_recv_length: "sock_recv n es = (int k, d, es') \<Longrightarrow> length d = k"
  using recv_loop_ret [of n 0 "[]" 0 es] by (auto simp: sock_recv_def split: prod.splits if_splits)




section \<open>Every request is in one place\<close>

text \<open>The request that a receiving thread holds, and all of them.\<close>

definition holds :: "receiver option \<Rightarrow> u64 multiset" where
  "holds rc = (case rc of Some (Taken p) \<Rightarrow> {#p#} | _ \<Rightarrow> {#})"

definition taken :: "(int \<Rightarrow> receiver option) \<Rightarrow> u64 multiset" where
  "taken R = (\<Sum>fd\<in>dom R. holds (R fd))"

lemma holds_simps [simp]: "holds None = {#}" "holds (Some Waiting) = {#}" "holds (Some Failing) = {#}" "holds (Some (Requeued p)) = {#}"
  "holds (Some (Taken p)) = {#p#}"
  by (simp_all add: holds_def)

lemma taken_sum: "finite A \<Longrightarrow> dom R \<subseteq> A \<Longrightarrow> taken R = (\<Sum>fd\<in>A. holds (R fd))"
  unfolding taken_def by (rule sum.mono_neutral_left) (auto simp: domIff)

lemma taken_update:
  assumes "finite (dom R)"
  shows "taken (R(fd := x)) + holds (R fd) = taken R + holds x"
proof -
  let ?A = "insert fd (dom R)"
  have f: "finite ?A" using assms by simp
  have "taken (R(fd := x)) = (\<Sum>i\<in>?A. holds ((R(fd := x)) i))" by (rule taken_sum [OF f]) (auto split: if_splits)
  also have "\<dots> = holds x + (\<Sum>i\<in>?A - {fd}. holds (R i))"
    using f by (subst sum.remove [of _ fd]) auto
  finally have 1: "taken (R(fd := x)) = holds x + (\<Sum>i\<in>?A - {fd}. holds (R i))" .
  have "taken R = (\<Sum>i\<in>?A. holds (R i))" by (rule taken_sum [OF f]) auto
  also have "\<dots> = holds (R fd) + (\<Sum>i\<in>?A - {fd}. holds (R i))"
    using f by (subst sum.remove [of _ fd]) auto
  finally show ?thesis using 1 by simp
qed

lemma taken_same: "finite (dom R) \<Longrightarrow> holds x = holds (R fd) \<Longrightarrow> taken (R(fd := x)) = taken R"
  using taken_update [of R fd x] by simp

lemma taken_release: "finite (dom R) \<Longrightarrow> R fd = Some (Taken p) \<Longrightarrow> holds x = {#} \<Longrightarrow> taken R = add_mset p (taken (R(fd := x)))"
  using taken_update [of R fd x] by simp

lemma taken_acquire: "finite (dom R) \<Longrightarrow> holds (R fd) = {#} \<Longrightarrow> taken (R(fd \<mapsto> Taken p)) = add_mset p (taken R)"
  using taken_update [of R fd "Some (Taken p)"] by simp

text \<open>The requests that the background thread has: those to be sent again, or the one it receives directly.\<close>

definition bg_holds :: "fuse_state \<Rightarrow> background \<Rightarrow> u64 list \<Rightarrow> bool" where
  "bg_holds s b ds \<longleftrightarrow> (case b of BG_idle \<Rightarrow> ds = [] | BG_resend it \<Rightarrow> chain (cells s) it ds | BG_direct p \<Rightarrow> ds = [p] \<and> p \<noteq> 0)"

text \<open>\<open>placed w ps ds\<close>: the list holds \<open>ps\<close>, the background thread \<open>ds\<close>, and every allocated request is in exactly one of
  the places: list, receiving threads, background thread, lost.\<close>

definition placed :: "fuse_world \<Rightarrow> u64 list \<Rightarrow> u64 list \<Rightarrow> bool" where
  "placed w ps ds \<longleftrightarrow> queue_is (requests (fs w)) ps \<and> bg_holds (fs w) (background w) ds \<and> finite (dom (receivers w))
     \<and> finite (dom (cells (fs w))) \<and> 0 \<notin> dom (cells (fs w))
     \<and> mset_set (dom (cells (fs w))) = mset ps + taken (receivers w) + mset ds + mset (lost w)"

lemma placedD:
  assumes "placed w ps ds"
  shows "distinct (ps @ ds @ lost w)" "set ps \<subseteq> dom (cells (fs w))" "set ds \<subseteq> dom (cells (fs w))"
    "p \<in># taken (receivers w) \<Longrightarrow> p \<in> dom (cells (fs w)) \<and> p \<noteq> 0 \<and> p \<notin> set ps \<and> p \<notin> set ds"
proof -
  have m: "mset_set (dom (cells (fs w))) = mset ps + taken (receivers w) + mset ds + mset (lost w)" and f: "finite (dom (cells (fs w)))"
    and z: "0 \<notin> dom (cells (fs w))"
    using assms by (auto simp: placed_def)
  have c: "count (mset ps + taken (receivers w) + mset ds + mset (lost w)) x \<le> 1" for x
    unfolding m [symmetric] by (simp add: count_mset_set')
  have "count (mset (ps @ ds @ lost w)) x \<le> 1" for x using c [of x] by simp
  then show "distinct (ps @ ds @ lost w)" by (subst distinct_count_atmost_1) (metis count_mset_0_iff le_Suc_eq One_nat_def le_zero_eq)
  have s: "set_mset (mset_set (dom (cells (fs w)))) = dom (cells (fs w))" using f by simp
  show "set ps \<subseteq> dom (cells (fs w))" "set ds \<subseteq> dom (cells (fs w))" using s unfolding m by auto
  assume p: "p \<in># taken (receivers w)"
  then have d: "p \<in> dom (cells (fs w))" using s unfolding m by auto
  have "1 \<le> count (taken (receivers w)) p" using p by simp
  moreover have "count (mset ps) p + count (taken (receivers w)) p + count (mset ds) p + count (mset (lost w)) p \<le> 1"
    using c [of p] by simp
  ultimately have "count (mset ps) p = 0" "count (mset ds) p = 0" by linarith+
  then show "p \<in> dom (cells (fs w)) \<and> p \<noteq> 0 \<and> p \<notin> set ps \<and> p \<notin> set ds" using d z by (auto simp: count_mset_0_iff)
qed

lemma contents_dom: "contents q = contents q' \<Longrightarrow> dom (async q) = dom (async q')"
  by (metis (no_types, lifting) contents_None domIff equalityI subsetI)

lemma contents_request_at: "contents (requests s') = contents (requests s) \<Longrightarrow> request_at s' = request_at s"
proof
  fix p assume "contents (requests s') = contents (requests s)"
  from fun_cong [OF this, of p] show "request_at s' p = request_at s p"
    by (auto simp: request_at_def contents_def split: option.splits)
qed

section \<open>Accounting\<close>

text \<open>The blocks that went to fuse: request and data.\<close>

fun buffers :: "fuse_call list \<Rightarrow> (nat \<times> u8 list) list" where
  "buffers [] = []"
| "buffers (Reply_buf req d # cs) = (req, d) # buffers cs"
| "buffers (Reply_err req n # cs) = buffers cs"

lemma buffers_append [simp]: "buffers (cs @ ds) = buffers cs @ buffers ds"
  by (induction cs rule: buffers.induct) auto

text \<open>Each accepted request is either still allocated or has been answered, and each answer has the length that was asked for.\<close>

definition conserved :: "fuse_world \<Rightarrow> bool" where
  "conserved w \<longleftrightarrow> mset (accepted w) = image_mset (request_at (fs w)) (mset_set (dom (cells (fs w)))) + mset (answered w)
     \<and> map (\<lambda>(req, d). (req, length d)) (buffers (fuse_calls (fs w))) = map (\<lambda>(req, off, len). (req, unat len)) (answered w)"

text \<open>The connection in use and every socket with outstanding requests have a receiving thread.\<close>

definition connected :: "fuse_world \<Rightarrow> bool" where
  "connected w \<longleftrightarrow> connectionInitDone (fs w) \<and> (sockFd (fs w) = - 1 \<or> receivers w (sockFd (fs w)) \<noteq> None)
     \<and> (\<forall>(fd, rq)\<in>set (asked (fs w)). receivers w fd \<noteq> None) \<and> receivers w (- 1) = None"

definition fuse_inv :: "fuse_world \<Rightarrow> bool" where
  "fuse_inv w \<longleftrightarrow> (\<exists>ps ds. placed w ps ds) \<and> conserved w \<and> connected w"

text \<open>Steps that do not touch the requests and the answers.\<close>

lemma placed_same:
  assumes "placed w ps ds" "requests s' = requests (fs w)" "R' = (receivers w)(fd := x)" "holds x = holds (receivers w fd)"
  shows "placed (w\<lparr>fs := s', receivers := R'\<rparr>) ps ds"
  using assms taken_same [of "receivers w" x fd] by (auto simp: placed_def bg_holds_def split: background.splits)

lemma conserved_same:
  assumes "conserved w" "contents (requests s') = contents (requests (fs w))" "fuse_calls s' = fuse_calls (fs w)"
    "accepted w' = accepted w" "answered w' = answered w" "fs w' = s'"
  shows "conserved w'"
  using assms contents_request_at [OF assms(2)] contents_dom [OF assms(2)] by (simp add: conserved_def)

lemma bg_holds_frame:
  assumes "bg_holds s b ds" "\<And>x. x \<in> set ds \<Longrightarrow> map_option a_next (cells s' x) = map_option a_next (cells s x)"
  shows "bg_holds s' b ds"
  using assms by (cases b) (auto simp: bg_holds_def intro: chain_cong)

text \<open>The core of the steps that queue a request: it comes from a place other than the list.\<close>

lemma placed_submit:
  assumes pl: "queue_is (requests s) ps" "bg_holds s b ds" "finite (dom R)" "finite (dom (cells s))" "0 \<notin> dom (cells s)"
    and m: "mset_set (dom (cells s)) = add_mset p (mset ps + taken R + mset ds + mset ls)"
  shows "\<exists>s'. submit e now es p s = Some s' \<and> placed (w\<lparr>fs := s', receivers := R, background := b, lost := ls\<rparr>) (ps @ [p]) ds
    \<and> contents (requests s') = contents (requests s)
    \<and> s' = s\<lparr>requests := requests s', sockFd := sockFd s', panicSignals := panicSignals s', shutdowns := shutdowns s', asked := asked s'\<rparr>
    \<and> sockFd s' \<in> {sockFd s, - 1}
    \<and> (asked s' = asked s \<or> sockFd s \<noteq> - 1
        \<and> (\<exists>r. cells s p = Some r \<and> asked s' = (sockFd s, get_block_request e (a_offset r) (a_length r) p 0) # asked s))"
proof -
  have set: "set_mset (mset_set (dom (cells s))) = dom (cells s)" using pl(4) by simp
  have p: "p \<in> dom (cells s)" using set unfolding m by auto
  have c: "count (add_mset p (mset ps + taken R + mset ds + mset ls)) x \<le> 1" for x
    unfolding m [symmetric] by (simp add: count_mset_set')
  have c': "(if x = p then 1 else 0) + count (mset ps) x + count (taken R) x + count (mset ds) x + count (mset ls) x \<le> 1" for x
    using c [of x] by (simp split: if_splits)
  have "count (mset ps) p = 0" "count (mset ds) p = 0" using c' [of p] by auto
  then have np: "p \<notin> set ps" "p \<notin> set ds" by (auto simp: count_mset_0_iff)
  have dj: "x \<notin> set ps" if "x \<in> set ds" for x
  proof -
    have "1 \<le> count (mset ds) x" using that by simp
    then have "count (mset ps) x = 0" using c' [of x] by linarith
    then show ?thesis by (simp add: count_mset_0_iff)
  qed
  have p0: "p \<noteq> 0" "cells s p \<noteq> None" using p pl(5) by auto
  obtain s' where s': "submit e now es p s = Some s'" "queue_is (requests s') (ps @ [p])" "contents (requests s') = contents (requests s)"
    "\<forall>x. x \<noteq> p \<longrightarrow> x \<notin> set ps \<longrightarrow> cells s' x = cells s x"
    "s' = s\<lparr>requests := requests s', sockFd := sockFd s', panicSignals := panicSignals s', shutdowns := shutdowns s', asked := asked s'\<rparr>"
    "sockFd s' \<in> {sockFd s, - 1}"
    "asked s' = asked s \<or> sockFd s \<noteq> - 1
        \<and> (\<exists>r. cells s p = Some r \<and> asked s' = (sockFd s, get_block_request e (a_offset r) (a_length r) p 0) # asked s)"
    using submit_ok [OF pl(1) p0 np(1), of e now es] by blast
  have "cells s' x = cells s x" if "x \<in> set ds" for x using s'(4) np(2) dj [OF that] that by metis
  then have b: "bg_holds s' b ds" by (intro bg_holds_frame [OF pl(2)]) simp
  have "dom (cells s') = dom (cells s)" using contents_dom [OF s'(3)] .
  then have "placed (w\<lparr>fs := s', receivers := R, background := b, lost := ls\<rparr>) (ps @ [p]) ds"
    using s'(2) b pl m by (simp add: placed_def)
  then show ?thesis using s' by blast
qed


section \<open>The invariant step by step\<close>

text \<open>What a submitted request changes for the connection.\<close>

lemma connected_submit:
  assumes "connected w" "sockFd s' \<in> {sockFd s, - 1}" "sockFd s = sockFd (fs w)" "asked s = asked (fs w)"
    "asked s' = asked s \<or> sockFd s \<noteq> - 1 \<and> (\<exists>r. cells s p = Some r \<and> asked s' = (sockFd s, get_block_request e (a_offset r) (a_length r) p 0) # asked s)"
    "connectionInitDone s'" "fs w' = s'" "\<And>fd. receivers w' fd = None \<longleftrightarrow> receivers w fd = None"
  shows "connected w'"
  using assms by (auto simp: connected_def)

lemma only_fields:
  assumes "s' = s\<lparr>requests := q, sockFd := k, panicSignals := n, shutdowns := sh, asked := a\<rparr>"
  shows "fuse_calls s' = fuse_calls s" "connectionInitDone s' = connectionInitDone s"
  by (simp_all add: assms)

lemma queue_new_cell: "queue_is q ps \<Longrightarrow> p \<notin> set ps \<Longrightarrow> queue_is (q\<lparr>async := (async q)(p := x)\<rparr>) ps"
  by (simp add: queue_is_def chain_upd_other del: fun_upd_apply)

lemma inv_read:
  assumes "fuse_inv w" "fuse_enabled w (L_read now ss junk p req off len)"
  shows "\<exists>w'. fuse_exec e w (L_read now ss junk p req off len) = Some w' \<and> fuse_inv w'"
proof -
  obtain ps ds where pl: "placed w ps ds" and co: "conserved w" and cn: "connected w" using assms(1) by (auto simp: fuse_inv_def)
  let ?s = "fuse_request junk p req off len (fs w)"
  have en: "p \<noteq> 0" "cells (fs w) p = None" "connectionInitDone (fs w)" using assms(2) by auto
  have c: "cells ?s = (cells (fs w))(p \<mapsto> junk\<lparr>a_length := len, a_offset := off, a_fuse_req := req\<rparr>)" by (simp add: fuse_request_def)
  have d: "dom (cells ?s) = insert p (dom (cells (fs w)))" unfolding c by simp
  have fin: "finite (dom (cells (fs w)))" using pl by (simp add: placed_def)
  have nd: "p \<notin> dom (cells (fs w))" using en(2) by auto
  have np: "p \<notin> set ps" "p \<notin> set ds" using placedD(2,3) [OF pl] nd by auto
  have q: "queue_is (requests ?s) ps" unfolding fuse_request_def using pl np(1) by (simp add: placed_def queue_new_cell del: fun_upd_apply)
  have b: "bg_holds ?s (background w) ds"
    by (rule bg_holds_frame [of "fs w"]) (use pl np(2) c in \<open>auto simp: placed_def\<close>)
  have m: "mset_set (dom (cells ?s)) = add_mset p (mset ps + taken (receivers w) + mset ds + mset (lost w))"
    unfolding d using pl nd fin by (simp add: placed_def)
  obtain s' where s': "submit e now ss p ?s = Some s'"
    "placed (w\<lparr>fs := s', receivers := receivers w, background := background w, lost := lost w\<rparr>) (ps @ [p]) ds"
    "contents (requests s') = contents (requests ?s)"
    "s' = ?s\<lparr>requests := requests s', sockFd := sockFd s', panicSignals := panicSignals s', shutdowns := shutdowns s', asked := asked s'\<rparr>"
    "sockFd s' \<in> {sockFd ?s, - 1}"
    "asked s' = asked ?s \<or> sockFd ?s \<noteq> - 1
        \<and> (\<exists>r. cells ?s p = Some r \<and> asked s' = (sockFd ?s, get_block_request e (a_offset r) (a_length r) p 0) # asked ?s)"
    using placed_submit [OF q b _ _ _ m, of e now ss w] pl d en(1) by (auto simp: placed_def)
  let ?w = "w\<lparr>fs := s', accepted := (req, off, len) # accepted w\<rparr>"
  have ex: "fuse_exec e w (L_read now ss junk p req off len) = Some ?w"
    using s'(1) en(3) by (simp add: connection_read_def fuse_request_def)
  have fl: "fuse_calls s' = fuse_calls (fs w)" "connectionInitDone s'"
    using only_fields [OF s'(4)] en(3) by (simp_all add: fuse_request_def)
  have "image_mset (request_at s') (mset_set (dom (cells s'))) = image_mset (request_at ?s) (mset_set (insert p (dom (cells (fs w)))))"
    using contents_request_at [OF s'(3)] contents_dom [OF s'(3)] d by simp
  also have "\<dots> = add_mset (req, off, len) (image_mset (request_at ?s) (mset_set (dom (cells (fs w)))))"
    using nd fin by (simp add: request_at_def c)
  also have "image_mset (request_at ?s) (mset_set (dom (cells (fs w)))) = image_mset (request_at (fs w)) (mset_set (dom (cells (fs w))))"
    using nd fin by (intro image_mset_cong) (auto simp: request_at_def c)
  finally have "conserved ?w" using co fl by (simp add: conserved_def)
  moreover have "connected ?w"
    by (rule connected_submit [OF cn s'(5) _ _ s'(6)]) (use fl in \<open>simp_all add: fuse_request_def\<close>)
  moreover have "placed ?w (ps @ [p]) ds" using s'(2) by (simp add: placed_def)
  ultimately show ?thesis using ex by (auto simp: fuse_inv_def)
qed

lemma inv_reply_same:
  assumes "fuse_inv w" "requests s' = requests (fs w)" "fuse_calls s' = fuse_calls (fs w)" "asked s' = asked (fs w)"
    "sockFd s' = sockFd (fs w)" "connectionInitDone s' = connectionInitDone (fs w)"
    "receivers w fd = Some Waiting \<or> receivers w fd = Some (Requeued p)" "rc = Waiting \<or> rc = Failing"
  shows "fuse_inv (w\<lparr>fs := s', receivers := (receivers w)(fd \<mapsto> rc)\<rparr>)"
proof -
  obtain ps ds where pl: "placed w ps ds" and co: "conserved w" and cn: "connected w" using assms(1) by (auto simp: fuse_inv_def)
  have "placed (w\<lparr>fs := s', receivers := (receivers w)(fd \<mapsto> rc)\<rparr>) ps ds"
    by (rule placed_same [OF pl assms(2) refl]) (use assms(7,8) in auto)
  moreover have "conserved (w\<lparr>fs := s', receivers := (receivers w)(fd \<mapsto> rc)\<rparr>)"
    by (rule conserved_same [OF co, of s']) (simp_all add: assms)
  moreover have "connected (w\<lparr>fs := s', receivers := (receivers w)(fd \<mapsto> rc)\<rparr>)"
    using cn assms(4-7) by (auto simp: connected_def)
  ultimately show ?thesis by (auto simp: fuse_inv_def)
qed

lemma set_drop_first: "set (drop_first P xs) \<subseteq> set xs"
  by (induction xs) auto

lemma reply_done_fields [simp]:
  "requests (reply_done fd p s) = requests s" "fuse_calls (reply_done fd p s) = fuse_calls s" "sockFd (reply_done fd p s) = sockFd s"
  "connectionInitDone (reply_done fd p s) = connectionInitDone s" "set (asked (reply_done fd p s)) \<subseteq> set (asked s)"
  by (simp_all add: reply_done_def set_drop_first)

text \<open>Taking an outstanding request off the record does not touch the invariant.\<close>

lemma inv_reply_done: "fuse_inv w \<Longrightarrow> fuse_inv (w\<lparr>fs := reply_done fd p (fs w)\<rparr>)"
proof -
  assume "fuse_inv w"
  then obtain ps ds where pl: "placed w ps ds" and co: "conserved w" and cn: "connected w" by (auto simp: fuse_inv_def)
  let ?w = "w\<lparr>fs := reply_done fd p (fs w)\<rparr>"
  have "placed ?w ps ds" using pl by (auto simp: placed_def bg_holds_def split: background.splits)
  moreover have "conserved ?w" by (rule conserved_same [OF co, of "reply_done fd p (fs w)"]) simp_all
  moreover have "receivers w k \<noteq> None" if "(k, rq) \<in> set (asked (reply_done fd p (fs w)))" for k rq
    using cn subsetD [OF reply_done_fields(5) that] by (auto simp: connected_def)
  then have "connected ?w" using cn unfolding connected_def by auto
  ultimately show ?thesis by (auto simp: fuse_inv_def)
qed

lemma inv_reply_done_if:
  "fuse_inv (w\<lparr>fs := s, receivers := R\<rparr>) \<Longrightarrow> fuse_inv (w\<lparr>fs := (if b then reply_done fd p s else s), receivers := R\<rparr>)"
proof -
  assume i: "fuse_inv (w\<lparr>fs := s, receivers := R\<rparr>)"
  have "(w\<lparr>fs := s, receivers := R\<rparr>)\<lparr>fs := reply_done fd p s\<rparr> = w\<lparr>fs := reply_done fd p s, receivers := R\<rparr>" by simp
  moreover have "fuse_inv ((w\<lparr>fs := s, receivers := R\<rparr>)\<lparr>fs := reply_done fd p (fs (w\<lparr>fs := s, receivers := R\<rparr>))\<rparr>)" by (rule inv_reply_done [OF i])
  ultimately have "fuse_inv (w\<lparr>fs := reply_done fd p s, receivers := R\<rparr>)" by (metis fuse_world.select_convs(1) fuse_world.surjective fuse_world.update_convs(1,2))
  then show ?thesis using i by simp
qed

lemma skip_payload_cases: "fst (skip_payload sz es) = Waiting \<or> fst (skip_payload sz es) = Failing"
  by (simp add: skip_payload_def split: prod.splits)

lemma inv_remove_request:
  assumes "fuse_inv w" "holds (receivers w fd) = {#}" "receivers w fd \<noteq> None"
  shows "\<exists>y q. removeRequest h (requests (fs w)) = Some (y, q) \<and>
    (y \<noteq> 0 \<longrightarrow> y = h \<and> fuse_inv (w\<lparr>fs := (fs w)\<lparr>requests := q\<rparr>, receivers := (receivers w)(fd \<mapsto> Taken y)\<rparr>)) \<and>
    (\<forall>rc. y = 0 \<longrightarrow> rc = Waiting \<or> rc = Failing \<longrightarrow> fuse_inv (w\<lparr>fs := (fs w)\<lparr>requests := q\<rparr>, receivers := (receivers w)(fd \<mapsto> rc)\<rparr>))"
proof -
  obtain ps ds where pl: "placed w ps ds" and co: "conserved w" and cn: "connected w" using assms(1) by (auto simp: fuse_inv_def)
  have qi: "queue_is (requests (fs w)) ps" using pl by (simp add: placed_def)
  then obtain q where q: "removeRequest h (requests (fs w)) = Some (if h \<in> set ps then h else 0, q)" "queue_is q (remove1 h ps)"
    "contents q = contents (requests (fs w))" using removeRequest_queue by blast
  have other: "async q x = cells (fs w) x" if "x \<in> set ds" for x
    using removeRequest_other [OF qi q(1)] placedD(1) [OF pl] that by auto
  let ?s = "(fs w)\<lparr>requests := q\<rparr>"
  have b: "bg_holds ?s (background w) ds"
    by (rule bg_holds_frame [of "fs w"]) (use pl other in \<open>auto simp: placed_def\<close>)
  have dm: "dom (cells ?s) = dom (cells (fs w))" using contents_dom [OF q(3)] by simp
  have cons: "conserved (w\<lparr>fs := ?s, receivers := R\<rparr>)" for R
    by (rule conserved_same [OF co, of ?s]) (simp_all add: q(3))
  have conn: "connected (w\<lparr>fs := ?s, receivers := (receivers w)(fd \<mapsto> x)\<rparr>)" for x
    using cn assms(3) by (auto simp: connected_def)
  have h0: "h \<in> set ps \<Longrightarrow> h \<noteq> 0" using placedD(2) [OF pl] pl by (auto simp: placed_def)
  have "placed (w\<lparr>fs := ?s, receivers := (receivers w)(fd \<mapsto> Taken h)\<rparr>) (remove1 h ps) ds" if "h \<in> set ps"
    using pl b q(2) dm that taken_acquire [of "receivers w" fd h] assms(2) by (simp add: placed_def)
  moreover have "placed (w\<lparr>fs := ?s, receivers := (receivers w)(fd \<mapsto> rc)\<rparr>) ps ds" if "h \<notin> set ps" "rc = Waiting \<or> rc = Failing" for rc
    using pl b q(2) dm that taken_same [of "receivers w" "Some rc" fd] assms(2) by (auto simp: placed_def remove1_idem)
  ultimately show ?thesis using q(1) cons conn h0 by (auto simp: fuse_inv_def)
qed


lemma take_reply_servers:
  assumes "rp_cmd rp = CMD_GET_SERVERS"
  shows "\<exists>rc es' s'. take_reply e rp es s = Some (rc, es', s') \<and> (rc = Waiting \<or> rc = Failing) \<and> (s' = s \<or> (\<exists>n. s' = s\<lparr>newservers := n\<rparr>))"
proof -
  let ?count = "min (unat (rp_size rp) div 20) MAX_ALTS"
  obtain ret d es1 where 1: "sock_recv (20 * ?count) es = (ret, d, es1)" by (metis prod_cases3)
  obtain ok es2 where 2: "throwDataAway (unat (rp_size rp) - 20 * ?count) es1 = (ok, es2)" by fastforce
  have "CMD_GET_SERVERS \<noteq> CMD_GET_BLOCK" by (simp add: cmd_defs)
  then show ?thesis using assms 1 2 by (auto simp: take_reply_def Let_def)
qed

lemma inv_reply:
  assumes "fuse_inv w" "fuse_enabled w (L_reply fd es)"
  shows "\<exists>w'. fuse_exec e w (L_reply fd es) = Some w' \<and> fuse_inv w'"
proof (cases "receive_header e es")
  case (Pair reply es')
  have wt: "receivers w fd = Some Waiting" using assms(2) by simp
  note same = inv_reply_same [OF assms(1), where fd = fd]
  show ?thesis
  proof (cases reply)
    case None
    then show ?thesis using Pair same [of "fs w" _ Failing] wt by simp
  next
    case (Some rp)
    have "\<exists>rc es'' s'. take_reply e rp es' (fs w) = Some (rc, es'', s') \<and> fuse_inv (w\<lparr>fs := s', receivers := (receivers w)(fd \<mapsto> rc)\<rparr>)"
    proof (cases "rp_cmd rp = CMD_GET_BLOCK")
      case True
      obtain y q where q: "removeRequest (rp_handle rp) (requests (fs w)) = Some (y, q)"
        "y \<noteq> 0 \<longrightarrow> y = rp_handle rp \<and> fuse_inv (w\<lparr>fs := (fs w)\<lparr>requests := q\<rparr>, receivers := (receivers w)(fd \<mapsto> Taken y)\<rparr>)"
        "\<forall>rc. y = 0 \<longrightarrow> rc = Waiting \<or> rc = Failing \<longrightarrow> fuse_inv (w\<lparr>fs := (fs w)\<lparr>requests := q\<rparr>, receivers := (receivers w)(fd \<mapsto> rc)\<rparr>)"
        using inv_remove_request [OF assms(1), of fd "rp_handle rp"] wt by auto
      show ?thesis
      proof (cases "y = 0")
        case True
        obtain rc es'' where "skip_payload (rp_size rp) es' = (rc, es'')" "rc = Waiting \<or> rc = Failing"
          using skip_payload_cases [of "rp_size rp" es'] by (metis prod.collapse)
        then show ?thesis using q True \<open>rp_cmd rp = CMD_GET_BLOCK\<close> by (auto simp: take_reply_def Let_def)
      next
        case False
        then show ?thesis using q True by (auto simp: take_reply_def Let_def)
      qed
    next
      case False
      note nb = this
      show ?thesis
      proof (cases "rp_cmd rp = CMD_GET_SERVERS")
        case True
        obtain rc es'' s' where t: "take_reply e rp es' (fs w) = Some (rc, es'', s')" "rc = Waiting \<or> rc = Failing"
            "s' = fs w \<or> (\<exists>n. s' = (fs w)\<lparr>newservers := n\<rparr>)"
          using take_reply_servers [OF True, of e es' "fs w"] by blast
        then show ?thesis using same [of s' _ rc] wt by auto
      next
        case False
        obtain rc es'' where "skip_payload (rp_size rp) es' = (rc, es'')" "rc = Waiting \<or> rc = Failing"
          using skip_payload_cases [of "rp_size rp" es'] by (metis prod.collapse)
        then show ?thesis using nb False same [of "fs w" _ rc] wt by (simp add: take_reply_def)
      qed
    qed
    then obtain rc es'' s' where t: "take_reply e rp es' (fs w) = Some (rc, es'', s')" and i: "fuse_inv (w\<lparr>fs := s', receivers := (receivers w)(fd \<mapsto> rc)\<rparr>)" by blast
    show ?thesis using Pair Some t inv_reply_done_if [OF i, of "rp_cmd rp = CMD_GET_BLOCK \<and> rc = Waiting" fd "rp_handle rp"] by simp
  qed
qed

lemma taken_member: "finite (dom R) \<Longrightarrow> R fd = Some (Taken p) \<Longrightarrow> p \<in># taken R"
  using taken_release [of R fd p None] by simp

lemma inv_block:
  assumes "fuse_inv w" "fuse_enabled w (L_block fd now fret ss es)"
  shows "\<exists>w'. fuse_exec e w (L_block fd now fret ss es) = Some w' \<and> fuse_inv w'"
proof -
  obtain ps ds where pl: "placed w ps ds" and co: "conserved w" and cn: "connected w" using assms(1) by (auto simp: fuse_inv_def)
  obtain p where p: "receivers w fd = Some (Taken p)" using assms(2) by (auto split: option.splits receiver.splits)
  have fin: "finite (dom (receivers w))" "finite (dom (cells (fs w)))" using pl by (auto simp: placed_def)
  have pp: "p \<in> dom (cells (fs w))" "p \<noteq> 0" "p \<notin> set ps" "p \<notin> set ds" using placedD(4) [OF pl taken_member [OF fin(1) p]] by auto
  then obtain r where r: "cells (fs w) p = Some r" by auto
  obtain ret d es' where rv: "sock_recv (unat (a_length r)) es = (ret, d, es')" by (metis prod_cases3)
  have tk: "taken (receivers w) = add_mset p (taken ((receivers w)(fd \<mapsto> rc)))" if "rc = Waiting \<or> (\<exists>q. rc = Requeued q)" for rc
    using taken_release [OF fin(1) p, of "Some rc"] that by auto
  show ?thesis
  proof (cases "ret = int (unat (a_length r))")
    case True
    let ?s = "answer now fret p r d (fs w)" and ?R = "(receivers w)(fd \<mapsto> Waiting)"
    let ?u = "w\<lparr>fs := ?s, receivers := ?R, answered := answered w @ [request_at (fs w) p]\<rparr>"
    let ?w = "?u\<lparr>fs := reply_done fd p ?s\<rparr>"
    have c: "cells ?s = (cells (fs w))(p := None)" "requests ?s = (requests (fs w))\<lparr>async := (cells (fs w))(p := None)\<rparr>"
      by (simp_all add: answer_def)
    have d: "dom (cells ?s) = dom (cells (fs w)) - {p}" unfolding c by simp
    have "bg_holds ?s (background w) ds"
      by (rule bg_holds_frame [of "fs w"]) (use pl pp c in \<open>auto simp: placed_def\<close>)
    moreover have "queue_is (requests ?s) ps" unfolding c(2) using pl pp(3) by (simp add: placed_def queue_new_cell del: fun_upd_apply)
    moreover have "mset_set (dom (cells (fs w)) - {p}) = mset ps + taken ?R + mset ds + mset (lost w)"
      using pl pp(1) fin tk [of Waiting] by (simp add: placed_def mset_set_Diff)
    ultimately have "placed ?u ps ds" using pl d by (simp add: placed_def)
    moreover have "conserved ?u"
    proof -
      have "image_mset (request_at (fs w)) (mset_set (dom (cells (fs w)))) =
          add_mset (request_at (fs w) p) (image_mset (request_at (fs w)) (mset_set (dom (cells (fs w)) - {p})))"
        using pp(1) fin(2) by (simp add: mset_set.remove)
      also have "image_mset (request_at (fs w)) (mset_set (dom (cells (fs w)) - {p})) = image_mset (request_at ?s) (mset_set (dom (cells (fs w)) - {p}))"
        using fin(2) by (intro image_mset_cong) (auto simp: request_at_def c)
      finally have "mset (accepted w) = image_mset (request_at ?s) (mset_set (dom (cells ?s))) + mset (answered w @ [request_at (fs w) p])"
        using co d by (simp add: conserved_def)
      moreover have "length d = unat (a_length r)" using sock_recv_length rv True by blast
      moreover have "buffers (fuse_calls ?s) = buffers (fuse_calls (fs w)) @ [(a_fuse_req r, d)]" by (simp add: answer_def)
      ultimately show ?thesis using co r by (simp add: conserved_def request_at_def)
    qed
    moreover have "connected ?u" using cn p by (auto simp: connected_def answer_def)
    ultimately have "fuse_inv ?u" by (auto simp: fuse_inv_def)
    then have "fuse_inv ?w" using inv_reply_done [of ?u fd p] by simp
    moreover have "fuse_exec e w (L_block fd now fret ss es) = Some ?w" using p r rv True by (simp add: finish_block_def)
    ultimately show ?thesis by blast
  next
    case False
    let ?s = "(fs w)\<lparr>requests := (requests (fs w))\<lparr>async := (cells (fs w))(p \<mapsto> r\<lparr>a_buffer := Some d\<rparr>)\<rparr>\<rparr>"
      and ?R = "(receivers w)(fd \<mapsto> Requeued p)"
    have dm: "dom (cells ?s) = dom (cells (fs w))" using r by auto
    have q: "queue_is (requests ?s) ps" using pl pp(3) by (simp add: placed_def queue_new_cell del: fun_upd_apply)
    have b: "bg_holds ?s (background w) ds" by (rule bg_holds_frame [of "fs w"]) (use pl pp in \<open>auto simp: placed_def\<close>)
    have m: "mset_set (dom (cells ?s)) = add_mset p (mset ps + taken ?R + mset ds + mset (lost w))"
      unfolding dm using pl tk [of "Requeued p"] by (simp add: placed_def)
    obtain s' where s': "submit e now ss p ?s = Some s'"
      "placed (w\<lparr>fs := s', receivers := ?R, background := background w, lost := lost w\<rparr>) (ps @ [p]) ds"
      "contents (requests s') = contents (requests ?s)"
      "s' = ?s\<lparr>requests := requests s', sockFd := sockFd s', panicSignals := panicSignals s', shutdowns := shutdowns s', asked := asked s'\<rparr>"
      "sockFd s' \<in> {sockFd ?s, - 1}"
      "asked s' = asked ?s \<or> sockFd ?s \<noteq> - 1
          \<and> (\<exists>r. cells ?s p = Some r \<and> asked s' = (sockFd ?s, get_block_request e (a_offset r) (a_length r) p 0) # asked ?s)"
      using placed_submit [OF q b _ _ _ m, of e now ss w] pl dm fin by (auto simp: placed_def)
    let ?w = "w\<lparr>fs := s', receivers := ?R\<rparr>"
    have fl: "fuse_calls s' = fuse_calls (fs w)" "connectionInitDone s'"
      using only_fields [OF s'(4)] cn by (simp_all add: connected_def)
    have "request_at ?s = request_at (fs w)" using r by (auto simp: request_at_def fun_eq_iff)
    then have "conserved ?w"
      using co fl contents_request_at [OF s'(3)] contents_dom [OF s'(3)] dm by (simp add: conserved_def)
    moreover have "connected ?w" by (rule connected_submit [OF cn s'(5) _ _ s'(6)]) (use fl p in \<open>auto\<close>)
    moreover have "placed ?w (ps @ [p]) ds" using s'(2) by (simp add: placed_def)
    moreover have "fuse_exec e w (L_block fd now fret ss es) = Some ?w"
      using p r rv False s'(1) cn by (simp add: finish_block_def connection_read_def connected_def)
    ultimately show ?thesis by (auto simp: fuse_inv_def)
  qed
qed


lemma inv_clear:
  assumes "fuse_inv w" "fuse_enabled w (L_clear fd)" "fuse_exec e w (L_clear fd) = Some w'"
  shows "fuse_inv w'"
proof -
  obtain ps ds where pl: "placed w ps ds" and co: "conserved w" and cn: "connected w" using assms(1) by (auto simp: fuse_inv_def)
  obtain p where p: "receivers w fd = Some (Requeued p)" using assms(2) by (auto split: option.splits receiver.splits)
  obtain r where r: "cells (fs w) p = Some r"
    "w' = w\<lparr>fs := (fs w)\<lparr>requests := (requests (fs w))\<lparr>async := (cells (fs w))(p \<mapsto> r\<lparr>a_buffer := None\<rparr>)\<rparr>\<rparr>, receivers := (receivers w)(fd \<mapsto> Failing)\<rparr>"
    using assms(3) p by (auto simp: clear_buffer_def update_async_def split: option.splits)
  have n: "map_option a_next (((cells (fs w))(p \<mapsto> r\<lparr>a_buffer := None\<rparr>)) x) = map_option a_next (cells (fs w) x)" for x
    using r(1) by simp
  have dm: "dom (cells (fs w')) = dom (cells (fs w))" using r by auto
  have "chain (cells (fs w')) h us" if "chain (cells (fs w)) h us" for h us
    by (rule chain_cong [OF that]) (simp add: r(2) n del: fun_upd_apply)
  then have "placed w' ps ds"
    using pl dm taken_same [of "receivers w" "Some Failing" fd] p by (auto simp: placed_def queue_is_def bg_holds_def r(2) split: background.splits)
  moreover have "request_at (fs w') = request_at (fs w)" using r by (auto simp: request_at_def fun_eq_iff)
  then have "conserved w'" using co dm r(2) by (simp add: conserved_def)
  moreover have "connected w'" using cn p by (auto simp: connected_def r(2))
  ultimately show ?thesis by (auto simp: fuse_inv_def)
qed

text \<open>Steps that change only the connection.\<close>

lemma inv_connection:
  assumes "fuse_inv w" "requests s' = requests (fs w)" "fuse_calls s' = fuse_calls (fs w)" "connectionInitDone s'"
    "sockFd s' = - 1 \<or> sockFd s' = sockFd (fs w) \<and> (sockFd s' = fd \<longrightarrow> x \<noteq> None)"
    "set (asked s') \<subseteq> set (asked (fs w))" "x = None \<longrightarrow> (\<forall>(k, rq)\<in>set (asked s'). k \<noteq> fd)"
    "holds x = holds (receivers w fd)" "fd = - 1 \<longrightarrow> x = None"
  shows "fuse_inv (w\<lparr>fs := s', receivers := (receivers w)(fd := x)\<rparr>)"
proof -
  obtain ps ds where pl: "placed w ps ds" and co: "conserved w" and cn: "connected w" using assms(1) by (auto simp: fuse_inv_def)
  let ?w = "w\<lparr>fs := s', receivers := (receivers w)(fd := x)\<rparr>"
  have "placed ?w ps ds" by (rule placed_same [OF pl assms(2) refl assms(8)])
  moreover have "conserved ?w" by (rule conserved_same [OF co, of s']) (simp_all add: assms(2,3))
  moreover have "connected ?w"
  proof -
    have "sockFd s' = - 1 \<or> ((receivers w)(fd := x)) (sockFd s') \<noteq> None" using cn assms(5) by (auto simp: connected_def)
    moreover have "((receivers w)(fd := x)) k \<noteq> None" if "(k, rq) \<in> set (asked s')" for k rq
    proof -
      have "receivers w k \<noteq> None" using cn assms(6) that unfolding connected_def by fast
      moreover have "x = None \<Longrightarrow> k \<noteq> fd" using assms(7) that by fast
      ultimately show ?thesis by (cases x) auto
    qed
    moreover have "((receivers w)(fd := x)) (- 1) = None" using cn assms(9) by (simp add: connected_def)
    ultimately show ?thesis using assms(4) unfolding connected_def by simp blast
  qed
  ultimately show ?thesis by (auto simp: fuse_inv_def)
qed

lemma no_receiver: "fuse_inv w \<Longrightarrow> receivers w (- 1) = None"
  by (simp add: fuse_inv_def connected_def)

lemma inv_stop:
  assumes "fuse_inv w" "fuse_enabled w (L_stop fd)"
  shows "fuse_inv (w\<lparr>fs := connection_close (fs w), receivers := (receivers w)(fd \<mapsto> Failing)\<rparr>)"
proof (rule inv_connection [OF assms(1)])
  show "fd = - 1 \<longrightarrow> Some Failing = None" using assms no_receiver [OF assms(1)] by auto
qed (use assms in \<open>auto simp: connection_close_def Let_def fuse_inv_def connected_def\<close>)

lemma inv_exit:
  assumes "fuse_inv w" "fuse_enabled w (L_exit fd)"
  shows "fuse_inv (w\<lparr>fs := receiver_exit fd (fs w), receivers := (receivers w)(fd := None)\<rparr>)"
  by (rule inv_connection [OF assms(1)])
    (use assms in \<open>auto simp: receiver_exit_def signal_panic_def Let_def fuse_inv_def connected_def\<close>)

lemma inv_keep_receivers:
  assumes "fuse_inv w" "requests s' = requests (fs w)" "fuse_calls s' = fuse_calls (fs w)" "connectionInitDone s'"
    "sockFd s' = - 1 \<or> sockFd s' = sockFd (fs w)" "asked s' = asked (fs w)"
  shows "fuse_inv (w\<lparr>fs := s'\<rparr>)"
proof -
  have "w\<lparr>fs := s'\<rparr> = w\<lparr>fs := s', receivers := (receivers w)(- 1 := None)\<rparr>" using no_receiver [OF assms(1)] by (simp add: fun_upd_idem)
  moreover have "fuse_inv \<dots>"
    by (rule inv_connection [OF assms(1-4)]) (use assms no_receiver [OF assms(1)] in \<open>auto simp: fuse_inv_def connected_def\<close>)
  ultimately show ?thesis by simp
qed

lemma inv_keepalive: "fuse_inv w \<Longrightarrow> fuse_inv (w\<lparr>fs := keepalive e es (fs w)\<rparr>)"
  by (rule inv_keep_receivers) (auto simp: keepalive_def drop_connection_def fuse_inv_def connected_def)

lemma inv_servers: "fuse_inv w \<Longrightarrow> fuse_inv (w\<lparr>fs := (fs w)\<lparr>altservers := alts, newservers := new\<rparr>\<rparr>)"
  by (rule inv_keep_receivers) (auto simp: fuse_inv_def connected_def)

lemma inv_close: "fuse_inv w \<Longrightarrow> fuse_inv (w\<lparr>fs := connection_close (fs w)\<rparr>)"
  by (rule inv_keep_receivers) (auto simp: connection_close_def Let_def fuse_inv_def connected_def)

lemma inv_switch:
  assumes "fuse_inv w" "fuse_enabled w (L_switch now ss sock host peer)"
  shows "\<exists>w'. fuse_exec e w (L_switch now ss sock host peer) = Some w' \<and> fuse_inv w'"
proof (cases peer)
  case False
  let ?s = "fst (switch_begin e now ss sock host peer (fs w))"
  have "fuse_exec e w (L_switch now ss sock host peer) = Some (w\<lparr>fs := ?s\<rparr>)"
    using False by (simp add: switch_begin_def Let_def)
  moreover have "fuse_inv (w\<lparr>fs := ?s\<rparr>)"
    by (rule inv_keep_receivers [OF assms(1)])
      (use False assms(1) in \<open>auto simp: switch_begin_def Let_def requestAltServers_def signal_panic_def fuse_inv_def connected_def\<close>)
  ultimately show ?thesis by blast
next
  case True
  obtain ps ds where pl: "placed w ps ds" and co: "conserved w" and cn: "connected w" using assms(1) by (auto simp: fuse_inv_def)
  have bg: "background w = BG_idle" "receivers w sock = None" "0 \<le> sock" using assms(2) by auto
  then have ds: "ds = []" using pl by (simp add: placed_def bg_holds_def)
  obtain s q where b: "switch_begin e now ss sock host True (fs w) = (s, q)" by fastforce
  note bq = switch_begin_queue [OF b]
  have sk: "sockFd s = sock \<or> sockFd s = - 1" "connectionInitDone s = connectionInitDone (fs w)"
    using b by (auto simp: switch_begin_def Let_def requestAltServers_def drop_connection_def split: if_splits)
  let ?w = "w\<lparr>fs := s, receivers := (receivers w)(sock \<mapsto> Waiting), background := BG_resend (req_head (requests (fs w)))\<rparr>"
  have c: "cells s = cells (fs w)" "contents (requests s) = contents (requests (fs w))" using bq by (simp_all add: contents_def fun_eq_iff)
  have "placed ?w [] ps"
    using pl bq taken_same [of "receivers w" "Some Waiting" sock] bg(2) ds by (auto simp: placed_def bg_holds_def queue_is_def)
  moreover have "conserved ?w" by (rule conserved_same [OF co, of s]) (use c bq in auto)
  moreover have "connected ?w" using cn bq sk bg(3) by (auto simp: connected_def)
  ultimately show ?thesis using True b bq by (auto simp: fuse_inv_def)
qed

lemma inv_resend:
  assumes "fuse_inv w" "fuse_enabled w (L_resend now ss)"
  shows "\<exists>w'. fuse_exec e w (L_resend now ss) = Some w' \<and> fuse_inv w'"
proof -
  obtain ps ds where pl: "placed w ps ds" and co: "conserved w" and cn: "connected w" using assms(1) by (auto simp: fuse_inv_def)
  obtain it where it: "background w = BG_resend it" using assms(2) by (auto split: background.splits)
  have ch: "chain (cells (fs w)) it ds" using pl it by (simp add: placed_def bg_holds_def)
  show ?thesis
  proof (cases ds)
    case Nil
    then have "placed (w\<lparr>background := BG_idle\<rparr>) ps ds" using pl it by (simp add: placed_def bg_holds_def)
    moreover have "conserved (w\<lparr>background := BG_idle\<rparr>)" by (rule conserved_same [OF co, of "fs w"]) auto
    moreover have "connected (w\<lparr>background := BG_idle\<rparr>)" using cn by (simp add: connected_def)
    moreover have "it = 0" using ch Nil by simp
    ultimately show ?thesis using it by (auto simp: fuse_inv_def)
  next
    case (Cons d ds')
    then obtain r where r: "it = d" "d \<noteq> 0" "cells (fs w) d = Some r" "chain (cells (fs w)) (a_next r) ds'"
      using ch by (auto split: option.splits)
    have "bg_holds (fs w) (BG_resend (a_next r)) ds'" using r by (simp add: bg_holds_def)
    moreover have "mset_set (dom (cells (fs w))) = add_mset d (mset ps + taken (receivers w) + mset ds' + mset (lost w))"
      using pl Cons by (simp add: placed_def)
    ultimately obtain s' where s': "submit e now ss d (fs w) = Some s'"
      "placed (w\<lparr>fs := s', receivers := receivers w, background := BG_resend (a_next r), lost := lost w\<rparr>) (ps @ [d]) ds'"
      "contents (requests s') = contents (requests (fs w))"
      "s' = (fs w)\<lparr>requests := requests s', sockFd := sockFd s', panicSignals := panicSignals s', shutdowns := shutdowns s', asked := asked s'\<rparr>"
      "sockFd s' \<in> {sockFd (fs w), - 1}"
      "asked s' = asked (fs w) \<or> sockFd (fs w) \<noteq> - 1
          \<and> (\<exists>r. cells (fs w) d = Some r \<and> asked s' = (sockFd (fs w), get_block_request e (a_offset r) (a_length r) d 0) # asked (fs w))"
      using placed_submit [of "fs w" ps "BG_resend (a_next r)" ds' "receivers w" d "lost w" e now ss w] pl by (auto simp: placed_def)
    let ?w = "w\<lparr>fs := s', background := BG_resend (a_next r)\<rparr>"
    note fl = only_fields [OF s'(4)]
    have "conserved ?w" by (rule conserved_same [OF co s'(3)]) (use fl in auto)
    moreover have "connected ?w" by (rule connected_submit [OF cn s'(5) refl refl s'(6)]) (use fl cn in \<open>auto simp: connected_def\<close>)
    moreover have "placed ?w (ps @ [d]) ds'" using s'(2) by (simp add: placed_def)
    moreover have "fuse_exec e w (L_resend now ss) = Some ?w" using it r s'(1) by (simp add: resend_one_def)
    ultimately show ?thesis by (auto simp: fuse_inv_def)
  qed
qed

lemma inv_direct:
  assumes "fuse_inv w" "fuse_enabled w (L_direct p)"
  shows "\<exists>w'. fuse_exec e w (L_direct p) = Some w' \<and> fuse_inv w'"
proof -
  obtain ps ds where pl: "placed w ps ds" and co: "conserved w" and cn: "connected w" using assms(1) by (auto simp: fuse_inv_def)
  have bg: "background w = BG_idle" "p \<noteq> 0" using assms(2) by auto
  then have ds: "ds = []" using pl by (simp add: placed_def bg_holds_def)
  have qi: "queue_is (requests (fs w)) ps" using pl by (simp add: placed_def)
  then obtain q where q: "removeRequest p (requests (fs w)) = Some (if p \<in> set ps then p else 0, q)" "queue_is q (remove1 p ps)"
    "contents q = contents (requests (fs w))" using removeRequest_queue by blast
  let ?w = "w\<lparr>fs := (fs w)\<lparr>requests := q\<rparr>, background := (if p \<in> set ps then BG_direct p else BG_idle)\<rparr>"
  have "conserved ?w" by (rule conserved_same [OF co, of "(fs w)\<lparr>requests := q\<rparr>"]) (use q(3) in auto)
  moreover have "connected ?w" using cn by (simp add: connected_def)
  moreover have "placed ?w (remove1 p ps) (if p \<in> set ps then [p] else [])"
    using pl q(2) contents_dom [OF q(3)] ds bg(2) by (auto simp: placed_def bg_holds_def remove1_idem)
  moreover have "fuse_exec e w (L_direct p) = Some ?w" using q(1) bg(2) by auto
  ultimately show ?thesis unfolding fuse_inv_def by blast
qed

text \<open>Bytes arrive for a request that the direct probe took from the list: they are written through its pointer, which is not set.\<close>

definition stray_write :: "fuse_world \<Rightarrow> fuse_label \<Rightarrow> bool" where
  "stray_write w l \<longleftrightarrow> (case (l, background w) of
     (L_direct_end es fault now ss, BG_direct p) \<Rightarrow>
       (case cells (fs w) p of None \<Rightarrow> False | Some r \<Rightarrow> fst (snd (sock_recv (unat (a_length r)) es)) \<noteq> [])
   | _ \<Rightarrow> False)"

lemma inv_direct_end:
  assumes "fuse_inv w" "fuse_enabled w (L_direct_end es fault now ss)"
  shows "(\<exists>w'. fuse_exec e w (L_direct_end es fault now ss) = Some w' \<and> fuse_inv w') \<or> stray_write w (L_direct_end es fault now ss) \<and> fuse_exec e w (L_direct_end es fault now ss) = None"
proof -
  obtain ps ds where pl: "placed w ps ds" and co: "conserved w" and cn: "connected w" using assms(1) by (auto simp: fuse_inv_def)
  obtain p where p: "background w = BG_direct p" using assms(2) by (auto split: background.splits)
  then have ds: "ds = [p]" "p \<noteq> 0" using pl by (auto simp: placed_def bg_holds_def)
  obtain r where r: "cells (fs w) p = Some r" using placedD(3) [OF pl] ds(1) by auto
  obtain ret d es' where rv: "sock_recv (unat (a_length r)) es = (ret, d, es')" by (metis prod_cases3)
  consider "d \<noteq> []" fault | "d = [] \<or> \<not> fault" "ret = int (unat (a_length r))" | "d = [] \<or> \<not> fault" "ret \<noteq> int (unat (a_length r))" by blast
  then show ?thesis
  proof cases
    case 1
    then show ?thesis using p r rv by (simp add: stray_write_def)
  next
    case 2
    let ?w = "w\<lparr>background := BG_idle, lost := p # lost w\<rparr>"
    have "placed ?w ps []" using pl ds by (simp add: placed_def bg_holds_def)
    moreover have "conserved ?w" by (rule conserved_same [OF co, of "fs w"]) auto
    moreover have "connected ?w" using cn by (simp add: connected_def)
    moreover have "fuse_exec e w (L_direct_end es fault now ss) = Some ?w" using p r rv 2 by auto
    ultimately show ?thesis by (auto simp: fuse_inv_def)
  next
    case 3
    have "bg_holds (fs w) BG_idle []" by (simp add: bg_holds_def)
    moreover have "mset_set (dom (cells (fs w))) = add_mset p (mset ps + taken (receivers w) + mset [] + mset (lost w))"
      using pl ds by (simp add: placed_def)
    ultimately obtain s' where s': "submit e now ss p (fs w) = Some s'"
      "placed (w\<lparr>fs := s', receivers := receivers w, background := BG_idle, lost := lost w\<rparr>) (ps @ [p]) []"
      "contents (requests s') = contents (requests (fs w))"
      "s' = (fs w)\<lparr>requests := requests s', sockFd := sockFd s', panicSignals := panicSignals s', shutdowns := shutdowns s', asked := asked s'\<rparr>"
      "sockFd s' \<in> {sockFd (fs w), - 1}"
      "asked s' = asked (fs w) \<or> sockFd (fs w) \<noteq> - 1
          \<and> (\<exists>r. cells (fs w) p = Some r \<and> asked s' = (sockFd (fs w), get_block_request e (a_offset r) (a_length r) p 0) # asked (fs w))"
      using placed_submit [of "fs w" ps BG_idle "[]" "receivers w" p "lost w" e now ss w] pl by (auto simp: placed_def)
    let ?w = "w\<lparr>fs := s', background := BG_idle\<rparr>"
    note fl = only_fields [OF s'(4)]
    have "conserved ?w" by (rule conserved_same [OF co s'(3)]) (use fl in auto)
    moreover have "connected ?w" by (rule connected_submit [OF cn s'(5) refl refl s'(6)]) (use fl cn in \<open>auto simp: connected_def\<close>)
    moreover have "placed ?w (ps @ [p]) []" using s'(2) by (simp add: placed_def)
    moreover have "fuse_exec e w (L_direct_end es fault now ss) = Some ?w"
      using p r rv 3 s'(1) cn by (auto simp: connection_read_def connected_def)
    ultimately show ?thesis by (auto simp: fuse_inv_def)
  qed
qed

text \<open>Every step that a thread can take is defined and keeps the invariant, except for the access to the request after it
  was queued again, for the write of a direct probe, and for what the measurement does with the table.\<close>

definition bad_measure :: "fuse_world \<Rightarrow> fuse_label \<Rightarrow> bool" where
  "bad_measure w l \<longleftrightarrow> (\<exists>rate new. l = L_servers rate new \<and> rate (altservers (fs w)) = None)"

lemma fuse_step_inv:
  assumes "fuse_inv w" "fuse_enabled w l" "\<not> (\<exists>fd. l = L_clear fd)"
  shows "(\<exists>w'. fuse_exec e w l = Some w' \<and> fuse_inv w') \<or> fuse_exec e w l = None \<and> (stray_write w l \<or> bad_measure w l)"
proof (cases l)
  case (L_read now ss junk p req off len)
  then show ?thesis using inv_read [OF assms(1)] assms(2) by blast
next
  case (L_reply fd es)
  then show ?thesis using inv_reply [OF assms(1)] assms(2) by blast
next
  case (L_block fd now fret ss es)
  then show ?thesis using inv_block [OF assms(1)] assms(2) by blast
next
  case (L_switch now ss sock host peer)
  then show ?thesis using inv_switch [OF assms(1)] assms(2) by blast
next
  case (L_resend now ss)
  then show ?thesis using inv_resend [OF assms(1)] assms(2) by blast
next
  case (L_direct p)
  then show ?thesis using inv_direct [OF assms(1)] assms(2) by blast
next
  case (L_direct_end es fault now ss)
  then show ?thesis using inv_direct_end [OF assms(1), of es fault now ss e] assms(2) by auto
next
  case (L_servers rate new)
  then show ?thesis using inv_servers [OF assms(1)] by (cases "rate (altservers (fs w))") (auto simp: bad_measure_def)
next
  case (L_stop fd)
  then show ?thesis using inv_stop assms by simp
next
  case (L_exit fd)
  then show ?thesis using inv_exit assms by simp
qed (use assms inv_keepalive inv_close in auto)

lemma fuse_start_inv: "fuse_start w \<Longrightarrow> fuse_inv w"
proof -
  assume s: "fuse_start w"
  then have "placed w [] []"
    by (auto simp: placed_def fuse_start_def queue_is_def bg_holds_def taken_def)
  then show ?thesis using s by (auto simp: fuse_inv_def conserved_def connected_def fuse_start_def)
qed

lemma fuse_reach_inv: "fuse_reach e ok w \<Longrightarrow> fuse_inv w"
proof (induction rule: fuse_reach.induct)
  case (step w l w')
  then show ?case
  proof (cases "\<exists>fd. l = L_clear fd")
    case True
    then show ?thesis using inv_clear step by blast
  next
    case False
    then show ?thesis using fuse_step_inv [OF step.IH step.hyps(2), of e] step.hyps(4) by auto
  qed
qed (rule fuse_start_inv)


section \<open>Honest servers\<close>

text \<open>A server answers on the socket on which it was asked, with the bytes of the image: what arrives is a beginning of them, or
  starts with them. \<open>malloc\<close> does not reuse an address while a request with this handle is outstanding on an open socket, that is, was sent there and its reply has not been
  taken from there, and
  offsets fit into the 56 bits of the header.\<close>

fun fuse_honest :: "(u64 \<Rightarrow> u32 \<Rightarrow> u8 list) \<Rightarrow> fuse_world \<Rightarrow> fuse_label \<Rightarrow> bool" where
  "fuse_honest data w (L_read now ss junk p req off len) \<longleftrightarrow>
    off < 2 ^ 56 \<and> (\<forall>(fd, rq)\<in>set (asked (fs w)). rq_handle rq \<noteq> p)"
| "fuse_honest data w (L_block fd now fret ss es) \<longleftrightarrow>
    (\<exists>rq. (fd, rq) \<in> set (asked (fs w)) \<and> receivers w fd = Some (Taken (rq_handle rq)) \<and>
      ((\<exists>n. stream es = take n (data (offset_small rq) (rq_size rq))) \<or> (\<exists>r. stream es = data (offset_small rq) (rq_size rq) @ r)))"
| "fuse_honest data w _ \<longleftrightarrow> True"





lemma get_block_handle [simp]: "rq_handle (get_block_request e off len p h) = p" "rq_size (get_block_request e off len p h) = len"
  by (simp_all add: get_block_request_def set_hops_def)
























section \<open>Runs\<close>

text \<open>A sequence of steps, each of which is possible and satisfies \<open>ok\<close>.\<close>

fun fuse_run :: "endian \<Rightarrow> (fuse_world \<Rightarrow> fuse_label \<Rightarrow> bool) \<Rightarrow> fuse_world \<Rightarrow> fuse_label list \<Rightarrow> fuse_world option" where
  "fuse_run e ok w [] = Some w"
| "fuse_run e ok w (l # ls) =
    (if fuse_enabled w l \<and> ok w l then (case fuse_exec e w l of None \<Rightarrow> None | Some w \<Rightarrow> fuse_run e ok w ls) else None)"

lemma fuse_run_reach: "fuse_reach e ok w \<Longrightarrow> fuse_run e ok w ls = Some w' \<Longrightarrow> fuse_reach e ok w'"
  by (induction ls arbitrary: w) (auto split: if_splits option.splits intro: fuse_reach.step)

definition reply_header :: "endian \<Rightarrow> u64 \<Rightarrow> u32 \<Rightarrow> recv_event list" where
  "reply_header e h len = [Recv_data (reply_mem e (fixup_reply e
     \<lparr>rp_magic = dnbd3_packet_magic e, rp_cmd = CMD_GET_BLOCK, rp_size = len, rp_handle = h\<rparr>))]"

lemma receive_header_reply:
  "receive_header e (reply_header e h len) = (Some \<lparr>rp_magic = dnbd3_packet_magic e, rp_cmd = CMD_GET_BLOCK, rp_size = len, rp_handle = h\<rparr>, [])"
proof -
  let ?r = "\<lparr>rp_magic = dnbd3_packet_magic e, rp_cmd = CMD_GET_BLOCK, rp_size = len, rp_handle = h\<rparr>"
  let ?m = "reply_mem e (fixup_reply e ?r)"
  have l: "length ?m = 16" by (simp add: reply_mem_def store_native_def split: endian.split)
  have "word_of_nat (load_native e (store_native e 8 (unat h))) = h" using load_store_words(3) by blast
  then have "fixup_reply e (reply_of_mem e ?m) = ?r" by (simp add: reply_over_wire)
  then have "dnbd3_read_reply e True [Recv_data ?m] = (REPLY_OK ?r, [])"
    using l by (cases ?m) (auto simp: dnbd3_read_reply_def Let_def)
  then show ?thesis by (simp add: receive_header.simps reply_header_def)
qed

definition sample_world :: fuse_world where
  "sample_world = \<lparr>fs = sample_fuse\<lparr>requests := \<lparr>req_head = 0, req_tail = 0, async = Map.empty\<rparr>, learnNewServers := False\<rparr>, receivers = [5 \<mapsto> Waiting],
     background = BG_idle, lost = [], accepted = [], answered = []\<rparr>"

lemma sample_world_start: "fuse_start sample_world"
  by (simp add: fuse_start_def sample_world_def sample_fuse_def)

definition sample_data :: "u64 \<Rightarrow> u32 \<Rightarrow> u8 list" where
  "sample_data off len = replicate (unat len) (ucast off)"

text \<open>Short forms of the steps used in the examples.\<close>

abbreviation s_read :: "u64 \<Rightarrow> nat \<Rightarrow> u64 \<Rightarrow> fuse_label" where
  "s_read p req off \<equiv> L_read sample_ticks [Sent 24] (sample_async 0) p req off 1"

abbreviation s_reply :: "int \<Rightarrow> u64 \<Rightarrow> fuse_label" where
  "s_reply fd p \<equiv> L_reply fd (reply_header LE p 1)"

abbreviation s_block :: "int \<Rightarrow> u8 \<Rightarrow> fuse_label" where
  "s_block fd x \<equiv> L_block fd sample_ticks 0 [Sent 24] [Recv_data [x]]"

abbreviation s_cut :: "int \<Rightarrow> fuse_label" where
  "s_cut fd \<equiv> L_block fd sample_ticks 0 [Sent 24] []"

abbreviation s_switch :: "int \<Rightarrow> fuse_label" where
  "s_switch fd \<equiv> L_switch sample_ticks [Sent 24] fd (sample_fuse_host 2) True"

abbreviation s_resend :: "fuse_label" where
  "s_resend \<equiv> L_resend sample_ticks [Sent 24]"

lemma sent24: "fst (dnbd3_get_block e off len p 0 [Sent 24])"
  using get_block_sends [of 24] by simp

lemma ex_take_nothing: "\<exists>n::nat. min n (Suc 0) = 0"
  by (rule exI [of _ 0]) simp

lemmas run_defs = ex_take_nothing sample_world_def sample_fuse_def connection_read_def fuse_request_def submit_def enqueueRequest_def update_async_def
  send_request_def sent24 receive_header_reply take_reply_def removeRequest_def remove_loop.simps unlink_def finish_block_def
  answer_def sock_recv_def switch_begin_def requestAltServers_def drop_connection_def resend_one_def request_at_def Let_def
  sample_async_def clear_buffer_def cmd_defs reply_done_def

section \<open>Properties\<close>

text \<open>C5. No read request is lost track of or answered twice: in every state that any interleaving of the threads and any behaviour of the servers
  can reach, the list of pending requests is intact, each request that is still allocated is in exactly one place (the list, a receiving
  thread, the background thread, or lost to a direct probe), the accepted requests are those together with the
  answered ones, and each answer goes to its fuse request with the number of bytes that was asked for.\<close>

theorem fuse_requests_conserved:
  assumes "fuse_reach e ok w"
  shows "\<exists>ps ds. queue_is (requests (fs w)) ps \<and> bg_holds (fs w) (background w) ds
    \<and> mset_set (dom (cells (fs w))) = mset ps + taken (receivers w) + mset ds + mset (lost w)
    \<and> mset (accepted w) = image_mset (request_at (fs w)) (mset ps + taken (receivers w) + mset ds + mset (lost w)) + mset (answered w)
    \<and> map (\<lambda>(req, d). (req, length d)) (buffers (fuse_calls (fs w))) = map (\<lambda>(req, off, len). (req, unat len)) (answered w)"
proof -
  obtain ps ds where pl: "placed w ps ds" and co: "conserved w" using fuse_reach_inv [OF assms] by (auto simp: fuse_inv_def)
  have m: "mset_set (dom (cells (fs w))) = mset ps + taken (receivers w) + mset ds + mset (lost w)" using pl by (simp add: placed_def)
  show ?thesis
    by (intro exI [of _ ps] exI [of _ ds]) (use pl co in \<open>auto simp: placed_def conserved_def m [symmetric]\<close>)
qed

theorem fuse_requests_conserved_witness:
  "\<exists>w ps ds. fuse_run LE (\<lambda>_ _. True) sample_world [s_read 16 1 0, s_read 32 2 1, s_reply 5 16, s_block 5 0] = Some w
    \<and> mset (accepted w) = image_mset (request_at (fs w)) (mset ps + taken (receivers w) + mset ds + mset (lost w)) + mset (answered w)
    \<and> answered w = [(1, 0, 1)] \<and> length (accepted w) = 2"
proof -
  obtain w where w: "fuse_run LE (\<lambda>_ _. True) sample_world [s_read 16 1 0, s_read 32 2 1, s_reply 5 16, s_block 5 0] = Some w"
      "answered w = [(1, 0, 1)]" "length (accepted w) = 2"
    by (simp add: run_defs)
  have "fuse_reach LE (\<lambda>_ _. True) w" using fuse_run_reach [OF fuse_reach.start [OF sample_world_start] w(1)] .
  then show ?thesis using fuse_requests_conserved w by blast
qed



text \<open>The exception can occur with honest servers: the connection breaks inside of a payload, the client has switched to another server
  before, and this server answers the request that was queued again before the first thread goes on.\<close>

theorem fuse_requeue_use_after_free:
  "\<exists>w. fuse_reach LE (fuse_honest sample_data) w \<and> fuse_enabled w (L_clear 5) \<and> fuse_exec LE w (L_clear 5) = None"
proof -
  let ?ls = "[s_read 16 1 0, s_reply 5 16, s_switch 6, s_resend, s_cut 5, s_reply 6 16, s_block 6 0]"
  obtain w where "fuse_run LE (fuse_honest sample_data) sample_world ?ls = Some w"
      "fuse_enabled w (L_clear 5)" "fuse_exec LE w (L_clear 5) = None"
    by (simp add: run_defs sample_data_def offset_small_def get_block_request_def set_hops_def)
  then show ?thesis using fuse_run_reach [OF fuse_reach.start [OF sample_world_start]] by blast
qed



text \<open>C39. The condition on \<open>malloc\<close> is needed: the handle of a request is its address. When a request is answered by a new server,
  freed, and its address used again for another request, a late reply of the old server to the first request is
  delivered as the data of the second one.\<close>

definition honest_payloads :: "(u64 \<Rightarrow> u32 \<Rightarrow> u8 list) \<Rightarrow> fuse_world \<Rightarrow> fuse_label \<Rightarrow> bool" where
  "honest_payloads data w l \<longleftrightarrow> (case l of L_block fd now fret ss es \<Rightarrow> fuse_honest data w l | _ \<Rightarrow> True)"

theorem stale_reply_wrong_data:
  "\<exists>w. fuse_reach LE (honest_payloads sample_data) w \<and> answered w = [(1, 0, 1), (2, 1, 1)]
    \<and> buffers (fuse_calls (fs w)) = [(1, sample_data 0 1), (2, sample_data 0 1)] \<and> sample_data 0 1 \<noteq> sample_data 1 1"
proof -
  let ?ls = "[s_read 16 1 0, s_switch 6, s_resend, s_resend, s_reply 6 16, s_block 6 0, s_read 16 2 1, s_reply 5 16, s_block 5 0]"
  obtain w where "fuse_run LE (honest_payloads sample_data) sample_world ?ls = Some w"
      "answered w = [(1, 0, 1), (2, 1, 1)]" "buffers (fuse_calls (fs w)) = [(1, sample_data 0 1), (2, sample_data 0 1)]"
    by (simp add: run_defs sample_data_def honest_payloads_def offset_small_def get_block_request_def set_hops_def)
  moreover have "sample_data 0 1 \<noteq> sample_data 1 1" by (simp add: sample_data_def)
  ultimately show ?thesis using fuse_run_reach [OF fuse_reach.start [OF sample_world_start]] by blast
qed

end
