(* ===== verification/Fuse_Probe.thy ===== *)
theory Fuse_Probe
  imports Fuse_Threads
begin

text \<open>
  The measurements of the background thread of the fuse client (\<open>probeAltServers\<close> and \<open>connection_backgroundThread\<close> of
  \<open>src/fuse/connection.c\<close>): each server of the table is asked for the image and for a block, the response times are
  updated, and the client switches to a better server; without a working connection it takes the first server that answers.
  What happens on the connection to a server is an argument for each index of the table. A result \<open>None\<close> is an access outside of an array or
  through \<open>NULL\<close>.
\<close>

section \<open>One server\<close>

definition CLIENT_MIN_SUPPORTED_SERVER :: u16 where "CLIENT_MIN_SUPPORTED_SERVER = 2"
definition RTT_BLOCK_SIZE :: u32 where "RTT_BLOCK_SIZE = 4096"
definition STARTUP_MODE_DURATION :: u32 where "STARTUP_MODE_DURATION = 30"
definition TIMER_INTERVAL_PROBE_STARTUP :: int where "TIMER_INTERVAL_PROBE_STARTUP = 4"
definition TIMER_INTERVAL_PROBE_NORMAL :: int where "TIMER_INTERVAL_PROBE_NORMAL = 22"
definition TIMER_INTERVAL_KEEPALIVE_PACKET :: int where "TIMER_INTERVAL_KEEPALIVE_PACKET = 6"

text \<open>The environment of the probe of one server: random number, socket (\<open>-1\<close> if the connection fails), whether the selection
  of the image was sent, the buffer on the stack, what arrives, how the block request is sent, start and end of the measurement.
  The payload for a pending request is received into \<open>request->buffer\<close>, which no code has set: \<open>pb_fault\<close> says whether writing there ends the program. Then time and sending
  of the request when it is queued again.\<close>

record client_probe =
  pb_rand :: int
  pb_sock :: int
  pb_selected :: bool
  pb_buffer :: serialized_buffer
  pb_in :: "recv_event list"
  pb_send :: "send_event list"
  pb_start :: ticks
  pb_end :: ticks
  pb_fault :: bool
  pb_now :: ticks
  pb_requeue :: "send_event list"

text \<open>From \<open>dnbd3_select_image\<close> up to the payload: whether the probe succeeds, what a failure adds to the counter apart from the one
  that every failure adds, and the state.\<close>

definition probe_payload :: "endian \<Rightarrow> client_probe \<Rightarrow> u64 \<Rightarrow> u32 \<Rightarrow> recv_event list \<Rightarrow> fuse_state \<Rightarrow> (bool \<times> int \<times> fuse_state) option" where
  "probe_payload e env request testLength es s =
    (case (if request = 0 then Some (0, requests s) else removeRequest request (requests s)) of
       None \<Rightarrow> None
     | Some (y, q) \<Rightarrow>
        let s = s\<lparr>requests := q\<rparr> in
        if y \<noteq> 0
        then (case cells s request of
            None \<Rightarrow> None
          | Some r \<Rightarrow>
             (case sock_recv (unat (a_length r)) es of (ret, d, es) \<Rightarrow>
                if d \<noteq> [] \<and> pb_fault env then None
                else if ret = int (unat (a_length r)) then Some (True, 0, s)
                else map_option (\<lambda>(_, s). (False, 0, s)) (connection_read e (pb_now env) (pb_requeue env) request s)))
        else Some (fst (throwDataAway (unat testLength) es), 0, s))"

definition probe_server :: "endian \<Rightarrow> client_probe \<Rightarrow> u64 \<Rightarrow> u64 \<Rightarrow> u32 \<Rightarrow> fuse_state \<Rightarrow> (bool \<times> int \<times> fuse_state) option" where
  "probe_server e env request testOffset testLength s =
    (if pb_sock env = - 1 \<or> \<not> pb_selected env then Some (False, 0, s)
     else case dnbd3_select_image_reply e (pb_buffer env) (pb_in env) of
       (None, es) \<Rightarrow> Some (False, 0, s)
     | (Some (remoteProto, remoteName, remoteRid, remoteSize, b), es) \<Rightarrow>
        if remoteProto < CLIENT_MIN_SUPPORTED_SERVER then Some (False, 10, s)
        else if remoteRid \<noteq> img_rid s then Some (False, 10, s)
        else case remoteName of
          None \<Rightarrow> None
        | Some i \<Rightarrow>
          if string_at b i \<noteq> c_str (img_name s) then Some (False, 10, s)
          else if \<not> fst (dnbd3_get_block e testOffset testLength 0 0 (pb_send env)) then Some (False, 0, s)
          else case dnbd3_get_reply e es of
            (None, es) \<Rightarrow> Some (False, 0, s)
          | (Some reply, es) \<Rightarrow>
             if rp_size reply \<noteq> testLength then Some (False, 0, s)
             else probe_payload e env request testLength es s)"

section \<open>All servers\<close>

text \<open>The state of the loop: the module state, the best server so far and its socket. The sockets that were opened are
  recorded.\<close>

record probing =
  pg_state :: fuse_state
  pg_best :: "nat option"
  pg_bestSock :: int
  pg_opened :: "int list"

definition set_alt_server :: "nat \<Rightarrow> alt_server \<Rightarrow> fuse_state \<Rightarrow> fuse_state" where
  "set_alt_server i a s = s\<lparr>altservers := (altservers s)[i := a]\<rparr>"

definition close_socket :: "int \<Rightarrow> fuse_state \<Rightarrow> fuse_state" where
  "close_socket sock s = (if sock \<noteq> - 1 then s\<lparr>closed := sock # closed s\<rparr> else s)"

definition skip_server :: "bool \<Rightarrow> client_probe \<Rightarrow> alt_server \<Rightarrow> bool" where
  "skip_server panic env srv \<longleftrightarrow> \<not> al_used srv
     \<or> \<not> panic \<and> consecutiveFails srv > FAIL_BACKOFF_START_COUNT \<and> pb_rand env smod consecutiveFails srv \<ge> FAIL_BACKOFF_START_COUNT"

text \<open>The code at label \<open>fail\<close>, and the update of the statistics after a success.\<close>

definition failed_probe :: "nat \<Rightarrow> client_probe \<Rightarrow> int \<Rightarrow> probing \<Rightarrow> probing option" where
  "failed_probe i env penalty g =
    (let s = close_socket (pb_sock env) (pg_state g) in
     map_option (\<lambda>a. g\<lparr>pg_state := set_alt_server i a s\<rparr>) (probe_failure penalty (altservers s ! i)))"

definition good_probe :: "nat \<Rightarrow> client_probe \<Rightarrow> probing \<Rightarrow> probing option" where
  "good_probe i env g =
    map_option (\<lambda>a.
      let s = set_alt_server i a (pg_state g) in
      if (case pg_best g of None \<Rightarrow> True | Some b \<Rightarrow> al_rtt (altservers s ! b) > al_rtt a)
      then g\<lparr>pg_state := close_socket (pg_bestSock g) s, pg_best := Some i, pg_bestSock := pb_sock env\<rparr>
      else g\<lparr>pg_state := close_socket (pb_sock env) s\<rparr>)
      (probe_success (timing_diffUs (pb_start env) (pb_end env)) (altservers (pg_state g) ! i))"

text \<open>The loop over the indexes. In panic mode it ends with the first server that answers: its index comes with the result.\<close>

fun probe_loop :: "endian \<Rightarrow> bool \<Rightarrow> u64 \<Rightarrow> u64 \<Rightarrow> u32 \<Rightarrow> (nat \<Rightarrow> client_probe) \<Rightarrow> nat list \<Rightarrow> probing \<Rightarrow> (probing \<times> nat option) option" where
  "probe_loop e panic request off len env [] g = Some (g, None)"
| "probe_loop e panic request off len env (i # is) g =
    (let s = pg_state g; srv = altservers s ! i in
     if skip_server panic (env i) srv then probe_loop e panic request off len env is g
     else case probe_server e (env i) request off len (set_alt_server i (next_rttIndex srv) s) of
       None \<Rightarrow> None
     | Some (ok, penalty, s) \<Rightarrow>
        let g = g\<lparr>pg_state := s, pg_opened := (if pb_sock (env i) \<noteq> - 1 then pb_sock (env i) # pg_opened g else pg_opened g)\<rparr> in
        if ok \<and> panic then Some (g, Some i)
        else case (if ok then good_probe i (env i) g else failed_probe i (env i) penalty g) of
          None \<Rightarrow> None
        | Some g \<Rightarrow> probe_loop e panic request off len env is g)"

section \<open>The whole measurement\<close>

text \<open>The search for the current server, and for a request that has been waiting too long.\<close>

definition current_index :: "fuse_state \<Rightarrow> nat option" where
  "current_index s = (if sockFd s = - 1 then None
     else first_index (\<lambda>a. al_used a \<and> isSameAddressPort (al_host a) (currentServer s)) (altservers s))"

partial_function (option) delayed_loop :: "(u64 \<Rightarrow> dnbd3_async option) \<Rightarrow> ticks \<Rightarrow> u64 \<Rightarrow> u64 \<Rightarrow> bool option" where
  "delayed_loop m now maxDelay iterator =
    (if iterator = 0 then Some False
     else case m iterator of
       None \<Rightarrow> None
     | Some r \<Rightarrow> if timing_diffUs (a_time r) now > maxDelay then Some True else delayed_loop m now maxDelay (a_next r))"

definition probe_panic :: "ticks \<Rightarrow> fuse_state \<Rightarrow> bool option" where
  "probe_panic now s =
    (if sockFd s = - 1 then Some True
     else case current_index s of
       None \<Rightarrow> Some False
     | Some c \<Rightarrow> delayed_loop (cells s) now (word_of_int (max (al_rtt (altservers s ! c) * 5) 1000000)) (req_head (requests s)))"

text \<open>Before the loop: the mode, the pending request that is probed for (0 if none), and the block to ask for.\<close>

definition probe_setup :: "ticks \<Rightarrow> fuse_state \<Rightarrow> (bool \<times> u64 \<times> u64 \<times> u32) option" where
  "probe_setup now s =
    (case probe_panic now s of
       None \<Rightarrow> None
     | Some panic \<Rightarrow>
       if panic \<and> req_head (requests s) \<noteq> 0
       then map_option (\<lambda>r. (panic, req_head (requests s), a_offset r, a_length r)) (cells s (req_head (requests s)))
       else Some (panic, 0, 0, RTT_BLOCK_SIZE))"

text \<open>After the loop; \<open>rnd\<close> is the random number of the decision. The result is the state, the sockets that were
  opened, and the socket and the index of the server to switch to.\<close>

definition probe_finish :: "(nat \<Rightarrow> client_probe) \<Rightarrow> int \<Rightarrow> nat option \<Rightarrow> probing \<times> nat option \<Rightarrow> (fuse_state \<times> int list \<times> (int \<times> nat) option) option" where
  "probe_finish env rnd current = (\<lambda>(g, r). case r of
     Some i \<Rightarrow> Some (pg_state g, pg_opened g, if keepRunning (pg_state g) then Some (pb_sock (env i), i) else None)
   | None \<Rightarrow> (case pg_best g of
        None \<Rightarrow> Some (pg_state g, pg_opened g, None)
      | Some b \<Rightarrow> map_option (\<lambda>(doSwitch, alts).
           if doSwitch then ((pg_state g)\<lparr>altservers := reset_bestCounts b alts\<rparr>, pg_opened g, Some (pg_bestSock g, b))
           else ((pg_state g)\<lparr>altservers := alts, closed := pg_bestSock g # closed (pg_state g)\<rparr>, pg_opened g, None))
         (decide rnd b current (altservers (pg_state g)))))"

definition probe_phase :: "endian \<Rightarrow> ticks \<Rightarrow> int \<Rightarrow> (nat \<Rightarrow> client_probe) \<Rightarrow> fuse_state \<Rightarrow> (fuse_state \<times> int list \<times> (int \<times> nat) option) option" where
  "probe_phase e now rnd env s =
    (case probe_setup now s of
       None \<Rightarrow> None
     | Some (panic, request, off, len) \<Rightarrow>
       (case probe_loop e panic request off len env [0..<(if panic then MAX_ALTS else MAX_ALTS_ACTIVE)]
             \<lparr>pg_state = s, pg_best = None, pg_bestSock = - 1, pg_opened = []\<rparr> of
          None \<Rightarrow> None
        | Some r \<Rightarrow> probe_finish env rnd (current_index s) r))"

text \<open>What the switch needs from its environment.\<close>

record switch_env =
  sw_now :: ticks
  sw_send :: "send_event list"
  sw_resend :: "nat \<Rightarrow> ticks \<times> send_event list"
  sw_peer :: bool

definition probeAltServers :: "endian \<Rightarrow> ticks \<Rightarrow> int \<Rightarrow> (nat \<Rightarrow> client_probe) \<Rightarrow> switch_env \<Rightarrow> fuse_state \<Rightarrow> fuse_state option" where
  "probeAltServers e now rnd env sw s = (case probe_phase e now rnd env s of
     None \<Rightarrow> None
   | Some (s, opened, None) \<Rightarrow> Some s
   | Some (s, opened, Some (sock, i)) \<Rightarrow>
      switchConnection e (sw_now sw) (sw_send sw) (sw_resend sw) sock (al_host (altservers s ! i)) (sw_peer sw) s)"

section \<open>The background thread\<close>

text \<open>One round of \<open>connection_backgroundThread\<close> after the wait; \<open>now\<close> is the time then. The timers are the
  second and third component.\<close>

definition background_round :: "endian \<Rightarrow> ticks \<Rightarrow> ticks \<Rightarrow> int \<Rightarrow> (nat \<Rightarrow> client_probe) \<Rightarrow> switch_env \<Rightarrow> send_event list \<Rightarrow>
    fuse_state \<times> ticks \<times> ticks \<Rightarrow> (fuse_state \<times> ticks \<times> ticks) option" where
  "background_round e now probeNow rnd env sw ks = (\<lambda>(s, nextKeepalive, nextRttCheck).
    let panic = (sockFd s = - 1);
        check = (panic \<or> timing_reachedPrecise nextRttCheck now) in
    (case (if check
           then let s = (if learnNewServers s
                         then (case addAltServers (newservers s) (altservers s) of (new, alts) \<Rightarrow> s\<lparr>newservers := new, altservers := alts\<rparr>)
                         else s)
                in probeAltServers e probeNow rnd env sw (s\<lparr>altservers := sortAltServers (altservers s)\<rparr>)
           else Some s) of
       None \<Rightarrow> None
     | Some s \<Rightarrow>
       let nextRttCheck = (if check
             then timing_addSeconds now (if panic \<or> timing_diff (startupTime s) now \<le> STARTUP_MODE_DURATION
                    then TIMER_INTERVAL_PROBE_STARTUP else TIMER_INTERVAL_PROBE_NORMAL)
             else nextRttCheck) in
       if timing_reachedPrecise nextKeepalive now
       then let s' = keepalive e ks s in
         Some (s', timing_addSeconds now TIMER_INTERVAL_KEEPALIVE_PACKET,
               if sockFd s \<noteq> - 1 \<and> sockFd s' = - 1 then now else nextRttCheck)
       else Some (s, nextKeepalive, nextRttCheck)))"


section \<open>Frames\<close>

lemma submit_frame:
  "submit e now es p s = Some s' \<Longrightarrow>
   s' = s\<lparr>requests := requests s', sockFd := sockFd s', panicSignals := panicSignals s', shutdowns := shutdowns s', asked := asked s'\<rparr>"
  by (auto simp: submit_def send_request_def drop_connection_def signal_panic_def Let_def split: option.splits if_splits)

lemma connection_read_frame:
  "connection_read e now es p s = Some (b, s') \<Longrightarrow>
   s' = s\<lparr>requests := requests s', sockFd := sockFd s', panicSignals := panicSignals s', shutdowns := shutdowns s', asked := asked s'\<rparr>"
  using submit_frame by (auto simp: connection_read_def split: if_splits)

text \<open>What a probe leaves alone: everything but the requests and the connection.\<close>

definition probe_frame :: "fuse_state \<Rightarrow> fuse_state \<Rightarrow> bool" where
  "probe_frame s s' \<longleftrightarrow> s' = s\<lparr>requests := requests s', sockFd := sockFd s', panicSignals := panicSignals s', shutdowns := shutdowns s', asked := asked s'\<rparr>"

lemma probe_frameD:
  assumes "probe_frame s s'"
  shows "altservers s' = altservers s" "closed s' = closed s" "keepRunning s' = keepRunning s" "img_rid s' = img_rid s" "img_name s' = img_name s"
    "fuse_calls s' = fuse_calls s"
proof -
  note f = assms [unfolded probe_frame_def]
  show "altservers s' = altservers s" using arg_cong [OF f, of altservers] by simp
  show "closed s' = closed s" using arg_cong [OF f, of closed] by simp
  show "keepRunning s' = keepRunning s" using arg_cong [OF f, of keepRunning] by simp
  show "img_rid s' = img_rid s" using arg_cong [OF f, of img_rid] by simp
  show "img_name s' = img_name s" using arg_cong [OF f, of img_name] by simp
  show "fuse_calls s' = fuse_calls s" using arg_cong [OF f, of fuse_calls] by simp
qed

lemma probe_payload_frame:
  assumes "probe_payload e env request len es s = Some (ok, pen, s')"
  shows "probe_frame s s'"
proof -
  obtain y q where q: "(if request = 0 then Some (0, requests s) else removeRequest request (requests s)) = Some (y, q)"
    using assms by (auto simp: probe_payload_def split: option.splits)
  show ?thesis
  proof (cases "s' = s\<lparr>requests := q\<rparr>")
    case True
    then show ?thesis by (simp add: probe_frame_def)
  next
    case False
    then obtain b where c: "connection_read e (pb_now env) (pb_requeue env) request (s\<lparr>requests := q\<rparr>) = Some (b, s')"
      using assms q by (auto simp: probe_payload_def Let_def split: if_splits option.splits prod.splits)
    show ?thesis unfolding probe_frame_def using connection_read_frame [OF c] by simp
  qed
qed

text \<open>A server that offers the image in a supported version.\<close>

definition offers_image :: "endian \<Rightarrow> client_probe \<Rightarrow> fuse_state \<Rightarrow> bool" where
  "offers_image e env s \<longleftrightarrow> pb_sock env \<noteq> - 1 \<and> (\<exists>v i rid sz b es.
     dnbd3_select_image_reply e (pb_buffer env) (pb_in env) = (Some (v, Some i, rid, sz, b), es)
     \<and> v \<ge> CLIENT_MIN_SUPPORTED_SERVER \<and> rid = img_rid s \<and> string_at b i = c_str (img_name s))"

lemma probe_server_cases:
  assumes "probe_server e env request off len s = Some (ok, pen, s')"
  shows "\<not> ok \<and> s' = s \<or> offers_image e env s \<and> (\<exists>es. probe_payload e env request len es s = Some (ok, pen, s'))"
proof (cases "s' = s \<and> \<not> ok")
  case False
  have c: "pb_sock env \<noteq> - 1" "pb_selected env" using assms False by (auto simp: probe_server_def split: if_splits)
  obtain r es where sr: "dnbd3_select_image_reply e (pb_buffer env) (pb_in env) = (r, es)" by fastforce
  then obtain v nm rid sz b where r: "r = Some (v, nm, rid, sz, b)"
    using assms False c by (cases r) (auto simp: probe_server_def)
  note a = assms [unfolded probe_server_def sr r, simplified]
  have v: "\<not> v < CLIENT_MIN_SUPPORTED_SERVER" "rid = img_rid s" using a c False by (auto split: if_splits)
  obtain i where i: "nm = Some i" using a c v by (cases nm) auto
  have n: "string_at b i = c_str (img_name s)" "fst (dnbd3_get_block e off len 0 0 (pb_send env))"
    using a c v i False by (auto split: if_splits)
  obtain rp es' where g: "dnbd3_get_reply e es = (rp, es')" by fastforce
  obtain reply where rp: "rp = Some reply" "rp_size reply = len" using a c v i n g False by (cases rp) (auto split: if_splits)
  have "probe_payload e env request len es' s = Some (ok, pen, s')" using a c v i n g rp by simp
  moreover have "offers_image e env s" using c v sr r i n by (auto simp: offers_image_def)
  ultimately show ?thesis by blast
qed auto

lemma probe_server_frame: "probe_server e env request off len s = Some (ok, pen, s') \<Longrightarrow> probe_frame s s'"
proof -
  assume "probe_server e env request off len s = Some (ok, pen, s')"
  from probe_server_cases [OF this] show ?thesis
  proof (elim disjE conjE exE)
    assume "s' = s"
    then show ?thesis by (simp add: probe_frame_def)
  qed (rule probe_payload_frame)
qed

section \<open>The loop\<close>

text \<open>The best server offers the image, its socket is the open one, and every other socket is closed.\<close>

definition probing_ok :: "endian \<Rightarrow> (nat \<Rightarrow> client_probe) \<Rightarrow> fuse_state \<Rightarrow> probing \<Rightarrow> bool" where
  "probing_ok e env s g \<longleftrightarrow> img_rid (pg_state g) = img_rid s \<and> img_name (pg_state g) = img_name s \<and> keepRunning (pg_state g) = keepRunning s
     \<and> (case pg_best g of None \<Rightarrow> pg_bestSock g = - 1 \<and> mset (closed (pg_state g)) = mset (closed s) + mset (pg_opened g)
        | Some b \<Rightarrow> offers_image e (env b) s \<and> pg_bestSock g = pb_sock (env b)
            \<and> add_mset (pg_bestSock g) (mset (closed (pg_state g))) = mset (closed s) + mset (pg_opened g))"

lemma offers_image_same: "img_rid s' = img_rid s \<Longrightarrow> img_name s' = img_name s \<Longrightarrow> offers_image e env s' = offers_image e env s"
  by (simp add: offers_image_def)

text \<open>The state of the loop after the probe of a server, before its outcome is recorded.\<close>

definition probed :: "client_probe \<Rightarrow> fuse_state \<Rightarrow> probing \<Rightarrow> probing" where
  "probed env s g = g\<lparr>pg_state := s, pg_opened := (if pb_sock env \<noteq> - 1 then pb_sock env # pg_opened g else pg_opened g)\<rparr>"

lemma failed_probe_ok:
  assumes "probing_ok e env s0 g" "failed_probe i (env i) pen (probed (env i) s g) = Some g'"
    "closed s = closed (pg_state g)" "img_rid s = img_rid s0" "img_name s = img_name s0" "keepRunning s = keepRunning s0"
  shows "probing_ok e env s0 g'"
  using assms by (cases "pb_sock (env i) = - 1")
    (auto simp: probing_ok_def failed_probe_def probed_def close_socket_def set_alt_server_def Let_def split: option.splits)

lemma good_probe_ok:
  assumes "probing_ok e env s0 g" "good_probe i (env i) (probed (env i) s g) = Some g'" "offers_image e (env i) s0"
    "closed s = closed (pg_state g)" "img_rid s = img_rid s0" "img_name s = img_name s0" "keepRunning s = keepRunning s0"
  shows "probing_ok e env s0 g'"
proof -
  have "pb_sock (env i) \<noteq> - 1" "\<And>b. pg_best g = Some b \<Longrightarrow> pg_bestSock g \<noteq> - 1"
    using assms(1,3) by (auto simp: offers_image_def probing_ok_def)
  then show ?thesis using assms
    by (auto simp: probing_ok_def good_probe_def probed_def close_socket_def set_alt_server_def Let_def split: option.splits if_splits)
qed

lemma set_alt_server_simps [simp]: "closed (set_alt_server i a s) = closed s" "img_rid (set_alt_server i a s) = img_rid s"
  "img_name (set_alt_server i a s) = img_name s" "keepRunning (set_alt_server i a s) = keepRunning s"
  "requests (set_alt_server i a s) = requests s" "fuse_calls (set_alt_server i a s) = fuse_calls s"
  by (simp_all add: set_alt_server_def)

lemma probe_loop_Cons:
  assumes "\<not> skip_server panic (env i) (altservers (pg_state g) ! i)"
    "probe_server e (env i) request off len (set_alt_server i (next_rttIndex (altservers (pg_state g) ! i)) (pg_state g)) = Some (ok, pen, s)"
  shows "probe_loop e panic request off len env (i # is) g =
    (if ok \<and> panic then Some (probed (env i) s g, Some i)
     else case (if ok then good_probe i (env i) (probed (env i) s g) else failed_probe i (env i) pen (probed (env i) s g)) of
       None \<Rightarrow> None | Some g \<Rightarrow> probe_loop e panic request off len env is g)"
  using assms by (simp add: Let_def probed_def del: if_split)

lemma probe_loop_ok:
  assumes "probing_ok e env s0 g" "probe_loop e panic request off len env is g = Some (g', r)"
  shows "(case r of None \<Rightarrow> probing_ok e env s0 g'
    | Some i \<Rightarrow> panic \<and> offers_image e (env i) s0 \<and> keepRunning (pg_state g') = keepRunning s0
        \<and> (pg_best g = None \<longrightarrow> add_mset (pb_sock (env i)) (mset (closed (pg_state g'))) = mset (closed s0) + mset (pg_opened g')))"
  using assms
proof (induction "is" arbitrary: g)
  case (Cons i "is")
  let ?s = "set_alt_server i (next_rttIndex (altservers (pg_state g) ! i)) (pg_state g)"
  show ?case
  proof (cases "skip_server panic (env i) (altservers (pg_state g) ! i)")
    case True
    then show ?thesis using Cons by (simp add: Let_def)
  next
    case False
    then obtain ok pen s where ps: "probe_server e (env i) request off len ?s = Some (ok, pen, s)"
      using Cons.prems(2) by (auto simp: Let_def split: option.splits)
    note fr = probe_frameD [OF probe_server_frame [OF ps]]
    have s: "closed s = closed (pg_state g)" "img_rid s = img_rid s0" "img_name s = img_name s0" "keepRunning s = keepRunning s0"
      using fr Cons.prems(1) by (simp_all add: probing_ok_def)
    have off: "ok \<Longrightarrow> offers_image e (env i) s0"
      using probe_server_cases [OF ps] offers_image_same [of ?s s0] Cons.prems(1) by (auto simp: probing_ok_def)
    show ?thesis
    proof (cases "ok \<and> panic")
      case True
      then have "r = Some i" "g' = probed (env i) s g" using Cons.prems(2) unfolding probe_loop_Cons [where env = env and i = i and g = g, OF False ps] by auto
      then show ?thesis using True off s Cons.prems(1) by (auto simp: probed_def probing_ok_def offers_image_def)
    next
      case np: False
      obtain g1 where g1: "(if ok then good_probe i (env i) (probed (env i) s g) else failed_probe i (env i) pen (probed (env i) s g)) = Some g1"
          "probe_loop e panic request off len env is g1 = Some (g', r)"
        using Cons.prems(2) np unfolding probe_loop_Cons [where env = env and i = i and g = g, OF False ps] by (simp only: if_False split: option.splits) simp_all
      have ok1: "probing_ok e env s0 g1"
        using g1(1) failed_probe_ok [OF Cons.prems(1) _ s] good_probe_ok [OF Cons.prems(1) _ off s] by (auto split: if_splits)
      have "panic \<Longrightarrow> pg_best g1 = pg_best g" using np g1(1) by (auto simp: failed_probe_def probed_def Let_def split: if_splits)
      then show ?thesis using Cons.IH [OF ok1 g1(2)] by (auto split: option.splits)
    qed
  qed
qed simp


section \<open>The direct probe\<close>

text \<open>In panic mode the block of the probe is that of the oldest request. When the payload arrives, the request leaves the list and
  nothing else happens to it; when it does not, the request is queued again at the end.\<close>

lemma direct_requeue:
  assumes "queue_is (requests s) ps" "p \<noteq> 0" "cells s p \<noteq> None" "p \<notin> set ps" "sockFd s = - 1" "connection_read e now es p s = Some (b, s')"
  shows "(queue_is (requests s') ps \<or> queue_is (requests s') (ps @ [p])) \<and> contents (requests s') = contents (requests s) \<and> sockFd s' = - 1"
  using submit_ok [OF assms(1-4), of e now es] assms(1,5,6) by (auto simp: connection_read_def split: if_splits)

lemma direct_payload:
  assumes "queue_is (requests s) qs" "remove1 p qs = ps" "p \<noteq> 0" "sockFd s = - 1" "probe_payload e env p len es s = Some (ok, pen, s')"
  shows "\<exists>qs'. queue_is (requests s') qs' \<and> remove1 p qs' = ps \<and> (ok \<longrightarrow> qs' = ps) \<and> contents (requests s') = contents (requests s) \<and> sockFd s' = - 1"
proof -
  obtain q where q: "removeRequest p (requests s) = Some (if p \<in> set qs then p else 0, q)" "queue_is q ps" "contents q = contents (requests s)"
    using removeRequest_queue [OF assms(1), of p] assms(2) by auto
  have np: "p \<notin> set ps" using queue_is_law [OF assms(1)] assms(2) by auto
  show ?thesis
  proof (cases "p \<in> set qs \<and> s' \<noteq> s\<lparr>requests := q\<rparr>")
    case True
    obtain r b where r: "async q p = Some r" "connection_read e (pb_now env) (pb_requeue env) p (s\<lparr>requests := q\<rparr>) = Some (b, s')" "\<not> ok"
      using True assms(3,5) q(1) by (auto simp: probe_payload_def Let_def split: if_splits option.splits prod.splits)
    have "(queue_is (requests s') ps \<or> queue_is (requests s') (ps @ [p])) \<and> contents (requests s') = contents q \<and> sockFd s' = - 1"
      using direct_requeue [OF _ assms(3) _ np _ r(2)] q(2) r(1) assms(4) by simp
    then show ?thesis using r(3) q(3) np by (auto simp: remove1_append remove1_idem)
  next
    case False
    then have "s' = s\<lparr>requests := q\<rparr>" using assms(3,5) q(1) by (auto simp: probe_payload_def Let_def split: if_splits option.splits prod.splits)
    then show ?thesis using q np assms(4) by (auto simp: remove1_idem)
  qed
qed

lemma direct_probe_loop:
  assumes "queue_is (requests (pg_state g)) qs" "remove1 p qs = ps" "p \<noteq> 0" "sockFd (pg_state g) = - 1" "probe_loop e True p off len env is g = Some (g', Some i)"
  shows "queue_is (requests (pg_state g')) ps \<and> contents (requests (pg_state g')) = contents (requests (pg_state g)) \<and> fuse_calls (pg_state g') = fuse_calls (pg_state g)"
  using assms(1,2,4,5)
proof (induction "is" arbitrary: g qs)
  case (Cons k "is")
  let ?s = "set_alt_server k (next_rttIndex (altservers (pg_state g) ! k)) (pg_state g)"
  show ?case
  proof (cases "skip_server True (env k) (altservers (pg_state g) ! k)")
    case True
    then show ?thesis using Cons by (simp add: Let_def)
  next
    case False
    then obtain ok pen s where ps: "probe_server e (env k) p off len ?s = Some (ok, pen, s)"
      using Cons.prems(4) by (auto simp: Let_def split: option.splits)
    note step = Cons.prems(4) [unfolded probe_loop_Cons [where env = env and i = k and g = g, OF False ps]]
    note fr = probe_frameD [OF probe_server_frame [OF ps]]
    have q: "queue_is (requests ?s) qs" "sockFd ?s = - 1" using Cons.prems(1,3) by (simp_all add: set_alt_server_def)
    obtain qs' where s: "queue_is (requests s) qs'" "remove1 p qs' = ps" "ok \<longrightarrow> qs' = ps" "contents (requests s) = contents (requests (pg_state g))" "sockFd s = - 1"
    proof -
      have "\<not> ok \<and> s = ?s \<or> (\<exists>es. probe_payload e (env k) p len es ?s = Some (ok, pen, s))" using probe_server_cases [OF ps] by blast
      then show thesis
      proof
        assume "\<not> ok \<and> s = ?s"
        then show thesis using that q Cons.prems(2) by (simp add: set_alt_server_def)
      next
        assume "\<exists>es. probe_payload e (env k) p len es ?s = Some (ok, pen, s)"
        then show thesis using that direct_payload [OF q(1) Cons.prems(2) assms(3) q(2)] by (fastforce simp: set_alt_server_def)
      qed
    qed
    show ?thesis
    proof (cases ok)
      case True
      then have "g' = probed (env k) s g" using step by auto
      then show ?thesis using s True fr by (simp add: probed_def)
    next
      case no: False
      obtain g1 where g1: "failed_probe k (env k) pen (probed (env k) s g) = Some g1" "probe_loop e True p off len env is g1 = Some (g', Some i)"
        using step no by (auto split: option.splits)
      have "requests (pg_state g1) = requests s" "fuse_calls (pg_state g1) = fuse_calls (pg_state g)" "sockFd (pg_state g1) = - 1"
        using g1(1) s(5) fr by (auto simp: failed_probe_def probed_def close_socket_def set_alt_server_def Let_def)
      then show ?thesis using Cons.IH [of g1 qs'] g1(2) s by simp
    qed
  qed
qed simp

section \<open>Measurements outside of the array\<close>

lemma third_index_undefined:
  assumes "rttIndex a = 3"
  shows "probe_success us (next_rttIndex a) = None" "probe_failure n (next_rttIndex a) = None"
  using assms by (simp_all add: next_rttIndex_def probe_success_def probe_failure_def store_rtt_def RTT_COUNT_def)

lemma probe_loop_undefined:
  assumes "\<not> skip_server False (env i) (altservers (pg_state g) ! i)" "rttIndex (altservers (pg_state g) ! i) = 3" "i < length (altservers (pg_state g))"
  shows "probe_loop e False 0 off len env (i # is) g = None"
proof (cases "probe_server e (env i) 0 off len (set_alt_server i (next_rttIndex (altservers (pg_state g) ! i)) (pg_state g))")
  case None
  then show ?thesis using assms(1) by (simp add: Let_def)
next
  case (Some r)
  obtain ok pen s where r: "r = (ok, pen, s)" by (metis prod_cases3)
  note ps = Some [unfolded r]
  have a: "altservers s ! i = next_rttIndex (altservers (pg_state g) ! i)"
    using probe_frameD(1) [OF probe_server_frame [OF ps]] assms(3) by (simp add: set_alt_server_def)
  have "altservers (close_socket k t) = altservers t" for k t by (simp add: close_socket_def)
  then have "good_probe i (env i) (probed (env i) s g) = None" "failed_probe i (env i) pen (probed (env i) s g) = None"
    using third_index_undefined [OF assms(2)] a by (simp_all add: good_probe_def failed_probe_def probed_def Let_def)
  then show ?thesis unfolding probe_loop_Cons [where env = env and i = i and g = g, OF assms(1) ps] by simp
qed

lemma probe_phase_Some:
  assumes "probe_phase e now rnd env s = Some x"
  obtains panic request off len g r where "probe_setup now s = Some (panic, request, off, len)"
    "probe_loop e panic request off len env [0..<(if panic then MAX_ALTS else MAX_ALTS_ACTIVE)]
      \<lparr>pg_state = s, pg_best = None, pg_bestSock = - 1, pg_opened = []\<rparr> = Some (g, r)"
    "probe_finish env rnd (current_index s) (g, r) = Some x"
  using assms by (auto simp: probe_phase_def split: option.splits prod.splits)

lemma probing_ok_start: "probing_ok e env s \<lparr>pg_state = s, pg_best = None, pg_bestSock = - 1, pg_opened = []\<rparr>"
  by (simp add: probing_ok_def)

section \<open>Properties\<close>

text \<open>C25. The client switches only to a server that offers the same image (name and revision) in a supported version, and over the
  socket on which the server said so.\<close>

theorem fuse_probe_switch_sound:
  assumes "probe_phase e now rnd env s = Some (s', opened, Some (sock, i))"
  shows "offers_image e (env i) s \<and> sock = pb_sock (env i)"
proof -
  obtain panic request off len g r where
    "probe_setup now s = Some (panic, request, off, len)" and l: "probe_loop e panic request off len env [0..<(if panic then MAX_ALTS else MAX_ALTS_ACTIVE)]
      \<lparr>pg_state = s, pg_best = None, pg_bestSock = - 1, pg_opened = []\<rparr> = Some (g, r)"
    and f: "probe_finish env rnd (current_index s) (g, r) = Some (s', opened, Some (sock, i))" by (rule probe_phase_Some [OF assms])
  have "(case r of Some j \<Rightarrow> sock = pb_sock (env j) \<and> i = j | None \<Rightarrow> pg_best g = Some i \<and> sock = pg_bestSock g)"
    using f by (auto simp: probe_finish_def split: option.splits if_splits)
  then show ?thesis using probe_loop_ok [OF probing_ok_start l] by (auto simp: probing_ok_def split: option.splits)
qed

text \<open>A measurement closes every socket that it opened exactly once, except the one on which the client continues.\<close>

theorem fuse_probe_no_socket_leak:
  assumes "keepRunning s" "probe_phase e now rnd env s = Some (s', opened, sw)"
  shows "mset (closed s') + (case sw of None \<Rightarrow> {#} | Some (sock, i) \<Rightarrow> {#sock#}) = mset (closed s) + mset opened"
proof -
  obtain panic request off len g r where
    "probe_setup now s = Some (panic, request, off, len)" and l: "probe_loop e panic request off len env [0..<(if panic then MAX_ALTS else MAX_ALTS_ACTIVE)]
      \<lparr>pg_state = s, pg_best = None, pg_bestSock = - 1, pg_opened = []\<rparr> = Some (g, r)"
    and f: "probe_finish env rnd (current_index s) (g, r) = Some (s', opened, sw)"
    by (rule probe_phase_Some [OF assms(2)])
  note ok = probe_loop_ok [OF probing_ok_start l]
  show ?thesis
  proof (cases r)
    case (Some i)
    then show ?thesis using f ok assms(1) by (auto simp: probe_finish_def)
  next
    case None
    then show ?thesis using f ok by (auto simp: probe_finish_def probing_ok_def split: option.splits if_splits)
  qed
qed


section \<open>The answer of a server\<close>

text \<open>A header followed by a payload, as a server of the same byte order sends them in two pieces.\<close>

definition reply_events :: "endian \<Rightarrow> u16 \<Rightarrow> u32 \<Rightarrow> u64 \<Rightarrow> recv_event list" where
  "reply_events e cmd sz h = [Recv_data (reply_mem e (fixup_reply e
     \<lparr>rp_magic = dnbd3_packet_magic e, rp_cmd = cmd, rp_size = sz, rp_handle = h\<rparr>))]"

lemma get_reply_events:
  "dnbd3_get_reply e (reply_events e cmd sz h @ es) = (Some \<lparr>rp_magic = dnbd3_packet_magic e, rp_cmd = cmd, rp_size = sz, rp_handle = h\<rparr>, es)"
proof -
  let ?r = "\<lparr>rp_magic = dnbd3_packet_magic e, rp_cmd = cmd, rp_size = sz, rp_handle = h\<rparr>"
  let ?m = "reply_mem e (fixup_reply e ?r)"
  have l: "length ?m = 16" by (simp add: reply_mem_def store_native_def split: endian.split)
  have "word_of_nat (load_native e (store_native e 8 (unat h))) = h" using load_store_words(3) by blast
  then have "fixup_reply e (reply_of_mem e ?m) = ?r" by (simp add: reply_over_wire)
  then have "dnbd3_read_reply e True (Recv_data ?m # es) = (REPLY_OK ?r, es)"
    using l by (cases ?m) (auto simp: dnbd3_read_reply_def Let_def)
  then show ?thesis by (simp add: dnbd3_get_reply.simps reply_events_def)
qed

lemma sock_recv_exact: "d \<noteq> [] \<Longrightarrow> sock_recv (length d) (Recv_data d # es) = (int (length d), d, es)"
  by (cases d) (auto simp: sock_recv_def)

lemma select_reply_decodes:
  assumes wf: "sbuf_wf buf" and nm: "0 \<notin> set nm" "length nm + 13 \<le> MAX_PAYLOAD"
  shows "\<exists>i b. dnbd3_select_image_reply e buf (reply_events e CMD_SELECT_IMAGE (word_of_nat (length nm + 13)) 0
       @ Recv_data (le_bytes 2 (unat v) @ (nm @ [0]) @ le_bytes 2 (unat rid) @ le_bytes 8 (unat sz)) # es)
     = (Some (v, Some i, rid, sz, b), es) \<and> string_at b i = nm"
proof -
  let ?p = "le_bytes 2 (unat v) @ (nm @ [0]) @ le_bytes 2 (unat rid) @ le_bytes 8 (unat sz)" and ?n = "length nm + 13"
  have n: "unat (word_of_nat ?n :: u32) = ?n" using nm(2) unfolding unat_of_nat by (simp add: MAX_PAYLOAD_def)
  have lp: "length ?p = ?n" by simp
  then have ne: "?p \<noteq> []" by (metis add_is_0 length_0_conv zero_neq_numeral)
  have rc: "sock_recv ?n (Recv_data ?p # es) = (int ?n, ?p, es)" using sock_recv_exact [OF ne, of es] unfolding lp .
  have n3: "\<not> (word_of_nat ?n :: u32) < 3" using n by (simp add: word_less_nat_alt)
  define b where "b = serializer_reset_read (buf\<lparr>buffer := memcpy 0 ?p (buffer buf)\<rparr>) ?n"
  have "length ?p \<le> MAX_PAYLOAD" using lp nm(2) by simp
  note r = unread_received [OF wf this, unfolded lp, folded b_def]
  obtain b1 where g1: "serializer_get_uint16 e b = (v, b1)" "unread b1 = (nm @ [0]) @ le_bytes 2 (unat rid) @ le_bytes 8 (unat sz)"
    using get_unread(2) [OF r(2), of v _ e] r(1) by (metis prod.collapse)
  have w1: "sbuf_wf b1" "buffer b1 = buffer b" "after_buffer b1 = after_buffer b"
    using g1(1) sbuf_wf_preserved(4) [OF r(2), of e] by (auto simp: serializer_get_uint16_def split: if_splits)
  note gs = get_string_unread [OF w1(1) g1(2) nm(1)]
  obtain b2 where g2: "serializer_get_string b1 = (Some (buffer_pointer b1), b2)" "unread b2 = le_bytes 2 (unat rid) @ le_bytes 8 (unat sz)"
    using gs by (metis prod.collapse)
  have w2: "sbuf_wf b2" "buffer b2 = buffer b1" "after_buffer b2 = after_buffer b1"
    using g2(1) sbuf_wf_preserved(6) [OF w1(1)] by (auto simp: serializer_get_string_def Let_def split: if_splits)
  obtain b3 where g3: "serializer_get_uint16 e b2 = (rid, b3)" "unread b3 = le_bytes 8 (unat sz)"
    using get_unread(2) [OF w2(1), of rid _ e] g2(2) by (metis prod.collapse)
  have w3: "sbuf_wf b3" "buffer b3 = buffer b2" "after_buffer b3 = after_buffer b2"
    using g3(1) sbuf_wf_preserved(4) [OF w2(1), of e] by (auto simp: serializer_get_uint16_def split: if_splits)
  obtain b4 where g4: "serializer_get_uint64 e b3 = (sz, b4)"
    using get_unread(3) [OF w3(1), of sz "[]"] g3(2) by (metis append_Nil2 prod.collapse)
  have w4: "buffer b4 = buffer b3" "after_buffer b4 = after_buffer b3"
    using g4 by (auto simp: serializer_get_uint64_def split: if_splits)
  have sa: "string_at b4 (buffer_pointer b1) = nm" using gs(2) w2 w3 w4 by (simp add: string_at_def)
  have bd: "serializer_reset_read (buf\<lparr>buffer := memcpy 0 (le_bytes 2 (unat v) @ nm @ 0 # le_bytes 2 (unat rid) @ le_bytes 8 (unat sz)) (buffer buf)\<rparr>) ?n = b"
    by (simp add: b_def)
  have "dnbd3_select_image_reply e buf (reply_events e CMD_SELECT_IMAGE (word_of_nat ?n) 0 @ Recv_data ?p # es) = (Some (v, Some (buffer_pointer b1), rid, sz, b4), es)"
    unfolding dnbd3_select_image_reply_def get_reply_events using n n3 nm(2) rc g1(1) g2(1) g3(1) g4
    by (simp add: bd del: of_nat_add of_nat_numeral)
  then show ?thesis using sa by blast
qed


section \<open>Sample probes\<close>

definition good_env :: client_probe where
  "good_env = \<lparr>pb_rand = 0, pb_sock = 7, pb_selected = True, pb_buffer = sample_sbuf,
     pb_in = reply_events LE CMD_SELECT_IMAGE (word_of_nat (length [105::u8] + 13)) 0
       @ Recv_data (le_bytes 2 (unat (3::u16)) @ ([105] @ [0]) @ le_bytes 2 (unat (1::u16)) @ le_bytes 8 (unat (8192::u64)))
         # reply_events LE CMD_GET_BLOCK 4096 0 @ [Recv_data (replicate 4096 0)],
     pb_send = [Sent 24], pb_start = sample_ticks, pb_end = sample_ticks, pb_fault = False, pb_now = sample_ticks, pb_requeue = []\<rparr>"

definition panic_fuse :: fuse_state where
  "panic_fuse = sample_fuse\<lparr>sockFd := - 1\<rparr>"

lemma good_env_probe:
  assumes "img_rid s = 1" "img_name s = [105]"
  shows "probe_server LE good_env request off 4096 s = probe_payload LE good_env request 4096 [Recv_data (replicate 4096 0)] s"
proof -
  have nm: "0 \<notin> set [105::u8]" "length [105::u8] + 13 \<le> MAX_PAYLOAD" by (simp_all add: MAX_PAYLOAD_def)
  have "pb_buffer good_env = sample_sbuf" "pb_sock good_env \<noteq> - 1" "pb_selected good_env" "pb_send good_env = [Sent 24]"
    by (simp_all add: good_env_def)
  moreover obtain i b where "dnbd3_select_image_reply LE sample_sbuf (pb_in good_env) = (Some (3, Some i, 1, 8192, b), reply_events LE CMD_GET_BLOCK 4096 0 @ [Recv_data (replicate 4096 0)])"
      "string_at b i = [105]"
    using select_reply_decodes [OF sample_sbuf_wf nm, of LE 3 1 8192 "reply_events LE CMD_GET_BLOCK 4096 0 @ [Recv_data (replicate 4096 0)]"]
    unfolding good_env_def client_probe.simps by metis
  moreover have "c_str [105::u8] = [105]" by (simp add: c_str_def)
  ultimately show ?thesis using assms get_reply_events [of LE CMD_GET_BLOCK 4096 0 "[Recv_data (replicate 4096 0)]"]
    by (simp add: probe_server_def CLIENT_MIN_SUPPORTED_SERVER_def sent24)
qed

lemma panic_fuse_queue: "queue_is (requests panic_fuse) [16, 32]"
  using sample_fuse_queue by (simp add: panic_fuse_def)

lemma panic_fuse_probe:
  "\<exists>s' opened. probe_phase LE sample_ticks 0 (\<lambda>_. good_env) panic_fuse = Some (s', opened, Some (7, 0))"
proof -
  have st: "probe_setup sample_ticks panic_fuse = Some (True, 16, 0, 4096)"
    by (simp add: probe_setup_def probe_panic_def panic_fuse_def sample_fuse_def sample_async_def)
  let ?g = "\<lparr>pg_state = panic_fuse, pg_best = None, pg_bestSock = - 1, pg_opened = []\<rparr>"
  let ?s = "set_alt_server 0 (next_rttIndex (altservers (pg_state ?g) ! 0)) (pg_state ?g)"
  have q: "queue_is (requests ?s) (16 # [32])" using panic_fuse_queue by simp
  obtain q' where q': "removeRequest 16 (requests ?s) = Some (16, q')" "contents q' = contents (requests ?s)" using removeRequest_queue [OF q, of 16] by auto
  obtain r where r: "async q' 16 = Some r" "a_length r = 4096"
    using fun_cong [OF q'(2), of 16] by (auto simp: contents_def panic_fuse_def sample_fuse_def sample_async_def split: option.splits)
  have rv: "\<exists>d es. sock_recv 4096 [Recv_data (replicate 4096 0)] = (4096, d, es)" using sock_recv_complete [of "[Recv_data (replicate 4096 0)]" 4096] by fastforce
  have pp: "probe_payload LE good_env 16 4096 [Recv_data (replicate 4096 0)] ?s = Some (True, 0, ?s\<lparr>requests := q'\<rparr>)"
    using q'(1) r rv by (auto simp: probe_payload_def Let_def good_env_def)
  then have ps: "probe_server LE good_env 16 0 4096 ?s = Some (True, 0, ?s\<lparr>requests := q'\<rparr>)"
    using good_env_probe [of ?s 16 0] by (simp add: panic_fuse_def sample_fuse_def)
  have sk: "\<not> skip_server True good_env (altservers (pg_state ?g) ! 0)"
    by (simp add: skip_server_def panic_fuse_def sample_fuse_def sample_alt_defs)
  have "[0..<MAX_ALTS] = 0 # [1..<MAX_ALTS]" by (simp add: upt_conv_Cons MAX_ALTS_def del: upt_rec_numeral)
  then have "probe_loop LE True 16 0 4096 (\<lambda>_. good_env) [0..<MAX_ALTS] ?g = Some (probed good_env (?s\<lparr>requests := q'\<rparr>) ?g, Some 0)"
    using probe_loop_Cons [where env = "\<lambda>_. good_env" and i = 0 and g = ?g, OF sk ps] by simp
  then show ?thesis using st
    by (simp add: probe_phase_def probe_finish_def probed_def panic_fuse_def sample_fuse_def good_env_def)
qed

theorem fuse_probe_switch_sound_witness:
  "\<exists>s' opened. probe_phase LE sample_ticks 0 (\<lambda>_. good_env) panic_fuse = Some (s', opened, Some (7, 0)) \<and> offers_image LE good_env panic_fuse"
  using panic_fuse_probe fuse_probe_switch_sound [of LE sample_ticks 0 "\<lambda>_. good_env" panic_fuse _ _ 7 0] by blast

theorem fuse_probe_no_socket_leak_witness:
  "\<exists>s' opened. probe_phase LE sample_ticks 0 (\<lambda>_. good_env) panic_fuse = Some (s', opened, Some (7, 0))
     \<and> mset (closed s') + {#7#} = mset (closed panic_fuse) + mset opened"
proof -
  have k: "keepRunning panic_fuse" by (simp add: panic_fuse_def sample_fuse_def)
  obtain s' opened where p: "probe_phase LE sample_ticks 0 (\<lambda>_. good_env) panic_fuse = Some (s', opened, Some (7, 0))"
    using panic_fuse_probe by blast
  then show ?thesis using fuse_probe_no_socket_leak [OF k p] by auto
qed

text \<open>C40. When the client has lost its connection and a server answers the probe, the oldest pending request is dropped: it
  leaves the list although it was not answered, so it is not sent to the new server and no reply to it will ever reach fuse. All other requests are
  kept, in their order.\<close>

theorem panic_switch_drops_request:
  assumes "queue_is (requests s) (p # ps)" "sockFd s = - 1"
    "probe_phase e now rnd env s = Some (s1, opened, Some (sock, i))" "probeAltServers e now rnd env sw s = Some s'"
  shows "queue_is (requests s') ps \<and> contents (requests s') = contents (requests s) \<and> fuse_calls s' = fuse_calls s"
proof -
  obtain panic request off len g r where
    st: "probe_setup now s = Some (panic, request, off, len)" and
    l: "probe_loop e panic request off len env [0..<(if panic then MAX_ALTS else MAX_ALTS_ACTIVE)]
      \<lparr>pg_state = s, pg_best = None, pg_bestSock = - 1, pg_opened = []\<rparr> = Some (g, r)"
    and f: "probe_finish env rnd (current_index s) (g, r) = Some (s1, opened, Some (sock, i))" by (rule probe_phase_Some [OF assms(3)])
  have h: "req_head (requests s) = p" "p \<noteq> 0" using assms(1) by (auto simp: queue_is_def)
  have pr: "panic" "request = p" using st h assms(2) by (auto simp: probe_setup_def probe_panic_def)
  have c: "current_index s = None" using assms(2) by (simp add: current_index_def)
  obtain j where r: "r = Some j" "s1 = pg_state g"
    using f c by (cases r) (auto simp: probe_finish_def decide_def split: option.splits if_splits)
  have "queue_is (requests (pg_state \<lparr>pg_state = s, pg_best = None, pg_bestSock = - 1, pg_opened = []\<rparr>)) (p # ps)"
    "sockFd (pg_state \<lparr>pg_state = s, pg_best = None, pg_bestSock = - 1, pg_opened = []\<rparr>) = - 1" using assms(1,2) by simp_all
  from direct_probe_loop [OF this(1) _ h(2) this(2) l [unfolded pr(2) eqTrueI [OF pr(1)] r(1)], of ps]
  have s1: "queue_is (requests s1) ps" "contents (requests s1) = contents (requests s)" "fuse_calls s1 = fuse_calls s" using r(2) by auto
  have "switchConnection e (sw_now sw) (sw_send sw) (sw_resend sw) sock (al_host (altservers s1 ! i)) (sw_peer sw) s1 = Some s'"
    using assms(4) by (simp add: probeAltServers_def assms(3))
  then show ?thesis
    using switch_keeps [OF s1(1), of e "sw_now sw" "sw_send sw" "sw_resend sw" sock "al_host (altservers s1 ! i)" "sw_peer sw"] s1(2,3) by auto
qed

definition sample_switch :: switch_env where
  "sample_switch = \<lparr>sw_now = sample_ticks, sw_send = [Sent 24], sw_resend = (\<lambda>_. (sample_ticks, [Sent 24])), sw_peer = True\<rparr>"

theorem panic_switch_drops_request_witness:
  "\<exists>s'. probeAltServers LE sample_ticks 0 (\<lambda>_. good_env) sample_switch panic_fuse = Some s' \<and> queue_is (requests s') [32]
     \<and> cells s' 16 \<noteq> None \<and> fuse_calls s' = []"
proof -
  obtain s1 opened where p: "probe_phase LE sample_ticks 0 (\<lambda>_. good_env) panic_fuse = Some (s1, opened, Some (7, 0))"
    using panic_fuse_probe by blast
  have d: "sockFd panic_fuse = - 1" by (simp add: panic_fuse_def)
  have "queue_is (requests s1) [32]"
  proof -
    obtain panic request off len g r where
      st: "probe_setup sample_ticks panic_fuse = Some (panic, request, off, len)" and
      l: "probe_loop LE panic request off len (\<lambda>_. good_env) [0..<(if panic then MAX_ALTS else MAX_ALTS_ACTIVE)]
        \<lparr>pg_state = panic_fuse, pg_best = None, pg_bestSock = - 1, pg_opened = []\<rparr> = Some (g, r)"
      and f: "probe_finish (\<lambda>_. good_env) 0 (current_index panic_fuse) (g, r) = Some (s1, opened, Some (7, 0))" by (rule probe_phase_Some [OF p])
    have pr: "panic = True" "request = 16" using st
      by (auto simp: probe_setup_def probe_panic_def panic_fuse_def sample_fuse_def sample_async_def)
    have q: "queue_is (requests (pg_state \<lparr>pg_state = panic_fuse, pg_best = None, pg_bestSock = - 1, pg_opened = []\<rparr>)) (16 # [32])"
      "sockFd (pg_state \<lparr>pg_state = panic_fuse, pg_best = None, pg_bestSock = - 1, pg_opened = []\<rparr>) = - 1" using panic_fuse_queue d by simp_all
    obtain j where r: "r = Some j" "s1 = pg_state g"
      using f by (cases r) (auto simp: probe_finish_def decide_def current_index_def panic_fuse_def split: option.splits if_splits)
    show ?thesis using direct_probe_loop [OF q(1) _ _ q(2) l [unfolded pr r(1)], of "[32]"] r(2) by auto
  qed
  then obtain s' where s': "probeAltServers LE sample_ticks 0 (\<lambda>_. good_env) sample_switch panic_fuse = Some s'"
    using switch_keeps [of s1 "[32]" LE "sw_now sample_switch" "sw_send sample_switch" "sw_resend sample_switch" 7 "al_host (altservers s1 ! 0)" "sw_peer sample_switch"]
    by (auto simp: probeAltServers_def p)
  have r: "queue_is (requests s') [32] \<and> contents (requests s') = contents (requests panic_fuse) \<and> fuse_calls s' = fuse_calls panic_fuse"
    using panic_switch_drops_request [OF panic_fuse_queue d p s'] .
  moreover have "contents (requests panic_fuse) 16 \<noteq> None" "fuse_calls panic_fuse = []"
    by (simp_all add: panic_fuse_def sample_fuse_def contents_def)
  ultimately show ?thesis using s' by (metis contents_None)
qed

text \<open>The index into the array of the last four response times runs up to four: when the time of a server was last stored at index
  three, the next regular measurement of this server writes behind the array, whatever its outcome.\<close>

theorem rtt_index_out_of_bounds:
  assumes "probe_panic now s = Some False" "length (altservers s) = MAX_ALTS"
    "al_used (altservers s ! 0)" "consecutiveFails (altservers s ! 0) \<le> FAIL_BACKOFF_START_COUNT" "rttIndex (altservers s ! 0) = 3"
  shows "probeAltServers e now rnd env sw s = None"
proof -
  let ?g = "\<lparr>pg_state = s, pg_best = None, pg_bestSock = - 1, pg_opened = []\<rparr>"
  have st: "probe_setup now s = Some (False, 0, 0, RTT_BLOCK_SIZE)" using assms(1) by (simp add: probe_setup_def)
  have "[0..<MAX_ALTS_ACTIVE] = 0 # [1..<MAX_ALTS_ACTIVE]" by (simp add: upt_conv_Cons MAX_ALTS_ACTIVE_def del: upt_rec_numeral)
  moreover have "probe_loop e False 0 0 RTT_BLOCK_SIZE env (0 # [1..<MAX_ALTS_ACTIVE]) ?g = None"
    by (rule probe_loop_undefined) (use assms in \<open>simp_all add: skip_server_def MAX_ALTS_def\<close>)
  ultimately show ?thesis using st by (simp add: probeAltServers_def probe_phase_def)
qed

definition oob_fuse :: fuse_state where
  "oob_fuse = sample_fuse\<lparr>altservers := (zero_server\<lparr>al_host := sample_fuse_host 1, rttIndex := 3\<rparr>) # replicate 15 zero_server\<rparr>"

lemma oob_fuse_panic: "probe_panic sample_ticks oob_fuse = Some False"
proof -
  have "current_index oob_fuse = Some 0"
    by (simp add: current_index_def oob_fuse_def sample_fuse_def sample_fuse_host_def HOST_IP4_def)
  moreover have "delayed_loop (cells oob_fuse) sample_ticks (1000000 :: u64) 16 = Some False"
    by (simp add: delayed_loop.simps oob_fuse_def sample_fuse_def sample_async_def sample_ticks_def timing_diffUs_def)
  ultimately show ?thesis
    by (simp add: probe_panic_def) (simp add: oob_fuse_def sample_fuse_def zero_server_def)
qed

theorem rtt_index_out_of_bounds_witness: "probeAltServers LE sample_ticks 0 (\<lambda>_. good_env) sample_switch oob_fuse = None"
  by (rule rtt_index_out_of_bounds [OF oob_fuse_panic])
    (simp_all add: oob_fuse_def sample_fuse_host_def HOST_IP4_def zero_server_def fuse_consts)

end
