(* ===== verification/Fuse_Main.thy ===== *)
theory Fuse_Main
  imports Fuse_Threads
begin

text \<open>
  The file system operations of the fuse client (\<open>src/fuse/main.c\<close>). The mounted directory has the inode 1 and two files: the
  image with inode 2 and the status file with inode 3. The text of the status file, which \<open>connection_printStats\<close> formats, is an
  argument: \<open>stats n\<close> is what it writes into a buffer of \<open>n\<close> bytes. A result \<open>None\<close> is a failed assertion or
  an access outside of a buffer. The calls into the fuse library are recorded; the entries of a directory listing are encoded by the
  library, with \<open>direntry name ino off\<close> the bytes of one entry.
\<close>

section \<open>Attributes and names\<close>

definition S_IFDIR :: u32 where "S_IFDIR = 0x4000"
definition S_IFREG :: u32 where "S_IFREG = 0x8000"
definition ENOENT :: int where "ENOENT = 2"
definition EIO :: int where "EIO = 5"
definition EACCES :: int where "EACCES = 13"
definition ENOTDIR :: int where "ENOTDIR = 20"
definition EISDIR :: int where "EISDIR = 21"
definition EINVAL :: int where "EINVAL = 22"

definition IMAGE_NAME :: string where "IMAGE_NAME = ''img''"
definition STATS_NAME :: string where "STATS_NAME = ''status''"

record file_stat =
  st_ino :: u64
  st_mode :: u32
  st_nlink :: nat
  st_size :: u64

definition zero_stat :: file_stat where
  "zero_stat = \<lparr>st_ino = 0, st_mode = 0, st_nlink = 0, st_size = 0\<rparr>"

definition image_stat :: "u64 \<Rightarrow> u64 \<Rightarrow> file_stat \<Rightarrow> file_stat option" where
  "image_stat imageSize ino stbuf =
    (let stbuf = stbuf\<lparr>st_ino := ino\<rparr> in
     if ino = 1 then Some (stbuf\<lparr>st_mode := S_IFDIR OR 0x168, st_nlink := 2\<rparr>)
     else if ino = 2 then Some (stbuf\<lparr>st_mode := S_IFREG OR 0x120, st_nlink := 1, st_size := imageSize\<rparr>)
     else if ino = 3 then Some (stbuf\<lparr>st_mode := S_IFREG OR 0x120, st_nlink := 1, st_size := 4096\<rparr>)
     else None)"

text \<open>The replies of the operations on names and attributes.\<close>

datatype meta_reply = Meta_attr file_stat | Meta_entry u64 file_stat | Meta_err int | Meta_open | Meta_data "u8 list"

definition image_ll_getattr :: "u64 \<Rightarrow> u64 \<Rightarrow> meta_reply" where
  "image_ll_getattr imageSize ino = (case image_stat imageSize ino zero_stat of None \<Rightarrow> Meta_err ENOENT | Some st \<Rightarrow> Meta_attr st)"

definition image_ll_lookup :: "u64 \<Rightarrow> string \<Rightarrow> meta_reply" where
  "image_ll_lookup imageSize name =
    (if name = IMAGE_NAME \<or> name = STATS_NAME
     then let ino = (if name = IMAGE_NAME then 2 else 3) in
       Meta_entry ino (case image_stat imageSize ino zero_stat of None \<Rightarrow> zero_stat\<lparr>st_ino := ino\<rparr> | Some st \<Rightarrow> st)
     else Meta_err ENOENT)"

text \<open>\<open>fi->flags & 3\<close> must be \<open>O_RDONLY\<close>, which is 0.\<close>

definition image_ll_open :: "u64 \<Rightarrow> u32 \<Rightarrow> meta_reply" where
  "image_ll_open ino flags =
    (if ino \<noteq> 2 \<and> ino \<noteq> 3 then Meta_err EISDIR
     else if flags AND 3 \<noteq> 0 then Meta_err EACCES else Meta_open)"

section \<open>The directory\<close>

text \<open>\<open>dirbuf_add\<close> appends an entry whose offset is the size of the buffer behind it.\<close>

definition dirbuf_add :: "(string \<Rightarrow> u64 \<Rightarrow> nat \<Rightarrow> u8 list) \<Rightarrow> (string \<Rightarrow> nat) \<Rightarrow> string \<Rightarrow> u64 \<Rightarrow> u8 list \<Rightarrow> u8 list" where
  "dirbuf_add direntry entrysize name ino b = b @ direntry name ino (length b + entrysize name)"

definition reply_buf_limited :: "u8 list \<Rightarrow> nat \<Rightarrow> nat \<Rightarrow> u8 list" where
  "reply_buf_limited buf off maxsize = (if off < length buf then take (min (length buf - off) maxsize) (drop off buf) else [])"

definition dir_entries :: "(string \<times> u64) list" where
  "dir_entries = [(''.'', 1), (''..'', 1), (IMAGE_NAME, 2), (STATS_NAME, 3)]"

definition dir_buffer :: "(string \<Rightarrow> u64 \<Rightarrow> nat \<Rightarrow> u8 list) \<Rightarrow> (string \<Rightarrow> nat) \<Rightarrow> u8 list" where
  "dir_buffer direntry entrysize = fold (\<lambda>(name, ino). dirbuf_add direntry entrysize name ino) dir_entries []"

definition image_ll_readdir :: "(string \<Rightarrow> u64 \<Rightarrow> nat \<Rightarrow> u8 list) \<Rightarrow> (string \<Rightarrow> nat) \<Rightarrow> u64 \<Rightarrow> nat \<Rightarrow> nat \<Rightarrow> meta_reply" where
  "image_ll_readdir direntry entrysize ino sz off =
    (if ino \<noteq> 1 then Meta_err ENOTDIR else Meta_data (reply_buf_limited (dir_buffer direntry entrysize) off sz))"

section \<open>Reading\<close>

text \<open>The module variables of \<open>main.c\<close>; the counters are there in debug mode only.\<close>

record fuse_main =
  conn :: fuse_state
  imageSize :: u64
  useDebug :: bool
  blockRequestCount :: "u8 list"

definition reply :: "fuse_call \<Rightarrow> fuse_state \<Rightarrow> fuse_state" where
  "reply c s = s\<lparr>fuse_calls := fuse_calls s @ [c]\<rparr>"

definition c_int :: "u64 \<Rightarrow> int" where "c_int x = sint (ucast x :: u32)"

text \<open>\<open>fillStatsFile\<close> with the buffer of 4096 bytes that \<open>image_ll_read\<close> gives it: the bytes that are sent. \<open>junk\<close> is the content of the fresh
  buffer; \<open>-EOF\<close> is 1.\<close>

definition fillStatsFile :: "(nat \<Rightarrow> u8 list) \<Rightarrow> u8 list \<Rightarrow> u64 \<Rightarrow> u64 \<Rightarrow> u8 list option" where
  "fillStatsFile stats junk sz offset =
    (if offset = 0
     then if length (stats (unat sz)) \<le> 4096 then Some (stats (unat sz)) else None
     else let text = stats 4096; len = min (int (length text) - c_int offset) (c_int sz) in
       if len = 0 then Some []
       else if len < 0 then Some (take 1 junk)
       else if len \<le> 4096 then Some (take (nat len) (drop (unat offset) text)) else None)"

text \<open>The counters of the blocks from \<open>i\<close> on, \<open>n\<close> of them.\<close>

fun count_blocks :: "nat \<Rightarrow> nat \<Rightarrow> u8 list \<Rightarrow> u8 list option" where
  "count_blocks 0 i cs = Some cs"
| "count_blocks (Suc n) i cs = (if i < length cs then count_blocks n (Suc i) (cs[i := cs ! i + 1]) else None)"

definition debug_count :: "u64 \<Rightarrow> u64 \<Rightarrow> fuse_main \<Rightarrow> fuse_main option" where
  "debug_count offset sz m =
    (if useDebug m
     then map_option (\<lambda>cs. m\<lparr>blockRequestCount := cs\<rparr>)
       (count_blocks (Suc (unat ((offset + sz - 1) div 4096)) - unat (offset div 4096)) (unat (offset div 4096)) (blockRequestCount m))
     else Some m)"

text \<open>What a read takes from its environment: the text of the status file, the content of fresh memory, the address of the new request,
  the clock and the socket.\<close>

record read_env =
  rd_stats :: "nat \<Rightarrow> u8 list"
  rd_junk :: "u8 list"
  rd_async :: dnbd3_async
  rd_addr :: u64
  rd_now :: ticks
  rd_send :: "send_event list"

definition submit_read :: "endian \<Rightarrow> read_env \<Rightarrow> nat \<Rightarrow> u64 \<Rightarrow> u64 \<Rightarrow> fuse_state \<Rightarrow> fuse_state option" where
  "submit_read e env req sz offset s =
    map_option (\<lambda>(ok, s). if ok then s else reply (Reply_err req EINVAL) s)
      (connection_read e (rd_now env) (rd_send env) (rd_addr env) (fuse_request (rd_async env) (rd_addr env) req offset (ucast sz) s))"

text \<open>The replies before the request is queued: for a size that does not fit into an \<open>int\<close>, for the status file, and for an offset behind
  the image. None of them ends the function.\<close>

definition early_replies :: "read_env \<Rightarrow> nat \<Rightarrow> u64 \<Rightarrow> u64 \<Rightarrow> u64 \<Rightarrow> fuse_main \<Rightarrow> fuse_state option" where
  "early_replies env req ino sz offset m =
    (let s = (if sz > 0x7FFFFFFF then reply (Reply_err req EIO) (conn m) else conn m) in
     map_option (\<lambda>s. if offset \<ge> imageSize m then reply (Reply_err req 0) s else s)
       (if ino = 3 then map_option (\<lambda>d. reply (Reply_buf req d) s) (fillStatsFile (rd_stats env) (rd_junk env) sz offset) else Some s))"

definition clip_size :: "fuse_main \<Rightarrow> u64 \<Rightarrow> u64 \<Rightarrow> u64" where
  "clip_size m offset sz = (if offset + sz > imageSize m then imageSize m - offset else sz)"

definition queue_read :: "endian \<Rightarrow> read_env \<Rightarrow> nat \<Rightarrow> u64 \<Rightarrow> u64 \<Rightarrow> u64 \<Rightarrow> fuse_state \<Rightarrow> fuse_state option" where
  "queue_read e env req ino sz offset s =
    (let s = (if keepRunning s then s else connection_close s) in
     if ino = 2 \<and> sz \<noteq> 0 then submit_read e env req sz offset s else Some s)"

definition image_ll_read :: "endian \<Rightarrow> read_env \<Rightarrow> nat \<Rightarrow> u64 \<Rightarrow> u64 \<Rightarrow> u64 \<Rightarrow> fuse_main \<Rightarrow> fuse_main option" where
  "image_ll_read e env req ino sz offset m =
    (if ino \<noteq> 2 \<and> ino \<noteq> 3 then None
     else case early_replies env req ino sz offset m of
       None \<Rightarrow> None
     | Some s \<Rightarrow>
        (case debug_count offset (clip_size m offset sz) m of
           None \<Rightarrow> None
         | Some m' \<Rightarrow> map_option (\<lambda>s. m'\<lparr>conn := s\<rparr>) (queue_read e env req ino (clip_size m offset sz) offset s)))"

section \<open>Reads\<close>

text \<open>A read inside of the image.\<close>

lemma read_in_range:
  assumes "imageSize m \<le> 0x7FFFFFFFFFFFFFFF" "offset < imageSize m" "0 < sz" "sz \<le> 0x7FFFFFFF" "\<not> useDebug m" "keepRunning (conn m)"
  shows "image_ll_read e env req 2 sz offset m = map_option (\<lambda>s. m\<lparr>conn := s\<rparr>) (submit_read e env req (clip_size m offset sz) offset (conn m))"
    and "unat (clip_size m offset sz) = min (unat sz) (unat (imageSize m) - unat offset)"
    and "unat (ucast (clip_size m offset sz) :: u32) = unat (clip_size m offset sz)"
proof -
  have u: "unat offset < unat (imageSize m)" "unat (imageSize m) \<le> 0x7FFFFFFFFFFFFFFF" "unat sz \<le> 0x7FFFFFFF" "0 < unat sz"
    using assms(1-4) by (simp_all add: word_le_nat_alt word_less_nat_alt)
  have a: "unat (offset + sz) = unat offset + unat sz" using u by (intro unat_add_no_wrap) simp
  have d: "unat (imageSize m - offset) = unat (imageSize m) - unat offset" using u by (intro unat_sub) (simp add: word_le_nat_alt)
  show l: "unat (clip_size m offset sz) = min (unat sz) (unat (imageSize m) - unat offset)"
    unfolding clip_size_def using a d by (auto simp: word_less_nat_alt min_def)
  then have "0 < unat (clip_size m offset sz)" using u by simp
  then have nz: "clip_size m offset sz \<noteq> 0" by auto
  have "early_replies env req 2 sz offset m = Some (conn m)" using assms(2,4) by (auto simp: early_replies_def Let_def)
  moreover have "queue_read e env req 2 (clip_size m offset sz) offset (conn m) = submit_read e env req (clip_size m offset sz) offset (conn m)"
    using nz assms(6) by (simp add: queue_read_def)
  ultimately show "image_ll_read e env req 2 sz offset m = map_option (\<lambda>s. m\<lparr>conn := s\<rparr>) (submit_read e env req (clip_size m offset sz) offset (conn m))"
    using assms(5) by (simp add: image_ll_read_def debug_count_def)
  have "unat (clip_size m offset sz) < 2 ^ 32" using l u by simp
  then show "unat (ucast (clip_size m offset sz) :: u32) = unat (clip_size m offset sz)"
    by (simp add: unsigned_ucast_eq take_bit_nat_eq_self)
qed

text \<open>The request that a read queues: accepted by the connection, at the end of the list.\<close>

lemma submit_read_queues:
  assumes "queue_is (requests s) ps" "connectionInitDone s" "rd_addr env \<noteq> 0" "cells s (rd_addr env) = None"
  shows "\<exists>s'. submit_read e env req sz offset s = Some s' \<and> queue_is (requests s') (ps @ [rd_addr env])
    \<and> request_at s' (rd_addr env) = (req, offset, ucast sz) \<and> fuse_calls s' = fuse_calls s
    \<and> connection_read e (rd_now env) (rd_send env) (rd_addr env) (fuse_request (rd_async env) (rd_addr env) req offset (ucast sz) s) = Some (True, s')"
proof -
  let ?p = "rd_addr env" and ?s = "fuse_request (rd_async env) (rd_addr env) req offset (ucast sz) s"
  have np: "?p \<notin> set ps" using queue_is_law [OF assms(1)] assms(4) by (auto simp: contents_None)
  have q: "queue_is (requests ?s) ps" unfolding fuse_request_def using assms(1) np by (simp add: queue_new_cell del: fun_upd_apply)
  have c: "cells ?s ?p \<noteq> None" by (simp add: fuse_request_def)
  obtain s' where s': "submit e (rd_now env) (rd_send env) ?p ?s = Some s'" "queue_is (requests s') (ps @ [?p])" "contents (requests s') = contents (requests ?s)"
    "s' = ?s\<lparr>requests := requests s', sockFd := sockFd s', panicSignals := panicSignals s', shutdowns := shutdowns s', asked := asked s'\<rparr>"
    using submit_ok [OF q assms(3) c np, of e "rd_now env" "rd_send env"] by blast
  have "request_at ?s ?p = (req, offset, ucast sz)" by (simp add: request_at_def fuse_request_def)
  then have "request_at s' ?p = (req, offset, ucast sz)" using contents_request_at [OF s'(3)] by simp
  moreover have "fuse_calls s' = fuse_calls s" using only_fields(1) [OF s'(4)] by (simp add: fuse_request_def)
  moreover have "connection_read e (rd_now env) (rd_send env) ?p ?s = Some (True, s')"
    using s'(1) assms(2) by (simp add: connection_read_def fuse_request_def)
  ultimately show ?thesis using s'(2) by (simp add: submit_read_def)
qed

section \<open>Properties\<close>

text \<open>The directory listing and the lookup agree: a name other than the dots is listed with an inode exactly if the lookup of the name
  gives this inode, and the attributes of the entry are those of \<open>getattr\<close>.\<close>

theorem directory_consistent:
  "(name \<noteq> ''.'' \<and> name \<noteq> ''..'' \<and> (name, ino) \<in> set dir_entries) =
   (\<exists>st. image_ll_lookup isz name = Meta_entry ino st \<and> image_ll_getattr isz ino = Meta_attr st)"
  by (auto simp: dir_entries_def image_ll_lookup_def image_ll_getattr_def image_stat_def IMAGE_NAME_def STATS_NAME_def Let_def split: if_splits)

text \<open>A read of the image that starts inside of it queues exactly one request, at the end of the list, for the requested bytes as
  far as they are inside of the image, and sends no reply itself; for the threads of the client it is the step that accepts this request.\<close>

theorem image_read_accepted:
  assumes "imageSize m \<le> 0x7FFFFFFFFFFFFFFF" "offset < imageSize m" "0 < sz" "sz \<le> 0x7FFFFFFF" "\<not> useDebug m" "keepRunning (conn m)"
    "queue_is (requests (conn m)) ps" "connectionInitDone (conn m)" "rd_addr env \<noteq> 0" "cells (conn m) (rd_addr env) = None" "fs w = conn m"
  shows "\<exists>m' len w'. image_ll_read e env req 2 sz offset m = Some m' \<and> unat len = min (unat sz) (unat (imageSize m) - unat offset)
    \<and> queue_is (requests (conn m')) (ps @ [rd_addr env]) \<and> request_at (conn m') (rd_addr env) = (req, offset, len)
    \<and> fuse_calls (conn m') = fuse_calls (conn m)
    \<and> fuse_exec e w (L_read (rd_now env) (rd_send env) (rd_async env) (rd_addr env) req offset len) = Some w' \<and> fs w' = conn m'"
proof -
  let ?len = "clip_size m offset sz"
  note r = read_in_range [OF assms(1-6)]
  obtain s' where s': "submit_read e env req ?len offset (conn m) = Some s'" "queue_is (requests s') (ps @ [rd_addr env])"
      "request_at s' (rd_addr env) = (req, offset, ucast ?len)" "fuse_calls s' = fuse_calls (conn m)"
      "connection_read e (rd_now env) (rd_send env) (rd_addr env) (fuse_request (rd_async env) (rd_addr env) req offset (ucast ?len) (conn m)) = Some (True, s')"
    using submit_read_queues [OF assms(7-10)] by blast
  have x: "fuse_exec e w (L_read (rd_now env) (rd_send env) (rd_async env) (rd_addr env) req offset (ucast ?len))
      = Some (w\<lparr>fs := s', accepted := (req, offset, ucast ?len) # accepted w\<rparr>)"
    using s'(5) by (simp only: fuse_exec.simps assms(11)) simp
  show ?thesis
    by (intro exI [of _ "m\<lparr>conn := s'\<rparr>"] exI [of _ "ucast ?len :: u32"] exI [of _ "w\<lparr>fs := s', accepted := (req, offset, ucast ?len) # accepted w\<rparr>"] conjI)
      (use r(1) [of e env req] r(2,3) s' x in simp_all)
qed

definition sample_main :: fuse_main where
  "sample_main = \<lparr>conn = fs sample_world, imageSize = 8192, useDebug = False, blockRequestCount = []\<rparr>"

definition sample_read :: read_env where
  "sample_read = \<lparr>rd_stats = (\<lambda>_. []), rd_junk = [], rd_async = sample_async 0, rd_addr = 16, rd_now = sample_ticks, rd_send = [Sent 24]\<rparr>"

lemmas sample_main_defs = sample_main_def sample_read_def sample_world_def sample_fuse_def

lemma sample_main_facts:
  "queue_is (requests (conn sample_main)) []" "connectionInitDone (conn sample_main)" "rd_addr sample_read \<noteq> 0"
  "cells (conn sample_main) (rd_addr sample_read) = None" "\<not> useDebug sample_main" "keepRunning (conn sample_main)" "imageSize sample_main = 8192"
  by (simp_all add: sample_main_defs queue_is_def)

theorem image_read_accepted_witness:
  "\<exists>m' len. image_ll_read LE sample_read 1 2 8192 4096 sample_main = Some m' \<and> unat len = 4096
    \<and> queue_is (requests (conn m')) [16] \<and> request_at (conn m') 16 = (1, 4096, len)"
proof -
  have b: "imageSize sample_main \<le> 0x7FFFFFFFFFFFFFFF" "4096 < imageSize sample_main" "0 < (8192 :: u64)" "(8192 :: u64) \<le> 0x7FFFFFFF"
    unfolding sample_main_facts(7) by simp_all
  have w: "fs sample_world = conn sample_main" by (simp add: sample_main_def)
  have p: "rd_addr sample_read = 16" by (simp add: sample_read_def)
  have n: "min (unat (8192 :: u64)) (unat (8192 :: u64) - unat (4096 :: u64)) = 4096" by simp
  show ?thesis
    using image_read_accepted [OF b sample_main_facts(5,6,1-4) w, of LE 1] unfolding p sample_main_facts(7) n append_Nil by blast
qed

text \<open>A read that starts behind the end of the image is answered immediately, and is also sent to the server: the code goes on after the
  reply, and the number of bytes wraps around. The answer of the server will be a second reply to the same fuse request.\<close>

theorem read_past_end_answered_twice:
  assumes "imageSize m < offset" "offset \<le> 0x7FFFFFFFFFFFFFFF" "sz \<le> 0x7FFFFFFF" "\<not> useDebug m" "keepRunning (conn m)"
    "queue_is (requests (conn m)) ps" "connectionInitDone (conn m)" "rd_addr env \<noteq> 0" "cells (conn m) (rd_addr env) = None"
  shows "\<exists>m'. image_ll_read e env req 2 sz offset m = Some m' \<and> fuse_calls (conn m') = fuse_calls (conn m) @ [Reply_err req 0]
    \<and> queue_is (requests (conn m')) (ps @ [rd_addr env]) \<and> request_at (conn m') (rd_addr env) = (req, offset, ucast (imageSize m - offset))"
proof -
  have u: "unat (imageSize m) < unat offset" "unat offset \<le> 0x7FFFFFFFFFFFFFFF" "unat sz \<le> 0x7FFFFFFF"
    using assms(1-3) by (simp_all add: word_le_nat_alt word_less_nat_alt)
  have "unat (offset + sz) = unat offset + unat sz" using u by (intro unat_add_no_wrap) simp
  then have o: "offset + sz > imageSize m" using u by (simp add: word_less_nat_alt)
  let ?s = "reply (Reply_err req 0) (conn m)"
  have nz: "imageSize m - offset \<noteq> 0" using assms(1) by simp
  have "early_replies env req 2 sz offset m = Some ?s" using assms(1,3) by (auto simp: early_replies_def Let_def)
  moreover have c: "clip_size m offset sz = imageSize m - offset" using o by (simp add: clip_size_def)
  moreover have "queue_read e env req 2 (imageSize m - offset) offset ?s = submit_read e env req (imageSize m - offset) offset ?s"
    using nz assms(5) by (auto simp: queue_read_def reply_def)
  ultimately have r: "image_ll_read e env req 2 sz offset m = map_option (\<lambda>s. m\<lparr>conn := s\<rparr>) (submit_read e env req (imageSize m - offset) offset ?s)"
    using assms(4) by (simp add: image_ll_read_def debug_count_def)
  obtain s' where "submit_read e env req (imageSize m - offset) offset ?s = Some s'" "queue_is (requests s') (ps @ [rd_addr env])"
      "request_at s' (rd_addr env) = (req, offset, ucast (imageSize m - offset))" "fuse_calls s' = fuse_calls ?s"
    using submit_read_queues [of ?s ps env e req "imageSize m - offset" offset] assms(6-9) by (auto simp: reply_def)
  then show ?thesis using r by (simp add: reply_def)
qed

theorem read_past_end_answered_twice_witness:
  "\<exists>m'. image_ll_read LE sample_read 1 2 4096 8193 sample_main = Some m' \<and> fuse_calls (conn m') = [Reply_err 1 0] \<and> queue_is (requests (conn m')) [16]"
  using read_past_end_answered_twice [of sample_main 8193 4096 "[]" sample_read LE 1] sample_main_facts
  by (auto simp: sample_main_defs)

text \<open>A listing of the directory that is read in pieces, each starting where the one before ended, yields the whole listing.\<close>

theorem readdir_pieces:
  assumes "0 < sz" "length (reply_buf_limited buf off sz) = n"
  shows "reply_buf_limited buf off sz @ drop (off + n) buf = drop off buf \<and> (n = 0 \<longleftrightarrow> length buf \<le> off)"
proof (cases "off < length buf")
  case True
  let ?k = "min (length buf - off) sz"
  have r: "reply_buf_limited buf off sz = take ?k (drop off buf)" using True by (simp add: reply_buf_limited_def)
  have n: "n = ?k" using assms(2) unfolding r by simp
  have "drop (off + n) buf = drop n (drop off buf)" by (simp add: add.commute)
  then show ?thesis using True assms(1) unfolding r n by (simp only: append_take_drop_id) simp
next
  case False
  then show ?thesis using assms(2) by (simp add: reply_buf_limited_def)
qed

theorem readdir_pieces_witness: "reply_buf_limited [1, 2, 3] 1 1 @ drop 2 [1, 2, 3] = [2, 3]"
  using readdir_pieces [of 1 "[1, 2, 3]" 1 1] by (simp add: reply_buf_limited_def)

end
