(* ===== verification/Config.thy ===== *)
theory Config
  imports Text_Util Uplink_Thread
begin

text \<open>
  The configuration of the server: the parser of \<open>src/server/ini.c\<close>, and \<open>src/server/globals.c\<close> with the settings, numbers with units, the checks after
  the first load, reloading, and the printed form of the configuration. Results are a sum: \<open>Inl\<close> is an exit of the process or a signed overflow. Resource
  limits of the process and the opening of the log file are arguments.
\<close>

section \<open>The file\<close>

definition rstrip :: "string \<Rightarrow> string" where
  "rstrip s = strip_end isspace (length s) s"

definition lskip :: "string \<Rightarrow> string" where
  "lskip s = dropWhile isspace s"

text \<open>The number of characters in front of the character \<open>c\<close> or of a comment.\<close>

fun find_char_or_comment :: "bool \<Rightarrow> char \<Rightarrow> string \<Rightarrow> nat" where
  "find_char_or_comment was c [] = 0"
| "find_char_or_comment was c (x # xs) =
    (if x = c \<or> was \<and> x = CHR '';'' then 0 else Suc (find_char_or_comment (isspace x) c xs))"

definition char_at :: "nat \<Rightarrow> string \<Rightarrow> char" where
  "char_at i s = (if i < length s then s ! i else CHR 0x00)"

definition MAX_SECTION :: nat where "MAX_SECTION = 50"
definition MAX_NAME :: nat where "MAX_NAME = 50"
definition INI_MAX_LINE :: nat where "INI_MAX_LINE = 200"

definition strncpy0 :: "nat \<Rightarrow> string \<Rightarrow> string" where
  "strncpy0 n s = take (n - 1) s"

text \<open>A name and value pair.\<close>

definition ini_pair :: "string \<Rightarrow> (string \<times> string) option" where
  "ini_pair start =
    (let i = find_char_or_comment False CHR ''='' start;
         i = (if char_at i start = CHR ''='' then i else find_char_or_comment False CHR '':'' start)
     in if char_at i start = CHR ''='' \<or> char_at i start = CHR '':''
        then let value = lskip (drop (i + 1) start);
                 value = take (find_char_or_comment False CHR 0x00 value) value
             in Some (rstrip (take i start), rstrip value)
        else None)"

text \<open>The loop over the lines, with the current section and the name of the last pair: the calls of the handler.\<close>

fun ini_lines :: "bool \<Rightarrow> string \<Rightarrow> string \<Rightarrow> string list \<Rightarrow> (string \<times> string \<times> string) list" where
  "ini_lines first section prev [] = []"
| "ini_lines first section prev (line # ls) =
    (let bom = first \<and> take 3 line = [CHR 0xEF, CHR 0xBB, CHR 0xBF];
         text0 = rstrip (if bom then drop 3 line else line);
         start = lskip text0;
         indented = (bom \<or> length start < length text0)
     in if start \<noteq> [] \<and> (hd start = CHR '';'' \<or> hd start = CHR ''#'') then ini_lines False section prev ls
        else if prev \<noteq> [] \<and> start \<noteq> [] \<and> indented then (section, prev, start) # ini_lines False section prev ls
        else if start \<noteq> [] \<and> hd start = CHR ''[''
        then let i = find_char_or_comment False CHR '']'' (tl start) in
          if char_at i (tl start) = CHR '']'' then ini_lines False (strncpy0 MAX_SECTION (take i (tl start))) [] ls
          else ini_lines False section prev ls
        else if start \<noteq> []
        then (case ini_pair start of
            None \<Rightarrow> ini_lines False section prev ls
          | Some (name, value) \<Rightarrow> (section, name, value) # ini_lines False section (strncpy0 MAX_NAME name) ls)
        else ini_lines False section prev ls)"

definition ini_parse :: "string option \<Rightarrow> (string \<times> string \<times> string) list" where
  "ini_parse file = (case file of None \<Rightarrow> [] | Some s \<Rightarrow> ini_lines True [] [] (fgets_lines (INI_MAX_LINE - 1) s))"

section \<open>Numbers\<close>

datatype config_error = Exit_failure | Int_overflow

definition units :: string where "units = ''KMGTPEZY''"

text \<open>The loop that applies the unit.\<close>

fun scale :: "nat \<Rightarrow> int \<Rightarrow> int \<Rightarrow> config_error + int" where
  "scale 0 base num = Inr num"
| "scale (Suc n) base num = (if - (2 ^ 63) \<le> num * base \<and> num * base < 2 ^ 63 then scale n base (num * base) else Inl Int_overflow)"

text \<open>The position of a character in the units, counted from one; letters in lower case count as well.\<close>

definition unit_of :: "char \<Rightarrow> nat option" where
  "unit_of c =
    (let k = (of_char c :: nat); u = (if 90 < k \<and> k < 128 then char_of (k - 32) else c) in
     if u \<in> set units then Some (Suc (length (takeWhile (\<lambda>x. x \<noteq> u) units))) else None)"

text \<open>\<open>Inr None\<close> is a value that is ignored.\<close>

definition parse64 :: "string \<Rightarrow> config_error + int option" where
  "parse64 s =
    (if s = [] then Inr None
     else case strtoll s of (num, e) \<Rightarrow>
       if e = s then Inr None
       else let e = dropWhile (\<lambda>c. c = CHR '' '') e in
         case e of
           [] \<Rightarrow> Inr (Some num)
         | c # e \<Rightarrow>
            (case unit_of c of
               None \<Rightarrow> Inr None
             | Some n \<Rightarrow> map_sum id Some (scale n (if e \<noteq> [] \<and> (hd e = CHR ''B'' \<or> hd e = CHR ''b'') then 1000 else 1024) num)))"

definition in_range :: "int \<Rightarrow> int \<Rightarrow> config_error + int option \<Rightarrow> config_error + int option" where
  "in_range lo hi r = (case r of Inr (Some v) \<Rightarrow> if v < lo \<or> v > hi then Inr None else r | _ \<Rightarrow> r)"

definition parse64u :: "string \<Rightarrow> config_error + int option" where
  "parse64u s = in_range 0 (2 ^ 63 - 1) (parse64 s)"

definition parse32 :: "string \<Rightarrow> config_error + int option" where
  "parse32 s = in_range (- (2 ^ 31)) (2 ^ 31 - 1) (parse64 s)"

definition parse32u :: "string \<Rightarrow> config_error + int option" where
  "parse32u s = in_range 0 (2 ^ 31 - 1) (parse64 s)"

definition IS_TRUE :: "string \<Rightarrow> bool" where
  "IS_TRUE v \<longleftrightarrow> atoi_text v \<noteq> 0 \<or> v = ''true'' \<or> v = ''True'' \<or> v = ''TRUE''"

section \<open>Settings\<close>

record config =
  cf_listenPort :: int
  cf_basePath :: "string option"
  cf_serverPenalty :: int
  cf_clientPenalty :: int
  cf_isProxy :: bool
  cf_backgroundReplication :: bgr
  cf_bgrMinClients :: int
  cf_lookupMissingForProxy :: bool
  cf_sparseFiles :: bool
  cf_removeMissingImages :: bool
  cf_uplinkTimeout :: int
  cf_clientTimeout :: int
  cf_closeUnusedFd :: bool
  cf_vmdkLegacyMode :: bool
  cf_proxyPrivateOnly :: bool
  cf_maxClients :: int
  cf_maxImages :: int
  cf_maxPayload :: int
  cf_maxReplicationSize :: int
  cf_pretendClient :: bool
  cf_fileMask :: u32
  cf_consoleMask :: u32
  cf_consoleTimestamps :: bool
  cf_logFile :: "string option"

definition SERVER_MAX_CLIENTS :: int where "SERVER_MAX_CLIENTS = 4000"
definition SERVER_MAX_IMAGES :: int where "SERVER_MAX_IMAGES = 5000"

text \<open>The values before the first load; the masks are those of the log component.\<close>

definition default_config :: "u32 \<Rightarrow> u32 \<Rightarrow> config" where
  "default_config fileMask consoleMask = \<lparr>cf_listenPort = 5003, cf_basePath = None, cf_serverPenalty = 0, cf_clientPenalty = 0, cf_isProxy = False,
     cf_backgroundReplication = BGR_FULL, cf_bgrMinClients = 0, cf_lookupMissingForProxy = True, cf_sparseFiles = False,
     cf_removeMissingImages = True, cf_uplinkTimeout = 5000, cf_clientTimeout = 15000, cf_closeUnusedFd = False, cf_vmdkLegacyMode = False,
     cf_proxyPrivateOnly = False, cf_maxClients = SERVER_MAX_CLIENTS, cf_maxImages = SERVER_MAX_IMAGES, cf_maxPayload = 9000000,
     cf_maxReplicationSize = 100000000000, cf_pretendClient = False, cf_fileMask = fileMask, cf_consoleMask = consoleMask,
     cf_consoleTimestamps = False, cf_logFile = None\<rparr>"

text \<open>The macros \<open>SAVE_TO_VAR\<close>: how a value is read and where it goes.\<close>

datatype setting = Set_bool "bool \<Rightarrow> config \<Rightarrow> config" | Set_int "int \<Rightarrow> config \<Rightarrow> config" | Set_uint "int \<Rightarrow> config \<Rightarrow> config"
  | Set_uint64 "int \<Rightarrow> config \<Rightarrow> config"

definition save_number :: "(int \<Rightarrow> config \<Rightarrow> config) \<Rightarrow> config_error + int option \<Rightarrow> config \<Rightarrow> config_error + config" where
  "save_number f r c = (case r of Inl e \<Rightarrow> Inl e | Inr None \<Rightarrow> Inr c | Inr (Some n) \<Rightarrow> Inr (f n c))"

fun save_to_var :: "setting \<Rightarrow> string \<Rightarrow> config \<Rightarrow> config_error + config" where
  "save_to_var (Set_bool f) v c = Inr (f (IS_TRUE v) c)"
| "save_to_var (Set_int f) v c = save_number f (parse32 v) c"
| "save_to_var (Set_uint f) v c = save_number f (parse32u v) c"
| "save_to_var (Set_uint64 f) v c = save_number f (parse64u v) c"

definition initial_settings :: "(string \<times> string \<times> setting) list" where
  "initial_settings = [
     (''dnbd3'', ''vmdkLegacyMode'', Set_bool (\<lambda>v. cf_vmdkLegacyMode_update (\<lambda>_. v))),
     (''dnbd3'', ''listenPort'', Set_uint (\<lambda>v. cf_listenPort_update (\<lambda>_. v))),
     (''limits'', ''maxClients'', Set_uint (\<lambda>v. cf_maxClients_update (\<lambda>_. v))),
     (''limits'', ''maxImages'', Set_uint (\<lambda>v. cf_maxImages_update (\<lambda>_. v)))]"

definition common_settings :: "(string \<times> string \<times> setting) list" where
  "common_settings = [
     (''dnbd3'', ''isProxy'', Set_bool (\<lambda>v. cf_isProxy_update (\<lambda>_. v))),
     (''dnbd3'', ''proxyPrivateOnly'', Set_bool (\<lambda>v. cf_proxyPrivateOnly_update (\<lambda>_. v))),
     (''dnbd3'', ''bgrMinClients'', Set_int (\<lambda>v. cf_bgrMinClients_update (\<lambda>_. v))),
     (''dnbd3'', ''lookupMissingForProxy'', Set_bool (\<lambda>v. cf_lookupMissingForProxy_update (\<lambda>_. v))),
     (''dnbd3'', ''sparseFiles'', Set_bool (\<lambda>v. cf_sparseFiles_update (\<lambda>_. v))),
     (''dnbd3'', ''removeMissingImages'', Set_bool (\<lambda>v. cf_removeMissingImages_update (\<lambda>_. v))),
     (''dnbd3'', ''closeUnusedFd'', Set_bool (\<lambda>v. cf_closeUnusedFd_update (\<lambda>_. v))),
     (''dnbd3'', ''serverPenalty'', Set_uint (\<lambda>v. cf_serverPenalty_update (\<lambda>_. v))),
     (''dnbd3'', ''clientPenalty'', Set_uint (\<lambda>v. cf_clientPenalty_update (\<lambda>_. v))),
     (''dnbd3'', ''uplinkTimeout'', Set_uint (\<lambda>v. cf_uplinkTimeout_update (\<lambda>_. v))),
     (''dnbd3'', ''clientTimeout'', Set_uint (\<lambda>v. cf_clientTimeout_update (\<lambda>_. v))),
     (''limits'', ''maxPayload'', Set_uint (\<lambda>v. cf_maxPayload_update (\<lambda>_. v))),
     (''limits'', ''maxReplicationSize'', Set_uint64 (\<lambda>v. cf_maxReplicationSize_update (\<lambda>_. v))),
     (''dnbd3'', ''pretendClient'', Set_bool (\<lambda>v. cf_pretendClient_update (\<lambda>_. v)))]"

fun run_settings :: "(string \<times> string \<times> setting) list \<Rightarrow> string \<Rightarrow> string \<Rightarrow> string \<Rightarrow> config \<Rightarrow> config_error + config" where
  "run_settings [] section key v c = Inr c"
| "run_settings ((ss, kk, st) # rest) section key v c =
    (case (if section = ss \<and> key = kk then save_to_var st v c else Inr c) of
       Inl e \<Rightarrow> Inl e
     | Inr c \<Rightarrow> run_settings rest section key v c)"

fun occurs_in :: "string \<Rightarrow> string \<Rightarrow> bool" where
  "occurs_in t [] = (t = [])"
| "occurs_in t (c # s) = (take (length t) (c # s) = t \<or> occurs_in t s)"

definition handleMaskString :: "string \<Rightarrow> u32" where
  "handleMaskString v = foldl (\<lambda>mask (nm, b). if occurs_in nm v then mask OR b else mask) 0
     [(''ERROR'', 1), (''WARNING'', 2), (''MINOR'', 4), (''INFO'', 8), (''DEBUG1'', 16), (''DEBUG2'', 32)]"

definition set_basePath :: "string \<Rightarrow> string \<Rightarrow> string \<Rightarrow> config \<Rightarrow> config" where
  "set_basePath section key v c = (if cf_basePath c = None \<and> section = ''dnbd3'' \<and> key = ''basePath'' then c\<lparr>cf_basePath := Some v\<rparr> else c)"

definition set_replication :: "string \<Rightarrow> string \<Rightarrow> string \<Rightarrow> config \<Rightarrow> config" where
  "set_replication section key v c =
    (if section = ''dnbd3'' \<and> key = ''backgroundReplication''
     then c\<lparr>cf_backgroundReplication := if v = ''hashblock'' then BGR_HASHBLOCK else if IS_TRUE v then BGR_FULL else BGR_DISABLED\<rparr> else c)"

definition set_logging :: "(string \<Rightarrow> bool) \<Rightarrow> string \<Rightarrow> string \<Rightarrow> string \<Rightarrow> config \<Rightarrow> config_error + config" where
  "set_logging openLog section key v c =
    (if section \<noteq> ''logging'' then Inr c
     else if key = ''fileMask'' then Inr (c\<lparr>cf_fileMask := handleMaskString v\<rparr>)
     else if key = ''consoleMask'' then Inr (c\<lparr>cf_consoleMask := handleMaskString v\<rparr>)
     else if key = ''consoleTimestamps'' then Inr (c\<lparr>cf_consoleTimestamps := IS_TRUE v\<rparr>)
     else if key = ''file'' then if openLog v then Inr (c\<lparr>cf_logFile := Some v\<rparr>) else Inl Exit_failure
     else Inr c)"

definition ini_handler :: "(string \<Rightarrow> bool) \<Rightarrow> bool \<Rightarrow> string \<times> string \<times> string \<Rightarrow> config \<Rightarrow> config_error + config" where
  "ini_handler openLog initialLoad entry c = (case entry of (section, key, v) \<Rightarrow>
     (case (if initialLoad then run_settings initial_settings section key v (set_basePath section key v c) else Inr c) of
        Inl e \<Rightarrow> Inl e
      | Inr c \<Rightarrow>
         (case run_settings common_settings section key v c of
            Inl e \<Rightarrow> Inl e
          | Inr c \<Rightarrow> set_logging openLog section key v (set_replication section key v c))))"

fun ini_load :: "(string \<Rightarrow> bool) \<Rightarrow> bool \<Rightarrow> (string \<times> string \<times> string) list \<Rightarrow> config \<Rightarrow> config_error + config" where
  "ini_load openLog initialLoad [] c = Inr c"
| "ini_load openLog initialLoad (x # xs) c =
    (case ini_handler openLog initialLoad x c of Inl e \<Rightarrow> Inl e | Inr c \<Rightarrow> ini_load openLog initialLoad xs c)"

section \<open>Checks after loading\<close>

definition required_files :: "config \<Rightarrow> int" where
  "required_files c = cf_maxClients c + cf_maxImages c * (if cf_isProxy c then 2 else 1) + 50"

text \<open>The loop that lowers the limits; \<open>current\<close> is the number of files that may be open. A division of non-negative numbers.\<close>

function lower_limits :: "nat \<Rightarrow> config \<Rightarrow> config" where
  "lower_limits current c =
    (if cf_maxClients c > 500 \<and> cf_maxImages c > 150
     then let c = c\<lparr>cf_maxImages := cf_maxImages c - (cf_maxImages c div 20 + 1), cf_maxClients := cf_maxClients c - (cf_maxClients c div 20 + 1)\<rparr>
          in if required_files c > int current then lower_limits current c else c
     else if cf_maxImages c > 100
     then let c = c\<lparr>cf_maxImages := cf_maxImages c - (cf_maxImages c div 20 + 1),
            cf_maxClients := if cf_maxClients c > 200 then cf_maxClients c - (cf_maxClients c div 25 + 1) else cf_maxClients c\<rparr>
          in if required_files c > int current then lower_limits current c else c
     else c)"
  by pat_completeness auto
termination
  by (relation "measure (\<lambda>(n, c). nat (cf_maxImages c))") auto

declare lower_limits.simps [simp del]

text \<open>The limits of open files: the soft and the hard limit, \<open>None\<close> for no limit; and whether raising the soft limit succeeds.\<close>

record rlimit_env =
  rl_get :: "(nat option \<times> nat option) option"
  rl_set :: bool

definition consider_rlimits :: "rlimit_env \<Rightarrow> config \<Rightarrow> config" where
  "consider_rlimits env c =
    (case rl_get env of
       None \<Rightarrow> c
     | Some (None, hard) \<Rightarrow> c
     | Some (Some soft, hard) \<Rightarrow>
        if int soft < required_files c
        then let want = (case hard of None \<Rightarrow> required_files c | Some h \<Rightarrow> if required_files c \<le> int h then required_files c else int h);
                 current = (if int soft \<noteq> want \<and> rl_set env then nat want else soft)
             in if int current < required_files c then lower_limits current c else c
        else c)"

definition sanitize_basePath :: "string option \<Rightarrow> string option" where
  "sanitize_basePath p = (case p of
     None \<Rightarrow> None
   | Some s \<Rightarrow> if s = [] \<or> hd s \<noteq> CHR ''/'' then None else Some (remove_trailing_slash s))"

definition sanitizeFixedConfig :: "rlimit_env \<Rightarrow> config \<Rightarrow> config_error + config" where
  "sanitizeFixedConfig env c =
    (let c = c\<lparr>cf_basePath := sanitize_basePath (cf_basePath c)\<rparr> in
     if cf_listenPort c < 1 \<or> cf_listenPort c > 65535 then Inl Exit_failure
     else Inr (consider_rlimits env (c\<lparr>cf_maxClients := min (cf_maxClients c) SERVER_MAX_CLIENTS, cf_maxImages := min (cf_maxImages c) SERVER_MAX_IMAGES\<rparr>)))"

definition check_sparse :: "config \<Rightarrow> config" where
  "check_sparse c =
    (if cf_backgroundReplication c = BGR_FULL \<and> cf_sparseFiles c \<and> cf_bgrMinClients c < 5 then c\<lparr>cf_sparseFiles := False\<rparr> else c)"

text \<open>\<open>busy\<close> says that another load is running; the result also holds the new value of \<open>initialLoad\<close>.\<close>

definition globals_loadConfig :: "(string \<Rightarrow> bool) \<Rightarrow> rlimit_env \<Rightarrow> bool \<Rightarrow> string option \<Rightarrow> bool \<times> config \<Rightarrow> config_error + bool \<times> config" where
  "globals_loadConfig openLog env busy file st = (case st of (initialLoad, c) \<Rightarrow>
     if busy then Inr st
     else (case ini_load openLog initialLoad (ini_parse file) c of
         Inl e \<Rightarrow> Inl e
       | Inr c \<Rightarrow>
          (case (if initialLoad then sanitizeFixedConfig env c else Inr c) of
             Inl e \<Rightarrow> Inl e
           | Inr c \<Rightarrow> Inr (False, check_sparse c))))"

section \<open>The printed configuration\<close>

definition int_text :: "int \<Rightarrow> string" where
  "int_text v = (if v < 0 then CHR ''-'' # dec (nat (- v)) else dec (nat v))"

definition bool_text :: "bool \<Rightarrow> string" where
  "bool_text b = (if b then ''true'' else ''false'')"

text \<open>The names and values that are printed. A missing base path is printed as the C library does.\<close>

definition dump_dnbd3 :: "config \<Rightarrow> (string \<times> string) list" where
  "dump_dnbd3 c = [
     (''listenPort'', int_text (cf_listenPort c)),
     (''basePath'', case cf_basePath c of None \<Rightarrow> ''(null)'' | Some p \<Rightarrow> p),
     (''serverPenalty'', int_text (cf_serverPenalty c)),
     (''clientPenalty'', int_text (cf_clientPenalty c)),
     (''isProxy'', bool_text (cf_isProxy c)),
     (''backgroundReplication'', if cf_backgroundReplication c = BGR_HASHBLOCK then ''hashblock'' else bool_text (cf_backgroundReplication c \<noteq> BGR_DISABLED)),
     (''bgrMinClients'', int_text (cf_bgrMinClients c)),
     (''lookupMissingForProxy'', bool_text (cf_lookupMissingForProxy c)),
     (''sparseFiles'', bool_text (cf_sparseFiles c)),
     (''removeMissingImages'', bool_text (cf_removeMissingImages c)),
     (''uplinkTimeout'', int_text (cf_uplinkTimeout c)),
     (''clientTimeout'', int_text (cf_clientTimeout c)),
     (''closeUnusedFd'', bool_text (cf_closeUnusedFd c)),
     (''vmdkLegacyMode'', bool_text (cf_vmdkLegacyMode c)),
     (''proxyPrivateOnly'', bool_text (cf_proxyPrivateOnly c)),
     (''pretendClient'', bool_text (cf_pretendClient c))]"

definition dump_limits :: "config \<Rightarrow> (string \<times> string) list" where
  "dump_limits c = [
     (''maxClients'', int_text (cf_maxClients c)),
     (''maxImages'', int_text (cf_maxImages c)),
     (''maxPayload'', int_text (cf_maxPayload c)),
     (''maxReplicationSize'', int_text (cf_maxReplicationSize c))]"

definition dump_lines :: "config \<Rightarrow> string list" where
  "dump_lines c = ''[dnbd3]'' # map (\<lambda>(k, v). k @ ''='' @ v) (dump_dnbd3 c) @ ''[limits]'' # map (\<lambda>(k, v). k @ ''='' @ v) (dump_limits c)"

text \<open>The macro \<open>P_ARG\<close> for one line after the other, with \<open>rem\<close> bytes left: what is in the buffer. The function returns the number of its
  characters.\<close>

fun print_args :: "nat \<Rightarrow> string list \<Rightarrow> string" where
  "print_args rem [] = []"
| "print_args rem (l # ls) = (if length (l @ [CHR 0x0A]) \<ge> rem then take (rem - 1) (l @ [CHR 0x0A]) else l @ CHR 0x0A # print_args (rem - length (l @ [CHR 0x0A])) ls)"

definition globals_dumpConfig :: "nat \<Rightarrow> config \<Rightarrow> string" where
  "globals_dumpConfig buflen c = print_args buflen (dump_lines c)"

lemma print_args_all: "length (concat (map (\<lambda>l. l @ [CHR 0x0A]) ls)) < n \<Longrightarrow> print_args n ls = concat (map (\<lambda>l. l @ [CHR 0x0A]) ls)"
  by (induction ls arbitrary: n) auto

lemma print_args_length: "0 < n \<Longrightarrow> length (print_args n ls) < n"
  by (induction n ls rule: print_args.induct) auto

section \<open>Reading what was printed\<close>

definition line_ok :: "nat \<Rightarrow> string \<Rightarrow> bool" where
  "line_ok n l \<longleftrightarrow> CHR 0x0A \<notin> set l \<and> CHR 0x00 \<notin> set l \<and> length l < n"

lemma fgets_lines_map: "list_all (line_ok n) ls \<Longrightarrow> fgets_lines n (concat (map (\<lambda>l. l @ [CHR 0x0A]) ls)) = map (\<lambda>l. l @ [CHR 0x0A]) ls"
proof (induction ls)
  case Nil
  then show ?case by (simp add: fgets_lines.simps [of _ "[]"])
next
  case (Cons l ls)
  then show ?case using fgets_line [of l n "concat (map (\<lambda>l. l @ [CHR 0x0A]) ls)"] by (simp add: line_ok_def)
qed

text \<open>Characters of a name, and values that the parser takes as they are.\<close>

definition name_char :: "char \<Rightarrow> bool" where
  "name_char c \<longleftrightarrow> \<not> isspace c \<and> c \<noteq> CHR ''='' \<and> c \<noteq> CHR '';'' \<and> c \<noteq> CHR ''#'' \<and> c \<noteq> CHR ''['' \<and> c \<noteq> CHR 0xEF"

definition value_ok :: "string \<Rightarrow> bool" where
  "value_ok v \<longleftrightarrow> (v \<noteq> [] \<longrightarrow> \<not> isspace (hd v) \<and> \<not> isspace (last v)) \<and> CHR 0x00 \<notin> set v \<and> find_char_or_comment False CHR 0x00 v = length v"

lemma rstrip_keep: "(s \<noteq> [] \<longrightarrow> \<not> isspace (last s)) \<Longrightarrow> \<forall>c\<in>set t. isspace c \<Longrightarrow> rstrip (s @ t) = s"
proof -
  assume a: "s \<noteq> [] \<longrightarrow> \<not> isspace (last s)" "\<forall>c\<in>set t. isspace c"
  have "dropWhile isspace (rev t @ rev s) = dropWhile isspace (rev s)" using a(2) by (subst dropWhile_append2) auto
  also have "\<dots> = rev s" using a(1) by (auto simp: dropWhile_eq_self_iff hd_rev)
  finally show ?thesis unfolding rstrip_def by (subst strip_end_eq) simp_all
qed

lemma lskip_keep: "(s \<noteq> [] \<longrightarrow> \<not> isspace (hd s)) \<Longrightarrow> lskip s = s"
  by (auto simp: lskip_def dropWhile_eq_self_iff)

lemma find_char_name: "\<forall>c\<in>set k. name_char c \<Longrightarrow> find_char_or_comment False CHR ''='' (k @ CHR ''='' # v) = length k"
  by (induction k) (auto simp: name_char_def)

lemma ini_pair_ok:
  assumes "k \<noteq> []" "\<forall>c\<in>set k. name_char c" "value_ok v"
  shows "ini_pair (k @ CHR ''='' # v) = Some (k, v)"
proof -
  have "char_at (length k) (k @ CHR ''='' # v) = CHR ''=''" by (simp add: char_at_def)
  moreover have "last k \<in> set k" using assms(1) by simp
  then have "rstrip k = k" using rstrip_keep [of k "[]"] assms(2) by (auto simp: name_char_def)
  moreover have "rstrip v = v" "lskip v = v" using rstrip_keep [of v "[]"] lskip_keep [of v] assms(3) by (auto simp: value_ok_def)
  ultimately show ?thesis using find_char_name [OF assms(2), of v] assms(3) by (simp add: ini_pair_def Let_def value_ok_def)
qed

lemma isspace_newline [simp]: "isspace CHR 0x0A"
  by (simp add: isspace_def)

lemma ini_lines_pair:
  assumes "k \<noteq> []" "\<forall>c\<in>set k. name_char c" "value_ok v"
  shows "ini_lines first section prev ((k @ CHR ''='' # v @ [CHR 0x0A]) # ls) = (section, k, v) # ini_lines False section (strncpy0 MAX_NAME k) ls"
proof -
  have r: "rstrip (k @ CHR ''='' # v @ [CHR 0x0A]) = k @ CHR ''='' # v"
    using rstrip_keep [of "k @ CHR ''='' # v" "[CHR 0x0A]"] assms(3) by (auto simp: value_ok_def isspace_def)
  obtain c cs where k: "k = c # cs" "name_char c" using assms(1,2) by (cases k) auto
  then have "lskip (k @ CHR ''='' # v) = k @ CHR ''='' # v" by (intro lskip_keep) (simp add: name_char_def)
  moreover have "take 3 (k @ CHR ''='' # v @ [CHR 0x0A]) \<noteq> [CHR 0xEF, CHR 0xBB, CHR 0xBF]" using k by (auto simp: name_char_def numeral_3_eq_3)
  ultimately show ?thesis using r k ini_pair_ok [OF assms] by (simp add: Let_def name_char_def)
qed

lemma ini_lines_section:
  assumes "\<forall>c\<in>set sec. \<not> isspace c \<and> c \<noteq> CHR '';'' \<and> c \<noteq> CHR '']''" "length sec < MAX_SECTION"
  shows "ini_lines first section prev ((CHR ''['' # sec @ [CHR '']'', CHR 0x0A]) # ls) = ini_lines False sec [] ls"
proof -
  have r: "rstrip (CHR ''['' # sec @ [CHR '']'', CHR 0x0A]) = CHR ''['' # sec @ [CHR '']'']"
    using rstrip_keep [of "CHR ''['' # sec @ [CHR '']'']" "[CHR 0x0A]"] by (auto simp: isspace_def)
  have "lskip (CHR ''['' # sec @ [CHR '']'']) = CHR ''['' # sec @ [CHR '']'']" by (intro lskip_keep) (simp add: isspace_def)
  moreover have "find_char_or_comment False CHR '']'' (sec @ [CHR '']'']) = length sec" using assms(1) by (induction sec) auto
  ultimately show ?thesis using r assms(2)
    by (simp add: Let_def char_at_def strncpy0_def numeral_3_eq_3)
qed

text \<open>Printed values are read back.\<close>

lemma strtoll_int_text:
  assumes "- (2 ^ 63) \<le> v" "v < 2 ^ 63"
  shows "strtoll (int_text v) = (v, [])"
proof (cases "v < 0")
  case False
  then show ?thesis using strtoll_dec [of "nat v" "[]"] assms by (simp add: int_text_def nat_less_iff)
next
  case True
  define t where "t = dec (nat (- v))"
  have t: "takeWhile is_digit t = t" "dropWhile is_digit t = []" "t \<noteq> []" "digits_value t = nat (- v)"
    using dec_digits [of "nat (- v)"] by (auto simp: t_def digits_value_dec takeWhile_eq_all_conv)
  have "int_text v = CHR ''-'' # t" using True by (simp add: int_text_def t_def)
  then show ?thesis using True assms by (simp add: strtoll_def Let_def isspace_def saturate_def t)
qed

lemma int_text_nonempty [simp]: "int_text v \<noteq> []"
  by (simp add: int_text_def dec_digits(2))

lemma parse64_int_text: "- (2 ^ 63) \<le> v \<Longrightarrow> v < 2 ^ 63 \<Longrightarrow> parse64 (int_text v) = Inr (Some v)"
  using strtoll_int_text [of v] int_text_nonempty [of v, symmetric] by (simp add: parse64_def Let_def)

lemma parse_int_text:
  "0 \<le> v \<Longrightarrow> v < 2 ^ 31 \<Longrightarrow> parse32u (int_text v) = Inr (Some v)"
  "- (2 ^ 31) \<le> v \<Longrightarrow> v < 2 ^ 31 \<Longrightarrow> parse32 (int_text v) = Inr (Some v)"
  "0 \<le> v \<Longrightarrow> v < 2 ^ 63 \<Longrightarrow> parse64u (int_text v) = Inr (Some v)"
  by (simp_all add: parse32u_def parse32_def parse64u_def parse64_int_text in_range_def)

lemma IS_TRUE_bool_text [simp]: "IS_TRUE (bool_text b) = b"
  by (simp add: IS_TRUE_def bool_text_def atoi_text_def strtoll_def Let_def isspace_def is_digit_def)

lemma int_text_chars: "c \<in> set (int_text v) \<Longrightarrow> is_digit c \<or> c = CHR ''-''"
  using dec_digits(1) by (auto simp: int_text_def split: if_splits)

lemma find_char_clean: "\<forall>c\<in>set v. \<not> isspace c \<and> c \<noteq> CHR 0x00 \<Longrightarrow> find_char_or_comment False CHR 0x00 v = length v"
  by (induction v) auto

lemma value_ok_clean: "\<forall>c\<in>set v. \<not> isspace c \<and> c \<noteq> CHR 0x00 \<Longrightarrow> value_ok v"
  using find_char_clean [of v] by (auto simp: value_ok_def)

lemma value_ok_text [simp]: "value_ok (int_text v)" "value_ok (bool_text b)" "value_ok ''hashblock''"
proof -
  have "\<not> isspace c \<and> c \<noteq> CHR 0x00" if "c \<in> set (int_text v)" for c
    using int_text_chars [OF that] by (auto simp: is_digit_def isspace_def)
  then show "value_ok (int_text v)" by (intro value_ok_clean) blast
qed (auto intro!: value_ok_clean simp: bool_text_def isspace_def)

section \<open>Loading the printed configuration\<close>

text \<open>A configuration with values that the settings can take.\<close>

definition config_ok :: "config \<Rightarrow> bool" where
  "config_ok c \<longleftrightarrow>
    (\<forall>v\<in>{cf_listenPort c, cf_serverPenalty c, cf_clientPenalty c, cf_uplinkTimeout c, cf_clientTimeout c, cf_maxClients c, cf_maxImages c, cf_maxPayload c}.
       0 \<le> v \<and> v < 2 ^ 31)
    \<and> - (2 ^ 31) \<le> cf_bgrMinClients c \<and> cf_bgrMinClients c < 2 ^ 31 \<and> 0 \<le> cf_maxReplicationSize c \<and> cf_maxReplicationSize c < 2 ^ 63"

text \<open>The entries that the printed lines stand for.\<close>

definition dump_entries :: "config \<Rightarrow> (string \<times> string \<times> string) list" where
  "dump_entries c = map (Pair ''dnbd3'') (dump_dnbd3 c) @ map (Pair ''limits'') (dump_limits c)"

lemma ini_lines_pairs:
  "\<forall>(k, v)\<in>set kvs. k \<noteq> [] \<and> (\<forall>c\<in>set k. name_char c) \<and> value_ok v \<Longrightarrow>
   \<exists>prev'. ini_lines first section prev (map (\<lambda>(k, v). k @ CHR ''='' # v @ [CHR 0x0A]) kvs @ ls) = map (Pair section) kvs @ ini_lines (first \<and> kvs = []) section prev' ls"
proof (induction kvs arbitrary: first prev)
  case Nil
  then show ?case by auto
next
  case (Cons kv kvs)
  obtain k v where kv: "kv = (k, v)" by fastforce
  then show ?case using Cons.prems Cons.IH [of False "strncpy0 MAX_NAME k"] ini_lines_pair [of k v first "section" prev] by auto
qed

lemma dump_names: "\<forall>(k, v)\<in>set (dump_dnbd3 c) \<union> set (dump_limits c). k \<noteq> [] \<and> (\<forall>x\<in>set k. name_char x)"
  by (simp add: dump_dnbd3_def dump_limits_def name_char_def isspace_def)

lemma dump_values:
  assumes "cf_basePath c = Some p" "value_ok p"
  shows "\<forall>(k, v)\<in>set (dump_dnbd3 c) \<union> set (dump_limits c). value_ok v"
  using assms by (simp add: dump_dnbd3_def dump_limits_def)

lemma ini_lines_dump:
  assumes "cf_basePath c = Some p" "value_ok p"
  shows "ini_lines True [] [] (map (\<lambda>l. l @ [CHR 0x0A]) (dump_lines c)) = dump_entries c"
proof -
  have m: "map (\<lambda>l. l @ [CHR 0x0A]) (map (\<lambda>(k, v). k @ ''='' @ v) kvs) = map (\<lambda>(k, v). k @ CHR ''='' # v @ [CHR 0x0A]) kvs" for kvs :: "(string \<times> string) list"
    by auto
  have d: "\<forall>(k, v)\<in>set (dump_dnbd3 c). k \<noteq> [] \<and> (\<forall>x\<in>set k. name_char x) \<and> value_ok v"
    and l: "\<forall>(k, v)\<in>set (dump_limits c). k \<noteq> [] \<and> (\<forall>x\<in>set k. name_char x) \<and> value_ok v"
    using dump_names [of c] dump_values [OF assms] by auto
  have s1: "ini_lines f s p ((''[dnbd3]'' @ [CHR 0x0A]) # ls) = ini_lines False ''dnbd3'' [] ls"
    and s2: "ini_lines f s p ((''[limits]'' @ [CHR 0x0A]) # ls) = ini_lines False ''limits'' [] ls" for f s p ls
    using ini_lines_section [of "''dnbd3''" f s p ls] ini_lines_section [of "''limits''" f s p ls] by (simp_all add: isspace_def MAX_SECTION_def del: ini_lines.simps)
  obtain p1 where p1: "ini_lines False ''dnbd3'' [] (map (\<lambda>(k, v). k @ CHR ''='' # v @ [CHR 0x0A]) (dump_dnbd3 c) @ ls) = map (Pair ''dnbd3'') (dump_dnbd3 c) @ ini_lines False ''dnbd3'' (p1 ls) ls" for ls
    using ini_lines_pairs [OF d, of False "''dnbd3''" "[]"] by simp metis
  obtain p2 where p2: "ini_lines False ''limits'' [] (map (\<lambda>(k, v). k @ CHR ''='' # v @ [CHR 0x0A]) (dump_limits c) @ []) = map (Pair ''limits'') (dump_limits c) @ ini_lines False ''limits'' p2 []"
    using ini_lines_pairs [OF l, of False "''limits''" "[]" "[]"] by auto
  show ?thesis
    unfolding dump_lines_def dump_entries_def list.map map_append m s1 p1 s2 using p2 by simp
qed

lemma run_settings_skip: "\<forall>(ss, kk, st)\<in>set xs. \<not> (section = ss \<and> key = kk) \<Longrightarrow> run_settings xs section key v c = Inr c"
  by (induction xs) auto

lemma ini_load_dump:
  assumes "config_ok c" "cf_basePath c = Some p" "cf_basePath d = None"
  shows "ini_load openLog True (dump_entries c) d =
    Inr (c\<lparr>cf_fileMask := cf_fileMask d, cf_consoleMask := cf_consoleMask d, cf_consoleTimestamps := cf_consoleTimestamps d, cf_logFile := cf_logFile d\<rparr>)"
proof -
  have n: "parse32u (int_text v) = Inr (Some v)" if "v \<in> {cf_listenPort c, cf_serverPenalty c, cf_clientPenalty c, cf_uplinkTimeout c, cf_clientTimeout c,
      cf_maxClients c, cf_maxImages c, cf_maxPayload c}" for v
    using assms(1) that parse_int_text(1) by (auto simp only: config_ok_def)
  have i: "parse32 (int_text (cf_bgrMinClients c)) = Inr (Some (cf_bgrMinClients c))"
    and u: "parse64u (int_text (cf_maxReplicationSize c)) = Inr (Some (cf_maxReplicationSize c))"
    using assms(1) parse_int_text(2,3) by (simp_all only: config_ok_def)
  have b: "bool_text v \<noteq> ''hashblock''" for v by (simp add: bool_text_def)
  have r: "(if v = BGR_HASHBLOCK then BGR_HASHBLOCK else if v \<noteq> BGR_DISABLED then BGR_FULL else BGR_DISABLED) = v" for v by (cases v) auto
  show ?thesis
    using assms(2,3) r [of "cf_backgroundReplication c"] unfolding dump_entries_def dump_dnbd3_def dump_limits_def
    by (simp add: ini_handler_def initial_settings_def common_settings_def set_basePath_def set_replication_def set_logging_def save_number_def n i u b) (cases "cf_backgroundReplication c"; simp)
qed

lemma length_int_text: "- (10 ^ k) < v \<Longrightarrow> v < 10 ^ k \<Longrightarrow> 0 < k \<Longrightarrow> length (int_text v) \<le> Suc k"
  using length_dec [of "nat v" k] length_dec [of "nat (- v)" k] by (auto simp: int_text_def nat_less_iff)

lemma length_bool_text: "length (bool_text b) \<le> 5"
  by (simp add: bool_text_def)

lemma text_no_newline: "CHR 0x0A \<notin> set (int_text v)" "CHR 0x00 \<notin> set (int_text v)" "CHR 0x0A \<notin> set (bool_text b)" "CHR 0x00 \<notin> set (bool_text b)"
  using int_text_chars [of "CHR 0x0A" v] int_text_chars [of "CHR 0x00" v] by (auto simp: is_digit_def bool_text_def)

lemma dump_lines_ok:
  assumes "config_ok c" "cf_basePath c = Some p" "line_ok 180 p"
  shows "list_all (line_ok 199) (dump_lines c)"
proof -
  have n: "length (int_text v) \<le> 20" if "- (2 ^ 31) \<le> v" "v < 2 ^ 63" for v
    using length_int_text [of 19 v] that by simp
  have v: "length (int_text v) \<le> 20" if "v \<in> {cf_listenPort c, cf_serverPenalty c, cf_clientPenalty c, cf_uplinkTimeout c, cf_clientTimeout c,
      cf_maxClients c, cf_maxImages c, cf_maxPayload c, cf_bgrMinClients c, cf_maxReplicationSize c}" for v
  proof (rule n)
    have k: "- (2 ^ 31) \<le> w \<and> w < 2 ^ 63" if "0 \<le> w \<and> w < 2 ^ 31 \<or> - (2 ^ 31) \<le> w \<and> w < 2 ^ 31 \<or> 0 \<le> w \<and> w < 2 ^ 63" for w :: int using that by auto
    show "- (2 ^ 31) \<le> v" "v < 2 ^ 63" using assms(1) that k [of v] by (auto simp only: config_ok_def)
  qed
  show ?thesis
    using assms(2,3) unfolding dump_lines_def dump_dnbd3_def dump_limits_def
    by (simp add: line_ok_def text_no_newline v [THEN order_le_less_trans] length_bool_text [THEN order_le_less_trans])
qed

end
