(* ===== verification/Config_Load.thy ===== *)
theory Config_Load
  imports Config
begin

text \<open>
  Properties of the configuration: values stay in their ranges while a file is loaded, the checks after the first load, reloading, and reading back the printed form.
\<close>

section \<open>Values stay in their range\<close>

fun setting_ok :: "setting \<Rightarrow> bool" where
  "setting_ok (Set_bool f) \<longleftrightarrow> (\<forall>b c. config_ok c \<longrightarrow> config_ok (f b c))"
| "setting_ok (Set_int f) \<longleftrightarrow> (\<forall>v c. - (2 ^ 31) \<le> v \<longrightarrow> v < 2 ^ 31 \<longrightarrow> config_ok c \<longrightarrow> config_ok (f v c))"
| "setting_ok (Set_uint f) \<longleftrightarrow> (\<forall>v c. 0 \<le> v \<longrightarrow> v < 2 ^ 31 \<longrightarrow> config_ok c \<longrightarrow> config_ok (f v c))"
| "setting_ok (Set_uint64 f) \<longleftrightarrow> (\<forall>v c. 0 \<le> v \<longrightarrow> v < 2 ^ 63 \<longrightarrow> config_ok c \<longrightarrow> config_ok (f v c))"

lemma in_range_Some: "in_range lo hi r = Inr (Some v) \<Longrightarrow> lo \<le> v \<and> v \<le> hi"
  by (auto simp: in_range_def split: sum.splits option.splits if_splits)

lemma save_to_var_ok: "setting_ok st \<Longrightarrow> config_ok c \<Longrightarrow> save_to_var st v c = Inr c' \<Longrightarrow> config_ok c'"
  by (cases st) (auto simp: save_number_def parse32_def parse32u_def parse64u_def split: sum.splits option.splits dest!: in_range_Some)

lemma settings_ok: "\<forall>(ss, kk, st)\<in>set (initial_settings @ common_settings). setting_ok st"
  by (simp add: initial_settings_def common_settings_def config_ok_def)

lemma run_settings_ok:
  "\<forall>(ss, kk, st)\<in>set xs. setting_ok st \<Longrightarrow> config_ok c \<Longrightarrow> run_settings xs sec key v c = Inr c' \<Longrightarrow> config_ok c'"
proof (induction xs arbitrary: c)
  case (Cons x xs)
  obtain ss kk st where x: "x = (ss, kk, st)" by (cases x)
  obtain c1 where c1: "(if sec = ss \<and> key = kk then save_to_var st v c else Inr c) = Inr c1" "run_settings xs sec key v c1 = Inr c'"
    using Cons.prems(3) by (auto simp: x split: sum.splits)
  then have "config_ok c1" using Cons.prems(1,2) save_to_var_ok by (auto simp: x split: if_splits)
  then show ?case using Cons.IH [OF _ _ c1(2)] Cons.prems(1) by simp
qed simp

lemma set_parts_ok: "config_ok c \<Longrightarrow> config_ok (set_basePath sec key v c)" "config_ok c \<Longrightarrow> config_ok (set_replication sec key v c)"
  "config_ok c \<Longrightarrow> set_logging openLog sec key v c = Inr c' \<Longrightarrow> config_ok c'"
  by (auto simp: set_basePath_def set_replication_def set_logging_def config_ok_def split: if_splits)

lemma ini_handler_Inr:
  assumes "ini_handler openLog initialLoad (sec, key, v) c = Inr c'"
  obtains c1 c2 where "(if initialLoad then run_settings initial_settings sec key v (set_basePath sec key v c) else Inr c) = Inr c1"
    "run_settings common_settings sec key v c1 = Inr c2" "set_logging openLog sec key v (set_replication sec key v c2) = Inr c'"
  using assms by (auto simp: ini_handler_def split: sum.splits)

lemma ini_handler_ok: "config_ok c \<Longrightarrow> ini_handler openLog initialLoad x c = Inr c' \<Longrightarrow> config_ok c'"
proof (cases x)
  fix sec key v
  assume c: "config_ok c" and h: "ini_handler openLog initialLoad x c = Inr c'" and x: "x = (sec, key, v)"
  from h [unfolded x] obtain c1 c2 where i: "(if initialLoad then run_settings initial_settings sec key v (set_basePath sec key v c) else Inr c) = Inr c1"
    "run_settings common_settings sec key v c1 = Inr c2" "set_logging openLog sec key v (set_replication sec key v c2) = Inr c'" by (rule ini_handler_Inr)
  have s: "\<forall>(ss, kk, st)\<in>set initial_settings. setting_ok st" "\<forall>(ss, kk, st)\<in>set common_settings. setting_ok st"
    using settings_ok by simp_all
  have "config_ok c1"
  proof (cases initialLoad)
    case True
    then show ?thesis using run_settings_ok [OF s(1) set_parts_ok(1) [OF c]] i(1) by simp
  next
    case False
    then show ?thesis using i(1) c by simp
  qed
  then have "config_ok c2" using run_settings_ok [OF s(2) _ i(2)] by simp
  then show ?thesis using i(3) set_parts_ok(2,3) by blast
qed

lemma ini_load_ok: "config_ok c \<Longrightarrow> ini_load openLog initialLoad xs c = Inr c' \<Longrightarrow> config_ok c'"
  by (induction xs arbitrary: c) (auto split: sum.splits dest: ini_handler_ok)

section \<open>Lowering the limits\<close>

lemma lower_step:
  fixes m :: int
  assumes "1 \<le> m"
  shows "0 \<le> m - (m div 20 + 1)" "m - (m div 20 + 1) < m" "0 \<le> m - (m div 25 + 1)" "m - (m div 25 + 1) \<le> m"
  using assms by presburger+

text \<open>The limits only go down, nothing else changes.\<close>

definition lowered :: "config \<Rightarrow> config \<Rightarrow> bool" where
  "lowered c c' \<longleftrightarrow> 0 \<le> cf_maxClients c' \<and> cf_maxClients c' \<le> cf_maxClients c \<and> 0 \<le> cf_maxImages c' \<and> cf_maxImages c' \<le> cf_maxImages c
     \<and> c' = c\<lparr>cf_maxClients := cf_maxClients c', cf_maxImages := cf_maxImages c'\<rparr>"

lemma lowered_trans: "lowered a b \<Longrightarrow> lowered b c \<Longrightarrow> lowered a c"
  by (cases a; cases b; cases c) (simp add: lowered_def)

lemma lower_limits_spec:
  assumes "0 \<le> cf_maxClients c" "0 \<le> cf_maxImages c"
  shows "lowered c (lower_limits current c) \<and> (required_files (lower_limits current c) \<le> int current \<or> cf_maxImages (lower_limits current c) \<le> 100)"
  using assms
proof (induction "nat (cf_maxImages c)" arbitrary: c rule: less_induct)
  case less
  let ?n = "cf_maxImages c - (cf_maxImages c div 20 + 1)"
  let ?a = "c\<lparr>cf_maxImages := ?n, cf_maxClients := cf_maxClients c - (cf_maxClients c div 20 + 1)\<rparr>"
  let ?b = "c\<lparr>cf_maxImages := ?n, cf_maxClients := if cf_maxClients c > 200 then cf_maxClients c - (cf_maxClients c div 25 + 1) else cf_maxClients c\<rparr>"
  have step: ?case if e: "lower_limits current c = (if required_files d > int current then lower_limits current d else d)"
    and l: "lowered c d" and m: "cf_maxImages d < cf_maxImages c" for d
  proof (cases "required_files d > int current")
    case True
    have "0 \<le> cf_maxClients d" "0 \<le> cf_maxImages d" "nat (cf_maxImages d) < nat (cf_maxImages c)" using l m less.prems by (simp_all add: lowered_def)
    then show ?thesis using less.hyps [of d] True e lowered_trans [OF l] by simp
  next
    case False
    then show ?thesis using e l by simp
  qed
  consider (a) "cf_maxClients c > 500 \<and> cf_maxImages c > 150" | (b) "\<not> (cf_maxClients c > 500 \<and> cf_maxImages c > 150)" "cf_maxImages c > 100"
    | (c) "\<not> cf_maxImages c > 100" by linarith
  then show ?case
  proof cases
    case a
    then have "lowered c ?a" using lower_step [of "cf_maxImages c"] lower_step [of "cf_maxClients c"] by (simp add: lowered_def)
    moreover have "cf_maxImages ?a < cf_maxImages c" using a lower_step(2) [of "cf_maxImages c"] by simp
    moreover have "lower_limits current c = (if required_files ?a > int current then lower_limits current ?a else ?a)"
      using a by (subst lower_limits.simps) (simp add: Let_def)
    ultimately show ?thesis using step by blast
  next
    case b
    then have "lowered c ?b" using less.prems lower_step [of "cf_maxImages c"] lower_step [of "cf_maxClients c"] by (simp add: lowered_def)
    moreover have "cf_maxImages ?b < cf_maxImages c" using b lower_step(2) [of "cf_maxImages c"] by simp
    moreover have "lower_limits current c = (if required_files ?b > int current then lower_limits current ?b else ?b)"
      by (subst lower_limits.simps) (simp only: b Let_def if_True if_False)
    ultimately show ?thesis using step by blast
  next
    case c
    have "\<not> (cf_maxClients c > 500 \<and> cf_maxImages c > 150)" using c by simp
    then have "lower_limits current c = c" by (subst lower_limits.simps) (simp only: c if_False)
    then show ?thesis using c less.prems by (simp add: lowered_def)
  qed
qed

section \<open>Loading\<close>

lemma required_files_ge: "0 \<le> cf_maxImages c \<Longrightarrow> cf_maxClients c + 50 \<le> required_files c"
  by (simp add: required_files_def)

lemma consider_rlimits_lowered: "0 \<le> cf_maxClients c \<Longrightarrow> 0 \<le> cf_maxImages c \<Longrightarrow> lowered c (consider_rlimits env c)"
proof -
  assume "0 \<le> cf_maxClients c" "0 \<le> cf_maxImages c"
  then have "lowered c c" "lowered c (lower_limits n c)" for n using lower_limits_spec by (simp_all add: lowered_def)
  then show ?thesis by (auto simp: consider_rlimits_def Let_def split: option.splits if_splits)
qed

lemma lowered_fields: "lowered c c' \<Longrightarrow> cf_listenPort c' = cf_listenPort c \<and> cf_basePath c' = cf_basePath c"
  by (cases c; cases c') (simp add: lowered_def)

text \<open>The base path after the check.\<close>

lemma sanitize_basePath_spec:
  assumes "sanitize_basePath p = Some q"
  shows "q = [] \<or> q ! 0 = CHR ''/'' \<and> last q \<noteq> CHR ''/''"
proof -
  obtain s where s: "p = Some s" "s \<noteq> []" "hd s = CHR ''/''" "q = remove_trailing_slash s"
    using assms by (auto simp: sanitize_basePath_def split: option.splits if_splits)
  obtain t where t: "s = q @ t" "q = [] \<or> last q \<noteq> CHR ''/''"
    using strip_end_spec [where s = s and P = "\<lambda>c. c = CHR ''/''"] s(4) unfolding remove_trailing_slash_def by blast
  then show ?thesis using s(2,3) by (cases q) auto
qed

lemma sanitize_ok:
  assumes "config_ok c" "sanitizeFixedConfig env c = Inr c'"
  shows "1 \<le> cf_listenPort c' \<and> cf_listenPort c' \<le> 65535 \<and> 0 \<le> cf_maxClients c' \<and> cf_maxClients c' \<le> SERVER_MAX_CLIENTS
    \<and> 0 \<le> cf_maxImages c' \<and> cf_maxImages c' \<le> SERVER_MAX_IMAGES \<and> cf_basePath c' = sanitize_basePath (cf_basePath c)"
proof -
  let ?d = "c\<lparr>cf_basePath := sanitize_basePath (cf_basePath c), cf_maxClients := min (cf_maxClients c) SERVER_MAX_CLIENTS, cf_maxImages := min (cf_maxImages c) SERVER_MAX_IMAGES\<rparr>"
  have c': "c' = consider_rlimits env ?d" and p: "1 \<le> cf_listenPort c" "cf_listenPort c \<le> 65535"
    using assms(2) by (auto simp: sanitizeFixedConfig_def Let_def split: if_splits)
  have "0 \<le> cf_maxClients ?d" "0 \<le> cf_maxImages ?d" using assms(1) by (simp_all add: config_ok_def SERVER_MAX_CLIENTS_def SERVER_MAX_IMAGES_def)
  then have l: "lowered ?d c'" unfolding c' by (rule consider_rlimits_lowered)
  then show ?thesis using lowered_fields [OF l] p by (simp add: lowered_def)
qed

lemma default_config_ok: "config_ok (default_config fm cm)"
  by (simp add: config_ok_def default_config_def SERVER_MAX_CLIENTS_def SERVER_MAX_IMAGES_def)

lemma check_sparse_fields:
  "cf_listenPort (check_sparse c) = cf_listenPort c" "cf_basePath (check_sparse c) = cf_basePath c" "cf_maxClients (check_sparse c) = cf_maxClients c"
  "cf_maxImages (check_sparse c) = cf_maxImages c" "cf_vmdkLegacyMode (check_sparse c) = cf_vmdkLegacyMode c"
  "cf_backgroundReplication (check_sparse c) = cf_backgroundReplication c" "cf_bgrMinClients (check_sparse c) = cf_bgrMinClients c"
  by (simp_all add: check_sparse_def)

text \<open>Settings that only the first load may change.\<close>

definition fixed_part :: "config \<Rightarrow> int \<times> string option \<times> bool \<times> int \<times> int" where
  "fixed_part c = (cf_listenPort c, cf_basePath c, cf_vmdkLegacyMode c, cf_maxClients c, cf_maxImages c)"

fun setting_keeps :: "setting \<Rightarrow> bool" where
  "setting_keeps (Set_bool f) \<longleftrightarrow> (\<forall>v c. fixed_part (f v c) = fixed_part c)"
| "setting_keeps (Set_int f) \<longleftrightarrow> (\<forall>v c. fixed_part (f v c) = fixed_part c)"
| "setting_keeps (Set_uint f) \<longleftrightarrow> (\<forall>v c. fixed_part (f v c) = fixed_part c)"
| "setting_keeps (Set_uint64 f) \<longleftrightarrow> (\<forall>v c. fixed_part (f v c) = fixed_part c)"

lemma save_to_var_keeps: "setting_keeps st \<Longrightarrow> save_to_var st v c = Inr c' \<Longrightarrow> fixed_part c' = fixed_part c"
  by (cases st) (auto simp: save_number_def split: sum.splits option.splits)

lemma run_settings_keeps:
  "\<forall>(ss, kk, st)\<in>set xs. setting_keeps st \<Longrightarrow> run_settings xs sec key v c = Inr c' \<Longrightarrow> fixed_part c' = fixed_part c"
proof (induction xs arbitrary: c)
  case (Cons x xs)
  obtain ss kk st where x: "x = (ss, kk, st)" by (cases x)
  obtain c1 where c1: "(if sec = ss \<and> key = kk then save_to_var st v c else Inr c) = Inr c1" "run_settings xs sec key v c1 = Inr c'"
    using Cons.prems(2) by (auto simp: x split: sum.splits)
  then have "fixed_part c1 = fixed_part c" using Cons.prems(1) save_to_var_keeps by (auto simp: x split: if_splits)
  then show ?case using Cons.IH [OF _ c1(2)] Cons.prems(1) by simp
qed simp

lemma ini_handler_keeps: "ini_handler openLog False x c = Inr c' \<Longrightarrow> fixed_part c' = fixed_part c"
proof (cases x)
  fix sec key v
  assume h: "ini_handler openLog False x c = Inr c'" and x: "x = (sec, key, v)"
  from h [unfolded x] obtain c1 c2 where i: "(if False then run_settings initial_settings sec key v (set_basePath sec key v c) else Inr c) = Inr c1"
    "run_settings common_settings sec key v c1 = Inr c2" "set_logging openLog sec key v (set_replication sec key v c2) = Inr c'" by (rule ini_handler_Inr)
  have "\<forall>(ss, kk, st)\<in>set common_settings. setting_keeps st" by (simp add: common_settings_def fixed_part_def)
  from run_settings_keeps [OF this i(2)] show ?thesis
    using i(1,3) by (auto simp: set_logging_def set_replication_def fixed_part_def split: if_splits)
qed

lemma ini_load_keeps: "ini_load openLog False xs c = Inr c' \<Longrightarrow> fixed_part c' = fixed_part c"
  by (induction xs arbitrary: c) (auto split: sum.splits dest: ini_handler_keeps)

section \<open>Properties\<close>

text \<open>C34. The printed configuration is a configuration file: reading it back, with the first load, restores every setting of both sections, whatever the values
  are. Only the settings of the log, which are not printed, stay as they were. The values are in their ranges, the base path fits into a line and has no
  characters that end a line or begin a comment, and the buffer is large enough for the text.\<close>

theorem config_roundtrip:
  assumes "config_ok c" "cf_basePath c = Some p" "line_ok 180 p" "value_ok p" "cf_basePath d = None"
    "length (concat (map (\<lambda>l. l @ [CHR 0x0A]) (dump_lines c))) < buflen"
  shows "ini_load openLog True (ini_parse (Some (globals_dumpConfig buflen c))) d =
    Inr (c\<lparr>cf_fileMask := cf_fileMask d, cf_consoleMask := cf_consoleMask d, cf_consoleTimestamps := cf_consoleTimestamps d, cf_logFile := cf_logFile d\<rparr>)"
proof -
  have "ini_parse (Some (globals_dumpConfig buflen c)) = dump_entries c"
    using fgets_lines_map [OF dump_lines_ok [OF assms(1-3)]] ini_lines_dump [OF assms(2,4)] print_args_all [OF assms(6)]
    by (simp add: ini_parse_def globals_dumpConfig_def INI_MAX_LINE_def)
  then show ?thesis using ini_load_dump [OF assms(1,2,5)] by simp
qed

definition sample_config :: config where
  "sample_config = (default_config 31 15)\<lparr>cf_basePath := Some ''/mnt/storage'', cf_isProxy := True, cf_bgrMinClients := - 1\<rparr>"

lemma sample_config_lines: "length (concat (map (\<lambda>l. l @ [CHR 0x0A]) (dump_lines sample_config))) < 2000"
  by (simp add: dump_lines_def dump_dnbd3_def dump_limits_def sample_config_def default_config_def int_text_def bool_text_def dec.simps SERVER_MAX_CLIENTS_def SERVER_MAX_IMAGES_def)

theorem config_roundtrip_witness:
  "ini_load (\<lambda>_. True) True (ini_parse (Some (globals_dumpConfig 2000 sample_config))) (default_config 31 15) = Inr sample_config"
proof -
  have "config_ok sample_config" "line_ok 180 ''/mnt/storage''" "value_ok ''/mnt/storage''" "cf_basePath sample_config = Some ''/mnt/storage''"
    by (simp_all add: sample_config_def default_config_def config_ok_def line_ok_def value_ok_def isspace_def SERVER_MAX_CLIENTS_def SERVER_MAX_IMAGES_def)
  then show ?thesis
    using config_roundtrip [of sample_config "''/mnt/storage''" "default_config 31 15" 2000 "\<lambda>_. True"] sample_config_lines
    by (simp add: sample_config_def default_config_def)
qed

text \<open>C35. Whatever the file says, after the first load the port is a port, the limits on clients and images lie between zero and the compiled-in maxima, a base path is empty or
  absolute and without a slash at its end, and sparse files are not combined with full background replication for few clients.\<close>

theorem config_load_safe:
  assumes "globals_loadConfig openLog env False file (True, default_config fm cm) = Inr (i, c)"
  shows "\<not> i \<and> 1 \<le> cf_listenPort c \<and> cf_listenPort c \<le> 65535 \<and> 0 \<le> cf_maxClients c \<and> cf_maxClients c \<le> SERVER_MAX_CLIENTS
    \<and> 0 \<le> cf_maxImages c \<and> cf_maxImages c \<le> SERVER_MAX_IMAGES
    \<and> (\<forall>p. cf_basePath c = Some p \<longrightarrow> p = [] \<or> p ! 0 = CHR ''/'' \<and> last p \<noteq> CHR ''/'')
    \<and> \<not> (cf_backgroundReplication c = BGR_FULL \<and> cf_sparseFiles c \<and> cf_bgrMinClients c < 5)"
proof -
  obtain c1 c2 where l: "ini_load openLog True (ini_parse file) (default_config fm cm) = Inr c1" "sanitizeFixedConfig env c1 = Inr c2"
      "c = check_sparse c2" "\<not> i"
    using assms by (auto simp: globals_loadConfig_def split: sum.splits)
  have "\<not> (cf_backgroundReplication c = BGR_FULL \<and> cf_sparseFiles c \<and> cf_bgrMinClients c < 5)" by (simp add: l(3) check_sparse_def)
  then show ?thesis using sanitize_ok [OF ini_load_ok [OF default_config_ok l(1)] l(2)] l(4) sanitize_basePath_spec
    by (auto simp: l(3) check_sparse_fields)
qed

theorem config_load_safe_witness:
  "\<exists>c. globals_loadConfig (\<lambda>_. True) \<lparr>rl_get = Some (Some 1024, Some 4096), rl_set = True\<rparr> False None (True, default_config 0 0) = Inr (False, c)
    \<and> cf_maxImages c \<le> SERVER_MAX_IMAGES"
proof -
  obtain c where c: "globals_loadConfig (\<lambda>_. True) \<lparr>rl_get = Some (Some 1024, Some 4096), rl_set = True\<rparr> False None (True, default_config 0 0) = Inr (False, c)"
    by (auto simp: globals_loadConfig_def ini_parse_def sanitizeFixedConfig_def default_config_def Let_def)
  then show ?thesis using config_load_safe [OF c] by blast
qed

text \<open>A reload at runtime changes none of the settings that are fixed after the start: port, base path, legacy mode, and the limits on clients and images, by which
  the tables of the server were sized.\<close>

theorem config_reload_keeps_fixed:
  assumes "globals_loadConfig openLog env busy file (False, c) = Inr (i, c')"
  shows "fixed_part c' = fixed_part c \<and> \<not> i"
  using assms ini_load_keeps [of openLog "ini_parse file" c]
  by (auto simp: globals_loadConfig_def fixed_part_def check_sparse_fields split: sum.splits if_splits)

theorem config_reload_keeps_fixed_witness:
  "\<exists>c'. globals_loadConfig (\<lambda>_. True) \<lparr>rl_get = None, rl_set = True\<rparr> False (Some ''[dnbd3]'') (False, sample_config) = Inr (False, c') \<and> fixed_part c' = fixed_part sample_config"
proof -
  obtain i c' where c: "globals_loadConfig (\<lambda>_. True) \<lparr>rl_get = None, rl_set = True\<rparr> False (Some ''[dnbd3]'') (False, sample_config) = Inr (i, c')"
    by (auto simp: globals_loadConfig_def ini_parse_def INI_MAX_LINE_def fgets_lines.simps rstrip_def lskip_def isspace_def char_at_def Let_def)
  then show ?thesis using config_reload_keeps_fixed [OF c] by (cases i) auto
qed

text \<open>Lowering the limits ends, and what it leaves fits into the number of files that the process may open, or the limit on images is down to a hundred.\<close>

theorem config_limits_lowered:
  assumes "0 \<le> cf_maxClients c" "0 \<le> cf_maxImages c"
  shows "cf_maxClients (lower_limits n c) \<le> cf_maxClients c \<and> cf_maxImages (lower_limits n c) \<le> cf_maxImages c
    \<and> (cf_maxClients (lower_limits n c) + cf_maxImages (lower_limits n c) * (if cf_isProxy (lower_limits n c) then 2 else 1) + 50 \<le> int n
       \<or> cf_maxImages (lower_limits n c) \<le> 100)"
  using lower_limits_spec [OF assms, of n] unfolding lowered_def required_files_def by blast

theorem config_limits_lowered_witness:
  "cf_maxImages (lower_limits 1024 sample_config) \<le> 5000"
  using config_limits_lowered [of sample_config 1024] by (simp add: sample_config_def default_config_def SERVER_MAX_CLIENTS_def SERVER_MAX_IMAGES_def)

text \<open>A size with a unit is the number times the power of 1024, or of 1000 when a \<open>B\<close> follows, as long as it fits into 64 bits; otherwise the multiplication overflows.\<close>

theorem size_with_unit:
  assumes "n < 2 ^ 63" "i < length units" "t = [] \<or> t = ''B''"
  shows "parse64 (dec n @ units ! i # t) =
    (if int n * (if t = [] then 1024 else 1000) ^ Suc i < 2 ^ 63 then Inr (Some (int n * (if t = [] then 1024 else 1000) ^ Suc i)) else Inl Int_overflow)"
proof -
  let ?b = "if t = [] then 1024 else 1000 :: int"
  have sc: "scale k ?b v = (if v * ?b ^ k < 2 ^ 63 then Inr (v * ?b ^ k) else Inl Int_overflow)" if "0 \<le> v" "v < 2 ^ 63" for k v
    using that
  proof (induction k arbitrary: v)
    case (Suc k)
    have "v * ?b \<le> v * ?b * ?b ^ k" using Suc.prems(1) by (simp add: mult_le_cancel_left1 one_le_power)
    then show ?case using Suc by (auto simp: mult.assoc)
  qed auto
  have "units ! i \<in> {CHR ''K'', CHR ''M'', CHR ''G'', CHR ''T'', CHR ''P'', CHR ''E'', CHR ''Z'', CHR ''Y''} \<and> unit_of (units ! i) = Some (Suc i)"
  proof -
    have "i \<in> {0, 1, 2, 3, 4, 5, 6, 7}" using assms(2) by (auto simp: units_def)
    then show ?thesis by (auto simp: units_def unit_of_def)
  qed
  then have u: "\<not> is_digit (units ! i)" "units ! i \<noteq> CHR '' ''" "unit_of (units ! i) = Some (Suc i)" by (auto simp: is_digit_def)
  have s: "strtoll (dec n @ units ! i # t) = (int n, units ! i # t)" using strtoll_dec [OF assms(1)] u(1) by simp
  have "units ! i # t \<noteq> dec n @ units ! i # t" using dec_digits(2) [of n] by (metis append_eq_Cons_conv append_self_conv2)
  then show ?thesis using s u assms(1,3) sc [of "int n" "Suc i"] dec_digits(2) [of n] by (auto simp: parse64_def Let_def simp del: scale.simps)
qed

theorem size_with_unit_witness: "parse64 (dec 9 @ units ! 1 # []) = Inr (Some 9437184)"
  using size_with_unit [of 9 1 "[]"] by (simp add: units_def)

text \<open>The example of the documentation, which adds a comment behind a value with \<open>#\<close>, turns the setting off: only \<open>;\<close> begins a comment in a line, so the value is
  not \<open>true\<close>.\<close>

theorem readme_comment_disables_proxy:
  "\<exists>c'. ini_load openLog True (ini_parse (Some (''[dnbd3]'' @ [CHR 0x0A] @ ''isProxy=true # enable proxy mode'' @ [CHR 0x0A]))) c = Inr c' \<and> \<not> cf_isProxy c'"
proof -
  let ?v = "''true # enable proxy mode''"
  have f: "fgets_lines 199 (''[dnbd3]'' @ [CHR 0x0A] @ ''isProxy=true # enable proxy mode'' @ [CHR 0x0A]) = map (\<lambda>l. l @ [CHR 0x0A]) [''[dnbd3]'', ''isProxy=true # enable proxy mode'']"
    using fgets_lines_map [of 199 "[''[dnbd3]'', ''isProxy=true # enable proxy mode'']"] by (simp add: line_ok_def)
  have v: "value_ok ?v" by (simp add: value_ok_def isspace_def)
  have "ini_lines True [] [] (map (\<lambda>l. l @ [CHR 0x0A]) [''[dnbd3]'', ''isProxy=true # enable proxy mode'']) = [(''dnbd3'', ''isProxy'', ?v)]"
    using ini_lines_section [of "''dnbd3''" True "[]" "[]" "[''isProxy=true # enable proxy mode'' @ [CHR 0x0A]]"] ini_lines_pair [of "''isProxy''" ?v False "''dnbd3''" "[]" "[]"] v
    by (simp add: isspace_def name_char_def MAX_SECTION_def del: ini_lines.simps(2))
  then have "ini_parse (Some (''[dnbd3]'' @ [CHR 0x0A] @ ''isProxy=true # enable proxy mode'' @ [CHR 0x0A])) = [(''dnbd3'', ''isProxy'', ?v)]"
    using f by (simp add: ini_parse_def INI_MAX_LINE_def del: ini_lines.simps(2))
  moreover have "\<not> IS_TRUE ?v" by (simp add: IS_TRUE_def atoi_text_def strtoll_def Let_def isspace_def is_digit_def)
  ultimately show ?thesis
    by (simp add: ini_handler_def initial_settings_def common_settings_def set_basePath_def set_replication_def set_logging_def)
qed

end
