(* ===== verification/Rpc_Acl.thy ===== *)
theory Rpc_Acl
  imports Text_Util "HOL-Library.Signed_Division"
begin

text \<open>
  The access rules of the status interface, from \<open>src/server/rpc.c\<close>: \<open>addacl\<close> reads a line of the file \<open>rpc.acl\<close>, \<open>getacl\<close> finds the permissions of a host.
  A rule is an address with a number of whole bytes to compare and a mask for the byte behind them. \<open>None\<close> is an access outside of the address.
\<close>

section \<open>Rules\<close>

definition ACL_ALL :: u32 where "ACL_ALL = 0x7fffffff"
definition ACL_STATS :: u32 where "ACL_STATS = 1"
definition ACL_CLIENT_LIST :: u32 where "ACL_CLIENT_LIST = 2"
definition ACL_IMAGE_LIST :: u32 where "ACL_IMAGE_LIST = 4"
definition ACL_CONFIG :: u32 where "ACL_CONFIG = 8"
definition ACL_LOG :: u32 where "ACL_LOG = 16"
definition ACL_ALTSERVERS :: u32 where "ACL_ALTSERVERS = 32"
definition MAX_ACLS :: nat where "MAX_ACLS = 100"

record access_rule =
  ar_host :: "u8 list"
  ar_bytes :: int
  ar_bitMask :: u32
  ar_permissions :: u32

text \<open>\<open>memcmp\<close> with a negative length compares far behind the addresses.\<close>

fun getacl_loop :: "access_rule list \<Rightarrow> u8 list \<Rightarrow> u32 option" where
  "getacl_loop [] a = Some 0"
| "getacl_loop (r # rs) a =
    (if ar_bytes r = 0 \<and> ar_bitMask r = 0 then Some (ar_permissions r)
     else if ar_bytes r < 0 \<or> ar_bytes r > 16 then None
     else if take (nat (ar_bytes r)) (ar_host r) \<noteq> take (nat (ar_bytes r)) a then getacl_loop rs a
     else if ar_bitMask r \<noteq> 0 \<and> ar_bytes r > 15 then None
     else if ar_bitMask r \<noteq> 0 \<and> ucast (ar_host r ! nat (ar_bytes r)) \<noteq> (ucast (a ! nat (ar_bytes r)) AND ar_bitMask r) then getacl_loop rs a
     else Some (ar_permissions r))"

definition getacl :: "access_rule list \<Rightarrow> dnbd3_host \<Rightarrow> u32 option" where
  "getacl rules host = (if rules = [] then Some 0x7fffff else getacl_loop rules (addr host))"

section \<open>Reading rules\<close>

definition acl_flag :: "string \<Rightarrow> u32" where
  "acl_flag s = (if s = ''ALL'' then ACL_ALL else if s = ''STATS'' then ACL_STATS else if s = ''CLIENT_LIST'' then ACL_CLIENT_LIST
     else if s = ''IMAGE_LIST'' then ACL_IMAGE_LIST else 0)"

definition acl_mask :: "string list \<Rightarrow> u32" where
  "acl_mask args = foldl (\<lambda>m s. m OR acl_flag s) 0 args"

text \<open>The loop that sets the bits of the mask.\<close>

fun mask_loop :: "nat \<Rightarrow> u32 \<Rightarrow> u32" where
  "mask_loop 0 m = m"
| "mask_loop (Suc n) m = mask_loop n (drop_bit 1 m OR 0x80)"

text \<open>The number of bits of the prefix: \<open>slash\<close> is the text behind the slash.\<close>

definition prefix_bits :: "u8 \<Rightarrow> string option \<Rightarrow> int" where
  "prefix_bits t slash =
    (case slash of
       Some s \<Rightarrow>
         if snd (strtoll s) = s then (if t = HOST_IP4 then 32 else 128)
         else let bits = fst (strtoll s);
                  bits = (if t = HOST_IP4 \<and> bits > 32 then 32 else bits)
              in if bits > 128 then 128 else bits
     | None \<Rightarrow> if t = HOST_IP4 then 32 else 128)"

definition make_rule :: "u8 list \<Rightarrow> int \<Rightarrow> u32 \<Rightarrow> access_rule option" where
  "make_rule a bits permissions =
    (let bytes = bits sdiv 8; bits = bits smod 8;
         m = (if bits \<noteq> 0 then mask_loop (nat bits) 0 else 0)
     in if bits \<noteq> 0 \<and> (bytes < 0 \<or> bytes > 15) then None
        else Some \<lparr>ar_host = (if bits \<noteq> 0 then a[nat bytes := a ! nat bytes AND ucast m] else a),
          ar_bytes = bytes, ar_bitMask = m, ar_permissions = permissions\<rparr>)"

text \<open>The arguments of a line; \<open>parse\<close> is \<open>parse_address\<close>.\<close>

definition addacl :: "(string \<Rightarrow> dnbd3_host option) \<Rightarrow> string list \<Rightarrow> access_rule list \<Rightarrow> access_rule list option" where
  "addacl parse args rules =
    (let arg = args ! 0; m = acl_mask (tl args);
         front = takeWhile (\<lambda>c. c \<noteq> CHR ''/'') arg;
         slash = (if CHR ''/'' \<in> set arg then Some (drop (length front + 1) arg) else None)
     in if arg \<noteq> [] \<and> hd arg = CHR ''#'' then Some rules
        else if length rules \<ge> MAX_ACLS then Some rules
        else if m = 0 then Some rules
        else case parse front of
          None \<Rightarrow> Some rules
        | Some host \<Rightarrow> map_option (\<lambda>r. rules @ [r]) (make_rule (addr host) (prefix_bits (host_type host) slash) m))"

fun add_rules :: "(string \<Rightarrow> dnbd3_host option) \<Rightarrow> string list list \<Rightarrow> access_rule list \<Rightarrow> access_rule list option" where
  "add_rules parse [] rules = Some rules"
| "add_rules parse (args # rest) rules = Option.bind (addacl parse args rules) (add_rules parse rest)"

definition loadAcl :: "(string \<Rightarrow> dnbd3_host option) \<Rightarrow> bool \<Rightarrow> string option \<Rightarrow> access_rule list \<Rightarrow> access_rule list option" where
  "loadAcl parse inProgress file rules =
    (if inProgress then Some rules
     else case file_loadLineBased 1 20 file of None \<Rightarrow> Some [] | Some lines \<Rightarrow> add_rules parse lines [])"

section \<open>What a rule means\<close>

text \<open>The bits of an address, the most significant one first.\<close>

definition addr_bit :: "u8 list \<Rightarrow> nat \<Rightarrow> bool" where
  "addr_bit a i = bit (a ! (i div 8)) (7 - i mod 8)"

definition same_prefix :: "nat \<Rightarrow> u8 list \<Rightarrow> u8 list \<Rightarrow> bool" where
  "same_prefix n a b \<longleftrightarrow> (\<forall>i<n. addr_bit a i = addr_bit b i)"

lemma mask_loop_numeral [simp]: "mask_loop (numeral k) m = mask_loop (pred_numeral k) (drop_bit 1 m OR 0x80)"
  by (simp only: numeral_eq_Suc [of k] mask_loop.simps)

lemma mask_values: "mask_loop 1 0 = 0x80" "mask_loop 2 0 = 0xC0" "mask_loop 3 0 = 0xE0" "mask_loop 4 0 = 0xF0" "mask_loop 5 0 = 0xF8" "mask_loop 6 0 = 0xFC"
  "mask_loop 7 0 = 0xFE"
  by simp_all

lemma mask_bits: "0 < r \<Longrightarrow> r < 8 \<Longrightarrow> n < 8 \<Longrightarrow> bit (mask_loop r 0) n \<longleftrightarrow> 8 - r \<le> n" and mask_bits_high: "r < 8 \<Longrightarrow> 8 \<le> n \<Longrightarrow> \<not> bit (mask_loop r 0) n"
  and mask_nonzero: "0 < r \<Longrightarrow> r < 8 \<Longrightarrow> mask_loop r 0 \<noteq> 0"
proof -
  have r: "r \<in> {1, 2, 3, 4, 5, 6, 7}" if "0 < r" "r < 8" using that by auto
  have n: "n \<in> {0, 1, 2, 3, 4, 5, 6, 7}" if "n < 8" using that by auto
  show "0 < r \<Longrightarrow> r < 8 \<Longrightarrow> mask_loop r 0 \<noteq> 0" using r by (auto simp: mask_values simp del: mask_loop_numeral)
  show "0 < r \<Longrightarrow> r < 8 \<Longrightarrow> n < 8 \<Longrightarrow> bit (mask_loop r 0) n \<longleftrightarrow> 8 - r \<le> n"
    using r n by (auto simp: mask_values simp del: mask_loop_numeral)
  have "take_bit 8 (mask_loop r 0) = mask_loop r 0" if "r < 8"
    using r that by (cases "r = 0") (auto simp: mask_values simp del: mask_loop_numeral)
  then show "r < 8 \<Longrightarrow> 8 \<le> n \<Longrightarrow> \<not> bit (mask_loop r 0) n" by (metis bit_take_bit_iff leD)
qed

text \<open>The comparison of the byte behind the whole ones.\<close>

lemma masked_byte:
  fixes x y :: u8
  assumes "0 < r" "r < 8"
  shows "(ucast (x AND ucast (mask_loop r 0)) :: u32) = (ucast y AND mask_loop r 0) \<longleftrightarrow> (\<forall>j<r. bit x (7 - j) = bit y (7 - j))"
proof -
  have "(ucast (x AND ucast (mask_loop r 0)) :: u32) = (ucast y AND mask_loop r 0) \<longleftrightarrow> (\<forall>n<8. 8 - r \<le> n \<longrightarrow> bit x n = bit y n)"
  proof -
    have l: "bit z n \<Longrightarrow> n < 8" for z :: u8 and n using bit_imp_le_length by fastforce
    have l': "bit z n \<Longrightarrow> n < 32" for z :: u8 and n using l [of z n] by simp
    have e: "bit (ucast (x AND ucast (mask_loop r 0)) :: u32) n \<longleftrightarrow> n < 8 \<and> bit (mask_loop r 0) n \<and> bit x n"
      "bit (ucast y AND mask_loop r 0) n \<longleftrightarrow> n < 8 \<and> bit (mask_loop r 0) n \<and> bit y n" for n
      using l l' by (auto simp: bit_simps)
    have "(ucast (x AND ucast (mask_loop r 0)) :: u32) = (ucast y AND mask_loop r 0) \<longleftrightarrow>
        (\<forall>n. n < 8 \<longrightarrow> bit (mask_loop r 0) n \<longrightarrow> bit x n = bit y n)"
    proof
      assume "(ucast (x AND ucast (mask_loop r 0)) :: u32) = (ucast y AND mask_loop r 0)"
      then have "bit (ucast (x AND ucast (mask_loop r 0)) :: u32) n = bit (ucast y AND mask_loop r 0) n" for n by simp
      then show "\<forall>n. n < 8 \<longrightarrow> bit (mask_loop r 0) n \<longrightarrow> bit x n = bit y n" unfolding e by blast
    next
      assume "\<forall>n. n < 8 \<longrightarrow> bit (mask_loop r 0) n \<longrightarrow> bit x n = bit y n"
      then show "(ucast (x AND ucast (mask_loop r 0)) :: u32) = (ucast y AND mask_loop r 0)"
        by (intro bit_word_eqI) (use e in blast)
    qed
    then show ?thesis using mask_bits [OF assms] by blast
  qed
  also have "\<dots> \<longleftrightarrow> (\<forall>j<r. bit x (7 - j) = bit y (7 - j))"
  proof
    assume a: "\<forall>n<8. 8 - r \<le> n \<longrightarrow> bit x n = bit y n"
    show "\<forall>j<r. bit x (7 - j) = bit y (7 - j)" using a assms by auto
  next
    assume a: "\<forall>j<r. bit x (7 - j) = bit y (7 - j)"
    show "\<forall>n<8. 8 - r \<le> n \<longrightarrow> bit x n = bit y n"
    proof (intro allI impI)
      fix n :: nat
      assume "n < 8" "8 - r \<le> n"
      then show "bit x n = bit y n" using a [rule_format, of "7 - n"] assms by (simp add: diff_diff_cancel)
    qed
  qed
  finally show ?thesis .
qed

lemma bytes_bits: "take k a = take k b \<longleftrightarrow> (\<forall>i<8 * k. addr_bit a i = addr_bit b i)" if "k \<le> length a" "length a = length b"
proof -
  have "take k a = take k b \<longleftrightarrow> (\<forall>j<k. a ! j = b ! j)" using that by (auto simp: list_eq_iff_nth_eq)
  also have "\<dots> \<longleftrightarrow> (\<forall>j<k. \<forall>n<8. bit (a ! j) (7 - n) = bit (b ! j) (7 - n))"
  proof -
    have "x = y \<longleftrightarrow> (\<forall>n<8. bit x (7 - n) = bit y (7 - n))" for x y :: u8
    proof
      assume a: "\<forall>n<8. bit x (7 - n) = bit y (7 - n)"
      have "bit x n = bit y n" if "n < 8" for n using a [rule_format, of "7 - n"] that by (simp add: diff_diff_cancel)
      then show "x = y" by (intro bit_word_eqI) simp
    qed simp
    then show ?thesis by simp
  qed
  also have "\<dots> \<longleftrightarrow> (\<forall>i<8 * k. addr_bit a i = addr_bit b i)"
  proof
    assume a: "\<forall>i<8 * k. addr_bit a i = addr_bit b i"
    show "\<forall>j<k. \<forall>n<8. bit (a ! j) (7 - n) = bit (b ! j) (7 - n)"
    proof (intro allI impI)
      fix j n :: nat
      assume "j < k" "n < 8"
      then show "bit (a ! j) (7 - n) = bit (b ! j) (7 - n)" using a [rule_format, of "8 * j + n"] by (simp add: addr_bit_def)
    qed
  next
    assume a: "\<forall>j<k. \<forall>n<8. bit (a ! j) (7 - n) = bit (b ! j) (7 - n)"
    show "\<forall>i<8 * k. addr_bit a i = addr_bit b i" using a by (auto simp: addr_bit_def less_mult_imp_div_less mult.commute)
  qed
  finally show ?thesis .
qed

lemma split_prefix: "(\<forall>i<8 * k + r. P i) \<longleftrightarrow> (\<forall>i<8 * k. P i) \<and> (\<forall>j<r. P (8 * k + j))" for k r :: nat
proof
  assume a: "(\<forall>i<8 * k. P i) \<and> (\<forall>j<r. P (8 * k + j))"
  show "\<forall>i<8 * k + r. P i"
  proof (intro allI impI)
    fix i
    assume "i < 8 * k + r"
    then show "P i" using a [THEN conjunct2, rule_format, of "i - 8 * k"] a by (cases "i < 8 * k") auto
  qed
qed auto

text \<open>A rule for a prefix of \<open>n\<close> bits decides by exactly these bits.\<close>

lemma getacl_rule:
  assumes "length h = 16" "length a = 16" "n \<le> 128"
  shows "\<exists>r. make_rule h (int n) p = Some r \<and> getacl_loop (r # rs) a = (if same_prefix n h a then Some p else getacl_loop rs a)"
proof -
  define k q where "k = n div 8" and "q = n mod 8"
  have n: "n = 8 * k + q" "q < 8" "k \<le> 16" "q \<noteq> 0 \<Longrightarrow> k < 16" using assms(3) unfolding k_def q_def by presburger+
  have sd: "int n sdiv 8 = int k" "int n smod 8 = int q" by (cases "n = 0"; simp add: signed_divide_int_def signed_modulo_int_def k_def q_def zdiv_int zmod_int)+
  have pr: "same_prefix n h a \<longleftrightarrow> take k h = take k a \<and> (\<forall>j<q. bit (h ! k) (7 - j) = bit (a ! k) (7 - j))"
  proof -
    have "same_prefix n h a \<longleftrightarrow> (\<forall>i<8 * k. addr_bit h i = addr_bit a i) \<and> (\<forall>j<q. addr_bit h (8 * k + j) = addr_bit a (8 * k + j))"
      unfolding same_prefix_def n(1) by (rule split_prefix)
    moreover have "addr_bit x (8 * k + j) = bit (x ! k) (7 - j)" if "j < q" for x j using that n(2) by (simp add: addr_bit_def)
    ultimately show ?thesis using bytes_bits [of k h a] assms(1,2) n(3) by auto
  qed
  show ?thesis
  proof (cases "q = 0")
    case True
    then show ?thesis using sd pr n by (auto simp: make_rule_def Let_def)
  next
    case False
    let ?m = "mask_loop q 0"
    have "?m \<noteq> 0" using mask_nonzero False n(2) by simp
    moreover have "take k (h[k := x]) = take k h" "(h[k := x]) ! k = x" for x using n(4) False assms(1) by simp_all
    ultimately show ?thesis using sd pr n False masked_byte [of q "h ! k" "a ! k"] by (auto simp: make_rule_def Let_def)
  qed
qed

section \<open>From the file to the decision\<close>

text \<open>A line of the file: the text of an address, the address it stands for, the length of the prefix, and the flags.\<close>

type_synonym acl_line = "string \<times> dnbd3_host \<times> nat \<times> string list"

definition acl_words :: "acl_line \<Rightarrow> string list" where
  "acl_words l = (case l of (front, host, n, flags) \<Rightarrow> (front @ CHR ''/'' # dec n) # flags)"

definition acl_line_ok :: "(string \<Rightarrow> dnbd3_host option) \<Rightarrow> acl_line \<Rightarrow> bool" where
  "acl_line_ok parse l = (case l of (front, host, n, flags) \<Rightarrow>
     parse front = Some host \<and> length (addr host) = 16 \<and> word_ok front \<and> hd front \<noteq> CHR ''#'' \<and> CHR ''/'' \<notin> set front
     \<and> n \<le> (if host_type host = HOST_IP4 then 32 else 128) \<and> (\<forall>f\<in>set flags. word_ok f) \<and> length flags < 19 \<and> acl_mask flags \<noteq> 0
     \<and> length (join_words (acl_words l)) < 999)"

text \<open>The permissions by the first line whose prefix the address has.\<close>

definition acl_decision :: "acl_line list \<Rightarrow> u8 list \<Rightarrow> u32" where
  "acl_decision ls a = (case find (\<lambda>(front, host, n, flags). same_prefix n (addr host) a) ls of
     None \<Rightarrow> 0 | Some (front, host, n, flags) \<Rightarrow> acl_mask flags)"

lemma dec_word_ok: "c \<in> set (dec n) \<Longrightarrow> \<not> is_sep c \<and> c \<noteq> CHR 0x00"
  using dec_digits(1) [of n] by (auto simp: is_digit_def is_sep_def)

lemma addacl_line:
  assumes "acl_line_ok parse (front, host, n, flags)" "length rules < MAX_ACLS"
  shows "addacl parse (acl_words (front, host, n, flags)) rules = map_option (\<lambda>r. rules @ [r]) (make_rule (addr host) (int n) (acl_mask flags))"
proof -
  have a: "parse front = Some host" "front \<noteq> []" "hd front \<noteq> CHR ''#''" "CHR ''/'' \<notin> set front" "n \<le> (if host_type host = HOST_IP4 then 32 else 128)" "acl_mask flags \<noteq> 0"
    using assms(1) by (auto simp: acl_line_ok_def word_ok_def)
  have "takeWhile (\<lambda>c. c \<noteq> CHR ''/'') (front @ CHR ''/'' # dec n) = front" using a(4) by (subst takeWhile_append2) auto
  moreover have "n \<le> 128" using a(5) by (auto split: if_splits)
  then have "strtoll (dec n) = (int n, [])" using strtoll_dec [of n "[]"] by simp
  then have "prefix_bits (host_type host) (Some (dec n)) = int n"
    using a(5) dec_digits(2) [of n, symmetric] by (auto simp: prefix_bits_def Let_def split: if_splits)
  ultimately show ?thesis using a assms(2) by (simp add: addacl_def acl_words_def Let_def)
qed

lemma add_rules_lines:
  "list_all (acl_line_ok parse) ls \<Longrightarrow> length rules + length ls \<le> MAX_ACLS \<Longrightarrow>
   \<exists>rs. add_rules parse (map acl_words ls) rules = Some (rules @ rs) \<and> length rs = length ls
     \<and> (\<forall>a. length a = 16 \<longrightarrow> getacl_loop rs a = Some (acl_decision ls a))"
proof (induction ls arbitrary: rules)
  case Nil
  then show ?case by (simp add: acl_decision_def)
next
  case (Cons l ls)
  obtain front host n flags where l: "l = (front, host, n, flags)" by (cases l)
  have ok: "length (addr host) = 16" "n \<le> 128" using Cons.prems(1) by (auto simp: l acl_line_ok_def split: if_splits)
  then obtain r where r: "make_rule (addr host) (int n) (acl_mask flags) = Some r" using getacl_rule [of "addr host" "addr host" n] by blast
  obtain rs where rs: "add_rules parse (map acl_words ls) (rules @ [r]) = Some ((rules @ [r]) @ rs)" "length rs = length ls"
      "\<forall>a. length a = 16 \<longrightarrow> getacl_loop rs a = Some (acl_decision ls a)"
    using Cons.IH [of "rules @ [r]"] Cons.prems by auto
  have "getacl_loop (r # rs) a = Some (acl_decision (l # ls) a)" if "length a = 16" for a
    using getacl_rule [OF ok(1) that ok(2), of "acl_mask flags" rs] r rs(3) that by (auto simp: acl_decision_def l)
  then show ?case using addacl_line [of parse front host n flags rules] Cons.prems r rs
    by (intro exI [of _ "r # rs"]) (simp add: l del: getacl_loop.simps)
qed

section \<open>Properties\<close>

text \<open>C33. The file of access rules decides by the first line that matches: after loading a file with up to a hundred lines of the form address/prefix with flags, a host has the
  permissions of the first line whose address agrees with its own in all bits of the prefix, and none without such a line. The file is not empty, and its lines are
  well-formed: an address that can be read, a prefix that the address has, at least one known flag.\<close>

theorem acl_file_decides:
  assumes "list_all (acl_line_ok parse) ls" "ls \<noteq> []" "length ls \<le> MAX_ACLS" "length (addr host) = 16"
  shows "\<exists>rules. loadAcl parse False (Some (concat (map (\<lambda>l. join_words (acl_words l) @ [CHR 0x0A]) ls))) old = Some rules
    \<and> getacl rules host = Some (acl_decision ls (addr host))"
proof -
  have w: "\<forall>ws\<in>set (map acl_words ls). ws \<noteq> [] \<and> (\<forall>w\<in>set ws. word_ok w) \<and> length ws \<le> 20 \<and> length (join_words ws) < 999"
  proof
    fix ws
    assume "ws \<in> set (map acl_words ls)"
    then obtain front host n flags where "ws = acl_words (front, host, n, flags)" "acl_line_ok parse (front, host, n, flags)"
      using assms(1) by (auto simp: list_all_iff)
    then show "ws \<noteq> [] \<and> (\<forall>w\<in>set ws. word_ok w) \<and> length ws \<le> 20 \<and> length (join_words ws) < 999"
      using dec_word_ok by (auto simp: acl_line_ok_def acl_words_def word_ok_def is_sep_def)
  qed
  have "file_loadLineBased 1 20 (Some (concat (map (\<lambda>ws. join_words ws @ [CHR 0x0A]) (map acl_words ls)))) = Some (filter (\<lambda>ws. 1 \<le> length ws) (map acl_words ls))"
    by (rule file_lines_read) (use w in auto)
  moreover have "filter (\<lambda>ws. 1 \<le> length ws) (map acl_words ls) = map acl_words ls" using w by (auto simp: filter_id_conv Suc_le_eq)
  ultimately have f: "file_loadLineBased 1 20 (Some (concat (map (\<lambda>l. join_words (acl_words l) @ [CHR 0x0A]) ls))) = Some (map acl_words ls)"
    by (simp add: comp_def)
  obtain rs where rs: "add_rules parse (map acl_words ls) [] = Some rs" "length rs = length ls" "getacl_loop rs (addr host) = Some (acl_decision ls (addr host))"
    using add_rules_lines [OF assms(1), of "[]"] assms(3,4) by auto
  then have "rs \<noteq> []" using assms(2) by auto
  then show ?thesis using f rs by (simp add: loadAcl_def getacl_def)
qed

definition sample_acl_host :: "u8 \<Rightarrow> dnbd3_host" where
  "sample_acl_host n = \<lparr>addr = [10, 0, 0, n] @ replicate 12 0, port = 0, host_type = HOST_IP4\<rparr>"

theorem acl_file_decides_witness:
  "\<exists>rules. loadAcl (\<lambda>s. if s = ''10.0.0.0'' then Some (sample_acl_host 0) else None) False (Some (''10.0.0.0/24 STATS'' @ [CHR 0x0A])) [] = Some rules
    \<and> getacl rules (sample_acl_host 3) = Some ACL_STATS"
proof -
  let ?p = "\<lambda>s. if s = ''10.0.0.0'' then Some (sample_acl_host 0) else None"
  let ?l = "(''10.0.0.0'', sample_acl_host 0, 24, [''STATS''])"
  have d: "dec 24 = ''24''" by (simp add: dec.simps char_of_def bit_0)
  have ok: "acl_line_ok ?p ?l"
    by (simp add: acl_line_ok_def acl_words_def d sample_acl_host_def word_ok_def is_sep_def acl_mask_def acl_flag_def ACL_STATS_def)
  have "same_prefix 24 (addr (sample_acl_host 0)) (addr (sample_acl_host 3))"
    using bytes_bits [of 3 "addr (sample_acl_host 0)" "addr (sample_acl_host 3)"] by (simp add: same_prefix_def sample_acl_host_def)
  then have "acl_decision [?l] (addr (sample_acl_host 3)) = ACL_STATS" by (simp add: acl_decision_def acl_mask_def acl_flag_def)
  then show ?thesis using acl_file_decides [of ?p "[?l]" "sample_acl_host 3" "[]"] ok
    by (simp add: MAX_ACLS_def acl_words_def d sample_acl_host_def)
qed

text \<open>A negative prefix length, which the reader of the file accepts, makes a rule that every host matches.\<close>

theorem acl_negative_prefix:
  assumes "- 8 < n" "n < 0" "length a = 16"
  shows "\<exists>r. make_rule a n p = Some r \<and> (\<forall>host. getacl (r # rules) host = Some p)"
proof -
  have "n \<in> {- 7, - 6, - 5, - 4, - 3, - 2, - 1}" using assms(1,2) by auto
  then have "n sdiv 8 = 0" "n smod 8 < 0" by (auto simp: signed_divide_int_def signed_modulo_int_def)
  then show ?thesis by (auto simp: make_rule_def Let_def getacl_def)
qed

theorem acl_negative_prefix_witness: "\<exists>r. make_rule (addr (sample_acl_host 1)) (- 1) 1 = Some r \<and> getacl [r] (sample_acl_host 200) = Some 1"
  using acl_negative_prefix [of "- 1" "addr (sample_acl_host 1)" 1 "[]"] by (auto simp: sample_acl_host_def)

text \<open>The rules do not know the family of an address: a rule for an IPv4 network also matches every IPv6 address that begins with the same bytes.\<close>

theorem acl_family_ignored:
  assumes "length h = 16" "length (addr host) = 16" "n \<le> 32" "same_prefix n h (addr host)" "host_type host = HOST_IP6"
  shows "\<exists>r. make_rule h (int n) p = Some r \<and> getacl [r] host = Some p"
  using getacl_rule [OF assms(1,2), of n p "[]"] assms(3,4) by (auto simp: getacl_def simp del: getacl_loop.simps)

theorem acl_family_ignored_witness:
  "\<exists>r. make_rule ([10, 0, 0, 0] @ replicate 12 0) 8 ACL_ALL = Some r \<and> getacl [r] \<lparr>addr = 10 # replicate 15 1, port = 0, host_type = HOST_IP6\<rparr> = Some ACL_ALL"
proof -
  have "same_prefix 8 ([10, 0, 0, 0] @ replicate 12 0) (10 # replicate 15 1)"
    using bytes_bits [of 1 "[10, 0, 0, 0] @ replicate 12 0" "10 # replicate 15 1"] by (simp add: same_prefix_def)
  then show ?thesis using acl_family_ignored [of "[10, 0, 0, 0] @ replicate 12 0" "\<lparr>addr = 10 # replicate 15 1, port = 0, host_type = HOST_IP6\<rparr>" 8 ACL_ALL] by simp
qed

end
