(* ===== verification/Url_Decode.thy ===== *)
theory Url_Decode
  imports Dnbd3_Prelude
begin

text \<open>
  Decoding of form fields, from \<open>src/server/urldecode.c\<close>. The routine decodes a string in its own memory: it reads at \<open>src\<close>, writes at
  \<open>dst\<close>, and the fields that it delivers are slices of the overwritten string. A slice is its start and its length. \<open>None\<close> is an access
  outside of the string. It is compared with a definition that works on lists.
\<close>

section \<open>The routine\<close>

record field =
  name_s :: nat
  name_l :: nat
  value_s :: nat
  value_l :: nat

text \<open>The macro \<open>hex2int\<close> on a signed \<open>char\<close>; \<open>None\<close> is the jump to \<open>normie\<close>.\<close>

definition hex2int :: "u8 \<Rightarrow> u8 option" where
  "hex2int a =
    (if 97 \<le> sint a then Some (a - 22)
     else if 70 < sint a then None
     else if 65 \<le> sint a then Some (a - 55)
     else if sint a < 48 \<or> 57 < sint a then None
     else Some (a - 48))"

definition put_char :: "u8 list \<Rightarrow> nat \<Rightarrow> u8 \<Rightarrow> u8 list option" where
  "put_char buf i c = (if i < length buf then Some (buf[i := c]) else None)"

text \<open>The loop that copies a name. The result is the memory, \<open>src\<close> and \<open>dst\<close>.\<close>

function name_loop :: "u8 list \<Rightarrow> nat \<Rightarrow> nat \<Rightarrow> (u8 list \<times> nat \<times> nat) option" where
  "name_loop buf src dst =
    (if src < length buf \<and> buf ! src \<noteq> 61
     then case put_char buf dst (buf ! src) of None \<Rightarrow> None | Some buf \<Rightarrow> name_loop buf (src + 1) (dst + 1)
     else Some (buf, src, dst))"
  by pat_completeness auto
termination
  by (relation "measure (\<lambda>(buf, src, dst). length buf - src)") (auto simp: put_char_def split: if_splits)

text \<open>A read of the string.\<close>

definition get_char :: "u8 list \<Rightarrow> nat \<Rightarrow> u8 option" where
  "get_char buf i = (if i < length buf then Some (buf ! i) else None)"

text \<open>The character that is written next in a value, and how many characters were read for it.\<close>

definition value_char :: "u8 list \<Rightarrow> nat \<Rightarrow> (u8 \<times> nat) option" where
  "value_char buf src =
    Option.bind (get_char buf src) (\<lambda>c.
      if c = 37 \<and> src + 2 < length buf
      then Option.bind (get_char buf (src + 1)) (\<lambda>x.
        if 102 < sint x then Some (c, 1)
        else Option.bind (get_char buf (src + 2)) (\<lambda>y.
          if 102 < sint y then Some (c, 1)
          else Some (case hex2int x of
              None \<Rightarrow> (c, 1)
            | Some a \<Rightarrow> (case hex2int y of None \<Rightarrow> (c, 1) | Some b \<Rightarrow> (16 * a + b, 3)))))
      else if c = 43 then Some (32, 1)
      else Some (c, 1))"

lemma value_char_pos: "value_char buf src = Some (c, k) \<Longrightarrow> 0 < k"
  by (auto simp: value_char_def Option.bind_eq_Some_conv simp del: not_less split: if_splits) (auto split: option.splits)

function value_loop :: "u8 list \<Rightarrow> nat \<Rightarrow> nat \<Rightarrow> (u8 list \<times> nat \<times> nat) option" where
  "value_loop buf src dst =
    (if src < length buf \<and> buf ! src \<noteq> 38
     then case value_char buf src of None \<Rightarrow> None | Some (c, k) \<Rightarrow>
       (case put_char buf dst c of None \<Rightarrow> None | Some buf \<Rightarrow> value_loop buf (src + k) (dst + 1))
     else Some (buf, src, dst))"
  by pat_completeness auto
termination
proof (relation "measure (\<lambda>(buf, src, dst). length buf - src)", goal_cases)
  case (2 buf src dst ck c k buf')
  then have "0 < k" using value_char_pos [of buf src c k] by simp
  then show ?case using 2 by (auto simp: put_char_def split: if_splits)
qed simp

declare name_loop.simps [simp del] value_loop.simps [simp del]

text \<open>The loop over the fields; \<open>n\<close> is the number of fields that still fit.\<close>

fun field_loop :: "nat \<Rightarrow> u8 list \<Rightarrow> nat \<Rightarrow> nat \<Rightarrow> (u8 list \<times> field list) option" where
  "field_loop 0 buf src dst = Some (buf, [])"
| "field_loop (Suc n) buf src dst =
    (case name_loop buf src dst of
       None \<Rightarrow> None
     | Some (buf, src1, dst1) \<Rightarrow>
        if src1 = length buf then Some (buf, [])
        else (case value_loop buf (src1 + 1) (dst1 + 1) of
            None \<Rightarrow> None
          | Some (buf, src2, dst2) \<Rightarrow>
             let fld = \<lparr>name_s = dst, name_l = dst1 - dst, value_s = dst1 + 1, value_l = dst2 - (dst1 + 1)\<rparr> in
             if src2 \<ge> length buf then Some (buf, [fld])
             else map_option (\<lambda>(buf, flds). (buf, fld # flds)) (field_loop n buf (src2 + 1) (dst2 + 1))))"

definition urldecode :: "nat \<Rightarrow> u8 list \<Rightarrow> (u8 list \<times> field list) option" where
  "urldecode max_out buf = field_loop max_out buf 0 0"

text \<open>The name and the value of a field in the memory.\<close>

definition field_text :: "u8 list \<Rightarrow> field \<Rightarrow> u8 list \<times> u8 list" where
  "field_text buf f = (take (name_l f) (drop (name_s f) buf), take (value_l f) (drop (value_s f) buf))"

section \<open>Decoding on lists\<close>

fun decode_value :: "u8 list \<Rightarrow> u8 list" where
  "decode_value [] = []"
| "decode_value (c # cs) =
    (if c = 37
     then case cs of
         x # y # r \<Rightarrow> (case (hex2int x, hex2int y) of
             (Some a, Some b) \<Rightarrow> if sint x \<le> 102 \<and> sint y \<le> 102 then (16 * a + b) # decode_value r else 37 # decode_value cs
           | _ \<Rightarrow> 37 # decode_value cs)
       | _ \<Rightarrow> 37 # decode_value cs
     else (if c = 43 then 32 else c) # decode_value cs)"

function split_fields :: "u8 list \<Rightarrow> (u8 list \<times> u8 list) list" where
  "split_fields cs =
    (case dropWhile (\<lambda>c. c \<noteq> 61) cs of
       [] \<Rightarrow> []
     | _ # r \<Rightarrow> (takeWhile (\<lambda>c. c \<noteq> 61) cs, decode_value (takeWhile (\<lambda>c. c \<noteq> 38) r)) #
         (case dropWhile (\<lambda>c. c \<noteq> 38) r of [] \<Rightarrow> [] | _ # r' \<Rightarrow> split_fields r'))"
  by pat_completeness auto
termination
proof (relation "measure length", goal_cases)
  case (2 cs x r y r')
  have "length (dropWhile (\<lambda>c. c \<noteq> 61) cs) \<le> length cs" "length (dropWhile (\<lambda>c. c \<noteq> 38) r) \<le> length r"
    by (rule length_dropWhile_le)+
  then show ?case using 2 by auto
qed simp

declare split_fields.simps [simp del]

section \<open>The routine does what the definition on lists says\<close>

lemma put_char_behind:
  assumes "dst \<le> src" "src < length buf"
  shows "put_char buf dst c = Some (buf[dst := c])" "take (Suc dst) (buf[dst := c]) = take dst buf @ [c]"
    "src < i \<Longrightarrow> drop i (buf[dst := c]) = drop i buf"
  using assms by (simp_all add: put_char_def take_Suc_conv_app_nth)

lemma name_loop_copies:
  "dst \<le> src \<Longrightarrow> src \<le> length buf \<Longrightarrow>
   \<exists>buf'. name_loop buf src dst = Some (buf', src + length (takeWhile (\<lambda>c. c \<noteq> 61) (drop src buf)), dst + length (takeWhile (\<lambda>c. c \<noteq> 61) (drop src buf)))
     \<and> take (dst + length (takeWhile (\<lambda>c. c \<noteq> 61) (drop src buf))) buf' = take dst buf @ takeWhile (\<lambda>c. c \<noteq> 61) (drop src buf)
     \<and> drop (src + length (takeWhile (\<lambda>c. c \<noteq> 61) (drop src buf))) buf' = dropWhile (\<lambda>c. c \<noteq> 61) (drop src buf) \<and> length buf' = length buf"
proof (induction buf src dst rule: name_loop.induct)
  case (1 buf src dst)
  show ?case
  proof (cases "src < length buf \<and> buf ! src \<noteq> 61")
    case True
    note p = put_char_behind [where dst = dst and src = src and buf = buf and c = "buf ! src"]
    have d: "drop src buf = buf ! src # drop (Suc src) buf" using True by (simp add: Cons_nth_drop_Suc)
    obtain buf' where "name_loop (buf[dst := buf ! src]) (src + 1) (dst + 1) = Some (buf', src + 1 + length (takeWhile (\<lambda>c. c \<noteq> 61) (drop (Suc src) buf)),
        dst + 1 + length (takeWhile (\<lambda>c. c \<noteq> 61) (drop (Suc src) buf)))"
      "take (dst + 1 + length (takeWhile (\<lambda>c. c \<noteq> 61) (drop (Suc src) buf))) buf' = (take dst buf @ [buf ! src]) @ takeWhile (\<lambda>c. c \<noteq> 61) (drop (Suc src) buf)"
      "drop (src + 1 + length (takeWhile (\<lambda>c. c \<noteq> 61) (drop (Suc src) buf))) buf' = dropWhile (\<lambda>c. c \<noteq> 61) (drop (Suc src) buf)" "length buf' = length buf"
      using "1.IH" [OF True p(1)] True 1(2) p by auto
    then show ?thesis using True 1(2) p(1) by (subst name_loop.simps) (auto simp: d)
  next
    case False
    then have "takeWhile (\<lambda>c. c \<noteq> 61) (drop src buf) = []" "dropWhile (\<lambda>c. c \<noteq> 61) (drop src buf) = drop src buf"
      by (cases "drop src buf"; auto simp: drop_eq_Nil nth_via_drop)+
    then show ?thesis using False by (subst name_loop.simps) auto
  qed
qed

lemma decode_value_percent:
  "(\<And>x y r. cs = x # y # r \<Longrightarrow> hex2int x = None \<or> hex2int y = None \<or> 102 < sint x \<or> 102 < sint y) \<Longrightarrow> decode_value (37 # cs) = 37 # decode_value cs"
  by (auto split: list.splits option.splits simp del: decode_value.simps(2) simp: decode_value.simps(2) [of 37])

text \<open>One character of a value, read from memory and decoded from the list of its characters.\<close>

lemma hex2int_amp [simp]: "hex2int 38 = None"
  by (simp add: hex2int_def)

text \<open>Inside of the string every character can be read; the two digits behind a percent sign, too, because of the check before them.\<close>

lemma value_char_inside:
  assumes "src < length buf"
  shows "value_char buf src = Some
    (if buf ! src = 37 \<and> src + 2 < length buf
     then if 102 < sint (buf ! (src + 1)) \<or> 102 < sint (buf ! (src + 2)) then (buf ! src, 1)
       else (case hex2int (buf ! (src + 1)) of
           None \<Rightarrow> (buf ! src, 1)
         | Some a \<Rightarrow> (case hex2int (buf ! (src + 2)) of None \<Rightarrow> (buf ! src, 1) | Some b \<Rightarrow> (16 * a + b, 3)))
     else if buf ! src = 43 then (32, 1)
     else (buf ! src, 1))"
  using assms by (auto simp: value_char_def get_char_def simp del: add_2_eq_Suc')

lemma value_char_decode:
  assumes "src < length buf" "buf ! src \<noteq> 38" "value_char buf src = Some (c, k)"
  shows "decode_value (takeWhile (\<lambda>c. c \<noteq> 38) (drop src buf)) = c # decode_value (takeWhile (\<lambda>c. c \<noteq> 38) (drop (src + k) buf))"
    "length (takeWhile (\<lambda>c. c \<noteq> 38) (drop src buf)) = k + length (takeWhile (\<lambda>c. c \<noteq> 38) (drop (src + k) buf))"
    "dropWhile (\<lambda>c. c \<noteq> 38) (drop src buf) = dropWhile (\<lambda>c. c \<noteq> 38) (drop (src + k) buf)"
proof -
  note vc = assms(3) [unfolded value_char_inside [OF assms(1)] option.inject]
  have d: "drop src buf = buf ! src # drop (Suc src) buf" using assms(1) by (simp add: Cons_nth_drop_Suc)
  have 1: "decode_value (takeWhile (\<lambda>c. c \<noteq> 38) (drop src buf)) = c # decode_value (takeWhile (\<lambda>c. c \<noteq> 38) (drop (src + k) buf)) \<and>
    length (takeWhile (\<lambda>c. c \<noteq> 38) (drop src buf)) = k + length (takeWhile (\<lambda>c. c \<noteq> 38) (drop (src + k) buf)) \<and>
    dropWhile (\<lambda>c. c \<noteq> 38) (drop src buf) = dropWhile (\<lambda>c. c \<noteq> 38) (drop (src + k) buf)"
  proof (cases "buf ! src = 37 \<and> src + 2 < length buf")
    case True
    then have e: "drop (Suc src) buf = buf ! (src + 1) # buf ! (src + 2) # drop (src + 3) buf"
      using Cons_nth_drop_Suc [of "src + 1" buf] Cons_nth_drop_Suc [of "src + 2" buf] by (simp add: eval_nat_numeral)
    have f: "drop (src + 1) buf = drop (Suc src) buf" by simp
    show ?thesis
    proof (cases "hex2int (buf ! (src + 1)) \<noteq> None \<and> hex2int (buf ! (src + 2)) \<noteq> None \<and> sint (buf ! (src + 1)) \<le> 102 \<and> sint (buf ! (src + 2)) \<le> 102")
      case hex: True
      then have "buf ! (src + 1) \<noteq> 38" "buf ! (src + 2) \<noteq> 38" by (metis hex2int_amp)+
      moreover have "k = 3" using vc True hex by auto
      ultimately show ?thesis using vc True hex unfolding d e by auto
    next
      case False
      then have ck: "k = 1" "c = 37" using vc True by (auto split: option.splits if_splits)
      let ?cs = "takeWhile (\<lambda>c. c \<noteq> 38) (drop (Suc src) buf)"
      have "decode_value (37 # ?cs) = 37 # decode_value ?cs"
        by (rule decode_value_percent) (use False in \<open>auto simp: e split: if_splits\<close>)
      then show ?thesis using True unfolding ck f d by (simp del: decode_value.simps)
    qed
  next
    case False
    then have "k = 1" "c = (if buf ! src = 43 then 32 else buf ! src)" using vc by (auto split: if_splits)
    moreover have "length (drop (Suc src) buf) < 2" if "buf ! src = 37" using False that by auto
    moreover have "decode_value (37 # cs) = 37 # decode_value cs" if "length cs < 2" for cs
      by (rule decode_value_percent) (use that in auto)
    moreover have "length (takeWhile (\<lambda>c. c \<noteq> 38) (drop (Suc src) buf)) \<le> length (drop (Suc src) buf)" by (rule length_takeWhile_le)
    ultimately show ?thesis using assms(2) unfolding d by (cases "buf ! src = 37") (auto simp del: decode_value.simps simp: decode_value.simps(2) [of "buf ! src"])
  qed
  then show "decode_value (takeWhile (\<lambda>c. c \<noteq> 38) (drop src buf)) = c # decode_value (takeWhile (\<lambda>c. c \<noteq> 38) (drop (src + k) buf))"
    "length (takeWhile (\<lambda>c. c \<noteq> 38) (drop src buf)) = k + length (takeWhile (\<lambda>c. c \<noteq> 38) (drop (src + k) buf))"
    "dropWhile (\<lambda>c. c \<noteq> 38) (drop src buf) = dropWhile (\<lambda>c. c \<noteq> 38) (drop (src + k) buf)" by blast+
qed

lemma value_loop_decodes:
  "dst \<le> src \<Longrightarrow> src \<le> length buf \<Longrightarrow> raw = takeWhile (\<lambda>c. c \<noteq> 38) (drop src buf) \<Longrightarrow>
   \<exists>buf'. value_loop buf src dst = Some (buf', src + length raw, dst + length (decode_value raw))
     \<and> take (dst + length (decode_value raw)) buf' = take dst buf @ decode_value raw
     \<and> drop (src + length raw) buf' = dropWhile (\<lambda>c. c \<noteq> 38) (drop src buf) \<and> length buf' = length buf
     \<and> dst + length (decode_value raw) \<le> src + length raw"
proof (induction buf src dst arbitrary: raw rule: value_loop.induct)
  case (1 buf src dst)
  show ?case
  proof (cases "src < length buf \<and> buf ! src \<noteq> 38")
    case True
    obtain c k where ck: "value_char buf src = Some (c, k)"
      using value_char_inside [of src buf] True by (metis surj_pair)
    note p = put_char_behind [where dst = dst and src = src and buf = buf and c = c]
    note v = value_char_decode [OF _ _ ck]
    have k: "0 < k" "src + k \<le> length buf"
      using value_char_pos [OF ck] ck True by (auto simp: value_char_inside split: if_splits option.splits)
    have d: "drop (src + k) (buf[dst := c]) = drop (src + k) buf" using True 1(2) k p(3) by auto
    let ?raw = "takeWhile (\<lambda>c. c \<noteq> 38) (drop (src + k) buf)"
    obtain buf' where "value_loop (buf[dst := c]) (src + k) (dst + 1) = Some (buf', src + k + length ?raw, dst + 1 + length (decode_value ?raw))"
      "take (dst + 1 + length (decode_value ?raw)) buf' = (take dst buf @ [c]) @ decode_value ?raw"
      "drop (src + k + length ?raw) buf' = dropWhile (\<lambda>c. c \<noteq> 38) (drop (src + k) buf)" "length buf' = length buf"
      "dst + 1 + length (decode_value ?raw) \<le> src + k + length ?raw"
      using "1.IH" [OF True ck refl p(1), of ?raw] True 1(2) k p(2) d by auto
    moreover have "decode_value raw = c # decode_value ?raw" "length raw = k + length ?raw"
        "dropWhile (\<lambda>c. c \<noteq> 38) (drop src buf) = dropWhile (\<lambda>c. c \<noteq> 38) (drop (src + k) buf)"
      using v True 1(4) by auto
    ultimately show ?thesis using True 1(2) p(1) ck by (subst value_loop.simps) (auto simp: add.assoc)
  next
    case False
    then have "raw = []" "dropWhile (\<lambda>c. c \<noteq> 38) (drop src buf) = drop src buf"
      using 1(4) by (cases "drop src buf"; auto simp: drop_eq_Nil nth_via_drop)+
    then show ?thesis using False 1(2) by (subst value_loop.simps) auto
  qed
qed

lemma slice_of_take: "take n (drop i xs) = take n (drop i (take m xs))" if "i + n \<le> m"
  using that by (simp add: drop_take min_absorb1)

lemma drop_ConsD: "drop i xs = y # ys \<Longrightarrow> i < length xs \<and> drop (i + 1) xs = ys"
  by (metis Suc_eq_plus1 drop_Suc drop_all leI list.distinct(1) list.sel(3) tl_drop)

lemma take_kept:
  assumes "take m b = take d xs @ ys" "d \<le> length xs" "n \<le> d" "d \<le> m"
  shows "take n b = take n xs"
proof -
  have "take n b = take n (take m b)" using assms(3,4) by simp
  also have "\<dots> = take n xs" unfolding assms(1) using assms(2,3) by simp
  finally show ?thesis .
qed

lemma field_loop_splits:
  "dst \<le> src \<Longrightarrow> src \<le> length buf \<Longrightarrow>
   \<exists>buf' flds. field_loop n buf src dst = Some (buf', flds) \<and> map (field_text buf') flds = take n (split_fields (drop src buf))
     \<and> take dst buf' = take dst buf \<and> length buf' = length buf"
proof (induction n arbitrary: buf src dst)
  case 0
  then show ?case by simp
next
  case (Suc n)
  let ?nm = "takeWhile (\<lambda>c. c \<noteq> 61) (drop src buf)"
  obtain buf1 where n1: "name_loop buf src dst = Some (buf1, src + length ?nm, dst + length ?nm)"
      "take (dst + length ?nm) buf1 = take dst buf @ ?nm" "drop (src + length ?nm) buf1 = dropWhile (\<lambda>c. c \<noteq> 61) (drop src buf)" "length buf1 = length buf"
    using name_loop_copies [OF Suc.prems] by blast
  have t1: "take dst buf1 = take dst buf"
    using arg_cong [OF n1(2), of "take dst"] Suc.prems by simp
  show ?case
  proof (cases "dropWhile (\<lambda>c. c \<noteq> 61) (drop src buf)")
    case Nil
    have "src + length ?nm \<ge> length buf" using trans [OF n1(3) Nil] n1(4) by simp
    moreover have "length ?nm \<le> length buf - src" using length_takeWhile_le [of _ "drop src buf"] by simp
    ultimately have "src + length ?nm = length buf1" using n1(4) Suc.prems by simp
    then show ?thesis using n1 t1 Nil by (simp add: split_fields.simps [of "drop src buf"] del: dropWhile_eq_Nil_conv)
  next
    case (Cons x r)
    then have l1: "src + length ?nm < length buf1" and r: "drop (src + length ?nm + 1) buf1 = r"
      using drop_ConsD [OF trans [OF n1(3) Cons]] by simp_all
    let ?raw = "takeWhile (\<lambda>c. c \<noteq> 38) r" and ?s1 = "src + length ?nm + 1" and ?d1 = "dst + length ?nm + 1"
    obtain buf2 where v: "value_loop buf1 ?s1 ?d1 = Some (buf2, ?s1 + length ?raw, ?d1 + length (decode_value ?raw))"
        "take (?d1 + length (decode_value ?raw)) buf2 = take ?d1 buf1 @ decode_value ?raw"
        "drop (?s1 + length ?raw) buf2 = dropWhile (\<lambda>c. c \<noteq> 38) r" "length buf2 = length buf1"
        "?d1 + length (decode_value ?raw) \<le> ?s1 + length ?raw"
      using value_loop_decodes [of ?d1 ?s1 buf1 ?raw] l1 Suc.prems r by auto
    let ?fld = "\<lparr>name_s = dst, name_l = length ?nm, value_s = ?d1, value_l = length (decode_value ?raw)\<rparr>"
    let ?d2 = "?d1 + length (decode_value ?raw)" and ?s2 = "?s1 + length ?raw"
    have ft: "field_text b ?fld = (?nm, decode_value ?raw) \<and> take dst b = take dst buf" if "take ?d2 b = take ?d2 buf2" for b
    proof -
      have l: "length (take dst buf) = dst" "length (take ?d1 buf1) = ?d1" using Suc.prems l1 n1(4) by auto
      have a: "take ?d2 b = take ?d1 buf1 @ decode_value ?raw" using that v(2) by simp
      then have b1: "take (dst + length ?nm) b = take dst buf @ ?nm"
        using take_kept [OF a, of "dst + length ?nm"] l1 Suc.prems n1(2) by simp
      have "take (length ?nm) (drop dst b) = ?nm" using slice_of_take [of dst "length ?nm" "dst + length ?nm" b] l(1) b1 by simp
      moreover have "take (length (decode_value ?raw)) (drop ?d1 b) = decode_value ?raw"
        using slice_of_take [of ?d1 "length (decode_value ?raw)" ?d2 b] l(2) a by simp
      moreover have "take dst b = take dst buf" using arg_cong [OF b1, of "take dst"] l(1) by simp
      ultimately show ?thesis by (simp add: field_text_def)
    qed
    show ?thesis
    proof (cases "dropWhile (\<lambda>c. c \<noteq> 38) r")
      case Nil
      have "length buf2 \<le> ?s2" using trans [OF v(3) Nil] by simp
      then show ?thesis using n1 v Cons Nil l1 ft [of buf2] by (auto simp: split_fields.simps [of "drop src buf"] Let_def simp del: dropWhile_eq_Nil_conv)
    next
      case (Cons y r')
      then have l2: "?s2 < length buf2" and r': "drop (?s2 + 1) buf2 = r'"
        using drop_ConsD [OF trans [OF v(3) Cons]] by simp_all
      obtain buf3 flds where f: "field_loop n buf2 (?s2 + 1) (?d2 + 1) = Some (buf3, flds)" "map (field_text buf3) flds = take n (split_fields r')"
          "take (?d2 + 1) buf3 = take (?d2 + 1) buf2" "length buf3 = length buf2"
        using Suc.IH [of "?d2 + 1" "?s2 + 1" buf2] v(5) l2 r' by auto
      have "take ?d2 buf3 = take ?d2 buf2" using arg_cong [OF f(3), of "take ?d2"] by simp
      then show ?thesis using n1 v \<open>dropWhile (\<lambda>c. c \<noteq> 61) (drop src buf) = x # r\<close> Cons l1 l2 f ft [of buf3]
        by (auto simp: split_fields.simps [of "drop src buf"] Let_def)
    qed
  qed
qed

section \<open>Encoding\<close>

text \<open>The usual encoding of form fields, with digits in upper case; everything but letters, digits and four marks is escaped.\<close>

definition hex_digit :: "u8 \<Rightarrow> u8" where
  "hex_digit n = (if n < 10 then 48 + n else 55 + n)"

definition plain_char :: "u8 \<Rightarrow> bool" where
  "plain_char c \<longleftrightarrow> (48 \<le> c \<and> c \<le> 57) \<or> (65 \<le> c \<and> c \<le> 90) \<or> (97 \<le> c \<and> c \<le> 122) \<or> c \<in> {45, 46, 95, 126}"

definition encode_char :: "u8 \<Rightarrow> u8 list" where
  "encode_char c = (if plain_char c then [c] else [37, hex_digit (drop_bit 4 c), hex_digit (take_bit 4 c)])"

fun url_query :: "(u8 list \<times> u8 list) list \<Rightarrow> u8 list" where
  "url_query [] = []"
| "url_query [(n, v)] = n @ 61 # concat (map encode_char v)"
| "url_query ((n, v) # fs) = n @ 61 # concat (map encode_char v) @ 38 # url_query fs"

lemma hex2int_digit:
  assumes "n < 16"
  shows "hex2int (hex_digit n) = Some n" "sint (hex_digit n) \<le> 102" "hex_digit n \<noteq> 38"
proof -
  have "unat n < 16" using assms by (simp add: word_less_nat_alt)
  then have "\<exists>k\<in>set [0..<16]. n = word_of_nat k" by (intro bexI [of _ "unat n"]) auto
  then have "n \<in> {0, 1, 2, 3, 4, 5, 6, 7, 8, 9, 10, 11, 12, 13, 14, 15}" by (simp add: upt_conv_Cons)
  then show "hex2int (hex_digit n) = Some n" "sint (hex_digit n) \<le> 102" "hex_digit n \<noteq> 38"
    by (auto simp: hex2int_def hex_digit_def)
qed

lemma char_nibbles:
  fixes c :: u8
  shows "drop_bit 4 c < 16" "take_bit 4 c < 16" "16 * drop_bit 4 c + take_bit 4 c = c"
proof -
  have "unat (drop_bit 4 c) < 16" using unat_u8_less [of c] by (simp add: unat_drop_bit_div)
  then show "drop_bit 4 c < 16" by (simp add: word_less_nat_alt)
  have "unat (take_bit 4 c) < 16" by (simp add: unat_take_bit_mod)
  then show "take_bit 4 c < 16" by (simp add: word_less_nat_alt)
  have "push_bit 4 (drop_bit 4 c) + take_bit 4 c = c" by (metis bits_ident)
  then show "16 * drop_bit 4 c + take_bit 4 c = c" by (simp add: push_bit_eq_mult mult.commute)
qed

lemma decode_encode_char: "decode_value (encode_char c @ cs) = c # decode_value cs"
  using hex2int_digit [OF char_nibbles(1) [of c]] hex2int_digit [OF char_nibbles(2) [of c]] char_nibbles(3) [of c]
  by (auto simp: encode_char_def plain_char_def)

lemma decode_encode: "decode_value (concat (map encode_char v)) = v"
  by (induction v) (simp_all add: decode_encode_char)

lemma encode_no_amp: "38 \<notin> set (concat (map encode_char v))"
  using hex2int_digit(3) [OF char_nibbles(1)] hex2int_digit(3) [OF char_nibbles(2)] by (auto simp: encode_char_def plain_char_def)

lemma split_first:
  assumes "61 \<notin> set n"
  shows "split_fields (n @ 61 # concat (map encode_char v) @ r) =
    (n, decode_value (takeWhile (\<lambda>c. c \<noteq> 38) (concat (map encode_char v) @ r))) #
     (case dropWhile (\<lambda>c. c \<noteq> 38) (concat (map encode_char v) @ r) of [] \<Rightarrow> [] | _ # r' \<Rightarrow> split_fields r')"
proof -
  have "dropWhile (\<lambda>c. c \<noteq> 61) (n @ 61 # xs) = 61 # xs" "takeWhile (\<lambda>c. c \<noteq> 61) (n @ 61 # xs) = n" for xs
    using assms by (induction n) auto
  then show ?thesis by (simp add: split_fields.simps [of "n @ _"])
qed

lemma amp_behind:
  fixes v :: "u8 list"
  defines "es \<equiv> concat (map encode_char v)"
  shows "takeWhile (\<lambda>c. c \<noteq> 38) (es @ 38 # r) = es" "dropWhile (\<lambda>c. c \<noteq> 38) (es @ 38 # r) = 38 # r"
    "takeWhile (\<lambda>c. c \<noteq> 38) es = es" "dropWhile (\<lambda>c. c \<noteq> 38) es = []"
proof -
  have "\<forall>x\<in>set es. x \<noteq> 38" using encode_no_amp [of v] by (auto simp: es_def)
  then show "takeWhile (\<lambda>c. c \<noteq> 38) (es @ 38 # r) = es" "dropWhile (\<lambda>c. c \<noteq> 38) (es @ 38 # r) = 38 # r"
    "takeWhile (\<lambda>c. c \<noteq> 38) es = es" "dropWhile (\<lambda>c. c \<noteq> 38) es = []"
    by (simp_all add: takeWhile_append2 dropWhile_append2 dropWhile_eq_Nil_conv takeWhile_eq_all_conv)
qed

lemma split_url_query: "\<forall>(n, v)\<in>set fs. 61 \<notin> set n \<Longrightarrow> split_fields (url_query fs) = fs"
proof (induction fs rule: url_query.induct)
  case 1
  then show ?case by (simp add: split_fields.simps [of "[]"])
next
  case (2 n v)
  then show ?case using split_first [of n v "[]"] amp_behind [of v] by (simp add: decode_encode)
next
  case (3 n v f fs)
  then show ?case using split_first [of n v "38 # url_query (f # fs)"] amp_behind [of v] by (simp add: decode_encode)
qed

section \<open>Properties\<close>

lemma urldecode_split: "\<exists>buf' flds. urldecode n buf = Some (buf', flds) \<and> map (field_text buf') flds = take n (split_fields buf) \<and> length buf' = length buf"
  using field_loop_splits [of 0 0 buf n] by (auto simp: urldecode_def)

text \<open>Decoding in place is safe and right: for every string and every limit the routine accesses only the string itself, and the fields that it delivers, read from the
  overwritten memory after all of it has been processed, are those that splitting at \<open>=\<close> and \<open>&\<close> and decoding each value on its own give, cut off
  at the limit. No later write destroys an earlier field.\<close>

theorem urldecode_in_place:
  "\<exists>buf' flds. urldecode n buf = Some (buf', flds) \<and> map (field_text buf') flds = take n (split_fields buf) \<and> length buf' = length buf"
  by (rule urldecode_split)

text \<open>Fields that were encoded with upper case digits come back as they were, whatever bytes their values have.\<close>

theorem urldecode_roundtrip:
  assumes "\<forall>(n, v)\<in>set fs. 61 \<notin> set n" "length fs \<le> max_out"
  shows "\<exists>buf' flds. urldecode max_out (url_query fs) = Some (buf', flds) \<and> map (field_text buf') flds = fs"
  using field_loop_splits [of 0 0 "url_query fs" max_out] split_url_query [OF assms(1)] assms(2) by (auto simp: urldecode_def)

theorem urldecode_roundtrip_witness:
  "\<exists>buf' flds. urldecode 10 (url_query [([113], [115, 37, 61, 38]), ([113], [32])]) = Some (buf', flds)
    \<and> map (field_text buf') flds = [([113], [115, 37, 61, 38]), ([113], [32])]"
  using urldecode_roundtrip [of "[([113], [115, 37, 61, 38]), ([113], [32])]" 10] by simp

text \<open>A digit in lower case is decoded to a value that is 65 too large, so an escaped character with such a digit becomes another character: the routine
  turns \<open>%3d\<close>, an equals sign, into a tilde.\<close>

theorem lowercase_digits_wrong:
  assumes "97 \<le> c" "c \<le> (102 :: u8)"
  shows "hex2int c = Some (c - 97 + 10 + 65) \<and> decode_value [37, 51, c] = [16 * 3 + (c - 97 + 10) + 65]"
proof -
  have "97 \<le> unat c \<and> unat c < 103" using assms by (simp add: word_le_nat_alt)
  then have "\<exists>k\<in>set [97..<103]. c = word_of_nat k" by (intro bexI [of _ "unat c"]) auto
  then have "c \<in> {97, 98, 99, 100, 101, 102}" by (simp add: upt_conv_Cons)
  then show ?thesis by (auto simp: hex2int_def)
qed

theorem lowercase_digits_wrong_witness: "decode_value [37, 51, 100] = [126]"
  using lowercase_digits_wrong [of 100] by simp

end
