(* ===== verification/Http_Parser.thy ===== *)
theory Http_Parser
  imports Dnbd3_Prelude
begin

text \<open>
  The parser for HTTP requests, from \<open>src/server/picohttpparser/picohttpparser.c\<close> (the part that is compiled without SSE 4.2, where \<open>findchar_fast\<close> returns its argument).
  A pointer into the request is the list of the bytes from it up to \<open>buf_end\<close>, a token is the list of its bytes, and the path is given with its position, because its
  user decodes it in place. The results are -2 (\<open>Partial\<close>: more bytes are needed), -1 (\<open>Bad\<close>), and a value with the bytes behind it.
\<close>

section \<open>Stages\<close>

datatype 'a res = Ok 'a | Partial | Bad

definition andThen :: "('b \<Rightarrow> ('a \<times> 'b) res) \<Rightarrow> ('a \<Rightarrow> 'b \<Rightarrow> ('c \<times> 'b) res) \<Rightarrow> 'b \<Rightarrow> ('c \<times> 'b) res" where
  "andThen p f xs = (case p xs of Ok (v, ys) \<Rightarrow> f v ys | Partial \<Rightarrow> Partial | Bad \<Rightarrow> Bad)"

definition ascii :: "string \<Rightarrow> u8 list" where
  "ascii s = map (\<lambda>c. word_of_nat (of_char c)) s"

definition IS_PRINTABLE_ASCII :: "u8 \<Rightarrow> bool" where
  "IS_PRINTABLE_ASCII c \<longleftrightarrow> (ucast c :: u32) - 32 < 95"

definition expect_char :: "u8 \<Rightarrow> u8 list \<Rightarrow> (unit \<times> u8 list) res" where
  "expect_char ch xs = (case xs of [] \<Rightarrow> Partial | c # ys \<Rightarrow> if c \<noteq> ch then Bad else Ok ((), ys))"

text \<open>\<open>ADVANCE_TOKEN\<close>: the token ends before a space.\<close>

fun token_end :: "u8 list \<Rightarrow> u8 list res" where
  "token_end [] = Partial"
| "token_end (c # xs) =
    (if c = 32 then Ok (c # xs)
     else if \<not> IS_PRINTABLE_ASCII c \<and> (c < 32 \<or> c = 127) then Bad
     else token_end xs)"

definition advance_token :: "u8 list \<Rightarrow> (u8 list \<times> u8 list) res" where
  "advance_token xs = (case token_end xs of Ok ys \<Rightarrow> Ok (take (length xs - length ys) xs, ys) | Partial \<Rightarrow> Partial | Bad \<Rightarrow> Bad)"

section \<open>Lines\<close>

definition is_ctl :: "u8 \<Rightarrow> bool" where
  "is_ctl c \<longleftrightarrow> (c < 32 \<and> c \<noteq> 9) \<or> c = 127"

text \<open>The unrolled loop: eight bytes at a time, as long as there are eight.\<close>

fun printable_run :: "nat \<Rightarrow> u8 list \<Rightarrow> bool \<times> u8 list" where
  "printable_run 0 xs = (True, xs)"
| "printable_run (Suc n) [] = (True, [])"
| "printable_run (Suc n) (c # xs) = (if \<not> IS_PRINTABLE_ASCII c then (False, c # xs) else printable_run n xs)"

lemma printable_run_shorter: "printable_run n xs = (b, ys) \<Longrightarrow> length ys \<le> length xs"
  by (induction n xs rule: printable_run.induct) (auto split: if_splits)

lemma printable_run_all: "printable_run n xs = (True, ys) \<Longrightarrow> 0 < n \<Longrightarrow> xs \<noteq> [] \<Longrightarrow> length ys < length xs"
proof -
  assume p: "printable_run n xs = (True, ys)" "0 < n" "xs \<noteq> []"
  then obtain m c zs where s: "n = Suc m" "xs = c # zs" by (cases n; cases xs) auto
  then have "printable_run m zs = (True, ys)" using p by (auto split: if_splits)
  then show ?thesis using printable_run_shorter s by fastforce
qed

lemma printable_run_stop: "printable_run n xs = (False, ys) \<Longrightarrow> ys \<noteq> []"
  by (induction n xs rule: printable_run.induct) (auto split: if_splits)

text \<open>The result is the bytes from a control character on, or the rest for the plain loop.\<close>

function eol_fast :: "u8 list \<Rightarrow> u8 list + u8 list" where
  "eol_fast xs =
    (if length xs < 8 then Inr xs
     else case printable_run 8 xs of
       (True, ys) \<Rightarrow> eol_fast ys
     | (False, ys) \<Rightarrow> if is_ctl (hd ys) then Inl ys else eol_fast (tl ys))"
  by pat_completeness auto
termination
proof (relation "measure length", goal_cases)
  case (2 xs b ys)
  then show ?case using printable_run_all [of 8 xs ys] by fastforce
next
  case (3 xs b ys)
  then show ?case using printable_run_shorter [of 8 xs False ys] printable_run_stop [of 8 xs ys] by (cases ys) auto
qed simp

declare eol_fast.simps [simp del]

fun eol_plain :: "u8 list \<Rightarrow> u8 list res" where
  "eol_plain [] = Partial"
| "eol_plain (c # xs) = (if \<not> IS_PRINTABLE_ASCII c \<and> is_ctl c then Ok (c # xs) else eol_plain xs)"

text \<open>The end of a line at \<open>FOUND_CTL\<close> and after the version; both have made sure that there is a byte to read.\<close>

definition line_end :: "u8 list \<Rightarrow> (unit \<times> u8 list) res" where
  "line_end xs = (case xs of [] \<Rightarrow> Partial | c # ys \<Rightarrow> if c = 13 then expect_char 10 ys else if c = 10 then Ok ((), ys) else Bad)"

definition get_token_to_eol :: "u8 list \<Rightarrow> (u8 list \<times> u8 list) res" where
  "get_token_to_eol xs =
    (case (case eol_fast xs of Inl ys \<Rightarrow> Ok ys | Inr ys \<Rightarrow> eol_plain ys) of
       Ok ys \<Rightarrow> (case line_end ys of Ok (_, zs) \<Rightarrow> Ok (take (length xs - length ys) xs, zs) | Partial \<Rightarrow> Partial | Bad \<Rightarrow> Bad)
     | Partial \<Rightarrow> Partial | Bad \<Rightarrow> Bad)"

text \<open>A search for the empty line at the end of the headers; \<open>cnt\<close> is \<open>ret_cnt\<close>.\<close>

fun complete_loop :: "nat \<Rightarrow> u8 list \<Rightarrow> u8 list res" where
  "complete_loop cnt xs =
    (case xs of
       [] \<Rightarrow> Partial
     | c # ys \<Rightarrow>
        if c = 13 then
          (case ys of
             [] \<Rightarrow> Partial
           | d # zs \<Rightarrow> if d \<noteq> 10 then Bad else if cnt + 1 = 2 then Ok zs else complete_loop (cnt + 1) zs)
        else if c = 10 then (if cnt + 1 = 2 then Ok ys else complete_loop (cnt + 1) ys)
        else complete_loop 0 ys)"

declare complete_loop.simps [simp del]

definition is_complete :: "nat \<Rightarrow> u8 list \<Rightarrow> u8 list res" where
  "is_complete last_len xs = complete_loop 0 (if last_len < 3 then xs else drop (last_len - 3) xs)"

section \<open>Requests\<close>

definition parse_http_version :: "u8 list \<Rightarrow> (int \<times> u8 list) res" where
  "parse_http_version xs =
    (if length xs < 9 then Partial
     else if take 7 xs \<noteq> ascii ''HTTP/1.'' then Bad
     else if xs ! 7 < 48 \<or> 57 < xs ! 7 then Bad
     else Ok (uint (xs ! 7) - 48, drop 8 xs))"

text \<open>The bytes that have a 1 in \<open>token_char_map\<close>.\<close>

definition token_char :: "u8 \<Rightarrow> bool" where
  "token_char c \<longleftrightarrow> (48 \<le> c \<and> c \<le> 57) \<or> (65 \<le> c \<and> c \<le> 90) \<or> (97 \<le> c \<and> c \<le> 122) \<or> c \<in> set (ascii ''!#$%&*+-.^_`|~'') \<or> c = 39"

fun name_end :: "u8 list \<Rightarrow> u8 list res" where
  "name_end [] = Partial"
| "name_end (c # xs) = (if c = 58 then Ok (c # xs) else if \<not> token_char c then Bad else name_end xs)"

definition is_blank :: "u8 \<Rightarrow> bool" where "is_blank c \<longleftrightarrow> c = 32 \<or> c = 9"

text \<open>One header; a line that begins with a blank continues the one before (\<open>cont\<close>) and has no name.\<close>

definition header_line :: "bool \<Rightarrow> u8 list \<Rightarrow> ((u8 list option \<times> u8 list option) \<times> u8 list) res" where
  "header_line cont xs =
    (if \<not> (cont \<and> is_blank (hd xs))
     then case name_end xs of
        Partial \<Rightarrow> Partial | Bad \<Rightarrow> Bad
      | Ok ys \<Rightarrow>
         let name = take (length xs - length ys) xs in
         if length name = 0 then Bad
         else (case dropWhile is_blank (tl ys) of
                 [] \<Rightarrow> Partial
               | zs \<Rightarrow> andThen get_token_to_eol (\<lambda>value ws. Ok ((Some name, Some value), ws)) zs)
     else andThen get_token_to_eol (\<lambda>value ws. Ok ((None, Some value), ws)) xs)"

text \<open>What was parsed up to a point and the bytes behind it, in the order of the code: the empty line before a request, the method, the path, the version.\<close>

definition skip_empty_line :: "u8 list \<Rightarrow> (nat \<times> u8 list) res" where
  "skip_empty_line xs =
    (case xs of
       [] \<Rightarrow> Partial
     | c # ys \<Rightarrow>
        if c = 13 then andThen (expect_char 10) (\<lambda>_ zs. Ok (2, zs)) ys
        else if c = 10 then Ok (1, ys) else Ok (0, xs))"

definition token_space :: "u8 list \<Rightarrow> (u8 list \<times> u8 list) res" where
  "token_space = andThen advance_token (\<lambda>t ys. Ok (t, tl ys))"

definition method_stage :: "u8 list \<Rightarrow> ((nat \<times> u8 list) \<times> u8 list) res" where
  "method_stage = andThen skip_empty_line (\<lambda>n. andThen token_space (\<lambda>m ys. Ok ((n, m), ys)))"

definition version_line :: "u8 list \<Rightarrow> (int \<times> u8 list) res" where
  "version_line = andThen parse_http_version (\<lambda>v. andThen line_end (\<lambda>_ ys. Ok (v, ys)))"

definition max_headers :: nat where "max_headers = 100"

lemma dropWhile_stop: "dropWhile P xs = y # ys \<Longrightarrow> \<not> P y \<and> xs = takeWhile P xs @ y # ys"
  by (metis hd_dropWhile list.distinct(1) list.sel(1) takeWhile_dropWhile_id)

lemma take_takeWhile: "take (length xs - length (dropWhile P xs)) xs = takeWhile P xs"
  by (metis add_diff_cancel_right' append_eq_conv_conj length_append takeWhile_dropWhile_id)

definition token_byte :: "u8 \<Rightarrow> bool" where "token_byte c \<longleftrightarrow> \<not> (c < 32 \<or> c = 127 \<or> c = 32)"

lemma IS_PRINTABLE_iff: "IS_PRINTABLE_ASCII c \<longleftrightarrow> 32 \<le> c \<and> c < 127"
proof -
  have u: "unat (ucast c :: u32) = unat c" "unat c < 256" using unat_u8_less [of c] by (simp_all add: unsigned_ucast_eq take_bit_nat_eq_self)
  have "unat ((ucast c :: u32) - 32) = (if 32 \<le> unat c then unat c - 32 else unat c + 2 ^ 32 - 32)"
    using u by (simp add: unat_sub_if_size word_le_nat_alt word_size)
  then show ?thesis using u by (auto simp: IS_PRINTABLE_ASCII_def word_less_nat_alt word_le_nat_alt split: if_splits)
qed

definition line_byte :: "u8 \<Rightarrow> bool" where "line_byte c \<longleftrightarrow> \<not> is_ctl c"

lemma token_end_scan: "token_end xs = (case dropWhile token_byte xs of [] \<Rightarrow> Partial | y # ys \<Rightarrow> if y = 32 then Ok (y # ys) else Bad)"
  by (induction xs) (auto simp: token_byte_def IS_PRINTABLE_iff)

lemma printable_not_ctl: "IS_PRINTABLE_ASCII c \<Longrightarrow> \<not> is_ctl c"
  by (auto simp: IS_PRINTABLE_iff is_ctl_def)

lemma ctl_not_printable: "is_ctl c \<Longrightarrow> \<not> IS_PRINTABLE_ASCII c"
  using printable_not_ctl by blast

lemma eol_plain_scan: "eol_plain xs = (case dropWhile line_byte xs of [] \<Rightarrow> Partial | ys \<Rightarrow> Ok ys)"
  by (induction xs) (auto simp: ctl_not_printable line_byte_def)

lemma printable_run_scan: "printable_run n xs = (b, ys) \<Longrightarrow> dropWhile line_byte ys = dropWhile line_byte xs"
  by (induction n xs rule: printable_run.induct) (auto simp: printable_not_ctl line_byte_def split: if_splits)

lemma eol_fast_scan: "(case eol_fast xs of Inl ys \<Rightarrow> Ok ys | Inr ys \<Rightarrow> eol_plain ys) = (case dropWhile line_byte xs of [] \<Rightarrow> Partial | ys \<Rightarrow> Ok ys)"
proof (induction xs rule: eol_fast.induct)
  case (1 xs)
  show ?case
  proof (cases "length xs < 8")
    case True
    then show ?thesis by (simp add: eol_fast.simps eol_plain_scan)
  next
    case False
    obtain b ys where r: "printable_run 8 xs = (b, ys)" by fastforce
    note s = printable_run_scan [OF r]
    show ?thesis
    proof (cases b)
      case True
      then show ?thesis using "1.IH"(1) [OF False r [symmetric]] r s False by (simp add: eol_fast.simps [of xs])
    next
      case stop: False
      then obtain c zs where y: "ys = c # zs" using printable_run_stop r by (cases ys) auto
      show ?thesis
      proof (cases "is_ctl c")
        case True
        then have "dropWhile line_byte xs = c # zs" using s y by (simp add: line_byte_def)
        then show ?thesis using r False stop y True by (simp add: eol_fast.simps [of xs])
      next
        case nc: False
        then have "dropWhile line_byte xs = dropWhile line_byte zs" using s y by (simp add: line_byte_def)
        then show ?thesis using "1.IH"(2) [OF False r [symmetric]] r False stop y nc by (simp add: eol_fast.simps [of xs])
      qed
    qed
  qed
qed

lemma name_end_scan: "name_end xs = (case dropWhile token_char xs of [] \<Rightarrow> Partial | y # ys \<Rightarrow> if y = 58 then Ok (y # ys) else Bad)"
  by (induction xs) (auto simp: token_char_def ascii_def)

section \<open>What a stage consumes\<close>

text \<open>Every carriage return is followed by a line feed.\<close>

fun clean_cr :: "u8 list \<Rightarrow> bool" where
  "clean_cr [] = True"
| "clean_cr [c] = (c \<noteq> 13)"
| "clean_cr (c # d # xs) = ((c = 13 \<longrightarrow> d = 10) \<and> clean_cr (d # xs))"

text \<open>A stage accepts \<open>c\<close> with value \<open>v\<close> whatever follows, and asks for more bytes on everything shorter.\<close>

definition consumes :: "(u8 list \<Rightarrow> ('a \<times> u8 list) res) \<Rightarrow> u8 list \<Rightarrow> 'a \<Rightarrow> bool" where
  "consumes p c v \<longleftrightarrow> c \<noteq> [] \<and> clean_cr c \<and> (\<forall>ys. p (c @ ys) = Ok (v, ys)) \<and> (\<forall>k<length c. p (take k c) = Partial)"

lemma consumesD:
  assumes "consumes p c v"
  shows "c \<noteq> []" "clean_cr c" "p (c @ ys) = Ok (v, ys)" "p c = Ok (v, [])" "k < length c \<Longrightarrow> p (take k c) = Partial"
  using assms [unfolded consumes_def] by (metis append_Nil2)+

lemma clean_cr_append: "clean_cr xs \<Longrightarrow> clean_cr ys \<Longrightarrow> clean_cr (xs @ ys)"
proof (induction xs rule: clean_cr.induct)
  case (2 c)
  then show ?case by (cases ys) auto
qed auto

lemma clean_cr_all: "list_all (\<lambda>c. c \<noteq> 13) xs \<Longrightarrow> clean_cr xs"
  by (induction xs rule: clean_cr.induct) auto

lemma consumes_seq:
  assumes p: "consumes p c v" and f: "consumes (f v) d w"
  shows "consumes (andThen p f) (c @ d) w"
proof -
  have "andThen p f (take k (c @ d)) = Partial" if k: "k < length (c @ d)" for k
  proof (cases "k < length c")
    case True
    then show ?thesis using consumesD(5) [OF p True] by (simp add: andThen_def)
  next
    case False
    then have "take k (c @ d) = c @ take (k - length c) d" by simp
    then show ?thesis using consumesD(3) [OF p] consumesD(5) [OF f, of "k - length c"] k False by (simp add: andThen_def)
  qed
  moreover have "andThen p f ((c @ d) @ ys) = Ok (w, ys)" for ys
    using consumesD(3) [OF p] consumesD(3) [OF f] by (simp add: andThen_def)
  ultimately show ?thesis using consumesD(1,2) [OF p] consumesD(2) [OF f] unfolding consumes_def by (simp add: clean_cr_append)
qed

lemma consumes_value: "consumes p c v \<Longrightarrow> consumes (andThen p (\<lambda>v ys. Ok (g v, ys))) c (g v)"
  by (auto simp: consumes_def andThen_def)

text \<open>A stage that skips the bytes with \<open>g\<close> and goes on with what stops it.\<close>

definition scan :: "(u8 \<Rightarrow> bool) \<Rightarrow> (u8 list \<Rightarrow> u8 list \<Rightarrow> 'a res) \<Rightarrow> u8 list \<Rightarrow> 'a res" where
  "scan g q xs = (case dropWhile g xs of [] \<Rightarrow> Partial | y # ys \<Rightarrow> q (takeWhile g xs) (y # ys))"

lemma consumes_scan:
  assumes d: "consumes (q t) d w" "\<not> g (hd d)" and t: "list_all g t" "\<not> g 13"
  shows "consumes (scan g q) (t @ d) w"
proof -
  obtain e ds where e: "d = e # ds" "\<not> g e" using consumesD(1) [OF d(1)] d(2) by (cases d) auto
  have all: "\<forall>x\<in>set t. g x" using t(1) by (simp add: list_all_iff)
  have dw: "scan g q (t @ e # ys) = q t (e # ys)" for ys
    using all e(2) by (simp add: scan_def takeWhile_append2)
  have "scan g q ((t @ d) @ ys) = Ok (w, ys)" for ys
    using dw [of "ds @ ys"] consumesD(3) [OF d(1), of ys] e by simp
  moreover have "scan g q (take k (t @ d)) = Partial" if k: "k < length (t @ d)" for k
  proof (cases "k \<le> length t")
    case True
    have "\<forall>x\<in>set (take k t). g x" using all by (meson in_set_takeD)
    then have dn: "dropWhile g (take k t) = []" by simp
    show ?thesis using True by (simp add: scan_def dn)
  next
    case False
    then obtain j where j: "k = length t + Suc j" by (metis add_Suc_right less_imp_Suc_add not_le)
    then have "take k (t @ d) = t @ e # take j ds" by (simp add: e)
    moreover have "q t (e # take j ds) = Partial" using consumesD(5) [OF d(1), of "Suc j"] k j by (simp add: e)
    ultimately show ?thesis using dw by simp
  qed
  moreover have "clean_cr t" by (rule clean_cr_all) (use t in \<open>auto simp: list_all_iff\<close>)
  ultimately show ?thesis using consumesD(1,2) [OF d(1)] clean_cr_append unfolding consumes_def by fastforce
qed

lemma list_all_takeWhile: "list_all P (takeWhile P xs)"
  by (induction xs) auto

text \<open>The interface of a stage, and of two stages one after the other.\<close>

locale incremental =
  fixes p :: "u8 list \<Rightarrow> ('a \<times> u8 list) res"
  assumes accepted: "p xs = Ok (v, rest) \<Longrightarrow> \<exists>c. xs = c @ rest \<and> consumes p c v"
begin

lemma shorter: "p xs = Ok (v, rest) \<Longrightarrow> length rest < length xs"
  using accepted [of xs v rest] consumesD(1) by fastforce

lemma accepts_more: "p xs = Ok (v, rest) \<Longrightarrow> p (xs @ ys) = Ok (v, rest @ ys)"
  using accepted [of xs v rest] consumesD(3) [of p] by fastforce

lemma whole: "p xs = Ok (v, []) \<Longrightarrow> consumes p xs v"
  using accepted [of xs v "[]"] by auto

end

locale incremental_seq = incremental p for p :: "u8 list \<Rightarrow> ('a \<times> u8 list) res" +
  fixes f :: "'a \<Rightarrow> u8 list \<Rightarrow> ('b \<times> u8 list) res"
  assumes next_stage: "incremental (f v)"
begin

lemma seq_accepted: "andThen p f xs = Ok (w, rest) \<Longrightarrow> \<exists>c. xs = c @ rest \<and> consumes (andThen p f) c w"
proof -
  assume "andThen p f xs = Ok (w, rest)"
  then obtain v ys where v: "p xs = Ok (v, ys)" "f v ys = Ok (w, rest)" by (auto simp: andThen_def split: res.splits)
  obtain c where c: "xs = c @ ys" "consumes p c v" using accepted [OF v(1)] by blast
  obtain d where d: "ys = d @ rest" "consumes (f v) d w" using incremental.accepted [OF next_stage v(2)] by blast
  show ?thesis using consumes_seq [of p c v f d w, OF c(2) d(2)] c(1) d(1) by auto
qed

end

sublocale incremental_seq \<subseteq> seq: incremental "andThen p f"
  by unfold_locales (rule seq_accepted)

lemma incremental_value: "incremental p \<Longrightarrow> incremental (andThen p (\<lambda>v ys. Ok (g v, ys)))"
proof
  fix xs w rest assume p: "incremental p" "andThen p (\<lambda>v ys. Ok (g v, ys)) xs = Ok (w, rest)"
  then obtain v where v: "p xs = Ok (v, rest)" "w = g v" by (auto simp: andThen_def split: res.splits)
  then show "\<exists>c. xs = c @ rest \<and> consumes (andThen p (\<lambda>v ys. Ok (g v, ys))) c w"
    using incremental.accepted [OF p(1) v(1)] consumes_value by fastforce
qed

lemma incremental_scan:
  assumes "\<And>t. incremental (q t)" "\<not> g 13"
  shows "incremental (scan g q)"
proof
  fix xs w rest assume s: "scan g q xs = Ok (w, rest)"
  then obtain y ys where y: "dropWhile g xs = y # ys" "q (takeWhile g xs) (y # ys) = Ok (w, rest)" by (auto simp: scan_def split: list.splits)
  obtain d where d: "y # ys = d @ rest" "consumes (q (takeWhile g xs)) d w" using incremental.accepted [OF assms(1) y(2)] by blast
  have "hd d = y" using d(1) consumesD(1) [OF d(2)] by (cases d) auto
  then have "consumes (scan g q) (takeWhile g xs @ d) w" using consumes_scan [of q "takeWhile g xs" d w g] d(2) list_all_takeWhile [of g xs] assms(2) dropWhile_stop [OF y(1)] by simp
  then show "\<exists>c. xs = c @ rest \<and> consumes (scan g q) c w" using dropWhile_stop [OF y(1)] d(1) by (metis append.assoc)
qed

section \<open>The stages\<close>

interpretation line: incremental line_end
proof
  fix xs :: "u8 list" and u rest assume "line_end xs = Ok (u, rest)"
  then have "xs = [13, 10] @ rest \<or> xs = [10] @ rest" by (auto simp: line_end_def expect_char_def split: list.splits if_splits)
  moreover have "consumes line_end [13, 10] u" "consumes line_end [10] u"
    by (auto simp: consumes_def line_end_def expect_char_def less_Suc_eq)
  ultimately show "\<exists>c. xs = c @ rest \<and> consumes line_end c u" by blast
qed

lemma incremental_expect: "ch \<noteq> 13 \<Longrightarrow> incremental (expect_char ch)"
proof
  fix xs u rest assume "ch \<noteq> 13" "expect_char ch xs = Ok (u, rest)"
  then have "xs = [ch] @ rest" "consumes (expect_char ch) [ch] u"
    by (auto simp: consumes_def expect_char_def split: list.splits if_splits)
  then show "\<exists>c. xs = c @ rest \<and> consumes (expect_char ch) c u" by blast
qed

lemma incremental_bad: "incremental (\<lambda>_. Bad)"
  by unfold_locales simp

lemma incremental_andThen: "incremental p \<Longrightarrow> (\<And>v. incremental (f v)) \<Longrightarrow> incremental (andThen p f)"
  using incremental_seq.seq_accepted [of p f] by (simp add: incremental_def incremental_seq_def incremental_seq_axioms_def)

lemma token_space_scan: "token_space = scan token_byte (\<lambda>t. andThen (expect_char 32) (\<lambda>_ ys. Ok (t, ys)))"
proof
  fix xs :: "u8 list"
  note dropWhile_eq_Nil_conv [simp del]
  show "token_space xs = scan token_byte (\<lambda>t. andThen (expect_char 32) (\<lambda>_ ys. Ok (t, ys))) xs"
    using take_takeWhile [of xs token_byte] unfolding token_space_def andThen_def advance_token_def token_end_scan scan_def expect_char_def
    by (cases "dropWhile token_byte xs") simp_all
qed

interpretation token: incremental token_space
  unfolding token_space_scan by (intro incremental_scan incremental_value [where g = "\<lambda>_. _"] incremental_expect) (simp_all add: token_byte_def)

lemma get_token_to_eol_scan: "get_token_to_eol = scan line_byte (\<lambda>t. andThen line_end (\<lambda>_ ys. Ok (t, ys)))"
proof
  fix xs :: "u8 list"
  note dropWhile_eq_Nil_conv [simp del]
  show "get_token_to_eol xs = scan line_byte (\<lambda>t. andThen line_end (\<lambda>_ ys. Ok (t, ys))) xs"
    using take_takeWhile [of xs line_byte] unfolding get_token_to_eol_def eol_fast_scan andThen_def scan_def
    by (cases "dropWhile line_byte xs") (simp_all split: res.split)
qed

interpretation eol: incremental get_token_to_eol
  unfolding get_token_to_eol_scan
  by (intro incremental_scan incremental_value [where g = "\<lambda>_. _"] line.incremental_axioms) (simp add: line_byte_def is_ctl_def)

definition named_header :: "u8 list \<Rightarrow> ((u8 list option \<times> u8 list option) \<times> u8 list) res" where
  "named_header = scan token_char (\<lambda>name. if name = [] then (\<lambda>_. Bad) else
     andThen (expect_char 58) (\<lambda>_. scan is_blank (\<lambda>_. andThen get_token_to_eol (\<lambda>value ys. Ok ((Some name, Some value), ys)))))"

lemma header_line_stages: "header_line cont xs = (if \<not> (cont \<and> is_blank (hd xs)) then named_header xs else andThen get_token_to_eol (\<lambda>value ws. Ok ((None, Some value), ws)) xs)"
proof (cases "dropWhile token_char xs")
  case Nil
  note dropWhile_eq_Nil_conv [simp del]
  show ?thesis by (simp add: header_line_def named_header_def name_end_scan scan_def Nil)
next
  case (Cons y ys)
  note dropWhile_eq_Nil_conv [simp del] takeWhile_eq_Nil_iff [simp del]
  have t: "take (length xs - Suc (length ys)) xs = takeWhile token_char xs" using take_takeWhile [of xs token_char] by (simp add: Cons)
  show ?thesis
  proof (cases "takeWhile token_char xs")
    case Nil
    then show ?thesis using t by (simp add: header_line_def named_header_def name_end_scan scan_def Cons Let_def)
  next
    case (Cons a as)
    then show ?thesis using t \<open>dropWhile token_char xs = y # ys\<close>
      by (simp add: header_line_def named_header_def name_end_scan scan_def expect_char_def andThen_def [of "\<lambda>xs. case xs of [] \<Rightarrow> _ xs | _ # _ \<Rightarrow> _ xs"] andThen_def Let_def)
  qed
qed

lemma incremental_named: "incremental (\<lambda>xs. andThen (expect_char 58) (\<lambda>_. scan is_blank (\<lambda>_. andThen get_token_to_eol (\<lambda>value ys. Ok ((Some name, Some value), ys)))) xs)"
  by (rule incremental_andThen; (rule incremental_scan)?; (rule incremental_value)?)
    (auto simp: is_blank_def intro: incremental_expect eol.incremental_axioms)

interpretation named: incremental named_header
  unfolding named_header_def
  by (rule incremental_scan) (auto intro: incremental_bad incremental_named simp: token_char_def ascii_def)

text \<open>A line with a name, or one that continues the line before; which of them is decided by the first byte.\<close>

lemma consumes_by_head:
  assumes "consumes p c v" "\<And>ys. hd (c @ ys) = hd c \<Longrightarrow> q (c @ ys) = p (c @ ys)" "\<And>k. 0 < k \<Longrightarrow> k < length c \<Longrightarrow> hd (take k c) = hd c \<Longrightarrow> q (take k c) = p (take k c)" "q [] = Partial"
  shows "consumes q c v"
proof -
  have "q (take k c) = Partial" if k: "k < length c" for k
  proof (cases k)
    case 0
    then show ?thesis using assms(4) by simp
  next
    case (Suc j)
    then have "hd (take k c) = hd c" using k by (cases c) auto
    then show ?thesis using assms(3) [of k] consumesD(5) [OF assms(1) k] k Suc by simp
  qed
  moreover have "hd (c @ ys) = hd c" for ys using consumesD(1) [OF assms(1)] by (cases c) auto
  ultimately show ?thesis using assms(1,2) unfolding consumes_def by simp
qed

interpretation header: incremental "header_line cont"
proof
  fix xs h rest assume h: "header_line cont xs = Ok (h, rest)"
  let ?cont = "andThen get_token_to_eol (\<lambda>value ws. Ok ((None, Some value), ws)) :: u8 list \<Rightarrow> ((u8 list option \<times> u8 list option) \<times> u8 list) res"
  let ?p = "if \<not> (cont \<and> is_blank (hd xs)) then named_header else ?cont"
  have empty: "header_line cont [] = Partial"
    by (simp add: header_line_stages named_header_def get_token_to_eol_scan andThen_def scan_def)
  have i: "incremental ?p" using incremental_value [OF eol.incremental_axioms, of "\<lambda>value. (None :: u8 list option, Some value)"] named.incremental_axioms by simp
  have o: "?p xs = Ok (h, rest)" using h by (auto simp: header_line_stages split: if_splits)
  obtain c where c: "xs = c @ rest" "consumes ?p c h" using incremental.accepted [OF i o] by blast
  have "hd xs = hd c" using c(1) consumesD(1) [OF c(2)] by (cases c) auto
  then have "consumes (header_line cont) c h"
    by (intro consumes_by_head [OF c(2)] empty) (simp_all add: header_line_stages)
  then show "\<exists>c. xs = c @ rest \<and> consumes (header_line cont) c h" using c(1) by blast
qed

interpretation version: incremental version_line
proof
  fix xs v rest assume "version_line xs = Ok (v, rest)"
  then have l: "\<not> length xs < 9" "take 7 xs = ascii ''HTTP/1.''" "\<not> (xs ! 7 < 48 \<or> 57 < xs ! 7)" "v = uint (xs ! 7) - 48" "line_end (drop 8 xs) = Ok ((), rest)"
    by (auto simp: version_line_def andThen_def parse_http_version_def split: res.splits if_splits)
  obtain e where e: "drop 8 xs = e @ rest" "consumes line_end e ()" using line.accepted [OF l(5)] by blast
  define t where "t = take 8 xs"
  have t: "length t = 8" "take 7 t = ascii ''HTTP/1.''" "t ! 7 = xs ! 7" using l(1,2) by (simp_all add: t_def)
  have x: "xs = t @ e @ rest" using e(1) by (metis append_take_drop_id t_def)
  have c13: "clean_cr t"
  proof (rule clean_cr_all)
    have "take (Suc 7) t = take 7 t @ [t ! 7]" by (rule take_Suc_conv_app_nth) (simp add: t(1))
    then have u: "t = ascii ''HTTP/1.'' @ [t ! 7]" using t(1,2) by simp
    have "list_all (\<lambda>c. c \<noteq> 13) (ascii ''HTTP/1.'')" by (simp add: ascii_def)
    moreover have "t ! 7 \<noteq> 13" using l(3) t(3) by auto
    ultimately show "list_all (\<lambda>c. c \<noteq> 13) t" by (subst u) simp
  qed
  have p: "parse_http_version (t @ y # ys) = Ok (v, y # ys)" for y ys
    using t l(3,4) by (simp add: parse_http_version_def nth_append)
  have e0: "e \<noteq> []" using consumesD(1) [OF e(2)] .
  have "version_line ((t @ e) @ ys) = Ok (v, ys)" for ys
    using e0 p consumesD(3) [OF e(2)] by (cases e) (simp_all add: version_line_def andThen_def)
  moreover have "version_line (take k (t @ e)) = Partial" if k: "k < length (t @ e)" for k
  proof (cases "k < 9")
    case True
    then have "length (take k (t @ e)) < 9" unfolding length_take by simp
    then show ?thesis unfolding version_line_def andThen_def parse_http_version_def by simp
  next
    case False
    then have tk: "take k (t @ e) = t @ take (k - 8) e" using t(1) by simp
    have "take (k - 8) e \<noteq> []" using False e0 by auto
    then obtain y ys where y: "take (k - 8) e = y # ys" by (cases "take (k - 8) e") auto
    then show ?thesis using p [of y ys] consumesD(5) [OF e(2), of "k - 8"] k False t(1) tk by (simp add: version_line_def andThen_def)
  qed
  ultimately have "consumes version_line (t @ e) v"
    using clean_cr_append [OF c13 consumesD(2) [OF e(2)]] e0 unfolding consumes_def by simp
  then show "\<exists>c. xs = c @ rest \<and> consumes version_line c v" using x by (intro exI [of _ "t @ e"]) simp
qed

interpretation method_token: incremental method_stage
proof
  fix xs v rest assume m: "method_stage xs = Ok (v, rest)"
  let ?tok = "\<lambda>n. andThen token_space (\<lambda>m ys. Ok ((n, m), ys))"
  have tok: "incremental (?tok n)" for n :: nat using incremental_value [OF token.incremental_axioms, of "\<lambda>m. (n, m)"] .
  have none: "?tok n [] = Partial" for n :: nat by (simp add: token_space_scan scan_def andThen_def)
  obtain n ys where n: "skip_empty_line xs = Ok (n, ys)" "?tok n ys = Ok (v, rest)" using m by (auto simp: method_stage_def andThen_def split: res.splits)
  obtain c where c: "ys = c @ rest" "consumes (?tok n) c v" using incremental.accepted [OF tok n(2)] by blast
  have "xs = 13 # 10 # ys \<and> n = 2 \<or> xs = 10 # ys \<and> n = 1 \<or> xs = ys \<and> n = 0 \<and> hd xs \<noteq> 13 \<and> hd xs \<noteq> 10"
    using n(1) by (auto simp: skip_empty_line_def andThen_def expect_char_def split: list.splits if_splits)
  then consider "xs = [13, 10] @ ys" "n = 2" | "xs = [10] @ ys" "n = 1" | "xs = ys" "n = 0" "hd xs \<noteq> 13" "hd xs \<noteq> 10" by auto
  then show "\<exists>c. xs = c @ rest \<and> consumes method_stage c v"
  proof cases
    case 1
    have "consumes skip_empty_line [13, 10] n"
      using 1 by (auto simp: consumes_def skip_empty_line_def andThen_def expect_char_def less_Suc_eq)
    then show ?thesis using consumes_seq [of skip_empty_line "[13, 10]" n ?tok c v] c 1 unfolding method_stage_def by auto
  next
    case 2
    have "consumes skip_empty_line [10] n" using 2 by (auto simp: consumes_def skip_empty_line_def)
    then show ?thesis using consumes_seq [of skip_empty_line "[10]" n ?tok c v] c 2 unfolding method_stage_def by auto
  next
    case 3
    have hc: "hd c = hd xs" using 3(1) c(1) consumesD(1) [OF c(2)] by (cases c) auto
    have skip: "method_stage zs = ?tok n zs" if "zs \<noteq> []" "hd zs = hd c" for zs
      using that hc 3 by (cases zs) (simp_all add: method_stage_def skip_empty_line_def andThen_def)
    have "consumes method_stage c v"
      by (rule consumes_by_head [OF c(2)]) (use skip consumesD(1) [OF c(2)] in \<open>auto simp: method_stage_def skip_empty_line_def andThen_def\<close>)
    then show ?thesis using c(1) 3(1) by auto
  qed
qed

section \<open>The parser\<close>

function parse_headers :: "(u8 list option \<times> u8 list option) list \<Rightarrow> u8 list \<Rightarrow> ((u8 list option \<times> u8 list option) list \<times> u8 list) res" where
  "parse_headers hs xs =
    (case xs of
       [] \<Rightarrow> Partial
     | c # ys \<Rightarrow>
        if c = 13 then andThen (expect_char 10) (\<lambda>_ zs. Ok (hs, zs)) ys
        else if c = 10 then Ok (hs, ys)
        else if length hs = max_headers then Bad
        else (case header_line (length hs \<noteq> 0) xs of
                Ok (h, zs) \<Rightarrow> parse_headers (hs @ [h]) zs
              | Partial \<Rightarrow> Partial | Bad \<Rightarrow> Bad))"
  by pat_completeness auto
termination
  by (relation "measure (\<lambda>(hs, xs). length xs)") (auto dest: header.shorter)

declare parse_headers.simps [simp del]

record http_request =
  hr_method :: "u8 list option"
  hr_path :: "(nat \<times> nat) option"
  hr_minor :: int
  hr_headers :: "(u8 list option \<times> u8 list option) list"

definition parse_request :: "u8 list \<Rightarrow> (http_request \<times> u8 list) res" where
  "parse_request =
    andThen method_stage (\<lambda>(skipped, meth). andThen token_space (\<lambda>path. andThen version_line (\<lambda>minor. andThen (parse_headers []) (\<lambda>headers ys.
      Ok (\<lparr>hr_method = Some meth, hr_path = Some (skipped + length meth + 1, length path), hr_minor = minor, hr_headers = headers\<rparr>, ys)))))"

text \<open>The value is the request with the number of bytes it has. The caller passes as \<open>last_len\<close> how many bytes the buffer had at the call before.\<close>

datatype parsed = Parse_ok http_request nat | Parse_partial | Parse_error

definition phr_parse_request :: "u8 list \<Rightarrow> nat \<Rightarrow> parsed" where
  "phr_parse_request buf last_len =
    (let incomplete = (if last_len \<noteq> 0 then is_complete last_len buf else Ok [])
     in case incomplete of
          Partial \<Rightarrow> Parse_partial
        | Bad \<Rightarrow> Parse_error
        | Ok _ \<Rightarrow>
           (case parse_request buf of
              Ok (r, rest) \<Rightarrow> Parse_ok r (length buf - length rest)
            | Partial \<Rightarrow> Parse_partial
            | Bad \<Rightarrow> Parse_error))"

lemma parse_headers_accepted: "parse_headers hs xs = Ok (v, rest) \<Longrightarrow> \<exists>c. xs = c @ rest \<and> consumes (parse_headers hs) c v"
proof (induction hs xs rule: parse_headers.induct)
  case (1 hs xs)
  note p = "1.prems" [unfolded parse_headers.simps [of hs xs]]
  obtain y ys where x: "xs = y # ys" using p by (cases xs) auto
  consider "y = 13" | "y = 10" | "y \<noteq> 13" "y \<noteq> 10" by blast
  then show ?case
  proof cases
    case 1
    then have "xs = [13, 10] @ rest" "v = hs" using p x by (auto simp: andThen_def expect_char_def split: list.splits if_splits)
    moreover have "consumes (parse_headers hs) [13, 10] hs"
      by (auto simp: consumes_def parse_headers.simps andThen_def expect_char_def less_Suc_eq)
    ultimately show ?thesis by blast
  next
    case 2
    then have "xs = [10] @ rest" "v = hs" using p x by auto
    moreover have "consumes (parse_headers hs) [10] hs" by (auto simp: consumes_def parse_headers.simps)
    ultimately show ?thesis by blast
  next
    case 3
    then have m: "length hs \<noteq> max_headers" using p x by (auto split: if_splits)
    obtain h zs where h: "header_line (length hs \<noteq> 0) xs = Ok (h, zs)" "parse_headers (hs @ [h]) zs = Ok (v, rest)"
      using p x 3 m by (auto split: res.splits)
    obtain d where d: "zs = d @ rest" "consumes (parse_headers (hs @ [h])) d v"
      using "1.IH" [OF x 3 m h(1) refl h(2)] by blast
    obtain c where c: "xs = c @ zs" "consumes (header_line (length hs \<noteq> 0)) c h" using header.accepted [OF h(1)] by blast
    have s: "consumes (andThen (header_line (length hs \<noteq> 0)) (\<lambda>h. parse_headers (hs @ [h]))) (c @ d) v"
      using consumes_seq [of "header_line (length hs \<noteq> 0)" c h "\<lambda>h. parse_headers (hs @ [h])"] c(2) d(2) by blast
    have hc: "hd (c @ d) = y" using c(1) x consumesD(1) [OF c(2)] by (cases c) auto
    have step: "parse_headers hs ws = andThen (header_line (length hs \<noteq> 0)) (\<lambda>h. parse_headers (hs @ [h])) ws" if "ws \<noteq> []" "hd ws = y" for ws
      using that 3 m by (cases ws) (simp_all add: parse_headers.simps [of hs] andThen_def)
    have "consumes (parse_headers hs) (c @ d) v"
      by (rule consumes_by_head [OF s]) (use step hc consumesD(1) [OF s] in \<open>auto simp: parse_headers.simps [of _ "[]"]\<close>)
    then show ?thesis using c(1) d(1) by (metis append.assoc)
  qed
qed

interpretation headers: incremental "parse_headers hs"
  by unfold_locales (rule parse_headers_accepted)

interpretation request: incremental parse_request
  unfolding parse_request_def
  by (intro incremental_andThen method_token.incremental_axioms)
    (auto intro!: incremental_andThen token.incremental_axioms version.incremental_axioms
      incremental_value [where g = "\<lambda>headers. \<lparr>hr_method = _, hr_path = _, hr_minor = _, hr_headers = headers\<rparr>"] headers.incremental_axioms split: prod.split)

interpretation path_version: incremental_seq token_space "\<lambda>_. version_line" by unfold_locales

section \<open>The empty line at the end\<close>

lemma line_end_lf: "line_end xs = Ok (u, rest) \<Longrightarrow> \<exists>a. xs = a @ 10 # rest"
  by (auto simp: line_end_def expect_char_def split: list.splits if_splits intro: exI [of _ "[]"] exI [of _ "[13]"])

lemma scan_lf:
  assumes "scan g q xs = Ok (w, rest)" "\<And>t zs. q t zs = Ok (w, rest) \<Longrightarrow> \<exists>a. zs = a @ 10 # rest"
  shows "\<exists>a. xs = a @ 10 # rest"
proof -
  obtain y ys where "dropWhile g xs = y # ys" "q (takeWhile g xs) (y # ys) = Ok (w, rest)" using assms(1) by (auto simp: scan_def split: list.splits)
  then show ?thesis using assms(2) [of "takeWhile g xs" "y # ys"] dropWhile_stop [of g xs y ys] by (metis append.assoc)
qed

lemma andThen_lf:
  assumes "andThen p f xs = Ok (w, rest)" "\<And>v zs. f v zs = Ok (w, rest) \<Longrightarrow> \<exists>a. zs = a @ 10 # rest" "incremental p"
  shows "\<exists>a. xs = a @ 10 # rest"
proof -
  obtain v zs where v: "p xs = Ok (v, zs)" "f v zs = Ok (w, rest)" using assms(1) by (auto simp: andThen_def split: res.splits)
  then show ?thesis using incremental.accepted [OF assms(3) v(1)] assms(2) [OF v(2)] by (metis append.assoc)
qed

lemma andThen_value_lf: "andThen p (\<lambda>v ys. Ok (g v, ys)) xs = Ok (w, rest) \<Longrightarrow> (\<And>v. p xs = Ok (v, rest) \<Longrightarrow> \<exists>a. xs = a @ 10 # rest) \<Longrightarrow> \<exists>a. xs = a @ 10 # rest"
  by (auto simp: andThen_def split: res.splits)

lemma get_token_to_eol_lf: "get_token_to_eol xs = Ok (v, rest) \<Longrightarrow> \<exists>a. xs = a @ 10 # rest"
  unfolding get_token_to_eol_scan by (elim scan_lf andThen_value_lf) (rule line_end_lf)

lemma named_header_lf: "named_header xs = Ok (h, rest) \<Longrightarrow> \<exists>a. xs = a @ 10 # rest"
  unfolding named_header_def
  by (elim scan_lf, auto split: if_splits elim!: andThen_lf scan_lf andThen_value_lf intro: get_token_to_eol_lf incremental_expect)

lemma header_line_lf: "header_line cont xs = Ok (h, rest) \<Longrightarrow> \<exists>a. xs = a @ 10 # rest"
  by (auto simp: header_line_stages split: if_splits intro: named_header_lf elim!: andThen_value_lf get_token_to_eol_lf)

lemma version_line_lf: "version_line xs = Ok (v, rest) \<Longrightarrow> \<exists>a. xs = a @ 10 # rest"
proof -
  assume "version_line xs = Ok (v, rest)"
  then have "line_end (drop 8 xs) = Ok ((), rest)"
    by (auto simp: version_line_def andThen_def parse_http_version_def split: res.splits if_splits)
  then show ?thesis using line_end_lf by (metis append.assoc append_take_drop_id)
qed

text \<open>The end of a line and an empty line.\<close>

definition empty_lines :: "u8 list list" where "empty_lines = [[10, 10], [10, 13, 10]]"

lemma parse_headers_end: "parse_headers hs xs = Ok (v, rest) \<Longrightarrow> \<exists>a. \<exists>e\<in>set empty_lines. 10 # xs = a @ e @ rest"
proof (induction hs xs rule: parse_headers.induct)
  case (1 hs xs)
  note p = "1.prems" [unfolded parse_headers.simps [of hs xs]]
  obtain y ys where x: "xs = y # ys" using p by (cases xs) auto
  consider "y = 13" | "y = 10" | "y \<noteq> 13" "y \<noteq> 10" by blast
  then show ?case
  proof cases
    case 1
    then have "10 # xs = [] @ [10, 13, 10] @ rest" using p x by (auto simp: andThen_def expect_char_def split: list.splits if_splits)
    then show ?thesis unfolding empty_lines_def by (metis list.set_intros)
  next
    case 2
    then have "10 # xs = [] @ [10, 10] @ rest" using p x by auto
    then show ?thesis unfolding empty_lines_def by (metis list.set_intros)
  next
    case 3
    then have m: "length hs \<noteq> max_headers" using p x by (auto split: if_splits)
    obtain h zs where h: "header_line (length hs \<noteq> 0) xs = Ok (h, zs)" "parse_headers (hs @ [h]) zs = Ok (v, rest)"
      using p x 3 m by (auto split: res.splits)
    obtain a e where a: "10 # zs = a @ e @ rest" "e \<in> set empty_lines" using "1.IH" [OF x 3 m h(1) refl h(2)] by blast
    obtain b where "xs = b @ 10 # zs" using header_line_lf [OF h(1)] by blast
    then have "10 # xs = (10 # b @ a) @ e @ rest" using a(1) by simp
    then show ?thesis using a(2) by blast
  qed
qed

lemma parse_request_end: "parse_request xs = Ok (r, rest) \<Longrightarrow> \<exists>a. \<exists>e\<in>set empty_lines. xs = a @ e @ rest"
proof -
  assume "parse_request xs = Ok (r, rest)"
  then obtain m ys p zs v ws hs where s: "method_stage xs = Ok (m, ys)" "token_space ys = Ok (p, zs)" "version_line zs = Ok (v, ws)" "parse_headers [] ws = Ok (hs, rest)"
    by (auto simp: parse_request_def andThen_def split: res.splits)
  obtain c d where "xs = c @ ys" "ys = d @ zs" using method_token.accepted [OF s(1)] token.accepted [OF s(2)] by blast
  moreover obtain b where "zs = b @ 10 # ws" using version_line_lf [OF s(3)] by blast
  moreover obtain a e where "10 # ws = a @ e @ rest" "e \<in> set empty_lines" using parse_headers_end [OF s(4)] by blast
  ultimately have "xs = (c @ d @ b @ a) @ e @ rest" "e \<in> set empty_lines" by simp_all
  then show ?thesis by blast
qed

lemma complete_loop_found: "clean_cr (s @ e) \<Longrightarrow> e \<in> set empty_lines \<Longrightarrow> cnt < 2 \<Longrightarrow> \<exists>ys. complete_loop cnt (s @ e @ rest) = Ok ys"
proof (induction "length s" arbitrary: s cnt rule: less_induct)
  case less
  have e: "e = [10, 10] \<or> e = [10, 13, 10]" using less.prems(2) by (auto simp: empty_lines_def)
  have cnt: "cnt = 0 \<or> cnt = 1" using less.prems(3) by auto
  show ?case
  proof (cases s)
    case Nil
    then show ?thesis using e cnt by (auto simp: complete_loop.simps)
  next
    case (Cons c s')
    note ih = less.hyps [of s' "if c = 10 then cnt + 1 else 0"]
    show ?thesis
    proof (cases "c = 13")
      case True
      show ?thesis
      proof (cases s')
        case Nil
        then show ?thesis using e cnt Cons True by (auto simp: complete_loop.simps)
      next
        case s'': (Cons d s'')
        have d: "d = 10" using less.prems(1) by (simp add: Cons s'' True)
        have "clean_cr (s'' @ e)" using less.prems(1) by (cases "s'' @ e") (simp_all add: Cons s'' True d)
        then show ?thesis using less.hyps [of s'' "cnt + 1"] less.prems(2) cnt by (auto simp: Cons s'' True d complete_loop.simps [of _ "_ # _"])
      qed
    next
      case False
      have "clean_cr (s' @ e)" using less.prems(1) by (cases "s' @ e") (simp_all add: Cons)
      then show ?thesis using ih less.prems(2) cnt False by (auto simp: Cons complete_loop.simps [of _ "_ # _"])
    qed
  qed
qed

lemma complete_loop_no_error: "clean_cr xs \<Longrightarrow> complete_loop cnt (take k xs) \<noteq> Bad"
proof (induction "length xs" arbitrary: xs cnt k rule: less_induct)
  case less
  show ?case
  proof (cases xs)
    case Nil
    then show ?thesis by (simp add: complete_loop.simps)
  next
    case (Cons c ys)
    have cl: "clean_cr ys" using less.prems by (cases ys) (simp_all add: Cons)
    show ?thesis
    proof (cases k)
      case 0
      then show ?thesis by (simp add: complete_loop.simps)
    next
      case (Suc j)
      show ?thesis
      proof (cases "c = 13 \<and> j \<noteq> 0")
        case True
        obtain zs where y: "ys = 10 # zs" using less.prems True by (cases ys) (auto simp: Cons)
        have "clean_cr zs" using cl by (cases zs) (simp_all add: y)
        then show ?thesis using less.hyps [of zs "cnt + 1" "j - 1"] True by (cases j) (auto simp: Cons Suc y complete_loop.simps [of _ "_ # _"])
      next
        case False
        then show ?thesis using less.hyps [of ys "if c = 10 then cnt + 1 else 0" j] cl by (auto simp: Cons Suc complete_loop.simps [of _ "_ # _"] split: if_splits)
      qed
    qed
  qed
qed

lemma clean_cr_drop: "clean_cr xs \<Longrightarrow> clean_cr (drop j xs)"
proof (induction xs arbitrary: j)
  case (Cons c xs)
  then show ?case by (cases j; cases xs) auto
qed simp

lemma is_complete_found:
  assumes "parse_request x = Ok (r, [])" "prev < length x"
  shows "\<exists>ys. is_complete prev (x @ rest) = Ok ys"
proof -
  define j where "j = (if prev < 3 then 0 else prev - 3)"
  obtain a e where x: "x = a @ e" "e \<in> set empty_lines" using parse_request_end [OF assms(1)] by auto
  have c: "clean_cr x" using consumesD(2) [OF request.whole [OF assms(1)]] .
  have "length e \<le> 3" using x(2) by (auto simp: empty_lines_def)
  then have j: "j \<le> length a" using assms(2) x(1) by (auto simp: j_def)
  then have "drop j x = drop j a @ e" using x(1) by simp
  then have "\<exists>ys. complete_loop 0 (drop j a @ e @ rest) = Ok ys" using complete_loop_found [of "drop j a" e 0 rest] clean_cr_drop [OF c, of j] x(2) by simp
  moreover have "is_complete prev (x @ rest) = complete_loop 0 (drop j a @ e @ rest)" using j x(1) by (auto simp: is_complete_def j_def)
  ultimately show ?thesis by simp
qed

lemma is_complete_no_error: "clean_cr x \<Longrightarrow> is_complete prev (take k x) \<noteq> Bad"
  using complete_loop_no_error [of x 0 k] complete_loop_no_error [OF clean_cr_drop [of x "prev - 3"], of 0 "k - (prev - 3)"]
  unfolding is_complete_def drop_take by (metis (full_types))

lemma phr_whole:
  assumes "phr_parse_request x 0 = Parse_ok r (length x)" "x \<noteq> []"
  shows "parse_request x = Ok (r, [])"
proof -
  obtain rest where p: "parse_request x = Ok (r, rest)" "length x - length rest = length x"
    using assms(1) by (auto simp: phr_parse_request_def Let_def split: res.splits)
  have "rest = []" using request.shorter [OF p(1)] p(2) by (cases rest) auto
  then show ?thesis using p(1) by simp
qed

lemma phr_accepts:
  assumes "phr_parse_request x 0 = Parse_ok r (length x)" "prev < length x"
  shows "phr_parse_request (x @ rest) prev = Parse_ok r (length x)"
proof -
  have p: "parse_request x = Ok (r, [])" using phr_whole assms by fastforce
  then show ?thesis using request.accepts_more [OF p, of rest] is_complete_found [OF p assms(2), of rest] by (auto simp: phr_parse_request_def Let_def)
qed

lemma phr_waits:
  assumes "phr_parse_request x 0 = Parse_ok r (length x)" "k < length x"
  shows "phr_parse_request (take k x) prev = Parse_partial"
proof -
  have p: "parse_request x = Ok (r, [])" using phr_whole assms by fastforce
  note w = request.whole [OF p]
  show ?thesis using consumesD(5) [OF w assms(2)] is_complete_no_error [OF consumesD(2) [OF w], of prev k]
    by (auto simp: phr_parse_request_def Let_def split: res.splits)
qed

section \<open>What is parsed\<close>

lemma token_space_split: "token_space xs = Ok (t, rest) \<Longrightarrow> xs = t @ 32 # rest \<and> list_all token_byte t"
  using dropWhile_stop [of token_byte xs 32 rest] list_all_takeWhile [of token_byte xs]
  by (auto simp: token_space_scan scan_def andThen_def expect_char_def split: list.splits if_splits)

lemma method_stage_split: "method_stage xs = Ok ((n, m), rest) \<Longrightarrow> n \<le> 2 \<and> length xs = n + length m + 1 + length rest \<and> drop n xs = m @ 32 # rest"
proof -
  assume "method_stage xs = Ok ((n, m), rest)"
  then obtain ys where s: "skip_empty_line xs = Ok (n, ys)" "token_space ys = Ok (m, rest)" by (auto simp: method_stage_def andThen_def split: res.splits)
  have "n \<le> 2 \<and> drop n xs = ys \<and> length xs = n + length ys"
    using s(1) by (auto simp: skip_empty_line_def andThen_def expect_char_def numeral_2_eq_2 split: list.splits if_splits)
  then show ?thesis using token_space_split [OF s(2)] by auto
qed

lemma parse_request_bounds:
  assumes "parse_request xs = Ok (r, rest)"
  shows "\<exists>st len. hr_method r \<noteq> None \<and> hr_path r = Some (st, len) \<and> st + len < length xs - length rest"
proof -
  obtain n m ys p zs v ws hs where s: "method_stage xs = Ok ((n, m), ys)" "token_space ys = Ok (p, zs)" "version_line zs = Ok (v, ws)" "parse_headers [] ws = Ok (hs, rest)"
      and r: "r = \<lparr>hr_method = Some m, hr_path = Some (n + length m + 1, length p), hr_minor = v, hr_headers = hs\<rparr>"
    using assms by (auto simp: parse_request_def andThen_def split: res.splits)
  have "length rest < length ws" "length ws < length zs" using headers.shorter [OF s(4)] version.shorter [OF s(3)] by auto
  then show ?thesis using method_stage_split [OF s(1)] token_space_split [OF s(2)] r by auto
qed

lemma phr_bounds:
  assumes "phr_parse_request buf prev = Parse_ok r n"
  shows "\<exists>st len. hr_method r \<noteq> None \<and> hr_path r = Some (st, len) \<and> st + len < n" "0 < n" "n \<le> length buf"
proof -
  obtain rest where p: "parse_request buf = Ok (r, rest)" "n = length buf - length rest"
    using assms by (auto simp: phr_parse_request_def Let_def split: res.splits if_splits)
  show "\<exists>st len. hr_method r \<noteq> None \<and> hr_path r = Some (st, len) \<and> st + len < n" using parse_request_bounds [OF p(1)] p(2) by simp
  show "0 < n" "n \<le> length buf" using request.shorter [OF p(1)] p(2) by auto
qed

section \<open>Printing\<close>

definition crlf :: "u8 list" where "crlf = [13, 10]"

fun header_text :: "u8 list \<times> u8 list \<Rightarrow> u8 list" where
  "header_text (name, value) = name @ 58 # 32 # value @ crlf"

definition request_text :: "u8 list \<Rightarrow> u8 list \<Rightarrow> u8 \<Rightarrow> (u8 list \<times> u8 list) list \<Rightarrow> u8 list" where
  "request_text meth path minor headers =
    meth @ 32 # path @ 32 # ascii ''HTTP/1.'' @ [48 + minor] @ crlf @ concat (map header_text headers) @ crlf"

definition header_valid :: "u8 list \<times> u8 list \<Rightarrow> bool" where
  "header_valid h \<longleftrightarrow> fst h \<noteq> [] \<and> list_all token_char (fst h) \<and> list_all line_byte (snd h) \<and> (snd h \<noteq> [] \<longrightarrow> \<not> is_blank (hd (snd h)))"

lemma scan_step: "list_all g t \<Longrightarrow> \<not> g y \<Longrightarrow> scan g q (t @ y # ys) = q t (y # ys)"
  by (simp add: scan_def list_all_iff takeWhile_append2)

lemma token_space_text: "list_all token_byte t \<Longrightarrow> token_space (t @ 32 # ys) = Ok (t, ys)"
  by (simp add: token_space_scan scan_step token_byte_def andThen_def expect_char_def)

lemma get_token_text: "list_all line_byte t \<Longrightarrow> get_token_to_eol (t @ crlf @ ys) = Ok (t, ys)"
  by (simp add: get_token_to_eol_scan scan_step crlf_def line_byte_def is_ctl_def andThen_def line_end_def expect_char_def)

lemma header_line_text:
  assumes "header_valid (name, val)"
  shows "header_line cont (header_text (name, val) @ ys) = Ok ((Some name, Some val), ys)"
proof -
  obtain c cs where n: "name = c # cs" "token_char c" using assms by (cases name) (auto simp: header_valid_def)
  then have b: "\<not> is_blank c" by (auto simp: is_blank_def token_char_def ascii_def)
  have colon: "\<not> token_char 58" by (simp add: token_char_def ascii_def)
  have na: "list_all token_char name" using assms by (simp add: header_valid_def)
  have v: "scan is_blank q (32 # val @ crlf @ ys) = q [32] (val @ crlf @ ys)" for q :: "u8 list \<Rightarrow> u8 list \<Rightarrow> ((u8 list option \<times> u8 list option) \<times> u8 list) res"
    using assms scan_step [of is_blank "[32]" "hd (val @ crlf @ ys)" q "tl (val @ crlf @ ys)"]
    by (cases val) (simp_all add: header_valid_def is_blank_def crlf_def)
  have "named_header (name @ 58 # 32 # val @ crlf @ ys) = Ok ((Some name, Some val), ys)"
    using assms v get_token_text [of val ys]
    by (simp add: named_header_def scan_step [OF na colon] header_valid_def andThen_def expect_char_def)
  then show ?thesis using n(1) b by (simp add: header_line_stages)
qed

lemma parse_headers_text:
  "list_all header_valid hs \<Longrightarrow> length acc + length hs \<le> max_headers \<Longrightarrow>
   parse_headers acc (concat (map header_text hs) @ crlf @ ys) = Ok (acc @ map (\<lambda>(n, v). (Some n, Some v)) hs, ys)"
proof (induction hs arbitrary: acc)
  case Nil
  then show ?case by (simp add: parse_headers.simps crlf_def andThen_def expect_char_def)
next
  case (Cons h hs)
  obtain n v where h: "h = (n, v)" by (cases h)
  obtain c cs where n: "n = c # cs" "token_char c" using Cons.prems(1) by (cases n) (auto simp: header_valid_def h)
  then have "c \<noteq> 13" "c \<noteq> 10" by (auto simp: token_char_def ascii_def)
  moreover have "length acc \<noteq> max_headers" using Cons.prems(2) by simp
  ultimately have "parse_headers acc (concat (map header_text (h # hs)) @ crlf @ ys) = parse_headers (acc @ [(Some n, Some v)]) (concat (map header_text hs) @ crlf @ ys)"
    using header_line_text [of n v "length acc \<noteq> 0" "concat (map header_text hs) @ crlf @ ys"] Cons.prems(1) n(1)
    by (simp add: parse_headers.simps [of acc] h)
  then show ?case using Cons.IH [of "acc @ [(Some n, Some v)]"] Cons.prems by (simp add: h)
qed

definition request_valid :: "u8 list \<Rightarrow> u8 list \<Rightarrow> u8 \<Rightarrow> (u8 list \<times> u8 list) list \<Rightarrow> bool" where
  "request_valid meth path minor headers \<longleftrightarrow>
    list_all token_byte meth \<and> meth \<noteq> [] \<and> list_all token_byte path \<and> minor \<le> 9 \<and> list_all header_valid headers \<and> length headers \<le> max_headers"

lemma version_line_text: "minor \<le> 9 \<Longrightarrow> version_line (ascii ''HTTP/1.'' @ [48 + minor] @ crlf @ ys) = Ok (uint minor, ys)"
proof -
  assume m: "minor \<le> 9"
  then have u: "uint (48 + minor) = 48 + uint minor" "\<not> 48 + minor < 48" "\<not> 57 < 48 + minor"
    by (simp_all add: word_le_def word_less_def uint_word_ariths)
  have l: "length (ascii ''HTTP/1.'') = 7" by (simp add: ascii_def)
  have "parse_http_version (ascii ''HTTP/1.'' @ [48 + minor] @ crlf @ ys) = Ok (uint minor, crlf @ ys)"
    using u by (simp add: parse_http_version_def l nth_append crlf_def)
  then show ?thesis by (simp add: version_line_def andThen_def line_end_def crlf_def expect_char_def)
qed

lemma phr_text:
  assumes "request_valid meth path minor headers"
  shows "phr_parse_request (request_text meth path minor headers) 0 =
    Parse_ok \<lparr>hr_method = Some meth, hr_path = Some (length meth + 1, length path), hr_minor = uint minor, hr_headers = map (\<lambda>(n, v). (Some n, Some v)) headers\<rparr>
      (length (request_text meth path minor headers))"
proof -
  obtain c cs where m: "meth = c # cs" "token_byte c" using assms by (cases meth) (auto simp: request_valid_def)
  then have c: "c \<noteq> 13" "c \<noteq> 10" by (auto simp: token_byte_def)
  have "method_stage (meth @ 32 # ys) = Ok ((0, meth), ys)" for ys
    using token_space_text [of meth ys] assms c m(1) by (simp add: method_stage_def andThen_def skip_empty_line_def request_valid_def)
  moreover have "parse_headers [] (concat (map header_text headers) @ crlf) = Ok (map (\<lambda>(n, v). (Some n, Some v)) headers, [])"
    using parse_headers_text [of headers "[]" "[]"] assms by (simp add: request_valid_def)
  ultimately show ?thesis
    using token_space_text [of path] version_line_text [of minor] assms
    by (simp add: phr_parse_request_def request_text_def parse_request_def andThen_def request_valid_def)
qed

text \<open>C29. Parsing is incremental. When a request is written with a method, a path, a version and up to 100 headers, the parser finds exactly these in it, with the number of
  its bytes, whatever follows in the buffer and wherever the last call stopped; for every shorter piece of the request it asks for more bytes and never reports an
  error.\<close>

theorem http_request_roundtrip:
  assumes "request_valid meth path minor headers" "x = request_text meth path minor headers" "prev < length x"
  shows "phr_parse_request (x @ rest) prev =
      Parse_ok \<lparr>hr_method = Some meth, hr_path = Some (length meth + 1, length path), hr_minor = uint minor, hr_headers = map (\<lambda>(n, v). (Some n, Some v)) headers\<rparr> (length x)
    \<and> take (length path) (drop (length meth + 1) (x @ rest)) = path
    \<and> (\<forall>k<length x. phr_parse_request (take k x) prev = Parse_partial)"
proof -
  note t = phr_text [OF assms(1), folded assms(2)]
  have "take (length path) (drop (length meth + 1) (x @ rest)) = path" by (simp add: assms(2) request_text_def)
  then show ?thesis using phr_accepts [OF t assms(3)] phr_waits [OF t] by simp
qed

definition sample_headers :: "(u8 list \<times> u8 list) list" where
  "sample_headers = [(ascii ''Host'', ascii ''dnbd3.example''), (ascii ''Connection'', ascii ''close'')]"

lemma sample_request_valid: "request_valid (ascii ''GET'') (ascii ''/query?q=stats'') 1 sample_headers"
  by (simp add: request_valid_def sample_headers_def header_valid_def max_headers_def token_byte_def token_char_def line_byte_def is_ctl_def is_blank_def ascii_def)

theorem http_request_roundtrip_witness:
  "phr_parse_request (request_text (ascii ''GET'') (ascii ''/query?q=stats'') 1 sample_headers @ [71]) 5 =
     Parse_ok \<lparr>hr_method = Some (ascii ''GET''), hr_path = Some (4, 14), hr_minor = 1,
       hr_headers = [(Some (ascii ''Host''), Some (ascii ''dnbd3.example'')), (Some (ascii ''Connection''), Some (ascii ''close''))]\<rparr>
       (length (request_text (ascii ''GET'') (ascii ''/query?q=stats'') 1 sample_headers))
   \<and> phr_parse_request (take 20 (request_text (ascii ''GET'') (ascii ''/query?q=stats'') 1 sample_headers)) 5 = Parse_partial"
proof -
  have l: "5 < length (request_text (ascii ''GET'') (ascii ''/query?q=stats'') 1 sample_headers)" "20 < length (request_text (ascii ''GET'') (ascii ''/query?q=stats'') 1 sample_headers)"
    by (simp_all add: request_text_def ascii_def crlf_def)
  show ?thesis using http_request_roundtrip [OF sample_request_valid refl l(1), of "[71]"] l(2) by (simp add: sample_headers_def) (simp add: ascii_def)
qed

end
