(* ===== verification/Rpc.thy ===== *)
theory Rpc
  imports Rpc_Acl Url_Decode Http_Parser Sock_Helper
begin

text \<open>
  The HTTP side of the status interface, from \<open>src/server/rpc.c\<close>: a session reads requests from a connection, also several in one packet, and answers each of them.
  The text of the answers (made by the JSON library from data of other components) is an argument. A
  \<open>struct string\<close> is an optional byte string, \<open>None\<close> for a null pointer. \<open>None\<close> as a result is a write behind the end of the request buffer, or an
  access outside of the path when its fields are decoded.
\<close>

section \<open>Strings\<close>

definition equals :: "u8 list option \<Rightarrow> u8 list option \<Rightarrow> bool" where
  "equals s1 s2 = (case s1 of None \<Rightarrow> s2 = None | Some a \<Rightarrow> (case s2 of None \<Rightarrow> False | Some b \<Rightarrow> length a = length b \<and> a = b))"

definition chartolower :: "u8 \<Rightarrow> u8" where
  "chartolower c = (if 65 \<le> c \<and> c \<le> 90 then c + 32 else c)"

definition iequals :: "u8 list option \<Rightarrow> u8 list option \<Rightarrow> bool" where
  "iequals cmpMixed cmpLower = (case cmpMixed of None \<Rightarrow> cmpLower = None | Some a \<Rightarrow>
     (case cmpLower of None \<Rightarrow> False | Some b \<Rightarrow> length a = length b \<and> map chartolower a = b))"

definition STR_CONNECTION :: "u8 list" where "STR_CONNECTION = ascii ''connection''"
definition STR_CLOSE :: "u8 list" where "STR_CLOSE = ascii ''close''"
definition STR_QUERY :: "u8 list" where "STR_QUERY = ascii ''/query''"
definition STR_Q :: "u8 list" where "STR_Q = ascii ''q''"

section \<open>Load\<close>

definition MAX_CLIENTS :: int where "MAX_CLIENTS = 50"
definition CUTOFF_START :: int where "CUTOFF_START = 40"

record rpc_status =
  st_count :: int
  st_overloaded :: bool

definition update_loadstate :: "int \<Rightarrow> rpc_status \<Rightarrow> rpc_status" where
  "update_loadstate cnt st =
    (if cnt < CUTOFF_START div 2 then st\<lparr>st_overloaded := False\<rparr> else if cnt > CUTOFF_START then st\<lparr>st_overloaded := True\<rparr> else st)"

text \<open>The beginning and the end of a session.\<close>

definition rpc_enter :: "rpc_status \<Rightarrow> rpc_status" where
  "rpc_enter st = update_loadstate (st_count st + 1) (st\<lparr>st_count := st_count st + 1\<rparr>)"

definition rpc_leave :: "rpc_status \<Rightarrow> rpc_status" where
  "rpc_leave st = update_loadstate (st_count st - 1) (st\<lparr>st_count := st_count st - 1\<rparr>)"

section \<open>Replies\<close>

record http_reply =
  hp_status :: string
  hp_ctype :: string
  hp_payload :: "u8 list"
  hp_keepAlive :: bool

definition http_header :: "http_reply \<Rightarrow> u8 list" where
  "http_header r =
    ascii (''HTTP/1.1 '' @ hp_status r @ [CHR 0x0D, CHR 0x0A] @ ''Connection: '' @ (if hp_keepAlive r then ''Keep-Alive'' else ''Close'') @ [CHR 0x0D, CHR 0x0A]
      @ ''Content-Type: '' @ hp_ctype r @ ''; charset=utf-8'' @ [CHR 0x0D, CHR 0x0A]
      @ ''Content-Length: '' @ dec (length (hp_payload r) mod 2 ^ 32) @ [CHR 0x0D, CHR 0x0A, CHR 0x0D, CHR 0x0A])"

text \<open>Sending: \<open>hret\<close> is the result of the first \<open>send\<close>, \<open>es\<close> what happens to the payload. The result says whether the session goes on, and the bytes that went out.\<close>

definition sendReply :: "int \<times> send_event list \<Rightarrow> http_reply \<Rightarrow> bool \<times> u8 list" where
  "sendReply env r = (case env of (hret, es) \<Rightarrow>
     let h = http_header r in
     if length h \<ge> 600 then (False, [])
     else if hret \<noteq> int (length h) then (False, take (nat hret) h)
     else case sock_sendAll (hp_payload r) 10 es of (ret, sent) \<Rightarrow>
       if ret = 0 then (False, h @ sent) else (hp_keepAlive r, h @ sent))"

definition text_reply :: "string \<Rightarrow> string \<Rightarrow> bool \<Rightarrow> http_reply" where
  "text_reply status payload ka = \<lparr>hp_status = status, hp_ctype = ''text/plain'', hp_payload = ascii payload, hp_keepAlive = ka\<rparr>"

section \<open>The query\<close>

datatype part = Stats | Space | Images | Clients | Logfile | Config_part | Altservers

fun part_name :: "part \<Rightarrow> u8 list" where
  "part_name Stats = ascii ''stats''"
| "part_name Space = ascii ''space''"
| "part_name Images = ascii ''images''"
| "part_name Clients = ascii ''clients''"
| "part_name Logfile = ascii ''logfile''"
| "part_name Config_part = ascii ''config''"
| "part_name Altservers = ascii ''altservers''"

text \<open>The chain of \<open>SETVAR\<close> for one field.\<close>

definition all_parts :: "part list" where "all_parts = [Stats, Space, Images, Clients, Logfile, Config_part, Altservers]"

definition set_part :: "u8 list \<times> u8 list \<Rightarrow> (part \<Rightarrow> bool) \<Rightarrow> part \<Rightarrow> bool" where
  "set_part fld v =
    (if \<not> equals (Some (fst fld)) (Some STR_Q) then v
     else case find (\<lambda>s. \<not> v s \<and> snd fld = part_name s) all_parts of
       None \<Rightarrow> v | Some s \<Rightarrow> v(s := True))"

definition requested :: "(u8 list \<times> u8 list) list \<Rightarrow> part \<Rightarrow> bool" where
  "requested flds = fold set_part flds (\<lambda>_. False)"

text \<open>The permission that a part needs, and the checks in their order.\<close>

fun part_acl :: "part \<Rightarrow> u32" where
  "part_acl Stats = ACL_STATS"
| "part_acl Space = ACL_STATS"
| "part_acl Images = ACL_IMAGE_LIST"
| "part_acl Clients = ACL_CLIENT_LIST"
| "part_acl Logfile = ACL_LOG"
| "part_acl Config_part = ACL_CONFIG"
| "part_acl Altservers = ACL_ALTSERVERS"

definition permission_checks :: "(part list \<times> string) list" where
  "permission_checks = [([Stats, Space], ''No permission to access statistics''), ([Images], ''No permission to access image list''),
     ([Clients], ''No permission to access client list''), ([Logfile], ''No permission to access log''), ([Config_part], ''No permission to access config''),
     ([Altservers], ''No permission to access altservers'')]"

definition denied :: "u32 \<Rightarrow> (part \<Rightarrow> bool) \<Rightarrow> string option" where
  "denied permissions v = map_option snd (find (\<lambda>(ps, msg). \<exists>p\<in>set ps. v p \<and> permissions AND part_acl p = 0) permission_checks)"

text \<open>The answer: \<open>data\<close> is the text of the chosen parts, in the order in which they are put in.\<close>

definition json_parts :: "part list" where "json_parts = [Stats, Space, Clients, Images, Logfile, Config_part, Altservers]"

definition status_reply :: "(part list \<Rightarrow> u8 list) \<Rightarrow> u32 \<Rightarrow> (u8 list \<times> u8 list) list \<Rightarrow> bool \<Rightarrow> http_reply" where
  "status_reply data permissions flds ka =
    (let v = requested flds in
     case denied permissions v of
       Some msg \<Rightarrow> text_reply ''403 Forbidden'' msg ka
     | None \<Rightarrow> \<lparr>hp_status = ''200 OK'', hp_ctype = ''application/json'',
         hp_payload = data (filter v json_parts), hp_keepAlive = ka\<rparr>)"

section \<open>Requests\<close>

definition hasHeaderValue :: "(u8 list option \<times> u8 list option) list \<Rightarrow> u8 list \<Rightarrow> u8 list \<Rightarrow> bool" where
  "hasHeaderValue headers name val = list_ex (\<lambda>(n, v). iequals n (Some name) \<and> iequals v (Some val)) headers"

text \<open>The file and the fields of a path that begins at \<open>st\<close> in the buffer, and the buffer in which the fields were decoded.\<close>

definition parsePath :: "u8 list \<Rightarrow> nat \<times> nat \<Rightarrow> (u8 list \<times> (u8 list \<times> u8 list) list \<times> u8 list) option" where
  "parsePath buf path = (case path of (st, len) \<Rightarrow>
     if st + len > length buf then None
     else let p = take len (drop st buf); file = takeWhile (\<lambda>c. c \<noteq> 63) p; i = length file
          in if i = len then Some (file, [], buf)
             else let i = i + 1; q = drop i p in
               (case urldecode 10 q of
                  None \<Rightarrow> None
                | Some (q', flds) \<Rightarrow> Some (file, map (field_text q') flds, take (st + i) buf @ q' @ drop (st + len) buf)))"

record rpc_env =
  re_data :: "part list \<Rightarrow> u8 list"
  re_send :: "nat \<Rightarrow> int \<times> send_event list"
  re_overloaded :: "nat \<Rightarrow> bool"

definition keep_alive :: "rpc_env \<Rightarrow> nat \<Rightarrow> http_request \<Rightarrow> bool \<Rightarrow> bool" where
  "keep_alive env n r ka \<longleftrightarrow> ka \<and> \<not> (hr_minor r = 0 \<or> hasHeaderValue (hr_headers r) STR_CONNECTION STR_CLOSE) \<and> \<not> re_overloaded env n"

text \<open>One request: the reply, if there is one, and the buffer.\<close>

definition answer_request :: "rpc_env \<Rightarrow> u32 \<Rightarrow> bool \<Rightarrow> u8 list \<Rightarrow> http_request \<Rightarrow> (http_reply option \<times> u8 list) option" where
  "answer_request env permissions ka buf r =
    (case (hr_method r, hr_path r) of
       (Some _, Some path) \<Rightarrow>
         (case parsePath buf path of
            None \<Rightarrow> None
          | Some (file, flds, buf) \<Rightarrow>
             Some (Some (if equals (Some file) (Some STR_QUERY) then status_reply (re_data env) permissions flds ka
                         else text_reply ''404 Not found'' ''Nothing'' ka), buf))
     | _ \<Rightarrow> Some (None, buf))"

text \<open>A reply after which the connection is closed.\<close>

definition last_reply :: "rpc_env \<Rightarrow> nat \<Rightarrow> string \<Rightarrow> string \<Rightarrow> (http_reply \<times> u8 list) list" where
  "last_reply env n status msg = (let r = text_reply status msg False in [(r, snd (sendReply (re_send env n) r))])"

definition HEADER_BUF :: nat where "HEADER_BUF = 3000"

text \<open>Copying bytes into \<open>headerBuf\<close>, behind those that are in it. \<open>None\<close> is a write behind its end.\<close>

definition headerBuf_write :: "u8 list \<Rightarrow> u8 list \<Rightarrow> u8 list option" where
  "headerBuf_write buf d = (if length buf + length d \<le> HEADER_BUF then Some (buf @ d) else None)"

lemma headerBuf_write_room [simp]:
  "\<not> HEADER_BUF \<le> length buf \<Longrightarrow> headerBuf_write buf (take (HEADER_BUF - length buf) d) = Some (buf @ take (HEADER_BUF - length buf) d)"
  by (auto simp: headerBuf_write_def)

fun event_size :: "recv_event \<Rightarrow> nat" where
  "event_size (Recv_data d) = Suc (length d)"
| "event_size _ = 1"

text \<open>Decoding the fields of a path does not change how many bytes there are.\<close>

lemma parsePath_fields:
  "parsePath buf (st, len) =
    (if st + len > length buf then None
     else let p = take len (drop st buf); file = takeWhile (\<lambda>c. c \<noteq> 63) p in
       if length file = len then Some (file, [], buf)
       else Some (file, take 10 (split_fields (drop (length file + 1) p)),
              take (st + (length file + 1)) buf @ fst (the (urldecode 10 (drop (length file + 1) p))) @ drop (st + len) buf))"
  using urldecode_split [of 10 "drop (length (takeWhile (\<lambda>c. c \<noteq> 63) (take len (drop st buf))) + 1) (take len (drop st buf))"]
  by (auto simp: parsePath_def Let_def)

lemma length_urldecode: "length (fst (the (urldecode n q))) = length q"
  using urldecode_split [of n q] by auto

lemma parsePath_length: "parsePath buf path = Some (file, flds, buf') \<Longrightarrow> length buf' = length buf"
proof -
  assume p: "parsePath buf path = Some (file, flds, buf')"
  obtain st len where path: "path = (st, len)" by fastforce
  let ?p = "take len (drop st buf)"
  have "length (takeWhile (\<lambda>c. c \<noteq> 63) ?p) \<le> length ?p" by (rule length_takeWhile_le)
  then show ?thesis using p by (auto simp: path parsePath_fields Let_def length_urldecode split: if_splits)
qed

lemma answer_request_length: "answer_request env permissions ka buf r = Some (ro, buf') \<Longrightarrow> length buf' = length buf"
  by (auto simp: answer_request_def dest: parsePath_length split: option.splits)

text \<open>The loop of a session: the replies with the bytes that went out. \<open>n\<close> counts the requests, \<open>buf\<close> is what was received and not used yet.\<close>

function rpc_loop :: "rpc_env \<Rightarrow> u32 \<Rightarrow> nat \<Rightarrow> bool \<Rightarrow> u8 list \<Rightarrow> nat \<Rightarrow> recv_event list \<Rightarrow> (http_reply \<times> u8 list) list option" where
  "rpc_loop env permissions n ka buf prevLen es =
    (if length buf \<ge> HEADER_BUF then Some []
     else case (if buf = [] then Parse_partial else phr_parse_request buf prevLen) of
       Parse_error \<Rightarrow> Some (last_reply env n ''400 Bad Request'' ''Server cannot understand what you're trying to say'')
     | Parse_partial \<Rightarrow>
        (case es of
           [] \<Rightarrow> Some []
         | Recv_data d # es' \<Rightarrow>
            if d = [] then Some []
            else (case headerBuf_write buf (take (HEADER_BUF - length buf) d) of
                    None \<Rightarrow> None
                  | Some buf' \<Rightarrow> rpc_loop env permissions n ka buf' (length buf)
                      (if length d \<le> HEADER_BUF - length buf then es' else Recv_data (drop (HEADER_BUF - length buf) d) # es'))
         | Recv_EINTR # es' \<Rightarrow> rpc_loop env permissions n ka buf (length buf) es'
         | Recv_EAGAIN # es' \<Rightarrow> Some []
         | Recv_error # es' \<Rightarrow> Some (last_reply env n ''500 Internal Server Error'' ''Server made a boo-boo''))
     | Parse_ok r consumed \<Rightarrow>
        let ka = keep_alive env n r ka in
        case answer_request env permissions ka buf r of
          None \<Rightarrow> None
        | Some (None, buf') \<Rightarrow> rpc_loop env permissions (n + 1) ka (drop consumed buf') 0 es
        | Some (Some rep, buf') \<Rightarrow>
           (case sendReply (re_send env n) rep of (ok, out) \<Rightarrow>
              if \<not> ok then Some [(rep, out)]
              else map_option (\<lambda>xs. (rep, out) # xs) (rpc_loop env permissions (n + 1) ka (drop consumed buf') 0 es)))"
  by pat_completeness auto
termination
proof (relation "measures [\<lambda>(env, permissions, n, ka, buf, prevLen, es). sum_list (map event_size es), \<lambda>(env, permissions, n, ka, buf, prevLen, es). length buf]", goal_cases)
  case (2 env permissions n ka buf prevLen es r consumed)
  then show ?case using phr_bounds(2,3) [of buf prevLen r consumed] by (auto dest: answer_request_length split: if_splits)
next
  case (3 env permissions n ka buf prevLen es r consumed)
  then show ?case using phr_bounds(2,3) [of buf prevLen r consumed] by (auto dest: answer_request_length split: if_splits)
qed (auto simp: HEADER_BUF_def)

declare rpc_loop.simps [simp del]

text \<open>A whole session; \<open>data\<close> are the bytes that were received before the connection was recognised as HTTP.\<close>

definition rpc_sendStatsJson :: "access_rule list \<Rightarrow> dnbd3_host \<Rightarrow> rpc_env \<Rightarrow> u8 list \<Rightarrow> recv_event list \<Rightarrow> rpc_status \<Rightarrow>
    ((http_reply \<times> u8 list) list \<times> rpc_status) option" where
  "rpc_sendStatsJson rules host env data es st =
    (case getacl rules host of
       None \<Rightarrow> None
     | Some permissions \<Rightarrow>
        if permissions = 0
        then Some (last_reply env 0 ''403 Forbidden'' ''Access denied'', st)
        else let st = rpc_enter st in
          if st_count st > MAX_CLIENTS
          then Some (last_reply env 0 ''503 Service Temporarily Unavailable'' ''Too many HTTP clients'', rpc_leave st)
          else (case headerBuf_write [] data of
              None \<Rightarrow> None
            | Some buf \<Rightarrow> map_option (\<lambda>xs. (xs, rpc_leave st)) (rpc_loop env permissions 0 True buf 0 es)))"

text \<open>The message for a connection that cannot be served; the encoded text is kept in a static variable.\<close>

definition rpc_sendErrorMessage :: "(string \<Rightarrow> u8 list) \<Rightarrow> string \<Rightarrow> u8 list option \<Rightarrow> http_reply \<times> u8 list option" where
  "rpc_sendErrorMessage encode message encoded =
    (let text0 = (case encoded of None \<Rightarrow> encode message | Some t \<Rightarrow> t) in
     (\<lparr>hp_status = ''200 Somewhat OK'', hp_ctype = ''application/json'', hp_payload = text0, hp_keepAlive = False\<rparr>, Some text0))"

section \<open>Permissions\<close>

lemma denied_None: "denied permissions v = None \<Longrightarrow> v p \<Longrightarrow> permissions AND part_acl p \<noteq> 0"
proof -
  assume d: "denied permissions v = None" and v: "v p"
  have "\<not> (\<exists>x. x \<in> set permission_checks \<and> (\<lambda>(ps, msg). \<exists>p\<in>set ps. v p \<and> permissions AND part_acl p = 0) x)"
    using d unfolding denied_def by (simp add: find_None_iff)
  then have c: "\<forall>(ps, msg)\<in>set permission_checks. \<forall>p\<in>set ps. v p \<longrightarrow> permissions AND part_acl p \<noteq> 0" by blast
  moreover have "\<exists>(ps, msg)\<in>set permission_checks. p \<in> set ps" by (cases p) (simp_all add: permission_checks_def)
  ultimately show ?thesis using v by fastforce
qed

lemma part_name_inj: "part_name p = part_name p' \<longleftrightarrow> p = p'"
  by (cases p; cases p') (simp_all add: ascii_def)

lemma set_part_iff: "set_part fld v p \<longleftrightarrow> v p \<or> (fst fld = STR_Q \<and> snd fld = part_name p)"
proof (cases "find (\<lambda>s. \<not> v s \<and> snd fld = part_name s) all_parts")
  case None
  have "p \<in> set all_parts" by (cases p) (simp_all add: all_parts_def)
  then have "v p \<or> snd fld \<noteq> part_name p" using None by (auto simp: find_None_iff)
  then show ?thesis using None by (auto simp: set_part_def equals_def)
next
  case (Some s)
  then have "snd fld = part_name s" by (auto simp: find_Some_iff)
  then show ?thesis using Some by (auto simp: set_part_def equals_def part_name_inj)
qed

lemma requested_iff: "requested flds p \<longleftrightarrow> (STR_Q, part_name p) \<in> set flds"
proof -
  have "fold set_part flds v p \<longleftrightarrow> v p \<or> (STR_Q, part_name p) \<in> set flds" for v
  proof (induction flds arbitrary: v)
    case (Cons f flds)
    have "fold set_part (f # flds) v p \<longleftrightarrow> set_part f v p \<or> (STR_Q, part_name p) \<in> set flds" using Cons.IH by (simp only: fold_simps)
    moreover have "set_part f v p \<longleftrightarrow> v p \<or> (STR_Q, part_name p) = f" unfolding set_part_iff by (cases f) auto
    ultimately show ?case by (metis list.set_intros set_ConsD)
  qed (simp only: fold_simps list.set empty_iff simp_thms)
  then show ?thesis by (simp add: requested_def)
qed

lemma requested_parts: "requested flds = (\<lambda>p. (STR_Q, part_name p) \<in> set flds)"
  by (rule ext) (rule requested_iff)

lemma denied_iff: "denied permissions v = None \<longleftrightarrow> (\<forall>p. v p \<longrightarrow> permissions AND part_acl p \<noteq> 0)"
  using denied_None by (auto simp: denied_def find_None_iff)

definition permitted :: "rpc_env \<Rightarrow> u32 \<Rightarrow> http_reply \<Rightarrow> bool" where
  "permitted env permissions rep \<longleftrightarrow> (hp_status rep = ''200 OK'' \<longrightarrow>
     (\<exists>ps. hp_payload rep = re_data env ps \<and> (\<forall>p\<in>set ps. permissions AND part_acl p \<noteq> 0)))"

lemma text_reply_permitted: "status \<noteq> ''200 OK'' \<Longrightarrow> permitted env permissions (text_reply status msg ka)"
  by (simp add: permitted_def text_reply_def)

lemma last_reply_permitted: "status \<noteq> ''200 OK'' \<Longrightarrow> (rep, out) \<in> set (last_reply env n status msg) \<Longrightarrow> permitted env permissions rep"
  by (auto simp: last_reply_def Let_def text_reply_permitted)

lemma status_reply_permitted: "permitted env permissions (status_reply (re_data env) permissions flds ka)"
proof (cases "denied permissions (requested flds)")
  case None
  let ?ps = "filter (requested flds) json_parts"
  have "permissions AND part_acl p \<noteq> 0" if "p \<in> set ?ps" for p
    using denied_None [OF None] that unfolding set_filter by blast
  moreover have "hp_payload (status_reply (re_data env) permissions flds ka) = re_data env ?ps" using None by (simp add: status_reply_def)
  ultimately show ?thesis unfolding permitted_def by blast
next
  case (Some msg)
  then show ?thesis by (simp add: status_reply_def text_reply_permitted)
qed

lemma answer_request_permitted: "answer_request env permissions ka buf r = Some (Some rep, buf') \<Longrightarrow> permitted env permissions rep"
  using status_reply_permitted text_reply_permitted
  by (auto simp: answer_request_def split: option.splits prod.splits if_splits)


lemma rpc_loop_permitted: "rpc_loop env permissions n ka buf prevLen es = Some outs \<Longrightarrow> (rep, out) \<in> set outs \<Longrightarrow> permitted env permissions rep"
proof (induction env permissions n ka buf prevLen es arbitrary: outs rule: rpc_loop.induct)
  case (1 env permissions n ka buf prevLen es)
  note p = "1.prems"(1) [unfolded rpc_loop.simps [of env permissions n ka buf prevLen es]]
  show ?case
  proof (cases "length buf \<ge> HEADER_BUF")
    case True
    then show ?thesis using p "1.prems"(2) by simp
  next
    case False
    show ?thesis
    proof (cases "if buf = [] then Parse_partial else phr_parse_request buf prevLen")
      case Parse_error
      then show ?thesis using p "1.prems"(2) False last_reply_permitted [of "''400 Bad Request''" rep out env n _ permissions] by auto
    next
      case Parse_partial
      note ih = "1.IH"(3-4) [OF False Parse_partial]
      show ?thesis
      proof (cases es)
        case Nil
        then show ?thesis using p "1.prems"(2) False Parse_partial by simp
      next
        case (Cons ev es')
        then show ?thesis using p "1.prems"(2) False Parse_partial ih last_reply_permitted [of "''500 Internal Server Error''" rep out env n _ permissions]
          by (cases ev) (auto split: if_splits)
      qed
    next
      case (Parse_ok r consumed)
      let ?ka = "keep_alive env n r ka"
      obtain ro buf' where a: "answer_request env permissions ?ka buf r = Some (ro, buf')"
        using p False Parse_ok by (auto simp: Let_def split: option.splits)
      show ?thesis
      proof (cases ro)
        case None
        then show ?thesis using p False Parse_ok a "1.prems"(2) "1.IH"(1) [OF False Parse_ok refl a refl None] by (auto simp: Let_def)
      next
        case (Some rep')
        have q: "permitted env permissions rep'" using answer_request_permitted a unfolding Some .
        obtain ok out' where o: "sendReply (re_send env n) rep' = (ok, out')" by fastforce
        show ?thesis
        proof (cases ok)
          case True
          then obtain xs where x: "rpc_loop env permissions (n + 1) ?ka (drop consumed buf') 0 es = Some xs" "outs = (rep', out') # xs"
            using p False Parse_ok a Some o by (auto simp: Let_def)
          then show ?thesis using "1.IH"(2) [OF False Parse_ok refl a refl Some o [symmetric] _ x(1)] True q "1.prems"(2) by auto
        next
          case nok: False
          then show ?thesis using p False Parse_ok a Some o q "1.prems"(2) by (auto simp: Let_def)
        qed
      qed
    qed
  qed
qed

lemma answer_request_total: "hr_path r = Some (st, len) \<Longrightarrow> st + len \<le> length buf \<Longrightarrow> \<exists>ro buf'. answer_request env permissions ka buf r = Some (ro, buf')"
  by (auto simp: answer_request_def parsePath_fields Let_def split: option.splits)

lemma rpc_loop_total: "\<exists>outs. rpc_loop env permissions n ka buf prevLen es = Some outs"
proof (induction env permissions n ka buf prevLen es rule: rpc_loop.induct)
  case (1 env permissions n ka buf prevLen es)
  show ?case
  proof (cases "length buf \<ge> HEADER_BUF")
    case True
    then show ?thesis by (simp add: rpc_loop.simps)
  next
    case False
    show ?thesis
    proof (cases "if buf = [] then Parse_partial else phr_parse_request buf prevLen")
      case Parse_error
      then show ?thesis using False by (simp add: rpc_loop.simps)
    next
      case Parse_partial
      note ih = "1.IH"(3-4) [OF False Parse_partial]
      show ?thesis
      proof (cases es)
        case Nil
        then show ?thesis using False Parse_partial by (simp add: rpc_loop.simps)
      next
        case (Cons ev es')
        then show ?thesis using False Parse_partial ih by (cases ev) (auto simp: rpc_loop.simps [of env permissions n ka buf prevLen])
      qed
    next
      case (Parse_ok r consumed)
      let ?ka = "keep_alive env n r ka"
      have "phr_parse_request buf prevLen = Parse_ok r consumed" using Parse_ok by (simp split: if_splits)
      then obtain st len where "hr_path r = Some (st, len)" "st + len \<le> length buf" using phr_bounds [of buf prevLen r consumed] by fastforce
      then obtain ro buf' where a: "answer_request env permissions ?ka buf r = Some (ro, buf')" using answer_request_total by metis
      show ?thesis
      proof (cases ro)
        case None
        then show ?thesis using False Parse_ok a "1.IH"(1) [OF False Parse_ok refl a refl None] by (simp add: rpc_loop.simps [of env permissions n ka buf prevLen] Let_def)
      next
        case (Some rep')
        obtain ok out' where o: "sendReply (re_send env n) rep' = (ok, out')" by fastforce
        then show ?thesis using False Parse_ok a Some "1.IH"(2) [OF False Parse_ok refl a refl Some o [symmetric]]
          by (cases ok) (auto simp: rpc_loop.simps [of env permissions n ka buf prevLen] Let_def)
      qed
    qed
  qed
qed

section \<open>Several requests on one connection\<close>

text \<open>A request as a client writes it: method, path, minor version, headers.\<close>

type_synonym web_request = "u8 list \<times> u8 list \<times> u8 \<times> (u8 list \<times> u8 list) list"

fun web_text :: "web_request \<Rightarrow> u8 list" where
  "web_text (method, path, minor, headers) = request_text method path minor headers"

fun parsed_request :: "web_request \<Rightarrow> http_request" where
  "parsed_request (method, path, minor, headers) =
    \<lparr>hr_method = Some method, hr_path = Some (length method + 1, length path), hr_minor = uint minor, hr_headers = map (\<lambda>(n, v). (Some n, Some v)) headers\<rparr>"

text \<open>A request that can be parsed and does not ask for the end of the connection.\<close>

fun request_ok :: "web_request \<Rightarrow> bool" where
  "request_ok (method, path, minor, headers) \<longleftrightarrow> request_valid method path minor headers \<and> minor \<noteq> 0
     \<and> \<not> hasHeaderValue (map (\<lambda>(n, v). (Some n, Some v)) headers) STR_CONNECTION STR_CLOSE"

text \<open>What the answer has to be: the parts that the fields \<open>q\<close> behind the question mark name.\<close>

definition query_fields :: "u8 list \<Rightarrow> (u8 list \<times> u8 list) list" where
  "query_fields path = (case dropWhile (\<lambda>c. c \<noteq> 63) path of [] \<Rightarrow> [] | _ # q \<Rightarrow> take 10 (split_fields q))"

definition expected_reply :: "rpc_env \<Rightarrow> u32 \<Rightarrow> web_request \<Rightarrow> http_reply" where
  "expected_reply env permissions w = (case w of (_, path, _, _) \<Rightarrow>
     if takeWhile (\<lambda>c. c \<noteq> 63) path = STR_QUERY then status_reply (re_data env) permissions (query_fields path) True
     else text_reply ''404 Not found'' ''Nothing'' True)"

text \<open>The replies from request \<open>n\<close> on can be sent completely, and there are not too many sessions.\<close>

fun sends_ok :: "rpc_env \<Rightarrow> nat \<Rightarrow> http_reply list \<Rightarrow> bool" where
  "sends_ok env n [] = True"
| "sends_ok env n (rep # reps) \<longleftrightarrow> sendReply (re_send env n) rep = (True, http_header rep @ hp_payload rep) \<and> \<not> re_overloaded env n \<and> sends_ok env (n + 1) reps"

lemma parsePath_query:
  assumes "buf = a @ path @ b"
  shows "\<exists>buf'. parsePath buf (length a, length path) = Some (takeWhile (\<lambda>c. c \<noteq> 63) path, query_fields path, buf') \<and> length buf' = length buf
    \<and> drop (length a + length path) buf' = b"
proof -
  let ?f = "takeWhile (\<lambda>c. c \<noteq> 63) path"
  have split: "path = ?f @ dropWhile (\<lambda>c. c \<noteq> 63) path" by simp
  show ?thesis
  proof (cases "dropWhile (\<lambda>c. c \<noteq> 63) path")
    case Nil
    then have f: "?f = path" using split by (metis append_Nil2)
    show ?thesis unfolding parsePath_fields query_fields_def Nil using assms by (simp add: Let_def f)
  next
    case (Cons y q)
    have l: "length path = length ?f + 1 + length q" using arg_cong [OF split, of length] unfolding Cons by simp
    have d: "drop (length ?f + 1) path = q" using arg_cong [OF split, of "drop (length ?f + 1)"] unfolding Cons by simp
    show ?thesis unfolding parsePath_fields query_fields_def Cons using assms l d length_urldecode [of 10 q] by (simp add: Let_def)
  qed
qed

lemma first_answer:
  assumes "request_ok w"
  shows "\<exists>buf'. answer_request env permissions True (web_text w @ rest) (parsed_request w) = Some (Some (expected_reply env permissions w), buf')
    \<and> drop (length (web_text w)) buf' = rest"
proof -
  obtain m path minor hs where w: "w = (m, path, minor, hs)" by (cases w)
  obtain b where b: "web_text w = m @ [32] @ path @ b" by (simp add: w request_text_def)
  obtain buf' where p: "parsePath (web_text w @ rest) (length m + 1, length path) = Some (takeWhile (\<lambda>c. c \<noteq> 63) path, query_fields path, buf')"
      "drop (length m + 1 + length path) buf' = b @ rest"
    using parsePath_query [of "web_text w @ rest" "m @ [32]" path "b @ rest"] b by auto
  have "drop (length (web_text w)) buf' = drop (length b) (drop (length m + 1 + length path) buf')" by (simp add: b add_ac)
  then have "drop (length (web_text w)) buf' = rest" unfolding p(2) by simp
  then show ?thesis using p(1) by (simp add: answer_request_def w expected_reply_def equals_def)
qed

lemma web_parsed:
  assumes "request_ok w"
  shows "prev < length (web_text w) \<Longrightarrow> phr_parse_request (web_text w @ rest) prev = Parse_ok (parsed_request w) (length (web_text w))"
    and "k < length (web_text w) \<Longrightarrow> phr_parse_request (take k (web_text w)) prev = Parse_partial" and "web_text w \<noteq> []"
    and "keep_alive env n (parsed_request w) True = (\<not> re_overloaded env n)"
proof -
  obtain m path minor hs where w: "w = (m, path, minor, hs)" by (cases w)
  have "request_valid m path minor hs" using assms by (simp add: w)
  note t = phr_text [OF this]
  show "prev < length (web_text w) \<Longrightarrow> phr_parse_request (web_text w @ rest) prev = Parse_ok (parsed_request w) (length (web_text w))"
    using phr_accepts [OF t] by (simp add: w)
  show "k < length (web_text w) \<Longrightarrow> phr_parse_request (take k (web_text w)) prev = Parse_partial" using phr_waits [OF t] by (simp add: w)
  show "web_text w \<noteq> []" by (simp add: w request_text_def)
  have "uint minor \<noteq> 0" using assms by (simp add: w unsigned_eq_0_iff)
  then show "keep_alive env n (parsed_request w) True = (\<not> re_overloaded env n)" using assms by (simp add: keep_alive_def w)
qed

lemma rpc_loop_pipeline:
  "buf @ stream es = concat (map web_text ws) \<Longrightarrow> chunks_ok es \<Longrightarrow> length (concat (map web_text ws)) < HEADER_BUF \<Longrightarrow> list_all request_ok ws \<Longrightarrow>
   sends_ok env n (map (expected_reply env permissions) ws) \<Longrightarrow> prevLen = 0 \<or> (ws \<noteq> [] \<and> prevLen < length (web_text (hd ws))) \<Longrightarrow>
   rpc_loop env permissions n True buf prevLen es = Some (map (\<lambda>rep. (rep, http_header rep @ hp_payload rep)) (map (expected_reply env permissions) ws))"
proof (induction "sum_list (map event_size es) + length buf + length (stream es)" arbitrary: buf es n prevLen ws rule: less_induct)
  case less
  have lb: "\<not> length buf \<ge> HEADER_BUF" using less.prems(1,3) by (metis le_add1 length_append linorder_not_less order_le_less_trans)
  show ?case
  proof (cases ws)
    case Nil
    then have b: "buf = []" "stream es = []" using less.prems(1) by simp_all
    show ?thesis
    proof (cases es)
      case (Cons ev es')
      then have ev: "ev = Recv_EINTR" using less.prems(2) b(2) by (cases ev) auto
      then have "rpc_loop env permissions n True [] 0 es' = Some []" using less.hyps [of es' "[]" "[]" n 0] less.prems(2) b Cons ev by (simp add: HEADER_BUF_def)
      then show ?thesis using b Nil Cons ev by (simp add: rpc_loop.simps [of _ _ _ _ _ _ "_ # _"] HEADER_BUF_def)
    qed (use b \<open>ws = []\<close> in \<open>simp add: rpc_loop.simps HEADER_BUF_def\<close>)
  next
    case (Cons w ws')
    have ok: "request_ok w" using less.prems(4) by (simp add: Cons)
    let ?x = "web_text w"
    show ?thesis
    proof (cases "length ?x \<le> length buf")
      case True
      define rest where "rest = drop (length ?x) buf"
      have b: "buf = ?x @ rest"
        using less.prems(1) True by (simp add: Cons rest_def) (metis append_eq_append_conv_if append_take_drop_id)
      obtain buf' where a: "answer_request env permissions True (?x @ rest) (parsed_request w) = Some (Some (expected_reply env permissions w), buf')"
          "drop (length ?x) buf' = rest" using first_answer [OF ok] by blast
      have prev: "prevLen < length ?x" using less.prems(6) web_parsed(3) [OF ok] by (auto simp: Cons)
      have s: "sendReply (re_send env n) (expected_reply env permissions w) = (True, http_header (expected_reply env permissions w) @ hp_payload (expected_reply env permissions w))"
          "\<not> re_overloaded env n" using less.prems(5) by (simp_all add: Cons)
      have "rest @ stream es = concat (map web_text ws')" using less.prems(1) by (simp add: b Cons)
      then have "rpc_loop env permissions (n + 1) True rest 0 es = Some (map (\<lambda>rep. (rep, http_header rep @ hp_payload rep)) (map (expected_reply env permissions) ws'))"
        using less.hyps [of es rest ws' "n + 1" 0] less.prems web_parsed(3) [OF ok] by (simp add: b Cons)
      then show ?thesis using lb a s web_parsed(1,3) [OF ok] web_parsed(4) [OF ok, of env n] prev
        by (subst rpc_loop.simps) (simp add: b Cons Let_def)
    next
      case False
      have "buf = take (length buf) (?x @ concat (map web_text ws'))" using less.prems(1) by (metis Cons append_eq_conv_conj concat.simps(2) list.simps(9))
      then have t: "buf = take (length buf) ?x" using False by simp
      have pp: "(if buf = [] then Parse_partial else phr_parse_request buf prevLen) = Parse_partial"
        using web_parsed(2) [OF ok, of "length buf" prevLen] t False by auto
      have "stream es \<noteq> []" using less.prems(1) False by (auto simp: Cons)
      then obtain ev es' where es: "es = ev # es'" by (cases es) auto
      have prev: "length buf < length (web_text (hd ws))" using False by (simp add: Cons)
      have tot: "length buf + length (stream es) < HEADER_BUF" using less.prems(1,3) by (metis length_append)
      show ?thesis
      proof (cases ev)
        case (Recv_data d)
        have "rpc_loop env permissions n True (buf @ d) (length buf) es' = Some (map (\<lambda>rep. (rep, http_header rep @ hp_payload rep)) (map (expected_reply env permissions) ws))"
          using less.hyps [of es' "buf @ d" ws n "length buf"] less.prems es prev Recv_data Cons by simp
        moreover have "length d \<le> HEADER_BUF - length buf" using tot es Recv_data by simp
        ultimately show ?thesis using lb pp es less.prems(2) Recv_data by (subst rpc_loop.simps) (simp add: headerBuf_write_def)
      next
        case Recv_EINTR
        have "rpc_loop env permissions n True buf (length buf) es' = Some (map (\<lambda>rep. (rep, http_header rep @ hp_payload rep)) (map (expected_reply env permissions) ws))"
          using less.hyps [of es' buf ws n "length buf"] less.prems es prev Recv_EINTR Cons by simp
        then show ?thesis using lb pp es Recv_EINTR by (subst rpc_loop.simps) simp
      qed (use less.prems(2) es in simp_all)
    qed
  qed
qed

section \<open>Properties\<close>

text \<open>C27. Only permitted data is disclosed. Whatever bytes a client sends, in whatever pieces, every positive answer that its session gives has exactly the text of some parts of
  the status for each of which the access rules give a permission to the address of the client.\<close>

theorem rpc_discloses_permitted:
  assumes "rpc_sendStatsJson rules host env data es st = Some (outs, st')" "(rep, out) \<in> set outs" "hp_status rep = ''200 OK''"
  shows "\<exists>permissions ps. getacl rules host = Some permissions \<and> hp_payload rep = re_data env ps \<and> (\<forall>p\<in>set ps. permissions AND part_acl p \<noteq> 0)"
proof -
  obtain permissions where g: "getacl rules host = Some permissions" using assms(1) by (auto simp: rpc_sendStatsJson_def split: option.splits)
  consider "outs = last_reply env 0 ''403 Forbidden'' ''Access denied''" | "outs = last_reply env 0 ''503 Service Temporarily Unavailable'' ''Too many HTTP clients''"
    | "rpc_loop env permissions 0 True data 0 es = Some outs"
    using assms(1) by (auto simp: rpc_sendStatsJson_def headerBuf_write_def g Let_def split: if_splits)
  then have "permitted env permissions rep"
    by cases (use assms(2) rpc_loop_permitted last_reply_permitted in \<open>auto simp: last_reply_def Let_def text_reply_permitted\<close>)
  then show ?thesis using g assms(3) by (auto simp: permitted_def)
qed

text \<open>C28. A session always ends well. For every input, the bytes handed over by the caller and whatever is received afterwards, there is a result, and the number of
  sessions is what it was before: the loop ends with the connection, nothing is written behind the end of the request buffer, neither when the first bytes are copied nor when
  more are received, and decoding the fields of a path in place reads and writes only inside of the path. The only two ways to fail are those that the code does not
  check: access rules that cannot be compared with the address of the client (\<open>getacl\<close>; \<open>acl_uncomparable\<close> says which), and more than 3000 bytes handed over by the
  caller of \<open>rpc_sendStatsJson\<close>; then it does fail, if the client is permitted and there are not too many sessions.\<close>

theorem rpc_session_safe:
  "case rpc_sendStatsJson rules host env data es st of
     Some (outs, st') \<Rightarrow> st_count st' = st_count st \<and> getacl rules host \<noteq> None
       \<and> (HEADER_BUF < length data \<longrightarrow> getacl rules host = Some 0 \<or> MAX_CLIENTS \<le> st_count st)
   | None \<Rightarrow> getacl rules host = None \<or> HEADER_BUF < length data"
proof (cases "getacl rules host")
  case (Some permissions)
  have c: "st_count (rpc_leave (rpc_enter st)) = st_count st" "st_count (rpc_enter st) = st_count st + 1"
    by (simp_all add: rpc_leave_def rpc_enter_def update_loadstate_def)
  obtain outs where "rpc_loop env permissions 0 True data 0 es = Some outs" using rpc_loop_total by blast
  then show ?thesis using c by (simp add: rpc_sendStatsJson_def headerBuf_write_def Some Let_def)
qed (simp add: rpc_sendStatsJson_def)

text \<open>Rules that \<open>getacl\<close> cannot compare: one with a negative number of bytes, from a prefix length of -8 or less, or with more bits than an address has. The rules read from a file
  of prefix lengths 0 to 128 are not among them (\<open>acl_file_decides\<close>).\<close>

lemma acl_uncomparable:
  assumes "getacl rules host = None"
  shows "\<exists>r\<in>set rules. ar_bytes r < 0 \<or> 16 < ar_bytes r \<or> ar_bytes r = 16 \<and> ar_bitMask r \<noteq> 0"
proof -
  have "getacl_loop rules a = None \<Longrightarrow> \<exists>r\<in>set rules. ar_bytes r < 0 \<or> 16 < ar_bytes r \<or> ar_bytes r = 16 \<and> ar_bitMask r \<noteq> 0" for a
    by (induction rules a rule: getacl_loop.induct) (fastforce split: if_splits)+
  then show ?thesis using assms by (auto simp: getacl_def split: if_splits)
qed

text \<open>C26. Pipelined requests are answered in order. A client that is permitted and sends requests without waiting gets for each of them the reply that it has to get, in the order
  of the requests and one directly behind the other, no matter how the bytes of the requests are cut into packets, as long as all of them fit into the buffer of
  3000 bytes.\<close>

theorem rpc_pipeline:
  assumes "getacl rules host = Some permissions" "permissions \<noteq> 0" "st_count st < MAX_CLIENTS"
    and "data @ stream es = concat (map web_text ws)" "chunks_ok es" "length (concat (map web_text ws)) < HEADER_BUF" "list_all request_ok ws"
    and "sends_ok env 0 (map (expected_reply env permissions) ws)"
  shows "rpc_sendStatsJson rules host env data es st =
    Some (map (\<lambda>w. (expected_reply env permissions w, http_header (expected_reply env permissions w) @ hp_payload (expected_reply env permissions w))) ws, rpc_leave (rpc_enter st))"
proof -
  have "length data \<le> HEADER_BUF" using assms(4,6) by (metis le_add1 length_append less_imp_le order_trans)
  then have w: "headerBuf_write [] data = Some data" by (simp add: headerBuf_write_def)
  have "\<not> st_count (rpc_enter st) > MAX_CLIENTS" using assms(3) by (simp add: rpc_enter_def update_loadstate_def)
  then show ?thesis using rpc_loop_pipeline [OF assms(4-8), of 0] assms(1,2) w by (simp add: rpc_sendStatsJson_def Let_def comp_def)
qed

text \<open>A query is answered exactly. The reply has the parts that fields named \<open>q\<close> ask for, once each and in a fixed order, when all of them are permitted; when one of them
  is not, nothing but a refusal is sent.\<close>

theorem status_reply_exact:
  "status_reply data permissions flds ka =
    (if \<forall>p. (STR_Q, part_name p) \<in> set flds \<longrightarrow> permissions AND part_acl p \<noteq> 0
     then \<lparr>hp_status = ''200 OK'', hp_ctype = ''application/json'',
       hp_payload = data (filter (\<lambda>p. (STR_Q, part_name p) \<in> set flds) json_parts), hp_keepAlive = ka\<rparr>
     else text_reply ''403 Forbidden'' (the (denied permissions (requested flds))) ka)"
proof (cases "denied permissions (requested flds)")
  case None
  then show ?thesis using denied_iff [of permissions "requested flds"] by (simp add: status_reply_def requested_parts)
next
  case (Some msg)
  then have "\<not> (\<forall>p. (STR_Q, part_name p) \<in> set flds \<longrightarrow> permissions AND part_acl p \<noteq> 0)" using denied_iff [of permissions "requested flds"] by (auto simp: requested_iff)
  then show ?thesis using Some by (auto simp: status_reply_def)
qed

text \<open>The load state has a hysteresis. After every sequence of beginnings and ends of sessions the interface is overloaded only with at least 20 sessions, and it is not only
  with at most 40.\<close>

definition load_run :: "bool list \<Rightarrow> rpc_status" where
  "load_run enters = fold (\<lambda>e. if e then rpc_enter else rpc_leave) enters \<lparr>st_count = 0, st_overloaded = False\<rparr>"

theorem rpc_load_hysteresis:
  "if st_overloaded (load_run enters) then 20 \<le> st_count (load_run enters) else st_count (load_run enters) \<le> 40"
proof -
  let ?ok = "\<lambda>st. if st_overloaded st then 20 \<le> st_count st else st_count st \<le> 40"
  have "?ok st \<Longrightarrow> ?ok (fold (\<lambda>e. if e then rpc_enter else rpc_leave) enters st)" for st
    by (induction enters arbitrary: st) (auto simp: rpc_enter_def rpc_leave_def update_loadstate_def CUTOFF_START_def split: if_splits)
  then show ?thesis by (simp add: load_run_def)
qed

text \<open>When the bytes that were received fill the buffer, the connection is closed without an answer, also when a complete request is at its beginning.\<close>

theorem rpc_full_buffer_drops:
  assumes "request_ok w" "HEADER_BUF \<le> length (web_text w @ rest)"
  shows "rpc_loop env permissions n True [] 0 [Recv_data (web_text w @ rest)] = Some []"
proof -
  have full: "rpc_loop env permissions n True buf p es = Some []" if "HEADER_BUF \<le> length buf" for buf p es
    using that by (simp add: rpc_loop.simps)
  show ?thesis using assms full [of "web_text w @ rest"] full [of "take HEADER_BUF (web_text w @ rest)"]
    by (subst rpc_loop.simps) (auto simp: HEADER_BUF_def headerBuf_write_def)
qed

text \<open>The text of the first error message is sent for every later one, too.\<close>

theorem error_message_kept: "hp_payload (fst (rpc_sendErrorMessage encode m2 (snd (rpc_sendErrorMessage encode m1 None)))) = encode m1"
  by (simp add: rpc_sendErrorMessage_def Let_def)

section \<open>Examples\<close>

definition sample_web :: web_request where
  "sample_web = (ascii ''GET'', ascii ''/query?q=stats'', 1, [(ascii ''Host'', ascii ''proxy'')])"

definition sample_reply :: http_reply where
  "sample_reply = \<lparr>hp_status = ''200 OK'', hp_ctype = ''application/json'', hp_payload = ascii ''{}'', hp_keepAlive = True\<rparr>"

definition sample_rpc_env :: rpc_env where
  "sample_rpc_env = \<lparr>re_data = \<lambda>_. ascii ''{}'', re_send = \<lambda>_. (int (length (http_header sample_reply)), [Sent 2]), re_overloaded = \<lambda>_. False\<rparr>"

definition sample_web_host :: dnbd3_host where
  "sample_web_host = \<lparr>addr = replicate 16 127, port = 0, host_type = 2\<rparr>"

lemma sample_fields: "query_fields (ascii ''/query?q=stats'') = [(ascii ''q'', ascii ''stats'')]"
  by (simp add: query_fields_def ascii_def split_fields.simps [of "_ # _"])

lemma sample_file: "takeWhile (\<lambda>c. c \<noteq> 63) (ascii ''/query?q=stats'') = STR_QUERY"
  by (simp add: STR_QUERY_def ascii_def)

lemma sample_requested: "(STR_Q, part_name p) \<in> set [(ascii ''q'', ascii ''stats'')] \<longleftrightarrow> p = Stats"
  by (cases p) (simp_all add: STR_Q_def ascii_def)

lemma sample_web_ok: "request_ok sample_web"
  by code_simp

lemma sample_sent: "sendReply (re_send sample_rpc_env n) sample_reply = (True, http_header sample_reply @ hp_payload sample_reply)"
proof -
  have "length (http_header sample_reply) < 600" by (simp add: http_header_def sample_reply_def ascii_def dec.simps)
  then show ?thesis using sendAll_whole [of "ascii ''{}''" 2 10 "[]"] by (simp add: sendReply_def sample_rpc_env_def Let_def) (simp add: sample_reply_def ascii_def)
qed

lemma sample_expected: "expected_reply sample_rpc_env 0x7fffff sample_web = sample_reply"
proof -
  have "denied 0x7fffff (requested [(ascii ''q'', ascii ''stats'')]) = None"
    by (simp add: denied_iff requested_iff sample_requested ACL_STATS_def del: list.set)
  moreover have "expected_reply sample_rpc_env 0x7fffff sample_web = status_reply (\<lambda>_. ascii ''{}'') 0x7fffff [(ascii ''q'', ascii ''stats'')] True"
    by (simp add: expected_reply_def sample_web_def sample_file sample_fields sample_rpc_env_def)
  ultimately show ?thesis by (simp add: status_reply_def sample_reply_def)
qed

lemma sample_sends: "sends_ok sample_rpc_env n (replicate k sample_reply)"
  by (induction k arbitrary: n) (use sample_sent in \<open>simp_all add: sample_rpc_env_def\<close>)

lemma sample_web_length: "length (web_text sample_web) = 44"
  by (simp add: sample_web_def request_text_def ascii_def crlf_def)

theorem rpc_pipeline_witness:
  "rpc_sendStatsJson [] sample_web_host sample_rpc_env (take 24 (web_text sample_web))
     [Recv_data (drop 24 (web_text sample_web) @ [71]), Recv_EINTR, Recv_data (drop 1 (web_text sample_web))] \<lparr>st_count = 3, st_overloaded = False\<rparr> =
   Some ([(sample_reply, http_header sample_reply @ ascii ''{}''), (sample_reply, http_header sample_reply @ ascii ''{}'')], \<lparr>st_count = 3, st_overloaded = False\<rparr>)"
proof -
  have g: "getacl [] sample_web_host = Some 0x7fffff" by (simp add: getacl_def)
  have t: "web_text sample_web = [71] @ drop 1 (web_text sample_web)" by (simp add: sample_web_def request_text_def ascii_def)
  have c: "take 24 (web_text sample_web) @ stream [Recv_data (drop 24 (web_text sample_web) @ [71]), Recv_EINTR, Recv_data (drop 1 (web_text sample_web))] = concat (map web_text [sample_web, sample_web])"
    using t by simp
  have k: "chunks_ok [Recv_data (drop 24 (web_text sample_web) @ [71]), Recv_EINTR, Recv_data (drop 1 (web_text sample_web))]"
    using sample_web_length by auto
  have s: "sends_ok sample_rpc_env 0 (map (expected_reply sample_rpc_env 0x7fffff) [sample_web, sample_web])"
    using sample_sends [of 0 2] by (simp add: sample_expected numeral_2_eq_2)
  have st: "rpc_leave (rpc_enter \<lparr>st_count = 3, st_overloaded = False\<rparr>) = \<lparr>st_count = 3, st_overloaded = False\<rparr>"
    by (simp add: rpc_leave_def rpc_enter_def update_loadstate_def CUTOFF_START_def)
  show ?thesis using rpc_pipeline [OF g _ _ c k _ _ s, of "\<lparr>st_count = 3, st_overloaded = False\<rparr>"] sample_web_ok sample_web_length
    by (simp add: sample_expected MAX_CLIENTS_def HEADER_BUF_def st) (simp add: sample_reply_def)
qed

theorem rpc_discloses_permitted_witness:
  "\<exists>permissions ps. getacl [] sample_web_host = Some permissions \<and> hp_payload sample_reply = re_data sample_rpc_env ps \<and> (\<forall>p\<in>set ps. permissions AND part_acl p \<noteq> 0)"
proof (rule rpc_discloses_permitted)
  have g: "getacl [] sample_web_host = Some 0x7fffff" by (simp add: getacl_def)
  have s: "sends_ok sample_rpc_env 0 (map (expected_reply sample_rpc_env 0x7fffff) [sample_web])"
    using sample_sends [of 0 1] by (simp add: sample_expected)
  have "rpc_loop sample_rpc_env 0x7fffff 0 True (web_text sample_web) 0 [] = Some [(sample_reply, http_header sample_reply @ ascii ''{}'')]"
    using rpc_loop_pipeline [OF _ _ _ _ s, of "web_text sample_web" "[]" 0] sample_web_ok sample_web_length
    by (simp add: sample_expected HEADER_BUF_def) (simp add: sample_reply_def)
  then show "rpc_sendStatsJson [] sample_web_host sample_rpc_env (web_text sample_web) [] \<lparr>st_count = 3, st_overloaded = False\<rparr> =
      Some ([(sample_reply, http_header sample_reply @ ascii ''{}'')], rpc_leave (rpc_enter \<lparr>st_count = 3, st_overloaded = False\<rparr>))"
    using sample_web_length
    by (simp add: rpc_sendStatsJson_def headerBuf_write_def HEADER_BUF_def g Let_def rpc_enter_def update_loadstate_def MAX_CLIENTS_def CUTOFF_START_def)
qed (simp_all add: sample_reply_def)

theorem rpc_session_safe_witness:
  "(\<exists>outs st'. rpc_sendStatsJson [] sample_web_host sample_rpc_env [37, 0, 255] [Recv_data [13, 7]] \<lparr>st_count = 45, st_overloaded = True\<rparr> = Some (outs, st') \<and> st_count st' = 45)
   \<and> rpc_sendStatsJson [] sample_web_host sample_rpc_env (replicate 3001 0) [] \<lparr>st_count = 3, st_overloaded = False\<rparr> = None"
proof -
  have g: "getacl [] sample_web_host = Some 0x7fffff" by (simp add: getacl_def)
  show ?thesis
    using rpc_session_safe [where rules = "[]" and host = sample_web_host and env = sample_rpc_env and data = "[37, 0, 255]" and es = "[Recv_data [13, 7]]" and st = "\<lparr>st_count = 45, st_overloaded = True\<rparr>"]
      rpc_session_safe [where rules = "[]" and host = sample_web_host and env = sample_rpc_env and data = "replicate 3001 0" and es = "[]" and st = "\<lparr>st_count = 3, st_overloaded = False\<rparr>"]
    by (auto simp: g HEADER_BUF_def MAX_CLIENTS_def split: option.splits)
qed

theorem rpc_full_buffer_drops_witness:
  "rpc_loop sample_rpc_env 1 0 True [] 0 [Recv_data (web_text sample_web @ replicate 3000 71)] = Some []"
  by (rule rpc_full_buffer_drops [OF sample_web_ok]) (simp add: HEADER_BUF_def)

end
