(* ===== verification/Thread_Pool.thy ===== *)
theory Thread_Pool
  imports Dnbd3_Prelude "HOL-Library.Multiset"
begin

text \<open>
  The thread pool of the server, from \<open>src/server/threadpool.c\<close>, with the signals of \<open>src/shared/fdsignal.inc/eventfd.c\<close> that it uses, as a state machine: every caller of
  \<open>threadpool_run\<close> and every worker thread does its steps in any order with those of the others. Entries live in a heap; an address is also the name of the
  worker thread of the entry. A routine together with its argument is a number. \<open>None\<close> as a result is an access to memory that is not allocated.
\<close>

section \<open>Entries and signals\<close>

record pool_entry =
  e_next :: nat
  e_signal :: nat
  e_job :: "nat option"

text \<open>Where a worker thread is: it waits for its signal, it runs a routine, or it has come back from the routine.\<close>

datatype worker = Parked | Running nat | Worked

text \<open>Where a caller of \<open>threadpool_run\<close> is that has an entry: before it fills in the entry, or before it calls the signal.\<close>

datatype caller = Popped nat nat | Filled nat nat

fun caller_entry :: "caller \<Rightarrow> nat" where
  "caller_entry (Popped a j) = a"
| "caller_entry (Filled a j) = a"

fun caller_job :: "caller \<Rightarrow> nat" where
  "caller_job (Popped a j) = j"
| "caller_job (Filled a j) = j"

record thread_pool =
  tp_entries :: "nat \<Rightarrow> pool_entry option"
  tp_pool :: nat
  tp_maxIdle :: int
  tp_shutdown :: bool
  tp_workers :: "nat \<Rightarrow> worker option"
  tp_callers :: "caller list"
  tp_done :: "nat list"

definition on_entry :: "nat \<Rightarrow> (pool_entry \<Rightarrow> pool_entry) \<Rightarrow> thread_pool \<Rightarrow> thread_pool option" where
  "on_entry a f st = (case tp_entries st a of None \<Rightarrow> None | Some e \<Rightarrow> Some (st\<lparr>tp_entries := (tp_entries st)(a \<mapsto> f e)\<rparr>))"

definition signal_call :: "pool_entry \<Rightarrow> pool_entry" where
  "signal_call e = e\<lparr>e_signal := e_signal e + 1\<rparr>"

definition signal_clear :: "pool_entry \<Rightarrow> nat \<times> pool_entry" where
  "signal_clear e = (e_signal e, e\<lparr>e_signal := 0\<rparr>)"

section \<open>Operations\<close>

definition threadpool_init :: "int \<Rightarrow> thread_pool \<Rightarrow> bool \<times> thread_pool" where
  "threadpool_init maxIdle st =
    (if maxIdle < 0 \<or> tp_maxIdle st \<ge> 0 then (False, st) else (True, st\<lparr>tp_maxIdle := maxIdle\<rparr>))"

text \<open>The section under the lock in \<open>threadpool_run\<close>: the address of an idle entry, or 0.\<close>

definition take_idle :: "thread_pool \<Rightarrow> (nat \<times> thread_pool) option" where
  "take_idle st =
    (let entry = tp_pool st in
     if entry \<noteq> 0
     then (case tp_entries st entry of None \<Rightarrow> None | Some e \<Rightarrow> Some (entry, st\<lparr>tp_pool := e_next e\<rparr>))
     else Some (0, st))"

text \<open>The first part of \<open>threadpool_run\<close>. \<open>new\<close> is the address that \<open>malloc\<close> returns (0 when it fails) with the contents of that memory, and whether a signal and a thread could
  be made. When there is no entry the function returns \<open>false\<close> and the job is refused.\<close>

definition run_begin :: "nat \<Rightarrow> nat \<times> pool_entry \<Rightarrow> bool \<Rightarrow> thread_pool \<Rightarrow> thread_pool option" where
  "run_begin j new ok st =
    (case take_idle st of
       None \<Rightarrow> None
     | Some (entry, st) \<Rightarrow>
        if entry \<noteq> 0 then Some (st\<lparr>tp_callers := tp_callers st @ [Popped entry j]\<rparr>)
        else if fst new = 0 \<or> \<not> ok then Some st
        else Some (st\<lparr>tp_entries := (tp_entries st)(fst new \<mapsto> (snd new)\<lparr>e_signal := 0\<rparr>), tp_workers := (tp_workers st)(fst new \<mapsto> Parked),
               tp_callers := tp_callers st @ [Popped (fst new) j]\<rparr>))"

definition run_fill :: "nat \<Rightarrow> nat \<Rightarrow> thread_pool \<Rightarrow> thread_pool option" where
  "run_fill a j st = map_option (\<lambda>st. st\<lparr>tp_callers := map (\<lambda>c. if c = Popped a j then Filled a j else c) (tp_callers st)\<rparr>)
     (on_entry a (\<lambda>e. e\<lparr>e_next := 0, e_job := Some j\<rparr>) st)"

definition run_signal :: "nat \<Rightarrow> nat \<Rightarrow> thread_pool \<Rightarrow> thread_pool option" where
  "run_signal a j st = map_option (\<lambda>st. st\<lparr>tp_callers := remove1 (Filled a j) (tp_callers st)\<rparr>) (on_entry a signal_call st)"

text \<open>The end of a worker.\<close>

definition worker_exit :: "nat \<Rightarrow> thread_pool \<Rightarrow> thread_pool option" where
  "worker_exit a st = (case tp_entries st a of
     None \<Rightarrow> None | Some _ \<Rightarrow> Some (st\<lparr>tp_entries := (tp_entries st)(a := None), tp_workers := (tp_workers st)(a := None)\<rparr>))"

text \<open>A waiting worker whose signal was called.\<close>

definition worker_wake :: "nat \<Rightarrow> thread_pool \<Rightarrow> thread_pool option" where
  "worker_wake a st =
    (case tp_entries st a of
       None \<Rightarrow> None
     | Some e \<Rightarrow>
        (case signal_clear e of (ret, e) \<Rightarrow>
           let st = st\<lparr>tp_entries := (tp_entries st)(a \<mapsto> e)\<rparr> in
           if tp_shutdown st then worker_exit a st
           else if ret > 0 then
             (case e_job e of
                None \<Rightarrow> Some st
              | Some j \<Rightarrow> Some (st\<lparr>tp_workers := (tp_workers st)(a \<mapsto> Running j)\<rparr>))
           else Some st))"

text \<open>The routine has returned.\<close>

definition worker_finish :: "nat \<Rightarrow> nat \<Rightarrow> thread_pool \<Rightarrow> thread_pool option" where
  "worker_finish a j st =
    (case on_entry a (\<lambda>e. e\<lparr>e_job := None\<rparr>) st of
       None \<Rightarrow> None
     | Some st \<Rightarrow>
        let st = st\<lparr>tp_done := tp_done st @ [j]\<rparr> in
        if tp_shutdown st then worker_exit a st else Some (st\<lparr>tp_workers := (tp_workers st)(a \<mapsto> Worked)\<rparr>))"

partial_function (option) count_idle :: "(nat \<Rightarrow> pool_entry option) \<Rightarrow> nat \<Rightarrow> nat option" where
  "count_idle es p =
    (if p = 0 then Some 0 else case es p of None \<Rightarrow> None | Some e \<Rightarrow> Option.bind (count_idle es (e_next e)) (\<lambda>n. Some (n + 1)))"

declare count_idle.simps [code]

text \<open>The section under the lock in the worker.\<close>

definition worker_park :: "nat \<Rightarrow> thread_pool \<Rightarrow> thread_pool option" where
  "worker_park a st =
    (case count_idle (tp_entries st) (tp_pool st) of
       None \<Rightarrow> None
     | Some threadCount \<Rightarrow>
        if int threadCount \<ge> tp_maxIdle st then worker_exit a st
        else map_option (\<lambda>st. st\<lparr>tp_pool := a, tp_workers := (tp_workers st)(a \<mapsto> Parked)\<rparr>) (on_entry a (\<lambda>e. e\<lparr>e_next := tp_pool st\<rparr>) st))"

partial_function (option) signal_all :: "nat \<Rightarrow> thread_pool \<Rightarrow> thread_pool option" where
  "signal_all ptr st =
    (if ptr = 0 then Some st
     else case tp_entries st ptr of
       None \<Rightarrow> None
     | Some e \<Rightarrow> signal_all (e_next e) (st\<lparr>tp_entries := (tp_entries st)(ptr \<mapsto> signal_call e)\<rparr>))"

declare signal_all.simps [code]

definition threadpool_close :: "thread_pool \<Rightarrow> thread_pool option" where
  "threadpool_close st =
    (let st = st\<lparr>tp_shutdown := True\<rparr> in
     if tp_maxIdle st < 0 then Some st else signal_all (tp_pool st) (st\<lparr>tp_maxIdle := - 1\<rparr>))"

section \<open>Executions\<close>

datatype pool_action = Run_begin nat "nat \<times> pool_entry" bool | Run_fill nat nat | Run_signal nat nat | Wake nat | Finish nat nat | Park nat | Close

fun pool_exec :: "pool_action \<Rightarrow> thread_pool \<Rightarrow> thread_pool option" where
  "pool_exec (Run_begin j new ok) = run_begin j new ok"
| "pool_exec (Run_fill a j) = run_fill a j"
| "pool_exec (Run_signal a j) = run_signal a j"
| "pool_exec (Wake a) = worker_wake a"
| "pool_exec (Finish a j) = worker_finish a j"
| "pool_exec (Park a) = worker_park a"
| "pool_exec Close = threadpool_close"

text \<open>Which actions can happen: \<open>malloc\<close> returns fresh memory, a thread does the step it is at, and the call that reads a signal returns when the signal was called.\<close>

fun pool_enabled :: "pool_action \<Rightarrow> thread_pool \<Rightarrow> bool" where
  "pool_enabled (Run_begin j new ok) st \<longleftrightarrow> tp_entries st (fst new) = None"
| "pool_enabled (Run_fill a j) st \<longleftrightarrow> Popped a j \<in> set (tp_callers st)"
| "pool_enabled (Run_signal a j) st \<longleftrightarrow> Filled a j \<in> set (tp_callers st)"
| "pool_enabled (Wake a) st \<longleftrightarrow> tp_workers st a = Some Parked \<and> (case tp_entries st a of None \<Rightarrow> True | Some e \<Rightarrow> e_signal e > 0)"
| "pool_enabled (Finish a j) st \<longleftrightarrow> tp_workers st a = Some (Running j)"
| "pool_enabled (Park a) st \<longleftrightarrow> tp_workers st a = Some Worked"
| "pool_enabled Close st \<longleftrightarrow> True"

text \<open>A sequence of actions, each of them possible.\<close>

fun pool_run :: "pool_action list \<Rightarrow> thread_pool \<Rightarrow> thread_pool option" where
  "pool_run [] st = Some st"
| "pool_run (a # as) st = (if pool_enabled a st then Option.bind (pool_exec a st) (pool_run as) else None)"

text \<open>The pool after \<open>threadpool_init\<close>.\<close>

definition pool_start :: "int \<Rightarrow> thread_pool" where
  "pool_start maxIdle = snd (threadpool_init maxIdle
     \<lparr>tp_entries = \<lambda>_. None, tp_pool = 0, tp_maxIdle = - 1, tp_shutdown = False, tp_workers = \<lambda>_. None, tp_callers = [], tp_done = []\<rparr>)"

text \<open>The job that a call of \<open>threadpool_run\<close> accepted.\<close>

fun job_accepted :: "pool_action \<Rightarrow> thread_pool \<Rightarrow> thread_pool \<Rightarrow> nat multiset" where
  "job_accepted (Run_begin j new ok) st st' = (if tp_callers st' = tp_callers st then {#} else {#j#})"
| "job_accepted a st st' = {#}"

text \<open>The states that can be reached before the pool is closed, with the jobs that were accepted on the way.\<close>

inductive pool_reach :: "int \<Rightarrow> nat multiset \<Rightarrow> thread_pool \<Rightarrow> bool" where
  pool_init: "pool_reach maxIdle {#} (pool_start maxIdle)"
| pool_next: "pool_reach maxIdle js st \<Longrightarrow> pool_enabled a st \<Longrightarrow> pool_exec a st = Some st' \<Longrightarrow> a \<noteq> Close \<Longrightarrow> pool_reach maxIdle (js + job_accepted a st st') st'"

section \<open>The list of idle entries\<close>

fun linked :: "(nat \<Rightarrow> pool_entry option) \<Rightarrow> nat \<Rightarrow> nat list \<Rightarrow> bool" where
  "linked es p [] \<longleftrightarrow> p = 0"
| "linked es p (x # xs) \<longleftrightarrow> p = x \<and> x \<noteq> 0 \<and> (\<exists>e. es x = Some e \<and> linked es (e_next e) xs)"

lemma linked_other: "linked es p xs \<Longrightarrow> a \<notin> set xs \<Longrightarrow> linked (es(a := e)) p xs"
  by (induction xs arbitrary: p) auto

lemma count_linked: "linked es p xs \<Longrightarrow> count_idle es p = Some (length xs)"
  by (induction xs arbitrary: p) (subst count_idle.simps; auto)+

section \<open>The invariant\<close>

definition quiet :: "thread_pool \<Rightarrow> nat \<Rightarrow> bool" where
  "quiet st a \<longleftrightarrow> (\<exists>e. tp_entries st a = Some e \<and> e_signal e = 0)"

definition called :: "thread_pool \<Rightarrow> nat \<Rightarrow> bool" where
  "called st a \<longleftrightarrow> (\<exists>e j. tp_entries st a = Some e \<and> e_signal e > 0 \<and> e_job e = Some j)"

definition held_entries :: "thread_pool \<Rightarrow> nat set" where
  "held_entries st = caller_entry ` set (tp_callers st)"

definition heap_ok :: "thread_pool \<Rightarrow> bool" where
  "heap_ok st \<longleftrightarrow> finite (dom (tp_entries st)) \<and> dom (tp_workers st) = dom (tp_entries st) \<and> tp_entries st 0 = None \<and> \<not> tp_shutdown st"

text \<open>\<open>xs\<close> are the idle entries.\<close>

definition idle_ok :: "thread_pool \<Rightarrow> nat list \<Rightarrow> bool" where
  "idle_ok st xs \<longleftrightarrow> linked (tp_entries st) (tp_pool st) xs \<and> distinct xs \<and> int (length xs) \<le> max 0 (tp_maxIdle st)
     \<and> (\<forall>a\<in>set xs. tp_workers st a = Some Parked \<and> quiet st a \<and> a \<notin> held_entries st)"

definition callers_ok :: "thread_pool \<Rightarrow> bool" where
  "callers_ok st \<longleftrightarrow> distinct (map caller_entry (tp_callers st)) \<and> (\<forall>a\<in>held_entries st. tp_workers st a = Some Parked \<and> quiet st a)
     \<and> (\<forall>a j. Filled a j \<in> set (tp_callers st) \<longrightarrow> (\<exists>e. tp_entries st a = Some e \<and> e_job e = Some j))"

definition workers_ok :: "thread_pool \<Rightarrow> nat list \<Rightarrow> bool" where
  "workers_ok st xs \<longleftrightarrow> (\<forall>a. tp_workers st a = Some Parked \<longrightarrow> a \<in> set xs \<or> a \<in> held_entries st \<or> called st a)
     \<and> (\<forall>a w. tp_workers st a = Some w \<longrightarrow> w \<noteq> Parked \<longrightarrow> quiet st a)"

definition pool_inv :: "thread_pool \<Rightarrow> nat list \<Rightarrow> bool" where
  "pool_inv st xs \<longleftrightarrow> heap_ok st \<and> idle_ok st xs \<and> callers_ok st \<and> workers_ok st xs"

lemmas pool_inv_defs = pool_inv_def heap_ok_def idle_ok_def callers_ok_def workers_ok_def quiet_def called_def

text \<open>The jobs that are on their way: taken by a caller, signalled to a worker, running, done.\<close>

fun job_at :: "worker option \<Rightarrow> pool_entry option \<Rightarrow> nat multiset" where
  "job_at (Some (Running j)) e = {#j#}"
| "job_at (Some Parked) (Some e) = (if e_signal e > 0 then (case e_job e of Some j \<Rightarrow> {#j#} | None \<Rightarrow> {#}) else {#})"
| "job_at w e = {#}"

definition worker_jobs :: "thread_pool \<Rightarrow> nat \<Rightarrow> nat multiset" where
  "worker_jobs st a = job_at (tp_workers st a) (tp_entries st a)"

definition pool_jobs :: "thread_pool \<Rightarrow> nat multiset" where
  "pool_jobs st = mset (map caller_job (tp_callers st)) + (\<Sum>a\<in>dom (tp_workers st). worker_jobs st a) + mset (tp_done st)"

lemma sum_one_split: "finite D \<Longrightarrow> a \<in> D \<Longrightarrow> sum f D = f a + (sum f (D - {a}) :: nat multiset)"
  by (rule sum.remove)

lemma linked_pool: "idle_ok st xs \<Longrightarrow> tp_pool st \<noteq> 0 \<Longrightarrow> \<exists>e ys. xs = tp_pool st # ys \<and> tp_entries st (tp_pool st) = Some e \<and> linked (tp_entries st) (e_next e) ys"
  by (cases xs) (auto simp: idle_ok_def)

lemma pool_invI: "heap_ok st \<Longrightarrow> idle_ok st xs \<Longrightarrow> callers_ok st \<Longrightarrow> workers_ok st xs \<Longrightarrow> pool_inv st xs"
  by (simp add: pool_inv_def)

lemma pool_invD:
  assumes "pool_inv st xs"
  shows "heap_ok st" "idle_ok st xs" "callers_ok st" "workers_ok st xs"
  using assms by (simp_all add: pool_inv_def)

lemma begin_idle:
  assumes inv: "pool_inv st xs" and p: "tp_pool st \<noteq> 0"
  shows "\<exists>st' ys. run_begin j new ok st = Some st' \<and> pool_inv st' ys \<and> tp_callers st' \<noteq> tp_callers st \<and> pool_jobs st' = add_mset j (pool_jobs st)"
proof -
  note i = pool_invD [OF inv]
  obtain e ys where x: "xs = tp_pool st # ys" "tp_entries st (tp_pool st) = Some e" "linked (tp_entries st) (e_next e) ys"
    using linked_pool [of st xs] i(2) p by auto
  define st' where "st' = st\<lparr>tp_pool := e_next e, tp_callers := tp_callers st @ [Popped (tp_pool st) j]\<rparr>"
  have r: "run_begin j new ok st = Some st'" using p x(2) by (simp add: run_begin_def take_idle_def Let_def st'_def)
  have h: "held_entries st' = insert (tp_pool st) (held_entries st)" by (auto simp: held_entries_def st'_def)
  have q: "quiet st' = quiet st" "called st' = called st" by (simp_all add: fun_eq_iff quiet_def called_def st'_def)
  have "pool_inv st' ys"
  proof (rule pool_invI)
    show "heap_ok st'" using i(1) by (simp add: heap_ok_def st'_def)
    show "idle_ok st' ys" using i(2) x unfolding idle_ok_def h q by (auto simp: st'_def)
    show "callers_ok st'" using i(2,3) x unfolding idle_ok_def callers_ok_def h q by (auto simp: st'_def held_entries_def)
    show "workers_ok st' ys" using i(4) x unfolding workers_ok_def h q by (auto simp: st'_def)
  qed
  moreover have "worker_jobs st' = worker_jobs st" by (rule ext) (simp add: worker_jobs_def st'_def)
  then have "pool_jobs st' = add_mset j (pool_jobs st)" by (simp add: pool_jobs_def) (simp add: st'_def)
  ultimately show ?thesis using r by (auto simp: st'_def)
qed

lemma begin_new:
  assumes inv: "pool_inv st xs" and p: "tp_pool st = 0" "tp_entries st (fst new) = None" "fst new \<noteq> 0" ok
  shows "\<exists>st'. run_begin j new ok st = Some st' \<and> pool_inv st' xs \<and> tp_callers st' \<noteq> tp_callers st \<and> pool_jobs st' = add_mset j (pool_jobs st)"
proof -
  note i = pool_invD [OF inv]
  let ?a = "fst new"
  define st' where "st' = st\<lparr>tp_entries := (tp_entries st)(?a \<mapsto> (snd new)\<lparr>e_signal := 0\<rparr>), tp_workers := (tp_workers st)(?a \<mapsto> Parked), tp_callers := tp_callers st @ [Popped ?a j]\<rparr>"
  have r: "run_begin j new ok st = Some st'" using p by (simp add: run_begin_def take_idle_def Let_def st'_def)
  have x: "xs = []" using i(2) p(1) by (cases xs) (auto simp: idle_ok_def)
  have nw: "tp_workers st ?a = None" using i(1) p(2) unfolding heap_ok_def by (metis domIff)
  have nh: "?a \<notin> held_entries st" using i(3) nw unfolding callers_ok_def by auto
  have h: "held_entries st' = insert ?a (held_entries st)" by (auto simp: held_entries_def st'_def)
  have q: "quiet st' b = (b = ?a \<or> quiet st b)" "b \<noteq> ?a \<Longrightarrow> called st' b = called st b" for b by (auto simp: quiet_def called_def st'_def p(2))
  have "pool_inv st' xs"
  proof (rule pool_invI)
    show "heap_ok st'" using i(1) p(3) by (auto simp: heap_ok_def st'_def)
    show "idle_ok st' xs" using i(2) p(1) unfolding idle_ok_def x by (simp add: st'_def)
    have "Filled ?a k \<notin> set (tp_callers st)" for k using nh unfolding held_entries_def by force
    then show "callers_ok st'" using i(3) nh p(2) unfolding callers_ok_def h q by (auto simp: st'_def held_entries_def)
    show "workers_ok st' xs" using i(4) q unfolding workers_ok_def h by (auto simp: st'_def)
  qed
  moreover have "pool_jobs st' = add_mset j (pool_jobs st)"
  proof -
    have "sum (worker_jobs st') (dom (tp_workers st)) = sum (worker_jobs st) (dom (tp_workers st))"
      using nw by (intro sum.cong) (auto simp: worker_jobs_def st'_def)
    moreover have "worker_jobs st' ?a = {#}" by (simp add: worker_jobs_def st'_def)
    moreover have "finite (dom (tp_workers st))" "?a \<notin> dom (tp_workers st)" using i(1) nw by (auto simp: heap_ok_def)
    ultimately have "(\<Sum>a\<in>dom (tp_workers st'). worker_jobs st' a) = sum (worker_jobs st) (dom (tp_workers st))" by (simp add: st'_def)
    then show ?thesis by (simp add: pool_jobs_def) (simp add: st'_def)
  qed
  ultimately show ?thesis using r by (auto simp: st'_def)
qed

text \<open>The other actions change one entry and its worker.\<close>

lemma jobs_one_changed:
  assumes "finite (dom (tp_workers st))" "tp_workers st a = Some w" "tp_workers st' a = Some w'"
    and "\<And>b. b \<noteq> a \<Longrightarrow> tp_workers st' b = tp_workers st b \<and> tp_entries st' b = tp_entries st b"
  shows "(\<Sum>b\<in>dom (tp_workers st'). worker_jobs st' b) = worker_jobs st' a + (\<Sum>b\<in>dom (tp_workers st) - {a}. worker_jobs st b)"
proof -
  have "tp_workers st' b = None \<longleftrightarrow> tp_workers st b = None" for b using assms(2,3) assms(4) [of b] by (cases "b = a") auto
  then have d: "dom (tp_workers st') = dom (tp_workers st)" by (simp add: dom_def)
  moreover have "(\<Sum>b\<in>dom (tp_workers st) - {a}. worker_jobs st' b) = (\<Sum>b\<in>dom (tp_workers st) - {a}. worker_jobs st b)"
    using assms(4) by (intro sum.cong) (auto simp: worker_jobs_def)
  moreover have "a \<in> dom (tp_workers st)" using assms(2) by auto
  ultimately show ?thesis using sum_one_split [OF assms(1), of a "worker_jobs st'"] by simp
qed

lemma jobs_split: "finite (dom (tp_workers st)) \<Longrightarrow> tp_workers st a = Some w \<Longrightarrow>
    (\<Sum>b\<in>dom (tp_workers st). worker_jobs st b) = worker_jobs st a + (\<Sum>b\<in>dom (tp_workers st) - {a}. worker_jobs st b)"
  by (rule sum_one_split) auto

lemma heap_ok_update:
  assumes "heap_ok st" "tp_entries st a = Some e" "tp_entries st' = (tp_entries st)(a \<mapsto> e')" "dom (tp_workers st') = dom (tp_workers st)" "tp_shutdown st' = tp_shutdown st"
  shows "heap_ok st'"
proof -
  have "a \<noteq> 0" using assms(1,2) by (metis heap_ok_def option.distinct(1))
  then show ?thesis using assms by (auto simp: heap_ok_def)
qed

lemma fill_ok:
  assumes inv: "pool_inv st xs" and c: "Popped a j \<in> set (tp_callers st)"
  shows "\<exists>st'. run_fill a j st = Some st' \<and> pool_inv st' xs \<and> pool_jobs st' = pool_jobs st"
proof -
  note i = pool_invD [OF inv]
  have ah: "a \<in> held_entries st" using c unfolding held_entries_def by force
  obtain e where e: "tp_entries st a = Some e" "e_signal e = 0" "tp_workers st a = Some Parked" using i(3) ah unfolding callers_ok_def quiet_def by blast
  let ?f = "\<lambda>c. if c = Popped a j then Filled a j else c"
  define st' where "st' = st\<lparr>tp_entries := (tp_entries st)(a \<mapsto> e\<lparr>e_next := 0, e_job := Some j\<rparr>), tp_callers := map ?f (tp_callers st)\<rparr>"
  have r: "run_fill a j st = Some st'" using e(1) by (simp add: run_fill_def on_entry_def st'_def)
  have f: "tp_entries st' = (tp_entries st)(a \<mapsto> e\<lparr>e_next := 0, e_job := Some j\<rparr>)" "tp_workers st' = tp_workers st" "tp_callers st' = map ?f (tp_callers st)" "tp_pool st' = tp_pool st"
    "tp_maxIdle st' = tp_maxIdle st" "tp_shutdown st' = tp_shutdown st" "tp_done st' = tp_done st" by (simp_all add: st'_def)
  have m: "map caller_entry (map ?f (tp_callers st)) = map caller_entry (tp_callers st)" "map caller_job (map ?f (tp_callers st)) = map caller_job (tp_callers st)" by auto
  have h: "held_entries st' = held_entries st" using arg_cong [OF m(1), of set] unfolding held_entries_def by (simp only: set_map) (simp add: f)
  have q: "quiet st' = quiet st" using e by (auto simp: fun_eq_iff quiet_def f)
  have cl: "called st' b = called st b" for b using e by (auto simp: called_def f)
  have only: "Filled a k \<notin> set (tp_callers st)" for k
    using c i(3) unfolding callers_ok_def by (metis caller.distinct(1) caller_entry.simps distinct_map inj_onD)
  have "pool_inv st' xs"
  proof (rule pool_invI)
    show "heap_ok st'" using heap_ok_update [OF i(1) e(1)] by (simp add: f)
    have "a \<notin> set xs" using i(2) ah unfolding idle_ok_def by auto
    then show "idle_ok st' xs" using i(2) linked_other [of "tp_entries st" _ xs a] unfolding idle_ok_def h q by (auto simp: f)
    have "tp_callers st' = map ?f (tp_callers st)" by (simp add: f)
    then have d: "distinct (map caller_entry (tp_callers st'))" using i(3) unfolding callers_ok_def by (simp only: m(1))
    have "\<exists>e. tp_entries st' b = Some e \<and> e_job e = Some k" if "Filled b k \<in> set (tp_callers st')" for b k
      using that i(3) only unfolding callers_ok_def by (auto simp: f split: if_splits)
    then show "callers_ok st'" using i(3) d unfolding callers_ok_def h q by (auto simp: f)
    show "workers_ok st' xs" using i(4) unfolding workers_ok_def h q cl by (auto simp: f)
  qed
  moreover have "worker_jobs st' b = worker_jobs st b" for b using e by (simp add: worker_jobs_def f)
  then have "pool_jobs st' = pool_jobs st" unfolding pool_jobs_def f(2,3,7) m(2) by simp
  ultimately show ?thesis using r by blast
qed

lemma signal_ok:
  assumes inv: "pool_inv st xs" and c: "Filled a j \<in> set (tp_callers st)"
  shows "\<exists>st'. run_signal a j st = Some st' \<and> pool_inv st' xs \<and> pool_jobs st' = pool_jobs st"
proof -
  note i = pool_invD [OF inv]
  have ah: "a \<in> held_entries st" using c unfolding held_entries_def by force
  obtain e where e: "tp_entries st a = Some e" "e_signal e = 0" "tp_workers st a = Some Parked" using i(3) ah unfolding callers_ok_def quiet_def by blast
  have ej: "e_job e = Some j" using i(3) c e(1) unfolding callers_ok_def by (metis option.inject)
  define st' where "st' = st\<lparr>tp_entries := (tp_entries st)(a \<mapsto> signal_call e), tp_callers := remove1 (Filled a j) (tp_callers st)\<rparr>"
  have r: "run_signal a j st = Some st'" using e(1) by (simp add: run_signal_def on_entry_def st'_def)
  have f: "tp_entries st' = (tp_entries st)(a \<mapsto> signal_call e)" "tp_workers st' = tp_workers st" "tp_callers st' = remove1 (Filled a j) (tp_callers st)" "tp_pool st' = tp_pool st"
    "tp_maxIdle st' = tp_maxIdle st" "tp_shutdown st' = tp_shutdown st" "tp_done st' = tp_done st" by (simp_all add: st'_def)
  have dc: "distinct (map caller_entry (tp_callers st))" using i(3) by (simp add: callers_ok_def)
  have sc: "set (tp_callers st') = set (tp_callers st) - {Filled a j}" using dc by (simp add: f distinct_map)
  have same: "b = Filled a j" if "b \<in> set (tp_callers st)" "caller_entry b = a" for b
    using that c dc by (metis caller_entry.simps(2) distinct_map inj_onD)
  have h: "held_entries st' = held_entries st - {a}"
  proof (intro set_eqI iffI)
    fix b assume "b \<in> held_entries st'"
    then obtain x where x: "x \<in> set (tp_callers st)" "x \<noteq> Filled a j" "b = caller_entry x" unfolding held_entries_def sc by blast
    then show "b \<in> held_entries st - {a}" using same [of x] unfolding held_entries_def by blast
  next
    fix b assume "b \<in> held_entries st - {a}"
    then obtain x where x: "x \<in> set (tp_callers st)" "b = caller_entry x" "b \<noteq> a" unfolding held_entries_def by blast
    then show "b \<in> held_entries st'" unfolding held_entries_def sc by (intro image_eqI [of _ _ x]) auto
  qed
  have q: "b \<noteq> a \<Longrightarrow> quiet st' b = quiet st b" "b \<noteq> a \<Longrightarrow> called st' b = called st b" "called st' a" for b
    using ej by (auto simp: quiet_def called_def f signal_call_def)
  have ax: "a \<notin> set xs" using i(2) ah unfolding idle_ok_def by auto
  have "pool_inv st' xs"
  proof (rule pool_invI)
    show "heap_ok st'" using heap_ok_update [OF i(1) e(1)] by (simp add: f)
    have "quiet st' b = quiet st b" if "b \<in> set xs" for b using q(1) [of b] ax that by blast
    then show "idle_ok st' xs" using i(2) linked_other [of "tp_entries st" _ xs a] ax unfolding idle_ok_def h by (auto simp: f)
    have "distinct (map caller_entry (tp_callers st'))" using dc by (simp add: f distinct_map inj_on_diff)
    moreover have "\<exists>e. tp_entries st' b = Some e \<and> e_job e = Some k" if fl: "Filled b k \<in> set (tp_callers st')" for b k
    proof -
      have "b \<noteq> a" using fl sc same by force
      then show ?thesis using fl i(3) sc unfolding callers_ok_def by (auto simp: f)
    qed
    ultimately show "callers_ok st'" using i(3) q(1) unfolding callers_ok_def h by (auto simp: f)
    show "workers_ok st' xs" using i(4) q e(3) unfolding workers_ok_def h f(2) by (metis Diff_iff option.inject singletonD)
  qed
  moreover have "pool_jobs st' = pool_jobs st"
  proof -
    have fin: "finite (dom (tp_workers st))" using i(1) by (auto simp: heap_ok_def)
    have w: "worker_jobs st a = {#}" "worker_jobs st' a = {#j#}" using e ej by (simp_all add: worker_jobs_def f signal_call_def)
    have "(\<Sum>b\<in>dom (tp_workers st'). worker_jobs st' b) = add_mset j (\<Sum>b\<in>dom (tp_workers st). worker_jobs st b)"
      using jobs_one_changed [OF fin e(3), of st' Parked] jobs_split [OF fin e(3)] w e(3) by (simp add: f)
    moreover have "mset (tp_callers st) = add_mset (Filled a j) (mset (tp_callers st'))" using c by (simp add: f)
    then have "mset (map caller_job (tp_callers st)) = add_mset j (mset (map caller_job (tp_callers st')))" by simp
    ultimately show ?thesis by (simp add: pool_jobs_def) (simp add: f)
  qed
  ultimately show ?thesis using r by blast
qed

text \<open>A worker that does something is not idle and not held by a caller.\<close>

lemma worker_busy:
  assumes "pool_inv st xs" "tp_workers st a = Some w" "w \<noteq> Parked \<or> \<not> quiet st a"
  shows "a \<notin> set xs" "a \<notin> held_entries st" "w = Parked \<Longrightarrow> called st a" "w \<noteq> Parked \<Longrightarrow> quiet st a"
  using assms by (auto simp: pool_inv_def idle_ok_def callers_ok_def workers_ok_def)

text \<open>What a busy worker may do to its own entry.\<close>

lemma worker_changes:
  assumes inv: "pool_inv st xs" and w: "tp_workers st a = Some w" "tp_entries st a = Some e" and n: "a \<notin> set xs" "a \<notin> held_entries st"
    and f: "tp_entries st' = (tp_entries st)(a \<mapsto> e')" "tp_workers st' = (tp_workers st)(a \<mapsto> w')" "w' \<noteq> Parked" "e_signal e' = 0"
      "tp_callers st' = tp_callers st" "tp_pool st' = tp_pool st" "tp_maxIdle st' = tp_maxIdle st" "tp_shutdown st' = tp_shutdown st"
  shows "pool_inv st' xs"
    and "(\<Sum>b\<in>dom (tp_workers st'). worker_jobs st' b) + worker_jobs st a = (\<Sum>b\<in>dom (tp_workers st). worker_jobs st b) + worker_jobs st' a"
proof -
  note i = pool_invD [OF inv]
  have h: "held_entries st' = held_entries st" by (simp add: held_entries_def f)
  have q: "quiet st' a" "b \<noteq> a \<Longrightarrow> quiet st' b = quiet st b" "b \<noteq> a \<Longrightarrow> called st' b = called st b" for b
    using f(4) by (auto simp: quiet_def called_def f(1))
  show "pool_inv st' xs"
  proof (rule pool_invI)
    show "heap_ok st'" using heap_ok_update [OF i(1) w(2) f(1)] f w(1) by auto
    have "quiet st' b = quiet st b" if "b \<in> set xs" for b using q(2) [of b] n that by blast
    then show "idle_ok st' xs" using i(2) linked_other [of "tp_entries st" _ xs a] n unfolding idle_ok_def h by (auto simp: f)
    have "Filled a k \<notin> set (tp_callers st)" for k using n(2) unfolding held_entries_def by force
    then show "callers_ok st'" using i(3) q(2) n(2) unfolding callers_ok_def h f(5) by (auto simp: f)
    show "workers_ok st' xs" using i(4) q f(3) unfolding workers_ok_def h by (auto simp: f(2))
  qed
  have fin: "finite (dom (tp_workers st))" using i(1) by (auto simp: heap_ok_def)
  show "(\<Sum>b\<in>dom (tp_workers st'). worker_jobs st' b) + worker_jobs st a = (\<Sum>b\<in>dom (tp_workers st). worker_jobs st b) + worker_jobs st' a"
    using jobs_one_changed [OF fin w(1), of st' w'] jobs_split [OF fin w(1)] by (simp add: f(1,2))
qed

lemma wake_ok:
  assumes inv: "pool_inv st xs" and w: "tp_workers st a = Some Parked" "\<not> quiet st a"
  shows "\<exists>st' j. worker_wake a st = Some st' \<and> pool_inv st' xs \<and> pool_jobs st' = pool_jobs st \<and> tp_workers st' a = Some (Running j) \<and> tp_callers st' = tp_callers st"
proof -
  note b = worker_busy [OF inv w(1)]
  obtain e j where e: "tp_entries st a = Some e" "e_signal e > 0" "e_job e = Some j" using b(3) w(2) unfolding called_def by blast
  define st' where "st' = st\<lparr>tp_entries := (tp_entries st)(a \<mapsto> e\<lparr>e_signal := 0\<rparr>), tp_workers := (tp_workers st)(a \<mapsto> Running j)\<rparr>"
  have r: "worker_wake a st = Some st'"
    using e pool_invD(1) [OF inv] by (simp add: worker_wake_def signal_clear_def st'_def heap_ok_def Let_def)
  have c: "pool_inv st' xs" "(\<Sum>b\<in>dom (tp_workers st'). worker_jobs st' b) + worker_jobs st a = (\<Sum>b\<in>dom (tp_workers st). worker_jobs st b) + worker_jobs st' a"
    using worker_changes [OF inv w(1) e(1), of st' "e\<lparr>e_signal := 0\<rparr>" "Running j"] b(1,2) w(2) by (simp_all add: st'_def)
  moreover have "worker_jobs st a = {#j#}" "worker_jobs st' a = {#j#}" using e w(1) by (simp_all add: worker_jobs_def st'_def)
  ultimately have "pool_jobs st' = pool_jobs st" by (simp add: pool_jobs_def) (simp add: st'_def)
  then show ?thesis using r c(1) by (auto simp: st'_def)
qed

lemma finish_ok:
  assumes inv: "pool_inv st xs" and w: "tp_workers st a = Some (Running j)"
  shows "\<exists>st'. worker_finish a j st = Some st' \<and> pool_inv st' xs \<and> pool_jobs st' = pool_jobs st \<and> tp_callers st' = tp_callers st"
proof -
  note b = worker_busy [OF inv w]
  obtain e where e: "tp_entries st a = Some e" "e_signal e = 0" using b(4) unfolding quiet_def by blast
  define st' where "st' = st\<lparr>tp_entries := (tp_entries st)(a \<mapsto> e\<lparr>e_job := None\<rparr>), tp_workers := (tp_workers st)(a \<mapsto> Worked), tp_done := tp_done st @ [j]\<rparr>"
  have r: "worker_finish a j st = Some st'"
    using e pool_invD(1) [OF inv] by (simp add: worker_finish_def on_entry_def st'_def heap_ok_def Let_def)
  have c: "pool_inv st' xs" "(\<Sum>b\<in>dom (tp_workers st'). worker_jobs st' b) + worker_jobs st a = (\<Sum>b\<in>dom (tp_workers st). worker_jobs st b) + worker_jobs st' a"
    using worker_changes [OF inv w e(1), of st' "e\<lparr>e_job := None\<rparr>" Worked] b(1,2) e(2) by (simp_all add: st'_def)
  moreover have "worker_jobs st a = {#j#}" "worker_jobs st' a = {#}" using w by (simp_all add: worker_jobs_def st'_def)
  ultimately have "pool_jobs st' = pool_jobs st" by (simp add: pool_jobs_def) (simp add: st'_def)
  then show ?thesis using r c(1) by (auto simp: st'_def)
qed

lemma park_ok:
  assumes inv: "pool_inv st xs" and w: "tp_workers st a = Some Worked"
  shows "\<exists>st' ys. worker_park a st = Some st' \<and> pool_inv st' ys \<and> pool_jobs st' = pool_jobs st \<and> tp_callers st' = tp_callers st"
proof -
  note i = pool_invD [OF inv]
  note b = worker_busy [OF inv w]
  obtain e where e: "tp_entries st a = Some e" "e_signal e = 0" using b(4) unfolding quiet_def by blast
  have l: "linked (tp_entries st) (tp_pool st) xs" using i(2) by (simp add: idle_ok_def)
  have a0: "a \<noteq> 0" using i(1) e(1) by (metis heap_ok_def option.distinct(1))
  have fin: "finite (dom (tp_workers st))" using i(1) by (auto simp: heap_ok_def)
  have wj: "worker_jobs st a = {#}" using w by (simp add: worker_jobs_def)
  show ?thesis
  proof (cases "int (length xs) \<ge> tp_maxIdle st")
    case True
    define st' where "st' = st\<lparr>tp_entries := (tp_entries st)(a := None), tp_workers := (tp_workers st)(a := None)\<rparr>"
    have r: "worker_park a st = Some st'" using True e(1) count_linked [OF l] by (simp add: worker_park_def worker_exit_def st'_def)
    have f: "tp_entries st' = (tp_entries st)(a := None)" "tp_workers st' = (tp_workers st)(a := None)" "tp_callers st' = tp_callers st" "tp_pool st' = tp_pool st"
      "tp_maxIdle st' = tp_maxIdle st" "tp_shutdown st' = tp_shutdown st" "tp_done st' = tp_done st" by (simp_all add: st'_def)
    have h: "held_entries st' = held_entries st" by (simp add: held_entries_def f)
    have q: "b \<noteq> a \<Longrightarrow> quiet st' b = quiet st b" "b \<noteq> a \<Longrightarrow> called st' b = called st b" for b by (auto simp: quiet_def called_def f(1))
    have "pool_inv st' xs"
    proof (rule pool_invI)
      show "heap_ok st'" using i(1) by (auto simp: heap_ok_def f)
      have "quiet st' b = quiet st b" if "b \<in> set xs" for b using q(1) [of b] b(1) that by blast
      then show "idle_ok st' xs" using i(2) linked_other [of "tp_entries st" _ xs a] b(1) unfolding idle_ok_def h by (auto simp: f)
      have "Filled a k \<notin> set (tp_callers st)" for k using b(2) unfolding held_entries_def by force
      then show "callers_ok st'" using i(3) q(1) b(2) unfolding callers_ok_def h f(3) by (auto simp: f)
      show "workers_ok st' xs" using i(4) q unfolding workers_ok_def h by (auto simp: f(2))
    qed
    moreover have "(\<Sum>b\<in>dom (tp_workers st'). worker_jobs st' b) = (\<Sum>b\<in>dom (tp_workers st) - {a}. worker_jobs st b)"
      by (intro sum.cong) (auto simp: f worker_jobs_def)
    then have "pool_jobs st' = pool_jobs st" using jobs_split [OF fin w] wj by (simp add: pool_jobs_def f)
    ultimately show ?thesis using r f(3) by blast
  next
    case False
    define st' where "st' = st\<lparr>tp_entries := (tp_entries st)(a \<mapsto> e\<lparr>e_next := tp_pool st\<rparr>), tp_pool := a, tp_workers := (tp_workers st)(a \<mapsto> Parked)\<rparr>"
    have r: "worker_park a st = Some st'" using False e(1) count_linked [OF l] by (simp add: worker_park_def on_entry_def st'_def)
    have f: "tp_entries st' = (tp_entries st)(a \<mapsto> e\<lparr>e_next := tp_pool st\<rparr>)" "tp_workers st' = (tp_workers st)(a \<mapsto> Parked)" "tp_callers st' = tp_callers st" "tp_pool st' = a"
      "tp_maxIdle st' = tp_maxIdle st" "tp_shutdown st' = tp_shutdown st" "tp_done st' = tp_done st" by (simp_all add: st'_def)
    have h: "held_entries st' = held_entries st" by (simp add: held_entries_def f)
    have q: "quiet st' a" "b \<noteq> a \<Longrightarrow> quiet st' b = quiet st b" "b \<noteq> a \<Longrightarrow> called st' b = called st b" for b using e(2) by (auto simp: quiet_def called_def f(1))
    have "pool_inv st' (a # xs)"
    proof (rule pool_invI)
      show "heap_ok st'" using heap_ok_update [OF i(1) e(1) f(1)] w f by auto
      have "quiet st' b = quiet st b" if "b \<in> set xs" for b using q(2) [of b] b(1) that by blast
      then show "idle_ok st' (a # xs)" using i(2) linked_other [OF l b(1)] a0 b(1,2) q(1) False unfolding idle_ok_def h by (auto simp: f)
      have "Filled a k \<notin> set (tp_callers st)" for k using b(2) unfolding held_entries_def by force
      then show "callers_ok st'" using i(3) q(2) b(2) unfolding callers_ok_def h f(3) by (auto simp: f)
      show "workers_ok st' (a # xs)" using i(4) q unfolding workers_ok_def h by (auto simp: f(2))
    qed
    moreover have "worker_jobs st' a = {#}" using e(2) by (simp add: worker_jobs_def f)
    then have "pool_jobs st' = pool_jobs st" using jobs_one_changed [OF fin w, of st' Parked] jobs_split [OF fin w] wj by (simp add: pool_jobs_def f)
    ultimately show ?thesis using r f(3) by blast
  qed
qed

lemma pool_exec_ok:
  assumes inv: "pool_inv st xs" and en: "pool_enabled a st" "a \<noteq> Close"
  shows "\<exists>st' ys. pool_exec a st = Some st' \<and> pool_inv st' ys \<and> pool_jobs st' = pool_jobs st + job_accepted a st st'"
proof (cases a)
  case (Run_begin j new ok)
  consider "tp_pool st \<noteq> 0" | "tp_pool st = 0" "fst new \<noteq> 0" ok | "tp_pool st = 0" "fst new = 0 \<or> \<not> ok" by (cases "tp_pool st = 0") auto
  then show ?thesis
  proof cases
    case 1
    then show ?thesis using begin_idle [OF inv 1, of j new ok] by (auto simp: Run_begin)
  next
    case 2
    then show ?thesis using begin_new [OF inv 2(1) _ 2(2,3), of j] en(1) by (auto simp: Run_begin)
  next
    case 3
    then show ?thesis using inv by (auto simp: Run_begin run_begin_def take_idle_def)
  qed
next
  case (Wake b)
  have "\<not> quiet st b"
    using en(1) pool_invD(1) [OF inv] by (auto simp: Wake quiet_def heap_ok_def)
  then show ?thesis using wake_ok [OF inv, of b] en(1) by (auto simp: Wake)
qed (use assms fill_ok signal_ok finish_ok park_ok in fastforce)+

lemma pool_start_inv: "pool_inv (pool_start m) []" "pool_jobs (pool_start m) = {#}" "tp_maxIdle (pool_start m) = max m (- 1)"
  by (auto simp: pool_inv_defs pool_start_def threadpool_init_def held_entries_def pool_jobs_def)

lemma exec_keeps_maxIdle: "pool_exec a st = Some st' \<Longrightarrow> a \<noteq> Close \<Longrightarrow> tp_maxIdle st' = tp_maxIdle st"
  by (cases a) (auto simp: run_begin_def take_idle_def run_fill_def run_signal_def on_entry_def worker_wake_def worker_exit_def worker_finish_def worker_park_def Let_def
    split: option.splits if_splits prod.splits)

lemma pool_reach_inv: "pool_reach m js st \<Longrightarrow> (\<exists>xs. pool_inv st xs) \<and> pool_jobs st = js \<and> tp_maxIdle st = max m (- 1)"
proof (induction rule: pool_reach.induct)
  case (pool_init m)
  then show ?case using pool_start_inv by blast
next
  case (pool_next m js st a st')
  then show ?case using pool_exec_ok [of st _ a] exec_keeps_maxIdle by fastforce
qed

section \<open>Properties\<close>

text \<open>C30. No job is lost and none runs twice: before the pool is closed, in every order of the steps of callers and workers, the accepted jobs are exactly those that a caller is
  handing over, that wait for a worker with a called signal, that run, and that are done.\<close>

theorem pool_jobs_conserved:
  assumes "pool_reach maxIdle js st"
  shows "js = mset (map caller_job (tp_callers st)) + (\<Sum>a\<in>dom (tp_workers st). worker_jobs st a) + mset (tp_done st)"
  using pool_reach_inv [OF assms] by (simp add: pool_jobs_def)

text \<open>Every step before the pool is closed accesses only entries that are allocated, and there are never more idle threads than allowed.\<close>

theorem pool_memory_safe:
  assumes "pool_reach maxIdle js st" "pool_enabled a st" "a \<noteq> Close"
  shows "pool_exec a st \<noteq> None \<and> (\<exists>n. count_idle (tp_entries st) (tp_pool st) = Some n \<and> int n \<le> max 0 maxIdle)"
proof -
  obtain xs where x: "pool_inv st xs" "tp_maxIdle st = max maxIdle (- 1)" using pool_reach_inv [OF assms(1)] by blast
  have "count_idle (tp_entries st) (tp_pool st) = Some (length xs)" "int (length xs) \<le> max 0 maxIdle"
    using pool_invD(2) [OF x(1)] count_linked x(2) by (auto simp: idle_ok_def)
  then show ?thesis using pool_exec_ok [OF x(1) assms(2,3)] by auto
qed

text \<open>C31. Nothing is left undone: when no caller and no worker can do a step any more, all jobs that were accepted are done.\<close>

theorem pool_all_jobs_run:
  assumes "pool_reach maxIdle js st"
    and "\<forall>a j. \<not> pool_enabled (Run_fill a j) st \<and> \<not> pool_enabled (Run_signal a j) st \<and> \<not> pool_enabled (Wake a) st \<and> \<not> pool_enabled (Finish a j) st"
  shows "mset (tp_done st) = js"
proof -
  obtain xs where inv: "pool_inv st xs" using pool_reach_inv [OF assms(1)] by blast
  have "caller = Popped a j \<or> caller = Filled a j \<Longrightarrow> caller \<notin> set (tp_callers st)" for caller a j using assms(2) by auto
  then have c: "tp_callers st = []" by (cases "tp_callers st"; cases "hd (tp_callers st)") auto
  have "worker_jobs st a = {#}" for a
  proof (cases "tp_workers st a")
    case (Some w)
    show ?thesis
    proof (cases w)
      case Parked
      then have "\<not> (case tp_entries st a of None \<Rightarrow> True | Some e \<Rightarrow> e_signal e > 0)" using assms(2) Some by auto
      then show ?thesis using Some Parked by (auto simp: worker_jobs_def split: option.splits)
    next
      case (Running j)
      then show ?thesis using assms(2) Some by auto
    qed (simp add: worker_jobs_def Some)
  qed (simp add: worker_jobs_def)
  then show ?thesis using pool_reach_inv [OF assms(1)] c by (simp add: pool_jobs_def)
qed

text \<open>Closing the pool leaves it pointing to the idle entries, which their threads free: a call of \<open>threadpool_run\<close> after that takes an entry that does not exist any more.\<close>

definition garbage :: pool_entry where
  "garbage = \<lparr>e_next = 5, e_signal = 3, e_job = Some 4\<rparr>"

text \<open>One job from its acceptance until the worker is idle.\<close>

definition one_job :: "pool_action list" where
  "one_job = [Run_begin 7 (100, garbage) True, Run_fill 100 7, Run_signal 100 7, Wake 100, Finish 100 7, Park 100]"

lemmas pool_eval = run_begin_def take_idle_def run_fill_def run_signal_def on_entry_def worker_wake_def worker_exit_def worker_finish_def worker_park_def Let_def
  signal_call_def signal_clear_def pool_start_def threadpool_init_def threadpool_close_def count_idle.simps garbage_def

lemma one_job_run: "pool_run one_job (pool_start 8) =
    Some \<lparr>tp_entries = [100 \<mapsto> \<lparr>e_next = 0, e_signal = 0, e_job = None\<rparr>], tp_pool = 100, tp_maxIdle = 8, tp_shutdown = False, tp_workers = [100 \<mapsto> Parked], tp_callers = [], tp_done = [7]\<rparr>"
  by (simp add: one_job_def pool_eval)

theorem closed_pool_use_after_free:
  "\<exists>st. pool_run (one_job @ [Close, Wake 100]) (pool_start 8) = Some st \<and> pool_enabled (Run_begin 8 (200, garbage) True) st \<and> pool_exec (Run_begin 8 (200, garbage) True) st = None"
proof -
  have a: "pool_run (as @ bs) st = Option.bind (pool_run as st) (pool_run bs)" for as bs st
    by (induction as arbitrary: st) (auto simp: Option.bind_assoc split: bind_split)
  show ?thesis by (simp add: a one_job_run) (simp add: pool_eval signal_all.simps)
qed

lemma pool_run_reach: "pool_run as st = Some st' \<Longrightarrow> Close \<notin> set as \<Longrightarrow> pool_reach m js st \<Longrightarrow> \<exists>js'. pool_reach m js' st'"
proof (induction as arbitrary: st js)
  case (Cons a as)
  then obtain st1 where "pool_enabled a st" "pool_exec a st = Some st1" "pool_run as st1 = Some st'" by (auto split: if_splits bind_splits)
  then show ?case using Cons.IH [of st1] pool_next [OF Cons.prems(3)] Cons.prems(2) by auto
qed auto

lemma one_job_reach: "\<exists>js. pool_reach 8 js (the (pool_run one_job (pool_start 8)))"
  using pool_run_reach [OF one_job_run _ pool_init] by (simp add: one_job_run) (simp add: one_job_def)

theorem pool_jobs_conserved_witness:
  "\<exists>js st. pool_run [Run_begin 7 (100, garbage) True, Run_fill 100 7, Run_signal 100 7] (pool_start 8) = Some st \<and> pool_reach 8 js st
    \<and> js = mset (map caller_job (tp_callers st)) + (\<Sum>a\<in>dom (tp_workers st). worker_jobs st a) + mset (tp_done st) \<and> js = {#7#}"
proof -
  define st where "st = \<lparr>tp_entries = [100 \<mapsto> \<lparr>e_next = 0, e_signal = 1, e_job = Some 7\<rparr>], tp_pool = 0, tp_maxIdle = 8, tp_shutdown = False, tp_workers = [100 \<mapsto> Parked], tp_callers = [], tp_done = []\<rparr>"
  have r: "pool_run [Run_begin 7 (100, garbage) True, Run_fill 100 7, Run_signal 100 7] (pool_start 8) = Some st"
    by (simp add: pool_eval st_def)
  then obtain js where js: "pool_reach 8 js st" using pool_run_reach [OF r _ pool_init] by auto
  show ?thesis using r js pool_jobs_conserved [OF js] by (intro exI [of _ js] exI [of _ st]) (simp add: st_def worker_jobs_def)
qed

theorem pool_memory_safe_witness:
  "\<exists>st. pool_run one_job (pool_start 8) = Some st \<and> pool_exec (Run_begin 8 (200, garbage) True) st \<noteq> None \<and> count_idle (tp_entries st) (tp_pool st) = Some 1"
proof -
  obtain js where js: "pool_reach 8 js (the (pool_run one_job (pool_start 8)))" using one_job_reach by blast
  show ?thesis using pool_memory_safe [OF js, of "Run_begin 8 (200, garbage) True"] by (simp add: one_job_run) (simp add: count_idle.simps)
qed

theorem pool_all_jobs_run_witness:
  "\<exists>js st. pool_run one_job (pool_start 8) = Some st \<and> pool_reach 8 js st \<and> mset (tp_done st) = js \<and> tp_done st = [7]"
proof -
  obtain js where js: "pool_reach 8 js (the (pool_run one_job (pool_start 8)))" using one_job_reach by blast
  have "mset (tp_done (the (pool_run one_job (pool_start 8)))) = js"
    by (rule pool_all_jobs_run [OF js]) (simp add: one_job_run)
  then show ?thesis using js by (auto simp: one_job_run)
qed

end
