(* ===== verification/Poll_List.thy ===== *)
theory Poll_List
  imports Text_Util "HOL-Library.Multiset"
begin

text \<open>
  Lists of sockets and the connection setup, from \<open>src/shared/sockhelper.c\<close>. An operation also returns the sockets that it closed. What the kernel and the
  resolver answer is an argument. \<open>None\<close> is an access outside of an array.
\<close>

section \<open>Connecting\<close>

datatype connect_event = Conn_ok | Conn_EINPROGRESS | Conn_EISCONN | Conn_EINTR | Conn_error

text \<open>The loop around \<open>connect\<close> on Linux, with five attempts at most: whether the socket is kept.\<close>

fun connect_loop :: "nat \<Rightarrow> connect_event list \<Rightarrow> bool" where
  "connect_loop 0 evs = True"
| "connect_loop (Suc n) [] = False"
| "connect_loop (Suc n) (ev # evs) =
    (case ev of
       Conn_ok \<Rightarrow> True | Conn_EINPROGRESS \<Rightarrow> True | Conn_EISCONN \<Rightarrow> True
     | Conn_EINTR \<Rightarrow> connect_loop n evs
     | Conn_error \<Rightarrow> False)"

text \<open>\<open>fd\<close> is the result of \<open>socket\<close>. The result is the socket or -1, and the sockets that were closed.\<close>

definition sock_connect :: "dnbd3_host \<Rightarrow> int \<Rightarrow> connect_event list \<Rightarrow> int \<times> int list" where
  "sock_connect host fd evs =
    (if host_type host \<noteq> HOST_IP4 \<and> host_type host \<noteq> HOST_IP6 then (- 1, [])
     else if fd = - 1 then (- 1, [])
     else if connect_loop 5 evs then (fd, []) else (- 1, [fd]))"

section \<open>Poll lists\<close>

definition MAXLISTEN :: nat where "MAXLISTEN = 20"

definition POLLIN :: u16 where "POLLIN = 1"
definition POLLOUT :: u16 where "POLLOUT = 4"
definition POLLERR :: u16 where "POLLERR = 8"
definition POLLHUP :: u16 where "POLLHUP = 0x10"
definition POLLNVAL :: u16 where "POLLNVAL = 0x20"
definition POLLRDHUP :: u16 where "POLLRDHUP = 0x2000"

record pollfd =
  pf_fd :: int
  pf_events :: u16
  pf_revents :: u16

record poll_list =
  pl_count :: nat
  pl_entry :: "pollfd list"

text \<open>\<open>mem\<close> is what the memory from \<open>malloc\<close> contains.\<close>

definition sock_newPollList :: "pollfd list \<Rightarrow> poll_list" where
  "sock_newPollList mem = \<lparr>pl_count = 0, pl_entry = mem\<rparr>"

definition sock_destroyPollList :: "poll_list \<Rightarrow> int list option" where
  "sock_destroyPollList l =
    (if pl_count l > length (pl_entry l) then None else Some (filter (\<lambda>fd. fd \<ge> 0) (map pf_fd (take (pl_count l) (pl_entry l)))))"

text \<open>Writing an entry at the end of the list.\<close>

definition put_entry :: "int \<Rightarrow> u16 \<Rightarrow> poll_list \<Rightarrow> poll_list option" where
  "put_entry fd events l =
    (if pl_count l < length (pl_entry l)
     then Some (l\<lparr>pl_entry := (pl_entry l)[pl_count l := (pl_entry l ! pl_count l)\<lparr>pf_fd := fd, pf_events := events\<rparr>], pl_count := pl_count l + 1\<rparr>)
     else None)"

text \<open>Taking out entry \<open>i\<close>: the last entry moves to its place.\<close>

definition drop_entry_at :: "nat \<Rightarrow> poll_list \<Rightarrow> poll_list" where
  "drop_entry_at i l =
    (let l = l\<lparr>pl_count := pl_count l - 1\<rparr> in
     if i \<noteq> pl_count l then l\<lparr>pl_entry := (pl_entry l)[i := pl_entry l ! pl_count l]\<rparr> else l)"

section \<open>Listening\<close>

datatype listen_event = Socket_failed | Bind_failed int | Listen_failed int | Listening int

fun listen_loop :: "listen_event list \<Rightarrow> poll_list \<Rightarrow> nat \<Rightarrow> (nat \<times> poll_list \<times> int list) option" where
  "listen_loop [] l openCount = Some (openCount, l, [])"
| "listen_loop (Socket_failed # evs) l openCount = listen_loop evs l openCount"
| "listen_loop (Bind_failed fd # evs) l openCount = map_option (\<lambda>(n, l, cl). (n, l, fd # cl)) (listen_loop evs l openCount)"
| "listen_loop (Listen_failed fd # evs) l openCount = map_option (\<lambda>(n, l, cl). (n, l, fd # cl)) (listen_loop evs l openCount)"
| "listen_loop (Listening fd # evs) l openCount =
    (case put_entry fd (POLLIN OR POLLRDHUP) l of
       None \<Rightarrow> None
     | Some l \<Rightarrow> if pl_count l \<ge> MAXLISTEN then Some (openCount + 1, l, []) else listen_loop evs l (openCount + 1))"

text \<open>\<open>evs\<close> has what happens for each address that \<open>getaddrinfo\<close> returns, \<open>None\<close> when it fails.\<close>

definition sock_listen :: "listen_event list option \<Rightarrow> poll_list \<Rightarrow> (bool \<times> poll_list \<times> int list) option" where
  "sock_listen evs l =
    (if pl_count l \<ge> MAXLISTEN then Some (False, l, [])
     else case evs of
       None \<Rightarrow> Some (False, l, [])
     | Some evs \<Rightarrow> if evs = [] then Some (False, l, []) else map_option (\<lambda>(n, l, cl). (n > 0, l, cl)) (listen_loop evs l 0))"

section \<open>Connecting to several hosts\<close>

datatype poll_event = Poll_ready "u16 list" | Poll_timeout | Poll_again | Poll_error

definition set_revents :: "u16 list \<Rightarrow> poll_list \<Rightarrow> poll_list" where
  "set_revents rs l = l\<lparr>pl_entry := map (\<lambda>i. if i < pl_count l \<and> i < length rs then (pl_entry l ! i)\<lparr>pf_revents := rs ! i\<rparr> else pl_entry l ! i) [0..<length (pl_entry l)]\<rparr>"

text \<open>The loop around \<open>poll\<close>: the list with the results, or the end of the call.\<close>

fun poll_loop :: "nat \<Rightarrow> poll_event list \<Rightarrow> poll_list \<Rightarrow> poll_list option" where
  "poll_loop tries [] l = None"
| "poll_loop tries (Poll_ready rs # evs) l = Some (set_revents rs l)"
| "poll_loop tries (Poll_timeout # evs) l = None"
| "poll_loop tries (Poll_again # evs) l = (if tries - 1 = 0 then None else poll_loop (tries - 1) evs l)"
| "poll_loop tries (Poll_error # evs) l = None"

text \<open>The loop over the entries, last one first; \<open>connected\<close> says for which sockets \<open>getpeername\<close> succeeds.\<close>

fun ready_loop :: "(int \<Rightarrow> bool) \<Rightarrow> nat \<Rightarrow> poll_list \<Rightarrow> int \<times> poll_list \<times> int list" where
  "ready_loop connected 0 l = (- 1, l, [])"
| "ready_loop connected (Suc i) l =
    (let e = pl_entry l ! i in
     if pf_revents e AND (POLLIN OR POLLOUT) \<noteq> 0
     then (if connected (pf_fd e) \<and> pf_fd e \<noteq> - 1 then (pf_fd e, drop_entry_at i l, [])
           else case ready_loop connected i (drop_entry_at i l) of (fd, l, cl) \<Rightarrow> (fd, l, (if connected (pf_fd e) then [] else [pf_fd e]) @ cl))
     else if pf_revents e \<noteq> 0 then (case ready_loop connected i (drop_entry_at i l) of (fd, l, cl) \<Rightarrow> (fd, l, pf_fd e # cl))
     else ready_loop connected i l)"

text \<open>\<open>new\<close> is the result of \<open>sock_connect\<close>, which is called when there is room; it is \<open>None\<close> when no host is given.\<close>

definition sock_multiConnect :: "poll_list \<Rightarrow> int option \<Rightarrow> poll_event list \<Rightarrow> (int \<Rightarrow> bool) \<Rightarrow> (int \<times> poll_list \<times> int list) option" where
  "sock_multiConnect l new evs connected =
    (case (case new of
             Some sock \<Rightarrow> if pl_count l < MAXLISTEN \<and> sock \<noteq> - 1 then put_entry sock (POLLIN OR POLLOUT OR POLLRDHUP) l else Some l
           | None \<Rightarrow> Some l) of
       None \<Rightarrow> None
     | Some l \<Rightarrow>
        if pl_count l = 0 then Some (- 2, l, [])
        else if pl_count l > length (pl_entry l) then None
        else case poll_loop 5 evs l of
          None \<Rightarrow> Some (- 1, l, [])
        | Some l \<Rightarrow> Some (ready_loop connected (pl_count l) l))"

section \<open>Accepting\<close>

text \<open>The result is the socket to accept from, or \<open>None\<close> when -1 is returned.\<close>

fun accept_loop :: "nat \<Rightarrow> poll_list \<Rightarrow> int option \<times> poll_list \<times> int list" where
  "accept_loop 0 l = (None, l, [])"
| "accept_loop (Suc i) l =
    (let e = pl_entry l ! i in
     if pf_revents e = 0 then accept_loop i l
     else if pf_revents e = POLLIN then (Some (pf_fd e), l, [])
     else if pf_revents e AND (POLLNVAL OR POLLHUP OR POLLERR OR POLLRDHUP) \<noteq> 0
     then (case accept_loop i (drop_entry_at i l) of (r, l, cl) \<Rightarrow> (r, l, pf_fd e # cl))
     else accept_loop i l)"

definition sock_accept :: "poll_list \<Rightarrow> poll_event \<Rightarrow> (int option \<times> poll_list \<times> int list) option" where
  "sock_accept l ev =
    (if pl_count l > length (pl_entry l) then None
     else case ev of Poll_ready rs \<Rightarrow> Some (accept_loop (pl_count l) (set_revents rs l)) | Poll_timeout \<Rightarrow> Some (accept_loop (pl_count l) l) | _ \<Rightarrow> Some (None, l, []))"

text \<open>\<open>sock_append\<close> as it is written: the counter grows with every statement.\<close>

definition sock_append :: "poll_list \<Rightarrow> int \<Rightarrow> bool \<Rightarrow> bool \<Rightarrow> (bool \<times> poll_list) option" where
  "sock_append l sock wantRead wantWrite =
    (if sock = - 1 \<or> pl_count l \<ge> MAXLISTEN then Some (False, l)
     else let c = pl_count l; events = (if wantRead then POLLIN else 0) OR (if wantWrite then POLLOUT else 0) OR POLLRDHUP in
       if c + 1 \<ge> length (pl_entry l) then None
       else let es = (pl_entry l)[c := (pl_entry l ! c)\<lparr>pf_fd := sock\<rparr>];
                es = es[c + 1 := (es ! (c + 1))\<lparr>pf_events := events\<rparr>]
            in Some (True, l\<lparr>pl_entry := es, pl_count := c + 3\<rparr>))"

section \<open>Resolving names\<close>

text \<open>The address and the port of a text; a buffer of 100 bytes takes the first 99 characters.\<close>

definition split_port :: "string \<Rightarrow> string \<times> string option" where
  "split_port address =
    (let a = take 99 address; before = takeWhile (\<lambda>c. c \<noteq> CHR '':'') a in
     case dropWhile (\<lambda>c. c \<noteq> CHR '':'') a of
       [] \<Rightarrow> (a, None)
     | _ # r \<Rightarrow>
        if CHR '':'' \<notin> set r then (before, Some r)
        else if hd a \<noteq> CHR ''['' then (a, None)
        else let p = rev (takeWhile (\<lambda>c. c \<noteq> CHR '':'') (rev a)); h = take (length a - length p - 1) a in
          if last h = CHR '']'' then (tl (butlast h), Some p) else (a, None))"

text \<open>The addresses that the resolver returns: family, port and bytes. Those of other families are skipped.\<close>

definition sock_sockaddrToDnbd3 :: "u8 \<times> u16 \<times> u8 list \<Rightarrow> dnbd3_host \<Rightarrow> dnbd3_host option" where
  "sock_sockaddrToDnbd3 sa host = (case sa of (family, p, a) \<Rightarrow>
     if family = HOST_IP4 then Some \<lparr>addr = take 4 a @ drop 4 (addr host), port = p, host_type = HOST_IP4\<rparr>
     else if family = HOST_IP6 then Some \<lparr>addr = take 16 a @ drop 16 (addr host), port = p, host_type = HOST_IP6\<rparr>
     else None)"

fun resolve_loop :: "nat \<Rightarrow> (u8 \<times> u16 \<times> u8 list) list \<Rightarrow> dnbd3_host list \<Rightarrow> nat \<Rightarrow> (nat \<times> dnbd3_host list) option" where
  "resolve_loop cnt [] dest n = Some (n, dest)"
| "resolve_loop cnt (sa # sas) dest n =
    (if cnt = 0 then Some (n, dest)
     else if fst sa \<noteq> HOST_IP4 \<and> fst sa \<noteq> HOST_IP6 then resolve_loop cnt sas dest n
     else if n \<ge> length dest then None
     else (case sock_sockaddrToDnbd3 sa (dest ! n) of
             None \<Rightarrow> resolve_loop cnt sas dest n
           | Some h \<Rightarrow> resolve_loop cnt sas (dest[n := h]) (n + 1)))"

definition sock_resolveToDnbd3Host :: "(string \<Rightarrow> string \<Rightarrow> (u8 \<times> u16 \<times> u8 list) list option) \<Rightarrow> string \<Rightarrow> dnbd3_host list \<Rightarrow> nat \<Rightarrow> (nat \<times> dnbd3_host list) option" where
  "sock_resolveToDnbd3Host getaddrinfo address dest cnt =
    (if cnt = 0 then Some (0, dest)
     else case split_port address of (a, p) \<Rightarrow>
       (case getaddrinfo a (case p of None \<Rightarrow> dec (unat PORT) | Some p \<Rightarrow> p) of
          None \<Rightarrow> Some (0, dest)
        | Some sas \<Rightarrow> resolve_loop cnt sas dest 0))"

section \<open>Sockets are neither lost nor closed twice\<close>

definition poll_wf :: "poll_list \<Rightarrow> bool" where
  "poll_wf l \<longleftrightarrow> length (pl_entry l) = MAXLISTEN \<and> pl_count l \<le> MAXLISTEN \<and> (\<forall>e\<in>set (take (pl_count l) (pl_entry l)). pf_fd e \<ge> 0)"

definition poll_fds :: "poll_list \<Rightarrow> int list" where
  "poll_fds l = map pf_fd (take (pl_count l) (pl_entry l))"

lemma drop_entry_at_ok:
  assumes "poll_wf l" "i < pl_count l"
  shows "poll_wf (drop_entry_at i l)" "mset (poll_fds l) = add_mset (pf_fd (pl_entry l ! i)) (mset (poll_fds (drop_entry_at i l)))"
    "pl_count (drop_entry_at i l) = pl_count l - 1"
proof -
  define c xs where "c = pl_count l - 1" and "xs = pl_entry l"
  have c: "pl_count l = Suc c" "i \<le> c" "c < length xs" using assms by (auto simp: c_def xs_def poll_wf_def)
  have t: "take (Suc c) xs = take c xs @ [xs ! c]" using c(3) by (simp add: take_Suc_conv_app_nth)
  have d: "take (pl_count (drop_entry_at i l)) (pl_entry (drop_entry_at i l)) = (if i = c then take c xs else (take c xs)[i := xs ! c])"
    using c by (simp add: drop_entry_at_def Let_def xs_def take_update_swap)
  have m: "mset (take (Suc c) xs) = add_mset (xs ! i) (mset (take (pl_count (drop_entry_at i l)) (pl_entry (drop_entry_at i l))))"
  proof (cases "i = c")
    case False
    then have i: "i < length (take c xs)" "take c xs ! i = xs ! i" using c by simp_all
    have "mset ((take c xs)[i := xs ! c]) = add_mset (xs ! c) (mset (take c xs) - {#xs ! i#})" using mset_update [OF i(1), of "xs ! c"] i(2) by simp
    moreover have "xs ! i \<in># mset (take c xs)" using i by (metis nth_mem set_mset_mset)
    ultimately show ?thesis using False by (simp add: d t)
  next
    case True
    then show ?thesis unfolding d t by simp
  qed
  then show "mset (poll_fds l) = add_mset (pf_fd (pl_entry l ! i)) (mset (poll_fds (drop_entry_at i l)))"
    unfolding poll_fds_def by (simp add: c(1) xs_def)
  have "set (take (pl_count (drop_entry_at i l)) (pl_entry (drop_entry_at i l))) \<subseteq> set (take (Suc c) xs)"
    using m by (metis set_mset_add_mset_insert set_mset_mset subset_insertI)
  moreover show n: "pl_count (drop_entry_at i l) = pl_count l - 1" by (simp add: drop_entry_at_def Let_def)
  moreover have "length (pl_entry (drop_entry_at i l)) = length xs" by (simp add: drop_entry_at_def Let_def xs_def)
  ultimately show "poll_wf (drop_entry_at i l)" using assms(1) c(1) by (auto simp: poll_wf_def xs_def)
qed

lemma put_entry_ok:
  assumes "poll_wf l" "pl_count l < MAXLISTEN" "fd \<ge> 0"
  shows "\<exists>l'. put_entry fd events l = Some l' \<and> poll_wf l' \<and> poll_fds l' = poll_fds l @ [fd] \<and> pl_count l' = pl_count l + 1"
  using assms by (auto simp: put_entry_def poll_wf_def poll_fds_def take_Suc_conv_app_nth)

lemma set_revents_ok: "pl_count (set_revents rs l) = pl_count l" "poll_fds (set_revents rs l) = poll_fds l" "poll_wf l \<Longrightarrow> poll_wf (set_revents rs l)"
proof -
  have f: "map pf_fd (pl_entry (set_revents rs l)) = map pf_fd (pl_entry l)" by (rule nth_equalityI) (auto simp: set_revents_def)
  show c: "pl_count (set_revents rs l) = pl_count l" by (simp add: set_revents_def)
  have t: "map pf_fd (take (pl_count l) (pl_entry (set_revents rs l))) = map pf_fd (take (pl_count l) (pl_entry l))" using f by (metis take_map)
  then show "poll_fds (set_revents rs l) = poll_fds l" unfolding poll_fds_def c .
  have "length (pl_entry (set_revents rs l)) = length (pl_entry l)" by (simp add: set_revents_def)
  moreover have "(\<forall>x\<in>set (take (pl_count l) (pl_entry (set_revents rs l))). pf_fd x \<ge> 0) \<longleftrightarrow> (\<forall>x\<in>set (take (pl_count l) (pl_entry l)). pf_fd x \<ge> 0)"
    using arg_cong [OF t, of "list_all (\<lambda>x. x \<ge> 0)"] by (simp add: list_all_iff)
  ultimately show "poll_wf l \<Longrightarrow> poll_wf (set_revents rs l)" unfolding poll_wf_def c by simp
qed

text \<open>The socket that a call returns.\<close>

definition returned :: "int \<Rightarrow> int multiset" where
  "returned fd = (if fd \<ge> 0 then {#fd#} else {#})"

lemma entry_valid: "poll_wf l \<Longrightarrow> i < pl_count l \<Longrightarrow> pf_fd (pl_entry l ! i) \<ge> 0"
  unfolding poll_wf_def by (metis length_take min.absorb2 nth_mem nth_take)

lemma ready_loop_ok:
  "poll_wf l \<Longrightarrow> i \<le> pl_count l \<Longrightarrow> ready_loop connected i l = (fd, l', cl) \<Longrightarrow> poll_wf l' \<and> mset (poll_fds l) = mset (poll_fds l') + mset cl + returned fd"
proof (induction i arbitrary: l l' fd cl)
  case 0
  then show ?case by (simp add: returned_def)
next
  case (Suc i)
  let ?e = "pl_entry l ! i" and ?d = "drop_entry_at i l"
  have i: "i < pl_count l" using Suc.prems(2) by simp
  note d = drop_entry_at_ok [OF Suc.prems(1) i]
  have v: "pf_fd ?e \<ge> 0" using entry_valid [OF Suc.prems(1) i] .
  obtain fd1 l1 cl1 where r: "ready_loop connected i ?d = (fd1, l1, cl1)" by (metis prod_cases3)
  have ih: "poll_wf l1 \<and> mset (poll_fds ?d) = mset (poll_fds l1) + mset cl1 + returned fd1" using Suc.IH [OF d(1) _ r] d(3) i by simp
  consider (ret) "pf_revents ?e AND (POLLIN OR POLLOUT) \<noteq> 0" "connected (pf_fd ?e)" | (gone) "pf_revents ?e AND (POLLIN OR POLLOUT) \<noteq> 0" "\<not> connected (pf_fd ?e)"
    | (err) "pf_revents ?e AND (POLLIN OR POLLOUT) = 0" "pf_revents ?e \<noteq> 0" | (idle) "pf_revents ?e = 0" by fastforce
  then show ?case
  proof cases
    case ret
    then show ?thesis using Suc.prems(3) d v by (simp add: Let_def returned_def)
  next
    case gone
    then show ?thesis using Suc.prems(3) d(2) r ih by (auto simp: Let_def)
  next
    case err
    then show ?thesis using Suc.prems(3) d(2) r ih by (auto simp: Let_def)
  next
    case idle
    then show ?thesis using Suc.prems Suc.IH [of l fd l' cl] by (simp add: Let_def)
  qed
qed

lemma accept_loop_ok:
  "poll_wf l \<Longrightarrow> i \<le> pl_count l \<Longrightarrow> accept_loop i l = (r, l', cl) \<Longrightarrow> poll_wf l' \<and> mset (poll_fds l) = mset (poll_fds l') + mset cl"
proof (induction i arbitrary: l l' r cl)
  case (Suc i)
  have i: "i < pl_count l" using Suc.prems(2) by simp
  note d = drop_entry_at_ok [OF Suc.prems(1) i]
  obtain r1 l1 cl1 where r: "accept_loop i (drop_entry_at i l) = (r1, l1, cl1)" by (metis prod_cases3)
  have ih: "poll_wf l1 \<and> mset (poll_fds (drop_entry_at i l)) = mset (poll_fds l1) + mset cl1" using Suc.IH [OF d(1) _ r] d(3) i by simp
  show ?case using Suc.prems Suc.IH [of l r l' cl] r ih d(2) by (auto simp: Let_def split: if_splits)
qed simp

lemma poll_loop_set: "poll_loop n evs l = Some l' \<Longrightarrow> \<exists>rs. l' = set_revents rs l"
  by (induction n evs l rule: poll_loop.induct) (auto split: if_splits)

text \<open>The socket that a call puts into the list.\<close>

definition new_socket :: "poll_list \<Rightarrow> int option \<Rightarrow> int list" where
  "new_socket l new = (case new of Some sock \<Rightarrow> if pl_count l < MAXLISTEN \<and> sock \<noteq> - 1 then [sock] else [] | None \<Rightarrow> [])"

lemma multiConnect_ok:
  assumes "poll_wf l" "\<forall>fd\<in>set_option new. fd \<ge> - 1"
  shows "\<exists>fd l' cl. sock_multiConnect l new evs connected = Some (fd, l', cl) \<and> poll_wf l' \<and> mset (poll_fds l) + mset (new_socket l new) = mset (poll_fds l') + mset cl + returned fd"
proof -
  obtain l1 where l1: "(case new of Some sock \<Rightarrow> if pl_count l < MAXLISTEN \<and> sock \<noteq> - 1 then put_entry sock (POLLIN OR POLLOUT OR POLLRDHUP) l else Some l | None \<Rightarrow> Some l) = Some l1"
      "poll_wf l1" "poll_fds l1 = poll_fds l @ new_socket l new"
  proof (cases "new_socket l new = []")
    case True
    then show ?thesis using that [of l] assms(1) by (auto simp: new_socket_def split: option.splits if_splits)
  next
    case False
    then obtain sock where k: "new = Some sock" "pl_count l < MAXLISTEN" "sock \<noteq> - 1" by (auto simp: new_socket_def split: option.splits if_splits)
    then have "sock \<ge> 0" using assms(2) by auto
    then show ?thesis using that k put_entry_ok [OF assms(1) k(2), of sock "POLLIN OR POLLOUT OR POLLRDHUP"] by (auto simp: new_socket_def)
  qed
  have le: "\<not> pl_count l1 > length (pl_entry l1)" using l1(2) by (simp add: poll_wf_def)
  show ?thesis
  proof (cases "pl_count l1 = 0 \<or> poll_loop 5 evs l1 = None")
    case True
    then show ?thesis using l1 le
      by (intro exI [of _ "if pl_count l1 = 0 then - 2 else - 1"] exI [of _ l1] exI [of _ "[]"]) (auto simp: sock_multiConnect_def returned_def)
  next
    case False
    then obtain l2 where l2: "poll_loop 5 evs l1 = Some l2" by blast
    obtain rs where rs: "l2 = set_revents rs l1" using poll_loop_set [OF l2] by blast
    obtain fd l' cl where r: "ready_loop connected (pl_count l2) l2 = (fd, l', cl)" by (metis prod_cases3)
    have "poll_wf l2" "poll_fds l2 = poll_fds l1" using set_revents_ok [where rs = rs and l = l1] l1(2) unfolding rs by auto
    then have "poll_wf l' \<and> mset (poll_fds l1) = mset (poll_fds l') + mset cl + returned fd" using ready_loop_ok [OF _ _ r] by auto
    then show ?thesis using False l1 l2 le r by (auto simp: sock_multiConnect_def)
  qed
qed

lemma listen_loop_ok:
  "poll_wf l \<Longrightarrow> pl_count l < MAXLISTEN \<Longrightarrow> \<forall>fd. Listening fd \<in> set evs \<longrightarrow> fd \<ge> 0 \<Longrightarrow>
   \<exists>n' l' cl opened. listen_loop evs l n = Some (n', l', cl) \<and> poll_wf l' \<and> poll_fds l' = poll_fds l @ opened \<and> n' = n + length opened \<and> set opened \<subseteq> {fd. Listening fd \<in> set evs}
     \<and> set cl \<subseteq> {fd. Bind_failed fd \<in> set evs \<or> Listen_failed fd \<in> set evs}"
proof (induction evs l n rule: listen_loop.induct)
  case (5 fd evs l n)
  obtain l1 where l1: "put_entry fd (POLLIN OR POLLRDHUP) l = Some l1" "poll_wf l1" "poll_fds l1 = poll_fds l @ [fd]" "pl_count l1 = pl_count l + 1"
    using put_entry_ok [OF "5.prems"(1,2), of fd] "5.prems"(3) by auto
  show ?case
  proof (cases "pl_count l1 \<ge> MAXLISTEN")
    case True
    then show ?thesis using l1 by (intro exI [of _ "n + 1"] exI [of _ l1] exI [of _ "[]"] exI [of _ "[fd]"]) simp
  next
    case False
    then obtain n' l' cl opened where "listen_loop evs l1 (n + 1) = Some (n', l', cl)" "poll_wf l'" "poll_fds l' = poll_fds l1 @ opened" "n' = n + 1 + length opened"
        "set opened \<subseteq> {fd. Listening fd \<in> set evs}" "set cl \<subseteq> {fd. Bind_failed fd \<in> set evs \<or> Listen_failed fd \<in> set evs}"
      using "5.IH" [OF l1(1) False l1(2)] "5.prems"(3) by auto
    then show ?thesis using l1 False by (intro exI [of _ n'] exI [of _ l'] exI [of _ cl] exI [of _ "fd # opened"]) auto
  qed
qed auto

section \<open>Properties\<close>

text \<open>C32. Connecting to several hosts loses no socket: in every sequence of calls, whatever the kernel reports, each socket that was made for one of the hosts is afterwards in the
  list, was closed once, or was returned to the caller once, and after the list was destroyed none is left open.\<close>

fun connect_calls :: "(int option \<times> poll_event list \<times> (int \<Rightarrow> bool)) list \<Rightarrow> poll_list \<Rightarrow> (poll_list \<times> int list \<times> int list \<times> int list) option" where
  "connect_calls [] l = Some (l, [], [], [])"
| "connect_calls ((new, evs, connected) # cs) l =
    (case sock_multiConnect l new evs connected of
       None \<Rightarrow> None
     | Some (fd, l', cl) \<Rightarrow> map_option (\<lambda>(l'', opened, closed, ret). (l'', new_socket l new @ opened, cl @ closed, (if fd \<ge> 0 then [fd] else []) @ ret)) (connect_calls cs l'))"

theorem connect_keeps_sockets:
  assumes "poll_wf l" "pl_count l = 0" "\<forall>(new, evs, connected)\<in>set cs. \<forall>fd\<in>set_option new. fd \<ge> - 1"
  shows "\<exists>l' opened closed ret rest. connect_calls cs l = Some (l', opened, closed, ret) \<and> sock_destroyPollList l' = Some rest \<and> mset opened = mset ret + mset closed + mset rest"
proof -
  have "\<exists>l' opened closed ret. connect_calls cs l = Some (l', opened, closed, ret) \<and> poll_wf l' \<and> mset (poll_fds l) + mset opened = mset (poll_fds l') + mset ret + mset closed"
    using assms(1,3)
  proof (induction cs arbitrary: l)
    case (Cons c cs)
    obtain new evs connected where c: "c = (new, evs, connected)" by (cases c)
    obtain fd l1 cl where s: "sock_multiConnect l new evs connected = Some (fd, l1, cl)" "poll_wf l1" "mset (poll_fds l) + mset (new_socket l new) = mset (poll_fds l1) + mset cl + returned fd"
      using multiConnect_ok [OF Cons.prems(1), of new evs connected] Cons.prems(2) by (auto simp: c)
    obtain l' opened closed ret where r: "connect_calls cs l1 = Some (l', opened, closed, ret)" "poll_wf l'" "mset (poll_fds l1) + mset opened = mset (poll_fds l') + mset ret + mset closed"
      using Cons.IH [OF s(2)] Cons.prems(2) by auto
    have "mset (poll_fds l) + (mset (new_socket l new) + mset opened) = mset (poll_fds l') + (returned fd + mset ret) + (mset cl + mset closed)"
      using s(3) r(3) by (metis (no_types, lifting) add.assoc add.commute add.left_commute)
    then show ?case using s(1) r(1,2) by (auto simp: c returned_def)
  qed auto
  then obtain l' opened closed ret where r: "connect_calls cs l = Some (l', opened, closed, ret)" "poll_wf l'" "mset (poll_fds l) + mset opened = mset (poll_fds l') + mset ret + mset closed" by blast
  have "filter (\<lambda>fd. fd \<ge> 0) (poll_fds l') = poll_fds l'" using r(2) by (auto simp: poll_wf_def poll_fds_def intro: filter_True)
  then have "sock_destroyPollList l' = Some (poll_fds l')" using r(2) by (simp add: sock_destroyPollList_def poll_wf_def poll_fds_def)
  moreover have "poll_fds l = []" using assms(2) by (simp add: poll_fds_def)
  ultimately show ?thesis using r(1,3) by (auto simp: ac_simps)
qed

text \<open>Adding a socket with \<open>sock_append\<close> spoils the list: the counter grows by three, the mask of events goes to another entry than the socket, and with one place left the
  function writes behind the array.\<close>

theorem sock_append_counts_three:
  assumes "poll_wf l" "sock \<ge> 0" "pl_count l < MAXLISTEN"
  shows "if pl_count l = MAXLISTEN - 1 then sock_append l sock r w = None
    else \<exists>l'. sock_append l sock r w = Some (True, l') \<and> pl_count l' = pl_count l + 3 \<and> pf_events (pl_entry l' ! pl_count l) = pf_events (pl_entry l ! pl_count l)"
  using assms by (auto simp: sock_append_def Let_def poll_wf_def MAXLISTEN_def)

text \<open>A name that resolves to more addresses than there is room for is written behind the array.\<close>

theorem resolve_overflow:
  assumes "length dest = cnt" "0 < cnt" "getaddrinfo a (dec (unat PORT)) = Some sas" "split_port address = (a, None)" "\<forall>sa\<in>set sas. fst sa = HOST_IP4" "length sas > cnt"
  shows "sock_resolveToDnbd3Host getaddrinfo address dest cnt = None"
proof -
  have "n \<le> length d \<Longrightarrow> \<forall>sa\<in>set sas. fst sa = HOST_IP4 \<Longrightarrow> n + length sas > length d \<Longrightarrow> resolve_loop cnt sas d n = None" for d n sas
    using assms(2)
  proof (induction sas arbitrary: d n)
    case (Cons sa sas)
    then show ?case by (cases sa) (auto simp: sock_sockaddrToDnbd3_def)
  qed simp
  then show ?thesis using assms by (simp add: sock_resolveToDnbd3Host_def)
qed

section \<open>Examples\<close>

definition sample_poll_list :: poll_list where
  "sample_poll_list = sock_newPollList (replicate MAXLISTEN \<lparr>pf_fd = 77, pf_events = 0, pf_revents = 0\<rparr>)"

lemma sample_poll_list_wf: "poll_wf sample_poll_list" "pl_count sample_poll_list = 0"
  by (simp_all add: sample_poll_list_def sock_newPollList_def poll_wf_def)

theorem connect_keeps_sockets_witness:
  "\<exists>l' opened closed ret rest. connect_calls [(Some 5, [Poll_timeout], \<lambda>_. True), (Some 6, [Poll_again, Poll_ready [0x10, 4]], \<lambda>_. True), (Some (- 1), [Poll_ready [8]], \<lambda>_. True)] sample_poll_list
     = Some (l', opened, closed, ret) \<and> sock_destroyPollList l' = Some rest \<and> mset opened = mset ret + mset closed + mset rest"
  using connect_keeps_sockets [OF sample_poll_list_wf, of "[(Some 5, [Poll_timeout], \<lambda>_. True), (Some 6, [Poll_again, Poll_ready [0x10, 4]], \<lambda>_. True), (Some (- 1), [Poll_ready [8]], \<lambda>_. True)]"] by simp

theorem sock_append_counts_three_witness: "\<exists>l'. sock_append sample_poll_list 5 True False = Some (True, l') \<and> pl_count l' = 3"
  using sock_append_counts_three [OF sample_poll_list_wf(1), of 5 True False] by (simp add: sample_poll_list_wf(2) MAXLISTEN_def) blast

theorem resolve_overflow_witness:
  "sock_resolveToDnbd3Host (\<lambda>_ _. Some (replicate 3 (HOST_IP4, 0, [1, 2, 3, 4]))) ''images'' (replicate 2 \<lparr>addr = replicate 16 0, port = 0, host_type = 0\<rparr>) 2 = None"
  by (rule resolve_overflow [where a = "''images''" and sas = "replicate 3 (HOST_IP4, 0, [1, 2, 3, 4])"]) (simp_all add: split_port_def HOST_IP4_def)

end
