(* ===== verification/Spec2Isabelle.thy ===== *)
theory Spec2Isabelle
  imports Crc32 Client_Session Integrity Fuse_Probe Fuse_Main Config_Load Rpc Thread_Pool Poll_List
begin

text \<open>
  DNBD3 is a network block device for read-only disk images. A server (\<open>src/server\<close>) keeps images as files, or acts as a proxy
  that fetches missing blocks from other servers and keeps them; clients ask a server for blocks. The fuse client (\<open>src/fuse\<close>) mounts an image
  as a file, keeps a table of alternative servers, and changes the server while reads are pending. Both sides share the
  message formats (\<open>src/types.h\<close>, \<open>src/shared\<close>). This development models the server and the fuse client and proves what makes them correct.

  \<^bold>\<open>Conventions.\<close> C integers have their width as words (\<open>u8\<close>, \<open>u16\<close>, \<open>u32\<close>, \<open>u64\<close>) where wrap-around can
  matter; \<open>int\<close> members that a proof shows to stay in range are integers. Structures are records, arrays are lists, the heap is a map from addresses.
  A failed assertion, an access outside of an array or through a dangling pointer is the result \<open>None\<close>, so a theorem that a result is \<open>Some\<close>
  says that this does not happen. What lies outside of the program is an argument: the bytes that arrive on a socket are a list of events, one for
  each call of \<open>recv\<close>, results of \<open>send\<close>, \<open>sendfile\<close>, \<open>pread\<close> and \<open>pwrite\<close>, the contents of directories, clock readings,
  random numbers and the addresses that \<open>malloc\<close> returns. A function runs atomically where the code holds a lock; the places where
  other threads can come in between are steps of their own (\<open>Fuse_Threads\<close>, \<open>Uplink_Queue\<close>) or take what the others did as an argument
  (\<open>Integrity\<close>). \<open>uplink_sendRequests\<close> and the answers to waiting clients, which release the lock of the queue around each send, are one step each.
  Both byte orders of a host are modelled. Loops are recursive functions with a termination proof. The loops along linked
  lists are partial functions in the option monad; the theorems on them show that they return. There is no fuel.

  \<^bold>\<open>Shared parts.\<close>
  \<^item> \<open>Dnbd3_Prelude\<close>: names of the machine integers, collections of rewrite rules, bytes of integers, alignment arithmetic, list lemmas.
  \<^item> \<open>Protocol_Types\<close> (\<open>types.h\<close>, \<open>config.h\<close>, \<open>server/helper.h\<close>): headers, their memory layout, the byte order macros, host addresses.
  \<^item> \<open>Serialize\<close> (\<open>serialize.c\<close>), \<open>Timing\<close> (\<open>shared/timing.h\<close>), \<open>Crc32\<close> (\<open>shared/crc32.c\<close>), \<open>Sock_Helper\<close> (\<open>sock_recv\<close> and
    \<open>sock_sendAll\<close> of \<open>shared/sockhelper.c\<close>): round trips, rounding, equality of the table driven checksum with its bitwise definition, delivery
    of exactly the next bytes of the stream however it is cut into pieces. \<open>Poll_List\<close> (the rest of \<open>sockhelper.c\<close>): connecting, listening and accepting; no
    socket is lost or closed twice.
  \<^item> \<open>Protocol\<close> (\<open>shared/protocol.h\<close>): the messages; what one host sends the other host reads, for every combination of byte orders.

  \<^bold>\<open>Server.\<close>
  \<^item> \<open>Cache_Map\<close> (\<open>server/image.c\<close>, \<open>net.c\<close>, \<open>uplink.c\<close>): the bitmap of cached blocks, seen as the set of cached blocks; the locale
    \<open>block_cache\<close> is the interface that the connections use.
  \<^item> \<open>Slot_Table\<close>: the arrays of pointers with free slots; the locale \<open>slot_table\<close> gives the laws of adding and removing.
  \<^item> \<open>Image_List\<close>, \<open>Image_Crc\<close>, \<open>Image_Load\<close> (\<open>server/image.c\<close>): the list of images with reference counts, checksum lists, finding,
    loading and cloning images. The invariant says that reference counters are exact and that nothing refers to a freed image.
  \<^item> \<open>Integrity\<close> (\<open>server/integrity.c\<close>): the queue of hash blocks to check and the checking thread; a check that was asked for stays in the queue until it
    is done, a visit takes exactly the corrupt blocks out of the cache map, every check ends.
  \<^item> \<open>Uplink_Queue\<close>, \<open>Uplink_Thread\<close> (\<open>server/uplink.c\<close>): requests that a proxy relays, as a state machine: answers are right, cached
    blocks hold the data of the upstream server, a request starves only when the client it depends on has left, switching the server loses nothing,
    and replies that are wrong do no more harm than an assertion on a range behind the image.
  \<^item> \<open>Alt_Servers\<close> (\<open>server/altservers.c\<close>): the table of other servers, the lists for clients and uplinks, measurements.
  \<^item> \<open>Net_Server\<close>, \<open>Client_Session\<close> (\<open>server/net.c\<close>): the handshake, all requests of a client, the list of clients, and the whole life of a
    connection. The locale \<open>image_source\<close> is what a connection needs of the image list; it is interpreted on \<open>image_get\<close> and
    on \<open>image_getOrLoad\<close>.
  \<^item> \<open>Text_Util\<close> (\<open>server/helper.c\<close>, \<open>server/fileutil.c\<close>): addresses and numbers as text, files read line by line. \<open>Config\<close>, \<open>Config_Load\<close>
    (\<open>server/ini.c\<close>, \<open>server/globals.c\<close>): the configuration file, its settings and limits; what the server prints as its configuration is read back as it was.
  \<^item> \<open>Http_Parser\<close> (the requests of \<open>server/picohttpparser\<close>), \<open>Url_Decode\<close> (\<open>server/urldecode.c\<close>), \<open>Rpc_Acl\<close>, \<open>Rpc\<close> (\<open>server/rpc.c\<close>): the
    status interface. The locale \<open>incremental\<close> is the contract of a stage of the parser: what it accepts it accepts whatever follows, and for everything
    shorter it asks for more. Together they show that pipelined requests are answered in order however they are cut, that an answer discloses only what the
    access rules permit, and that every session ends without leaving its buffer. The parser works on the list of the bytes up to \<open>buf_end\<close>, where reading on is
    asking for more; copying, receiving and decoding in place are checked against the end of the memory.
  \<^item> \<open>Thread_Pool\<close> (\<open>server/threadpool.c\<close>, \<open>shared/fdsignal.inc/eventfd.c\<close>): callers and worker threads in any order; no job is lost or run twice, and
    when nobody can go on all jobs are done.

  \<^bold>\<open>Fuse client.\<close>
  \<^item> \<open>Fuse_Queue\<close> (\<open>enqueueRequest\<close>, \<open>removeRequest\<close> of \<open>fuse/connection.c\<close>): the linked list of pending requests in the heap implements a
    list of addresses; the locale \<open>pending_queue\<close> is its interface.
  \<^item> \<open>Fuse_Servers\<close> (\<open>addAltServers\<close>, \<open>sortAltServers\<close> and the arithmetic of \<open>probeAltServers\<close>): the table of servers.
  \<^item> \<open>Fuse_Connection\<close> (\<open>connection_read\<close>, \<open>connection_receiveThreadMain\<close>, \<open>switchConnection\<close> and their helpers): the steps of the threads.
  \<^item> \<open>Fuse_Threads\<close>: all interleavings of the threads, \<open>fuse_reach\<close>. Each accepted read is in exactly one place until it is answered, each answer is right
    if the servers are honest, and each step follows only pointers to allocated requests, with three exceptions that are named.
  \<^item> \<open>Fuse_Probe\<close> (\<open>probeAltServers\<close>, \<open>connection_backgroundThread\<close>): the measurements and the decision to switch.
  \<^item> \<open>Fuse_Main\<close> (the operations of \<open>fuse/main.c\<close>): attributes, lookup, directory listing, open and read; a read inside of the image is the accepting step of
    \<open>Fuse_Threads\<close>.

  \<^bold>\<open>This theory\<close> puts the two sides together: what the server sends for a block request or as its list of servers is what the client
  takes in. Together with \<open>proxy_transparent\<close> for the server and \<open>fuse_reads_correct\<close> for the client, the bytes that a program reads from the mounted
  file are those of the image on the upstream server.

  \<^bold>\<open>Behaviour that the code should not have\<close> is stated as theorems too: a late reply on an old connection can answer a request that got the
  same address (\<open>stale_reply_wrong_data\<close>), a successful direct probe drops its request (\<open>panic_switch_drops_request\<close>), the index of response times
  leaves its array (\<open>rtt_index_out_of_bounds\<close>), a requeued request is used after it was freed (\<open>fuse_requeue_use_after_free\<close>), a read behind the end
  is answered twice (\<open>read_past_end_answered_twice\<close>), a request can wait for ever when the client in front of it leaves (\<open>starved_request\<close>), and others
  in the theories of their components.

  \<^bold>\<open>Not modelled.\<close> The start of the processes and their command lines (\<open>server/server.c\<close>), the text of the JSON documents (made by a library),
  the recording of locks for debugging (\<open>server/locks.c\<close>), logging, socket options, the search for a first server in \<open>connection_init\<close>, the text of the
  status file, the benchmark, and the parts of \<open>picohttpparser\<close> that the server does not call. The kernel module and the tool that drives it are bound to
  data structures of the Linux kernel. Weak memory effects of unlocked reads are outside of the model.
\<close>

section \<open>Server and client together\<close>

text \<open>A socket on which data arrives in pieces of any size, without interruption.\<close>

definition only_data :: "recv_event list \<Rightarrow> bool" where
  "only_data es \<longleftrightarrow> (\<forall>ev\<in>set es. \<exists>d. ev = Recv_data d \<and> d \<noteq> [])"

lemma only_data_chunks: "only_data es \<Longrightarrow> chunks_ok es \<and> filter (\<lambda>ev. ev = Recv_EINTR) es = []"
  by (induction es) (auto simp: only_data_def)

lemma recv_waitall_data:
  "only_data es \<Longrightarrow> 0 < n \<Longrightarrow> n \<le> length (stream es) \<Longrightarrow>
   \<exists>es'. recv_waitall n dn es = (Got (dn @ take n (stream es)), es') \<and> stream es' = drop n (stream es) \<and> only_data es'"
proof (induction es arbitrary: n dn)
  case Nil
  then show ?case by simp
next
  case (Cons ev es)
  then obtain d where d: "ev = Recv_data d" "d \<noteq> []" and od: "only_data es" by (auto simp: only_data_def)
  consider "length d < n" | "length d = n" | "n < length d" by linarith
  then show ?case
  proof cases
    case 1
    then have "0 < n - length d" "n - length d \<le> length (stream es)" using Cons.prems(3) d by auto
    from Cons.IH [OF od this, of "dn @ d"] show ?thesis using 1 d by auto
  next
    case 2
    then show ?thesis using d od by auto
  next
    case 3
    then show ?thesis using d od Cons.prems(2) by (auto simp: only_data_def)
  qed
qed

text \<open>A reply header on such a socket, from a server of either byte order.\<close>

lemma receive_header_data:
  assumes "only_data es" "stream es = reply_mem se (fixup_reply se r) @ rest" "rp_magic r = dnbd3_packet_magic se"
  shows "\<exists>es'. receive_header ce es = (Some (r\<lparr>rp_magic := dnbd3_packet_magic ce,
      rp_handle := word_of_nat (load_native ce (store_native se 8 (unat (rp_handle r))))\<rparr>), es') \<and> stream es' = rest \<and> only_data es'"
proof -
  have l: "length (reply_mem se (fixup_reply se r)) = 16" by (simp add: reply_mem_def store_native_def split: endian.split)
  obtain es' where w: "recv_waitall 16 [] es = (Got (reply_mem se (fixup_reply se r)), es')" "stream es' = rest" "only_data es'"
    using recv_waitall_data [OF assms(1), of 16 "[]"] assms(2) l by auto
  then have "dnbd3_read_reply ce True es = (REPLY_OK (r\<lparr>rp_magic := dnbd3_packet_magic ce,
      rp_handle := word_of_nat (load_native ce (store_native se 8 (unat (rp_handle r))))\<rparr>), es')"
    using l by (simp add: dnbd3_read_reply_def Let_def reply_over_wire [OF assms(3)])
  then show ?thesis using w by (simp add: receive_header.simps)
qed

lemma block_reply_wire:
  "block_reply e request d = reply_mem e (fixup_reply e \<lparr>rp_magic = dnbd3_packet_magic e, rp_cmd = CMD_GET_BLOCK,
     rp_size = rq_size request, rp_handle = rq_handle request\<rparr>) @ d"
  by (simp add: block_reply_def reply_wire)

text \<open>C38. A block travels from the server to the fuse client: the client sends the request for one of its queued requests, a server of any byte
  order decodes it and sends the reply of \<open>net_handleNewConnection\<close> with the data, the bytes arrive in
  any pieces. The receiving thread of the client then takes exactly this request from the list, and what follows on the socket is
  the data. So a server that runs this code meets what the correctness of the client's reads assumes.\<close>

theorem block_reaches_request:
  assumes "queue_is (requests s) ps" "p \<in> set ps" "cells s p = Some r"
    "q = fixup_request se (request_of_mem se (request_mem ce (fixup_request ce (get_block_request ce (a_offset r) (a_length r) p 0))))"
    "only_data es" "stream es = block_reply se q d @ rest"
  shows "offset_small q = take_bit 56 (a_offset r) \<and> rq_size q = a_length r \<and>
    (\<exists>reply es1 es2 s'. receive_header ce es = (Some reply, es1) \<and> take_reply ce reply es1 s = Some (Taken p, es2, s')
      \<and> queue_is (requests s') (remove1 p ps) \<and> stream es2 = d @ rest)"
proof -
  let ?g = "get_block_request ce (a_offset r) (a_length r) p 0"
  have m: "rq_magic ?g = dnbd3_packet_magic ce" by (simp add: get_block_request_def set_hops_def)
  have q: "q = ?g\<lparr>rq_magic := dnbd3_packet_magic se, rq_handle := word_of_nat (load_native se (store_native ce 8 (unat p)))\<rparr>"
    unfolding assms(4) request_over_wire [OF m] by simp
  have sz: "rq_size q = a_length r" unfolding q by simp
  have off: "offset_small q = take_bit 56 (a_offset r)"
  proof -
    have "offset_small ?g = take_bit 56 (a_offset r)" by (simp add: get_block_request_def) (simp add: offset_small_def)
    moreover have "offset_small q = offset_small ?g" by (simp add: q offset_small_def)
    ultimately show ?thesis by simp
  qed
  let ?rp = "\<lparr>rp_magic = dnbd3_packet_magic se, rp_cmd = CMD_GET_BLOCK, rp_size = rq_size q, rp_handle = rq_handle q\<rparr>"
  have st: "stream es = reply_mem se (fixup_reply se ?rp) @ (d @ rest)" using assms(6) unfolding block_reply_wire by simp
  obtain es1 where h: "receive_header ce es = (Some \<lparr>rp_magic = dnbd3_packet_magic ce, rp_cmd = CMD_GET_BLOCK, rp_size = rq_size q, rp_handle = p\<rparr>, es1)"
      "stream es1 = d @ rest"
    using receive_header_data [OF assms(5) st, of ce] handle_echo [of ce se p] by (auto simp: q)
  obtain q' where "removeRequest p (requests s) = Some (p, q')" "queue_is q' (remove1 p ps)"
    using removeRequest_queue [OF assms(1), of p] assms(2) by auto
  moreover have "p \<noteq> 0" using queue_is_law [OF assms(1)] assms(2) by auto
  ultimately show ?thesis using h off sz by (auto simp: take_reply_def Let_def)
qed


definition sample_block_request :: "dnbd3_request" where
  "sample_block_request = fixup_request BE (request_of_mem BE (request_mem LE (fixup_request LE (get_block_request LE 0 4096 16 0))))"

theorem block_reaches_request_witness:
  "\<exists>reply es1 es2 s'. receive_header LE [Recv_data (block_reply BE sample_block_request [7]), Recv_data [9]] = (Some reply, es1)
    \<and> take_reply LE reply es1 sample_fuse = Some (Taken 16, es2, s') \<and> queue_is (requests s') [32] \<and> stream es2 = [7, 9]"
proof -
  have c: "cells sample_fuse 16 = Some ((sample_async 1)\<lparr>a_next := 32\<rparr>)" by (simp add: sample_fuse_def)
  have o: "a_offset ((sample_async 1)\<lparr>a_next := 32\<rparr>) = 0" "a_length ((sample_async 1)\<lparr>a_next := 32\<rparr>) = 4096" by (simp_all add: sample_async_def)
  have d: "only_data [Recv_data (block_reply BE sample_block_request [7]), Recv_data [9]]" by (simp add: only_data_def block_reply_def)
  show ?thesis using block_reaches_request [OF sample_fuse_queue _ c _ d, where d = "[7]" and se = BE and ce = LE and rest = "[9]" and q = sample_block_request] o
    by (simp add: sample_block_request_def)
qed

text \<open>The entries of a server list, written by the server and read by the client.\<close>

lemma entry_of_mem_entry:
  assumes "length (addr (se_host s)) = 16"
  shows "entry_of_mem e (entry_mem e s) = s" "length (entry_mem e s) = 20"
proof -
  have l: "length (store_native e 2 n) = 2" for n by (simp add: store_native_def split: endian.split)
  then show "length (entry_mem e s) = 20" using assms by (simp add: entry_mem_def)
  show "entry_of_mem e (entry_mem e s) = s"
    using assms l by (simp add: entry_of_mem_def entry_mem_def nth_append load_store_words)
qed

lemma entries_of_mem_entries:
  "(\<forall>s\<in>set servers. length (addr (se_host s)) = 16) \<Longrightarrow>
   entries_of_mem e (length servers) (concat (map (entry_mem e) servers)) = servers \<and> length (concat (map (entry_mem e) servers)) = 20 * length servers"
  by (induction servers) (auto simp: entry_of_mem_entry)

text \<open>A server list travels from the server to the fuse client: the client stores exactly the entries
  that the server sent, in their order, in front of its array, and the next reply starts behind them.\<close>

theorem server_list_roundtrip:
  assumes "\<forall>x\<in>set servers. length (addr (se_host x)) = 16" "length servers \<le> NUMBER_SERVERS"
    "only_data es" "stream es = concat (map (entry_mem e) servers) @ rest"
    "rp_cmd hdr = CMD_GET_SERVERS" "rp_size hdr = word_of_nat (length servers * 20)"
  shows "\<exists>es'. take_reply e hdr es s = Some (Waiting, es', s\<lparr>newservers := servers @ drop (length servers) (newservers s)\<rparr>)
    \<and> stream es' = rest"
proof -
  note en = entries_of_mem_entries [OF assms(1), of e]
  have sz: "unat (rp_size hdr) = 20 * length servers"
    unfolding assms(6) using assms(2) by (simp only: unat_of_nat) (simp add: NUMBER_SERVERS_def)
  obtain es' where r: "sock_recv (20 * length servers) es = (int (20 * length servers), concat (map (entry_mem e) servers), es')" "stream es' = rest"
    using sock_recv_complete [of es "20 * length servers"] only_data_chunks [OF assms(3)] en assms(4) by auto
  have "min (length servers) MAX_ALTS = length servers" using assms(2) by (simp add: NUMBER_SERVERS_def MAX_ALTS_def)
  then show ?thesis
    using r en assms(5) sz by (simp add: take_reply_def Let_def throwDataAway.simps [of 0] memcpy_def CMD_GET_SERVERS_def CMD_GET_BLOCK_def)
qed

end
